(* ===== verification/Prelude.thy ===== *)
theory Prelude
  imports Main "HOL-Library.Monad_Syntax" "HOL-Library.Word" "HOL-Library.Multiset"
begin

text \<open>
  Shared vocabulary of the development: how a kernel function that may not return is
  written, the error codes and constants of the headers, the rounding macros, and the
  generic lemmas the component theories use.

  A C function of the kernel that may stop is a function into \<^verbatim>\<open>option\<close>. \<^verbatim>\<open>None\<close> is
  "the call does not return": a failed \<^verbatim>\<open>assert\<close> calls \<^verbatim>\<open>panic\<close>
  (kern/debug/assert.h), which enters the monitor and never comes back, and a loop that
  runs forever does not return either. Functions that return a C error code return an
  \<^verbatim>\<open>int\<close>: 0 for success and the negated code of libs/error.h otherwise.
\<close>

named_theorems ring_intro \<open>rules that establish the ring abstraction of a linked list\<close>
named_theorems ring_simp \<open>rewrite rules that read a linked list through its abstraction\<close>

section \<open>Calls that may not return\<close>

definition kassert :: "bool \<Rightarrow> unit option" where
  "kassert b = (if b then Some () else None)"

lemma kassert_bind [simp]: "(kassert b \<bind> f) = (if b then f () else None)"
  by (simp add: kassert_def)

lemma kassert_eq_Some [simp]: "kassert b = Some u \<longleftrightarrow> b"
  by (simp add: kassert_def)

lemmas bind_Some_iff = Option.bind_eq_Some_conv

section \<open>Error codes (libs/error.h)\<close>

abbreviation E_INVAL :: int where "E_INVAL \<equiv> 3"
abbreviation E_NO_MEM :: int where "E_NO_MEM \<equiv> 4"
abbreviation E_NO_DEV :: int where "E_NO_DEV \<equiv> 13"
abbreviation E_NA_DEV :: int where "E_NA_DEV \<equiv> 14"
abbreviation E_BUSY :: int where "E_BUSY \<equiv> 15"
abbreviation E_NOENT :: int where "E_NOENT \<equiv> 16"
abbreviation E_MAX_OPEN :: int where "E_MAX_OPEN \<equiv> 22"
abbreviation E_TOO_BIG :: int where "E_TOO_BIG \<equiv> 12"
abbreviation E_NOTDIR :: int where "E_NOTDIR \<equiv> 18"
abbreviation E_EXISTS :: int where "E_EXISTS \<equiv> 23"

section \<open>Sizes and rounding (libs/defs.h, kern/mm/mmu.h)\<close>

abbreviation PGSIZE :: nat where "PGSIZE \<equiv> 4096"

text \<open>The number of the first physical page, \<^verbatim>\<open>nbase\<close> of kern/mm/pmm.c.\<close>

abbreviation nbase :: nat where "nbase \<equiv> 0x80000"

text \<open>
  \<^verbatim>\<open>unsigned int\<close> and \<^verbatim>\<open>size_t\<close> values are natural numbers, with the reduction
  modulo the width written out where the code stores or adds them.
\<close>

abbreviation w32 :: "nat \<Rightarrow> nat" where "w32 n \<equiv> n mod 2 ^ 32"
abbreviation w64 :: "nat \<Rightarrow> nat" where "w64 n \<equiv> n mod 2 ^ 64"

definition ROUNDDOWN :: "nat \<Rightarrow> nat \<Rightarrow> nat" where
  "ROUNDDOWN a n = a - a mod n"

definition ROUNDUP :: "nat \<Rightarrow> nat \<Rightarrow> nat" where
  "ROUNDUP a n = ROUNDDOWN (w64 (a + n - 1)) n"

definition ROUNDUP_DIV :: "nat \<Rightarrow> nat \<Rightarrow> nat" where
  "ROUNDUP_DIV a n = (w64 (a + n - 1)) div n"

lemma ROUNDDOWN_mult: "ROUNDDOWN a n = n * (a div n)"
  by (simp add: ROUNDDOWN_def minus_mod_eq_mult_div)

lemma ROUNDDOWN_le: "ROUNDDOWN a n \<le> a"
  by (simp add: ROUNDDOWN_def)

lemma ROUNDDOWN_dvd: "n dvd ROUNDDOWN a n"
  by (simp add: ROUNDDOWN_mult)

lemma ROUNDDOWN_gt: "0 < n \<Longrightarrow> a < ROUNDDOWN a n + n"
  using mod_less_divisor [of n a] mod_less_eq_dividend [of a n]
  unfolding ROUNDDOWN_def by linarith

lemma ROUNDDOWN_id: "n dvd a \<Longrightarrow> ROUNDDOWN a n = a"
  by (simp add: ROUNDDOWN_mult)

lemma ROUNDUP_ge: "0 < n \<Longrightarrow> a + n \<le> 2 ^ 64 \<Longrightarrow> a \<le> ROUNDUP a n"
  using ROUNDDOWN_gt [of n "a + n - 1"] by (simp add: ROUNDUP_def)

lemma ROUNDUP_dvd: "n dvd ROUNDUP a n"
  by (simp add: ROUNDUP_def ROUNDDOWN_dvd)

lemma ROUNDUP_lt: "0 < n \<Longrightarrow> a + n \<le> 2 ^ 64 \<Longrightarrow> ROUNDUP a n < a + n"
  using ROUNDDOWN_le [of "a + n - 1" n] by (simp add: ROUNDUP_def)

lemma w32_minus:
  assumes "n \<le> m" "m < 2 ^ 32"
  shows "w32 (m + (2 ^ 32 - w32 n)) = m - n"
proof -
  have "w32 n = n" using assms by simp
  then have eq: "m + (2 ^ 32 - w32 n) = (m - n) + 2 ^ 32"
    using assms by simp
  have "m - n < 2 ^ 32" using assms by simp
  then show ?thesis unfolding eq by (simp only: mod_add_self2 mod_less)
qed

section \<open>Lists\<close>

lemma last_Cons_snoc [simp]: "last (a # xs @ [y]) = y"
  by simp

lemma nat_lt_cases2: "(i :: nat) < 2 \<longleftrightarrow> i = 0 \<or> i = 1"
  by auto

end
