(* ===== verification/DList.thy ===== *)
theory DList
  imports Prelude
begin

text \<open>
  libs/list.h: the circular doubly linked list every component of the kernel links its
  structures with. An entry is an address of type \<^verbatim>\<open>'e\<close>; the two pointer fields of
  all entries are one store, the record \<^verbatim>\<open>links\<close>. The operations update the store
  as the C code does. The abstraction \<^verbatim>\<open>ring l h xs\<close> says that the list with head
  \<^verbatim>\<open>h\<close> holds the entries \<^verbatim>\<open>xs\<close> in this order, with both pointer directions
  consistent; every operation is proved to refine its list operation.
\<close>

section \<open>The operations\<close>

record 'e links =
  prv :: "'e \<Rightarrow> 'e"
  nxt :: "'e \<Rightarrow> 'e"

definition list_init :: "'e \<Rightarrow> 'e links \<Rightarrow> 'e links" where
  "list_init elm l = l\<lparr>prv := (prv l)(elm := elm), nxt := (nxt l)(elm := elm)\<rparr>"

definition list_add_between :: "'e \<Rightarrow> 'e \<Rightarrow> 'e \<Rightarrow> 'e links \<Rightarrow> 'e links" where
  "list_add_between elm p n l =
     (let l1 = l\<lparr>prv := (prv l)(n := elm)\<rparr>;
          l2 = l1\<lparr>nxt := (nxt l1)(p := elm)\<rparr>;
          l3 = l2\<lparr>nxt := (nxt l2)(elm := n)\<rparr>
      in l3\<lparr>prv := (prv l3)(elm := p)\<rparr>)"

definition list_del_between :: "'e \<Rightarrow> 'e \<Rightarrow> 'e links \<Rightarrow> 'e links" where
  "list_del_between p n l =
     (let l1 = l\<lparr>nxt := (nxt l)(p := n)\<rparr>
      in l1\<lparr>prv := (prv l1)(n := p)\<rparr>)"

definition list_add_before :: "'e \<Rightarrow> 'e \<Rightarrow> 'e links \<Rightarrow> 'e links" where
  "list_add_before listelm elm l = list_add_between elm (prv l listelm) listelm l"

definition list_add_after :: "'e \<Rightarrow> 'e \<Rightarrow> 'e links \<Rightarrow> 'e links" where
  "list_add_after listelm elm l = list_add_between elm listelm (nxt l listelm) l"

definition list_add :: "'e \<Rightarrow> 'e \<Rightarrow> 'e links \<Rightarrow> 'e links" where
  "list_add listelm elm l = list_add_after listelm elm l"

definition list_del :: "'e \<Rightarrow> 'e links \<Rightarrow> 'e links" where
  "list_del listelm l = list_del_between (prv l listelm) (nxt l listelm) l"

definition list_del_init :: "'e \<Rightarrow> 'e links \<Rightarrow> 'e links" where
  "list_del_init listelm l = list_init listelm (list_del listelm l)"

definition list_empty :: "'e \<Rightarrow> 'e links \<Rightarrow> bool" where
  "list_empty h l \<longleftrightarrow> nxt l h = h"

definition list_next :: "'e \<Rightarrow> 'e links \<Rightarrow> 'e" where
  "list_next listelm l = nxt l listelm"

definition list_prev :: "'e \<Rightarrow> 'e links \<Rightarrow> 'e" where
  "list_prev listelm l = prv l listelm"

lemmas list_add_defs = list_add_def list_add_after_def list_add_before_def
  list_add_between_def
lemmas list_del_defs = list_del_init_def list_del_def list_del_between_def

section \<open>The abstraction\<close>

fun chain :: "'e links \<Rightarrow> 'e \<Rightarrow> 'e list \<Rightarrow> 'e \<Rightarrow> bool" where
  "chain l a [] b \<longleftrightarrow> nxt l a = b \<and> prv l b = a"
| "chain l a (x # xs) b \<longleftrightarrow> nxt l a = x \<and> prv l x = a \<and> chain l x xs b"

definition ring :: "'e links \<Rightarrow> 'e \<Rightarrow> 'e list \<Rightarrow> bool" where
  "ring l h xs \<longleftrightarrow> distinct (h # xs) \<and> chain l h xs h"

lemma chain_append [simp]:
  "chain l a (xs @ y # ys) b \<longleftrightarrow> chain l a xs y \<and> chain l y ys b"
  by (induction xs arbitrary: a) auto

lemma chain_nxt_frame:
  "e \<noteq> a \<Longrightarrow> e \<notin> set xs \<Longrightarrow> chain (l\<lparr>nxt := (nxt l)(e := v)\<rparr>) a xs b = chain l a xs b"
  by (induction xs arbitrary: a) auto

lemma chain_prv_frame:
  "e \<noteq> b \<Longrightarrow> e \<notin> set xs \<Longrightarrow> chain (l\<lparr>prv := (prv l)(e := v)\<rparr>) a xs b = chain l a xs b"
  by (induction xs arbitrary: a) auto

lemma chain_cong:
  assumes "\<And>e. e = a \<or> e \<in> set xs \<Longrightarrow> nxt l' e = nxt l e"
    and "\<And>e. e = b \<or> e \<in> set xs \<Longrightarrow> prv l' e = prv l e"
  shows "chain l' a xs b = chain l a xs b"
  using assms by (induction xs arbitrary: a) auto

lemma chain_first: "chain l a xs b \<Longrightarrow> nxt l a = hd (xs @ [b])"
  by (cases xs) auto

lemma chain_last: "chain l a xs b \<Longrightarrow> prv l b = last (a # xs)"
  by (induction xs arbitrary: a) auto

lemma ring_cong:
  assumes "\<And>e. e = h \<or> e \<in> set xs \<Longrightarrow> nxt l' e = nxt l e \<and> prv l' e = prv l e"
  shows "ring l' h xs = ring l h xs"
proof -
  have "chain l' h xs h = chain l h xs h"
    by (rule chain_cong) (use assms in auto)
  then show ?thesis by (simp add: ring_def)
qed

lemma ring_distinct: "ring l h xs \<Longrightarrow> distinct (h # xs)"
  by (simp add: ring_def)

lemma ring_chain: "ring l h xs \<Longrightarrow> chain l h xs h"
  by (simp add: ring_def)

lemma ring_next [ring_simp]: "ring l h xs \<Longrightarrow> nxt l h = hd (xs @ [h])"
  by (auto simp: ring_def dest: chain_first)

lemma ring_prev [ring_simp]: "ring l h xs \<Longrightarrow> prv l h = last (h # xs)"
  by (auto simp: ring_def dest: chain_last)

lemma ring_next_mid: "ring l h (xs @ e # ys) \<Longrightarrow> nxt l e = hd (ys @ [h])"
  by (auto simp: ring_def dest: chain_first)

lemma ring_prev_mid: "ring l h (xs @ e # ys) \<Longrightarrow> prv l e = last (h # xs)"
  by (auto simp: ring_def dest: chain_last)

lemma ring_empty_iff: "ring l h xs \<Longrightarrow> list_empty h l \<longleftrightarrow> xs = []"
  by (cases xs) (auto simp: ring_def list_empty_def)

lemma ring_init [ring_intro]: "ring (list_init h l) h []"
  by (simp add: ring_def list_init_def)

lemma ring_unique: "ring l h xs \<Longrightarrow> ring l h ys \<Longrightarrow> xs = ys"
proof -
  have "chain l a xs h \<Longrightarrow> chain l a ys h \<Longrightarrow> h \<notin> set xs \<Longrightarrow> h \<notin> set ys \<Longrightarrow> xs = ys" for a
  proof (induction xs arbitrary: a ys)
    case Nil
    then show ?case by (cases ys) auto
  next
    case (Cons x xs)
    then show ?case by (cases ys) auto
  qed
  then show "ring l h xs \<Longrightarrow> ring l h ys \<Longrightarrow> xs = ys"
    by (auto simp: ring_def)
qed

section \<open>Insertion and deletion refine the list operations\<close>

lemma chain_left:
  assumes "chain l a us n"
    and "\<And>z. z \<in> set (butlast (a # us)) \<Longrightarrow> nxt l' z = nxt l z"
    and "\<And>z. z \<in> set us \<Longrightarrow> prv l' z = prv l z"
    and "nxt l' (last (a # us)) = e" "prv l' e = last (a # us)"
  shows "chain l' a us e"
  using assms by (induction us arbitrary: a) (auto split: if_splits)

lemma chain_right:
  assumes "chain l p vs b"
    and "nxt l' e = hd (vs @ [b])" "prv l' (hd (vs @ [b])) = e"
    and "\<And>z. z \<in> set vs \<Longrightarrow> nxt l' z = nxt l z"
    and "\<And>z. z \<in> set (tl (vs @ [b])) \<Longrightarrow> prv l' z = prv l z"
  shows "chain l' e vs b"
proof (cases vs)
  case Nil
  with assms show ?thesis by simp
next
  case (Cons w ws)
  with assms(1) have "chain l w ws b" by simp
  moreover have "chain l' w ws b = chain l w ws b"
    by (rule chain_cong) (use assms Cons in auto)
  ultimately show ?thesis using assms Cons by simp
qed

lemma chain_splitE:
  assumes "chain l a (us @ vs) b"
  shows "chain l a us (hd (vs @ [b]))" and "chain l (last (a # us)) vs b"
proof -
  show "chain l a us (hd (vs @ [b]))"
    using assms by (cases vs) auto
  show "chain l (last (a # us)) vs b"
  proof (cases us rule: rev_cases)
    case Nil
    with assms show ?thesis by simp
  next
    case (snoc ws w)
    with assms have "chain l a (ws @ w # vs) b" by simp
    with snoc show ?thesis by (simp only: chain_append) simp
  qed
qed

lemma last_in_or_eq: "last (a # us) = a \<or> last (a # us) \<in> set us"
  by (cases us rule: rev_cases) auto

lemma ring_next_last: "ring l h (us @ vs) \<Longrightarrow> nxt l (last (h # us)) = hd (vs @ [h])"
  by (rule chain_first [OF chain_splitE(2) [OF ring_chain]])

lemma ring_prev_hd: "ring l h (us @ vs) \<Longrightarrow> prv l (hd (vs @ [h])) = last (h # us)"
  by (rule chain_last [OF chain_splitE(1) [OF ring_chain]])

lemma ring_add_between:
  assumes r: "ring l h (us @ vs)" and e: "e \<noteq> h" "e \<notin> set us" "e \<notin> set vs"
    and p: "p = last (h # us)" and n: "n = hd (vs @ [h])"
  shows "ring (list_add_between e p n l) h (us @ e # vs)"
proof -
  let ?l = "list_add_between e p n l"
  have nx: "nxt ?l = (nxt l)(p := e, e := n)" and pv: "prv ?l = (prv l)(n := e, e := p)"
    by (simp_all add: list_add_between_def Let_def)
  note c = chain_splitE [OF ring_chain [OF r]]
  note d = ring_distinct [OF r]
  have pe: "p \<noteq> e" using e p last_in_or_eq [of h us] by auto
  have ne: "n \<noteq> e" using e n by (cases vs) auto
  have "chain ?l h us e"
  proof (rule chain_left [OF c(1)])
    fix z assume "z \<in> set (butlast (h # us))"
    moreover have "distinct (butlast (h # us) @ [p])"
      using d p by (metis append_butlast_last_id append_Cons distinct_append list.distinct(1))
    moreover have "set (butlast (h # us)) \<subseteq> set (h # us)"
      by (meson in_set_butlastD subsetI)
    ultimately show "nxt ?l z = nxt l z"
      using e nx by auto
  next
    fix z assume "z \<in> set us"
    then show "prv ?l z = prv l z"
      using d e n pv by (cases vs) auto
  qed (use nx pv p pe in auto)
  moreover have "chain ?l e vs h"
  proof (rule chain_right [OF c(2)])
    fix z assume "z \<in> set vs"
    then show "nxt ?l z = nxt l z"
      using d e nx p last_in_or_eq [of h us] by auto
  next
    fix z assume "z \<in> set (tl (vs @ [h]))"
    then show "prv ?l z = prv l z"
      using d e n pv by (cases vs) auto
  qed (use nx pv n ne in auto)
  ultimately show ?thesis
    using d e by (simp add: ring_def)
qed

lemma ring_add_after [ring_intro]:
  assumes "ring l h (us @ vs)" "a = last (h # us)" "e \<noteq> h" "e \<notin> set us" "e \<notin> set vs"
  shows "ring (list_add_after a e l) h (us @ e # vs)"
proof -
  have "nxt l a = hd (vs @ [h])"
    using chain_first [OF chain_splitE(2) [OF ring_chain [OF assms(1)]]] assms(2) by simp
  with assms show ?thesis
    by (simp add: list_add_after_def ring_add_between)
qed

lemma ring_add_before [ring_intro]:
  assumes "ring l h (us @ vs)" "b = hd (vs @ [h])" "e \<noteq> h" "e \<notin> set us" "e \<notin> set vs"
  shows "ring (list_add_before b e l) h (us @ e # vs)"
proof -
  have "prv l b = last (h # us)"
    using chain_last [OF chain_splitE(1) [OF ring_chain [OF assms(1)]]] assms(2) by simp
  with assms show ?thesis
    by (simp add: list_add_before_def ring_add_between)
qed

lemma ring_add_head: "ring l h xs \<Longrightarrow> e \<notin> set (h # xs) \<Longrightarrow> ring (list_add h e l) h (e # xs)"
  using ring_add_after [of l h "[]" xs h e] by (simp add: list_add_def)

lemma ring_add_tail:
  "ring l h xs \<Longrightarrow> e \<notin> set (h # xs) \<Longrightarrow> ring (list_add_before h e l) h (xs @ [e])"
  using ring_add_before [of l h xs "[]" h e] by simp

lemma ring_del [ring_intro]:
  assumes r: "ring l h (us @ e # vs)"
  shows "ring (list_del e l) h (us @ vs)"
proof -
  let ?p = "last (h # us)" and ?n = "hd (vs @ [h])" and ?l = "list_del e l"
  have pn: "prv l e = ?p" "nxt l e = ?n"
    using ring_prev_mid [OF r] ring_next_mid [OF r] by auto
  have nx: "nxt ?l = (nxt l)(?p := ?n)" and pv: "prv ?l = (prv l)(?n := ?p)"
    using pn by (simp_all add: list_del_defs Let_def)
  have c: "chain l h us e" "chain l e vs h"
    using ring_chain [OF r] by simp_all
  note d = ring_distinct [OF r]
  have "chain ?l h us ?n"
  proof (rule chain_left [OF c(1)])
    fix z assume "z \<in> set (butlast (h # us))"
    moreover have "distinct (butlast (h # us) @ [?p])"
      using d by (metis append_butlast_last_id append_Cons distinct_append list.distinct(1))
    ultimately show "nxt ?l z = nxt l z"
      using nx by (auto dest: in_set_butlastD)
  next
    fix z assume "z \<in> set us"
    then show "prv ?l z = prv l z"
      using d pv by (cases vs) auto
  qed (use nx pv in auto)
  moreover have "chain ?l ?p vs h"
  proof (rule chain_right [OF c(2)])
    fix z assume "z \<in> set vs"
    then show "nxt ?l z = nxt l z"
      using d nx last_in_or_eq [of h us] by auto
  next
    fix z assume "z \<in> set (tl (vs @ [h]))"
    then show "prv ?l z = prv l z"
      using d pv by (cases vs) auto
  qed (use nx pv in auto)
  ultimately show ?thesis
    using d by (cases us rule: rev_cases) (auto simp: ring_def)
qed

lemma ring_del_init:
  assumes "ring l h (us @ e # vs)"
  shows "ring (list_del_init e l) h (us @ vs)" and "ring (list_del_init e l) e []"
proof -
  have d: "e \<noteq> h" "e \<notin> set (us @ vs)"
    using ring_distinct [OF assms] by auto
  have "ring (list_del_init e l) h (us @ vs) = ring (list_del e l) h (us @ vs)"
    unfolding list_del_init_def list_init_def by (rule ring_cong) (use d in auto)
  then show "ring (list_del_init e l) h (us @ vs)"
    using ring_del [OF assms] by simp
  show "ring (list_del_init e l) e []"
    by (simp add: list_del_init_def ring_init)
qed

section \<open>Other lists of the store are unchanged\<close>

lemma list_add_between_other:
  "z \<noteq> e \<Longrightarrow> z \<noteq> p \<Longrightarrow> z \<noteq> n \<Longrightarrow>
     nxt (list_add_between e p n l) z = nxt l z \<and> prv (list_add_between e p n l) z = prv l z"
  by (simp add: list_add_between_def)

lemma ring_members:
  assumes "ring l h xs" "z = h \<or> z \<in> set xs"
  shows "nxt l z = h \<or> nxt l z \<in> set xs" and "prv l z = h \<or> prv l z \<in> set xs"
proof -
  have "(nxt l z = h \<or> nxt l z \<in> set xs) \<and> (prv l z = h \<or> prv l z \<in> set xs)"
  proof (cases "z = h")
    case True
    with assms(1) show ?thesis
      using last_in_or_eq [of h xs] by (cases xs) (auto simp: ring_next ring_prev)
  next
    case False
    with assms(2) obtain us vs where xs: "xs = us @ z # vs"
      by (meson split_list)
    then have "nxt l z = hd (vs @ [h])" "prv l z = last (h # us)"
      using assms(1) ring_next_mid ring_prev_mid by metis+
    then show ?thesis
      using xs last_in_or_eq [of h us] by (cases vs) auto
  qed
  then show "nxt l z = h \<or> nxt l z \<in> set xs" "prv l z = h \<or> prv l z \<in> set xs"
    by simp_all
qed

text \<open>Two lists of one store share no entry.\<close>

definition apart :: "'e \<Rightarrow> 'e list \<Rightarrow> 'e \<Rightarrow> 'e list \<Rightarrow> bool" where
  "apart h xs h' ys \<longleftrightarrow> set (h # xs) \<inter> set (h' # ys) = {}"

lemma ring_frame_add_before:
  assumes "ring l h xs" "b = h \<or> b \<in> set xs" "ring l h' ys" "apart h xs h' ys" "e \<notin> set (h' # ys)"
  shows "ring (list_add_before b e l) h' ys"
proof -
  have "prv l b = h \<or> prv l b \<in> set xs"
    using ring_members [OF assms(1,2)] by blast
  moreover have "b = h \<or> b \<in> set xs" by (rule assms)
  ultimately have out: "z \<noteq> e \<and> z \<noteq> prv l b \<and> z \<noteq> b" if "z = h' \<or> z \<in> set ys" for z
    using that assms(4,5) by (auto simp: apart_def)
  have eq: "ring (list_add_before b e l) h' ys = ring l h' ys"
  proof (rule ring_cong)
    fix z assume "z = h' \<or> z \<in> set ys"
    from out [OF this] show "nxt (list_add_before b e l) z = nxt l z \<and>
        prv (list_add_before b e l) z = prv l z"
      unfolding list_add_before_def by (intro list_add_between_other) auto
  qed
  show ?thesis unfolding eq by (rule assms(3))
qed

lemma ring_frame_add:
  assumes "ring l h xs" "ring l h' ys" "apart h xs h' ys" "e \<notin> set (h' # ys)"
  shows "ring (list_add h e l) h' ys"
proof -
  have "nxt l h = h \<or> nxt l h \<in> set xs"
    using ring_members [OF assms(1)] by blast
  then have out: "z \<noteq> e \<and> z \<noteq> h \<and> z \<noteq> nxt l h" if "z = h' \<or> z \<in> set ys" for z
    using that assms(3,4) by (auto simp: apart_def)
  have eq: "ring (list_add h e l) h' ys = ring l h' ys"
  proof (rule ring_cong)
    fix z assume "z = h' \<or> z \<in> set ys"
    from out [OF this] show "nxt (list_add h e l) z = nxt l z \<and> prv (list_add h e l) z = prv l z"
      unfolding list_add_def list_add_after_def by (intro list_add_between_other) auto
  qed
  show ?thesis unfolding eq by (rule assms(2))
qed

lemma ring_frame_del:
  assumes "ring l h xs" "e \<in> set xs" "ring l h' ys" "apart h xs h' ys"
  shows "ring (list_del e l) h' ys"
proof -
  have "nxt l e \<in> set (h # xs)" "prv l e \<in> set (h # xs)"
    using ring_members [OF assms(1), of e] assms(2) by auto
  then have out: "z \<noteq> nxt l e \<and> z \<noteq> prv l e" if "z = h' \<or> z \<in> set ys" for z
    using that assms(4) unfolding apart_def by (metis disjoint_iff list.set_intros)
  have eq: "ring (list_del e l) h' ys = ring l h' ys"
  proof (rule ring_cong)
    fix z assume "z = h' \<or> z \<in> set ys"
    from out [OF this] show "nxt (list_del e l) z = nxt l z \<and> prv (list_del e l) z = prv l z"
      by (simp add: list_del_defs)
  qed
  show ?thesis unfolding eq by (rule assms(3))
qed

lemma ring_frame_del_init:
  assumes "ring l h xs" "e \<in> set xs" "ring l h' ys" "apart h xs h' ys"
  shows "ring (list_del_init e l) h' ys"
proof -
  have "e \<noteq> h'" "e \<notin> set ys" using assms(2,4) by (auto simp: apart_def)
  then have "ring (list_del_init e l) h' ys = ring (list_del e l) h' ys"
    unfolding list_del_init_def list_init_def by (intro ring_cong) auto
  then show ?thesis using ring_frame_del [OF assms] by simp
qed

section \<open>The list as an interface: first in, first out\<close>

text \<open>
  What a queue built on the list relies on. \<^verbatim>\<open>seq l h xs\<close> relates a store to the
  sequence of entries after the head; clients add at the tail, read and delete the first
  entry, and delete anywhere.
\<close>

locale fifo_store =
  fixes seq :: "'l \<Rightarrow> 'e \<Rightarrow> 'e list \<Rightarrow> bool"
    and add_tail :: "'e \<Rightarrow> 'e \<Rightarrow> 'l \<Rightarrow> 'l"
    and del :: "'e \<Rightarrow> 'l \<Rightarrow> 'l"
    and first :: "'e \<Rightarrow> 'l \<Rightarrow> 'e"
  assumes seq_fresh: "seq l h xs \<Longrightarrow> distinct (h # xs)"
    and seq_add_tail: "seq l h xs \<Longrightarrow> e \<notin> set (h # xs) \<Longrightarrow> seq (add_tail h e l) h (xs @ [e])"
    and seq_del: "seq l h (us @ e # vs) \<Longrightarrow> seq (del e l) h (us @ vs)"
    and seq_first: "seq l h xs \<Longrightarrow> first h l = hd (xs @ [h])"
begin

primrec push_all :: "'e \<Rightarrow> 'e list \<Rightarrow> 'l \<Rightarrow> 'l" where
  "push_all h [] l = l"
| "push_all h (e # es) l = push_all h es (add_tail h e l)"

primrec pop_many :: "'e \<Rightarrow> nat \<Rightarrow> 'l \<Rightarrow> 'e list \<times> 'l" where
  "pop_many h 0 l = ([], l)"
| "pop_many h (Suc k) l =
     (let e = first h l; (es, l') = pop_many h k (del e l) in (e # es, l'))"

lemma push_all_seq:
  "seq l h xs \<Longrightarrow> distinct es \<Longrightarrow> set es \<inter> set (h # xs) = {} \<Longrightarrow> seq (push_all h es l) h (xs @ es)"
proof (induction es arbitrary: xs l)
  case Nil
  then show ?case by simp
next
  case (Cons e es)
  then have "seq (add_tail h e l) h (xs @ [e])"
    by (intro seq_add_tail) auto
  from Cons.IH [OF this] Cons.prems show ?case by auto
qed

lemma pop_seq: "seq l h (x # xs) \<Longrightarrow> first h l = x \<and> seq (del (first h l) l) h xs"
  using seq_first [of l h "x # xs"] seq_del [of l h "[]" x xs] by simp

lemma pop_many_seq:
  "seq l h (xs @ ys) \<Longrightarrow> \<exists>l'. pop_many h (length xs) l = (xs, l') \<and> seq l' h ys"
proof (induction xs arbitrary: l)
  case Nil
  then show ?case by simp
next
  case (Cons x xs)
  then have "first h l = x" "seq (del x l) h (xs @ ys)"
    using pop_seq [of l h x "xs @ ys"] by auto
  with Cons.IH show ?case by (fastforce simp: Let_def)
qed

lemma fifo_order:
  assumes "seq l h xs" "distinct es" "set es \<inter> set (h # xs) = {}"
  shows "fst (pop_many h (length xs + length es) (push_all h es l)) = xs @ es"
proof -
  have "seq (push_all h es l) h ((xs @ es) @ [])"
    using push_all_seq [OF assms] by simp
  from pop_many_seq [OF this] show ?thesis by auto
qed

end

interpretation dl: fifo_store ring list_add_before list_del list_next
  by unfold_locales
    (simp_all only: ring_distinct ring_add_tail ring_del list_next_def ring_next not_False_eq_True)

text \<open>
  Entries pushed at the tail of a kernel list are popped from its front in arrival
  order, after whatever the list held before.
\<close>

lemma list_fifo_order:
  assumes "ring l h xs" "distinct es" "set es \<inter> set (h # xs) = {}"
  shows "fst (dl.pop_many h (length xs + length es) (dl.push_all h es l)) = xs @ es"
  using assms by (rule dl.fifo_order)

end
