(* ===== verification/Pmm.thy ===== *)
theory Pmm
  imports DList
begin

text \<open>
  kern/mm/default_pmm.c of lab8: the first-fit physical page allocator. A page
  descriptor is addressed by its index in the array \<^verbatim>\<open>pages\<close>, so pointer
  arithmetic and comparison on \<^verbatim>\<open>struct Page *\<close> are arithmetic on naturals; the free
  list is the pointer list of libs/list.h, with the entry \<^verbatim>\<open>PageLink i\<close> for the field
  \<^verbatim>\<open>page_link\<close> of page \<^verbatim>\<open>i\<close>. The 32-bit counters are kept modulo \<^verbatim>\<open>2 ^ 32\<close>.
\<close>

section \<open>Data (kern/mm/memlayout.h)\<close>

record Page =
  pref :: int
  flags :: "64 word"
  property :: nat

datatype le = FreeList | PageLink nat

fun le2page :: "le \<Rightarrow> nat" where
  "le2page (PageLink p) = p"

record pmm =
  pages :: "nat \<Rightarrow> Page"
  links :: "le links"
  nr_free :: nat

definition PageReserved :: "Page \<Rightarrow> bool" where
  "PageReserved p \<longleftrightarrow> bit (flags p) 0"

definition PageProperty :: "Page \<Rightarrow> bool" where
  "PageProperty p \<longleftrightarrow> bit (flags p) 1"

definition SetPageProperty :: "Page \<Rightarrow> Page" where
  "SetPageProperty p = p\<lparr>flags := set_bit 1 (flags p)\<rparr>"

definition ClearPageProperty :: "Page \<Rightarrow> Page" where
  "ClearPageProperty p = p\<lparr>flags := unset_bit 1 (flags p)\<rparr>"

definition upd_page :: "nat \<Rightarrow> (Page \<Rightarrow> Page) \<Rightarrow> pmm \<Rightarrow> pmm" where
  "upd_page i f st = st\<lparr>pages := (pages st)(i := f (pages st i))\<rparr>"

definition upd_links :: "(le links \<Rightarrow> le links) \<Rightarrow> pmm \<Rightarrow> pmm" where
  "upd_links f st = st\<lparr>links := f (links st)\<rparr>"

section \<open>The operations (kern/mm/default_pmm.c)\<close>

definition default_init :: "pmm \<Rightarrow> pmm" where
  "default_init st = (upd_links (list_init FreeList) st)\<lparr>nr_free := 0\<rparr>"

text \<open>
  The loop that puts a block into the address-ordered free list, the same text in
  \<^verbatim>\<open>default_init_memmap\<close> and \<^verbatim>\<open>default_free_pages\<close>. The branch for the end of the
  list links the block and, as the code has no \<^verbatim>\<open>break\<close> there, goes on with the loop.
\<close>

partial_function (option) insert_walk :: "nat \<Rightarrow> le \<Rightarrow> le links \<Rightarrow> le links option" where
  "insert_walk base le0 l =
     (let le = list_next le0 l
      in if le = FreeList then Some l
         else if base < le2page le then Some (list_add_before le (PageLink base) l)
         else if list_next le l = FreeList
           then insert_walk base le (list_add le (PageLink base) l)
         else insert_walk base le l)"

definition insert_block :: "nat \<Rightarrow> le links \<Rightarrow> le links option" where
  "insert_block base l =
     (if list_empty FreeList l then Some (list_add FreeList (PageLink base) l)
      else insert_walk base FreeList l)"

fun init_pages :: "nat \<Rightarrow> nat \<Rightarrow> (nat \<Rightarrow> Page) \<Rightarrow> (nat \<Rightarrow> Page) option" where
  "init_pages 0 p pg = Some pg"
| "init_pages (Suc k) p pg =
     do { kassert (PageReserved (pg p));
          init_pages k (p + 1) (pg(p := \<lparr>pref = 0, flags = 0, property = 0\<rparr>)) }"

definition default_init_memmap :: "nat \<Rightarrow> nat \<Rightarrow> pmm \<Rightarrow> pmm option" where
  "default_init_memmap base n st =
     do { kassert (0 < n);
          pg \<leftarrow> init_pages n base (pages st);
          let st = st\<lparr>pages := pg\<rparr>;
          let st = upd_page base (\<lambda>p. p\<lparr>property := w32 n\<rparr>) st;
          let st = upd_page base SetPageProperty st;
          let st = st\<lparr>nr_free := w32 (nr_free st + n)\<rparr>;
          l \<leftarrow> insert_block base (links st);
          Some (st\<lparr>links := l\<rparr>) }"

partial_function (option) find_fit :: "nat \<Rightarrow> pmm \<Rightarrow> le \<Rightarrow> nat option option" where
  "find_fit n st le0 =
     (let le = list_next le0 (links st)
      in if le = FreeList then Some None
         else if n \<le> property (pages st (le2page le)) then Some (Some (le2page le))
         else find_fit n st le)"

text \<open>The part of \<^verbatim>\<open>default_alloc_pages\<close> after the search: unlink, split, account.\<close>

definition take_block :: "nat \<Rightarrow> nat \<Rightarrow> pmm \<Rightarrow> pmm" where
  "take_block page n st =
     (let prev = list_prev (PageLink page) (links st);
          st = upd_links (list_del (PageLink page)) st;
          st = (if n < property (pages st page) then
                  let p = page + n;
                      st = upd_page p (\<lambda>q. q\<lparr>property := w32 (property (pages st page) - n)\<rparr>) st;
                      st = upd_page p SetPageProperty st
                  in upd_links (list_add prev (PageLink p)) st
                else st);
          st = st\<lparr>nr_free := w32 (nr_free st + (2 ^ 32 - w32 n))\<rparr>
      in upd_page page ClearPageProperty st)"

definition default_alloc_pages :: "nat \<Rightarrow> pmm \<Rightarrow> (nat option \<times> pmm) option" where
  "default_alloc_pages n st =
     do { kassert (0 < n);
          if nr_free st < n then Some (None, st)
          else do {
            page \<leftarrow> find_fit n st FreeList;
            case page of
              None \<Rightarrow> Some (None, st)
            | Some p \<Rightarrow> Some (Some p, take_block p n st) } }"

fun clear_pages :: "nat \<Rightarrow> nat \<Rightarrow> (nat \<Rightarrow> Page) \<Rightarrow> (nat \<Rightarrow> Page) option" where
  "clear_pages 0 p pg = Some pg"
| "clear_pages (Suc k) p pg =
     do { kassert (\<not> PageReserved (pg p) \<and> \<not> PageProperty (pg p));
          clear_pages k (p + 1) (pg(p := (pg p)\<lparr>flags := 0, pref := 0\<rparr>)) }"

definition merge_prev :: "nat \<Rightarrow> pmm \<Rightarrow> nat \<times> pmm" where
  "merge_prev base st =
     (let le = list_prev (PageLink base) (links st)
      in if le \<noteq> FreeList \<and> le2page le + property (pages st (le2page le)) = base then
           let p = le2page le;
               st = upd_page p (\<lambda>q. q\<lparr>property := w32 (property q + property (pages st base))\<rparr>) st;
               st = upd_page base ClearPageProperty st;
               st = upd_links (list_del (PageLink base)) st
           in (p, st)
         else (base, st))"

definition merge_next :: "nat \<Rightarrow> pmm \<Rightarrow> pmm" where
  "merge_next base st =
     (let le = list_next (PageLink base) (links st)
      in if le \<noteq> FreeList \<and> base + property (pages st base) = le2page le then
           let p = le2page le;
               st = upd_page base (\<lambda>q. q\<lparr>property := w32 (property q + property (pages st p))\<rparr>) st;
               st = upd_page p ClearPageProperty st
           in upd_links (list_del (PageLink p)) st
         else st)"

definition default_free_pages :: "nat \<Rightarrow> nat \<Rightarrow> pmm \<Rightarrow> pmm option" where
  "default_free_pages base n st =
     do { kassert (0 < n);
          pg \<leftarrow> clear_pages n base (pages st);
          let st = st\<lparr>pages := pg\<rparr>;
          let st = upd_page base (\<lambda>p. p\<lparr>property := w32 n\<rparr>) st;
          let st = upd_page base SetPageProperty st;
          let st = st\<lparr>nr_free := w32 (nr_free st + n)\<rparr>;
          l \<leftarrow> insert_block base (links st);
          let (b, st) = merge_prev base (st\<lparr>links := l\<rparr>);
          Some (merge_next b st) }"

definition default_nr_free_pages :: "pmm \<Rightarrow> nat" where
  "default_nr_free_pages st = nr_free st"

lemmas upd_defs = upd_page_def upd_links_def
lemmas page_flag_defs = PageReserved_def PageProperty_def SetPageProperty_def ClearPageProperty_def

section \<open>The free list as a sequence of blocks\<close>

text \<open>
  The abstract view of the allocator: the free blocks as (first page, number of pages)
  in increasing address order, without overlap.
\<close>

type_synonym block = "nat \<times> nat"

definition heads :: "block list \<Rightarrow> le list" where
  "heads bs = map (PageLink \<circ> fst) bs"

definition ordered :: "block list \<Rightarrow> bool" where
  "ordered bs \<longleftrightarrow> sorted_wrt (\<lambda>(b, n) (b', n'). b + n \<le> b') bs \<and> (\<forall>(b, n) \<in> set bs. 0 < n)"

definition total :: "block list \<Rightarrow> nat" where
  "total bs = sum_list (map snd bs)"

definition block_pages :: "block \<Rightarrow> nat set" where
  "block_pages bn = {fst bn ..< fst bn + snd bn}"

definition free_set :: "block list \<Rightarrow> nat set" where
  "free_set bs = (\<Union>bn \<in> set bs. block_pages bn)"

definition head_ok :: "(nat \<Rightarrow> Page) \<Rightarrow> block \<Rightarrow> bool" where
  "head_ok pg bn \<longleftrightarrow> property (pg (fst bn)) = snd bn \<and> PageProperty (pg (fst bn))"

definition pmm_inv :: "pmm \<Rightarrow> block list \<Rightarrow> bool" where
  "pmm_inv st bs \<longleftrightarrow>
     ring (links st) FreeList (heads bs) \<and> ordered bs \<and> list_all (head_ok (pages st)) bs \<and>
     nr_free st = total bs \<and> total bs < 2 ^ 32"

lemma heads_simps [simp]:
  "heads [] = []" "heads (bn # bs) = PageLink (fst bn) # heads bs" "heads (xs @ ys) = heads xs @ heads ys"
  by (simp_all add: heads_def)

lemma FreeList_notin_heads [simp]: "FreeList \<notin> set (heads bs)"
  by (auto simp: heads_def)

lemma PageLink_in_heads [simp]: "PageLink p \<in> set (heads bs) \<longleftrightarrow> p \<in> fst ` set bs"
  by (auto simp: heads_def)

lemma heads_eq_Nil [simp]: "heads bs = [] \<longleftrightarrow> bs = []"
  by (simp add: heads_def)

lemma last_heads: "bs \<noteq> [] \<Longrightarrow> last (heads bs) = PageLink (fst (last bs))"
  by (simp add: heads_def last_map)

lemma hd_heads: "bs \<noteq> [] \<Longrightarrow> hd (heads bs) = PageLink (fst (hd bs))"
  by (simp add: heads_def hd_map)

lemma total_simps [simp]:
  "total [] = 0" "total (bn # bs) = snd bn + total bs" "total (xs @ ys) = total xs + total ys"
  by (simp_all add: total_def)

lemma total_member: "bn \<in> set bs \<Longrightarrow> snd bn \<le> total bs"
  unfolding total_def by (rule member_le_sum_list) simp_all

lemma ordered_Nil [simp]: "ordered []"
  by (simp add: ordered_def)

lemma ordered_Cons:
  "ordered (bn # bs) \<longleftrightarrow> 0 < snd bn \<and> (\<forall>c \<in> set bs. fst bn + snd bn \<le> fst c) \<and> ordered bs"
  by (cases bn) (auto simp: ordered_def)

lemma ordered_append:
  "ordered (xs @ ys) \<longleftrightarrow>
     ordered xs \<and> ordered ys \<and> (\<forall>x \<in> set xs. \<forall>y \<in> set ys. fst x + snd x \<le> fst y)"
  by (induction xs) (auto simp: ordered_Cons)

lemma ordered_pos: "ordered bs \<Longrightarrow> bn \<in> set bs \<Longrightarrow> 0 < snd bn"
  by (auto simp: ordered_def)

lemma ordered_midD:
  assumes "ordered (us @ (p, k) # vs)"
  shows "u \<in> set us \<Longrightarrow> fst u + snd u \<le> p \<and> fst u < p"
    and "v \<in> set vs \<Longrightarrow> p + k \<le> fst v \<and> p < fst v"
    and "0 < k" "ordered us" "ordered vs"
proof -
  show "fst u + snd u \<le> p \<and> fst u < p" if "u \<in> set us"
    using assms that ordered_pos [OF assms, of u] by (auto simp: ordered_append)
  show "p + k \<le> fst v \<and> p < fst v" if "v \<in> set vs"
    using assms that by (auto simp: ordered_append ordered_Cons)
  show "0 < k" "ordered us" "ordered vs"
    using assms by (auto simp: ordered_append ordered_Cons)
qed

lemmas ordered_simps = ordered_Cons ordered_append

lemma PageProperty_Set [simp]: "PageProperty (SetPageProperty p)"
  by (simp add: page_flag_defs bit_set_bit_iff)

lemma PageProperty_Clear [simp]: "\<not> PageProperty (ClearPageProperty p)"
  by (simp add: page_flag_defs bit_unset_bit_iff)

lemma property_flags [simp]:
  "property (SetPageProperty p) = property p" "property (ClearPageProperty p) = property p"
  by (simp_all add: page_flag_defs)

end
