(* ===== verification/PmmFirstFit.thy ===== *)
theory PmmFirstFit
  imports Pmm
begin

text \<open>
  Correctness of the first-fit allocator of kern/mm/default_pmm.c against the abstract
  free list of \<^verbatim>\<open>Pmm\<close>: allocation takes the first block that fits, freeing gives
  the range back and coalesces it with both neighbours, and the case of the code where
  neither holds, a block freed above every free block.
\<close>

section \<open>The insertion loop\<close>

lemma insert_walk_mid:
  assumes "ring l FreeList (heads (xs @ ys @ v # vs))" "\<forall>y \<in> set ys. fst y \<le> base" "base < fst v"
  shows "insert_walk base (last (FreeList # heads xs)) l =
    Some (list_add_before (PageLink (fst v)) (PageLink base) l)"
  using assms
proof (induction ys arbitrary: xs)
  case Nil
  then have "nxt l (last (FreeList # heads xs)) = PageLink (fst v)"
    using ring_next_last [of l FreeList "heads xs" "heads (v # vs)"] by simp
  with Nil show ?case
    by (subst insert_walk.simps) (simp add: list_next_def)
next
  case (Cons y ys)
  then have n1: "nxt l (last (FreeList # heads xs)) = PageLink (fst y)"
    using ring_next_last [of l FreeList "heads xs" "heads (y # ys @ v # vs)"] by simp
  have "ring l FreeList (heads (xs @ [y]) @ heads (ys @ v # vs))"
    using Cons.prems by simp
  then have "nxt l (last (FreeList # heads (xs @ [y]))) = hd (heads (ys @ v # vs) @ [FreeList])"
    by (rule ring_next_last)
  then have n2: "nxt l (PageLink (fst y)) \<noteq> FreeList"
    by (cases ys) auto
  have "insert_walk base (last (FreeList # heads (xs @ [y]))) l =
      Some (list_add_before (PageLink (fst v)) (PageLink base) l)"
    by (rule Cons.IH) (use Cons.prems in auto)
  then have "insert_walk base (PageLink (fst y)) l =
      Some (list_add_before (PageLink (fst v)) (PageLink base) l)"
    by simp
  with n1 n2 Cons.prems show ?case
    by (subst insert_walk.simps) (simp add: list_next_def not_less)
qed

definition tail_insert :: "nat \<Rightarrow> nat \<Rightarrow> le links \<Rightarrow> le links" where
  "tail_insert a base l =
     list_add (PageLink base) (PageLink base) (list_add (PageLink a) (PageLink base) l)"

lemma tail_insert_links:
  assumes "nxt l (PageLink a) = FreeList" "a \<noteq> base"
  shows "nxt (tail_insert a base l) = (nxt l)(PageLink a := PageLink base, PageLink base := FreeList)"
    and "prv (tail_insert a base l) = (prv l)(FreeList := PageLink base, PageLink base := PageLink base)"
  using assms by (auto simp: tail_insert_def list_add_defs fun_eq_iff)

lemma insert_walk_tail:
  assumes "ring l FreeList (heads (xs @ ys))" "ys \<noteq> []" "\<forall>y \<in> set ys. fst y < base"
  shows "insert_walk base (last (FreeList # heads xs)) l = Some (tail_insert (fst (last ys)) base l)"
  using assms
proof (induction ys arbitrary: xs)
  case Nil
  then show ?case by simp
next
  case (Cons y ys)
  let ?a = "fst y"
  have n1: "nxt l (last (FreeList # heads xs)) = PageLink ?a"
    using Cons.prems ring_next_last [of l FreeList "heads xs" "heads (y # ys)"] by simp
  have "ring l FreeList (heads (xs @ [y]) @ heads ys)"
    using Cons.prems by simp
  then have n2: "nxt l (PageLink ?a) = hd (heads ys @ [FreeList])"
    using ring_next_last [of l FreeList "heads (xs @ [y])" "heads ys"] by simp
  show ?case
  proof (cases "ys = []")
    case True
    let ?l1 = "list_add (PageLink ?a) (PageLink base) l"
    have ab: "?a \<noteq> base" "\<not> base < ?a" using Cons.prems by auto
    have l1: "nxt ?l1 (PageLink ?a) = PageLink base" "nxt ?l1 (PageLink base) = FreeList"
      using True n2 ab by (auto simp: list_add_defs)
    have l2: "nxt (tail_insert ?a base l) (PageLink base) = FreeList"
      using tail_insert_links [of l ?a base] True n2 ab by simp
    have "insert_walk base (PageLink base) (tail_insert ?a base l) = Some (tail_insert ?a base l)"
      by (subst insert_walk.simps) (simp add: list_next_def l2)
    then have "insert_walk base (PageLink ?a) ?l1 = Some (tail_insert ?a base l)"
      by (subst insert_walk.simps) (simp add: list_next_def l1 tail_insert_def Let_def)
    then show ?thesis
      using n1 n2 True ab
      by (subst insert_walk.simps) (simp add: list_next_def)
  next
    case False
    then have n3: "nxt l (PageLink ?a) \<noteq> FreeList"
      using n2 by (cases ys) auto
    have "insert_walk base (last (FreeList # heads (xs @ [y]))) l =
        Some (tail_insert (fst (last ys)) base l)"
      by (rule Cons.IH) (use Cons.prems False in auto)
    with n1 n3 Cons.prems False show ?thesis
      by (subst insert_walk.simps) (simp add: list_next_def not_less)
  qed
qed

lemma insert_block_cases:
  assumes r: "ring l FreeList (heads (us @ vs))"
    and "\<forall>u \<in> set us. fst u < base" "\<forall>v \<in> set vs. base < fst v"
  shows "insert_block base l =
    (if us @ vs = [] then Some (list_add FreeList (PageLink base) l)
     else if vs \<noteq> [] then Some (list_add_before (PageLink (fst (hd vs))) (PageLink base) l)
     else Some (tail_insert (fst (last us)) base l))"
proof (cases vs)
  case Nil
  show ?thesis
    using assms Nil insert_walk_tail [of l "[]" us base] ring_empty_iff [OF r]
    by (auto simp: insert_block_def)
next
  case (Cons v vs')
  have "insert_walk base FreeList l = Some (list_add_before (PageLink (fst v)) (PageLink base) l)"
    using assms Cons insert_walk_mid [of l "[]" us v vs' base] by (simp add: less_imp_le)
  then show ?thesis
    using Cons ring_empty_iff [OF r] by (simp add: insert_block_def)
qed

lemma insert_block_ring:
  assumes r: "ring l FreeList (heads (us @ vs))"
    and "\<forall>u \<in> set us. fst u < base" "\<forall>v \<in> set vs. base < fst v" "vs \<noteq> [] \<or> us = []"
  shows "\<exists>l'. insert_block base l = Some l' \<and> ring l' FreeList (heads us @ PageLink base # heads vs)"
proof -
  have fresh: "PageLink base \<notin> set (heads us)" "PageLink base \<notin> set (heads vs)"
    using assms(2,3) by auto
  show ?thesis
  proof (cases vs)
    case Nil
    with assms have "us = []" by simp
    with Nil r have "ring (list_add FreeList (PageLink base) l) FreeList [PageLink base]"
      by (intro ring_add_head) auto
    with Nil \<open>us = []\<close> show ?thesis
      using insert_block_cases [OF assms(1-3)] by simp
  next
    case (Cons v vs')
    have "ring (list_add_before (PageLink (fst v)) (PageLink base) l) FreeList
        (heads us @ PageLink base # heads vs)"
      by (rule ring_add_before) (use r Cons fresh in auto)
    with Cons show ?thesis
      using insert_block_cases [OF assms(1-3)] by simp
  qed
qed

section \<open>Allocation\<close>

lemma find_fit_find:
  assumes "ring (links st) FreeList (heads (xs @ ys))" "list_all (head_ok (pages st)) ys"
  shows "find_fit n st (last (FreeList # heads xs)) =
    Some (map_option fst (List.find (\<lambda>bn. n \<le> snd bn) ys))"
  using assms
proof (induction ys arbitrary: xs)
  case Nil
  then have "nxt (links st) (last (FreeList # heads xs)) = FreeList"
    using ring_next_last [of "links st" FreeList "heads xs" "[]"] by simp
  then show ?case
    by (subst find_fit.simps) (simp add: list_next_def)
next
  case (Cons y ys)
  then have n1: "nxt (links st) (last (FreeList # heads xs)) = PageLink (fst y)"
    using ring_next_last [of "links st" FreeList "heads xs" "heads (y # ys)"] by simp
  have "find_fit n st (last (FreeList # heads (xs @ [y]))) =
      Some (map_option fst (List.find (\<lambda>bn. n \<le> snd bn) ys))"
    by (rule Cons.IH) (use Cons.prems in auto)
  with n1 Cons.prems show ?case
    by (subst find_fit.simps) (auto simp: list_next_def head_ok_def)
qed

fun take_first :: "nat \<Rightarrow> block list \<Rightarrow> nat option \<times> block list" where
  "take_first n [] = (None, [])"
| "take_first n ((p, k) # bs) =
     (if n \<le> k then (Some p, (if n < k then [(p + n, k - n)] else []) @ bs)
      else map_prod id ((#) (p, k)) (take_first n bs))"

lemma take_first_fst: "fst (take_first n bs) = map_option fst (List.find (\<lambda>bn. n \<le> snd bn) bs)"
  by (induction n bs rule: take_first.induct) auto

lemma take_first_None: "List.find (\<lambda>bn. n \<le> snd bn) bs = None \<Longrightarrow> take_first n bs = (None, bs)"
  by (induction n bs rule: take_first.induct) (auto split: if_splits)

lemma take_first_split:
  assumes "List.find (\<lambda>bn. n \<le> snd bn) bs = Some (p, k)"
  obtains us vs where "bs = us @ (p, k) # vs" "n \<le> k" "\<forall>u \<in> set us. snd u < n"
    "snd (take_first n bs) = us @ (if n < k then [(p + n, k - n)] else []) @ vs"
proof -
  have "\<exists>us vs. bs = us @ (p, k) # vs \<and> n \<le> k \<and> (\<forall>u \<in> set us. snd u < n) \<and>
    snd (take_first n bs) = us @ (if n < k then [(p + n, k - n)] else []) @ vs"
    using assms
  proof (induction n bs rule: take_first.induct)
    case (1 n)
    then show ?case by simp
  next
    case (2 n q j bs)
    show ?case
    proof (cases "n \<le> j")
      case True
      with 2 have "q = p" "j = k" by auto
      with True show ?thesis by (intro exI [of _ "[]"] exI [of _ bs]) auto
    next
      case False
      with 2 obtain us vs where "bs = us @ (p, k) # vs" "n \<le> k" "\<forall>u \<in> set us. snd u < n"
        "snd (take_first n bs) = us @ (if n < k then [(p + n, k - n)] else []) @ vs"
        by auto
      with False show ?thesis
        by (intro exI [of _ "(q, j) # us"] exI [of _ vs]) auto
    qed
  qed
  with that show ?thesis by blast
qed

text \<open>What taking \<^verbatim>\<open>n\<close> pages off the front of one block leaves.\<close>

definition after_take :: "block list \<Rightarrow> nat \<Rightarrow> nat \<Rightarrow> nat \<Rightarrow> block list \<Rightarrow> block list" where
  "after_take us p k n vs = us @ (if n < k then [(p + n, k - n)] else []) @ vs"

lemma after_take_ordered:
  "ordered (us @ (p, k) # vs) \<Longrightarrow> n \<le> k \<Longrightarrow> 0 < n \<Longrightarrow> ordered (after_take us p k n vs)"
  by (auto simp: after_take_def ordered_simps split: if_splits) (fastforce+)?

lemma ring_split_block:
  assumes r: "ring l FreeList (heads (us @ (p, k) # vs))" and o: "ordered (us @ (p, k) # vs)"
    and n: "0 < n" "n < k"
  shows "ring (list_add (list_prev (PageLink p) l) (PageLink (p + n)) (list_del (PageLink p) l))
    FreeList (heads us @ PageLink (p + n) # heads vs)"
proof -
  have r1: "ring (list_del (PageLink p) l) FreeList (heads us @ heads vs)"
    using r ring_del [of l FreeList "heads us" "PageLink p" "heads vs"] by simp
  have prev: "list_prev (PageLink p) l = last (FreeList # heads us)"
    using r ring_prev_mid [of l FreeList "heads us" "PageLink p" "heads vs"]
    by (simp add: list_prev_def)
  have "p + n \<notin> fst ` set us" "p + n \<notin> fst ` set vs"
    using ordered_midD [OF o] n by (fastforce)+
  then show ?thesis
    unfolding list_add_def prev by (intro ring_add_after [OF r1]) auto
qed

lemma take_block_inv:
  assumes inv: "pmm_inv st (us @ (p, k) # vs)" and n: "0 < n" "n \<le> k"
  shows "pmm_inv (take_block p n st) (after_take us p k n vs)"
    and "\<not> PageProperty (pages (take_block p n st) p)"
proof -
  have r: "ring (links st) FreeList (heads (us @ (p, k) # vs))"
    and o: "ordered (us @ (p, k) # vs)" and t: "nr_free st = total us + k + total vs"
    and t32: "total us + k + total vs < 2 ^ 32"
    and pk: "property (pages st p) = k"
    and hu: "list_all (head_ok (pages st)) us" and hv: "list_all (head_ok (pages st)) vs"
    using inv by (auto simp: pmm_inv_def head_ok_def)
  let ?st' = "take_block p n st"
  have nr: "nr_free ?st' = total us + k + total vs - n"
    using w32_minus [of n "nr_free st"] t t32 n
    by (simp add: take_block_def Let_def upd_defs)
  have lk: "links ?st' = (if n < k
      then list_add (list_prev (PageLink p) (links st)) (PageLink (p + n)) (list_del (PageLink p) (links st))
      else list_del (PageLink p) (links st))"
    using pk by (simp add: take_block_def Let_def upd_defs)
  have pg: "pages ?st' = (if n < k
      then (pages st)(p + n := SetPageProperty ((pages st (p + n))\<lparr>property := k - n\<rparr>),
                      p := ClearPageProperty (pages st p))
      else (pages st)(p := ClearPageProperty (pages st p)))"
    using pk t32 n by (auto simp: take_block_def Let_def upd_defs fun_eq_iff)
  show "\<not> PageProperty (pages ?st' p)"
    by (simp add: pg)
  have ne: "\<forall>u \<in> set us. fst u \<noteq> p \<and> fst u \<noteq> p + n" "\<forall>v \<in> set vs. fst v \<noteq> p"
      "n < k \<longrightarrow> (\<forall>v \<in> set vs. fst v \<noteq> p + n)"
    using ordered_midD [OF o] n by (fastforce)+
  have "list_all (head_ok (pages ?st')) us"
    using hu ne by (auto simp: list_all_iff head_ok_def pg)
  moreover have "list_all (head_ok (pages ?st')) vs"
    using hv ne by (auto simp: list_all_iff head_ok_def pg)
  moreover have "n < k \<Longrightarrow> head_ok (pages ?st') (p + n, k - n)"
    using n by (simp add: head_ok_def pg)
  moreover have "ring (links ?st') FreeList (heads (after_take us p k n vs))"
    using lk ring_split_block [OF r o n(1)] r ring_del [of "links st" FreeList "heads us" "PageLink p" "heads vs"]
    by (simp add: after_take_def)
  moreover have "ordered (after_take us p k n vs)"
    using o n by (intro after_take_ordered)
  moreover have "total (after_take us p k n vs) = total us + k + total vs - n"
    using n by (auto simp: after_take_def add.assoc)
  ultimately show "pmm_inv ?st' (after_take us p k n vs)"
    using nr t32 by (auto simp: pmm_inv_def after_take_def)
qed

lemma block_pages_split: "n \<le> k \<Longrightarrow> block_pages (p, k) = {p ..< p + n} \<union> block_pages (p + n, k - n)"
  by (auto simp: block_pages_def)

lemma free_set_append [simp]: "free_set (xs @ ys) = free_set xs \<union> free_set ys"
  and free_set_Cons [simp]: "free_set (bn # bs) = block_pages bn \<union> free_set bs"
  and free_set_Nil [simp]: "free_set [] = {}"
  by (auto simp: free_set_def)

lemma free_set_above: "\<forall>c \<in> set bs. m \<le> fst c \<Longrightarrow> x \<in> free_set bs \<Longrightarrow> m \<le> x"
  by (auto simp: free_set_def block_pages_def)

lemma free_set_below: "\<forall>c \<in> set bs. fst c + snd c \<le> m \<Longrightarrow> x \<in> free_set bs \<Longrightarrow> x < m"
  by (auto simp: free_set_def block_pages_def)

lemma after_take_free:
  assumes o: "ordered (us @ (p, k) # vs)" and n: "0 < n" "n \<le> k"
  shows "block_pages (p, n) \<inter> free_set (after_take us p k n vs) = {}"
    and "block_pages (p, n) \<union> free_set (after_take us p k n vs) = free_set (us @ (p, k) # vs)"
proof -
  have u: "x < p" if "x \<in> free_set us" for x
    using free_set_below [of us p x] ordered_midD(1) [OF o] that by auto
  have v: "p + k \<le> x" if "x \<in> free_set vs" for x
    using free_set_above [of vs "p + k" x] ordered_midD(2) [OF o] that by auto
  have "x \<notin> free_set (after_take us p k n vs)" if "x \<in> block_pages (p, n)" for x
    using that u [of x] v [of x] n by (auto simp: after_take_def block_pages_def split: if_splits)
  then show "block_pages (p, n) \<inter> free_set (after_take us p k n vs) = {}"
    by blast
  show "block_pages (p, n) \<union> free_set (after_take us p k n vs) = free_set (us @ (p, k) # vs)"
    using n by (auto simp: after_take_def block_pages_def)
qed

text \<open>
  The interface of a page allocator whose free memory is a set of blocks: allocation
  either fails, and then no block is large enough and nothing changed, or hands out a
  range of free pages that are free no more.
\<close>

locale page_allocator =
  fixes inv :: "'st \<Rightarrow> block list \<Rightarrow> bool"
    and alloc :: "nat \<Rightarrow> 'st \<Rightarrow> (nat option \<times> 'st) option"
  assumes inv_ordered: "inv st bs \<Longrightarrow> ordered bs"
    and alloc_fails: "inv st bs \<Longrightarrow> 0 < n \<Longrightarrow> \<forall>bn \<in> set bs. snd bn < n \<Longrightarrow>
      alloc n st = Some (None, st)"
    and alloc_takes: "inv st bs \<Longrightarrow> 0 < n \<Longrightarrow> bn \<in> set bs \<Longrightarrow> n \<le> snd bn \<Longrightarrow>
      \<exists>us p k vs st'. bs = us @ (p, k) # vs \<and> n \<le> k \<and>
        alloc n st = Some (Some p, st') \<and> inv st' (after_take us p k n vs)"
begin

lemma alloc_total:
  assumes "inv st bs" "0 < n"
  shows "\<exists>r st' bs'. alloc n st = Some (r, st') \<and> inv st' bs' \<and>
    (case r of None \<Rightarrow> bs' = bs
     | Some p \<Rightarrow> block_pages (p, n) \<inter> free_set bs' = {} \<and>
         block_pages (p, n) \<union> free_set bs' = free_set bs)"
proof (cases "\<exists>bn \<in> set bs. n \<le> snd bn")
  case True
  then obtain bn where "bn \<in> set bs" "n \<le> snd bn" by blast
  from alloc_takes [OF assms this] obtain us p k vs st' where
    "bs = us @ (p, k) # vs" "n \<le> k" "alloc n st = Some (Some p, st')"
    "inv st' (after_take us p k n vs)" by blast
  then show ?thesis
    using inv_ordered [OF assms(1)] after_take_free [of us p k vs n] assms(2) by force
next
  case False
  then show ?thesis
    using alloc_fails [OF assms] assms(1) by (force simp: not_le)
qed

primrec alloc_all :: "nat list \<Rightarrow> 'st \<Rightarrow> (block list \<times> 'st) option" where
  "alloc_all [] st = Some ([], st)"
| "alloc_all (n # ns) st =
     do { (r, st) \<leftarrow> alloc n st;
          (rs, st) \<leftarrow> alloc_all ns st;
          Some (case r of None \<Rightarrow> rs | Some p \<Rightarrow> (p, n) # rs, st) }"

lemma alloc_all_disjoint:
  assumes "inv st bs" "\<forall>n \<in> set ns. 0 < n"
  shows "\<exists>rs st' bs'. alloc_all ns st = Some (rs, st') \<and> inv st' bs' \<and>
    sorted_wrt (\<lambda>a b. block_pages a \<inter> block_pages b = {}) rs \<and>
    free_set rs \<inter> free_set bs' = {} \<and> free_set rs \<union> free_set bs' = free_set bs"
  using assms
proof (induction ns arbitrary: st bs)
  case Nil
  then show ?case by auto
next
  case (Cons n ns)
  then obtain r st1 bs1 where a: "alloc n st = Some (r, st1)" "inv st1 bs1"
    and c: "case r of None \<Rightarrow> bs1 = bs
     | Some p \<Rightarrow> block_pages (p, n) \<inter> free_set bs1 = {} \<and>
         block_pages (p, n) \<union> free_set bs1 = free_set bs"
    using alloc_total [of st bs n] by auto
  from Cons.IH [OF a(2)] Cons.prems obtain rs st' bs' where
    i: "alloc_all ns st1 = Some (rs, st')" "inv st' bs'"
      "sorted_wrt (\<lambda>a b. block_pages a \<inter> block_pages b = {}) rs"
      "free_set rs \<inter> free_set bs' = {}" "free_set rs \<union> free_set bs' = free_set bs1"
    by auto
  show ?case
  proof (cases r)
    case None
    with a i c show ?thesis by auto
  next
    case (Some p)
    have "\<forall>b \<in> set rs. block_pages (p, n) \<inter> block_pages b = {}"
      using c i(5) Some by (fastforce simp: free_set_def)
    moreover have "block_pages (p, n) \<inter> free_set bs' = {}"
      "block_pages (p, n) \<union> (free_set rs \<union> free_set bs') = free_set bs"
      using c i(5) Some by auto
    ultimately show ?thesis
      using Some a i by (intro exI [of _ "(p, n) # rs"] exI [of _ st'] exI [of _ bs'])
        (auto simp: Un_assoc)
  qed
qed

end

section \<open>First fit implements the interface\<close>

lemma default_alloc_pages_spec:
  assumes inv: "pmm_inv st bs" and n: "0 < n"
  shows "\<exists>st'. default_alloc_pages n st = Some (fst (take_first n bs), st') \<and>
    pmm_inv st' (snd (take_first n bs))"
proof (cases "List.find (\<lambda>bn. n \<le> snd bn) bs")
  case None
  have "find_fit n st FreeList = Some None"
    using inv None find_fit_find [of st "[]" bs n] by (simp add: pmm_inv_def)
  with None inv n show ?thesis
    by (auto simp: default_alloc_pages_def take_first_None)
next
  case (Some pk)
  obtain p k where pk: "pk = (p, k)" by (cases pk)
  from Some [unfolded pk] obtain us vs where s: "bs = us @ (p, k) # vs" "n \<le> k"
    "snd (take_first n bs) = after_take us p k n vs"
    by (elim take_first_split) (simp add: after_take_def)
  have f: "find_fit n st FreeList = Some (Some p)"
    using inv Some pk find_fit_find [of st "[]" bs n] by (simp add: pmm_inv_def)
  have "\<not> nr_free st < n"
    using inv s total_member [of "(p, k)" bs] by (simp add: pmm_inv_def)
  with f s n Some pk inv take_block_inv(1) [of st us p k vs n] show ?thesis
    by (simp add: default_alloc_pages_def take_first_fst)
qed

interpretation first_fit: page_allocator pmm_inv default_alloc_pages
proof
  fix st bs and n :: nat and bn :: block
  show "ordered bs" if "pmm_inv st bs"
    using that by (simp add: pmm_inv_def)
  show "default_alloc_pages n st = Some (None, st)"
    if "pmm_inv st bs" "0 < n" "\<forall>bn \<in> set bs. snd bn < n"
  proof -
    have none: "List.find (\<lambda>bn. n \<le> snd bn) bs = None"
      using that(3) by (auto simp: find_None_iff)
    have "find_fit n st FreeList = Some None"
      using that(1) none find_fit_find [of st "[]" bs n] by (simp add: pmm_inv_def)
    with that(2) show ?thesis by (simp add: default_alloc_pages_def)
  qed
  show "\<exists>us p k vs st'. bs = us @ (p, k) # vs \<and> n \<le> k \<and>
      default_alloc_pages n st = Some (Some p, st') \<and> pmm_inv st' (after_take us p k n vs)"
    if "pmm_inv st bs" "0 < n" "bn \<in> set bs" "n \<le> snd bn"
  proof -
    note spec = default_alloc_pages_spec [OF that(1,2)]
    have "List.find (\<lambda>bn. n \<le> snd bn) bs \<noteq> None"
      using that(3,4) find_None_iff [of "\<lambda>bn. n \<le> snd bn" bs] by blast
    then obtain p k where f: "List.find (\<lambda>bn. n \<le> snd bn) bs = Some (p, k)"
      by (cases "List.find (\<lambda>bn. n \<le> snd bn) bs") auto
    obtain us vs where
      "bs = us @ (p, k) # vs" "n \<le> k" "snd (take_first n bs) = after_take us p k n vs"
      by (rule take_first_split [OF f]) (simp add: after_take_def)
    moreover obtain st' where "default_alloc_pages n st = Some (Some p, st')"
      "pmm_inv st' (snd (take_first n bs))"
      using spec f by (auto simp: take_first_fst)
    ultimately show ?thesis by metis
  qed
qed

section \<open>Freeing\<close>

lemma clear_pages_ok:
  "\<forall>i \<in> {p ..< p + k}. \<not> PageReserved (pg i) \<and> \<not> PageProperty (pg i) \<Longrightarrow>
   clear_pages k p pg =
     Some (\<lambda>i. if p \<le> i \<and> i < p + k then (pg i)\<lparr>flags := 0, pref := 0\<rparr> else pg i)"
proof (induction k arbitrary: p pg)
  case 0
  then show ?case by (auto simp: fun_eq_iff)
next
  case (Suc k)
  let ?pg = "pg(p := (pg p)\<lparr>flags := 0, pref := 0\<rparr>)"
  have "clear_pages k (p + 1) ?pg =
      Some (\<lambda>i. if p + 1 \<le> i \<and> i < p + 1 + k then (?pg i)\<lparr>flags := 0, pref := 0\<rparr> else ?pg i)"
    by (rule Suc.IH) (use Suc.prems in auto)
  with Suc.prems show ?case by (auto simp: fun_eq_iff)
qed

lemma clear_pages_bad:
  "i \<in> {p ..< p + k} \<Longrightarrow> PageReserved (pg i) \<or> PageProperty (pg i) \<Longrightarrow> clear_pages k p pg = None"
proof (induction k arbitrary: p pg)
  case 0
  then show ?case by simp
next
  case (Suc k)
  show ?case
  proof (cases "i = p")
    case True
    with Suc.prems show ?thesis by auto
  next
    case False
    have "clear_pages k (p + 1) (pg(p := (pg p)\<lparr>flags := 0, pref := 0\<rparr>)) = None"
      by (rule Suc.IH) (use Suc.prems False in auto)
    then show ?thesis by simp
  qed
qed

definition join_prev :: "block list \<Rightarrow> block \<Rightarrow> block list \<times> block" where
  "join_prev us b =
     (if us \<noteq> [] \<and> fst (last us) + snd (last us) = fst b
      then (butlast us, (fst (last us), snd (last us) + snd b)) else (us, b))"

definition join_next :: "block \<Rightarrow> block list \<Rightarrow> block list" where
  "join_next b vs =
     (case vs of v # vs' \<Rightarrow> if fst b + snd b = fst v then (fst b, snd b + snd v) # vs' else b # vs
      | [] \<Rightarrow> [b])"

definition coalesce :: "block list \<Rightarrow> block \<Rightarrow> block list \<Rightarrow> block list" where
  "coalesce us b vs = (let (us', b') = join_prev us b in us' @ join_next b' vs)"

lemma coalesce_free_set: "free_set (coalesce us b vs) = free_set us \<union> block_pages b \<union> free_set vs"
proof -
  have p: "free_set (fst (join_prev us b)) \<union> block_pages (snd (join_prev us b)) = free_set us \<union> block_pages b"
    by (cases us rule: rev_cases) (auto simp: join_prev_def block_pages_def)
  have "free_set (join_next c vs) = block_pages c \<union> free_set vs" for c
    by (cases vs) (auto simp: join_next_def block_pages_def)
  with p show ?thesis
    by (auto simp: coalesce_def split_beta)
qed

lemma merge_prev_inv:
  assumes inv: "pmm_inv st (us @ (b, n) # vs)"
  shows "pmm_inv (snd (merge_prev b st)) (fst (join_prev us (b, n)) @ snd (join_prev us (b, n)) # vs)"
    and "fst (merge_prev b st) = fst (snd (join_prev us (b, n)))"
proof -
  have r: "ring (links st) FreeList (heads us @ PageLink b # heads vs)"
    and o: "ordered (us @ (b, n) # vs)" and hb: "property (pages st b) = n"
    using inv by (auto simp: pmm_inv_def head_ok_def)
  have prev: "list_prev (PageLink b) (links st) = last (FreeList # heads us)"
    using ring_prev_mid [OF r] by (simp add: list_prev_def)
  show "pmm_inv (snd (merge_prev b st)) (fst (join_prev us (b, n)) @ snd (join_prev us (b, n)) # vs)"
    and "fst (merge_prev b st) = fst (snd (join_prev us (b, n)))"
  proof (atomize (full), cases us rule: rev_cases)
    case Nil
    with prev inv show "pmm_inv (snd (merge_prev b st)) (fst (join_prev us (b, n)) @ snd (join_prev us (b, n)) # vs)
      \<and> fst (merge_prev b st) = fst (snd (join_prev us (b, n)))"
      by (simp add: merge_prev_def join_prev_def)
  next
    case (snoc ws w)
    obtain a j where w: "w = (a, j)" by (cases w)
    have pa: "property (pages st a) = j" "PageProperty (pages st a)"
      using inv snoc w by (auto simp: pmm_inv_def head_ok_def)
    show "pmm_inv (snd (merge_prev b st)) (fst (join_prev us (b, n)) @ snd (join_prev us (b, n)) # vs)
      \<and> fst (merge_prev b st) = fst (snd (join_prev us (b, n)))"
    proof (cases "a + j = b")
      case False
      with prev inv snoc w pa show ?thesis
        by (simp add: merge_prev_def join_prev_def)
    next
      case True
      have t32: "total ws + j + n + total vs < 2 ^ 32"
        using inv snoc w by (simp add: pmm_inv_def)
      have o1: "ordered (ws @ (a, j) # (b, n) # vs)"
        using o snoc w by simp
      have ab: "a < b" "b \<noteq> a" using ordered_midD(2) [OF o1, of "(b, n)"] by auto
      let ?st = "snd (merge_prev b st)"
      have res: "merge_prev b st = (a, ?st)"
        "pages ?st = (pages st)(a := (pages st a)\<lparr>property := j + n\<rparr>, b := ClearPageProperty (pages st b))"
        "links ?st = list_del (PageLink b) (links st)" "nr_free ?st = nr_free st"
        using prev snoc w True pa hb t32 ab
        by (auto simp: merge_prev_def upd_defs Let_def)
      have "ring (links ?st) FreeList (heads (ws @ (a, j + n) # vs))"
        using ring_del [OF r] snoc w res(3) by simp
      moreover have "ordered (ws @ (a, j + n) # vs)"
        using o1 True by (auto simp: ordered_append ordered_Cons)
      moreover have "list_all (head_ok (pages ?st)) (ws @ (a, j + n) # vs)"
      proof -
        have "fst u \<noteq> a \<and> fst u \<noteq> b" if "u \<in> set ws \<or> u \<in> set vs" for u
          using ordered_midD(1,2) [OF o1, of u] ordered_midD(1,2) [OF o, of u] snoc w that ab by auto
        then show ?thesis
          using inv snoc w res(2) pa ab by (auto simp: pmm_inv_def list_all_iff head_ok_def PageProperty_def)
      qed
      ultimately have "pmm_inv ?st (ws @ (a, j + n) # vs)"
        using inv snoc w res(4) by (simp add: pmm_inv_def)
      moreover have "fst (merge_prev b st) = a"
        using res(1) by (metis fst_conv)
      ultimately show ?thesis using snoc w True by (simp add: join_prev_def)
    qed
  qed
qed

lemma merge_next_inv:
  assumes inv: "pmm_inv st (us @ (b, n) # vs)"
  shows "pmm_inv (merge_next b st) (us @ join_next (b, n) vs)"
proof -
  have r: "ring (links st) FreeList (heads us @ PageLink b # heads vs)"
    and o: "ordered (us @ (b, n) # vs)" and hb: "property (pages st b) = n" "PageProperty (pages st b)"
    using inv by (auto simp: pmm_inv_def head_ok_def)
  have nx: "list_next (PageLink b) (links st) = hd (heads vs @ [FreeList])"
    using ring_next_mid [OF r] by (simp add: list_next_def)
  show ?thesis
  proof (cases vs)
    case Nil
    with nx inv show ?thesis by (simp add: merge_next_def join_next_def)
  next
    case (Cons v ws)
    obtain c j where v: "v = (c, j)" by (cases v)
    have pc: "property (pages st c) = j" using inv Cons v by (simp add: pmm_inv_def head_ok_def)
    show ?thesis
    proof (cases "b + n = c")
      case False
      with nx inv Cons v hb show ?thesis by (simp add: merge_next_def join_next_def)
    next
      case True
      have t32: "total us + n + j + total ws < 2 ^ 32"
        using inv Cons v by (simp add: pmm_inv_def)
      have o1: "ordered ((us @ [(b, n)]) @ (c, j) # ws)" using o Cons v by simp
      have bc: "b < c" using ordered_midD(1) [OF o1, of "(b, n)"] by simp
      let ?st = "merge_next b st"
      have res:
        "pages ?st = (pages st)(b := (pages st b)\<lparr>property := n + j\<rparr>, c := ClearPageProperty (pages st c))"
        "links ?st = list_del (PageLink c) (links st)" "nr_free ?st = nr_free st"
        using nx Cons v True hb pc t32 bc by (auto simp: merge_next_def upd_defs Let_def)
      have "ring (links ?st) FreeList (heads (us @ (b, n + j) # ws))"
        using ring_del [of "links st" FreeList "heads us @ [PageLink b]" "PageLink c" "heads ws"]
          r Cons v res(2) by simp
      moreover have "ordered (us @ (b, n + j) # ws)"
        using o Cons v True by (auto simp: ordered_append ordered_Cons)
      moreover have "list_all (head_ok (pages ?st)) (us @ (b, n + j) # ws)"
      proof -
        have "fst u \<noteq> b \<and> fst u \<noteq> c" if "u \<in> set us \<or> u \<in> set ws" for u
          using ordered_midD(1,2) [OF o1, of u] ordered_midD(1,2) [OF o, of u] Cons v that bc by auto
        then show ?thesis
          using inv Cons v res(1) hb bc by (auto simp: pmm_inv_def list_all_iff head_ok_def PageProperty_def)
      qed
      ultimately have "pmm_inv ?st (us @ (b, n + j) # ws)"
        using inv Cons v res(3) by (simp add: pmm_inv_def)
      with Cons v True show ?thesis by (simp add: join_next_def)
    qed
  qed
qed

definition clean :: "pmm \<Rightarrow> nat \<Rightarrow> nat \<Rightarrow> bool" where
  "clean st base n \<longleftrightarrow>
     (\<forall>i \<in> {base ..< base + n}. \<not> PageReserved (pages st i) \<and> \<not> PageProperty (pages st i))"

text \<open>The state after the first half of \<^verbatim>\<open>default_free_pages\<close>, before the insertion.\<close>

definition mark_free :: "nat \<Rightarrow> nat \<Rightarrow> pmm \<Rightarrow> pmm" where
  "mark_free base n st =
     st\<lparr>pages := (\<lambda>i. if base \<le> i \<and> i < base + n then (pages st i)\<lparr>flags := 0, pref := 0\<rparr> else pages st i)
          (base := SetPageProperty ((pages st base)\<lparr>flags := 0, pref := 0, property := w32 n\<rparr>)),
        nr_free := w32 (nr_free st + n)\<rparr>"

lemma default_free_pages_eq:
  assumes "0 < n" "clean st base n"
  shows "default_free_pages base n st =
    do { l \<leftarrow> insert_block base (links st);
         let (b, st') = merge_prev base ((mark_free base n st)\<lparr>links := l\<rparr>);
         Some (merge_next b st') }"
proof -
  have "clear_pages n base (pages st) =
      Some (\<lambda>i. if base \<le> i \<and> i < base + n then (pages st i)\<lparr>flags := 0, pref := 0\<rparr> else pages st i)"
    using assms(2) unfolding clean_def by (rule clear_pages_ok)
  with assms(1) show ?thesis
    by (simp add: default_free_pages_def mark_free_def upd_defs)
qed

lemma default_free_pages_spec:
  assumes inv: "pmm_inv st (us @ vs)" and n: "0 < n" "total (us @ vs) + n < 2 ^ 32"
    and below: "\<forall>u \<in> set us. fst u + snd u \<le> base" and above: "\<forall>v \<in> set vs. base + n \<le> fst v"
    and place: "vs \<noteq> [] \<or> us = []" and cl: "clean st base n"
  shows "\<exists>st'. default_free_pages base n st = Some st' \<and> pmm_inv st' (coalesce us (base, n) vs)"
proof -
  have o: "ordered (us @ vs)" and r: "ring (links st) FreeList (heads (us @ vs))"
    using inv by (auto simp: pmm_inv_def)
  have lt: "\<forall>u \<in> set us. fst u < base" "\<forall>v \<in> set vs. base < fst v"
    using below above n ordered_pos [OF o] by fastforce+
  obtain l where l: "insert_block base (links st) = Some l"
    "ring l FreeList (heads us @ PageLink base # heads vs)"
    using insert_block_ring [OF r lt place] by blast
  let ?st = "(mark_free base n st)\<lparr>links := l\<rparr>"
  have out: "\<not> (base \<le> fst c \<and> fst c < base + n) \<and> fst c \<noteq> base" if "c \<in> set (us @ vs)" for c
    using that lt above by fastforce
  have "list_all (head_ok (pages ?st)) (us @ (base, n) # vs)"
    using inv n out by (auto simp: pmm_inv_def list_all_iff head_ok_def mark_free_def)
  moreover have "ordered (us @ (base, n) # vs)"
    using o below above n by (fastforce simp: ordered_append ordered_Cons)
  ultimately have inv1: "pmm_inv ?st (us @ (base, n) # vs)"
    using inv l n by (simp add: pmm_inv_def mark_free_def)
  let ?m = "merge_prev base ?st" and ?j = "join_prev us (base, n)"
  have "pmm_inv (snd ?m) (fst ?j @ (fst (snd ?j), snd (snd ?j)) # vs)" "fst ?m = fst (snd ?j)"
    using merge_prev_inv [OF inv1] by simp_all
  from merge_next_inv [OF this(1)] this(2)
  have "pmm_inv (merge_next (fst ?m) (snd ?m)) (coalesce us (base, n) vs)"
    by (simp add: coalesce_def split_beta)
  with l(1) show ?thesis
    by (simp add: default_free_pages_eq [OF n(1) cl] split_beta)
qed

text \<open>A single page: freeing into, and taking from, an empty free list.\<close>

definition exhausted :: "pmm \<Rightarrow> bool" where
  "exhausted m \<longleftrightarrow> pmm_inv m []"

lemma free_one_exhausted:
  assumes "exhausted m" "clean m p 1"
  shows "\<exists>m'. default_free_pages p 1 m = Some m' \<and> pmm_inv m' [(p, 1)]"
  using default_free_pages_spec [of m "[]" "[]" 1 p] assms
  by (auto simp: exhausted_def coalesce_def join_prev_def join_next_def)

lemma alloc_one:
  assumes "pmm_inv m ((p, k) # bs)"
  shows "\<exists>m'. default_alloc_pages 1 m = Some (Some p, m') \<and>
    pmm_inv m' (if k = 1 then bs else (p + 1, k - 1) # bs)"
proof -
  have "0 < k" using assms by (auto simp: pmm_inv_def ordered_def)
  then have "take_first 1 ((p, k) # bs) = (Some p, if k = 1 then bs else (p + 1, k - 1) # bs)"
    by (cases k) auto
  with default_alloc_pages_spec [OF assms, of 1] show ?thesis by auto
qed

lemma alloc_none: "exhausted m \<Longrightarrow> default_alloc_pages 1 m = Some (None, m)"
  by (simp add: exhausted_def pmm_inv_def default_alloc_pages_def)


lemma default_free_pages_busy:
  assumes "0 < n" "i \<in> {base ..< base + n}" "PageReserved (pages st i) \<or> PageProperty (pages st i)"
  shows "default_free_pages base n st = None"
  using assms clear_pages_bad [of i base n "pages st"] by (simp add: default_free_pages_def)

text \<open>
  A block freed above the last free block: the loop of \<^verbatim>\<open>default_free_pages\<close> links it a
  second time after itself. Its \<^verbatim>\<open>prev\<close> pointer ends up at the block itself.
\<close>

lemma default_free_pages_above:
  assumes inv: "pmm_inv st us" and us: "us \<noteq> []" and n: "0 < n" "n < 2 ^ 32"
    and below: "\<forall>u \<in> set us. fst u + snd u \<le> base" and cl: "clean st base n"
  shows "default_free_pages base n st =
    Some ((mark_free base n st)\<lparr>links := tail_insert (fst (last us)) base (links st)\<rparr>)"
proof -
  have o: "ordered us" and r: "ring (links st) FreeList (heads (us @ []))"
    using inv by (auto simp: pmm_inv_def)
  have lt: "\<forall>u \<in> set us. fst u < base"
    using below ordered_pos [OF o] by fastforce
  let ?a = "fst (last us)"
  have l: "insert_block base (links st) = Some (tail_insert ?a base (links st))"
    using insert_block_cases [OF r lt] us by simp
  have "nxt (links st) (last (FreeList # heads us)) = FreeList"
    using ring_next_last [of "links st" FreeList "heads us" "[]"] r by simp
  then have nx: "nxt (links st) (PageLink ?a) = FreeList"
    using us by (simp add: last_heads)
  have "?a \<noteq> base" using lt us by (metis last_in_set less_irrefl)
  note tl = tail_insert_links [OF nx this]
  show ?thesis
    using l n tl by (simp add: default_free_pages_eq [OF n(1) cl] merge_prev_def merge_next_def
        list_prev_def list_next_def mark_free_def)
qed

section \<open>A block freed above all others\<close>

text \<open>
  After \<^verbatim>\<open>tail_insert\<close> the forward pointers still lead through all blocks, but the new
  block cannot be unlinked any more: \<^verbatim>\<open>list_del\<close> goes through its \<^verbatim>\<open>prev\<close>.
\<close>

primrec nxts :: "le links \<Rightarrow> le \<Rightarrow> le list \<Rightarrow> bool" where
  "nxts l a [] \<longleftrightarrow> True"
| "nxts l a (x # xs) \<longleftrightarrow> nxt l a = x \<and> nxts l x xs"

lemma chain_nxts: "chain l a xs b \<Longrightarrow> nxts l a (xs @ [b])"
  by (induction xs arbitrary: a) auto

lemma nxts_snoc_upd:
  "nxts l a (xs @ [b]) \<Longrightarrow> distinct (a # xs) \<Longrightarrow> c \<notin> set (a # xs) \<Longrightarrow>
   nxt l' = (nxt l)(last (a # xs) := c, c := d) \<Longrightarrow> nxts l' a (xs @ [c])"
  by (induction xs arbitrary: a) auto

lemma find_fit_skip:
  "nxts (links st) a (heads us @ [PageLink p]) \<Longrightarrow> \<forall>u \<in> set us. property (pages st (fst u)) < n \<Longrightarrow>
   n \<le> property (pages st p) \<Longrightarrow> find_fit n st a = Some (Some p)"
proof (induction us arbitrary: a)
  case Nil
  then show ?case by (subst find_fit.simps) (simp add: list_next_def)
next
  case (Cons u us)
  then have "find_fit n st (PageLink (fst u)) = Some (Some p)" by simp
  with Cons.prems show ?case
    by (subst find_fit.simps) (simp add: list_next_def)
qed

lemma double_take:
  assumes s: "nxts (links st) FreeList (heads us @ [PageLink p])" "\<forall>u \<in> set us. property (pages st (fst u)) < n"
    "property (pages st p) = n" "list_prev (PageLink p) (links st) = PageLink p"
    "0 < n" "n + n \<le> nr_free st" "nr_free st < 2 ^ 32" "p \<notin> fst ` set us"
  shows "\<exists>st1 st2. default_alloc_pages n st = Some (Some p, st1) \<and>
    default_alloc_pages n st1 = Some (Some p, st2)"
proof -
  let ?st1 = "take_block p n st"
  have a: "default_alloc_pages n st = Some (Some p, ?st1)"
    using s find_fit_skip [OF s(1,2)] by (simp add: default_alloc_pages_def)
  have l: "nxt (links ?st1) = nxt (links st)"
    using s(3,4) by (simp add: take_block_def upd_defs list_del_defs list_prev_def fun_eq_iff Let_def)
  have pr: "property (pages ?st1 q) = property (pages st q)" for q
    using s(3) by (simp add: take_block_def upd_defs)
  have nr: "nr_free ?st1 = nr_free st - n"
    using s(3,6,7) w32_minus [of n "nr_free st"] by (simp add: take_block_def upd_defs)
  have "nxts l' a xs = nxts (links st) a xs" if "nxt l' = nxt (links st)" for l' a xs
    using that by (induction xs arbitrary: a) auto
  from this [OF l] have "find_fit n ?st1 FreeList = Some (Some p)"
    using s pr by (intro find_fit_skip [of _ _ us]) auto
  then have "default_alloc_pages n ?st1 = Some (Some p, take_block p n ?st1)"
    using s(5,6) nr by (simp add: default_alloc_pages_def)
  with a show ?thesis by blast
qed

lemma default_free_tail_state:
  assumes inv: "pmm_inv st us" and us: "us \<noteq> []" and n: "0 < n" "total us + n < 2 ^ 32"
    and below: "\<forall>u \<in> set us. fst u + snd u \<le> base" and cl: "clean st base n"
  shows "\<exists>st'. default_free_pages base n st = Some st' \<and>
    nxts (links st') FreeList (heads us @ [PageLink base]) \<and>
    list_prev (PageLink base) (links st') = PageLink base \<and>
    (\<forall>u \<in> set us. property (pages st' (fst u)) = snd u) \<and> property (pages st' base) = n \<and>
    nr_free st' = total us + n"
proof -
  let ?l = "tail_insert (fst (last us)) base (links st)"
  let ?st = "(mark_free base n st)\<lparr>links := ?l\<rparr>"
  have o: "ordered us" and r: "ring (links st) FreeList (heads us)"
    and hd: "\<forall>u \<in> set us. property (pages st (fst u)) = snd u"
    using inv by (auto simp: pmm_inv_def list_all_iff head_ok_def)
  have lt: "\<forall>u \<in> set us. fst u < base"
    using below ordered_pos [OF o] by fastforce
  have ab: "fst (last us) \<noteq> base" using lt us by (metis last_in_set less_irrefl)
  have nx: "nxt (links st) (PageLink (fst (last us))) = FreeList"
    using ring_next_last [of "links st" FreeList "heads us" "[]"] r us by (simp add: last_heads)
  note tl = tail_insert_links [OF nx ab]
  have fr: "base \<notin> fst ` set us" using lt by auto
  have "nxts (links st) FreeList (heads us @ [FreeList])"
    using r by (simp add: ring_def chain_nxts)
  then have "nxts ?l FreeList (heads us @ [PageLink base])"
    using lt us ring_distinct [OF r] tl(1)
    by (intro nxts_snoc_upd [of "links st" FreeList "heads us" FreeList "PageLink base" ?l FreeList])
      (simp_all add: last_heads fr)
  moreover have "default_free_pages base n st = Some ?st"
    by (rule default_free_pages_above [OF inv us n(1) _ below cl]) (use n in simp)
  moreover have "\<forall>u \<in> set us. property (pages ?st (fst u)) = snd u"
    using hd lt by (auto simp: mark_free_def)
  moreover have "property (pages ?st base) = n" "nr_free ?st = total us + n"
    using n inv by (simp_all add: mark_free_def pmm_inv_def)
  ultimately show ?thesis
    using tl(2) by (auto simp: list_prev_def)
qed

section \<open>Properties\<close>

text \<open>\<^verbatim>\<open>default_alloc_pages\<close> is first fit: on every well-formed free list it
  returns the first block that is large enough (or none), and leaves the free list with
  the rest of that block in its place, so the address order, the page flags and the
  counter stay right.\<close>
theorem first_fit_alloc_refines:
  assumes "pmm_inv st bs" "0 < n"
  shows "\<exists>st'. default_alloc_pages n st = Some (fst (take_first n bs), st') \<and>
    pmm_inv st' (snd (take_first n bs))"
  by (rule default_alloc_pages_spec [OF assms])

text \<open>C1: any sequence of first-fit allocations returns, and hands out pairwise disjoint
  page ranges: together with the pages still free they are exactly the pages that were
  free at the start, so no page is given twice and none is lost.\<close>
theorem first_fit_no_double_allocation:
  assumes "pmm_inv st bs" "\<forall>n \<in> set ns. 0 < n"
  shows "\<exists>rs st' bs'. first_fit.alloc_all ns st = Some (rs, st') \<and> pmm_inv st' bs' \<and>
    sorted_wrt (\<lambda>a b. block_pages a \<inter> block_pages b = {}) rs \<and>
    free_set rs \<inter> free_set bs' = {} \<and> free_set rs \<union> free_set bs' = free_set bs"
  by (rule first_fit.alloc_all_disjoint [OF assms])

text \<open>C2: \<^verbatim>\<open>default_free_pages\<close> of a range that lies below some free block (or
  into an empty list) keeps the list well formed: the range is entered in address order
  and joined with the block that ends at it and the block that starts after it, and the
  free pages afterwards are the old ones and the range.\<close>
theorem free_pages_coalesces:
  assumes "pmm_inv st (us @ vs)" "0 < n" "total (us @ vs) + n < 2 ^ 32"
    and "\<forall>u \<in> set us. fst u + snd u \<le> base" "\<forall>v \<in> set vs. base + n \<le> fst v"
    and "vs \<noteq> [] \<or> us = []" "clean st base n"
  shows "\<exists>st'. default_free_pages base n st = Some st' \<and> pmm_inv st' (coalesce us (base, n) vs) \<and>
    free_set (coalesce us (base, n) vs) = free_set us \<union> block_pages (base, n) \<union> free_set vs"
  using default_free_pages_spec [OF assms] coalesce_free_set by blast

text \<open>C3: a range freed above every free block is not entered correctly: the loop of
  \<^verbatim>\<open>default_free_pages\<close> has no \<^verbatim>\<open>break\<close> after its last branch and links
  the block again, after itself. When the blocks below are each too small for the freed
  size but large enough together, the next two allocations of that size both return
  the same pages.\<close>
theorem freed_tail_allocated_twice:
  assumes "pmm_inv st us" "us \<noteq> []" "0 < n" "total us + n < 2 ^ 32"
    and "\<forall>u \<in> set us. fst u + snd u \<le> base" "clean st base n"
    and "\<forall>u \<in> set us. snd u < n" "n \<le> total us"
  shows "\<exists>st1 st2 st3. default_free_pages base n st = Some st1 \<and>
    default_alloc_pages n st1 = Some (Some base, st2) \<and>
    default_alloc_pages n st2 = Some (Some base, st3)"
proof -
  from default_free_tail_state [OF assms(1-6)] obtain st1 where
    s: "default_free_pages base n st = Some st1" "nxts (links st1) FreeList (heads us @ [PageLink base])"
    "list_prev (PageLink base) (links st1) = PageLink base"
    "\<forall>u \<in> set us. property (pages st1 (fst u)) = snd u" "property (pages st1 base) = n"
    "nr_free st1 = total us + n" by blast
  have "base \<notin> fst ` set us"
    using assms(1,5) ordered_pos [of us] by (fastforce simp: pmm_inv_def)
  then obtain st2 st3 where "default_alloc_pages n st1 = Some (Some base, st2)"
    "default_alloc_pages n st2 = Some (Some base, st3)"
    using double_take [OF s(2) _ s(5,3)] s assms by auto
  with s(1) show ?thesis by blast
qed

text \<open>A well-formed state for the witnesses: the free pages 0 and 2.\<close>

definition two_blocks :: pmm where
  "two_blocks = \<lparr>pages = (\<lambda>i. \<lparr>pref = 0, flags = (if i = 0 \<or> i = 2 then 2 else 0), property = 1\<rparr>),
     links = \<lparr>prv = (\<lambda>e. if e = FreeList then PageLink 2 else if e = PageLink 2 then PageLink 0 else FreeList),
       nxt = (\<lambda>e. if e = FreeList then PageLink 0 else if e = PageLink 0 then PageLink 2 else FreeList)\<rparr>,
     nr_free = 2\<rparr>"

lemma two_blocks_inv: "pmm_inv two_blocks [(0, 1), (2, 1)]"
  by (auto simp: pmm_inv_def two_blocks_def ring_def ordered_def head_ok_def PageProperty_def bit_simps)

lemma two_blocks_clean: "clean two_blocks 4 2"
  by (auto simp: clean_def two_blocks_def PageReserved_def PageProperty_def)

lemma two_blocks_clean1: "clean two_blocks 1 1"
  by (auto simp: clean_def two_blocks_def PageReserved_def PageProperty_def)

theorem first_fit_alloc_refines_witness:
  "\<exists>st'. default_alloc_pages 1 two_blocks = Some (Some 0, st') \<and> pmm_inv st' [(2, 1)]"
  using first_fit_alloc_refines [OF two_blocks_inv, of 1] by simp

theorem first_fit_no_double_allocation_witness:
  "\<exists>rs st' bs'. first_fit.alloc_all [1, 1, 1] two_blocks = Some (rs, st') \<and> pmm_inv st' bs' \<and>
    sorted_wrt (\<lambda>a b. block_pages a \<inter> block_pages b = {}) rs \<and>
    free_set rs \<inter> free_set bs' = {} \<and> free_set rs \<union> free_set bs' = free_set [(0, 1), (2, 1)]"
  by (rule first_fit_no_double_allocation [OF two_blocks_inv]) simp

theorem free_pages_coalesces_witness:
  "\<exists>st'. default_free_pages 1 1 two_blocks = Some st' \<and> pmm_inv st' [(0, 3)]"
  using free_pages_coalesces [of two_blocks "[(0, 1)]" "[(2, 1)]" 1 1] two_blocks_inv
  using two_blocks_clean1 by (auto simp: coalesce_def join_prev_def join_next_def numeral_3_eq_3)

theorem freed_tail_allocated_twice_witness:
  "\<exists>st1 st2 st3. default_free_pages 4 2 two_blocks = Some st1 \<and>
    default_alloc_pages 2 st1 = Some (Some 4, st2) \<and> default_alloc_pages 2 st2 = Some (Some 4, st3)"
  by (rule freed_tail_allocated_twice [OF two_blocks_inv _ _ _ _ two_blocks_clean]) simp_all
end
