(* ===== verification/BestFit.thy ===== *)
theory BestFit
  imports PmmFirstFit
begin

text \<open>
  lab2/kern/mm/best_fit_pmm.c: the best-fit page allocator. It shares the page
  descriptors, the list insertion and the merging of neighbours with the first-fit
  allocator; its search walks the whole list and keeps the smallest block that fits. It
  implements the same interface as first fit.
\<close>

section \<open>The operations\<close>

definition best_fit_init :: "pmm \<Rightarrow> pmm" where
  "best_fit_init st = (upd_links (list_init FreeList) st)\<lparr>nr_free := 0\<rparr>"

definition best_fit_init_memmap :: "nat \<Rightarrow> nat \<Rightarrow> pmm \<Rightarrow> pmm option" where
  "best_fit_init_memmap base n st =
     do { kassert (0 < n);
          pg \<leftarrow> init_pages n base (pages st);
          let st = st\<lparr>pages := pg\<rparr>;
          let st = upd_page base (\<lambda>p. p\<lparr>property := w32 n\<rparr>) st;
          let st = upd_page base SetPageProperty st;
          let st = st\<lparr>nr_free := w32 (nr_free st + n)\<rparr>;
          l \<leftarrow> insert_block base (links st);
          Some (st\<lparr>links := l\<rparr>) }"

partial_function (option) best_scan ::
    "nat \<Rightarrow> pmm \<Rightarrow> le \<Rightarrow> nat option \<Rightarrow> nat \<Rightarrow> nat option option" where
  "best_scan n st le0 page min_size =
     (let le = list_next le0 (links st)
      in if le = FreeList then Some page
         else let p = le2page le; s = property (pages st p)
              in if n \<le> s \<and> s < min_size then best_scan n st le (Some p) s
                 else best_scan n st le page min_size)"

definition best_fit_alloc_pages :: "nat \<Rightarrow> pmm \<Rightarrow> (nat option \<times> pmm) option" where
  "best_fit_alloc_pages n st =
     do { kassert (0 < n);
          if nr_free st < n then Some (None, st)
          else do {
            page \<leftarrow> best_scan n st FreeList None (w32 (nr_free st + 1));
            case page of
              None \<Rightarrow> Some (None, st)
            | Some p \<Rightarrow> Some (Some p, take_block p n st) } }"

definition best_fit_free_pages :: "nat \<Rightarrow> nat \<Rightarrow> pmm \<Rightarrow> pmm option" where
  "best_fit_free_pages base n st =
     do { kassert (0 < n);
          pg \<leftarrow> clear_pages n base (pages st);
          let st = st\<lparr>pages := pg\<rparr>;
          let st = upd_page base (\<lambda>p. p\<lparr>property := w32 n\<rparr>) st;
          let st = upd_page base SetPageProperty st;
          let st = st\<lparr>nr_free := w32 (nr_free st + n)\<rparr>;
          l \<leftarrow> insert_block base (links st);
          let (b, st) = merge_prev base (st\<lparr>links := l\<rparr>);
          Some (merge_next b st) }"

definition best_fit_nr_free_pages :: "pmm \<Rightarrow> nat" where
  "best_fit_nr_free_pages st = nr_free st"

section \<open>The search\<close>

text \<open>The block the search keeps, with its size, over the blocks in list order.\<close>

primrec best_of :: "nat \<Rightarrow> block list \<Rightarrow> nat option \<Rightarrow> nat \<Rightarrow> nat option" where
  "best_of n [] page m = page"
| "best_of n (b # bs) page m =
     (if n \<le> snd b \<and> snd b < m then best_of n bs (Some (fst b)) (snd b) else best_of n bs page m)"

lemma best_scan_eq:
  assumes "ring (links st) FreeList (heads (xs @ ys))" "list_all (head_ok (pages st)) ys"
  shows "best_scan n st (last (FreeList # heads xs)) page m = Some (best_of n ys page m)"
  using assms
proof (induction ys arbitrary: xs page m)
  case Nil
  then have "nxt (links st) (last (FreeList # heads xs)) = FreeList"
    using ring_next_last [of "links st" FreeList "heads xs" "[]"] by simp
  then show ?case
    by (subst best_scan.simps) (simp add: list_next_def)
next
  case (Cons y ys)
  have n1: "nxt (links st) (last (FreeList # heads xs)) = PageLink (fst y)"
    using Cons.prems ring_next_last [of "links st" FreeList "heads xs" "heads (y # ys)"] by simp
  have s: "property (pages st (fst y)) = snd y"
    using Cons.prems by (simp add: head_ok_def)
  have "best_scan n st (PageLink (fst y)) page' m' = Some (best_of n ys page' m')" for page' m'
    using Cons.IH [of "xs @ [y]" page' m'] Cons.prems by simp
  with n1 s show ?case
    by (subst best_scan.simps) (simp add: list_next_def Let_def)
qed

definition best_at :: "nat \<Rightarrow> block list \<Rightarrow> nat \<Rightarrow> nat \<Rightarrow> block list \<Rightarrow> bool" where
  "best_at n us p k vs \<longleftrightarrow> n \<le> k \<and> (\<forall>u \<in> set us. n \<le> snd u \<longrightarrow> k < snd u) \<and>
     (\<forall>v \<in> set vs. n \<le> snd v \<longrightarrow> k \<le> snd v)"

lemma best_of_kept: "\<forall>b \<in> set bs. n \<le> snd b \<longrightarrow> m \<le> snd b \<Longrightarrow> best_of n bs page m = page"
  by (induction bs) auto

lemma best_of_found:
  "\<exists>b \<in> set bs. n \<le> snd b \<and> snd b < m \<Longrightarrow>
   \<exists>us p k vs. bs = us @ (p, k) # vs \<and> best_of n bs page m = Some p \<and> best_at n us p k vs \<and> k < m"
proof (induction bs arbitrary: page m)
  case Nil
  then show ?case by simp
next
  case (Cons b bs)
  show ?case
  proof (cases "n \<le> snd b \<and> snd b < m")
    case fits: True
    show ?thesis
    proof (cases "\<exists>c \<in> set bs. n \<le> snd c \<and> snd c < snd b")
      case True
      then obtain us p k vs where "bs = us @ (p, k) # vs"
        "best_of n bs (Some (fst b)) (snd b) = Some p" "best_at n us p k vs" "k < snd b"
        using Cons.IH [of "snd b" "Some (fst b)"] by blast
      with fits show ?thesis
        by (intro exI [of _ "b # us"] exI [of _ p] exI [of _ k] exI [of _ vs])
          (auto simp: best_at_def)
    next
      case False
      then have "best_of n bs (Some (fst b)) (snd b) = Some (fst b)"
        by (intro best_of_kept) (auto simp: not_less)
      with fits False show ?thesis
        by (intro exI [of _ "[]"] exI [of _ "fst b"] exI [of _ "snd b"] exI [of _ bs])
          (auto simp: best_at_def not_less)
    qed
  next
    case False
    with Cons.prems obtain us p k vs where "bs = us @ (p, k) # vs"
      "best_of n bs page m = Some p" "best_at n us p k vs" "k < m"
      using Cons.IH [of m page] by auto
    with False show ?thesis
      by (intro exI [of _ "b # us"] exI [of _ p] exI [of _ k] exI [of _ vs])
        (auto simp: best_at_def)
  qed
qed

section \<open>Best fit implements the allocator interface\<close>

definition best_inv :: "pmm \<Rightarrow> block list \<Rightarrow> bool" where
  "best_inv st bs \<longleftrightarrow> pmm_inv st bs \<and> total bs + 1 < 2 ^ 32"

lemma best_scan_none:
  "best_inv st bs \<Longrightarrow> \<forall>bn \<in> set bs. snd bn < n \<Longrightarrow>
   best_scan n st FreeList None (w32 (nr_free st + 1)) = Some None"
  using best_scan_eq [of st "[]" bs n] best_of_kept [of bs n]
  by (force simp: best_inv_def pmm_inv_def)

lemma total_after_take: "n \<le> k \<Longrightarrow> total (after_take us p k n vs) + n = total us + k + total vs"
  by (auto simp: after_take_def)

lemma best_fit_takes:
  assumes inv: "best_inv st bs" and n: "0 < n" and b: "bn \<in> set bs" "n \<le> snd bn"
  shows "\<exists>us p k vs st'. bs = us @ (p, k) # vs \<and> best_at n us p k vs \<and>
    best_fit_alloc_pages n st = Some (Some p, st') \<and> best_inv st' (after_take us p k n vs) \<and>
    \<not> PageProperty (pages st' p)"
proof -
  have nr: "nr_free st = total bs" "w32 (nr_free st + 1) = total bs + 1"
    using inv by (auto simp: best_inv_def pmm_inv_def)
  have "snd bn < total bs + 1" using total_member [OF b(1)] by simp
  with best_of_found [of bs n "total bs + 1" None] b obtain us p k vs where
    s: "bs = us @ (p, k) # vs" "best_of n bs None (total bs + 1) = Some p" "best_at n us p k vs"
    by blast
  have "best_scan n st FreeList None (total bs + 1) = Some (Some p)"
    using best_scan_eq [of st "[]" bs n None "total bs + 1"] inv s(2)
    by (simp add: best_inv_def pmm_inv_def)
  moreover have "\<not> nr_free st < n"
    using total_member [OF b(1)] b(2) nr by simp
  ultimately have "best_fit_alloc_pages n st = Some (Some p, take_block p n st)"
    using n nr by (simp add: best_fit_alloc_pages_def)
  moreover have "n \<le> k" using s(3) by (simp add: best_at_def)
  moreover have "best_inv (take_block p n st) (after_take us p k n vs)"
    using take_block_inv(1) [of st us p k vs n] inv s(1) n total_after_take [OF \<open>n \<le> k\<close>, of us p vs] \<open>n \<le> k\<close>
    by (auto simp: best_inv_def)
  moreover have "\<not> PageProperty (pages (take_block p n st) p)"
    using take_block_inv(2) [of st us p k vs n] inv s(1) n \<open>n \<le> k\<close> by (simp add: best_inv_def)
  ultimately show ?thesis using s by blast
qed

lemma best_fit_none:
  assumes "best_inv st bs" "0 < n" "\<forall>bn \<in> set bs. snd bn < n"
  shows "best_fit_alloc_pages n st = Some (None, st)"
  using assms best_scan_none [OF assms(1,3)] by (simp add: best_fit_alloc_pages_def)

interpretation best_fit: page_allocator best_inv best_fit_alloc_pages
proof
  show "ordered bs" if "best_inv st bs" for st bs
    using that by (simp add: best_inv_def pmm_inv_def)
  show "best_fit_alloc_pages n st = Some (None, st)"
    if "best_inv st bs" "0 < n" "\<forall>bn \<in> set bs. snd bn < n" for st bs and n :: nat
    using that by (rule best_fit_none)
  show "\<exists>us p k vs st'. bs = us @ (p, k) # vs \<and> n \<le> k \<and>
      best_fit_alloc_pages n st = Some (Some p, st') \<and> best_inv st' (after_take us p k n vs)"
    if "best_inv st bs" "0 < n" "bn \<in> set bs" "n \<le> snd bn" for st bs and n :: nat and bn
    using best_fit_takes [OF that] unfolding best_at_def by blast
qed

lemma best_fit_free_eq: "best_fit_free_pages = default_free_pages"
  by (intro ext) (simp add: best_fit_free_pages_def default_free_pages_def)

section \<open>Properties\<close>

text \<open>C4: \<^verbatim>\<open>best_fit_alloc_pages\<close> returns pages of a smallest block that is large
  enough, the first such block in address order, clears its property flag, and puts the
  rest of the block back in its place; when every block is too small it fails and
  changes nothing.\<close>
theorem best_fit_alloc_smallest:
  assumes "pmm_inv st bs" "total bs + 1 < 2 ^ 32" "0 < n"
  shows "if \<forall>bn \<in> set bs. snd bn < n then best_fit_alloc_pages n st = Some (None, st)
    else \<exists>us p k vs st'. bs = us @ (p, k) # vs \<and> n \<le> k \<and>
      (\<forall>u \<in> set us. n \<le> snd u \<longrightarrow> k < snd u) \<and> (\<forall>v \<in> set vs. n \<le> snd v \<longrightarrow> k \<le> snd v) \<and>
      best_fit_alloc_pages n st = Some (Some p, st') \<and> pmm_inv st' (after_take us p k n vs) \<and>
      \<not> PageProperty (pages st' p)"
proof (cases "\<forall>bn \<in> set bs. snd bn < n")
  case True
  then show ?thesis using best_fit_none [of st bs n] assms by (simp add: best_inv_def)
next
  case False
  then obtain bn where "bn \<in> set bs" "n \<le> snd bn" by (auto simp: not_less)
  with best_fit_takes [of st bs n bn] assms False show ?thesis
    by (simp add: best_inv_def best_at_def) metis
qed

theorem best_fit_alloc_smallest_witness:
  "\<exists>us p k vs st'. [(0, 1), (2, 1)] = us @ (p, k) # vs \<and> 1 \<le> k \<and>
    (\<forall>u \<in> set us. 1 \<le> snd u \<longrightarrow> k < snd u) \<and> (\<forall>v \<in> set vs. 1 \<le> snd v \<longrightarrow> k \<le> snd v) \<and>
    best_fit_alloc_pages 1 two_blocks = Some (Some p, st') \<and> pmm_inv st' (after_take us p k 1 vs) \<and>
    \<not> PageProperty (pages st' p)"
  using best_fit_alloc_smallest [OF two_blocks_inv, of 1] by simp

end
