(* ===== verification/Str.thy ===== *)
theory Str
  imports Prelude
begin

text \<open>
  libs/string.c over a byte memory: \<^verbatim>\<open>mem\<close> maps addresses to bytes, a pointer is an
  address, and \<^verbatim>\<open>char\<close> is unsigned as on RISC-V. The functions that scan for a
  terminator that may not be there are partial (\<^verbatim>\<open>None\<close> is an endless scan); the
  functions with a length are structural in it. \<^verbatim>\<open>cstr m s xs\<close> says that the bytes at
  \<^verbatim>\<open>s\<close> are the C string \<^verbatim>\<open>xs\<close>. Character codes are written as numbers:
  9 is tab, 32 space, 43 plus, 45 minus, 48 is 0, 57 is 9, 65 is A, 90 is Z, 97 is a,
  120 is x, 122 is z.
\<close>

type_synonym byte = "8 word"
type_synonym mem = "nat \<Rightarrow> byte"

section \<open>The functions of libs/string.c\<close>

partial_function (option) strlen_loop :: "mem \<Rightarrow> nat \<Rightarrow> nat \<Rightarrow> nat option" where
  "strlen_loop m s cnt = (if m s \<noteq> 0 then strlen_loop m (s + 1) (cnt + 1) else Some cnt)"

definition strlen :: "mem \<Rightarrow> nat \<Rightarrow> nat option" where
  "strlen m s = strlen_loop m s 0"

function strnlen_loop :: "mem \<Rightarrow> nat \<Rightarrow> nat \<Rightarrow> nat \<Rightarrow> nat" where
  "strnlen_loop m s len cnt =
     (if cnt < len \<and> m s \<noteq> 0 then strnlen_loop m (s + 1) len (cnt + 1) else cnt)"
  by pat_completeness auto
termination by (relation "measure (\<lambda>(m, s, len, cnt). len - cnt)") auto

declare strnlen_loop.simps [simp del]

definition strnlen :: "mem \<Rightarrow> nat \<Rightarrow> nat \<Rightarrow> nat" where
  "strnlen m s len = strnlen_loop m s len 0"

partial_function (option) strcpy_loop :: "nat \<Rightarrow> nat \<Rightarrow> mem \<Rightarrow> mem option" where
  "strcpy_loop p src m =
     (let c = m src; m = m(p := c)
      in if c \<noteq> 0 then strcpy_loop (p + 1) (src + 1) m else Some m)"

definition strcpy :: "nat \<Rightarrow> nat \<Rightarrow> mem \<Rightarrow> (nat \<times> mem) option" where
  "strcpy dst src m = do { m \<leftarrow> strcpy_loop dst src m; Some (dst, m) }"

primrec strncpy_loop :: "nat \<Rightarrow> nat \<Rightarrow> nat \<Rightarrow> mem \<Rightarrow> mem" where
  "strncpy_loop 0 p src m = m"
| "strncpy_loop (Suc len) p src m =
     (let c = m src; m = m(p := c)
      in strncpy_loop len (p + 1) (if c \<noteq> 0 then src + 1 else src) m)"

definition strncpy :: "nat \<Rightarrow> nat \<Rightarrow> nat \<Rightarrow> mem \<Rightarrow> nat \<times> mem" where
  "strncpy dst src len m = (dst, strncpy_loop len dst src m)"

definition strcat :: "nat \<Rightarrow> nat \<Rightarrow> mem \<Rightarrow> (nat \<times> mem) option" where
  "strcat dst src m = do { k \<leftarrow> strlen m dst; strcpy (dst + k) src m }"

partial_function (option) strcmp :: "mem \<Rightarrow> nat \<Rightarrow> nat \<Rightarrow> int option" where
  "strcmp m s1 s2 =
     (if m s1 \<noteq> 0 \<and> m s1 = m s2 then strcmp m (s1 + 1) (s2 + 1)
      else Some (uint (m s1) - uint (m s2)))"

fun strncmp :: "mem \<Rightarrow> nat \<Rightarrow> nat \<Rightarrow> nat \<Rightarrow> int" where
  "strncmp m s1 s2 n =
     (if 0 < n \<and> m s1 \<noteq> 0 \<and> m s1 = m s2 then strncmp m (s1 + 1) (s2 + 1) (n - 1)
      else if n = 0 then 0 else uint (m s1) - uint (m s2))"

declare strncmp.simps [simp del]

partial_function (option) strchr :: "mem \<Rightarrow> nat \<Rightarrow> byte \<Rightarrow> nat option option" where
  "strchr m s c =
     (if m s \<noteq> 0 then (if m s = c then Some (Some s) else strchr m (s + 1) c) else Some None)"

partial_function (option) strfind :: "mem \<Rightarrow> nat \<Rightarrow> byte \<Rightarrow> nat option" where
  "strfind m s c = (if m s \<noteq> 0 then (if m s = c then Some s else strfind m (s + 1) c) else Some s)"

text \<open>
  \<^verbatim>\<open>strtol\<close>: the number is a 64-bit word, so the overflow the code does not detect
  wraps; the new value of \<^verbatim>\<open>*endptr\<close> is returned with it.
\<close>

partial_function (option) skip_blanks :: "mem \<Rightarrow> nat \<Rightarrow> nat option" where
  "skip_blanks m s = (if m s = 32 \<or> m s = 9 then skip_blanks m (s + 1) else Some s)"

definition digit_of :: "byte \<Rightarrow> int option" where
  "digit_of c =
     (if 48 \<le> c \<and> c \<le> 57 then Some (uint c - 48)
      else if 97 \<le> c \<and> c \<le> 122 then Some (uint c - 97 + 10)
      else if 65 \<le> c \<and> c \<le> 90 then Some (uint c - 65 + 10)
      else None)"

partial_function (option) strtol_digits ::
    "mem \<Rightarrow> int \<Rightarrow> nat \<Rightarrow> 64 word \<Rightarrow> (64 word \<times> nat) option" where
  "strtol_digits m base s val =
     (case digit_of (m s) of
        None \<Rightarrow> Some (val, s)
      | Some dig \<Rightarrow> if dig \<ge> base then Some (val, s)
          else strtol_digits m base (s + 1) (val * of_int base + of_int dig))"

definition strtol :: "mem \<Rightarrow> nat \<Rightarrow> int \<Rightarrow> (64 word \<times> nat) option" where
  "strtol m s base =
     do { s \<leftarrow> skip_blanks m s;
          let (s, neg) = (if m s = 43 then (s + 1, False)
                          else if m s = 45 then (s + 1, True) else (s, False));
          let (s, base) =
            (if (base = 0 \<or> base = 16) \<and> m s = 48 \<and> m (s + 1) = 120 then (s + 2, 16)
             else if base = 0 \<and> m s = 48 then (s + 1, 8)
             else if base = 0 then (s, 10) else (s, base));
          (val, s) \<leftarrow> strtol_digits m base s 0;
          Some (if neg then - val else val, s) }"

primrec memset_loop :: "nat \<Rightarrow> nat \<Rightarrow> byte \<Rightarrow> mem \<Rightarrow> mem" where
  "memset_loop 0 p c m = m"
| "memset_loop (Suc n) p c m = memset_loop n (p + 1) c (m(p := c))"

definition memset :: "nat \<Rightarrow> byte \<Rightarrow> nat \<Rightarrow> mem \<Rightarrow> nat \<times> mem" where
  "memset s c n m = (s, memset_loop n s c m)"

primrec copy_up :: "nat \<Rightarrow> nat \<Rightarrow> nat \<Rightarrow> mem \<Rightarrow> mem" where
  "copy_up 0 d s m = m"
| "copy_up (Suc n) d s m = copy_up n (d + 1) (s + 1) (m(d := m s))"

text \<open>The descending loop starts with both pointers past the end and steps back first.\<close>

primrec copy_down :: "nat \<Rightarrow> nat \<Rightarrow> nat \<Rightarrow> mem \<Rightarrow> mem" where
  "copy_down 0 d s m = m"
| "copy_down (Suc n) d s m = copy_down n (d - 1) (s - 1) (m(d - 1 := m (s - 1)))"

definition memmove :: "nat \<Rightarrow> nat \<Rightarrow> nat \<Rightarrow> mem \<Rightarrow> nat \<times> mem" where
  "memmove dst src n m =
     (dst, if src < dst \<and> dst < src + n then copy_down n (dst + n) (src + n) m
           else copy_up n dst src m)"

definition memcpy :: "nat \<Rightarrow> nat \<Rightarrow> nat \<Rightarrow> mem \<Rightarrow> nat \<times> mem" where
  "memcpy dst src n m = (dst, copy_up n dst src m)"

primrec memcmp :: "mem \<Rightarrow> nat \<Rightarrow> nat \<Rightarrow> nat \<Rightarrow> int" where
  "memcmp m v1 v2 0 = 0"
| "memcmp m v1 v2 (Suc n) =
     (if m v1 \<noteq> m v2 then uint (m v1) - uint (m v2) else memcmp m (v1 + 1) (v2 + 1) n)"

section \<open>C strings\<close>

primrec cstr :: "mem \<Rightarrow> nat \<Rightarrow> byte list \<Rightarrow> bool" where
  "cstr m s [] \<longleftrightarrow> m s = 0"
| "cstr m s (x # xs) \<longleftrightarrow> m s = x \<and> x \<noteq> 0 \<and> cstr m (s + 1) xs"

lemma cstr_cong: "(\<And>i. i \<le> length xs \<Longrightarrow> m' (s + i) = m (s + i)) \<Longrightarrow> cstr m' s xs = cstr m s xs"
proof (induction xs arbitrary: s)
  case Nil
  from Nil [of 0] show ?case by simp
next
  case (Cons x xs)
  have "cstr m' (s + 1) xs = cstr m (s + 1) xs"
    by (rule Cons.IH) (use Cons.prems [of "Suc _"] in simp)
  with Cons.prems [of 0] show ?case by simp
qed

lemma cstr_frame [simp]: "p < s \<or> s + length xs < p \<Longrightarrow> cstr (m(p := c)) s xs = cstr m s xs"
  by (rule cstr_cong) auto

lemma cstr_append: "cstr m s (xs @ ys) \<longleftrightarrow> (\<forall>i < length xs. m (s + i) = xs ! i \<and> xs ! i \<noteq> 0) \<and> cstr m (s + length xs) ys"
  by (induction xs arbitrary: s) (auto simp: nth_Cons less_Suc_eq_0_disj)

lemma cstr_nth: "cstr m s xs \<longleftrightarrow> (\<forall>i < length xs. m (s + i) = xs ! i \<and> xs ! i \<noteq> 0) \<and> m (s + length xs) = 0"
  using cstr_append [of m s xs "[]"] by simp

lemma cstr_unique: "cstr m s xs \<Longrightarrow> cstr m s ys \<Longrightarrow> xs = ys"
proof (induction xs arbitrary: s ys)
  case Nil
  then show ?case by (cases ys) auto
next
  case (Cons x xs)
  then show ?case by (cases ys) auto
qed

section \<open>Lengths, comparison, search\<close>

lemma strlen_loop_cstr: "cstr m s xs \<Longrightarrow> strlen_loop m s cnt = Some (cnt + length xs)"
  by (induction xs arbitrary: s cnt) (simp_all add: strlen_loop.simps)

lemma strlen_cstr: "cstr m s xs \<Longrightarrow> strlen m s = Some (length xs)"
  by (simp add: strlen_def strlen_loop_cstr)

lemma strnlen_loop_cstr: "cstr m s xs \<Longrightarrow> cnt \<le> len \<Longrightarrow> strnlen_loop m s len cnt = min len (cnt + length xs)"
  by (induction xs arbitrary: s cnt) (simp_all add: strnlen_loop.simps)

lemma strnlen_cstr: "cstr m s xs \<Longrightarrow> strnlen m s len = min len (length xs)"
  by (simp add: strnlen_def strnlen_loop_cstr)

text \<open>The order \<^verbatim>\<open>strcmp\<close> decides: by the first byte that differs, a prefix first.\<close>

fun str_less :: "byte list \<Rightarrow> byte list \<Rightarrow> bool" where
  "str_less [] ys \<longleftrightarrow> ys \<noteq> []"
| "str_less (x # xs) [] \<longleftrightarrow> False"
| "str_less (x # xs) (y # ys) \<longleftrightarrow> x < y \<or> x = y \<and> str_less xs ys"

lemma str_less_linear: "str_less xs ys \<or> xs = ys \<or> str_less ys xs"
proof (induction xs ys rule: str_less.induct)
  case (1 ys)
  then show ?case by (cases ys) auto
qed (auto simp: neq_iff)

lemma not_str_less_Nil [simp]: "\<not> str_less xs []"
  by (cases xs) simp_all

lemma str_less_asym: "str_less xs ys \<Longrightarrow> \<not> str_less ys xs"
  by (induction xs ys rule: str_less.induct) auto

lemma strcmp_cstr:
  assumes "cstr m s xs" "cstr m t ys"
  shows "\<exists>r. strcmp m s t = Some r \<and> (r < 0 \<longleftrightarrow> str_less xs ys) \<and> (r = 0 \<longleftrightarrow> xs = ys)"
  using assms
proof (induction xs arbitrary: s t ys)
  case Nil
  have u: "uint (m t) > 0" if "m t \<noteq> 0"
    using that by (metis uint_0_iff uint_ge_0 order_le_less)
  from Nil show ?case
    by (cases ys) (use u in \<open>auto simp: strcmp.simps\<close>)
next
  case (Cons x xs)
  show ?case
  proof (cases ys)
    case Nil
    have "uint x > 0" using Cons.prems by (metis cstr.simps(2) uint_0_iff uint_ge_0 order_le_less)
    with Cons.prems Nil show ?thesis by (subst strcmp.simps) auto
  next
    case (Cons y zs)
    show ?thesis
    proof (cases "x = y")
      case True
      with Cons.prems Cons.IH [of "s + 1" "t + 1" zs] Cons show ?thesis
        by (subst strcmp.simps) auto
    next
      case False
      then have "uint x \<noteq> uint y" by (simp add: word_uint_eq_iff)
      with False Cons.prems Cons show ?thesis
        by (subst strcmp.simps) (auto simp: word_less_def)
    qed
  qed
qed

section \<open>Copying\<close>

definition copied :: "nat \<Rightarrow> nat \<Rightarrow> nat \<Rightarrow> mem \<Rightarrow> mem" where
  "copied d s n m = (\<lambda>a. if d \<le> a \<and> a < d + n then m (s + (a - d)) else m a)"

lemma copied_0 [simp]: "copied d s 0 m = m"
  by (auto simp: copied_def fun_eq_iff)

lemma copy_up_eq: "d \<le> s \<or> s + n \<le> d \<Longrightarrow> copy_up n d s m = copied d s n m"
proof (induction n arbitrary: d s m)
  case 0
  then show ?case by simp
next
  case (Suc n)
  then have "copy_up n (d + 1) (s + 1) (m(d := m s)) = copied (d + 1) (s + 1) n (m(d := m s))"
    by (intro Suc.IH) auto
  with Suc.prems show ?case
    by (auto simp: copied_def fun_eq_iff Suc_diff_Suc)
qed

lemma copy_down_eq: "s \<le> d \<Longrightarrow> copy_down n (d + n) (s + n) m = copied d s n m"
proof (induction n arbitrary: m)
  case 0
  then show ?case by simp
next
  case (Suc n)
  have "copy_down n (d + n) (s + n) (m(d + n := m (s + n))) = copied d s n (m(d + n := m (s + n)))"
    by (rule Suc.IH) (use Suc.prems in simp)
  with Suc.prems show ?case
    by (auto simp: copied_def fun_eq_iff less_Suc_eq)
qed

lemma memset_loop_eq: "memset_loop n p c m = (\<lambda>a. if p \<le> a \<and> a < p + n then c else m a)"
  by (induction n arbitrary: p m) (auto simp: fun_eq_iff)

lemma memcpy_eq: "dst \<le> src \<or> src + n \<le> dst \<Longrightarrow> memcpy dst src n m = (dst, copied dst src n m)"
  by (simp add: memcpy_def copy_up_eq)

lemma memmove_eq: "memmove dst src n m = (dst, copied dst src n m)"
proof (cases "src < dst \<and> dst < src + n")
  case True
  then show ?thesis by (simp add: memmove_def copy_down_eq)
next
  case False
  then show ?thesis by (auto simp: memmove_def copy_up_eq not_less)
qed

lemma strcpy_loop_cstr:
  assumes "cstr m src xs" "src + length xs < dst \<or> dst + length xs < src"
  shows "strcpy_loop dst src m = Some (copied dst src (Suc (length xs)) m)"
  using assms
proof (induction xs arbitrary: src dst m)
  case Nil
  then show ?case by (subst strcpy_loop.simps) (auto simp: copied_def fun_eq_iff)
next
  case (Cons x xs)
  let ?m = "m(dst := x)"
  have "cstr ?m (src + 1) xs"
    using Cons.prems by auto
  then have "strcpy_loop (dst + 1) (src + 1) ?m =
      Some (copied (dst + 1) (src + 1) (Suc (length xs)) ?m)"
    by (rule Cons.IH) (use Cons.prems in auto)
  moreover have "copied (dst + 1) (src + 1) (Suc (length xs)) ?m =
      copied dst src (Suc (length (x # xs))) m"
    using Cons.prems by (auto simp: copied_def fun_eq_iff Suc_diff_Suc)
  ultimately show ?case
    using Cons.prems by (subst strcpy_loop.simps) (simp add: Let_def)
qed

lemma copied_cstr:
  "cstr m src xs \<Longrightarrow> cstr (copied dst src (Suc (length xs)) m) dst xs"
  by (auto simp: cstr_nth copied_def)

lemma strcat_cstr:
  assumes "cstr m dst xs" "cstr m src ys"
    and "src + length ys < dst \<or> dst + length xs + length ys < src"
  shows "\<exists>m'. strcat dst src m = Some (dst + length xs, m') \<and> cstr m' dst (xs @ ys) \<and>
    (\<forall>a. a < dst \<or> dst + length xs + length ys < a \<longrightarrow> m' a = m a)"
proof -
  let ?d = "dst + length xs"
  let ?m = "copied ?d src (Suc (length ys)) m"
  have "strcpy_loop ?d src m = Some ?m"
    by (rule strcpy_loop_cstr) (use assms in auto)
  then have "strcat dst src m = Some (?d, ?m)"
    using assms(1) by (simp add: strcat_def strcpy_def strlen_cstr)
  moreover have "cstr ?m ?d ys" using assms(2) by (rule copied_cstr)
  then have "cstr ?m dst (xs @ ys)"
    using assms(1) by (auto simp: cstr_append cstr_nth [of m] copied_def)
  ultimately show ?thesis by (auto simp: copied_def)
qed

text \<open>A memory that holds the given bytes from address 0 on and zeros after them.\<close>

definition rodata :: "byte list \<Rightarrow> mem" where
  "rodata xs = (\<lambda>a. if a < length xs then xs ! a else 0)"

lemma rodata_cstr:
  "(\<And>i. i < length xs \<Longrightarrow> s + i < length ys \<and> ys ! (s + i) = xs ! i \<and> xs ! i \<noteq> 0) \<Longrightarrow>
   s + length xs \<ge> length ys \<or> ys ! (s + length xs) = 0 \<Longrightarrow> cstr (rodata ys) s xs"
  by (auto simp: cstr_nth rodata_def)

section \<open>Properties\<close>

text \<open>C11: \<^verbatim>\<open>memmove\<close> leaves the destination with the bytes the source range held
  before the call and changes nothing else, however the two ranges overlap, and returns
  the destination.\<close>
theorem memmove_any_overlap:
  "memmove dst src n m = (dst, \<lambda>a. if dst \<le> a \<and> a < dst + n then m (src + (a - dst)) else m a)"
  by (simp add: memmove_eq copied_def)

text \<open>On two C strings \<^verbatim>\<open>strcmp\<close> returns, its result is 0 exactly when they are
  equal, negative exactly when the first is before the second in the byte order (a prefix
  first), and positive exactly when it is after it.\<close>
theorem strcmp_orders:
  assumes "cstr m s xs" "cstr m t ys"
  shows "\<exists>r. strcmp m s t = Some r \<and> (r < 0 \<longleftrightarrow> str_less xs ys) \<and> (r = 0 \<longleftrightarrow> xs = ys) \<and>
    (r > 0 \<longleftrightarrow> str_less ys xs)"
  using strcmp_cstr [OF assms] str_less_linear [of xs ys] str_less_asym [of xs ys]
    str_less_asym [of ys xs] by (metis linorder_less_linear order_less_asym)

theorem strcmp_orders_witness:
  "\<exists>r. strcmp (rodata [97, 98, 0, 97, 99, 0]) 0 3 = Some r \<and> (r < 0 \<longleftrightarrow> str_less [97, 98] [97, 99]) \<and>
    (r = 0 \<longleftrightarrow> [97, 98 :: byte] = [97, 99]) \<and> (r > 0 \<longleftrightarrow> str_less [97, 99] [97, 98])"
  by (rule strcmp_orders) (simp_all add: rodata_def)

text \<open>\<^verbatim>\<open>strcpy\<close> and \<^verbatim>\<open>strcat\<close> on non-overlapping strings: the copy is
  the source string, the concatenation is both strings, bytes outside the written range
  keep their values; \<^verbatim>\<open>strcat\<close> returns the address of the appended part, not of the
  whole string.\<close>
theorem strcpy_strcat_strings:
  assumes "cstr m dst xs" "cstr m src ys"
    and "src + length ys < dst \<or> dst + length xs + length ys < src"
  shows "(\<exists>m'. strcpy dst src m = Some (dst, m') \<and> cstr m' dst ys \<and>
      (\<forall>a. a < dst \<or> dst + length ys < a \<longrightarrow> m' a = m a)) \<and>
    (\<exists>m'. strcat dst src m = Some (dst + length xs, m') \<and> cstr m' dst (xs @ ys) \<and>
      (\<forall>a. a < dst \<or> dst + length xs + length ys < a \<longrightarrow> m' a = m a))"
proof
  have "strcpy_loop dst src m = Some (copied dst src (Suc (length ys)) m)"
    by (rule strcpy_loop_cstr) (use assms in auto)
  then show "\<exists>m'. strcpy dst src m = Some (dst, m') \<and> cstr m' dst ys \<and>
      (\<forall>a. a < dst \<or> dst + length ys < a \<longrightarrow> m' a = m a)"
    using copied_cstr [OF assms(2), of dst] by (auto simp: strcpy_def copied_def)
qed (rule strcat_cstr [OF assms])

theorem strcpy_strcat_strings_witness:
  "\<exists>m'. strcat 8 0 (rodata [104, 105]) = Some (8, m') \<and> cstr m' 8 [104, 105]"
proof -
  have "cstr (rodata [104, 105]) 8 []" "cstr (rodata [104, 105]) 0 [104, 105]"
    by (simp_all add: rodata_def)
  from strcpy_strcat_strings [OF this] show ?thesis by auto
qed

end
