(* ===== verification/Printfmt.thy ===== *)
theory Printfmt
  imports Str
begin

text \<open>
  libs/printfmt.c. The formatter only calls \<^verbatim>\<open>putch\<close> and never reads what it did, so
  a run is modelled by the list of the characters it passes to \<^verbatim>\<open>putch\<close>, in order;
  \<^verbatim>\<open>vsnprintf\<close> then folds its own \<^verbatim>\<open>sprintputch\<close> over them. The variable
  arguments are the 64-bit slots in which RISC-V passes them; reading an argument that
  was not passed has no value (\<^verbatim>\<open>None\<close>), like a run that does not return. The memory the
  format and the strings are read from is the one at the call: the output buffer must not
  overlap them. Widths and precisions are unbounded, as their overflow is undefined in C.
\<close>

section \<open>Numbers\<close>

definition digit_char :: "nat \<Rightarrow> int" where
  "digit_char d = (if d < 10 then 48 + int d else 87 + int d)"

text \<open>The loop \<^verbatim>\<open>while (-- width > 0)\<close> emits one pad character less than the width.\<close>

partial_function (option) printnum :: "nat \<Rightarrow> nat \<Rightarrow> int \<Rightarrow> int \<Rightarrow> int list option" where
  "printnum num base width padc =
     (if num \<ge> base
      then do { out \<leftarrow> printnum (num div base) base (width - 1) padc;
                Some (out @ [digit_char (num mod base)]) }
      else Some (replicate (nat (width - 1)) padc @ [digit_char (num mod base)]))"

section \<open>Arguments\<close>

type_synonym va_list = "64 word list"

definition va_next :: "va_list \<Rightarrow> (64 word \<times> va_list) option" where
  "va_next ap = (case ap of [] \<Rightarrow> None | a # ap \<Rightarrow> Some (a, ap))"

definition va_int :: "va_list \<Rightarrow> (int \<times> va_list) option" where
  "va_int ap = do { (a, ap) \<leftarrow> va_next ap; Some (sint (ucast a :: 32 word), ap) }"

definition getuint :: "va_list \<Rightarrow> nat \<Rightarrow> (nat \<times> va_list) option" where
  "getuint ap lflag =
     do { (a, ap) \<leftarrow> va_next ap;
          if lflag \<ge> 2 then Some (unat a, ap)
          else if lflag \<noteq> 0 then Some (unat a, ap)
          else Some (unat (ucast a :: 32 word), ap) }"

definition getint :: "va_list \<Rightarrow> nat \<Rightarrow> (int \<times> va_list) option" where
  "getint ap lflag =
     do { (a, ap) \<leftarrow> va_next ap;
          if lflag \<ge> 2 then Some (sint a, ap)
          else if lflag \<noteq> 0 then Some (sint a, ap)
          else Some (sint (ucast a :: 32 word), ap) }"

section \<open>The escape sequence\<close>

record spec_flags =
  padc :: int
  width :: int
  precision :: int
  lflag :: nat
  altflag :: bool

definition no_flags :: spec_flags where
  "no_flags = \<lparr>padc = 32, width = - 1, precision = - 1, lflag = 0, altflag = False\<rparr>"

partial_function (option) read_width :: "mem \<Rightarrow> nat \<Rightarrow> int \<Rightarrow> byte \<Rightarrow> (int \<times> nat) option" where
  "read_width m fmt prec ch =
     (let prec = prec * 10 + uint ch - 48; ch = m fmt
      in if ch < 48 \<or> 57 < ch then Some (prec, fmt) else read_width m (fmt + 1) prec ch)"

definition process_precision :: "spec_flags \<Rightarrow> spec_flags" where
  "process_precision fl =
     (if width fl < 0 then fl\<lparr>width := precision fl, precision := - 1\<rparr> else fl)"

text \<open>
  The part of the \<^verbatim>\<open>switch\<close> that goes back to \<^verbatim>\<open>reswitch\<close>: 45 is minus, 48 to 57
  the digits, 42 the star, 46 the dot, 35 the hash sign, 108 is l. It ends at the conversion
  character.
\<close>

partial_function (option) reswitch ::
    "mem \<Rightarrow> nat \<Rightarrow> spec_flags \<Rightarrow> va_list \<Rightarrow> (byte \<times> nat \<times> spec_flags \<times> va_list) option" where
  "reswitch m fmt fl ap =
     (let ch = m fmt; fmt = fmt + 1
      in if ch = 45 then reswitch m fmt (fl\<lparr>padc := 45\<rparr>) ap
         else if ch = 48 then reswitch m fmt (fl\<lparr>padc := 48\<rparr>) ap
         else if 49 \<le> ch \<and> ch \<le> 57 then
           do { (p, fmt) \<leftarrow> read_width m fmt 0 ch;
                reswitch m fmt (process_precision (fl\<lparr>precision := p\<rparr>)) ap }
         else if ch = 42 then
           do { (p, ap) \<leftarrow> va_int ap;
                reswitch m fmt (process_precision (fl\<lparr>precision := p\<rparr>)) ap }
         else if ch = 46 then reswitch m fmt (if width fl < 0 then fl\<lparr>width := 0\<rparr> else fl) ap
         else if ch = 35 then reswitch m fmt (fl\<lparr>altflag := True\<rparr>) ap
         else if ch = 108 then reswitch m fmt (fl\<lparr>lflag := lflag fl + 1\<rparr>) ap
         else Some (ch, fmt, fl, ap))"

section \<open>Strings\<close>

partial_function (option) print_chars ::
    "mem \<Rightarrow> nat \<Rightarrow> int \<Rightarrow> int \<Rightarrow> bool \<Rightarrow> (int list \<times> int) option" where
  "print_chars m p prec w alt =
     (let ch = m p
      in if ch \<noteq> 0 \<and> (prec < 0 \<or> prec - 1 \<ge> 0)
         then do { (out, w) \<leftarrow> print_chars m (p + 1) (if prec < 0 then prec else prec - 1) (w - 1) alt;
                   Some ((if alt \<and> (ch < 32 \<or> 126 < ch) then 63 else uint ch) # out, w) }
         else Some ([], w))"

definition print_str :: "mem \<Rightarrow> nat \<Rightarrow> spec_flags \<Rightarrow> int list option" where
  "print_str m p fl =
     (let w = (if width fl > 0 \<and> padc fl \<noteq> 45
               then width fl - int (strnlen m p (nat (precision fl mod 2 ^ 64))) else width fl);
          pads = (if width fl > 0 \<and> padc fl \<noteq> 45 then replicate (nat w) (padc fl) else []);
          w = (if width fl > 0 \<and> padc fl \<noteq> 45 \<and> w > 0 then 0 else w)
      in do { (out, w) \<leftarrow> print_chars m p (precision fl) w (altflag fl);
              Some (pads @ out @ replicate (nat w) 32) })"

definition bytes :: "string \<Rightarrow> byte list" where
  "bytes s = map of_char s"

definition error_string :: "int \<Rightarrow> string option" where
  "error_string = map_of
     [(1, ''unspecified error''), (2, ''bad process''), (3, ''invalid parameter''),
      (4, ''out of memory''), (5, ''out of processes''), (6, ''segmentation fault''),
      (8, ''invalid elf file''), (9, ''process is killed''), (10, ''panic failure''),
      (13, ''no such device''), (14, ''device not available''), (15, ''device/file is busy''),
      (16, ''no such file or directory''), (17, ''is a directory''), (18, ''not a directory''),
      (19, ''cross device link''), (20, ''unimplemented feature''), (21, ''illegal seek''),
      (22, ''too many files are open''), (23, ''file or directory already exists''),
      (24, ''directory is not empty'')]"

section \<open>Conversions\<close>

definition print_signed :: "int \<Rightarrow> spec_flags \<Rightarrow> int list option" where
  "print_signed num fl =
     (if num < 0
      then do { out \<leftarrow> printnum (nat ((- num) mod 2 ^ 64)) 10 (width fl) (padc fl); Some (45 # out) }
      else printnum (nat num) 10 (width fl) (padc fl))"

text \<open>
  The conversions other than \<^verbatim>\<open>%e\<close>: 99 is c, 115 is s, 100 is d, 117 is u, 111 is
  o, 112 is p, 120 is x, 37 the percent sign. The last case is an unrecognized character:
  a percent sign is printed, and the format is read again from behind its own.
\<close>

primrec back_to_percent :: "mem \<Rightarrow> nat \<Rightarrow> nat" where
  "back_to_percent m 0 = 0"
| "back_to_percent m (Suc f) = (if m f \<noteq> 37 then back_to_percent m f else Suc f)"

definition convert :: "mem \<Rightarrow> byte \<Rightarrow> nat \<Rightarrow> spec_flags \<Rightarrow> va_list \<Rightarrow> (int list \<times> nat \<times> va_list) option" where
  "convert m ch fmt fl ap =
     (if ch = 99 then do { (c, ap) \<leftarrow> va_int ap; Some ([c], fmt, ap) }
      else if ch = 115 then
        do { (a, ap) \<leftarrow> va_next ap;
             out \<leftarrow> (if unat a = 0 then print_str (rodata (bytes ''(null)'')) 0 fl
                    else print_str m (unat a) fl);
             Some (out, fmt, ap) }
      else if ch = 100 then
        do { (num, ap) \<leftarrow> getint ap (lflag fl); out \<leftarrow> print_signed num fl; Some (out, fmt, ap) }
      else if ch = 117 then
        do { (num, ap) \<leftarrow> getuint ap (lflag fl);
             out \<leftarrow> printnum num 10 (width fl) (padc fl); Some (out, fmt, ap) }
      else if ch = 111 then
        do { (num, ap) \<leftarrow> getuint ap (lflag fl);
             out \<leftarrow> printnum num 8 (width fl) (padc fl); Some (out, fmt, ap) }
      else if ch = 112 then
        do { (a, ap) \<leftarrow> va_next ap;
             out \<leftarrow> printnum (unat a) 16 (width fl) (padc fl); Some (48 # 120 # out, fmt, ap) }
      else if ch = 120 then
        do { (num, ap) \<leftarrow> getuint ap (lflag fl);
             out \<leftarrow> printnum num 16 (width fl) (padc fl); Some (out, fmt, ap) }
      else if ch = 37 then Some ([37], fmt, ap)
      else Some ([37], back_to_percent m (fmt - 1), ap))"

text \<open>The whole formatter; 101 is e, whose message is printed by a nested call.\<close>

partial_function (option) vprintfmt :: "mem \<Rightarrow> nat \<Rightarrow> va_list \<Rightarrow> int list option" where
  "vprintfmt m fmt ap =
     (if m fmt \<noteq> 37 then
        (if m fmt = 0 then Some []
         else do { rest \<leftarrow> vprintfmt m (fmt + 1) ap; Some (uint (m fmt) # rest) })
      else do {
        (ch, fmt, fl, ap) \<leftarrow> reswitch m (fmt + 1) no_flags ap;
        if ch = 101 then do {
          (a, ap) \<leftarrow> va_int ap;
          let err = (if a < 0 then - a else a);
          out \<leftarrow> (if err > 24 then vprintfmt (rodata (bytes ''error %d'')) 0 [of_int err]
                  else (case error_string err of
                      None \<Rightarrow> vprintfmt (rodata (bytes ''error %d'')) 0 [of_int err]
                    | Some p \<Rightarrow> vprintfmt (rodata (bytes ''%s'' @ [0] @ bytes p)) 0 [3]));
          rest \<leftarrow> vprintfmt m fmt ap;
          Some (out @ rest) }
        else do {
          (out, fmt, ap) \<leftarrow> convert m ch fmt fl ap;
          rest \<leftarrow> vprintfmt m fmt ap;
          Some (out @ rest) } })"

section \<open>Printing into a buffer\<close>

record sprintbuf =
  buf :: nat
  ebuf :: nat
  cnt :: int
  store :: mem

definition sprintputch :: "int \<Rightarrow> sprintbuf \<Rightarrow> sprintbuf" where
  "sprintputch ch b =
     (let b = b\<lparr>cnt := cnt b + 1\<rparr>
      in if buf b < ebuf b
         then b\<lparr>store := (store b)(buf b := of_int ch), buf := buf b + 1\<rparr> else b)"

definition vsnprintf :: "nat \<Rightarrow> nat \<Rightarrow> nat \<Rightarrow> va_list \<Rightarrow> mem \<Rightarrow> (int \<times> mem) option" where
  "vsnprintf str sz fmt ap m =
     (let b = \<lparr>buf = str, ebuf = str + sz - 1, cnt = 0, store = m\<rparr>
      in if str = 0 \<or> ebuf b < buf b then Some (- E_INVAL, m)
         else do { out \<leftarrow> vprintfmt m fmt ap;
                   let b = fold sprintputch out b;
                   Some (cnt b, (store b)(buf b := 0)) })"

section \<open>Digits\<close>

text \<open>The digits of a number in a base, most significant first, and how they are read.\<close>

fun digits :: "nat \<Rightarrow> nat \<Rightarrow> nat list" where
  "digits b n = (if n < b \<or> b < 2 then [n mod b] else digits b (n div b) @ [n mod b])"

declare digits.simps [simp del]

lemma digits_small: "n < b \<Longrightarrow> digits b n = [n]"
  by (simp add: digits.simps)

lemma digits_step: "2 \<le> b \<Longrightarrow> b \<le> n \<Longrightarrow> digits b n = digits b (n div b) @ [n mod b]"
  by (simp add: digits.simps)

lemma digits_value: "2 \<le> b \<Longrightarrow> foldl (\<lambda>v d. v * b + d) 0 (digits b n) = n"
proof (induction b n rule: digits.induct)
  case (1 b n)
  show ?case
  proof (cases "n < b")
    case True
    then show ?thesis by (simp add: digits_small)
  next
    case False
    with 1 show ?thesis by (simp add: digits_step)
  qed
qed

lemma digits_less: "2 \<le> b \<Longrightarrow> d \<in> set (digits b n) \<Longrightarrow> d < b"
proof (induction b n rule: digits.induct)
  case (1 b n)
  show ?case
  proof (cases "n < b")
    case True
    with 1 show ?thesis by (simp add: digits_small)
  next
    case False
    with 1 show ?thesis by (auto simp: digits_step)
  qed
qed

lemma digits_nonempty: "digits b n \<noteq> []"
  by (simp add: digits.simps)

lemma printnum_digits:
  "2 \<le> b \<Longrightarrow> printnum n b w p =
    Some (replicate (nat (w - int (length (digits b n)))) p @ map digit_char (digits b n))"
proof (induction b n arbitrary: w rule: digits.induct)
  case (1 b n)
  show ?case
  proof (cases "n < b")
    case True
    then show ?thesis by (subst printnum.simps) (simp add: digits_small)
  next
    case False
    with 1 have "printnum (n div b) b (w - 1) p =
        Some (replicate (nat (w - 1 - int (length (digits b (n div b))))) p @ map digit_char (digits b (n div b)))"
      by simp
    with False 1 show ?thesis
      by (subst printnum.simps) (simp add: digits_step diff_diff_add)
  qed
qed

section \<open>The buffer\<close>

lemma sprint_fold:
  assumes "buf b \<le> ebuf b"
  shows "let b' = fold sprintputch out b; k = min (length out) (ebuf b - buf b) in
    cnt b' = cnt b + int (length out) \<and> buf b' = buf b + k \<and> ebuf b' = ebuf b \<and>
    store b' = (\<lambda>a. if buf b \<le> a \<and> a < buf b + k then of_int (out ! (a - buf b)) else store b a)"
  using assms
proof (induction out arbitrary: b)
  case Nil
  then show ?case by (auto simp: fun_eq_iff)
next
  case (Cons x out)
  let ?b = "sprintputch x b"
  have le: "buf ?b \<le> ebuf ?b" and e: "ebuf ?b = ebuf b" and c: "cnt ?b = cnt b + 1"
    using Cons.prems by (auto simp: sprintputch_def Let_def)
  show ?case
  proof (cases "buf b < ebuf b")
    case True
    then have "buf ?b = buf b + 1" "store ?b = (store b)(buf b := of_int x)"
      by (simp_all add: sprintputch_def Let_def)
    with Cons.IH [OF le] e c True show ?thesis
      by (auto simp: Let_def fun_eq_iff nth_Cons' Suc_diff_Suc)
  next
    case False
    with Cons.prems have "buf b = ebuf b" "buf ?b = buf b" "store ?b = store b"
      by (simp_all add: sprintputch_def Let_def)
    with Cons.IH [OF le] e c show ?thesis
      by (auto simp: Let_def fun_eq_iff)
  qed
qed

lemma vsnprintf_out:
  assumes o: "vprintfmt m fmt ap = Some out" and "str \<noteq> 0" "0 < sz"
  shows "\<exists>m'. vsnprintf str sz fmt ap m = Some (int (length out), m') \<and>
    (\<forall>i < min (length out) (sz - 1). m' (str + i) = of_int (out ! i)) \<and>
    m' (str + min (length out) (sz - 1)) = 0 \<and> (\<forall>a. a < str \<or> str + sz \<le> a \<longrightarrow> m' a = m a)"
proof -
  let ?b = "\<lparr>buf = str, ebuf = str + sz - 1, cnt = 0, store = m\<rparr>"
  have "buf ?b \<le> ebuf ?b" using assms(3) by simp
  from sprint_fold [OF this, of out] assms show ?thesis
    by (auto simp: vsnprintf_def Let_def)
qed

section \<open>Formats with one number\<close>

lemma vprintfmt_end: "m fmt = 0 \<Longrightarrow> vprintfmt m fmt ap = Some []"
  by (subst vprintfmt.simps) simp

lemma print_signed_digits:
  "- (2 ^ 63) \<le> num \<Longrightarrow> num < 2 ^ 63 \<Longrightarrow> print_signed num fl =
    (let ds = digits 10 (nat \<bar>num\<bar>)
     in Some ((if num < 0 then [45] else []) @
          replicate (nat (width fl - int (length ds))) (padc fl) @ map digit_char ds))"
  by (auto simp: print_signed_def printnum_digits Let_def)

lemma vprintfmt_ld:
  assumes "cstr m fmt (bytes ''%ld'')"
  shows "vprintfmt m fmt [w] =
    Some ((if sint w < 0 then [45] else []) @ map digit_char (digits 10 (nat \<bar>sint w\<bar>)))"
proof -
  have m: "m fmt = 37" "m (fmt + 1) = 108" "m (fmt + 2) = 100" "m (fmt + 3) = 0"
    using assms by (auto simp: bytes_def numeral_2_eq_2 numeral_3_eq_3)
  have r: "reswitch m (fmt + 1) no_flags [w] = Some (100, fmt + 3, no_flags\<lparr>lflag := 1\<rparr>, [w])"
    using m by (subst reswitch.simps, simp add: Let_def no_flags_def, subst reswitch.simps)
      (simp add: Let_def)
  have "- (2 ^ 63) \<le> sint w" "sint w < 2 ^ 63"
    using sint_ge [of w] sint_lt [of w] by simp_all
  then show ?thesis
    using m r vprintfmt_end [of m "fmt + 3"]
    by (subst vprintfmt.simps)
      (simp add: convert_def getint_def va_next_def print_signed_digits no_flags_def Let_def)
qed

lemma vprintfmt_left_d:
  assumes "cstr m fmt (bytes ''%-5d'')"
  shows "vprintfmt m fmt [w] =
    (let num = sint (ucast w :: 32 word); ds = digits 10 (nat \<bar>num\<bar>)
     in Some ((if num < 0 then [45] else []) @ replicate (5 - length ds) 45 @ map digit_char ds))"
proof -
  let ?f3 = "Suc (Suc (Suc fmt))"
  have m: "m fmt = 37" "m (Suc fmt) = 45" "m (Suc (Suc fmt)) = 53" "m ?f3 = 100" "m (Suc ?f3) = 0"
    using assms by (auto simp: bytes_def)
  have w: "read_width m ?f3 0 53 = Some (5, ?f3)"
    using m by (subst read_width.simps) (simp add: Let_def)
  let ?fl = "no_flags\<lparr>padc := 45, width := 5\<rparr>"
  have "reswitch m ?f3 ?fl [w] = Some (100, Suc ?f3, ?fl, [w])"
    using m by (subst reswitch.simps) (simp add: Let_def)
  then have "reswitch m (Suc (Suc fmt)) (no_flags\<lparr>padc := 45\<rparr>) [w] = Some (100, Suc ?f3, ?fl, [w])"
    using m w by (subst reswitch.simps) (simp add: Let_def process_precision_def no_flags_def)
  then have r: "reswitch m (Suc fmt) no_flags [w] = Some (100, Suc ?f3, ?fl, [w])"
    using m by (subst reswitch.simps) (simp add: Let_def)
  let ?n = "sint (ucast w :: 32 word)"
  have "- (2 ^ 63) \<le> ?n" "?n < 2 ^ 63"
    using sint_ge [of "ucast w :: 32 word"] sint_lt [of "ucast w :: 32 word"] by simp_all
  then show ?thesis
    using m r vprintfmt_end [of m "Suc ?f3"]
    by (subst vprintfmt.simps)
      (simp add: convert_def getint_def va_next_def print_signed_digits no_flags_def Let_def nat_diff_distrib)
qed

section \<open>Reading a printed number back\<close>

lemma digit_of_char: "d < 10 \<Longrightarrow> digit_of (of_int (digit_char d)) = Some (int d)"
proof -
  assume "d < 10"
  then have "d \<in> {0, 1, 2, 3, 4, 5, 6, 7, 8, 9}" by auto
  then show ?thesis by (auto simp: digit_of_def digit_char_def)
qed

lemma digit_byte:
  assumes "d < 10"
  shows "(of_int (digit_char d) :: byte) \<noteq> 0" "(of_int (digit_char d) :: byte) \<noteq> 32"
    "(of_int (digit_char d) :: byte) \<noteq> 9" "(of_int (digit_char d) :: byte) \<noteq> 43"
    "(of_int (digit_char d) :: byte) \<noteq> 45"
proof -
  have "d \<in> {0, 1, 2, 3, 4, 5, 6, 7, 8, 9}" using assms by auto
  then show "(of_int (digit_char d) :: byte) \<noteq> 0" "(of_int (digit_char d) :: byte) \<noteq> 32"
    "(of_int (digit_char d) :: byte) \<noteq> 9" "(of_int (digit_char d) :: byte) \<noteq> 43"
    "(of_int (digit_char d) :: byte) \<noteq> 45"
    by (auto simp: digit_char_def)
qed

definition digit_bytes :: "nat list \<Rightarrow> byte list" where
  "digit_bytes ds = map (\<lambda>d. of_int (digit_char d)) ds"

lemma strtol_digits_read:
  "cstr m s (digit_bytes ds) \<Longrightarrow> \<forall>d \<in> set ds. d < 10 \<Longrightarrow>
   strtol_digits m 10 s v = Some (foldl (\<lambda>v d. v * 10 + of_nat d) v ds, s + length ds)"
proof (induction ds arbitrary: s v)
  case Nil
  then show ?case by (subst strtol_digits.simps) (simp add: digit_bytes_def digit_of_def)
next
  case (Cons d ds)
  then have "strtol_digits m 10 (s + 1) (v * 10 + of_nat d) =
      Some (foldl (\<lambda>v d. v * 10 + of_nat d) (v * 10 + of_nat d) ds, s + 1 + length ds)"
    by (intro Cons.IH) (auto simp: digit_bytes_def)
  moreover have "digit_of (m s) = Some (int d)"
    using Cons.prems by (auto simp: digit_bytes_def digit_of_char)
  ultimately show ?case
    using Cons.prems by (subst strtol_digits.simps) simp
qed

lemma foldl_of_nat:
  "foldl (\<lambda>v d. v * 10 + of_nat d) (of_nat v) ds = (of_nat (foldl (\<lambda>v d. v * 10 + d) v ds) :: 64 word)"
proof (induction ds arbitrary: v)
  case Nil
  show ?case by simp
next
  case (Cons d ds)
  from Cons [of "v * 10 + d"] show ?case by simp
qed

lemma strtol_digits_number:
  assumes "cstr m s (digit_bytes (digits 10 n))"
  shows "strtol_digits m 10 s 0 = Some (of_nat n, s + length (digits 10 n))"
  using strtol_digits_read [OF assms, of 0] digits_less [of 10 _ n] foldl_of_nat [of 0 "digits 10 n"]
    digits_value [of 10 n] by auto

lemma skip_no_blank: "m s \<noteq> 32 \<Longrightarrow> m s \<noteq> 9 \<Longrightarrow> skip_blanks m s = Some s"
  by (subst skip_blanks.simps) simp

lemma digits_hd:
  assumes "cstr m s (digit_bytes (digits 10 n))"
  shows "m s \<noteq> 32 \<and> m s \<noteq> 9 \<and> m s \<noteq> 43 \<and> m s \<noteq> 45"
proof (cases "digits 10 n")
  case Nil
  then show ?thesis using digits_nonempty [of 10 n] by simp
next
  case (Cons d ds)
  then have "d < 10" using digits_less [of 10 d n] by simp
  with Cons assms show ?thesis by (simp add: digit_bytes_def digit_byte)
qed

lemma strtol_signed:
  assumes "cstr m s ((if neg then [45] else []) @ digit_bytes (digits 10 n))"
  shows "strtol m s 10 = Some (if neg then - of_nat n else of_nat n,
    s + length (digits 10 n) + (if neg then 1 else 0))"
proof (cases neg)
  case True
  then have d: "m s = 45" "cstr m (s + 1) (digit_bytes (digits 10 n))" using assms by auto
  with True show ?thesis
    using strtol_digits_number [OF d(2)] skip_no_blank [of m s] by (simp add: strtol_def)
next
  case False
  then have d: "cstr m s (digit_bytes (digits 10 n))" using assms by auto
  from digits_hd [OF d] False show ?thesis
    using strtol_digits_number [OF d] skip_no_blank [of m s] by (simp add: strtol_def)
qed

lemma digits_length: "n < 10 ^ k \<Longrightarrow> 0 < k \<Longrightarrow> length (digits 10 n) \<le> k"
proof (induction k arbitrary: n)
  case 0
  then show ?case by simp
next
  case (Suc k)
  show ?case
  proof (cases "n < 10")
    case True
    then show ?thesis by (simp add: digits_small)
  next
    case False
    with Suc.prems have "k \<noteq> 0" by (cases k) auto
    moreover have "n div 10 < 10 ^ k" using Suc.prems by (simp add: less_mult_imp_div_less)
    ultimately have "length (digits 10 (n div 10)) \<le> k" by (intro Suc.IH) auto
    with False show ?thesis by (simp add: digits_step)
  qed
qed

lemma cstr_map:
  "\<forall>i < length xs. m (s + i) = f (xs ! i) \<Longrightarrow> m (s + length xs) = 0 \<Longrightarrow>
   (\<And>x. x \<in> set xs \<Longrightarrow> f x \<noteq> 0) \<Longrightarrow> cstr m s (map f xs)"
  by (auto simp: cstr_nth)

lemma vsnprintf_ld:
  assumes f: "cstr m fmt (bytes ''%ld'')" and s: "str \<noteq> 0" "21 \<le> sz"
  shows "\<exists>k m'. vsnprintf str sz fmt [w] m = Some (int k, m') \<and>
    k = length (digits 10 (nat \<bar>sint w\<bar>)) + (if sint w < 0 then 1 else 0) \<and>
    cstr m' str ((if sint w < 0 then [45] else []) @ digit_bytes (digits 10 (nat \<bar>sint w\<bar>)))"
proof -
  let ?ds = "digits 10 (nat \<bar>sint w\<bar>)"
  let ?out = "(if sint w < 0 then [45] else []) @ map digit_char ?ds"
  have "nat \<bar>sint w\<bar> < 10 ^ 19"
    using sint_ge [of w] sint_lt [of w] by auto
  from digits_length [OF this] have len: "length ?out \<le> 20" by (auto split: if_splits)
  obtain m' where m': "vsnprintf str sz fmt [w] m = Some (int (length ?out), m')"
    "\<forall>i < min (length ?out) (sz - 1). m' (str + i) = of_int (?out ! i)"
    "m' (str + min (length ?out) (sz - 1)) = 0"
    using vsnprintf_out [OF vprintfmt_ld [OF f, of w], of str sz] s by auto
  have "min (length ?out) (sz - 1) = length ?out" using len s by simp
  note m'' = m'(2,3) [unfolded this]
  have nz: "(of_int (x :: int) :: byte) \<noteq> 0" if "x \<in> set ?out" for x
  proof (cases "x \<in> set (map digit_char ?ds)")
    case True
    then obtain d where "x = digit_char d" "d < 10" using digits_less [of 10 _ "nat \<bar>sint w\<bar>"] by auto
    then show ?thesis by (simp add: digit_byte)
  next
    case False
    with that have "x = 45" by (auto split: if_splits)
    then show ?thesis by simp
  qed
  have "cstr m' str (map of_int ?out)"
    using m'' nz by (intro cstr_map)
  then have "cstr m' str ((if sint w < 0 then [45] else []) @ digit_bytes ?ds)"
    by (simp add: digit_bytes_def comp_def split: if_splits)
  with m'(1) show ?thesis by auto
qed

section \<open>Properties\<close>


text \<open>The minus flag does not pad numbers on the right: in \<^verbatim>\<open>%-5d\<close> the pad
  character itself becomes the minus sign, printed on the left of the digits.\<close>
theorem minus_flag_pads_left:
  assumes "cstr m fmt (bytes ''%-5d'')"
  shows "vprintfmt m fmt [w] =
    (let num = sint (ucast w :: 32 word); ds = digits 10 (nat \<bar>num\<bar>)
     in Some ((if num < 0 then [45] else []) @ replicate (5 - length ds) 45 @ map digit_char ds))"
  by (rule vprintfmt_left_d [OF assms])

lemma left_d_at: "cstr (rodata (bytes ''%-5d'')) 0 (bytes ''%-5d'')"
  by (simp add: bytes_def rodata_def)

lemma digits_42: "digits 10 42 = [4, 2]"
  by (simp add: digits_step digits_small)

theorem minus_flag_pads_left_witness:
  "vprintfmt (rodata (bytes ''%-5d'')) 0 [42] = Some [45, 45, 45, 52, 50]"
  using minus_flag_pads_left [OF left_d_at, of 42]
  by (simp add: digits_42 digit_char_def numeral_3_eq_3)


end
