(* ===== verification/HashRand.thy ===== *)
theory HashRand
  imports Prelude
begin

text \<open>
  libs/hash.c and libs/rand.c: the multiplicative hash that indexes the process table and
  the 48-bit linear congruential generator. \<^verbatim>\<open>next\<close> is an argument and a result, as
  it is a static variable of the file. A hash of 0 bits shifts by the width, which C leaves
  undefined; the callers use 10 bits.
\<close>

unbundle bit_operations_syntax

definition GOLDEN_RATIO_PRIME_32 :: "64 word" where
  "GOLDEN_RATIO_PRIME_32 = 0x9e370001"

definition hash32 :: "32 word \<Rightarrow> nat \<Rightarrow> 32 word" where
  "hash32 val bits =
     (let h = ucast (ucast val * GOLDEN_RATIO_PRIME_32) :: 32 word in drop_bit (32 - bits) h)"

definition RAND_MAX :: nat where
  "RAND_MAX = 2147483647"

definition rand :: "64 word \<Rightarrow> int \<times> 64 word" where
  "rand next =
     (let next = (next * 0x5DEECE66D + 0xB) AND (push_bit 48 1 - 1);
          result = drop_bit 12 next
      in (int (unat result mod (RAND_MAX + 1)), next))"

definition srand :: "32 word \<Rightarrow> 64 word" where
  "srand seed = ucast seed"

lemma unat_drop: "unat (drop_bit k w) = unat w div 2 ^ k"
  by (simp only: unat_drop_bit_eq drop_bit_eq_div [where 'a = nat])

lemma drop_bit_less: "unat (drop_bit k w) < 2 ^ (LENGTH('a) - k)" if "k \<le> LENGTH('a)" for w :: "'a::len word"
proof -
  have "unat w < 2 ^ (LENGTH('a) - k) * 2 ^ k"
    using unsigned_less [of w] that by (simp flip: power_add)
  then show ?thesis
    by (simp only: unat_drop less_mult_imp_div_less)
qed

text \<open>The function \<^verbatim>\<open>hash32\<close> keeps the top \<^verbatim>\<open>bits\<close> bits of the 32-bit product: the value
  is in the range of its comment and is the product modulo 2 to the 32 divided by 2 to the
  32 minus \<^verbatim>\<open>bits\<close>.\<close>
theorem hash32_range:
  assumes "bits \<le> 32"
  shows "unat (hash32 val bits) < 2 ^ bits \<and>
    unat (hash32 val bits) = (unat val * 0x9e370001) mod 2 ^ 32 div 2 ^ (32 - bits)"
proof -
  have u: "ucast (ucast val * GOLDEN_RATIO_PRIME_32) = (val * 0x9e370001 :: 32 word)"
    unfolding GOLDEN_RATIO_PRIME_32_def by transfer (simp add: take_bit_eq_mod mod_mult_left_eq)
  show ?thesis
    using drop_bit_less [of "32 - bits" "val * 0x9e370001"] assms
    by (simp add: hash32_def u unat_drop unat_word_ariths)
qed

theorem hash32_range_witness:
  "unat (hash32 7 10) < 2 ^ 10 \<and> unat (hash32 7 10) = (unat (7 :: 32 word) * 0x9e370001) mod 2 ^ 32 div 2 ^ (32 - 10)"
  by (rule hash32_range) simp

text \<open>The generator over naturals, and its range.\<close>

lemma rand_step:
  "fst (rand s) = int (unat (snd (rand s)) div 2 ^ 12 mod 2 ^ 31) \<and>
   unat (snd (rand s)) = (unat s * 0x5DEECE66D + 0xB) mod 2 ^ 48"
proof -
  have m: "mask 48 = (281474976710655 :: 64 word)"
    by (simp add: mask_eq_exp_minus_1)
  have "unat ((s * 0x5DEECE66D + 0xB) AND mask 48) = unat (s * 0x5DEECE66D + 0xB) mod 2 ^ 48"
    by (simp only: unsigned_take_bit_eq take_bit_eq_mod [where 'a = nat] flip: take_bit_eq_mask)
  also have "\<dots> = (unat s * 0x5DEECE66D + 0xB) mod 2 ^ 64 mod 2 ^ 48"
    by (simp add: unat_word_ariths mod_simps)
  finally have "unat ((s * 0x5DEECE66D + 0xB) AND 281474976710655) = (unat s * 0x5DEECE66D + 0xB) mod 2 ^ 48"
    unfolding m by (simp add: mod_mod_cancel)
  then show ?thesis
    by (simp add: rand_def Let_def unat_drop RAND_MAX_def mod_mod_cancel)
qed

end
