(* ===== verification/Bitmap.thy ===== *)
theory Bitmap
  imports Prelude
begin

text \<open>
  kern/fs/sfs/bitmap.c: the free map of the simple file system, an array of 32-bit words in
  which a one is a free block. Allocation takes the lowest one bit. The two
  \<^verbatim>\<open>kmalloc\<close> results of \<^verbatim>\<open>bitmap_create\<close> are parameters (whether each succeeds).
  The components that allocate blocks use the interface \<^verbatim>\<open>index_allocator\<close>, which the
  bitmap implements.
\<close>

unbundle bit_operations_syntax

section \<open>Data and operations\<close>

record bitmap =
  nbits :: nat
  nwords :: nat
  bmap :: "32 word list"

abbreviation WORD_BITS :: nat where "WORD_BITS \<equiv> 32"

function mark_overbits :: "nat \<Rightarrow> nat \<Rightarrow> 32 word list \<Rightarrow> 32 word list" where
  "mark_overbits ix overbits m =
     (if overbits < WORD_BITS
      then mark_overbits ix (overbits + 1) (m[ix := (m ! ix) XOR push_bit overbits 1]) else m)"
  by pat_completeness auto
termination by (relation "measure (\<lambda>(ix, ov, m). WORD_BITS - ov)") auto

declare mark_overbits.simps [simp del]

definition bitmap_create :: "bool \<Rightarrow> bool \<Rightarrow> nat \<Rightarrow> bitmap option option" where
  "bitmap_create got_bitmap got_map n =
     do { kassert (n \<noteq> 0 \<and> w64 (n + WORD_BITS) > n);
          if \<not> got_bitmap then Some None
          else (let nw = w32 (ROUNDUP_DIV n WORD_BITS)
                in if \<not> got_map then Some None
                   else (let b = \<lparr>nbits = n, nwords = nw, bmap = replicate nw (- 1)\<rparr>
                         in if n \<noteq> nw * WORD_BITS
                            then (let ix = nw - 1; overbits = n - ix * WORD_BITS
                                  in do { kassert (n div WORD_BITS = ix);
                                          kassert (overbits > 0 \<and> overbits < WORD_BITS);
                                          Some (Some (b\<lparr>bmap := mark_overbits ix overbits (bmap b)\<rparr>)) })
                            else Some (Some b))) }"

function find_offset :: "32 word \<Rightarrow> nat \<Rightarrow> nat option" where
  "find_offset w off =
     (if off < WORD_BITS
      then (if w AND push_bit off 1 \<noteq> 0 then Some off else find_offset w (off + 1)) else None)"
  by pat_completeness auto
termination by (relation "measure (\<lambda>(w, off). WORD_BITS - off)") auto

declare find_offset.simps [simp del]

text \<open>
  \<^verbatim>\<open>alloc_from ix\<close> is the outer loop from \<^verbatim>\<open>ix\<close> on. The result is the return
  code, the stored index and the bitmap; \<^verbatim>\<open>assert(0)\<close> is the failure of
  \<^verbatim>\<open>find_offset\<close>.
\<close>

function alloc_from :: "nat \<Rightarrow> bitmap \<Rightarrow> (int \<times> nat option \<times> bitmap) option" where
  "alloc_from ix b =
     (if ix < nwords b then
        (if bmap b ! ix \<noteq> 0 then
           do { off \<leftarrow> find_offset (bmap b ! ix) 0;
                Some (0, Some (w32 (ix * WORD_BITS + off)),
                  b\<lparr>bmap := (bmap b)[ix := (bmap b ! ix) XOR push_bit off 1]\<rparr>) }
         else alloc_from (ix + 1) b)
      else Some (- E_NO_MEM, None, b))"
  by pat_completeness auto
termination by (relation "measure (\<lambda>(ix, b). nwords b - ix)") auto

declare alloc_from.simps [simp del]

definition bitmap_alloc :: "bitmap \<Rightarrow> (int \<times> nat option \<times> bitmap) option" where
  "bitmap_alloc b = alloc_from 0 b"

definition bitmap_translate :: "bitmap \<Rightarrow> nat \<Rightarrow> (nat \<times> 32 word) option" where
  "bitmap_translate b index =
     do { kassert (index < nbits b);
          Some (index div WORD_BITS, push_bit (index mod WORD_BITS) 1) }"

definition bitmap_test :: "bitmap \<Rightarrow> nat \<Rightarrow> bool option" where
  "bitmap_test b index =
     do { (ix, m) \<leftarrow> bitmap_translate b index; Some ((bmap b ! ix) AND m \<noteq> 0) }"

definition bitmap_free :: "bitmap \<Rightarrow> nat \<Rightarrow> bitmap option" where
  "bitmap_free b index =
     do { (ix, m) \<leftarrow> bitmap_translate b index;
          kassert ((bmap b ! ix) AND m = 0);
          Some (b\<lparr>bmap := (bmap b)[ix := (bmap b ! ix) OR m]\<rparr>) }"

definition bitmap_getdata :: "bitmap \<Rightarrow> nat \<times> 32 word list" where
  "bitmap_getdata b = (4 * nwords b, bmap b)"

section \<open>The set of free indices\<close>

definition free_at :: "32 word list \<Rightarrow> nat \<Rightarrow> bool" where
  "free_at m i \<longleftrightarrow> i < 32 * length m \<and> bit (m ! (i div 32)) (i mod 32)"

definition free_ix :: "bitmap \<Rightarrow> nat set" where
  "free_ix b = {i. free_at (bmap b) i}"

definition bitmap_inv :: "bitmap \<Rightarrow> bool" where
  "bitmap_inv b \<longleftrightarrow> length (bmap b) = nwords b \<and> free_ix b \<subseteq> {..<nbits b} \<and>
     nbits b \<le> 32 * nwords b \<and> nbits b < 2 ^ 32 \<and> 32 * nwords b < nbits b + 32"

lemmas and_bit [simp] = and_exp_eq_0_iff_not_bit [where 'a = "32 word"]

lemma div_mod_split: "(i :: nat) div 32 = ix \<Longrightarrow> i mod 32 = off \<Longrightarrow> i = ix * 32 + off"
  by (metis div_mult_mod_eq)

lemma free_at_update:
  assumes "ix < length m" "off < 32" "\<And>k. k < 32 \<Longrightarrow> bit w k = (if k = off then v else bit (m ! ix) k)"
  shows "free_at (m[ix := w]) i = (if i = ix * 32 + off then v else free_at m i)"
proof (cases "i div 32 = ix")
  case True
  have "i mod 32 < 32" by simp
  moreover have "i mod 32 = off \<longleftrightarrow> i = ix * 32 + off"
    using True div_mod_split [of i ix] by (metis add.commute mod_mult_self2 mod_less assms(2) mult.commute)
  moreover have "i < 32 * length m" using True assms(1) by (simp add: div_less_iff_less_mult mult.commute)
  ultimately show ?thesis using True assms by (simp add: free_at_def)
next
  case False
  then have "i \<noteq> ix * 32 + off" using assms(2) by auto
  with False show ?thesis by (simp add: free_at_def)
qed

lemma find_offset_first:
  assumes "bit w k" "off \<le> k" "k < 32"
  shows "\<exists>j. find_offset w off = Some j \<and> off \<le> j \<and> j < 32 \<and> bit w j \<and> (\<forall>i. off \<le> i \<and> i < j \<longrightarrow> \<not> bit w i)"
  using assms
proof (induction w off rule: find_offset.induct)
  case (1 w off)
  show ?case
  proof (cases "bit w off")
    case True
    with 1 show ?thesis by (subst find_offset.simps) auto
  next
    case False
    with 1 have "off < k" by (cases "off = k") auto
    with 1 False obtain j where "find_offset w (off + 1) = Some j" "off + 1 \<le> j" "j < 32" "bit w j"
      "\<forall>i. off + 1 \<le> i \<and> i < j \<longrightarrow> \<not> bit w i"
      by auto
    moreover have "\<not> bit w i" if "off \<le> i" "i < j" for i
      using that False \<open>\<forall>i. off + 1 \<le> i \<and> i < j \<longrightarrow> \<not> bit w i\<close> by (cases "i = off") auto
    ultimately show ?thesis
      using False 1 by (subst find_offset.simps) auto
  qed
qed

text \<open>The loop finds the least free index that is at least \<^verbatim>\<open>32 * ix\<close>.\<close>

lemma alloc_from_spec:
  assumes "bitmap_inv b" "\<forall>i \<in> free_ix b. 32 * ix \<le> i"
  shows "if free_ix b = {} then alloc_from ix b = Some (- E_NO_MEM, None, b)
    else \<exists>b'. alloc_from ix b = Some (0, Some (Min (free_ix b)), b') \<and> bitmap_inv b' \<and>
      nbits b' = nbits b \<and> free_ix b' = free_ix b - {Min (free_ix b)}"
  using assms
proof (induction ix b rule: alloc_from.induct)
  case (1 ix b)
  have len: "length (bmap b) = nwords b" and bound: "free_ix b \<subseteq> {..<nbits b}"
    using "1.prems" by (auto simp: bitmap_inv_def)
  then have fin: "finite (free_ix b)" using finite_subset by blast
  show ?case
  proof (cases "ix < nwords b")
    case False
    then have "free_ix b = {}"
      using "1.prems"(2) len by (force simp: free_ix_def free_at_def)
    with False show ?thesis by (simp add: alloc_from.simps)
  next
    case ix: True
    show ?thesis
    proof (cases "bmap b ! ix = 0")
      case True
      have "\<forall>i \<in> free_ix b. 32 * (ix + 1) \<le> i"
      proof
        fix i assume i: "i \<in> free_ix b"
        show "32 * (ix + 1) \<le> i"
        proof (rule ccontr)
          assume "\<not> 32 * (ix + 1) \<le> i"
          with i "1.prems"(2) have "i div 32 = ix" by auto
          with i True show False by (simp add: free_ix_def free_at_def)
        qed
      qed
      from "1.IH" [OF ix _ "1.prems"(1) this] True
      show ?thesis unfolding alloc_from.simps [of ix b] by (simp only: ix True if_True if_False not_not refl simp_thms)
    next
      case False
      then obtain k where kb: "bit (bmap b ! ix) k" by (auto simp: bit_eq_iff)
      with bit_imp_le_length [OF kb] have k: "bit (bmap b ! ix) k" "k < 32" by simp_all
      from find_offset_first [OF k(1) le0 k(2)] obtain j where j: "find_offset (bmap b ! ix) 0 = Some j" "j < 32" "bit (bmap b ! ix) j"
        "\<forall>i < j. \<not> bit (bmap b ! ix) i"
        by (elim exE conjE) (rule that, simp_all)
      let ?m = "ix * 32 + j"
      have mem: "?m \<in> free_ix b" using j ix len by (simp add: free_ix_def free_at_def)
      have "?m \<le> i" if i: "i \<in> free_ix b" for i
      proof (rule ccontr)
        assume "\<not> ?m \<le> i"
        moreover have "32 * ix \<le> i" using i "1.prems"(2) by blast
        then obtain r where r: "i = 32 * ix + r" by (auto simp: le_iff_add)
        ultimately have "r < j" by simp
        with r j(2) have "i div 32 = ix" "i mod 32 < j" by simp_all
        with i j(4) show False by (simp add: free_ix_def free_at_def)
      qed
      then have min: "Min (free_ix b) = ?m" using mem fin by (intro Min_eqI) auto
      let ?b = "b\<lparr>bmap := (bmap b)[ix := (bmap b ! ix) XOR push_bit j 1]\<rparr>"
      have "free_at (bmap ?b) i = (if i = ?m then False else free_at (bmap b) i)" for i
        using free_at_update [of ix "bmap b" j "(bmap b ! ix) XOR push_bit j 1" False i] ix len j
        by (auto simp: bit_simps)
      then have f: "free_ix ?b = free_ix b - {?m}" by (auto simp: free_ix_def)
      have "w32 ?m = ?m" using mem bound "1.prems"(1) by (auto simp: bitmap_inv_def)
      then have "alloc_from ix b = Some (0, Some ?m, ?b)"
        using ix False j by (simp add: alloc_from.simps)
      moreover have "bitmap_inv ?b" using "1.prems"(1) f by (auto simp: bitmap_inv_def)
      ultimately show ?thesis using mem min f by auto
    qed
  qed
qed

lemma mark_overbits_length [simp]: "length (mark_overbits ix ov m) = length m"
  by (induction ix ov m rule: mark_overbits.induct) (subst mark_overbits.simps, auto)

lemma free_at_mark:
  "ix < length m \<Longrightarrow> ov \<le> 32 \<Longrightarrow> free_at (mark_overbits ix ov m) i =
    (if ix * 32 + ov \<le> i \<and> i < ix * 32 + 32 then \<not> free_at m i else free_at m i)"
proof (induction ix ov m rule: mark_overbits.induct)
  case (1 ix ov m)
  show ?case
  proof (cases "ov < 32")
    case False
    with 1 show ?thesis by (subst mark_overbits.simps) auto
  next
    case True
    let ?m = "m[ix := (m ! ix) XOR push_bit ov 1]"
    have ne: "free_at m (ix * 32 + ov) = bit (m ! ix) ov"
      using True 1 by (simp add: free_at_def)
    have "free_at ?m i = (if i = ix * 32 + ov then \<not> bit (m ! ix) ov else free_at m i)" for i
      using True 1 by (intro free_at_update) (auto simp: bit_simps)
    with 1 True ne show ?thesis
      by (subst mark_overbits.simps) auto
  qed
qed

lemma bitmap_create_inv:
  assumes "0 < n" "n < 2 ^ 32"
  shows "\<exists>b. bitmap_create True True n = Some (Some b) \<and> bitmap_inv b \<and> nbits b = n \<and> free_ix b = {..<n}"
proof -
  obtain nw where nw_def: "nw = (n + 31) div 32" by simp
  have nw: "n \<le> 32 * nw" "32 * nw < n + 32" unfolding nw_def by linarith+
  have r: "w32 (ROUNDUP_DIV n 32) = nw" and w: "w64 (n + 32) = n + 32"
    using assms by (simp_all add: ROUNDUP_DIV_def nw_def)
  have ones: "free_at (replicate nw (- 1)) i \<longleftrightarrow> i < 32 * nw" for i
    by (auto simp: free_at_def)
  show ?thesis
  proof (cases "n = nw * 32")
    case True
    then have "32 * nw = n" by simp
    then have "free_ix \<lparr>nbits = n, nwords = nw, bmap = replicate nw (- 1)\<rparr> = {..<n}"
      by (intro set_eqI) (simp add: free_ix_def ones del: mult_numeral_1)
    with True assms r w nw show ?thesis
      by (simp add: bitmap_create_def Let_def bitmap_inv_def)
  next
    case False
    let ?m = "mark_overbits (nw - 1) (n - (nw - 1) * 32) (replicate nw (- 1))"
    have ix: "n div 32 = nw - 1" "0 < n - (nw - 1) * 32" "n - (nw - 1) * 32 < 32" "nw - 1 < nw"
      using False assms nw by linarith+
    have "(nw - 1) * 32 + (n - (nw - 1) * 32) = n" "(nw - 1) * 32 + 32 = 32 * nw"
      using ix by linarith+
    then have "free_at ?m i \<longleftrightarrow> i < n" for i
      using free_at_mark [of "nw - 1" "replicate nw (- 1)" "n - (nw - 1) * 32" i] ix ones [of i]
      by auto
    then have "free_ix \<lparr>nbits = n, nwords = nw, bmap = ?m\<rparr> = {..<n}"
      by (auto simp: free_ix_def)
    then show ?thesis
      using False assms r w ix nw by (simp add: bitmap_create_def Let_def bitmap_inv_def)
  qed
qed

lemma bitmap_index: "bitmap_inv b \<Longrightarrow> i < nbits b \<Longrightarrow> i div 32 < length (bmap b) \<and> i < 32 * length (bmap b)"
  by (auto simp: bitmap_inv_def)

lemma bitmap_test_eq: "bitmap_inv b \<Longrightarrow> i < nbits b \<Longrightarrow> bitmap_test b i = Some (i \<in> free_ix b)"
  using bitmap_index [of b i]
  by (auto simp: bitmap_test_def bitmap_translate_def free_ix_def free_at_def)

lemma bitmap_free_eq:
  assumes "bitmap_inv b" "i < nbits b" "i \<notin> free_ix b"
  shows "\<exists>b'. bitmap_free b i = Some b' \<and> bitmap_inv b' \<and> nbits b' = nbits b \<and>
    free_ix b' = insert i (free_ix b)"
proof -
  have i: "i div 32 < length (bmap b)" "i < 32 * length (bmap b)"
    using bitmap_index [OF assms(1,2)] by auto
  let ?b = "b\<lparr>bmap := (bmap b)[i div 32 := (bmap b ! (i div 32)) OR push_bit (i mod 32) 1]\<rparr>"
  have "free_at (bmap ?b) j = (if j = (i div 32) * 32 + i mod 32 then True else free_at (bmap b) j)" for j
    using free_at_update [of "i div 32" "bmap b" "i mod 32"
        "(bmap b ! (i div 32)) OR push_bit (i mod 32) 1" True j] i(1)
    by (auto simp: bit_simps)
  then have f: "free_ix ?b = insert i (free_ix b)" by (auto simp: free_ix_def)
  moreover have "bitmap_free b i = Some ?b"
    using assms i by (auto simp: bitmap_free_def bitmap_translate_def free_ix_def free_at_def)
  moreover have "bitmap_inv ?b" using assms f by (auto simp: bitmap_inv_def)
  ultimately show ?thesis by auto
qed

lemma bitmap_free_twice: "bitmap_inv b \<Longrightarrow> i < nbits b \<Longrightarrow> i \<in> free_ix b \<Longrightarrow> bitmap_free b i = None"
  by (auto simp: bitmap_free_def bitmap_translate_def free_ix_def free_at_def)

section \<open>The interface of an index allocator\<close>

locale index_allocator =
  fixes inv :: "'b \<Rightarrow> bool"
    and lim :: "'b \<Rightarrow> nat"
    and avail :: "'b \<Rightarrow> nat set"
    and alloc :: "'b \<Rightarrow> (int \<times> nat option \<times> 'b) option"
    and release :: "'b \<Rightarrow> nat \<Rightarrow> 'b option"
  assumes avail_lim: "inv b \<Longrightarrow> avail b \<subseteq> {..<lim b}"
    and alloc_none: "inv b \<Longrightarrow> avail b = {} \<Longrightarrow> alloc b = Some (- E_NO_MEM, None, b)"
    and alloc_some: "inv b \<Longrightarrow> avail b \<noteq> {} \<Longrightarrow> \<exists>i b'. alloc b = Some (0, Some i, b') \<and>
      i \<in> avail b \<and> inv b' \<and> avail b' = avail b - {i} \<and> lim b' = lim b"
    and release_ok: "inv b \<Longrightarrow> i < lim b \<Longrightarrow> i \<notin> avail b \<Longrightarrow> \<exists>b'. release b i = Some b' \<and>
      inv b' \<and> avail b' = insert i (avail b) \<and> lim b' = lim b"
begin

primrec alloc_many :: "nat \<Rightarrow> 'b \<Rightarrow> (nat list \<times> 'b) option" where
  "alloc_many 0 b = Some ([], b)"
| "alloc_many (Suc k) b =
     do { (ret, i, b) \<leftarrow> alloc b;
          (is, b) \<leftarrow> alloc_many k b;
          Some (case i of None \<Rightarrow> is | Some i \<Rightarrow> i # is, b) }"

primrec release_many :: "'b \<Rightarrow> nat list \<Rightarrow> 'b option" where
  "release_many b [] = Some b"
| "release_many b (i # is) = do { b \<leftarrow> release b i; release_many b is }"

lemma alloc_many_distinct:
  "inv b \<Longrightarrow> k \<le> card (avail b) \<Longrightarrow> \<exists>is b'. alloc_many k b = Some (is, b') \<and> inv b' \<and>
     length is = k \<and> distinct is \<and> set is \<subseteq> avail b \<and> avail b' = avail b - set is \<and> lim b' = lim b"
proof (induction k arbitrary: b)
  case 0
  then show ?case by auto
next
  case (Suc k)
  have fin: "finite (avail b)" using avail_lim [OF Suc.prems(1)] finite_subset by blast
  have "avail b \<noteq> {}" using Suc.prems by auto
  from alloc_some [OF Suc.prems(1) this] obtain i b1 where a: "alloc b = Some (0, Some i, b1)"
    "i \<in> avail b" "inv b1" "avail b1 = avail b - {i}" "lim b1 = lim b" by blast
  have "k \<le> card (avail b1)" using Suc.prems a fin by simp
  from Suc.IH [OF a(3) this] obtain "is" b' where "alloc_many k b1 = Some (is, b')" "inv b'"
    "length is = k" "distinct is" "set is \<subseteq> avail b1" "avail b' = avail b1 - set is" "lim b' = lim b1"
    by blast
  with a show ?case by auto
qed

lemma release_many_ok:
  "inv b \<Longrightarrow> distinct is \<Longrightarrow> set is \<subseteq> {..<lim b} - avail b \<Longrightarrow>
   \<exists>b'. release_many b is = Some b' \<and> inv b' \<and> avail b' = avail b \<union> set is \<and> lim b' = lim b"
proof (induction "is" arbitrary: b)
  case Nil
  then show ?case by simp
next
  case (Cons i "is")
  then obtain b1 where r: "release b i = Some b1" "inv b1" "avail b1 = insert i (avail b)" "lim b1 = lim b"
    using release_ok [of b i] by auto
  have "\<exists>b'. release_many b1 is = Some b' \<and> inv b' \<and> avail b' = avail b1 \<union> set is \<and> lim b' = lim b1"
    by (rule Cons.IH) (use Cons.prems r in auto)
  with r show ?case by auto
qed

lemma alloc_release_many:
  assumes "inv b" "k \<le> card (avail b)"
  shows "\<exists>is b1. alloc_many k b = Some (is, b1) \<and> length is = k \<and> distinct is \<and> set is \<subseteq> avail b \<and>
    avail b1 = avail b - set is \<and>
    (\<forall>js. distinct js \<and> set js = set is \<longrightarrow> (\<exists>b2. release_many b1 js = Some b2 \<and> inv b2 \<and> avail b2 = avail b))"
proof -
  obtain "is" b1 where a: "alloc_many k b = Some (is, b1)" "inv b1" "length is = k" "distinct is"
    "set is \<subseteq> avail b" "avail b1 = avail b - set is" "lim b1 = lim b"
    using alloc_many_distinct [OF assms] by blast
  have "\<exists>b2. release_many b1 js = Some b2 \<and> inv b2 \<and> avail b2 = avail b"
    if "distinct js" "set js = set is" for js
  proof -
    have "set js \<subseteq> {..<lim b1} - avail b1" using that a avail_lim [OF assms(1)] by auto
    from release_many_ok [OF a(2) that(1) this] show ?thesis using that a by auto
  qed
  with a show ?thesis by blast
qed

end

interpretation bm: index_allocator bitmap_inv nbits free_ix bitmap_alloc bitmap_free
proof
  fix b i
  show "free_ix b \<subseteq> {..<nbits b}" if "bitmap_inv b"
    using that by (simp add: bitmap_inv_def)
  show "bitmap_alloc b = Some (- E_NO_MEM, None, b)" if "bitmap_inv b" "free_ix b = {}"
    using alloc_from_spec [of b 0] that by (simp add: bitmap_alloc_def)
  show "\<exists>i b'. bitmap_alloc b = Some (0, Some i, b') \<and> i \<in> free_ix b \<and> bitmap_inv b' \<and>
      free_ix b' = free_ix b - {i} \<and> nbits b' = nbits b" if "bitmap_inv b" "free_ix b \<noteq> {}"
  proof -
    have "finite (free_ix b)"
      using that(1) finite_subset [of "free_ix b" "{..<nbits b}"] by (auto simp: bitmap_inv_def)
    from Min_in [OF this that(2)] show ?thesis
      using alloc_from_spec [of b 0] that by (auto simp: bitmap_alloc_def)
  qed
  show "\<exists>b'. bitmap_free b i = Some b' \<and> bitmap_inv b' \<and> free_ix b' = insert i (free_ix b) \<and>
      nbits b' = nbits b" if "bitmap_inv b" "i < nbits b" "i \<notin> free_ix b"
    using bitmap_free_eq [OF that] by auto
qed

section \<open>Properties\<close>

text \<open>A bitmap of \<^verbatim>\<open>n\<close> bits is created with exactly the indices below
  \<^verbatim>\<open>n\<close> free, whatever \<^verbatim>\<open>n\<close> is modulo the word size.\<close>
theorem bitmap_create_all_free:
  assumes "0 < n" "n < 2 ^ 32"
  shows "\<exists>b. bitmap_create True True n = Some (Some b) \<and> bitmap_inv b \<and> nbits b = n \<and>
    (\<forall>i < n. bitmap_test b i = Some True) \<and> free_ix b = {..<n}"
  using bitmap_create_inv [OF assms] by (force simp: bitmap_test_eq)

theorem bitmap_create_all_free_witness:
  "\<exists>b. bitmap_create True True 70 = Some (Some b) \<and> bitmap_inv b \<and> nbits b = 70 \<and>
    (\<forall>i < 70. bitmap_test b i = Some True) \<and> free_ix b = {..<70}"
  by (rule bitmap_create_all_free) simp_all

text \<open>C12: allocating from a bitmap gives distinct indices that were free and are no longer,
  and freeing them, in any order, gives back the set of free indices from before.\<close>
theorem bitmap_alloc_free_restores:
  assumes "bitmap_inv b" "k \<le> card (free_ix b)"
  shows "\<exists>is b1. bm.alloc_many k b = Some (is, b1) \<and> length is = k \<and> distinct is \<and>
    set is \<subseteq> free_ix b \<and> free_ix b1 = free_ix b - set is \<and>
    (\<forall>js. distinct js \<and> set js = set is \<longrightarrow>
      (\<exists>b2. bm.release_many b1 js = Some b2 \<and> bitmap_inv b2 \<and> free_ix b2 = free_ix b))"
  by (rule bm.alloc_release_many [OF assms])

lemma two_words: "bitmap_inv \<lparr>nbits = 33, nwords = 2, bmap = [4, 1]\<rparr>"
  "free_ix \<lparr>nbits = 33, nwords = 2, bmap = [4, 1]\<rparr> = {2, 32}"
proof -
  have f: "free_ix \<lparr>nbits = 33, nwords = 2, bmap = [4, 1]\<rparr> = {2, 32}"
  proof (rule set_eqI)
    fix i :: nat
    have b4: "bit (4 :: int) k \<longleftrightarrow> k = 2" for k
    proof -
      have "(4 :: int) = 2 ^ 2" by simp
      then show ?thesis by (simp only: bit_exp_iff) auto
    qed
    consider "i < 32" | "32 \<le> i" "i < 64" | "64 \<le> i" by linarith
    then show "i \<in> free_ix \<lparr>nbits = 33, nwords = 2, bmap = [4, 1]\<rparr> \<longleftrightarrow> i \<in> {2, 32}"
    proof cases
      case 1
      then show ?thesis by (auto simp: free_ix_def free_at_def b4)
    next
      case 2
      then have "i div 32 = 1" "i mod 32 = i - 32" by (auto simp: le_mod_geq)
      with 2 show ?thesis by (auto simp: free_ix_def free_at_def bit_1_iff)
    next
      case 3
      then show ?thesis by (auto simp: free_ix_def free_at_def)
    qed
  qed
  then show "free_ix \<lparr>nbits = 33, nwords = 2, bmap = [4, 1]\<rparr> = {2, 32}"
    "bitmap_inv \<lparr>nbits = 33, nwords = 2, bmap = [4, 1]\<rparr>"
    by (simp_all add: bitmap_inv_def)
qed

theorem bitmap_alloc_free_restores_witness:
  "\<exists>is b1. bm.alloc_many 2 \<lparr>nbits = 33, nwords = 2, bmap = [4, 1]\<rparr> = Some (is, b1) \<and>
    distinct is \<and> set is = {2, 32} \<and> free_ix b1 = {}"
proof -
  have "2 \<le> card {2 :: nat, 32}" by simp
  with bitmap_alloc_free_restores [OF two_words(1), of 2, unfolded two_words(2)] obtain "is" b1
    where "bm.alloc_many 2 \<lparr>nbits = 33, nwords = 2, bmap = [4, 1]\<rparr> = Some (is, b1)"
      "length is = 2" "distinct is" "set is \<subseteq> {2, 32}" "free_ix b1 = {2, 32} - set is" by blast
  moreover from this have "set is = {2, 32}"
    by (intro card_subset_eq) (auto simp: distinct_card)
  ultimately show ?thesis by auto
qed

end
