(* ===== verification/Iobuf.thy ===== *)
theory Iobuf
  imports Str
begin

text \<open>
  kern/fs/iobuf.c: the record of one transfer between a buffer and a file or device. The
  byte moves are those of libs/string.c on the same memory. \<^verbatim>\<open>iobuf_inv\<close> relates the
  position, the offset and the rest to what has been transferred since
  \<^verbatim>\<open>iobuf_init\<close>.
\<close>

record iobuf =
  io_base :: nat
  io_offset :: int
  io_len :: nat
  io_resid :: nat

definition iobuf_used :: "iobuf \<Rightarrow> nat" where
  "iobuf_used iob = io_len iob - io_resid iob"

definition iobuf_init :: "nat \<Rightarrow> nat \<Rightarrow> int \<Rightarrow> iobuf" where
  "iobuf_init base len offset =
     \<lparr>io_base = base, io_offset = offset, io_len = len, io_resid = len\<rparr>"

definition iobuf_skip :: "iobuf \<Rightarrow> nat \<Rightarrow> iobuf option" where
  "iobuf_skip iob n =
     do { kassert (io_resid iob \<ge> n);
          Some (iob\<lparr>io_base := io_base iob + n, io_offset := io_offset iob + int n,
                    io_resid := io_resid iob - n\<rparr>) }"

text \<open>The results are the return code, the value for \<^verbatim>\<open>*copiedp\<close>, the record and the memory.\<close>

definition iobuf_move :: "iobuf \<Rightarrow> nat \<Rightarrow> nat \<Rightarrow> bool \<Rightarrow> mem \<Rightarrow> (int \<times> nat \<times> iobuf \<times> mem) option" where
  "iobuf_move iob data len m2b m =
     (let alen = (if io_resid iob > len then len else io_resid iob)
      in if alen > 0 then
           (let src = io_base iob; dst = data;
                (src, dst) = (if m2b then (dst, src) else (src, dst));
                (_, m) = memmove dst src alen m
            in do { iob \<leftarrow> iobuf_skip iob alen;
                    let len = len - alen;
                    Some (if len = 0 then 0 else - E_NO_MEM, alen, iob, m) })
         else Some (if len = 0 then 0 else - E_NO_MEM, alen, iob, m))"

definition iobuf_move_zeros :: "iobuf \<Rightarrow> nat \<Rightarrow> mem \<Rightarrow> (int \<times> nat \<times> iobuf \<times> mem) option" where
  "iobuf_move_zeros iob len m =
     (let alen = (if io_resid iob > len then len else io_resid iob)
      in if alen > 0 then
           (let (_, m) = memset (io_base iob) 0 alen m
            in do { iob \<leftarrow> iobuf_skip iob alen;
                    let len = len - alen;
                    Some (if len = 0 then 0 else - E_NO_MEM, alen, iob, m) })
         else Some (if len = 0 then 0 else - E_NO_MEM, alen, iob, m))"

definition iobuf_inv :: "nat \<Rightarrow> nat \<Rightarrow> int \<Rightarrow> iobuf \<Rightarrow> bool" where
  "iobuf_inv base len offset iob \<longleftrightarrow>
     io_len iob = len \<and> io_resid iob \<le> len \<and> io_base iob = base + iobuf_used iob \<and>
     io_offset iob = offset + int (iobuf_used iob)"

lemma iobuf_init_inv: "iobuf_inv base len offset (iobuf_init base len offset)"
  by (simp add: iobuf_inv_def iobuf_init_def iobuf_used_def)

lemma iobuf_skip_inv:
  "iobuf_inv base len offset iob \<Longrightarrow> n \<le> io_resid iob \<Longrightarrow> \<exists>iob'. iobuf_skip iob n = Some iob' \<and>
     iobuf_inv base len offset iob' \<and> iobuf_used iob' = iobuf_used iob + n"
  by (auto simp: iobuf_skip_def iobuf_inv_def iobuf_used_def)

lemma iobuf_move_spec:
  assumes inv: "iobuf_inv base n offset iob"
  shows "\<exists>iob'. iobuf_move iob data len m2b m = Some (if len \<le> io_resid iob then 0 else - E_NO_MEM,
      min len (io_resid iob), iob',
      if m2b then copied (base + iobuf_used iob) data (min len (io_resid iob)) m
      else copied data (base + iobuf_used iob) (min len (io_resid iob)) m) \<and>
    iobuf_inv base n offset iob' \<and> iobuf_used iob' = iobuf_used iob + min len (io_resid iob)"
proof -
  let ?a = "min len (io_resid iob)"
  have base: "io_base iob = base + iobuf_used iob" using inv by (simp add: iobuf_inv_def)
  obtain iob' where s: "iobuf_skip iob ?a = Some iob'" "iobuf_inv base n offset iob'"
    "iobuf_used iob' = iobuf_used iob + ?a"
    using iobuf_skip_inv [OF inv, of ?a] by auto
  show ?thesis
  proof (cases "?a = 0")
    case True
    with inv show ?thesis by (auto simp: iobuf_move_def min_def split: if_splits)
  next
    case False
    with s base show ?thesis by (auto simp: iobuf_move_def min_def Let_def memmove_eq split: if_splits)
  qed
qed

text \<open>A transfer in several moves of the given lengths, the data taken from or put at successive addresses.\<close>

primrec iobuf_moves :: "nat list \<Rightarrow> iobuf \<Rightarrow> nat \<Rightarrow> mem \<Rightarrow> (iobuf \<times> mem) option" where
  "iobuf_moves [] iob data m = Some (iob, m)"
| "iobuf_moves (len # lens) iob data m =
     do { (ret, copied, iob, m) \<leftarrow> iobuf_move iob data len True m;
          iobuf_moves lens iob (data + len) m }"

lemma copied_split:
  assumes "d + k + n \<le> s \<or> s + k + n \<le> d"
  shows "copied (d + k) (s + k) n (copied d s k m) = copied d s (k + n) m"
proof
  fix a
  consider "a < d" | "d \<le> a" "a < d + k" | "d + k \<le> a" "a < d + k + n" | "d + k + n \<le> a" by linarith
  then show "copied (d + k) (s + k) n (copied d s k m) a = copied d s (k + n) m a"
    using assms by cases (auto simp: copied_def)
qed

lemma iobuf_moves_copied:
  assumes "iobuf_inv base n offset iob" "sum_list lens \<le> io_resid iob"
    and "base + n \<le> data \<or> data + sum_list lens \<le> base"
  shows "\<exists>iob'. iobuf_moves lens iob data m =
      Some (iob', copied (base + iobuf_used iob) data (sum_list lens) m) \<and>
    iobuf_inv base n offset iob' \<and> iobuf_used iob' = iobuf_used iob + sum_list lens"
  using assms
proof (induction lens arbitrary: iob data m)
  case Nil
  then show ?case by simp
next
  case (Cons l lens)
  let ?u = "iobuf_used iob"
  obtain iob1 where m1: "iobuf_move iob data l True m = Some (0, l, iob1, copied (base + ?u) data l m)"
    "iobuf_inv base n offset iob1" "iobuf_used iob1 = ?u + l"
    using iobuf_move_spec [OF Cons.prems(1), of data l True m] Cons.prems(2) by (auto simp: min_def)
  have u: "?u + (l + sum_list lens) \<le> n" "io_resid iob1 = n - (?u + l)"
    using Cons.prems(1,2) m1(2,3) by (auto simp: iobuf_inv_def iobuf_used_def)
  have le: "sum_list lens \<le> io_resid iob1" using u by linarith
  have apart: "base + n \<le> data + l \<or> data + l + sum_list lens \<le> base"
    using Cons.prems(3) by auto
  obtain iob' where m2: "iobuf_moves lens iob1 (data + l) (copied (base + ?u) data l m) =
      Some (iob', copied (base + (?u + l)) (data + l) (sum_list lens) (copied (base + ?u) data l m))"
    "iobuf_inv base n offset iob'" "iobuf_used iob' = ?u + l + sum_list lens"
    using Cons.IH [OF m1(2) le apart, of "copied (base + ?u) data l m"] m1(3) by auto
  have "copied (base + ?u + l) (data + l) (sum_list lens) (copied (base + ?u) data l m) =
      copied (base + ?u) data (l + sum_list lens) m"
    by (rule copied_split) (use Cons.prems(3) u in auto)
  with m1(1) m2 show ?case by (auto simp: add.assoc)
qed

section \<open>Properties\<close>

text \<open>C13: a transfer that \<^verbatim>\<open>iobuf_move\<close> makes in pieces has the effect of one: after
  moves whose lengths add up to at most the buffer, the buffer holds the bytes of the
  source area in order, and the position, offset and rest of the record agree with the
  number of bytes moved.\<close>
theorem iobuf_moves_in_pieces:
  assumes "sum_list lens \<le> len" "base + len \<le> data \<or> data + sum_list lens \<le> base"
  shows "\<exists>iob'. iobuf_moves lens (iobuf_init base len offset) data m =
      Some (iob', \<lambda>a. if base \<le> a \<and> a < base + sum_list lens then m (data + (a - base)) else m a) \<and>
    io_base iob' = base + sum_list lens \<and> io_offset iob' = offset + int (sum_list lens) \<and>
    io_resid iob' = len - sum_list lens"
proof -
  have "iobuf_used (iobuf_init base len offset) = 0" "io_resid (iobuf_init base len offset) = len"
    by (simp_all add: iobuf_init_def iobuf_used_def)
  then obtain iob' where r: "iobuf_moves lens (iobuf_init base len offset) data m =
      Some (iob', copied base data (sum_list lens) m)" "iobuf_inv base len offset iob'"
    "iobuf_used iob' = sum_list lens"
    using iobuf_moves_copied [OF iobuf_init_inv, of lens base len offset data m] assms by auto
  then have "io_resid iob' = len - sum_list lens"
    using assms(1) by (auto simp: iobuf_inv_def iobuf_used_def)
  with r show ?thesis by (auto simp: iobuf_inv_def copied_def)
qed

theorem iobuf_moves_in_pieces_witness:
  "\<exists>iob'. iobuf_moves [2, 0, 3] (iobuf_init 16 8 0) 2 (\<lambda>a. of_nat a) =
      Some (iob', \<lambda>a. if 16 \<le> a \<and> a < 21 then of_nat (2 + (a - 16)) else of_nat a) \<and>
    io_base iob' = 21 \<and> io_offset iob' = 5 \<and> io_resid iob' = 3"
  using iobuf_moves_in_pieces [of "[2, 0, 3]" 8 16 2 0 "\<lambda>a. of_nat a"] by simp

end
