(* ===== verification/SkewHeap.thy ===== *)
theory SkewHeap
  imports Prelude "HOL-Library.Tree"
begin

text \<open>
  libs/skew_heap.h: the intrusive skew heap of the scheduler, with its three pointers per
  node. \<^verbatim>\<open>hp\<close> is the pointer store, a node is an address and \<^verbatim>\<open>None\<close> is
  \<^verbatim>\<open>NULL\<close>. \<^verbatim>\<open>htree h q t\<close> says that the pointers below \<^verbatim>\<open>q\<close> are the tree
  \<^verbatim>\<open>t\<close>, with consistent parent pointers; merge, insert and remove are proved to
  refine the functional ones on trees, and those to keep the heap order.
\<close>

section \<open>The operations\<close>

record hp =
  parent :: "nat \<Rightarrow> nat option"
  left :: "nat \<Rightarrow> nat option"
  right :: "nat \<Rightarrow> nat option"

definition skew_heap_init :: "nat \<Rightarrow> hp \<Rightarrow> hp" where
  "skew_heap_init a h =
     (let h = h\<lparr>parent := (parent h)(a := None)\<rparr>;
          h = h\<lparr>right := (right h)(a := None)\<rparr>
      in h\<lparr>left := (left h)(a := None)\<rparr>)"

definition set_parent :: "nat option \<Rightarrow> nat option \<Rightarrow> hp \<Rightarrow> hp" where
  "set_parent l p h = (case l of None \<Rightarrow> h | Some x \<Rightarrow> h\<lparr>parent := (parent h)(x := p)\<rparr>)"

partial_function (option) skew_heap_merge ::
    "(nat \<Rightarrow> nat \<Rightarrow> int) \<Rightarrow> nat option \<Rightarrow> nat option \<Rightarrow> hp \<Rightarrow> (nat option \<times> hp) option" where
  "skew_heap_merge cmp a b h =
     (case a of
        None \<Rightarrow> Some (b, h)
      | Some x \<Rightarrow>
         (case b of
            None \<Rightarrow> Some (a, h)
          | Some y \<Rightarrow>
             if cmp x y = - 1 then
               (let r = left h x in
                do { (l, h) \<leftarrow> skew_heap_merge cmp (right h x) b h;
                     let h = h\<lparr>left := (left h)(x := l)\<rparr>;
                     let h = h\<lparr>right := (right h)(x := r)\<rparr>;
                     Some (a, set_parent l (Some x) h) })
             else
               (let r = left h y in
                do { (l, h) \<leftarrow> skew_heap_merge cmp a (right h y) h;
                     let h = h\<lparr>left := (left h)(y := l)\<rparr>;
                     let h = h\<lparr>right := (right h)(y := r)\<rparr>;
                     Some (b, set_parent l (Some y) h) })))"

definition skew_heap_insert ::
    "(nat \<Rightarrow> nat \<Rightarrow> int) \<Rightarrow> nat option \<Rightarrow> nat \<Rightarrow> hp \<Rightarrow> (nat option \<times> hp) option" where
  "skew_heap_insert cmp a b h = skew_heap_merge cmp a (Some b) (skew_heap_init b h)"

definition skew_heap_remove ::
    "(nat \<Rightarrow> nat \<Rightarrow> int) \<Rightarrow> nat option \<Rightarrow> nat \<Rightarrow> hp \<Rightarrow> (nat option \<times> hp) option" where
  "skew_heap_remove cmp a b h =
     (let p = parent h b in
      do { (rep, h) \<leftarrow> skew_heap_merge cmp (left h b) (right h b) h;
           let h = set_parent rep p h;
           case p of
             None \<Rightarrow> Some (rep, h)
           | Some p \<Rightarrow>
               Some (a, if left h p = Some b then h\<lparr>left := (left h)(p := rep)\<rparr>
                        else h\<lparr>right := (right h)(p := rep)\<rparr>) })"

section \<open>Skew heaps as trees\<close>

fun smerge :: "(nat \<Rightarrow> nat \<Rightarrow> int) \<Rightarrow> nat tree \<Rightarrow> nat tree \<Rightarrow> nat tree" where
  "smerge cmp Leaf t = t"
| "smerge cmp t Leaf = t"
| "smerge cmp (Node l1 x r1) (Node l2 y r2) =
     (if cmp x y = - 1 then Node (smerge cmp r1 (Node l2 y r2)) x l1
      else Node (smerge cmp (Node l1 x r1) r2) y l2)"

fun sremove :: "(nat \<Rightarrow> nat \<Rightarrow> int) \<Rightarrow> nat \<Rightarrow> nat tree \<Rightarrow> nat tree" where
  "sremove cmp b Leaf = Leaf"
| "sremove cmp b (Node l x r) =
     (if x = b then smerge cmp l r else Node (sremove cmp b l) x (sremove cmp b r))"

lemma smerge_Leaf2 [simp]: "smerge cmp t Leaf = t"
  by (cases t) simp_all

lemma smerge_set: "set_tree (smerge cmp a b) = set_tree a \<union> set_tree b"
  by (induction cmp a b rule: smerge.induct) auto

definition dtree :: "nat tree \<Rightarrow> bool" where
  "dtree t \<longleftrightarrow> distinct (inorder t)"

lemma dtree_simps [simp]:
  "dtree Leaf"
  "dtree (Node l x r) \<longleftrightarrow> dtree l \<and> dtree r \<and> x \<notin> set_tree l \<and> x \<notin> set_tree r \<and> set_tree l \<inter> set_tree r = {}"
  by (auto simp: dtree_def)

lemma smerge_dtree:
  "dtree a \<Longrightarrow> dtree b \<Longrightarrow> set_tree a \<inter> set_tree b = {} \<Longrightarrow> dtree (smerge cmp a b)"
  by (induction cmp a b rule: smerge.induct) (auto simp: smerge_set)

lemma sremove_set: "dtree t \<Longrightarrow> set_tree (sremove cmp b t) = set_tree t - {b}"
  by (induction t) (auto simp: smerge_set)

lemma sremove_dtree: "dtree t \<Longrightarrow> dtree (sremove cmp b t)"
  by (induction t) (auto simp: smerge_dtree sremove_set)

lemma sremove_other: "b \<notin> set_tree t \<Longrightarrow> sremove cmp b t = t"
  by (induction t) auto

lemma sremove_size: "dtree t \<Longrightarrow> b \<in> set_tree t \<Longrightarrow> Suc (card (set_tree (sremove cmp b t))) = card (set_tree t)"
  by (simp only: sremove_set card_Suc_Diff1 finite_set_tree)

text \<open>Heap order: no node is greater than one below it.\<close>

fun horder :: "(nat \<Rightarrow> nat \<Rightarrow> bool) \<Rightarrow> nat tree \<Rightarrow> bool" where
  "horder le Leaf \<longleftrightarrow> True"
| "horder le (Node l x r) \<longleftrightarrow>
     (\<forall>y \<in> set_tree l \<union> set_tree r. le x y) \<and> horder le l \<and> horder le r"

definition ordered_by :: "nat set \<Rightarrow> (nat \<Rightarrow> nat \<Rightarrow> int) \<Rightarrow> (nat \<Rightarrow> nat \<Rightarrow> bool) \<Rightarrow> bool" where
  "ordered_by A cmp le \<longleftrightarrow>
     (\<forall>x \<in> A. \<forall>y \<in> A. if cmp x y = - 1 then le x y else le y x) \<and>
     (\<forall>x \<in> A. \<forall>y \<in> A. \<forall>z \<in> A. le x y \<longrightarrow> le y z \<longrightarrow> le x z)"

lemma ordered_by_mono: "ordered_by A cmp le \<Longrightarrow> B \<subseteq> A \<Longrightarrow> ordered_by B cmp le"
  unfolding ordered_by_def by (meson subsetD)

lemma smerge_order:
  "ordered_by (set_tree a \<union> set_tree b) cmp le \<Longrightarrow> horder le a \<Longrightarrow> horder le b \<Longrightarrow>
   horder le (smerge cmp a b)"
proof (induction cmp a b rule: smerge.induct)
  case (3 cmp l1 x r1 l2 y r2)
  let ?A = "set_tree (Node l1 x r1) \<union> set_tree (Node l2 y r2)"
  have tr: "le u w" if "le u v" "le v w" "u \<in> ?A" "v \<in> ?A" "w \<in> ?A" for u v w
    using "3.prems"(1) that unfolding ordered_by_def by blast
  have cmp: "if cmp x y = - 1 then le x y else le y x"
    using "3.prems"(1) unfolding ordered_by_def by simp
  show ?case
  proof (cases "cmp x y = - 1")
    case True
    have "horder le (smerge cmp r1 (Node l2 y r2))"
      by (rule "3.IH"(1) [OF True])
        (use "3.prems" ordered_by_mono [OF "3.prems"(1)] in \<open>auto intro!: ordered_by_mono [OF "3.prems"(1)]\<close>)
    moreover have "le x z" if "z \<in> set_tree (Node l2 y r2)" for z
      using that cmp True "3.prems"(3) tr [of x y z] by auto
    ultimately show ?thesis
      using True "3.prems"(2) by (auto simp: smerge_set)
  next
    case False
    have "horder le (smerge cmp (Node l1 x r1) r2)"
      by (rule "3.IH"(2) [OF False])
        (use "3.prems" in \<open>auto intro!: ordered_by_mono [OF "3.prems"(1)]\<close>)
    moreover have "le y z" if "z \<in> set_tree (Node l1 x r1)" for z
      using that cmp False "3.prems"(2) tr [of y x z] by auto
    ultimately show ?thesis
      using False "3.prems"(3) by (auto simp: smerge_set)
  qed
qed simp_all

lemma sremove_order:
  "dtree t \<Longrightarrow> ordered_by (set_tree t) cmp le \<Longrightarrow> horder le t \<Longrightarrow> horder le (sremove cmp b t)"
proof (induction t)
  case Leaf
  then show ?case by simp
next
  case (Node l x r)
  have o: "ordered_by (set_tree l \<union> set_tree r) cmp le" "ordered_by (set_tree l) cmp le"
    "ordered_by (set_tree r) cmp le"
    by (auto intro!: ordered_by_mono [OF Node.prems(2)])
  with Node show ?case
    by (auto simp: sremove_set intro!: smerge_order)
qed

section \<open>Pointers and trees\<close>

fun root :: "nat tree \<Rightarrow> nat option" where
  "root Leaf = None"
| "root (Node l x r) = Some x"

fun htree :: "hp \<Rightarrow> nat option \<Rightarrow> nat tree \<Rightarrow> bool" where
  "htree h q Leaf \<longleftrightarrow> q = None"
| "htree h q (Node l x r) \<longleftrightarrow>
     q = Some x \<and> htree h (left h x) l \<and> htree h (right h x) r \<and>
     (\<forall>y \<in> set_option (root l) \<union> set_option (root r). parent h y = Some x)"

text \<open>Two stores that agree on the nodes of a tree, except for the parent of its root.\<close>

definition same_on :: "nat set \<Rightarrow> hp \<Rightarrow> hp \<Rightarrow> bool" where
  "same_on A h h' \<longleftrightarrow> (\<forall>x \<in> A. left h' x = left h x \<and> right h' x = right h x \<and> parent h' x = parent h x)"

lemma root_in: "x \<in> set_option (root t) \<Longrightarrow> x \<in> set_tree t"
  by (cases t) auto

lemma htree_root: "htree h q t \<Longrightarrow> q = root t"
  by (cases t) auto

lemma htree_cong:
  "(\<forall>x \<in> set_tree t. left h' x = left h x \<and> right h' x = right h x) \<Longrightarrow>
   (\<forall>x \<in> set_tree t - set_option (root t). parent h' x = parent h x) \<Longrightarrow> dtree t \<Longrightarrow>
   htree h' q t = htree h q t"
proof (induction t arbitrary: q)
  case Leaf
  then show ?case by simp
next
  case (Node l x r)
  have "htree h' (left h x) l = htree h (left h x) l" "htree h' (right h x) r = htree h (right h x) r"
    using Node.prems by (intro Node.IH; auto)+
  moreover have "\<forall>y \<in> set_option (root l) \<union> set_option (root r). parent h' y = parent h y"
    using Node.prems root_in by fastforce
  ultimately show ?case using Node.prems by auto
qed

lemma htree_same: "same_on (set_tree t) h h' \<Longrightarrow> dtree t \<Longrightarrow> htree h' q t = htree h q t"
  by (rule htree_cong) (auto simp: same_on_def)

lemma set_parent_simps [simp]:
  "left (set_parent l p h) = left h" "right (set_parent l p h) = right h"
  "parent (set_parent l p h) = (\<lambda>x. if l = Some x then p else parent h x)"
  by (auto simp: set_parent_def fun_eq_iff split: option.splits)

text \<open>
  The outcome of a merge: the tree of the result, nothing outside it touched, and the
  parent pointer of its root unchanged.
\<close>

definition merged :: "hp \<Rightarrow> nat tree \<Rightarrow> nat option \<times> hp \<Rightarrow> bool" where
  "merged h t r \<longleftrightarrow> htree (snd r) (fst r) t \<and> fst r = root t \<and> same_on (- set_tree t) h (snd r) \<and>
     (\<forall>x \<in> set_option (root t). parent (snd r) x = parent h x)"

lemma merge_link:
  assumes m: "merged h t (l, h1)" and x: "x \<notin> set_tree t" "x \<notin> set_tree s" "set_tree t \<inter> set_tree s = {}"
    and d: "dtree t" "dtree s" and s: "htree h q s" "\<forall>y \<in> set_option (root s). parent h y = Some x"
  shows "merged h (Node t x s) (Some x, set_parent l (Some x) (h1\<lparr>left := (left h1)(x := l), right := (right h1)(x := q)\<rparr>))"
proof -
  let ?h2 = "set_parent l (Some x) (h1\<lparr>left := (left h1)(x := l), right := (right h1)(x := q)\<rparr>)"
  have l: "l = root t" and t: "htree h1 l t" and o: "same_on (- set_tree t) h h1"
    using m by (auto simp: merged_def)
  have "htree ?h2 l t = htree h1 l t"
    using x d l by (intro htree_cong) auto
  moreover have lt: "l \<noteq> Some y" if "y \<notin> set_tree t" for y
    using l root_in that by fastforce
  have "htree ?h2 q s = htree h q s"
    using x d o lt by (intro htree_cong) (auto simp: same_on_def)
  ultimately have tr: "htree ?h2 l t" "htree ?h2 q s"
    using t s by simp_all
  have pa: "parent ?h2 y = (if l = Some y then Some x else parent h1 y)" for y
    by simp
  have h1: "left h1 y = left h y" "right h1 y = right h y" "parent h1 y = parent h y" if "y \<notin> set_tree t" for y
    using o that by (simp_all add: same_on_def)
  have "parent ?h2 y = Some x" if y: "y \<in> set_option (root t) \<union> set_option (root s)" for y
  proof (cases "y \<in> set_option (root t)")
    case True
    with l show ?thesis by simp
  next
    case False
    with y have "y \<in> set_option (root s)" by simp
    moreover from this root_in x(3) have "y \<notin> set_tree t" by fastforce
    ultimately show ?thesis using s(2) h1(3) lt by simp
  qed
  with tr have "htree ?h2 (Some x) (Node t x s)" by simp
  moreover have "same_on (- set_tree (Node t x s)) h ?h2"
    using h1 lt by (simp add: same_on_def)
  ultimately show ?thesis
    using h1 lt x by (simp add: merged_def)
qed

lemma skew_heap_merge_refines:
  assumes "htree h a s" "htree h b t" "dtree s" "dtree t" "set_tree s \<inter> set_tree t = {}"
  shows "\<exists>r. skew_heap_merge cmp a b h = Some r \<and> merged h (smerge cmp s t) r"
  using assms
proof (induction cmp s t arbitrary: a b rule: smerge.induct)
  case (1 cmp t)
  then show ?case
    using htree_root [of h b t] by (subst skew_heap_merge.simps) (auto simp: merged_def same_on_def)
next
  case (2 cmp l x r)
  then show ?case
    by (subst skew_heap_merge.simps) (auto simp: merged_def same_on_def)
next
  case (3 cmp l1 x r1 l2 y r2)
  have ab: "a = Some x" "b = Some y" using "3.prems" by auto
  show ?case
  proof (cases "cmp x y = - 1")
    case True
    have "\<exists>r. skew_heap_merge cmp (right h x) b h = Some r \<and> merged h (smerge cmp r1 (Node l2 y r2)) r"
      by (rule "3.IH"(1) [OF True]) (use "3.prems" in auto)
    then obtain q h1 where m: "skew_heap_merge cmp (right h x) b h = Some (q, h1)"
      "merged h (smerge cmp r1 (Node l2 y r2)) (q, h1)" by auto
    have "merged h (smerge cmp (Node l1 x r1) (Node l2 y r2)) (Some x,
        set_parent q (Some x) (h1\<lparr>left := (left h1)(x := q), right := (right h1)(x := left h x)\<rparr>))"
      using True "3.prems" unfolding smerge.simps if_P [OF True]
      by (intro merge_link [OF m(2)]) (auto simp: smerge_set intro!: smerge_dtree)
    with True ab m(1) show ?thesis
      by (subst skew_heap_merge.simps) (simp add: Let_def)
  next
    case False
    have "\<exists>r. skew_heap_merge cmp a (right h y) h = Some r \<and> merged h (smerge cmp (Node l1 x r1) r2) r"
      by (rule "3.IH"(2) [OF False]) (use "3.prems" in auto)
    then obtain q h1 where m: "skew_heap_merge cmp a (right h y) h = Some (q, h1)"
      "merged h (smerge cmp (Node l1 x r1) r2) (q, h1)" by auto
    have "merged h (smerge cmp (Node l1 x r1) (Node l2 y r2)) (Some y,
        set_parent q (Some y) (h1\<lparr>left := (left h1)(y := q), right := (right h1)(y := left h y)\<rparr>))"
      using False "3.prems" unfolding smerge.simps if_not_P [OF False]
      by (intro merge_link [OF m(2)]) (auto simp: smerge_set intro!: smerge_dtree)
    with False ab m(1) show ?thesis
      by (subst skew_heap_merge.simps) (simp add: Let_def)
  qed
qed

section \<open>Removal\<close>

text \<open>
  After the removal of a node below the root: the tree without it, nothing outside the
  tree touched, and the parent pointer of the root unchanged.
\<close>

lemma root_sremove: "x \<noteq> b \<Longrightarrow> root (sremove cmp b (Node l x r)) = Some x"
  by simp

lemma same_on_mono: "same_on A h h' \<Longrightarrow> B \<subseteq> A \<Longrightarrow> same_on B h h'"
  by (auto simp: same_on_def)

lemma remove_child:
  assumes t: "htree h (Some p) (Node l p r)" and d: "dtree (Node l p r)"
    and b: "root l = Some b \<or> root r = Some b"
  shows "\<exists>h'. skew_heap_remove cmp a b h = Some (a, h') \<and>
    htree h' (Some p) (sremove cmp b (Node l p r)) \<and> same_on (- set_tree (Node l p r)) h h' \<and>
    parent h' p = parent h p"
proof -
  obtain s where s: "s = (if root l = Some b then l else r)" by simp
  have bs: "root s = Some b" using s b by (auto split: if_splits)
  then obtain bl br where sn: "s = Node bl b br" by (cases s) auto
  have hs: "htree h (Some b) s" using t s bs htree_root by (auto split: if_splits)
  have ds: "dtree s" using d s by (auto split: if_splits)
  have pb: "parent h b = Some p" using t b by auto
  obtain q h1 where m: "skew_heap_merge cmp (left h b) (right h b) h = Some (q, h1)"
    "merged h (smerge cmp bl br) (q, h1)"
    using skew_heap_merge_refines [of h "left h b" bl "right h b" br cmp] hs ds sn by auto
  let ?h2 = "set_parent q (Some p) h1"
  let ?h3 = "if left ?h2 p = Some b then ?h2\<lparr>left := (left ?h2)(p := q)\<rparr> else ?h2\<lparr>right := (right ?h2)(p := q)\<rparr>"
  have r: "skew_heap_remove cmp a b h = Some (a, ?h3)"
    using m(1) pb by (simp add: skew_heap_remove_def Let_def)
  have ms: "htree h1 q (smerge cmp bl br)" "q = root (smerge cmp bl br)"
    "same_on (- (set_tree bl \<union> set_tree br)) h h1"
    using m(2) by (auto simp: merged_def smerge_set)
  have sub: "set_tree bl \<union> set_tree br \<subseteq> set_tree s" "p \<notin> set_tree s"
    using sn d s by (auto split: if_splits)
  have h1: "left h1 y = left h y" "right h1 y = right h y" "parent h1 y = parent h y" "q \<noteq> Some y"
    if "y \<notin> set_tree s" for y
    using ms(2,3) that sub root_in [of y "smerge cmp bl br"] by (auto simp: same_on_def smerge_set)
  have dm: "dtree (smerge cmp bl br)" using ds sn by (intro smerge_dtree) auto
  have lp: "left h p = root l" "right h p = root r"
    using t htree_root by auto
  have lp2: "left ?h2 p = Some b \<longleftrightarrow> s = l"
  proof -
    have "root l = Some b \<longleftrightarrow> s = l"
      using s bs d b root_in [of b l] root_in [of b r] by (auto split: if_splits)
    then show ?thesis using h1 [OF sub(2)] lp by simp
  qed
  have m3: "htree ?h3 q (smerge cmp bl br)"
  proof -
    have "htree ?h3 q (smerge cmp bl br) = htree h1 q (smerge cmp bl br)"
      using sub ms(2) dm by (intro htree_cong) (auto simp: smerge_set)
    with ms(1) show ?thesis by simp
  qed
  have keep: "htree ?h3 z u" if "htree h z u" "set_tree u \<inter> insert p (set_tree s) = {}" "dtree u" for z u
  proof -
    have ns: "y \<notin> set_tree s \<and> y \<noteq> p" if "y \<in> set_tree u" for y
      using that \<open>set_tree u \<inter> insert p (set_tree s) = {}\<close> by auto
    have "htree ?h3 z u = htree h z u"
      using that(3) ns h1 by (intro htree_cong) auto
    with that show ?thesis by simp
  qed
  have other: "same_on (- set_tree (Node l p r)) h ?h3"
    using h1 s by (auto simp: same_on_def split: if_splits)
  have pp: "parent ?h3 p = parent h p" using h1 [OF sub(2)] by simp
  show ?thesis
  proof (cases "s = l")
    case True
    then have rm: "sremove cmp b (Node l p r) = Node (smerge cmp bl br) p r"
      using sn d by (auto simp: sremove_other)
    have "htree ?h3 (right h p) r" by (rule keep) (use t d True in auto)
    moreover have "parent ?h3 y = Some p" if "y \<in> set_option (root r)" for y
      using that t d True h1(3,4) [of y] root_in [of y r] by auto
    moreover have "parent ?h3 y = Some p" if "y \<in> set_option (root (smerge cmp bl br))" for y
      using that ms(2) by auto
    ultimately have "htree ?h3 (Some p) (Node (smerge cmp bl br) p r)"
      using m3 lp2 True h1 [OF sub(2)] by auto
    with r rm other pp show ?thesis by auto
  next
    case False
    then have sr: "s = r" using s by (auto split: if_splits)
    then have rm: "sremove cmp b (Node l p r) = Node l p (smerge cmp bl br)"
      using sn d by (auto simp: sremove_other)
    have "htree ?h3 (left h p) l" by (rule keep) (use t d sr in auto)
    moreover have "parent ?h3 y = Some p" if "y \<in> set_option (root l)" for y
      using that t d sr h1(3,4) [of y] root_in [of y l] by auto
    moreover have "parent ?h3 y = Some p" if "y \<in> set_option (root (smerge cmp bl br))" for y
      using that ms(2) by auto
    ultimately have "htree ?h3 (Some p) (Node l p (smerge cmp bl br))"
      using m3 lp2 False h1 [OF sub(2)] by auto
    with r rm other pp show ?thesis by auto
  qed
qed

lemma remove_below:
  assumes "htree h (Some p) (Node l p r)" "dtree (Node l p r)" "b \<in> set_tree l \<union> set_tree r"
  shows "\<exists>h'. skew_heap_remove cmp a b h = Some (a, h') \<and>
    htree h' (Some p) (sremove cmp b (Node l p r)) \<and> same_on (- set_tree (Node l p r)) h h' \<and>
    parent h' p = parent h p"
  using assms
proof (induction "Node l p r" arbitrary: l p r rule: measure_induct_rule [where f = size])
  case less
  show ?case
  proof (cases "root l = Some b \<or> root r = Some b")
    case True
    from remove_child [OF less.prems(1,2) True] show ?thesis .
  next
    case False
    obtain s where s: "s = (if b \<in> set_tree l then l else r)" by simp
    then have "b \<in> set_tree s" using less.prems(3) by auto
    then obtain sl sp sr where sn: "s = Node sl sp sr" by (cases s) auto
    have ne: "b \<noteq> sp" "b \<noteq> p" using False s sn less.prems(2,3) by (auto split: if_splits)
    have hs: "htree h (Some sp) s" "dtree s" "set_tree s \<subseteq> set_tree (Node l p r)" "p \<notin> set_tree s"
      using less.prems(1,2) s sn htree_root by (auto split: if_splits)
    have "\<exists>h'. skew_heap_remove cmp a b h = Some (a, h') \<and> htree h' (Some sp) (sremove cmp b s) \<and>
        same_on (- set_tree s) h h' \<and> parent h' sp = parent h sp"
      unfolding sn by (rule less.hyps)
        (use hs sn s ne \<open>b \<in> set_tree s\<close> in \<open>auto split: if_splits\<close>)
    then obtain h' where h': "skew_heap_remove cmp a b h = Some (a, h')" "htree h' (Some sp) (sremove cmp b s)"
      "same_on (- set_tree s) h h'" "parent h' sp = parent h sp" by blast
    have keep: "left h' y = left h y" "right h' y = right h y" "parent h' y = parent h y"
      if "y \<notin> set_tree s" for y
      using h'(3) that by (auto simp: same_on_def)
    have rs: "root (sremove cmp b s) = Some sp" using sn ne by simp
    have tree: "htree h' (Some p) (sremove cmp b (Node l p r))"
    proof (cases "b \<in> set_tree l")
      case True
      then have sl: "s = l" and br: "b \<notin> set_tree r" using s less.prems(2) by auto
      have "htree h' (right h p) r = htree h (right h p) r"
        using less.prems(2) keep sl by (intro htree_cong) auto
      moreover have "parent h' y = Some p" if "y \<in> set_option (root r)" for y
        using that less.prems(1,2) root_in [of y r] keep(3) [of y] sl by auto
      moreover have "left h p = Some sp" using less.prems(1) sl sn htree_root [of h _ l] by fastforce
      moreover have "parent h' sp = Some p" using h'(4) less.prems(1) sl sn by auto
      ultimately show ?thesis
        using h'(2) less.prems(1) keep [OF hs(4)] sl rs ne(2) sremove_other [OF br] by simp
    next
      case False
      then have sr: "s = r" using s by auto
      have "htree h' (left h p) l = htree h (left h p) l"
        using less.prems(2) keep sr by (intro htree_cong) auto
      moreover have "parent h' y = Some p" if "y \<in> set_option (root l)" for y
        using that less.prems(1,2) root_in [of y l] keep(3) [of y] sr by auto
      moreover have "right h p = Some sp" using less.prems(1) sr sn htree_root [of h _ r] by fastforce
      moreover have "parent h' sp = Some p" using h'(4) less.prems(1) sr sn by auto
      ultimately show ?thesis
        using h'(2) less.prems(1) keep [OF hs(4)] sr rs ne(2) sremove_other [OF False] by simp
    qed
    have "same_on (- set_tree (Node l p r)) h h'"
      using h'(3) hs(3) by (rule_tac same_on_mono) auto
    with h'(1) tree keep(3) [OF hs(4)] show ?thesis by auto
  qed
qed

section \<open>The queue of the heap\<close>

text \<open>\<^verbatim>\<open>heap_of h q t\<close>: the whole heap with root pointer \<^verbatim>\<open>q\<close> is the tree \<^verbatim>\<open>t\<close>.\<close>

definition heap_of :: "hp \<Rightarrow> nat option \<Rightarrow> nat tree \<Rightarrow> bool" where
  "heap_of h q t \<longleftrightarrow> htree h q t \<and> dtree t \<and> (\<forall>x \<in> set_option (root t). parent h x = None)"

lemma heap_of_root: "heap_of h q t \<Longrightarrow> q = root t"
  by (auto simp: heap_of_def dest: htree_root)

lemma skew_heap_insert_refines:
  assumes "heap_of h a t" "b \<notin> set_tree t"
  shows "\<exists>q h'. skew_heap_insert cmp a b h = Some (q, h') \<and>
    heap_of h' q (smerge cmp t (Node Leaf b Leaf))"
proof -
  let ?h = "skew_heap_init b h"
  have i: "same_on (- {b}) h ?h" "left ?h b = None" "right ?h b = None" "parent ?h b = None"
    by (auto simp: skew_heap_init_def same_on_def Let_def)
  have "htree ?h a t = htree h a t"
    using assms i by (intro htree_same same_on_mono [OF i(1)]) (auto simp: heap_of_def)
  moreover have b: "htree ?h (Some b) (Node Leaf b Leaf)" using i by simp
  ultimately obtain r where r: "skew_heap_merge cmp a (Some b) ?h = Some r"
    "merged ?h (smerge cmp t (Node Leaf b Leaf)) r"
    using skew_heap_merge_refines [of ?h a t "Some b" "Node Leaf b Leaf" cmp] assms
    by (auto simp: heap_of_def)
  have "dtree (smerge cmp t (Node Leaf b Leaf))"
    using assms by (intro smerge_dtree) (auto simp: heap_of_def)
  moreover have "parent ?h x = None" if x: "root (smerge cmp t (Node Leaf b Leaf)) = Some x" for x
  proof -
    have "root t = Some x \<or> x = b"
      using x by (cases t) (auto split: if_splits)
    moreover have "x \<noteq> b \<Longrightarrow> parent ?h x = parent h x" using i(1) by (simp add: same_on_def)
    ultimately show ?thesis using assms i(4) by (cases "x = b") (auto simp: heap_of_def)
  qed
  ultimately have "heap_of (snd r) (fst r) (smerge cmp t (Node Leaf b Leaf))"
    using r(2) by (auto simp: heap_of_def merged_def)
  with r(1) show ?thesis by (cases r) (auto simp: skew_heap_insert_def)
qed

lemma skew_heap_remove_refines:
  assumes t: "heap_of h a t" and b: "b \<in> set_tree t"
  shows "\<exists>q h'. skew_heap_remove cmp a b h = Some (q, h') \<and> heap_of h' q (sremove cmp b t)"
proof -
  obtain l p r where n: "t = Node l p r" using b by (cases t) auto
  have d: "dtree t" and h: "htree h (Some p) (Node l p r)" and pn: "parent h p = None" "a = Some p"
    using t n by (auto simp: heap_of_def)
  show ?thesis
  proof (cases "b = p")
    case True
    obtain q h1 where m: "skew_heap_merge cmp (left h b) (right h b) h = Some (q, h1)"
      "merged h (smerge cmp l r) (q, h1)"
      using skew_heap_merge_refines [of h "left h b" l "right h b" r cmp] h d n True by auto
    have dm: "dtree (smerge cmp l r)" using d n by (intro smerge_dtree) auto
    have q: "q = root (smerge cmp l r)" "htree h1 q (smerge cmp l r)" using m(2) by (auto simp: merged_def)
    have "htree (set_parent q None h1) q (smerge cmp l r) = htree h1 q (smerge cmp l r)"
      using q(1) dm by (intro htree_cong) auto
    then have "heap_of (set_parent q None h1) q (sremove cmp b t)"
      using n True q dm by (auto simp: heap_of_def)
    with m(1) pn True show ?thesis by (simp add: skew_heap_remove_def Let_def)
  next
    case False
    then have "b \<in> set_tree l \<union> set_tree r" using b n by auto
    from remove_below [OF h _ this, of cmp a] d n obtain h' where
      r: "skew_heap_remove cmp a b h = Some (a, h')" "htree h' (Some p) (sremove cmp b (Node l p r))"
      "parent h' p = parent h p" by auto
    then have "heap_of h' a (sremove cmp b t)"
      using n False d pn sremove_dtree [OF d, of cmp b] by (auto simp: heap_of_def)
    with r(1) show ?thesis by auto
  qed
qed

section \<open>Properties\<close>

text \<open>C5: the pointer operations of the skew heap are the tree operations. Inserting a new
  node, or removing a node anywhere in the heap, returns a root pointer whose tree has
  exactly the expected nodes, correct parent pointers, and is in heap order again when the
  comparison is a total preorder on the nodes.\<close>
theorem skew_heap_keeps_order:
  assumes "heap_of h q t" "horder le t" "ordered_by (insert b (set_tree t)) cmp le"
  shows "(b \<notin> set_tree t \<longrightarrow> (\<exists>q' h' t'. skew_heap_insert cmp q b h = Some (q', h') \<and>
      heap_of h' q' t' \<and> set_tree t' = insert b (set_tree t) \<and> horder le t')) \<and>
    (b \<in> set_tree t \<longrightarrow> (\<exists>q' h' t'. skew_heap_remove cmp q b h = Some (q', h') \<and>
      heap_of h' q' t' \<and> set_tree t' = set_tree t - {b} \<and> horder le t'))"
proof (intro conjI impI)
  assume b: "b \<notin> set_tree t"
  have "horder le (smerge cmp t (Node Leaf b Leaf))"
    using assms by (intro smerge_order) auto
  with skew_heap_insert_refines [OF assms(1) b, of cmp]
  show "\<exists>q' h' t'. skew_heap_insert cmp q b h = Some (q', h') \<and>
      heap_of h' q' t' \<and> set_tree t' = insert b (set_tree t) \<and> horder le t'"
    by (fastforce simp: smerge_set)
next
  assume b: "b \<in> set_tree t"
  have d: "dtree t" using assms(1) by (simp add: heap_of_def)
  have "horder le (sremove cmp b t)"
    using assms d b by (intro sremove_order) (auto simp: insert_absorb)
  with skew_heap_remove_refines [OF assms(1) b, of cmp] sremove_set [OF d, of cmp b]
  show "\<exists>q' h' t'. skew_heap_remove cmp q b h = Some (q', h') \<and>
      heap_of h' q' t' \<and> set_tree t' = set_tree t - {b} \<and> horder le t'"
    by blast
qed

theorem skew_heap_keeps_order_witness:
  "\<exists>q' h' t'. skew_heap_remove (\<lambda>x y. if x < y then - 1 else 0) (Some 1) 2
      \<lparr>parent = [2 \<mapsto> 1, 3 \<mapsto> 1], left = [1 \<mapsto> 2], right = [1 \<mapsto> 3]\<rparr> = Some (q', h') \<and>
    heap_of h' q' t' \<and> set_tree t' = {1, 3} \<and> horder (\<le>) t'"
proof -
  let ?t = "Node (Node Leaf 2 Leaf) 1 (Node Leaf 3 Leaf) :: nat tree"
  let ?h = "\<lparr>parent = [2 \<mapsto> 1, 3 \<mapsto> 1], left = [1 \<mapsto> 2], right = [1 \<mapsto> 3]\<rparr>"
  let ?cmp = "\<lambda>x y :: nat. if x < y then - 1 else 0 :: int"
  have h: "heap_of ?h (Some 1) ?t" by (simp add: heap_of_def)
  have o: "horder (\<le>) ?t" by simp
  have c: "ordered_by (insert 2 (set_tree ?t)) ?cmp (\<le>)" by (auto simp: ordered_by_def)
  have m: "2 \<in> set_tree ?t" "set_tree ?t - {2} = {1, 3}" by auto
  from mp [OF conjunct2 [OF skew_heap_keeps_order [OF h o c]] m(1)] show ?thesis
    unfolding m(2) .
qed

end
