(* ===== verification/ProcData.thy ===== *)
theory ProcData
  imports SkewHeap DList
begin

text \<open>
  kern/process/proc.h: the process descriptor and the part of the kernel state the
  scheduler works on. A process is addressed by a number. Of the descriptor, the fields of
  process management, scheduling and waiting are kept; the machine context, the memory map
  and the open files are not. The run queue is the only one of the kernel, so
  \<^verbatim>\<open>proc->rq\<close> is the flag \<^verbatim>\<open>on_rq\<close>.
\<close>

datatype proc_state = PROC_UNINIT | PROC_SLEEPING | PROC_RUNNABLE | PROC_ZOMBIE

text \<open>The states in the order of the enumeration, for the library's order class.\<close>

fun proc_state_code :: "proc_state \<Rightarrow> nat" where
  "proc_state_code PROC_UNINIT = 0"
| "proc_state_code PROC_SLEEPING = 1"
| "proc_state_code PROC_RUNNABLE = 2"
| "proc_state_code PROC_ZOMBIE = 3"

lemma proc_state_code_inject: "proc_state_code s = proc_state_code t \<Longrightarrow> s = t"
  by (cases s; cases t) simp_all

instantiation proc_state :: linorder
begin

definition less_eq_proc_state :: "proc_state \<Rightarrow> proc_state \<Rightarrow> bool" where
  "less_eq_proc_state s t \<longleftrightarrow> proc_state_code s \<le> proc_state_code t"

definition less_proc_state :: "proc_state \<Rightarrow> proc_state \<Rightarrow> bool" where
  "less_proc_state s t \<longleftrightarrow> proc_state_code s < proc_state_code t"

instance
  by standard (auto simp: less_eq_proc_state_def less_proc_state_def intro: proc_state_code_inject)

end

record proc_struct =
  pstate :: proc_state
  pid :: int
  runs :: int
  need_resched :: bool
  pparent :: "nat option"
  pflags :: "32 word"
  exit_code :: int
  wait_state :: "32 word"
  cptr :: "nat option"
  yptr :: "nat option"
  optr :: "nat option"
  on_rq :: bool
  time_slice :: int
  lab6_stride :: "32 word"
  lab6_priority :: "32 word"

abbreviation PF_EXITING :: "32 word" where "PF_EXITING \<equiv> 1"
abbreviation WT_INTERRUPTED :: "32 word" where "WT_INTERRUPTED \<equiv> 0x80000000"
abbreviation WT_CHILD :: "32 word" where "WT_CHILD \<equiv> 0x80000001"
abbreviation WT_TIMER :: "32 word" where "WT_TIMER \<equiv> 0x80000002"
abbreviation WT_KBD :: "32 word" where "WT_KBD \<equiv> 0x80000004"
abbreviation WT_KSEM :: "32 word" where "WT_KSEM \<equiv> 0x100"

text \<open>kern/schedule/sched.h: timers, and the run queue as fields of the state.\<close>

datatype timer_le = TimerList | TimerLink nat

fun le2timer :: "timer_le \<Rightarrow> nat" where
  "le2timer (TimerLink t) = t"

record timer =
  expires :: nat
  tproc :: "nat option"

record sched =
  procs :: "nat \<Rightarrow> proc_struct"
  idleproc :: nat
  current :: "nat option"
  run_list :: "nat option links"
  proc_num :: nat
  max_time_slice :: int
  heap :: hp
  lab6_run_pool :: "nat option"
  timers :: "nat \<Rightarrow> timer"
  timer_list :: "timer_le links"

definition upd_proc :: "nat \<Rightarrow> (proc_struct \<Rightarrow> proc_struct) \<Rightarrow> ('a sched_scheme) \<Rightarrow> 'a sched_scheme" where
  "upd_proc p f st = st\<lparr>procs := (procs st)(p := f (procs st p))\<rparr>"

lemma upd_proc_simps [simp]:
  "procs (upd_proc p f st) = (procs st)(p := f (procs st p))"
  "idleproc (upd_proc p f st) = idleproc st" "current (upd_proc p f st) = current st"
  "run_list (upd_proc p f st) = run_list st" "proc_num (upd_proc p f st) = proc_num st"
  "max_time_slice (upd_proc p f st) = max_time_slice st" "heap (upd_proc p f st) = heap st"
  "lab6_run_pool (upd_proc p f st) = lab6_run_pool st" "timers (upd_proc p f st) = timers st"
  "timer_list (upd_proc p f st) = timer_list st"
  by (simp_all add: upd_proc_def)

end
