(* ===== verification/Stride.thy ===== *)
theory Stride
  imports ProcData
begin

text \<open>
  kern/schedule/default_sched_stride.c: the stride scheduler on the skew heap. Strides are
  32-bit counters that wrap; the comparison takes the sign of their difference. The
  interface \<^verbatim>\<open>sched_queue\<close> is what kern/schedule/sched.c needs of a scheduling class;
  the order theorems say that the picked process is the one furthest behind as long as all
  strides lie within \<^verbatim>\<open>BIG_STRIDE\<close> of each other, and that rounds keep that.
\<close>

section \<open>The operations\<close>

definition BIG_STRIDE :: "32 word" where
  "BIG_STRIDE = push_bit 30 1"

definition proc_stride_comp_f :: "(nat \<Rightarrow> proc_struct) \<Rightarrow> nat \<Rightarrow> nat \<Rightarrow> int" where
  "proc_stride_comp_f ps p q =
     (let c = sint (lab6_stride (ps p) - lab6_stride (ps q))
      in if c > 0 then 1 else if c = 0 then 0 else - 1)"

definition stride_init :: "sched \<Rightarrow> sched" where
  "stride_init st = st\<lparr>run_list := list_init None (run_list st), lab6_run_pool := None, proc_num := 0\<rparr>"

definition stride_enqueue :: "nat \<Rightarrow> sched \<Rightarrow> sched option" where
  "stride_enqueue p st =
     do { (q, h) \<leftarrow> skew_heap_insert (proc_stride_comp_f (procs st)) (lab6_run_pool st) p (heap st);
          let st = st\<lparr>lab6_run_pool := q, heap := h\<rparr>;
          let st = (if time_slice (procs st p) = 0 \<or> time_slice (procs st p) > max_time_slice st
                    then upd_proc p (\<lambda>q. q\<lparr>time_slice := max_time_slice st\<rparr>) st else st);
          let st = upd_proc p (\<lambda>q. q\<lparr>on_rq := True\<rparr>) st;
          Some (st\<lparr>proc_num := w32 (proc_num st + 1)\<rparr>) }"

definition stride_dequeue :: "nat \<Rightarrow> sched \<Rightarrow> sched option" where
  "stride_dequeue p st =
     do { kassert (on_rq (procs st p) \<and> proc_num st > 0);
          (q, h) \<leftarrow> skew_heap_remove (proc_stride_comp_f (procs st)) (lab6_run_pool st) p (heap st);
          Some (st\<lparr>lab6_run_pool := q, heap := h, proc_num := proc_num st - 1\<rparr>) }"

definition stride_pick_next :: "sched \<Rightarrow> nat option \<times> sched" where
  "stride_pick_next st =
     (case lab6_run_pool st of
        None \<Rightarrow> (None, st)
      | Some p \<Rightarrow>
          (Some p, upd_proc p (\<lambda>q. q\<lparr>lab6_stride := lab6_stride q +
             (if lab6_priority q \<noteq> 0 then BIG_STRIDE div lab6_priority q else BIG_STRIDE)\<rparr>) st))"

definition stride_proc_tick :: "nat \<Rightarrow> sched \<Rightarrow> sched" where
  "stride_proc_tick p st =
     (let st = (if time_slice (procs st p) > 0
                then upd_proc p (\<lambda>q. q\<lparr>time_slice := time_slice q - 1\<rparr>) st else st)
      in if time_slice (procs st p) = 0 then upd_proc p (\<lambda>q. q\<lparr>need_resched := True\<rparr>) st else st)"

section \<open>The interface of a scheduling class\<close>

text \<open>
  \<^verbatim>\<open>inv s A\<close>: the queue of state \<^verbatim>\<open>s\<close> holds exactly the processes \<^verbatim>\<open>A\<close>;
  \<^verbatim>\<open>room\<close> bounds their number.
\<close>

locale sched_queue =
  fixes inv :: "'s \<Rightarrow> nat set \<Rightarrow> bool"
    and room :: nat
    and enq :: "nat \<Rightarrow> 's \<Rightarrow> 's option"
    and deq :: "nat \<Rightarrow> 's \<Rightarrow> 's option"
    and pick :: "'s \<Rightarrow> nat option \<times> 's"
  assumes inv_finite: "inv s A \<Longrightarrow> finite A"
    and enq_ok: "inv s A \<Longrightarrow> p \<notin> A \<Longrightarrow> card A < room \<Longrightarrow>
      \<exists>s'. enq p s = Some s' \<and> inv s' (insert p A)"
    and deq_ok: "inv s A \<Longrightarrow> p \<in> A \<Longrightarrow> \<exists>s'. deq p s = Some s' \<and> inv s' (A - {p})"
    and pick_empty: "inv s {} \<Longrightarrow> pick s = (None, s)"
    and pick_some: "inv s A \<Longrightarrow> A \<noteq> {} \<Longrightarrow> \<exists>p s'. pick s = (Some p, s') \<and> p \<in> A \<and> inv s' A"
begin

text \<open>What \<^verbatim>\<open>schedule\<close> does with the class: pick the next process and take it off.\<close>

definition take_next :: "'s \<Rightarrow> (nat option \<times> 's) option" where
  "take_next s =
     (let (r, s) = pick s
      in case r of None \<Rightarrow> Some (None, s) | Some p \<Rightarrow> do { s \<leftarrow> deq p s; Some (Some p, s) })"

lemma take_next_ok:
  assumes "inv s A"
  shows "if A = {} then take_next s = Some (None, s)
    else \<exists>p s'. take_next s = Some (Some p, s') \<and> p \<in> A \<and> inv s' (A - {p})"
proof (cases "A = {}")
  case True
  with assms pick_empty show ?thesis by (simp add: take_next_def)
next
  case False
  then obtain p s1 where "pick s = (Some p, s1)" "p \<in> A" "inv s1 A"
    using pick_some assms by blast
  with deq_ok [of s1 A p] False show ?thesis by (auto simp: take_next_def)
qed

primrec drain :: "nat \<Rightarrow> 's \<Rightarrow> (nat list \<times> 's) option" where
  "drain 0 s = Some ([], s)"
| "drain (Suc n) s =
     do { (r, s) \<leftarrow> take_next s;
          case r of None \<Rightarrow> Some ([], s)
          | Some p \<Rightarrow> do { (ps, s) \<leftarrow> drain n s; Some (p # ps, s) } }"

lemma drain_all: "inv s A \<Longrightarrow> card A \<le> n \<Longrightarrow>
  \<exists>ps s'. drain n s = Some (ps, s') \<and> distinct ps \<and> set ps = A \<and> inv s' {}"
proof (induction n arbitrary: s A)
  case 0
  then have "A = {}" using inv_finite by auto
  with 0 show ?case by auto
next
  case (Suc n)
  show ?case
  proof (cases "A = {}")
    case True
    with Suc.prems take_next_ok [of s A] show ?thesis by auto
  next
    case False
    then obtain p s1 where t: "take_next s = Some (Some p, s1)" "p \<in> A" "inv s1 (A - {p})"
      using take_next_ok [OF Suc.prems(1)] by auto
    have "card (A - {p}) \<le> n"
      using Suc.prems t(2) inv_finite [OF Suc.prems(1)] by simp
    then obtain ps s' where "drain n s1 = Some (ps, s')" "distinct ps" "set ps = A - {p}" "inv s' {}"
      using Suc.IH [OF t(3)] by blast
    with t show ?thesis by auto
  qed
qed

end

section \<open>The skew heap as the ready queue\<close>

definition ready_tree :: "sched \<Rightarrow> nat tree \<Rightarrow> bool" where
  "ready_tree st t \<longleftrightarrow> heap_of (heap st) (lab6_run_pool st) t \<and>
     (\<forall>p \<in> set_tree t. on_rq (procs st p)) \<and> proc_num st = card (set_tree t) \<and> proc_num st \<le> 2 ^ 31"

definition ready_set :: "sched \<Rightarrow> nat set \<Rightarrow> bool" where
  "ready_set st A \<longleftrightarrow> (\<exists>t. ready_tree st t \<and> set_tree t = A)"

abbreviation stride_cmp :: "sched \<Rightarrow> nat \<Rightarrow> nat \<Rightarrow> int" where
  "stride_cmp st \<equiv> proc_stride_comp_f (procs st)"

lemma stride_enqueue_tree:
  assumes t: "ready_tree st t" and p: "p \<notin> set_tree t" "card (set_tree t) < 2 ^ 31"
  shows "\<exists>st'. stride_enqueue p st = Some st' \<and>
    ready_tree st' (smerge (stride_cmp st) t (Node Leaf p Leaf)) \<and>
    (\<forall>q. lab6_stride (procs st' q) = lab6_stride (procs st q) \<and>
      pstate (procs st' q) = pstate (procs st q)) \<and>
    current st' = current st \<and> idleproc st' = idleproc st"
proof -
  obtain q h where m: "skew_heap_insert (stride_cmp st) (lab6_run_pool st) p (heap st) = Some (q, h)"
    "heap_of h q (smerge (stride_cmp st) t (Node Leaf p Leaf))"
    using skew_heap_insert_refines [of "heap st" "lab6_run_pool st" t p "stride_cmp st"] t p by (auto simp: ready_tree_def)
  have "card (insert p (set_tree t)) = Suc (card (set_tree t))" using p by simp
  with m t p show ?thesis
    by (simp add: stride_enqueue_def Let_def ready_tree_def smerge_set)
qed

lemma stride_dequeue_tree:
  assumes t: "ready_tree st t" and p: "p \<in> set_tree t"
  shows "\<exists>st'. stride_dequeue p st = Some st' \<and> ready_tree st' (sremove (stride_cmp st) p t) \<and>
    procs st' = procs st \<and> current st' = current st \<and> idleproc st' = idleproc st"
proof -
  obtain q h where m: "skew_heap_remove (stride_cmp st) (lab6_run_pool st) p (heap st) = Some (q, h)"
    "heap_of h q (sremove (stride_cmp st) p t)"
    using skew_heap_remove_refines [of "heap st" "lab6_run_pool st" t p "stride_cmp st"] t p by (auto simp: ready_tree_def)
  have d: "dtree t" using t by (simp add: ready_tree_def heap_of_def)
  have "0 < card (set_tree t)" using p by (auto simp: card_gt_0_iff)
  with m t p sremove_size [OF d p, of "stride_cmp st"] show ?thesis
    by (auto simp: stride_dequeue_def ready_tree_def sremove_set [OF d])
qed

lemma stride_pick_tree:
  assumes "ready_tree st t"
  shows "if t = Leaf then stride_pick_next st = (None, st)
    else \<exists>st'. stride_pick_next st = (root t, st') \<and> ready_tree st' t"
proof (cases t)
  case Leaf
  with assms show ?thesis
    by (auto simp: stride_pick_next_def ready_tree_def dest: heap_of_root)
next
  case (Node l p r)
  have "lab6_run_pool st = Some p"
    using assms heap_of_root Node by (fastforce simp: ready_tree_def)
  with assms Node show ?thesis
    by (simp add: stride_pick_next_def ready_tree_def)
qed

interpretation stride: sched_queue ready_set "2 ^ 31" stride_enqueue stride_dequeue stride_pick_next
proof
  fix st A p
  show "finite A" if "ready_set st A"
    using that by (auto simp: ready_set_def)
  show "\<exists>s'. stride_enqueue p st = Some s' \<and> ready_set s' (insert p A)"
    if "ready_set st A" "p \<notin> A" "card A < 2 ^ 31"
  proof -
    from that obtain t where "ready_tree st t" "set_tree t = A" by (auto simp: ready_set_def)
    with stride_enqueue_tree [of st t p] that show ?thesis
      by (force simp: ready_set_def smerge_set)
  qed
  show "\<exists>s'. stride_dequeue p st = Some s' \<and> ready_set s' (A - {p})" if "ready_set st A" "p \<in> A"
  proof -
    from that obtain t where t: "ready_tree st t" "set_tree t = A" by (auto simp: ready_set_def)
    then have "dtree t" by (simp add: ready_tree_def heap_of_def)
    with t stride_dequeue_tree [of st t p] that show ?thesis
      by (force simp: ready_set_def sremove_set)
  qed
  show "stride_pick_next st = (None, st)" if "ready_set st {}"
    using that stride_pick_tree [of st Leaf] by (auto simp: ready_set_def)
  show "\<exists>p s'. stride_pick_next st = (Some p, s') \<and> p \<in> A \<and> ready_set s' A"
    if "ready_set st A" "A \<noteq> {}"
  proof -
    from that obtain t where t: "ready_tree st t" "set_tree t = A" by (auto simp: ready_set_def)
    with that(2) obtain l p r where "t = Node l p r" by (cases t) auto
    then obtain st' where "stride_pick_next st = (Some p, st')" "ready_tree st' t"
      using stride_pick_tree [OF t(1)] by auto
    moreover from this t have "ready_set st' A" unfolding ready_set_def by blast
    moreover have "p \<in> A" using t(2) \<open>t = Node l p r\<close> by auto
    ultimately show ?thesis by blast
  qed
qed

section \<open>Order by stride\<close>

text \<open>
  Relative to a base the strides are offsets; \<^verbatim>\<open>in_window\<close> bounds them by
  \<^verbatim>\<open>BIG_STRIDE\<close>. The signed difference of two strides is then the difference of
  their offsets, so the comparison is a total order on the queue.
\<close>

definition offs :: "sched \<Rightarrow> 32 word \<Rightarrow> nat \<Rightarrow> nat" where
  "offs st base p = unat (lab6_stride (procs st p) - base)"

definition in_window :: "sched \<Rightarrow> 32 word \<Rightarrow> nat set \<Rightarrow> bool" where
  "in_window st base A \<longleftrightarrow> (\<forall>p \<in> A. offs st base p \<le> 2 ^ 30)"

lemma sint_diff_small:
  fixes a b :: "32 word"
  assumes "unat a \<le> 2 ^ 30" "unat b \<le> 2 ^ 30"
  shows "sint (a - b) = int (unat a) - int (unat b)"
proof -
  have small: "sint w = int (unat w)" if "unat w \<le> 2 ^ 30" for w :: "32 word"
  proof -
    have "unat w \<le> 1073741824" using that by simp
    then have u: "int (unat w) < 2147483648" "- 2147483648 \<le> int (unat w)" by linarith+
    have "signed_take_bit 31 (int (unat w)) = int (unat w)"
      by (rule signed_take_bit_int_eq_self) (use u in simp_all)
    then show ?thesis by (simp add: sint_uint)
  qed
  have "sint (a - b) = signed_take_bit 31 (sint a - sint b)"
    by (simp add: sint_word_ariths)
  also have "\<dots> = int (unat a) - int (unat b)"
  proof -
    have "unat a \<le> 1073741824" "unat b \<le> 1073741824" using assms by simp_all
    then have u: "- 2147483648 \<le> int (unat a) - int (unat b)" "int (unat a) - int (unat b) < 2147483648"
      by linarith+
    show ?thesis
      unfolding small [OF assms(1)] small [OF assms(2)]
      by (rule signed_take_bit_int_eq_self) (use u in simp_all)
  qed
  finally show ?thesis .
qed

lemma stride_cmp_offs:
  assumes "in_window st base A" "p \<in> A" "q \<in> A"
  shows "stride_cmp st p q =
    (if offs st base p > offs st base q then 1 else if offs st base p = offs st base q then 0 else - 1)"
proof -
  have "lab6_stride (procs st p) - lab6_stride (procs st q) =
      (lab6_stride (procs st p) - base) - (lab6_stride (procs st q) - base)" by simp
  then have "sint (lab6_stride (procs st p) - lab6_stride (procs st q)) =
      int (offs st base p) - int (offs st base q)"
    using assms sint_diff_small unfolding in_window_def offs_def by metis
  then show ?thesis by (auto simp: proc_stride_comp_f_def)
qed

lemma stride_ordered: "in_window st base A \<Longrightarrow>
  ordered_by A (stride_cmp st) (\<lambda>p q. offs st base p \<le> offs st base q)"
  by (auto simp: ordered_by_def stride_cmp_offs)

definition stride_queue :: "sched \<Rightarrow> 32 word \<Rightarrow> nat tree \<Rightarrow> bool" where
  "stride_queue st base t \<longleftrightarrow> ready_tree st t \<and> in_window st base (set_tree t) \<and>
     horder (\<lambda>p q. offs st base p \<le> offs st base q) t"

definition pass :: "proc_struct \<Rightarrow> 32 word" where
  "pass p = (if lab6_priority p \<noteq> 0 then BIG_STRIDE div lab6_priority p else BIG_STRIDE)"

lemma pass_le: "unat (pass p) \<le> 2 ^ 30"
proof -
  have "unat BIG_STRIDE = 2 ^ 30" by (simp add: BIG_STRIDE_def)
  then show ?thesis
    by (auto simp: pass_def unat_div intro: order_trans [OF div_le_dividend])
qed

lemma offs_shift:
  assumes "offs st base p \<le> offs st base q" "offs st base q \<le> 2 ^ 30"
  shows "unat (lab6_stride (procs st q) - lab6_stride (procs st p)) = offs st base q - offs st base p"
proof -
  let ?p = "lab6_stride (procs st p) - base" and ?q = "lab6_stride (procs st q) - base"
  have e: "lab6_stride (procs st q) - lab6_stride (procs st p) = ?q - ?p" by simp
  have "?p \<le> ?q"
    using assms(1) by (simp only: offs_def word_le_nat_alt)
  then show ?thesis unfolding e offs_def by (rule unat_sub)
qed

text \<open>
  One round: the process at the root is picked and taken off; it is one whose offset is
  least. Put back, it leaves a queue that is in order again, with its old stride as the base.
\<close>

lemma stride_pick_least:
  assumes q: "stride_queue st base t" and t: "t = Node l p r"
  shows "stride_pick_next st = (Some p, upd_proc p (\<lambda>q. q\<lparr>lab6_stride := lab6_stride q + pass q\<rparr>) st)"
    and "\<forall>x \<in> set_tree t. offs st base p \<le> offs st base x"
proof -
  have "lab6_run_pool st = Some p"
    using q t heap_of_root by (fastforce simp: stride_queue_def ready_tree_def)
  then show "stride_pick_next st = (Some p, upd_proc p (\<lambda>q. q\<lparr>lab6_stride := lab6_stride q + pass q\<rparr>) st)"
    by (simp add: stride_pick_next_def pass_def)
  show "\<forall>x \<in> set_tree t. offs st base p \<le> offs st base x"
    using q t by (auto simp: stride_queue_def)
qed

lemma horder_cong:
  "(\<And>x y. x \<in> set_tree t \<Longrightarrow> y \<in> set_tree t \<Longrightarrow> le x y = le' x y) \<Longrightarrow> horder le t = horder le' t"
  by (induction t) auto

lemma stride_round_queue:
  assumes q: "stride_queue st base t" and t: "t = Node l p r"
  shows "\<exists>st1 st2 t'. stride_dequeue p (snd (stride_pick_next st)) = Some st1 \<and>
    stride_enqueue p st1 = Some st2 \<and> set_tree t' = set_tree t \<and>
    stride_queue st2 (lab6_stride (procs st p)) t' \<and>
    (\<forall>x. lab6_stride (procs st2 x) =
      (if x = p then lab6_stride (procs st p) + pass (procs st p) else lab6_stride (procs st x)))"
proof -
  let ?b = "lab6_stride (procs st p)"
  let ?st = "upd_proc p (\<lambda>q. q\<lparr>lab6_stride := lab6_stride q + pass q\<rparr>) st"
  note pick = stride_pick_least [OF q t]
  have rt: "ready_tree ?st t" using q by (auto simp: stride_queue_def ready_tree_def)
  have d: "dtree t" using q by (auto simp: stride_queue_def ready_tree_def heap_of_def)
  have win: "offs st base x \<le> 2 ^ 30" if "x \<in> set_tree t" for x
    using q that by (auto simp: stride_queue_def in_window_def)
  obtain st1 where s1: "stride_dequeue p ?st = Some st1"
    "ready_tree st1 (sremove (stride_cmp ?st) p t)" "procs st1 = procs ?st"
    using stride_dequeue_tree [OF rt, of p] t by auto
  let ?t1 = "sremove (stride_cmp ?st) p t"
  have set1: "set_tree ?t1 = set_tree t - {p}" using d by (rule sremove_set)
  have "card (set_tree t) \<le> 2 ^ 31" "0 < card (set_tree t)"
    using rt t by (auto simp: ready_tree_def card_gt_0_iff)
  moreover have "card (set_tree ?t1) = card (set_tree t) - 1"
    unfolding set1 using t by (intro card_Diff_singleton) simp
  ultimately have "card (set_tree ?t1) < 2 ^ 31" by linarith
  with s1(2) obtain st2 where s2: "stride_enqueue p st1 = Some st2"
    "ready_tree st2 (smerge (stride_cmp st1) ?t1 (Node Leaf p Leaf))"
    "\<forall>q. lab6_stride (procs st2 q) = lab6_stride (procs st1 q)"
    using stride_enqueue_tree [of st1 ?t1 p] set1 by auto
  let ?t2 = "smerge (stride_cmp st1) ?t1 (Node Leaf p Leaf)"
  have str: "lab6_stride (procs st2 x) = (if x = p then ?b + pass (procs st p) else lab6_stride (procs st x))" for x
    using s2(3) s1(3) by simp
  have offs2: "offs st2 ?b x = (if x = p then unat (pass (procs st p)) else offs st base x - offs st base p)"
    if "x \<in> set_tree t" for x
    using offs_shift [of st base p x] pick(2) win that by (auto simp: offs_def str)
  have same: "offs st1 ?b = offs st2 ?b" "stride_cmp st1 = stride_cmp st2"
    using s2(3) by (auto simp: offs_def proc_stride_comp_f_def fun_eq_iff)
  have set2: "set_tree ?t2 = set_tree t" using t by (auto simp: smerge_set set1)
  have win2: "in_window st2 ?b (set_tree t)"
    using offs2 win pass_le by (force simp: in_window_def intro: le_trans [OF diff_le_self])
  have o1: "horder (\<lambda>x y. offs st base x \<le> offs st base y) ?t1"
  proof -
    have "horder (\<lambda>x y. offs st base x \<le> offs st base y) (smerge (stride_cmp ?st) l r)"
    proof (rule smerge_order)
      have ps: "stride_cmp ?st x y = stride_cmp st x y" if "x \<in> set_tree l \<union> set_tree r" "y \<in> set_tree l \<union> set_tree r" for x y
        using that d t by (auto simp: proc_stride_comp_f_def)
      have "ordered_by (set_tree l \<union> set_tree r) (stride_cmp st) (\<lambda>x y. offs st base x \<le> offs st base y)"
        by (rule stride_ordered) (use q t in \<open>auto simp: stride_queue_def in_window_def\<close>)
      then show "ordered_by (set_tree l \<union> set_tree r) (stride_cmp ?st) (\<lambda>x y. offs st base x \<le> offs st base y)"
        using ps unfolding ordered_by_def by auto
    qed (use q t in \<open>auto simp: stride_queue_def\<close>)
    then show ?thesis using t by simp
  qed
  have "horder (\<lambda>x y. offs st2 ?b x \<le> offs st2 ?b y) ?t1 = horder (\<lambda>x y. offs st base x \<le> offs st base y) ?t1"
  proof (rule horder_cong)
    fix x y assume "x \<in> set_tree ?t1" "y \<in> set_tree ?t1"
    then show "(offs st2 ?b x \<le> offs st2 ?b y) = (offs st base x \<le> offs st base y)"
      using set1 offs2 pick(2) by (auto simp: le_diff_iff)
  qed
  with o1 have o1': "horder (\<lambda>x y. offs st2 ?b x \<le> offs st2 ?b y) ?t1" by simp
  have "horder (\<lambda>x y. offs st2 ?b x \<le> offs st2 ?b y) ?t2"
    unfolding same(2)
  proof (rule smerge_order)
    show "ordered_by (set_tree ?t1 \<union> set_tree (Node Leaf p Leaf)) (stride_cmp st2) (\<lambda>x y. offs st2 ?b x \<le> offs st2 ?b y)"
      by (rule stride_ordered) (use win2 set1 t in \<open>auto simp: in_window_def\<close>)
  qed (use o1' in simp_all)
  then have "stride_queue st2 ?b ?t2"
    using s2(2) win2 set2 by (simp add: stride_queue_def)
  with pick(1) s1(1) s2(1) set2 str show ?thesis by (auto simp del: upd_proc_simps)
qed

section \<open>Properties\<close>

text \<open>Taking processes off the ready queue until it is empty returns every ready
  process exactly once, whatever the strides are.\<close>
theorem stride_drains_ready:
  assumes "ready_set st A"
  shows "\<exists>ps st'. stride.drain (card A) st = Some (ps, st') \<and> distinct ps \<and> set ps = A \<and> ready_set st' {}"
  by (rule stride.drain_all [OF assms]) simp

text \<open>C6: a scheduling round of the stride scheduler. When the strides of the queue lie
  within \<^verbatim>\<open>BIG_STRIDE\<close> of a base, modulo the wrap-around of the counters, the
  process picked is one that is least far from it; after its stride has advanced by
  \<^verbatim>\<open>BIG_STRIDE / priority\<close> and it has been queued again, the same processes are
  queued, and the strides lie within \<^verbatim>\<open>BIG_STRIDE\<close> of its old stride.\<close>
theorem stride_round:
  assumes "stride_queue st base t" "t \<noteq> Leaf"
  shows "\<exists>p st1 st2 st3 t'. stride_pick_next st = (Some p, st1) \<and> p \<in> set_tree t \<and>
    (\<forall>x \<in> set_tree t. offs st base p \<le> offs st base x) \<and>
    stride_dequeue p st1 = Some st2 \<and> stride_enqueue p st2 = Some st3 \<and>
    set_tree t' = set_tree t \<and> stride_queue st3 (lab6_stride (procs st p)) t' \<and>
    lab6_stride (procs st3 p) = lab6_stride (procs st p) + pass (procs st p)"
proof -
  obtain l p r where t: "t = Node l p r" using assms(2) by (cases t) auto
  note pick = stride_pick_least [OF assms(1) t]
  obtain st2 st3 t' where "stride_dequeue p (snd (stride_pick_next st)) = Some st2"
    "stride_enqueue p st2 = Some st3" "set_tree t' = set_tree t"
    "stride_queue st3 (lab6_stride (procs st p)) t'"
    "lab6_stride (procs st3 p) = lab6_stride (procs st p) + pass (procs st p)"
    using stride_round_queue [OF assms(1) t] by auto
  with pick t show ?thesis by auto
qed

text \<open>A state with two ready processes, whose strides are on both sides of the wrap-around.\<close>

definition ready_proc :: "32 word \<Rightarrow> proc_struct" where
  "ready_proc s = \<lparr>pstate = PROC_RUNNABLE, pid = 1, runs = 0, need_resched = False, pparent = None,
     pflags = 0, exit_code = 0, wait_state = 0, cptr = None, yptr = None, optr = None, on_rq = True,
     time_slice = 5, lab6_stride = s, lab6_priority = 4\<rparr>"

definition two_ready :: sched where
  "two_ready = \<lparr>procs = (\<lambda>p. if p = 1 then ready_proc (- 2) else if p = 2 then ready_proc 7
       else (ready_proc 0)\<lparr>pstate := PROC_UNINIT\<rparr>),
     idleproc = 0, current = Some 0, run_list = \<lparr>prv = (\<lambda>_. None), nxt = (\<lambda>_. None)\<rparr>,
     proc_num = 2, max_time_slice = 5,
     heap = \<lparr>parent = (\<lambda>x. if x = 2 then Some 1 else None), left = (\<lambda>x. if x = 1 then Some 2 else None),
       right = (\<lambda>_. None)\<rparr>,
     lab6_run_pool = Some 1, timers = (\<lambda>_. \<lparr>expires = 3, tproc = Some 2\<rparr>),
     timer_list = \<lparr>prv = (\<lambda>e. if e = TimerList then TimerLink 0 else TimerList),
       nxt = (\<lambda>e. if e = TimerList then TimerLink 0 else TimerList)\<rparr>\<rparr>"

abbreviation two_tree :: "nat tree" where
  "two_tree \<equiv> Node (Node Leaf 2 Leaf) 1 Leaf"

lemma two_ready_tree: "ready_tree two_ready two_tree"
  by (simp add: ready_tree_def two_ready_def heap_of_def ready_proc_def)

lemma two_ready_queue: "stride_queue two_ready (- 2) two_tree"
  using two_ready_tree by (simp add: stride_queue_def in_window_def offs_def two_ready_def ready_proc_def)

lemma two_ready_set: "ready_set two_ready {1, 2}"
  unfolding ready_set_def by (rule exI [of _ two_tree]) (use two_ready_tree in auto)

theorem stride_drains_ready_witness:
  "\<exists>ps st'. stride.drain (card {1, 2 :: nat}) two_ready = Some (ps, st') \<and> distinct ps \<and> set ps = {1, 2} \<and>
    ready_set st' {}"
  by (rule stride_drains_ready [OF two_ready_set])

theorem stride_round_witness:
  "\<exists>p st1 st2 st3 t'. stride_pick_next two_ready = (Some p, st1) \<and> p \<in> set_tree two_tree \<and>
    (\<forall>x \<in> set_tree two_tree. offs two_ready (- 2) p \<le> offs two_ready (- 2) x) \<and>
    stride_dequeue p st1 = Some st2 \<and> stride_enqueue p st2 = Some st3 \<and>
    set_tree t' = set_tree two_tree \<and> stride_queue st3 (lab6_stride (procs two_ready p)) t' \<and>
    lab6_stride (procs st3 p) = lab6_stride (procs two_ready p) + pass (procs two_ready p)"
  by (rule stride_round [OF two_ready_queue]) simp

end
