(* ===== verification/Sched.thy ===== *)
theory Sched
  imports Stride
begin

text \<open>
  kern/schedule/sched.c: waking processes, the scheduler, and the timer list, which keeps
  for each timer the ticks after the one before it. Disabling interrupts around the bodies
  has no counterpart, as no interrupt is modelled inside them; \<^verbatim>\<open>warn\<close> only
  prints. A \<^verbatim>\<open>NULL\<close> current process is \<^verbatim>\<open>None\<close> and following it is a call that does
  not return. \<^verbatim>\<open>proc_run\<close> is the switch as seen from the scheduler: the current
  process changes.
\<close>

section \<open>Scheduling\<close>

definition sched_class_enqueue :: "nat \<Rightarrow> sched \<Rightarrow> sched option" where
  "sched_class_enqueue p st = (if p \<noteq> idleproc st then stride_enqueue p st else Some st)"

definition sched_class_dequeue :: "nat \<Rightarrow> sched \<Rightarrow> sched option" where
  "sched_class_dequeue p st = stride_dequeue p st"

definition sched_class_pick_next :: "sched \<Rightarrow> nat option \<times> sched" where
  "sched_class_pick_next st = stride_pick_next st"

definition sched_class_proc_tick :: "nat \<Rightarrow> sched \<Rightarrow> sched" where
  "sched_class_proc_tick p st =
     (if p \<noteq> idleproc st then stride_proc_tick p st else upd_proc p (\<lambda>q. q\<lparr>need_resched := True\<rparr>) st)"

definition sched_init :: "sched \<Rightarrow> sched" where
  "sched_init st = stride_init (st\<lparr>timer_list := list_init TimerList (timer_list st), max_time_slice := 5\<rparr>)"

definition wakeup_proc :: "nat \<Rightarrow> sched \<Rightarrow> sched option" where
  "wakeup_proc p st =
     do { kassert (pstate (procs st p) \<noteq> PROC_ZOMBIE);
          if pstate (procs st p) \<noteq> PROC_RUNNABLE then
            (let st = upd_proc p (\<lambda>q. q\<lparr>pstate := PROC_RUNNABLE\<rparr>) st;
                 st = upd_proc p (\<lambda>q. q\<lparr>wait_state := 0\<rparr>) st
             in if current st \<noteq> Some p then sched_class_enqueue p st else Some st)
          else Some st }"

definition proc_run :: "nat \<Rightarrow> sched \<Rightarrow> sched" where
  "proc_run p st = (if current st \<noteq> Some p then st\<lparr>current := Some p\<rparr> else st)"

definition schedule :: "sched \<Rightarrow> sched option" where
  "schedule st =
     do { c \<leftarrow> current st;
          let st = upd_proc c (\<lambda>q. q\<lparr>need_resched := False\<rparr>) st;
          st \<leftarrow> (if pstate (procs st c) = PROC_RUNNABLE then sched_class_enqueue c st else Some st);
          let (next, st) = sched_class_pick_next st;
          st \<leftarrow> (case next of Some n \<Rightarrow> sched_class_dequeue n st | None \<Rightarrow> Some st);
          let n = (case next of Some n \<Rightarrow> n | None \<Rightarrow> idleproc st);
          let st = upd_proc n (\<lambda>q. q\<lparr>runs := runs q + 1\<rparr>) st;
          Some (if current st \<noteq> Some n then proc_run n st else st) }"

section \<open>Timers\<close>

definition upd_timer :: "nat \<Rightarrow> (timer \<Rightarrow> timer) \<Rightarrow> sched \<Rightarrow> sched" where
  "upd_timer t f st = st\<lparr>timers := (timers st)(t := f (timers st t))\<rparr>"

definition timer_init :: "nat \<Rightarrow> nat option \<Rightarrow> int \<Rightarrow> sched \<Rightarrow> sched" where
  "timer_init t p e st =
     (let st = upd_timer t (\<lambda>x. x\<lparr>expires := nat (e mod 2 ^ 32)\<rparr>) st;
          st = upd_timer t (\<lambda>x. x\<lparr>tproc := p\<rparr>) st
      in st\<lparr>timer_list := list_init (TimerLink t) (timer_list st)\<rparr>)"

partial_function (option) timer_walk :: "nat \<Rightarrow> timer_le \<Rightarrow> sched \<Rightarrow> (timer_le \<times> sched) option" where
  "timer_walk t le st =
     (if le \<noteq> TimerList then
        (let next = le2timer le
         in if expires (timers st t) < expires (timers st next)
            then Some (le, upd_timer next (\<lambda>x. x\<lparr>expires := expires x - expires (timers st t)\<rparr>) st)
            else (let st = upd_timer t (\<lambda>x. x\<lparr>expires := expires x - expires (timers st next)\<rparr>) st
                  in timer_walk t (list_next le (timer_list st)) st))
      else Some (le, st))"

definition add_timer :: "nat \<Rightarrow> sched \<Rightarrow> sched option" where
  "add_timer t st =
     do { kassert (expires (timers st t) > 0 \<and> tproc (timers st t) \<noteq> None);
          kassert (list_empty (TimerLink t) (timer_list st));
          (le, st) \<leftarrow> timer_walk t (list_next TimerList (timer_list st)) st;
          Some (st\<lparr>timer_list := list_add_before le (TimerLink t) (timer_list st)\<rparr>) }"

definition del_timer :: "nat \<Rightarrow> sched \<Rightarrow> sched" where
  "del_timer t st =
     (if \<not> list_empty (TimerLink t) (timer_list st) then
        (let le = list_next (TimerLink t) (timer_list st);
             st = (if expires (timers st t) \<noteq> 0 \<and> le \<noteq> TimerList
                   then upd_timer (le2timer le) (\<lambda>x. x\<lparr>expires := w32 (expires x + expires (timers st t))\<rparr>) st
                   else st)
         in st\<lparr>timer_list := list_del_init (TimerLink t) (timer_list st)\<rparr>)
      else st)"

partial_function (option) timer_loop :: "nat \<Rightarrow> timer_le \<Rightarrow> sched \<Rightarrow> sched option" where
  "timer_loop t le st =
     (if expires (timers st t) = 0 then
        (let le = list_next le (timer_list st)
         in do { p \<leftarrow> tproc (timers st t);
                 kassert (wait_state (procs st p) = 0 \<or> and (wait_state (procs st p)) WT_INTERRUPTED \<noteq> 0);
                 st \<leftarrow> wakeup_proc p st;
                 let st = del_timer t st;
                 if le = TimerList then Some st else timer_loop (le2timer le) le st })
      else Some st)"

definition run_timer_list :: "sched \<Rightarrow> sched option" where
  "run_timer_list st =
     do { let le = list_next TimerList (timer_list st);
          st \<leftarrow> (if le \<noteq> TimerList then
                  (let t = le2timer le
                   in do { kassert (expires (timers st t) \<noteq> 0);
                           timer_loop t le (upd_timer t (\<lambda>x. x\<lparr>expires := expires x - 1\<rparr>) st) })
                else Some st);
          case current st of None \<Rightarrow> Some st | Some c \<Rightarrow> Some (sched_class_proc_tick c st) }"

section \<open>The ready queue holds the runnable processes\<close>

definition waiting_runnable :: "sched \<Rightarrow> nat set" where
  "waiting_runnable st =
     {p. pstate (procs st p) = PROC_RUNNABLE \<and> current st \<noteq> Some p \<and> p \<noteq> idleproc st}"

definition queue_inv :: "sched \<Rightarrow> bool" where
  "queue_inv st \<longleftrightarrow> ready_set st (waiting_runnable st)"

lemma ready_set_cong:
  "ready_set st A \<Longrightarrow> heap st' = heap st \<Longrightarrow> lab6_run_pool st' = lab6_run_pool st \<Longrightarrow>
   proc_num st' = proc_num st \<Longrightarrow> (\<And>p. on_rq (procs st' p) = on_rq (procs st p)) \<Longrightarrow> ready_set st' A"
  by (auto simp: ready_set_def ready_tree_def)

lemma stride_enqueue_frame:
  "stride_enqueue p st = Some st' \<Longrightarrow> pstate (procs st' q) = pstate (procs st q) \<and>
   wait_state (procs st' q) = wait_state (procs st q) \<and>
   current st' = current st \<and> idleproc st' = idleproc st \<and> timers st' = timers st \<and> timer_list st' = timer_list st"
  by (auto simp: stride_enqueue_def bind_Some_iff Let_def)

lemma stride_dequeue_frame:
  "stride_dequeue p st = Some st' \<Longrightarrow> procs st' = procs st \<and>
   current st' = current st \<and> idleproc st' = idleproc st"
  by (auto simp: stride_dequeue_def bind_Some_iff split: if_splits)

lemma stride_pick_frame:
  "stride_pick_next st = (r, st') \<Longrightarrow> pstate (procs st' q) = pstate (procs st q) \<and>
   current st' = current st \<and> idleproc st' = idleproc st"
  by (auto simp: stride_pick_next_def split: option.splits)

lemma wakeup_proc_inv:
  assumes q: "queue_inv st" and z: "pstate (procs st p) \<noteq> PROC_ZOMBIE"
    and room: "card (waiting_runnable st) < 2 ^ 31"
  shows "\<exists>st'. wakeup_proc p st = Some st' \<and> queue_inv st' \<and> pstate (procs st' p) = PROC_RUNNABLE \<and>
    (\<forall>x. x \<noteq> p \<longrightarrow> pstate (procs st' x) = pstate (procs st x) \<and> wait_state (procs st' x) = wait_state (procs st x)) \<and>
    (pstate (procs st p) \<noteq> PROC_RUNNABLE \<longrightarrow> wait_state (procs st' p) = 0) \<and>
    (pstate (procs st p) = PROC_RUNNABLE \<longrightarrow> st' = st) \<and>
    current st' = current st \<and> timers st' = timers st \<and> timer_list st' = timer_list st"
proof (cases "pstate (procs st p) = PROC_RUNNABLE")
  case True
  with q z show ?thesis by (simp add: wakeup_proc_def)
next
  case False
  let ?st = "upd_proc p (\<lambda>q. q\<lparr>wait_state := 0\<rparr>) (upd_proc p (\<lambda>q. q\<lparr>pstate := PROC_RUNNABLE\<rparr>) st)"
  have r: "ready_set ?st (waiting_runnable st)"
    by (rule ready_set_cong [OF q [unfolded queue_inv_def]]) auto
  show ?thesis
  proof (cases "current st = Some p \<or> p = idleproc st")
    case True
    then have "waiting_runnable ?st = waiting_runnable st"
      by (auto simp: waiting_runnable_def)
    with r True False z show ?thesis
      by (auto simp: wakeup_proc_def Let_def queue_inv_def sched_class_enqueue_def)
  next
    case other: False
    then have w: "waiting_runnable ?st = insert p (waiting_runnable st)"
      by (auto simp: waiting_runnable_def)
    have "p \<notin> waiting_runnable st" using False by (simp add: waiting_runnable_def)
    from stride.enq_ok [OF r this room] obtain st' where e: "stride_enqueue p ?st = Some st'"
      "ready_set st' (waiting_runnable ?st)" by (auto simp: w)
    have "waiting_runnable st' = waiting_runnable ?st"
      using stride_enqueue_frame [OF e(1)] by (simp add: waiting_runnable_def)
    with e other False z stride_enqueue_frame [OF e(1)] show ?thesis
      by (auto simp: wakeup_proc_def Let_def queue_inv_def sched_class_enqueue_def)
  qed
qed

lemma schedule_inv:
  assumes q: "queue_inv st" and c: "current st = Some c" and room: "card (waiting_runnable st) < 2 ^ 31"
  shows "\<exists>st' n. schedule st = Some st' \<and> queue_inv st' \<and> current st' = Some n \<and>
    (if waiting_runnable st = {} \<and> (pstate (procs st c) \<noteq> PROC_RUNNABLE \<or> c = idleproc st)
     then n = idleproc st
     else pstate (procs st n) = PROC_RUNNABLE \<and> n \<noteq> idleproc st) \<and>
    (\<forall>p. pstate (procs st' p) = pstate (procs st p)) \<and> idleproc st' = idleproc st"
proof -
  let ?A = "waiting_runnable st"
  let ?B = "if pstate (procs st c) = PROC_RUNNABLE \<and> c \<noteq> idleproc st then insert c ?A else ?A"
  let ?st = "upd_proc c (\<lambda>q. q\<lparr>need_resched := False\<rparr>) st"
  have r: "ready_set ?st ?A"
    by (rule ready_set_cong [OF q [unfolded queue_inv_def]]) auto
  have cA: "c \<notin> ?A" using c by (simp add: waiting_runnable_def)
  obtain st1 where s1: "(if pstate (procs ?st c) = PROC_RUNNABLE then sched_class_enqueue c ?st else Some ?st) = Some st1"
    "ready_set st1 ?B" "\<forall>p. pstate (procs st1 p) = pstate (procs st p)"
    "current st1 = Some c" "idleproc st1 = idleproc st"
  proof (cases "pstate (procs st c) = PROC_RUNNABLE \<and> c \<noteq> idleproc st")
    case True
    from stride.enq_ok [OF r cA room] obtain st1 where e: "stride_enqueue c ?st = Some st1"
      "ready_set st1 (insert c ?A)" by auto
    from stride_enqueue_frame [OF e(1)] e True c show ?thesis
      by (intro that [of st1]) (auto simp: sched_class_enqueue_def)
  next
    case False
    with r c show ?thesis by (intro that [of ?st]) (auto simp: sched_class_enqueue_def)
  qed
  have fin: "waiting_runnable st' = ?B - {n}"
    if "\<forall>p. pstate (procs st' p) = pstate (procs st p)" "idleproc st' = idleproc st"
      "current st' = Some n" "n = idleproc st \<longrightarrow> ?B = {}" for st' n
    using that c by (auto simp: waiting_runnable_def split: if_splits)
  show ?thesis
  proof (cases "?B = {}")
    case True
    then have p: "stride_pick_next st1 = (None, st1)"
      using stride.pick_empty [of st1] s1(2) by simp
    let ?n = "idleproc st"
    let ?st' = "upd_proc ?n (\<lambda>q. q\<lparr>runs := runs q + 1\<rparr>) st1"
    let ?st2 = "if c \<noteq> ?n then proc_run ?n ?st' else ?st'"
    have sch: "schedule st = Some ?st2"
      using c s1 p by (simp add: schedule_def sched_class_pick_next_def Let_def)
    have cur: "current ?st2 = Some ?n" "\<forall>p. pstate (procs ?st2 p) = pstate (procs st p)" "idleproc ?st2 = idleproc st"
      using s1 by (auto simp: proc_run_def)
    have "ready_set ?st2 ?B"
      by (rule ready_set_cong [OF s1(2)]) (auto simp: proc_run_def)
    with True have "queue_inv ?st2"
      using fin [OF cur(2,3,1)] by (simp add: queue_inv_def)
    moreover have "?A = {} \<and> (pstate (procs st c) \<noteq> PROC_RUNNABLE \<or> c = idleproc st)"
      using True by (auto split: if_splits)
    ultimately show ?thesis
      using sch cur by (intro exI [of _ ?st2] exI [of _ ?n]) simp
  next
    case False
    from stride.pick_some [OF s1(2) this] obtain n st2 where p: "stride_pick_next st1 = (Some n, st2)"
      "n \<in> ?B" "ready_set st2 ?B" by auto
    from stride.deq_ok [OF p(3,2)] obtain st3 where d: "stride_dequeue n st2 = Some st3"
      "ready_set st3 (?B - {n})" by auto
    note f2 = stride_pick_frame [OF p(1)] and f3 = stride_dequeue_frame [OF d(1)]
    let ?st' = "upd_proc n (\<lambda>q. q\<lparr>runs := runs q + 1\<rparr>) st3"
    let ?st2 = "if c \<noteq> n then proc_run n ?st' else ?st'"
    have sch: "schedule st = Some ?st2"
      using c s1 p d f2 f3
      by (simp add: schedule_def sched_class_pick_next_def sched_class_dequeue_def Let_def)
    have cur: "current ?st2 = Some n" "\<forall>p. pstate (procs ?st2 p) = pstate (procs st p)" "idleproc ?st2 = idleproc st"
      using s1 f2 f3 by (auto simp: proc_run_def)
    have n: "pstate (procs st n) = PROC_RUNNABLE" "n \<noteq> idleproc st"
      using p(2) by (auto simp: waiting_runnable_def split: if_splits)
    have "ready_set ?st2 (?B - {n})"
      by (rule ready_set_cong [OF d(2)]) (auto simp: proc_run_def)
    then have "queue_inv ?st2"
      using fin [OF cur(2,3,1)] n by (simp add: queue_inv_def)
    moreover have "\<not> (?A = {} \<and> (pstate (procs st c) \<noteq> PROC_RUNNABLE \<or> c = idleproc st))"
      using False by (auto split: if_splits)
    ultimately show ?thesis
      using sch cur n by (intro exI [of _ ?st2] exI [of _ n]) (simp only: if_False simp_thms)
  qed
qed

text \<open>What reads none of the fields the scheduler writes is kept by it.\<close>

definition sched_blind :: "(proc_struct \<Rightarrow> 'v) \<Rightarrow> bool" where
  "sched_blind f \<longleftrightarrow> (\<forall>q b. f (q\<lparr>need_resched := b\<rparr>) = f q) \<and> (\<forall>q v. f (q\<lparr>time_slice := v\<rparr>) = f q) \<and>
     (\<forall>q b. f (q\<lparr>on_rq := b\<rparr>) = f q) \<and> (\<forall>q v. f (q\<lparr>lab6_stride := v\<rparr>) = f q) \<and> (\<forall>q v. f (q\<lparr>runs := v\<rparr>) = f q)"

lemma stride_enqueue_keeps: "sched_blind f \<Longrightarrow> stride_enqueue p st = Some st' \<Longrightarrow> f (procs st' x) = f (procs st x)"
  by (auto simp: stride_enqueue_def sched_blind_def bind_Some_iff Let_def)

lemma stride_pick_keeps: "sched_blind f \<Longrightarrow> stride_pick_next st = (r, st') \<Longrightarrow> f (procs st' x) = f (procs st x)"
  by (auto simp: stride_pick_next_def sched_blind_def split: option.splits)

lemma schedule_keeps:
  assumes b: "sched_blind f" and "schedule st = Some st'"
  shows "f (procs st' x) = f (procs st x)"
proof -
  obtain c where c: "current st = Some c" using assms by (auto simp: schedule_def bind_Some_iff)
  let ?st = "upd_proc c (\<lambda>q. q\<lparr>need_resched := False\<rparr>) st"
  obtain st1 where s1: "(if pstate (procs ?st c) = PROC_RUNNABLE then sched_class_enqueue c ?st else Some ?st) = Some st1"
    using assms c by (auto simp: schedule_def bind_Some_iff Let_def)
  obtain r st2 where p: "stride_pick_next st1 = (r, st2)" by (cases "stride_pick_next st1")
  have "f (procs ?st x) = f (procs st x)" using b by (simp add: sched_blind_def)
  then have w1: "f (procs st1 x) = f (procs st x)"
    using s1 stride_enqueue_keeps [OF b, of c ?st st1 x] by (auto simp: sched_class_enqueue_def split: if_splits)
  have w2: "f (procs st2 x) = f (procs st1 x)"
    by (rule stride_pick_keeps [OF b p])
  obtain st3 where d: "(case r of Some n \<Rightarrow> sched_class_dequeue n st2 | None \<Rightarrow> Some st2) = Some st3"
    and e: "procs st' x = procs st3 x \<or> (\<exists>q. procs st' x = (procs st3 x)\<lparr>runs := q\<rparr>)"
  proof (cases "case r of Some n \<Rightarrow> sched_class_dequeue n st2 | None \<Rightarrow> Some st2")
    case None
    with assms c s1 p show ?thesis by (simp add: schedule_def sched_class_pick_next_def Let_def)
  next
    case (Some st3)
    with assms c s1 p show ?thesis
      by (intro that [OF Some]) (auto simp: schedule_def sched_class_pick_next_def Let_def proc_run_def split: if_splits)
  qed
  have "procs st3 = procs st2"
    using d by (auto simp: sched_class_dequeue_def dest: stride_dequeue_frame split: option.splits)
  with e w1 w2 b show ?thesis by (auto simp: sched_blind_def)
qed

lemma schedule_wait_state: "schedule st = Some st' \<Longrightarrow> wait_state (procs st' x) = wait_state (procs st x)"
  by (rule schedule_keeps [of wait_state]) (simp add: sched_blind_def)

section \<open>The timer list\<close>

definition timer_ring :: "sched \<Rightarrow> nat list \<Rightarrow> bool" where
  "timer_ring st ts \<longleftrightarrow> ring (timer_list st) TimerList (map TimerLink ts)"

text \<open>The ticks until each timer of the list expires, from the differences it stores.\<close>

primrec due :: "(nat \<Rightarrow> nat) \<Rightarrow> nat \<Rightarrow> nat list \<Rightarrow> (nat \<times> nat) list" where
  "due e acc [] = []"
| "due e acc (t # ts) = (t, acc + e t) # due e (acc + e t) ts"

definition dues :: "sched \<Rightarrow> nat list \<Rightarrow> (nat \<times> nat) list" where
  "dues st ts = due (\<lambda>t. expires (timers st t)) 0 ts"

definition insert_due :: "nat \<times> nat \<Rightarrow> (nat \<times> nat) list \<Rightarrow> (nat \<times> nat) list" where
  "insert_due d ds = takeWhile (\<lambda>x. snd x \<le> snd d) ds @ d # dropWhile (\<lambda>x. snd x \<le> snd d) ds"

lemma due_cong: "(\<And>t. t \<in> set ts \<Longrightarrow> e' t = e t) \<Longrightarrow> due e' acc ts = due e acc ts"
  by (induction ts arbitrary: acc) auto

lemma due_append: "due e acc (us @ ts) = due e acc us @ due e (acc + sum_list (map e us)) ts"
  by (induction us arbitrary: acc) (auto simp: add.assoc)

lemma due_ge: "x \<in> set (due e acc ts) \<Longrightarrow> acc \<le> snd x"
proof (induction ts arbitrary: acc)
  case Nil
  then show ?case by simp
next
  case (Cons t ts)
  then show ?case by (fastforce dest: add_leD1)
qed

lemma timer_ring_distinct: "timer_ring st ts \<Longrightarrow> distinct ts"
  unfolding timer_ring_def using ring_distinct [of "timer_list st" TimerList "map TimerLink ts"]
  by (simp only: distinct.simps distinct_map)

lemma upd_timer_simps [simp]:
  "timers (upd_timer t f st) = (timers st)(t := f (timers st t))"
  "timer_list (upd_timer t f st) = timer_list st"
  "procs (upd_timer t f st) = procs st"
  by (simp_all add: upd_timer_def)

text \<open>
  The walk of \<^verbatim>\<open>add_timer\<close> from the rest \<^verbatim>\<open>ts\<close> of the list on: the rest is split
  into the timers that expire no later, whose differences are taken off the new one, and
  the others, the first of which loses what is left of it.
\<close>

lemma timer_walk_split:
  assumes "timer_ring st (us @ ts)" "t \<notin> set (us @ ts)"
  shows "\<exists>vs ws st'. ts = vs @ ws \<and>
    timer_walk t (list_next (last (TimerList # map TimerLink us)) (timer_list st)) st =
      Some (hd (map TimerLink ws @ [TimerList]), st') \<and> timer_list st' = timer_list st \<and>
    due (\<lambda>t. expires (timers st' t)) acc (vs @ t # ws) =
      insert_due (t, acc + expires (timers st t)) (due (\<lambda>t. expires (timers st t)) acc ts) \<and>
    (\<forall>u \<in> set us. timers st' u = timers st u)"
  using assms
proof (induction ts arbitrary: us st acc)
  case Nil
  have "list_next (last (TimerList # map TimerLink us)) (timer_list st) = TimerList"
    using ring_next_last [of "timer_list st" TimerList "map TimerLink us" "[]"] Nil.prems
    by (simp add: timer_ring_def list_next_def)
  then show ?case
    by (subst timer_walk.simps) (auto simp: insert_due_def)
next
  case (Cons n ts)
  let ?e = "\<lambda>t. expires (timers st t)"
  have next_n: "list_next (last (TimerList # map TimerLink us)) (timer_list st) = TimerLink n"
    using ring_next_last [of "timer_list st" TimerList "map TimerLink us" "map TimerLink (n # ts)"] Cons.prems
    by (simp add: timer_ring_def list_next_def)
  have dist: "distinct (us @ n # ts)"
    by (rule timer_ring_distinct [OF Cons.prems(1)])
  show ?case
  proof (cases "?e t < ?e n")
    case True
    let ?st = "upd_timer n (\<lambda>x. x\<lparr>expires := expires x - ?e t\<rparr>) st"
    have "due (\<lambda>t. expires (timers ?st t)) a ts = due ?e a ts" for a
      using dist by (intro due_cong) auto
    then have "due (\<lambda>t. expires (timers ?st t)) acc (t # n # ts) =
        insert_due (t, acc + ?e t) (due ?e acc (n # ts))"
      using True Cons.prems(2) by (auto simp: insert_due_def)
    then show ?thesis
      using True next_n dist
      by (intro exI [of _ "[]"] exI [of _ "n # ts"] exI [of _ ?st], subst timer_walk.simps) (auto simp: Let_def)
  next
    case False
    let ?st = "upd_timer t (\<lambda>x. x\<lparr>expires := expires x - ?e n\<rparr>) st"
    have r: "timer_ring ?st ((us @ [n]) @ ts)" "t \<notin> set ((us @ [n]) @ ts)"
      using Cons.prems by (auto simp: timer_ring_def)
    from Cons.IH [OF r, of "acc + ?e n"] obtain vs ws st' where w: "ts = vs @ ws"
      "timer_walk t (list_next (TimerLink n) (timer_list st)) ?st = Some (hd (map TimerLink ws @ [TimerList]), st')"
      "timer_list st' = timer_list st"
      "due (\<lambda>t. expires (timers st' t)) (acc + ?e n) (vs @ t # ws) =
        insert_due (t, acc + ?e n + (?e t - ?e n)) (due (\<lambda>t. expires (timers ?st t)) (acc + ?e n) ts)"
      "\<forall>u \<in> set (us @ [n]). timers st' u = timers ?st u"
      by auto
    have "due (\<lambda>t. expires (timers ?st t)) (acc + ?e n) ts = due ?e (acc + ?e n) ts"
      using Cons.prems(2) by (intro due_cong) auto
    moreover have "timers st' n = timers st n" using w(5) Cons.prems(2) by auto
    ultimately have "due (\<lambda>t. expires (timers st' t)) acc ((n # vs) @ t # ws) =
        insert_due (t, acc + ?e t) (due ?e acc (n # ts))"
      using w(4) False by (simp add: insert_due_def)
    moreover have "\<forall>u \<in> set us. timers st' u = timers st u"
      using w(5) Cons.prems(2) by auto
    ultimately show ?thesis
      using w False next_n
      by (intro exI [of _ "n # vs"] exI [of _ ws] exI [of _ st'], subst timer_walk.simps) (simp add: Let_def)
  qed
qed

lemma add_timer_dues:
  assumes r: "timer_ring st ts" and t: "t \<notin> set ts" "list_empty (TimerLink t) (timer_list st)"
    and e: "expires (timers st t) > 0" "tproc (timers st t) \<noteq> None"
  shows "\<exists>st' ts'. add_timer t st = Some st' \<and> timer_ring st' ts' \<and>
    dues st' ts' = insert_due (t, expires (timers st t)) (dues st ts)"
proof -
  from timer_walk_split [of st "[]" ts t 0] r t(1) obtain vs ws st' where w: "ts = vs @ ws"
    "timer_walk t (list_next TimerList (timer_list st)) st = Some (hd (map TimerLink ws @ [TimerList]), st')"
    "timer_list st' = timer_list st"
    "due (\<lambda>t. expires (timers st' t)) 0 (vs @ t # ws) =
      insert_due (t, expires (timers st t)) (due (\<lambda>t. expires (timers st t)) 0 ts)"
    by auto
  let ?st = "st'\<lparr>timer_list := list_add_before (hd (map TimerLink ws @ [TimerList])) (TimerLink t) (timer_list st')\<rparr>"
  have "timer_ring ?st (vs @ t # ws)"
  proof (cases ws)
    case Nil
    have "ring (list_add_before TimerList (TimerLink t) (timer_list st)) TimerList (map TimerLink vs @ [TimerLink t])"
      by (rule ring_add_tail) (use r t(1) w(1) Nil in \<open>auto simp: timer_ring_def\<close>)
    with Nil w(3) show ?thesis by (simp add: timer_ring_def)
  next
    case (Cons x xs)
    have "ring (list_add_before (TimerLink x) (TimerLink t) (timer_list st)) TimerList
        (map TimerLink vs @ TimerLink t # TimerLink x # map TimerLink xs)"
      by (rule ring_add_before) (use r t(1) w(1) Cons in \<open>auto simp: timer_ring_def\<close>)
    with Cons w(3) show ?thesis by (simp add: timer_ring_def)
  qed
  moreover have "add_timer t st = Some ?st"
    using w t e by (simp add: add_timer_def)
  ultimately show ?thesis
    using w(4) by (auto simp: dues_def)
qed

lemma del_timer_dues:
  assumes r: "timer_ring st (us @ t # ts)" and b: "\<forall>(u, x) \<in> set (dues st (us @ t # ts)). x < 2 ^ 32"
  shows "timer_ring (del_timer t st) (us @ ts) \<and> list_empty (TimerLink t) (timer_list (del_timer t st)) \<and>
    dues (del_timer t st) (us @ ts) = filter (\<lambda>(u, x). u \<noteq> t) (dues st (us @ t # ts))"
proof -
  let ?e = "\<lambda>t. expires (timers st t)" and ?st = "del_timer t st"
  have d: "distinct (us @ t # ts)" by (rule timer_ring_distinct [OF r])
  have rg: "ring (timer_list st) TimerList (map TimerLink us @ TimerLink t # map TimerLink ts)"
    using r by (simp add: timer_ring_def)
  have nx: "nxt (timer_list st) (TimerLink t) = hd (map TimerLink ts @ [TimerList])"
    using ring_next_mid [OF rg] .
  have ne: "\<not> list_empty (TimerLink t) (timer_list st)"
    using nx d by (cases ts) (auto simp: list_empty_def)
  have tl: "timer_list ?st = list_del_init (TimerLink t) (timer_list st)"
    using ne by (simp add: del_timer_def Let_def)
  have ring': "timer_ring ?st (us @ ts)" "list_empty (TimerLink t) (timer_list ?st)"
    using ring_del_init [OF rg] tl ring_empty_iff [of "timer_list ?st" "TimerLink t" "[]"]
    by (simp_all add: timer_ring_def)
  let ?acc = "sum_list (map ?e us)"
  have fu: "filter (\<lambda>(u, x). u \<noteq> t) (due ?e a xs) = due ?e a xs" if "t \<notin> set xs" for a xs
    using that by (induction xs arbitrary: a) auto
  have flt: "filter (\<lambda>(u, x). u \<noteq> t) (dues st (us @ t # ts)) = due ?e 0 us @ due ?e (?acc + ?e t) ts"
    using d by (simp add: dues_def due_append fu)
  have ex: "expires (timers ?st u) = (if ts \<noteq> [] \<and> u = hd ts then ?e u + ?e t else ?e u)" for u
  proof (cases ts)
    case Nil
    with nx ne show ?thesis by (simp add: del_timer_def list_next_def Let_def)
  next
    case (Cons n ns)
    have "(n, ?acc + ?e t + ?e n) \<in> set (dues st (us @ t # ts))"
      by (simp add: dues_def due_append Cons)
    then have "?acc + ?e t + ?e n < 2 ^ 32" using b by auto
    then have "w32 (?e n + ?e t) = ?e n + ?e t" by simp
    with Cons nx ne show ?thesis
      by (cases "?e t = 0") (simp_all add: del_timer_def list_next_def Let_def)
  qed
  have us: "due (\<lambda>t. expires (timers ?st t)) 0 us = due ?e 0 us"
    using d by (intro due_cong) (auto simp: ex)
  have us': "sum_list (map (\<lambda>t. expires (timers ?st t)) us) = ?acc"
    using d by (intro arg_cong [where f = sum_list] map_cong) (auto simp: ex)
  have "due (\<lambda>t. expires (timers ?st t)) ?acc ts = due ?e (?acc + ?e t) ts"
  proof (cases ts)
    case Nil
    then show ?thesis by simp
  next
    case (Cons n ns)
    have "due (\<lambda>t. expires (timers ?st t)) a ns = due ?e a ns" for a
      using d Cons by (intro due_cong) (auto simp: ex)
    with Cons show ?thesis by (simp add: ex add.commute add.left_commute)
  qed
  with us us' flt ring' show ?thesis by (simp add: dues_def due_append)
qed

section \<open>A tick of the timers\<close>

definition can_wake :: "sched \<Rightarrow> nat \<Rightarrow> bool" where
  "can_wake st p \<longleftrightarrow> pstate (procs st p) \<noteq> PROC_ZOMBIE \<and>
     (wait_state (procs st p) = 0 \<or> and (wait_state (procs st p)) WT_INTERRUPTED \<noteq> 0)"

definition timers_ok :: "sched \<Rightarrow> nat list \<Rightarrow> bool" where
  "timers_ok st ts \<longleftrightarrow> (\<forall>t \<in> set ts. \<exists>p. tproc (timers st t) = Some p \<and> can_wake st p)"

definition timer_procs :: "sched \<Rightarrow> nat list \<Rightarrow> nat set" where
  "timer_procs st ts = (\<lambda>t. the (tproc (timers st t))) ` set ts"

definition few_runnable :: "sched \<Rightarrow> nat list \<Rightarrow> bool" where
  "few_runnable st ts \<longleftrightarrow> (\<exists>N. finite N \<and> card N < 2 ^ 31 \<and> timer_procs st ts \<subseteq> N \<and>
     {p. pstate (procs st p) = PROC_RUNNABLE} \<subseteq> N)"

lemma few_runnable_card: "few_runnable st ts \<Longrightarrow> card (waiting_runnable st) < 2 ^ 31"
proof -
  assume "few_runnable st ts"
  then obtain N where N: "{p. pstate (procs st p) = PROC_RUNNABLE} \<subseteq> N" "finite N" "card N < 2 ^ 31"
    by (auto simp: few_runnable_def)
  then have "waiting_runnable st \<subseteq> N" by (auto simp: waiting_runnable_def)
  with N show ?thesis using card_mono order_le_less_trans by blast
qed

lemma del_expired:
  assumes r: "timer_ring st (t # ts)" and z: "expires (timers st t) = 0"
  shows "timer_ring (del_timer t st) ts" "timers (del_timer t st) = timers st"
    "procs (del_timer t st) = procs st" "current (del_timer t st) = current st"
    "idleproc (del_timer t st) = idleproc st" "queue_inv (del_timer t st) = queue_inv st"
proof -
  have rg: "ring (timer_list st) TimerList ([] @ TimerLink t # map TimerLink ts)"
    using r by (simp add: timer_ring_def)
  have "\<not> list_empty (TimerLink t) (timer_list st)"
    using ring_next_mid [OF rg] timer_ring_distinct [OF r] by (cases ts) (auto simp: list_empty_def)
  then have eq: "del_timer t st = st\<lparr>timer_list := list_del_init (TimerLink t) (timer_list st)\<rparr>"
    using z by (simp add: del_timer_def Let_def)
  show "timer_ring (del_timer t st) ts"
    using ring_del_init(1) [OF rg] by (simp add: eq timer_ring_def)
  show "timers (del_timer t st) = timers st" "procs (del_timer t st) = procs st"
    "current (del_timer t st) = current st" "idleproc (del_timer t st) = idleproc st"
    by (simp_all add: eq)
  show "queue_inv (del_timer t st) = queue_inv st"
    by (simp add: eq queue_inv_def ready_set_def ready_tree_def waiting_runnable_def)
qed

definition woken :: "sched \<Rightarrow> sched \<Rightarrow> nat set \<Rightarrow> bool" where
  "woken st st' W \<longleftrightarrow> (\<forall>p \<in> W. pstate (procs st' p) = PROC_RUNNABLE) \<and>
     (\<forall>p. p \<notin> W \<longrightarrow> pstate (procs st' p) = pstate (procs st p) \<and> wait_state (procs st' p) = wait_state (procs st p))"

lemma wake_expired:
  assumes "timer_ring st (t # ts)" "timers_ok st (t # ts)" "queue_inv st" "few_runnable st (t # ts)"
    and z: "expires (timers st t) = 0" and p: "tproc (timers st t) = Some p"
  shows "\<exists>st1. wakeup_proc p st = Some st1 \<and>
    (let st2 = del_timer t st1 in timer_ring st2 ts \<and> timers_ok st2 ts \<and> queue_inv st2 \<and>
      few_runnable st2 ts \<and> timers st2 = timers st \<and> current st2 = current st \<and>
      pstate (procs st2 p) = PROC_RUNNABLE \<and>
      (\<forall>x. x \<noteq> p \<longrightarrow> pstate (procs st2 x) = pstate (procs st x) \<and> wait_state (procs st2 x) = wait_state (procs st x)))"
proof -
  have cw: "can_wake st p" using assms(2) p by (auto simp: timers_ok_def)
  then have "pstate (procs st p) \<noteq> PROC_ZOMBIE" by (simp add: can_wake_def)
  from wakeup_proc_inv [OF assms(3) this few_runnable_card [OF assms(4)]] obtain st1 where
    w: "wakeup_proc p st = Some st1" "queue_inv st1" "pstate (procs st1 p) = PROC_RUNNABLE"
      "\<forall>x. x \<noteq> p \<longrightarrow> pstate (procs st1 x) = pstate (procs st x) \<and> wait_state (procs st1 x) = wait_state (procs st x)"
      "pstate (procs st p) \<noteq> PROC_RUNNABLE \<longrightarrow> wait_state (procs st1 p) = 0"
      "pstate (procs st p) = PROC_RUNNABLE \<longrightarrow> st1 = st"
      "current st1 = current st" "timers st1 = timers st" "timer_list st1 = timer_list st"
    by blast
  have r1: "timer_ring st1 (t # ts)" "expires (timers st1 t) = 0"
    using assms(1) z w by (simp_all add: timer_ring_def)
  note d = del_expired [OF r1]
  let ?st2 = "del_timer t st1"
  have cw2: "can_wake ?st2 x" if "can_wake st x" for x
  proof -
    have "can_wake st1 x"
      using that w(3-6) cw by (cases "x = p"; cases "pstate (procs st p) = PROC_RUNNABLE") (auto simp: can_wake_def)
    then show ?thesis by (simp add: can_wake_def d)
  qed
  have "timers_ok ?st2 ts"
    using assms(2) cw2 w(8) by (fastforce simp: timers_ok_def d)
  moreover have "few_runnable ?st2 ts"
  proof -
    obtain N where N: "finite N" "card N < 2 ^ 31" "timer_procs st (t # ts) \<subseteq> N"
      "{p. pstate (procs st p) = PROC_RUNNABLE} \<subseteq> N" using assms(4) by (auto simp: few_runnable_def)
    have "p \<in> N" "timer_procs ?st2 ts \<subseteq> N" using N(3) p w(8) by (auto simp: timer_procs_def d)
    moreover have "{p. pstate (procs ?st2 p) = PROC_RUNNABLE} \<subseteq> insert p {p. pstate (procs st p) = PROC_RUNNABLE}"
      using w(4) by (auto simp: d)
    ultimately show ?thesis
      using N unfolding few_runnable_def by blast
  qed
  ultimately show ?thesis using w d by (auto simp: Let_def)
qed

lemma timer_loop_wakes:
  assumes "timer_ring st (t # ts)" "timers_ok st (t # ts)" "queue_inv st" "few_runnable st (t # ts)"
  shows "\<exists>st'. timer_loop t (TimerLink t) st = Some st' \<and> queue_inv st' \<and>
    timer_ring st' (dropWhile (\<lambda>t. expires (timers st t) = 0) (t # ts)) \<and> timers st' = timers st \<and>
    woken st st' (timer_procs st (takeWhile (\<lambda>t. expires (timers st t) = 0) (t # ts))) \<and>
    current st' = current st"
  using assms
proof (induction ts arbitrary: t st)
  case Nil
  show ?case
  proof (cases "expires (timers st t) = 0")
    case False
    with Nil show ?thesis by (subst timer_loop.simps) (simp add: woken_def timer_procs_def)
  next
    case True
    have nx: "list_next (TimerLink t) (timer_list st) = TimerList"
      using Nil.prems(1) ring_next_mid [of "timer_list st" TimerList "[]" "TimerLink t" "[]"]
      by (simp add: timer_ring_def list_next_def)
    obtain p where p: "tproc (timers st t) = Some p" "can_wake st p"
      using Nil.prems(2) by (auto simp: timers_ok_def)
    from wake_expired [OF Nil.prems True p(1)] obtain st1 where
      "wakeup_proc p st = Some st1" "timer_ring (del_timer t st1) []" "queue_inv (del_timer t st1)"
      "timers (del_timer t st1) = timers st" "current (del_timer t st1) = current st"
      "pstate (procs (del_timer t st1) p) = PROC_RUNNABLE"
      "\<forall>x. x \<noteq> p \<longrightarrow> pstate (procs (del_timer t st1) x) = pstate (procs st x) \<and>
        wait_state (procs (del_timer t st1) x) = wait_state (procs st x)"
      by (auto simp: Let_def)
    with True nx p show ?thesis
      by (subst timer_loop.simps) (simp add: Let_def can_wake_def woken_def timer_procs_def)
  qed
next
  case (Cons n ts)
  show ?case
  proof (cases "expires (timers st t) = 0")
    case False
    with Cons show ?thesis by (subst timer_loop.simps) (simp add: woken_def timer_procs_def)
  next
    case True
    have nx: "list_next (TimerLink t) (timer_list st) = TimerLink n"
      using Cons.prems(1) ring_next_mid [of "timer_list st" TimerList "[]" "TimerLink t" "map TimerLink (n # ts)"]
      by (simp add: timer_ring_def list_next_def)
    obtain p where p: "tproc (timers st t) = Some p" "can_wake st p"
      using Cons.prems(2) by (auto simp: timers_ok_def)
    from wake_expired [OF Cons.prems True p(1)] obtain st1 where w: "wakeup_proc p st = Some st1"
      and d: "timer_ring (del_timer t st1) (n # ts)" "timers_ok (del_timer t st1) (n # ts)"
        "queue_inv (del_timer t st1)" "few_runnable (del_timer t st1) (n # ts)"
      and f: "timers (del_timer t st1) = timers st" "current (del_timer t st1) = current st"
        "pstate (procs (del_timer t st1) p) = PROC_RUNNABLE"
        "\<forall>x. x \<noteq> p \<longrightarrow> pstate (procs (del_timer t st1) x) = pstate (procs st x) \<and>
          wait_state (procs (del_timer t st1) x) = wait_state (procs st x)"
      by (auto simp: Let_def)
    let ?W = "\<lambda>ts. timer_procs st (takeWhile (\<lambda>t. expires (timers st t) = 0) ts)"
    from Cons.IH [OF d] obtain st' where l: "timer_loop n (TimerLink n) (del_timer t st1) = Some st'"
      "queue_inv st'" "timer_ring st' (dropWhile (\<lambda>t. expires (timers st t) = 0) (n # ts))"
      "timers st' = timers st" "woken (del_timer t st1) st' (?W (n # ts))" "current st' = current st"
      unfolding f timer_procs_def by blast
    have "?W (t # n # ts) = insert p (?W (n # ts))"
      using True p by (simp add: timer_procs_def)
    then have "woken st st' (?W (t # n # ts))"
      using l(5) f(3,4) unfolding woken_def by (metis insert_iff)
    moreover have "timer_loop t (TimerLink t) st = Some st'"
      using True nx p w l(1) by (subst timer_loop.simps) (simp add: Let_def can_wake_def)
    ultimately show ?thesis using l True by auto
  qed
qed

lemma proc_tick_frame:
  "timers (sched_class_proc_tick c st) = timers st" "timer_list (sched_class_proc_tick c st) = timer_list st"
  "pstate (procs (sched_class_proc_tick c st) p) = pstate (procs st p)"
  "wait_state (procs (sched_class_proc_tick c st) p) = wait_state (procs st p)"
  "current (sched_class_proc_tick c st) = current st"
  by (auto simp: sched_class_proc_tick_def stride_proc_tick_def Let_def)

lemma proc_tick_rq:
  "heap (sched_class_proc_tick c st) = heap st" "lab6_run_pool (sched_class_proc_tick c st) = lab6_run_pool st"
  "proc_num (sched_class_proc_tick c st) = proc_num st" "idleproc (sched_class_proc_tick c st) = idleproc st"
  "on_rq (procs (sched_class_proc_tick c st) p) = on_rq (procs st p)"
  by (auto simp: sched_class_proc_tick_def stride_proc_tick_def Let_def)

lemma proc_tick_queue: "queue_inv st \<Longrightarrow> queue_inv (sched_class_proc_tick c st)"
proof -
  assume "queue_inv st"
  then have "ready_set (sched_class_proc_tick c st) (waiting_runnable st)"
    unfolding queue_inv_def by (rule ready_set_cong) (rule proc_tick_rq)+
  then show ?thesis by (simp add: queue_inv_def waiting_runnable_def proc_tick_frame proc_tick_rq)
qed

lemma due_tick:
  assumes "0 < e t" "\<forall>x \<in> set ts. e' x = e x" "e' t = e t - 1" "t \<notin> set ts"
  shows "due e' 0 (t # ts) = map (\<lambda>(u, x). (u, x - 1)) (due e 0 (t # ts))"
proof -
  have s: "due e (acc - 1) ts = map (\<lambda>(u, x). (u, x - 1)) (due e acc ts)" if "0 < acc" for acc ts
    using that
  proof (induction ts arbitrary: acc)
    case Nil
    then show ?case by simp
  next
    case (Cons x ts)
    have "acc - 1 + e x = acc + e x - 1" using Cons.prems by simp
    with Cons.IH [of "acc + e x"] Cons.prems show ?case by simp
  qed
  have "due e' (e t - 1) ts = due e (e t - 1) ts" using assms by (intro due_cong) auto
  with assms s [of "e t" ts] show ?thesis by simp
qed

lemma due_drop_zero: "due e 0 (dropWhile (\<lambda>t. e t = 0) ts) = filter (\<lambda>(u, x). x \<noteq> 0) (due e 0 ts)"
proof (induction ts)
  case Nil
  then show ?case by simp
next
  case (Cons t ts)
  have "filter (\<lambda>(u, x). x \<noteq> 0) (due e acc us) = due e acc us" if "0 < acc" for acc us
    using that by (induction us arbitrary: acc) auto
  with Cons show ?case by auto
qed

lemma due_take_zero: "set (takeWhile (\<lambda>t. e t = 0) ts) = fst ` set (filter (\<lambda>(u, x). x = 0) (due e 0 ts))"
proof (induction ts)
  case Nil
  then show ?case by simp
next
  case (Cons t ts)
  have n: "filter (\<lambda>(u, x). x = 0) (due e acc us) = []" if "0 < acc" for acc us
    using that by (induction us arbitrary: acc) auto
  show ?case
  proof (cases "e t = 0")
    case True
    with Cons show ?thesis by auto
  next
    case False
    with n [of "e t" ts] show ?thesis by simp
  qed
qed

text \<open>
  A tick of a list none of whose timers is at 0: every rest is one less, the timers whose
  rest was one are gone from the list and their processes are runnable, and no other
  process has changed its state.
\<close>

lemma run_timer_list_tick:
  assumes r: "timer_ring st ts" and ok: "timers_ok st ts" "queue_inv st" "few_runnable st ts"
    and pos: "\<forall>(u, x) \<in> set (dues st ts). 0 < x"
  shows "\<exists>st' ts'. run_timer_list st = Some st' \<and> queue_inv st' \<and> timer_ring st' ts' \<and>
    dues st' ts' = filter (\<lambda>(u, x). x \<noteq> 0) (map (\<lambda>(u, x). (u, x - 1)) (dues st ts)) \<and>
    woken st st' ((\<lambda>t. the (tproc (timers st t))) ` fst ` set (filter (\<lambda>(u, x). x = 1) (dues st ts)))"
proof (cases ts)
  case Nil
  have nx: "list_next TimerList (timer_list st) = TimerList"
    using r ring_next [of "timer_list st" TimerList "[]"] Nil by (simp add: timer_ring_def list_next_def)
  let ?st' = "case current st of None \<Rightarrow> st | Some c \<Rightarrow> sched_class_proc_tick c st"
  have "run_timer_list st = Some ?st'"
    using nx by (simp add: run_timer_list_def split: option.splits)
  moreover have "queue_inv ?st'" "timer_ring ?st' []" "woken st ?st' {}"
    using ok r Nil by (auto simp: proc_tick_queue timer_ring_def proc_tick_frame woken_def split: option.splits)
  ultimately show ?thesis using Nil by (intro exI [of _ ?st'] exI [of _ "[]"]) (simp add: dues_def)
next
  case (Cons t us)
  have nx: "list_next TimerList (timer_list st) = TimerLink t"
    using r ring_next [of "timer_list st" TimerList "map TimerLink ts"] Cons
    by (simp add: timer_ring_def list_next_def)
  have pt: "0 < expires (timers st t)" using pos Cons by (simp add: dues_def)
  have d: "t \<notin> set us" using timer_ring_distinct [OF r] Cons by simp
  let ?st = "upd_timer t (\<lambda>x. x\<lparr>expires := expires x - 1\<rparr>) st"
  let ?e = "\<lambda>t. expires (timers ?st t)"
  have tp: "tproc (timers ?st u) = tproc (timers st u)" for u by simp
  have "timer_procs ?st (t # us) = timer_procs st (t # us)"
    by (simp only: timer_procs_def tp)
  then have "few_runnable ?st (t # us)"
    using ok(3) unfolding few_runnable_def Cons upd_timer_simps by simp
  moreover have "timer_ring ?st (t # us)" "timers_ok ?st (t # us)"
    using r ok Cons by (auto simp: timer_ring_def timers_ok_def can_wake_def)
  moreover have "queue_inv ?st"
    using ok(2) by (simp add: queue_inv_def ready_set_def ready_tree_def waiting_runnable_def upd_timer_def)
  ultimately obtain st1 where l: "timer_loop t (TimerLink t) ?st = Some st1" "queue_inv st1"
    "timer_ring st1 (dropWhile (\<lambda>t. ?e t = 0) (t # us))" "timers st1 = timers ?st"
    "woken ?st st1 (timer_procs ?st (takeWhile (\<lambda>t. ?e t = 0) (t # us)))" "current st1 = current ?st"
    using timer_loop_wakes by blast
  let ?st' = "case current st1 of None \<Rightarrow> st1 | Some c \<Rightarrow> sched_class_proc_tick c st1"
  have run: "run_timer_list st = Some ?st'"
    using nx pt l(1) by (simp add: run_timer_list_def Let_def split: option.splits)
  have dt: "due ?e 0 (t # us) = map (\<lambda>(u, x). (u, x - 1)) (dues st ts)"
    unfolding dues_def Cons by (rule due_tick) (use pt d in auto)
  have W: "timer_procs ?st (takeWhile (\<lambda>t. ?e t = 0) (t # us)) =
      (\<lambda>t. the (tproc (timers st t))) ` fst ` set (filter (\<lambda>(u, x). x = 1) (dues st ts))"
  proof -
    have "set (takeWhile (\<lambda>t. ?e t = 0) (t # us)) = fst ` set (filter (\<lambda>(u, x). x = 0) (map (\<lambda>(u, x). (u, x - 1)) (dues st ts)))"
      unfolding dt [symmetric] by (rule due_take_zero)
    also have "\<dots> = fst ` set (filter (\<lambda>(u, x). x = 1) (dues st ts))"
      using pos by force
    finally show ?thesis by (simp only: timer_procs_def tp)
  qed
  let ?ts' = "dropWhile (\<lambda>t. ?e t = 0) (t # us)"
  have fr: "timers ?st' = timers ?st" "timer_ring ?st' ?ts'" "queue_inv ?st'"
  proof -
    have "timers ?st' = timers st1" "timer_list ?st' = timer_list st1"
      by (cases "current st1"; simp add: proc_tick_frame)+
    with l(3,4) show "timers ?st' = timers ?st" "timer_ring ?st' ?ts'"
      unfolding timer_ring_def by (simp_all only:)
    show "queue_inv ?st'" using l(2) by (cases "current st1") (simp_all add: proc_tick_queue)
  qed
  have "woken st ?st' (timer_procs ?st (takeWhile (\<lambda>t. ?e t = 0) (t # us)))"
    using l(5) by (simp add: woken_def proc_tick_frame split: option.splits)
  moreover have "dues ?st' ?ts' = filter (\<lambda>(u, x). x \<noteq> 0) (map (\<lambda>(u, x). (u, x - 1)) (dues st ts))"
    unfolding dues_def [of ?st'] fr(1) dt [symmetric] by (rule due_drop_zero)
  ultimately show ?thesis
    using run fr W by (intro exI [of _ ?st'] exI [of _ ?ts']) simp
qed

section \<open>Properties\<close>

text \<open>C7: \<^verbatim>\<open>schedule\<close> and \<^verbatim>\<open>wakeup_proc\<close> keep the invariant that the ready queue
  holds exactly the runnable processes that are neither current nor the idle process.
  \<^verbatim>\<open>schedule\<close> switches to a runnable process when there is one besides the idle
  process, the current one included, and to the idle process otherwise.\<close>
theorem schedule_keeps_queue:
  assumes "queue_inv st" "current st = Some c" "card (waiting_runnable st) < 2 ^ 31"
  shows "(\<exists>st' n. schedule st = Some st' \<and> queue_inv st' \<and> current st' = Some n \<and>
      (if waiting_runnable st = {} \<and> (pstate (procs st c) \<noteq> PROC_RUNNABLE \<or> c = idleproc st)
       then n = idleproc st else pstate (procs st n) = PROC_RUNNABLE \<and> n \<noteq> idleproc st)) \<and>
    (\<forall>p. if pstate (procs st p) = PROC_ZOMBIE then wakeup_proc p st = None
      else \<exists>st'. wakeup_proc p st = Some st' \<and> queue_inv st' \<and> pstate (procs st' p) = PROC_RUNNABLE)"
proof
  show "\<exists>st' n. schedule st = Some st' \<and> queue_inv st' \<and> current st' = Some n \<and>
      (if waiting_runnable st = {} \<and> (pstate (procs st c) \<noteq> PROC_RUNNABLE \<or> c = idleproc st)
       then n = idleproc st else pstate (procs st n) = PROC_RUNNABLE \<and> n \<noteq> idleproc st)"
    using schedule_inv [OF assms] by metis
  show "\<forall>p. if pstate (procs st p) = PROC_ZOMBIE then wakeup_proc p st = None
      else \<exists>st'. wakeup_proc p st = Some st' \<and> queue_inv st' \<and> pstate (procs st' p) = PROC_RUNNABLE"
  proof
    fix p
    show "if pstate (procs st p) = PROC_ZOMBIE then wakeup_proc p st = None
      else \<exists>st'. wakeup_proc p st = Some st' \<and> queue_inv st' \<and> pstate (procs st' p) = PROC_RUNNABLE"
      using wakeup_proc_inv [OF assms(1) _ assms(3), of p] by (auto simp: wakeup_proc_def)
  qed
qed

text \<open>The call \<^verbatim>\<open>add_timer\<close> puts a timer into the list at its place: the ticks until the
  timers of the list expire, in list order, are the old ones with the new one inserted
  after those that are not later; \<^verbatim>\<open>del_timer\<close> takes one out and leaves the ticks of
  the others as they are.\<close>
theorem timers_keep_expiry:
  assumes "timer_ring st ts"
  shows "(t \<notin> set ts \<and> list_empty (TimerLink t) (timer_list st) \<and> expires (timers st t) > 0 \<and>
      tproc (timers st t) \<noteq> None \<longrightarrow>
      (\<exists>st' ts'. add_timer t st = Some st' \<and> timer_ring st' ts' \<and>
        dues st' ts' = insert_due (t, expires (timers st t)) (dues st ts))) \<and>
    (\<forall>us vs. ts = us @ t # vs \<and> (\<forall>(u, x) \<in> set (dues st ts). x < 2 ^ 32) \<longrightarrow>
      timer_ring (del_timer t st) (us @ vs) \<and>
      dues (del_timer t st) (us @ vs) = filter (\<lambda>(u, x). u \<noteq> t) (dues st ts))"
  using add_timer_dues [OF assms, of t] del_timer_dues [of st _ t _] assms by auto

text \<open>C8: a clock tick. Every timer has one tick less to go; the timers that had one left are
  off the list and their processes are runnable, no other process has changed its state,
  and the ready queue is right again.\<close>
theorem tick_wakes_expired:
  assumes "timer_ring st ts" "timers_ok st ts" "queue_inv st" "few_runnable st ts"
    and "\<forall>(u, x) \<in> set (dues st ts). 0 < x"
  shows "\<exists>st' ts'. run_timer_list st = Some st' \<and> queue_inv st' \<and> timer_ring st' ts' \<and>
    dues st' ts' = filter (\<lambda>(u, x). x \<noteq> 0) (map (\<lambda>(u, x). (u, x - 1)) (dues st ts)) \<and>
    woken st st' ((\<lambda>t. the (tproc (timers st t))) ` fst ` set (filter (\<lambda>(u, x). x = 1) (dues st ts)))"
  by (rule run_timer_list_tick [OF assms])

lemma two_ready_waiting: "waiting_runnable two_ready = {1, 2}"
  by (auto simp: waiting_runnable_def two_ready_def ready_proc_def)

lemma two_ready_inv: "queue_inv two_ready"
  unfolding queue_inv_def two_ready_waiting by (rule two_ready_set)

lemma two_ready_timer: "timer_ring two_ready [0]" "dues two_ready [0] = [(0, 3)]"
  "list_empty (TimerLink 4) (timer_list (timer_init 4 (Some 1) 2 two_ready))"
  by (simp_all add: timer_ring_def ring_def two_ready_def dues_def list_empty_def timer_init_def
      list_init_def Let_def upd_timer_def)

theorem schedule_keeps_queue_witness:
  "\<exists>st' n. schedule two_ready = Some st' \<and> queue_inv st' \<and> current st' = Some n \<and>
    pstate (procs two_ready n) = PROC_RUNNABLE \<and> n \<noteq> 0"
proof -
  have "current two_ready = Some 0" "idleproc two_ready = 0" by (simp_all add: two_ready_def)
  with schedule_keeps_queue [OF two_ready_inv this(1)] show ?thesis
    by (simp add: two_ready_waiting)
qed

theorem timers_keep_expiry_witness:
  "\<exists>st' ts'. add_timer 4 (timer_init 4 (Some 1) 2 two_ready) = Some st' \<and> timer_ring st' ts' \<and>
    dues st' ts' = [(4, 2), (0, 3)]"
proof -
  let ?st = "timer_init 4 (Some 1) 2 two_ready"
  have r: "timer_ring ?st [0]"
    by (simp add: timer_ring_def ring_def two_ready_def timer_init_def list_init_def Let_def upd_timer_def)
  have e: "expires (timers ?st 4) = 2" "tproc (timers ?st 4) \<noteq> None" "dues ?st [0] = [(0, 3)]"
    by (simp_all add: timer_init_def Let_def upd_timer_def two_ready_def dues_def)
  from timers_keep_expiry [OF r, of 4] e two_ready_timer(3) show ?thesis
    by (simp add: insert_due_def)
qed

theorem tick_wakes_expired_witness:
  "\<exists>st' ts'. run_timer_list two_ready = Some st' \<and> queue_inv st' \<and> timer_ring st' ts' \<and>
    dues st' ts' = [(0, 2)] \<and> woken two_ready st' {}"
proof -
  have f: "few_runnable two_ready [0]"
    unfolding few_runnable_def by (intro exI [of _ "{1, 2}"])
      (auto simp: two_ready_def ready_proc_def timer_procs_def)
  have k: "timers_ok two_ready [0]"
    by (simp add: timers_ok_def two_ready_def can_wake_def ready_proc_def)
  show ?thesis
    using tick_wakes_expired [OF two_ready_timer(1) k two_ready_inv f] two_ready_timer(2) by simp
qed

end
