(* ===== verification/WaitSem.thy ===== *)
theory WaitSem
  imports Sched
begin

text \<open>
  kern/sync/wait.c and kern/sync/sem.c: wait queues and semaphores. Queues, wait entries
  and semaphores are numbered; semaphore \<^verbatim>\<open>q\<close> owns queue \<^verbatim>\<open>q\<close>. A
  \<^verbatim>\<open>down\<close> that has to wait is two calls, up to the call of \<^verbatim>\<open>schedule\<close> and
  from its return on, as other processes run in between. \<^verbatim>\<open>wqs st Q\<close> says that the
  linked lists of all queues hold the entries \<^verbatim>\<open>Q\<close>.
\<close>

section \<open>Wait queues (kern/sync/wait.c)\<close>

datatype wait_le = WaitHead nat | WaitLink nat

fun le2wait :: "wait_le \<Rightarrow> nat" where
  "le2wait (WaitLink w) = w"

record wait =
  wproc :: "nat option"
  wakeup_flags :: "32 word"
  wait_queue :: "nat option"

record ksync =
  sch :: sched
  waits :: "nat \<Rightarrow> wait"
  wlinks :: "wait_le links"
  semval :: "nat \<Rightarrow> int"

definition upd_wait :: "nat \<Rightarrow> (wait \<Rightarrow> wait) \<Rightarrow> ksync \<Rightarrow> ksync" where
  "upd_wait w f st = st\<lparr>waits := (waits st)(w := f (waits st w))\<rparr>"

definition wait_init :: "nat \<Rightarrow> nat option \<Rightarrow> ksync \<Rightarrow> ksync" where
  "wait_init w p st =
     (let st = upd_wait w (\<lambda>x. x\<lparr>wproc := p\<rparr>) st;
          st = upd_wait w (\<lambda>x. x\<lparr>wakeup_flags := WT_INTERRUPTED\<rparr>) st
      in st\<lparr>wlinks := list_init (WaitLink w) (wlinks st)\<rparr>)"

definition wait_queue_init :: "nat \<Rightarrow> ksync \<Rightarrow> ksync" where
  "wait_queue_init q st = st\<lparr>wlinks := list_init (WaitHead q) (wlinks st)\<rparr>"

definition wait_queue_add :: "nat \<Rightarrow> nat \<Rightarrow> ksync \<Rightarrow> ksync option" where
  "wait_queue_add q w st =
     do { kassert (list_empty (WaitLink w) (wlinks st) \<and> wproc (waits st w) \<noteq> None);
          let st = upd_wait w (\<lambda>x. x\<lparr>wait_queue := Some q\<rparr>) st;
          Some (st\<lparr>wlinks := list_add_before (WaitHead q) (WaitLink w) (wlinks st)\<rparr>) }"

definition wait_queue_del :: "nat \<Rightarrow> nat \<Rightarrow> ksync \<Rightarrow> ksync option" where
  "wait_queue_del q w st =
     do { kassert (\<not> list_empty (WaitLink w) (wlinks st) \<and> wait_queue (waits st w) = Some q);
          Some (st\<lparr>wlinks := list_del_init (WaitLink w) (wlinks st)\<rparr>) }"

definition wait_queue_next :: "nat \<Rightarrow> nat \<Rightarrow> ksync \<Rightarrow> nat option option" where
  "wait_queue_next q w st =
     do { kassert (\<not> list_empty (WaitLink w) (wlinks st) \<and> wait_queue (waits st w) = Some q);
          let le = list_next (WaitLink w) (wlinks st);
          Some (if le \<noteq> WaitHead q then Some (le2wait le) else None) }"

definition wait_queue_prev :: "nat \<Rightarrow> nat \<Rightarrow> ksync \<Rightarrow> nat option option" where
  "wait_queue_prev q w st =
     do { kassert (\<not> list_empty (WaitLink w) (wlinks st) \<and> wait_queue (waits st w) = Some q);
          let le = list_prev (WaitLink w) (wlinks st);
          Some (if le \<noteq> WaitHead q then Some (le2wait le) else None) }"

definition wait_queue_first :: "nat \<Rightarrow> ksync \<Rightarrow> nat option" where
  "wait_queue_first q st =
     (let le = list_next (WaitHead q) (wlinks st)
      in if le \<noteq> WaitHead q then Some (le2wait le) else None)"

definition wait_queue_last :: "nat \<Rightarrow> ksync \<Rightarrow> nat option" where
  "wait_queue_last q st =
     (let le = list_prev (WaitHead q) (wlinks st)
      in if le \<noteq> WaitHead q then Some (le2wait le) else None)"

definition wait_queue_empty :: "nat \<Rightarrow> ksync \<Rightarrow> bool" where
  "wait_queue_empty q st = list_empty (WaitHead q) (wlinks st)"

definition wait_in_queue :: "nat \<Rightarrow> ksync \<Rightarrow> bool" where
  "wait_in_queue w st = (\<not> list_empty (WaitLink w) (wlinks st))"

definition wakeup_wait :: "nat \<Rightarrow> nat \<Rightarrow> 32 word \<Rightarrow> bool \<Rightarrow> ksync \<Rightarrow> ksync option" where
  "wakeup_wait q w fl del st =
     do { st \<leftarrow> (if del then wait_queue_del q w st else Some st);
          let st = upd_wait w (\<lambda>x. x\<lparr>wakeup_flags := fl\<rparr>) st;
          p \<leftarrow> wproc (waits st w);
          s \<leftarrow> wakeup_proc p (sch st);
          Some (st\<lparr>sch := s\<rparr>) }"

definition wakeup_first :: "nat \<Rightarrow> 32 word \<Rightarrow> bool \<Rightarrow> ksync \<Rightarrow> ksync option" where
  "wakeup_first q fl del st =
     (case wait_queue_first q st of None \<Rightarrow> Some st | Some w \<Rightarrow> wakeup_wait q w fl del st)"

partial_function (option) wakeup_del_loop :: "nat \<Rightarrow> nat \<Rightarrow> 32 word \<Rightarrow> ksync \<Rightarrow> ksync option" where
  "wakeup_del_loop q w fl st =
     do { st \<leftarrow> wakeup_wait q w fl True st;
          case wait_queue_first q st of None \<Rightarrow> Some st | Some w \<Rightarrow> wakeup_del_loop q w fl st }"

partial_function (option) wakeup_keep_loop :: "nat \<Rightarrow> nat \<Rightarrow> 32 word \<Rightarrow> ksync \<Rightarrow> ksync option" where
  "wakeup_keep_loop q w fl st =
     do { st \<leftarrow> wakeup_wait q w fl False st;
          r \<leftarrow> wait_queue_next q w st;
          case r of None \<Rightarrow> Some st | Some w \<Rightarrow> wakeup_keep_loop q w fl st }"

definition wakeup_queue :: "nat \<Rightarrow> 32 word \<Rightarrow> bool \<Rightarrow> ksync \<Rightarrow> ksync option" where
  "wakeup_queue q fl del st =
     (case wait_queue_first q st of
        None \<Rightarrow> Some st
      | Some w \<Rightarrow> if del then wakeup_del_loop q w fl st else wakeup_keep_loop q w fl st)"

definition wait_current_set :: "nat \<Rightarrow> nat \<Rightarrow> 32 word \<Rightarrow> ksync \<Rightarrow> ksync option" where
  "wait_current_set q w ws st =
     do { c \<leftarrow> current (sch st);
          let st = wait_init w (Some c) st;
          let st = st\<lparr>sch := upd_proc c (\<lambda>p. p\<lparr>pstate := PROC_SLEEPING\<rparr>) (sch st)\<rparr>;
          let st = st\<lparr>sch := upd_proc c (\<lambda>p. p\<lparr>wait_state := ws\<rparr>) (sch st)\<rparr>;
          wait_queue_add q w st }"

definition wait_current_del :: "nat \<Rightarrow> nat \<Rightarrow> ksync \<Rightarrow> ksync option" where
  "wait_current_del q w st = (if wait_in_queue w st then wait_queue_del q w st else Some st)"

section \<open>Semaphores (kern/sync/sem.c)\<close>

definition upd_sem :: "nat \<Rightarrow> (int \<Rightarrow> int) \<Rightarrow> ksync \<Rightarrow> ksync" where
  "upd_sem q f st = st\<lparr>semval := (semval st)(q := f (semval st q))\<rparr>"

definition sem_init :: "nat \<Rightarrow> int \<Rightarrow> ksync \<Rightarrow> ksync" where
  "sem_init q v st = wait_queue_init q (upd_sem q (\<lambda>_. v) st)"

definition up_ws :: "nat \<Rightarrow> 32 word \<Rightarrow> ksync \<Rightarrow> ksync option" where
  "up_ws q ws st =
     (case wait_queue_first q st of
        None \<Rightarrow> Some (upd_sem q (\<lambda>v. v + 1) st)
      | Some w \<Rightarrow>
         do { p \<leftarrow> wproc (waits st w);
              kassert (wait_state (procs (sch st) p) = ws);
              wakeup_wait q w ws True st })"

text \<open>
  \<^verbatim>\<open>down_begin\<close> is \<^verbatim>\<open>__down\<close> up to and including \<^verbatim>\<open>schedule\<close>; it
  yields the result when the value was positive and \<^verbatim>\<open>None\<close> inside otherwise.
  \<^verbatim>\<open>down_end\<close> is the rest, run when the process is current again.
\<close>

definition down_begin :: "nat \<Rightarrow> nat \<Rightarrow> 32 word \<Rightarrow> ksync \<Rightarrow> (32 word option \<times> ksync) option" where
  "down_begin q w ws st =
     (if semval st q > 0 then Some (Some 0, upd_sem q (\<lambda>v. v - 1) st)
      else do { st \<leftarrow> wait_current_set q w ws st;
                s \<leftarrow> schedule (sch st);
                Some (None, st\<lparr>sch := s\<rparr>) })"

definition down_end :: "nat \<Rightarrow> nat \<Rightarrow> 32 word \<Rightarrow> ksync \<Rightarrow> (32 word \<times> ksync) option" where
  "down_end q w ws st =
     do { st \<leftarrow> wait_current_del q w st;
          Some (if wakeup_flags (waits st w) \<noteq> ws then wakeup_flags (waits st w) else 0, st) }"

definition up :: "nat \<Rightarrow> ksync \<Rightarrow> ksync option" where
  "up q st = up_ws q WT_KSEM st"

definition down_finish :: "nat \<Rightarrow> nat \<Rightarrow> ksync \<Rightarrow> ksync option" where
  "down_finish q w st = do { (flags, st) \<leftarrow> down_end q w WT_KSEM st; kassert (flags = 0); Some st }"

definition try_down :: "nat \<Rightarrow> ksync \<Rightarrow> bool \<times> ksync" where
  "try_down q st = (if semval st q > 0 then (True, upd_sem q (\<lambda>v. v - 1) st) else (False, st))"

section \<open>The queues as lists\<close>

definition wqs :: "ksync \<Rightarrow> (nat \<Rightarrow> nat list) \<Rightarrow> bool" where
  "wqs st Q \<longleftrightarrow> (\<forall>q. ring (wlinks st) (WaitHead q) (map WaitLink (Q q))) \<and>
     (\<forall>q q'. q \<noteq> q' \<longrightarrow> set (Q q) \<inter> set (Q q') = {}) \<and>
     (\<forall>q. \<forall>w \<in> set (Q q). wait_queue (waits st w) = Some q \<and> wproc (waits st w) \<noteq> None)"

lemma wqsD:
  assumes "wqs st Q"
  shows "ring (wlinks st) (WaitHead q) (map WaitLink (Q q))" "distinct (Q q)"
    "q \<noteq> q' \<Longrightarrow> set (Q q) \<inter> set (Q q') = {}"
    "w \<in> set (Q q) \<Longrightarrow> wait_queue (waits st w) = Some q \<and> wproc (waits st w) \<noteq> None"
proof -
  show r: "ring (wlinks st) (WaitHead q) (map WaitLink (Q q))" for q using assms by (simp add: wqs_def)
  show "distinct (Q q)" using ring_distinct [OF r, of q] by (simp only: distinct.simps distinct_map)
qed (use assms in \<open>auto simp: wqs_def\<close>)

lemma wqs_apart: "wqs st Q \<Longrightarrow> q \<noteq> q' \<Longrightarrow>
  apart (WaitHead q) (map WaitLink (Q q)) (WaitHead q') (map WaitLink (Q q'))"
  using wqsD(3) [of st Q q q'] by (auto simp: apart_def)

lemma wait_queue_first_eq: "wqs st Q \<Longrightarrow> wait_queue_first q st = (case Q q of [] \<Rightarrow> None | w # ws \<Rightarrow> Some w)"
  using ring_next [OF wqsD(1), of st Q q]
  by (simp add: wait_queue_first_def list_next_def split: list.splits)

lemma wait_queue_last_eq: "wqs st Q \<Longrightarrow> wait_queue_last q st = (if Q q = [] then None else Some (last (Q q)))"
  using ring_prev [OF wqsD(1), of st Q q]
  by (simp add: wait_queue_last_def list_prev_def last_map)

lemma wait_queue_empty_eq: "wqs st Q \<Longrightarrow> wait_queue_empty q st \<longleftrightarrow> Q q = []"
  using ring_empty_iff [OF wqsD(1), of st Q q] by (simp add: wait_queue_empty_def)

lemma wait_linked:
  assumes "wqs st Q" "w \<in> set (Q q)"
  shows "\<not> list_empty (WaitLink w) (wlinks st)"
proof -
  obtain us vs where s: "Q q = us @ w # vs" using split_list [OF assms(2)] by auto
  have r: "ring (wlinks st) (WaitHead q) (map WaitLink us @ WaitLink w # map WaitLink vs)"
    using wqsD(1) [OF assms(1), of q] s by simp
  have "distinct (Q q)" by (rule wqsD(2) [OF assms(1)])
  with ring_next_mid [OF r] s show ?thesis by (cases vs) (auto simp: list_empty_def)
qed

lemma wait_queue_del_eq:
  assumes w: "wqs st Q" and q: "Q q = us @ w # vs"
  shows "\<exists>st'. wait_queue_del q w st = Some st' \<and> wqs st' (Q(q := us @ vs)) \<and>
    list_empty (WaitLink w) (wlinks st') \<and> sch st' = sch st \<and> waits st' = waits st \<and> semval st' = semval st"
proof -
  let ?st = "st\<lparr>wlinks := list_del_init (WaitLink w) (wlinks st)\<rparr>"
  have r: "ring (wlinks st) (WaitHead q) (map WaitLink us @ WaitLink w # map WaitLink vs)"
    using wqsD(1) [OF w, of q] q by simp
  have d: "distinct (us @ w # vs)" using wqsD(2) [OF w, of q] q by simp
  have m: "w \<in> set (Q q)" using q by simp
  have other: "ring (wlinks ?st) (WaitHead q') (map WaitLink (Q q'))" if "q' \<noteq> q" for q'
    using ring_frame_del_init [OF wqsD(1) [OF w, of q] _ wqsD(1) [OF w] wqs_apart [OF w, of q q']] m that by auto
  have "ring (wlinks ?st) (WaitHead x) (map WaitLink ((Q(q := us @ vs)) x))" for x
    using other [of x] ring_del_init(1) [OF r] by simp
  moreover have sub: "set ((Q(q := us @ vs)) x) \<subseteq> set (Q x)" for x using q by auto
  have "set ((Q(q := us @ vs)) x) \<inter> set ((Q(q := us @ vs)) y) = {}" if "x \<noteq> y" for x y
    using sub [of x] sub [of y] wqsD(3) [OF w that] by blast
  moreover have "wait_queue (waits ?st y) = Some x \<and> wproc (waits ?st y) \<noteq> None"
    if "y \<in> set ((Q(q := us @ vs)) x)" for x y
    using wqsD(4) [OF w subsetD [OF sub that]] by simp
  ultimately have "wqs ?st (Q(q := us @ vs))"
    unfolding wqs_def by blast
  moreover have "list_empty (WaitLink w) (wlinks ?st)"
    using ring_empty_iff [OF ring_del_init(2) [OF r]] by simp
  ultimately show ?thesis
    using wait_linked [OF w m] wqsD(4) [OF w m] by (simp add: wait_queue_del_def)
qed

lemma wait_queue_add_eq:
  assumes w: "wqs st Q" and n: "\<forall>q. w \<notin> set (Q q)" and e: "list_empty (WaitLink w) (wlinks st)"
    and p: "wproc (waits st w) = Some p"
  shows "\<exists>st'. wait_queue_add q w st = Some st' \<and> wqs st' (Q(q := Q q @ [w])) \<and>
    sch st' = sch st \<and> semval st' = semval st \<and> wproc (waits st' w) = Some p \<and>
    (\<forall>x. x \<noteq> w \<longrightarrow> waits st' x = waits st x) \<and> wakeup_flags (waits st' w) = wakeup_flags (waits st w)"
proof -
  let ?l = "list_add_before (WaitHead q) (WaitLink w) (wlinks st)"
  let ?st = "(upd_wait w (\<lambda>x. x\<lparr>wait_queue := Some q\<rparr>) st)\<lparr>wlinks := ?l\<rparr>"
  have fresh: "WaitLink w \<notin> set (WaitHead x # map WaitLink (Q x))" for x using n by auto
  have "ring ?l (WaitHead q) (map WaitLink (Q q) @ [WaitLink w])"
    by (rule ring_add_tail [OF wqsD(1) [OF w] fresh])
  moreover have "ring ?l (WaitHead x) (map WaitLink (Q x))" if "x \<noteq> q" for x
    by (rule ring_frame_add_before [OF wqsD(1) [OF w, of q] _ wqsD(1) [OF w] wqs_apart [OF w] fresh])
      (use that in auto)
  ultimately have "ring (wlinks ?st) (WaitHead x) (map WaitLink ((Q(q := Q q @ [w])) x))" for x
    by simp
  moreover have "set ((Q(q := Q q @ [w])) x) \<inter> set ((Q(q := Q q @ [w])) y) = {}" if "x \<noteq> y" for x y
    using wqsD(3) [OF w that] n that by auto
  moreover have "wait_queue (waits ?st y) = Some x \<and> wproc (waits ?st y) \<noteq> None"
    if "y \<in> set ((Q(q := Q q @ [w])) x)" for x y
    using that wqsD(4) [OF w, of y] n p by (auto simp: upd_wait_def split: if_splits)
  ultimately have "wqs ?st (Q(q := Q q @ [w]))"
    unfolding wqs_def by blast
  then show ?thesis
    using e p by (intro exI [of _ ?st]) (simp add: wait_queue_add_def upd_wait_def)
qed

section \<open>Semaphores as a value and a queue\<close>

text \<open>
  The contract: the value and the waiting entries in order of arrival. A value above 0
  with entries waiting does not occur.
\<close>

type_synonym asem = "int \<times> nat list"

definition a_up :: "asem \<Rightarrow> asem" where
  "a_up s = (case snd s of [] \<Rightarrow> (fst s + 1, []) | w # ws \<Rightarrow> (fst s, ws))"

definition a_down :: "nat \<Rightarrow> asem \<Rightarrow> asem" where
  "a_down w s = (if fst s > 0 then (fst s - 1, snd s) else (fst s, snd s @ [w]))"

definition a_ok :: "asem \<Rightarrow> bool" where
  "a_ok s \<longleftrightarrow> 0 \<le> fst s \<and> (snd s = [] \<or> fst s = 0)"

lemma a_up_ok: "a_ok s \<Longrightarrow> a_ok (a_up s)"
  by (auto simp: a_ok_def a_up_def split: list.splits)

lemma a_down_ok: "a_ok s \<Longrightarrow> a_ok (a_down w s)"
  by (auto simp: a_ok_def a_down_def)

definition sems :: "ksync \<Rightarrow> (nat \<Rightarrow> asem) \<Rightarrow> bool" where
  "sems st A \<longleftrightarrow> wqs st (\<lambda>q. snd (A q)) \<and> (\<forall>q. semval st q = fst (A q))"

text \<open>The process behind an entry waits for the semaphore with the given wait state.\<close>

definition waits_with :: "ksync \<Rightarrow> nat \<Rightarrow> 32 word \<Rightarrow> bool" where
  "waits_with st w ws \<longleftrightarrow> (\<exists>p. wproc (waits st w) = Some p \<and>
     wait_state (procs (sch st) p) = ws \<and> pstate (procs (sch st) p) = PROC_SLEEPING)"

lemma wqs_frame: "wqs st Q \<Longrightarrow> wlinks st' = wlinks st \<Longrightarrow>
  (\<And>w. wait_queue (waits st' w) = wait_queue (waits st w) \<and> wproc (waits st' w) = wproc (waits st w)) \<Longrightarrow> wqs st' Q"
  by (simp add: wqs_def)

lemma up_refines:
  assumes s: "sems st A" and inv: "queue_inv (sch st)" "card (waiting_runnable (sch st)) < 2 ^ 31"
    and w: "\<forall>w ws'. snd (A q) = w # ws' \<longrightarrow> waits_with st w ws"
  shows "\<exists>st'. up_ws q ws st = Some st' \<and> sems st' (A(q := a_up (A q))) \<and> queue_inv (sch st') \<and>
    (\<forall>w ws' p. snd (A q) = w # ws' \<and> wproc (waits st w) = Some p \<longrightarrow>
      pstate (procs (sch st') p) = PROC_RUNNABLE \<and> wakeup_flags (waits st' w) = ws)"
proof (cases "snd (A q)")
  case Nil
  have f: "wait_queue_first q st = None"
    using s Nil wait_queue_first_eq [of st "\<lambda>q. snd (A q)" q] by (simp add: sems_def)
  have "wqs (upd_sem q (\<lambda>v. v + 1) st) (\<lambda>x. snd ((A(q := a_up (A q))) x))"
  proof (rule wqs_frame)
    show "wqs st (\<lambda>x. snd ((A(q := a_up (A q))) x))"
      using s Nil by (auto simp: sems_def a_up_def elim!: back_subst [where P = "wqs st"])
  qed (simp_all add: upd_sem_def)
  with f s inv Nil show ?thesis
    by (simp add: up_ws_def sems_def upd_sem_def a_up_def)
next
  case (Cons w0 ws')
  have q: "wqs st (\<lambda>q. snd (A q))" using s by (simp add: sems_def)
  have f: "wait_queue_first q st = Some w0"
    using wait_queue_first_eq [OF q] Cons by simp
  obtain p where p: "wproc (waits st w0) = Some p" "wait_state (procs (sch st) p) = ws"
    "pstate (procs (sch st) p) = PROC_SLEEPING"
    using w Cons by (auto simp: waits_with_def)
  obtain st1 where d: "wait_queue_del q w0 st = Some st1" "wqs st1 ((\<lambda>q. snd (A q))(q := ws'))"
    "sch st1 = sch st" "waits st1 = waits st" "semval st1 = semval st"
    using wait_queue_del_eq [OF q, of q "[]" w0 ws'] Cons by auto
  have "pstate (procs (sch st) p) \<noteq> PROC_ZOMBIE" using p by simp
  from wakeup_proc_inv [OF inv(1) this inv(2)] obtain s' where
    k: "wakeup_proc p (sch st) = Some s'" "queue_inv s'" "pstate (procs s' p) = PROC_RUNNABLE" by blast
  let ?st = "(upd_wait w0 (\<lambda>x. x\<lparr>wakeup_flags := ws\<rparr>) st1)\<lparr>sch := s'\<rparr>"
  have "up_ws q ws st = Some ?st"
    using f p d k by (simp add: up_ws_def wakeup_wait_def upd_wait_def)
  moreover have "wqs ?st (\<lambda>x. snd ((A(q := a_up (A q))) x))"
  proof (rule wqs_frame)
    have "(\<lambda>x. snd ((A(q := a_up (A q))) x)) = (\<lambda>q. snd (A q))(q := ws')"
      using Cons by (auto simp: a_up_def)
    with d(2) show "wqs st1 (\<lambda>x. snd ((A(q := a_up (A q))) x))" by simp
  qed (simp_all add: upd_wait_def)
  ultimately show ?thesis
    using s d(5) k Cons p by (auto simp: sems_def upd_wait_def a_up_def)
qed

lemma down_refines:
  assumes s: "sems st A" and inv: "queue_inv (sch st)" "card (waiting_runnable (sch st)) < 2 ^ 31"
    and c: "current (sch st) = Some c" and w: "\<forall>q. w \<notin> set (snd (A q))"
  shows "\<exists>st'. down_begin q w ws st =
      Some (if fst (A q) > 0 then Some 0 else None, st') \<and>
    sems st' (A(q := a_down w (A q))) \<and> queue_inv (sch st') \<and>
    (if fst (A q) > 0 then sch st' = sch st else waits_with st' w ws \<and> wproc (waits st' w) = Some c)"
proof (cases "fst (A q) > 0")
  case True
  have "wqs (upd_sem q (\<lambda>v. v - 1) st) (\<lambda>x. snd ((A(q := a_down w (A q))) x))"
  proof (rule wqs_frame)
    show "wqs st (\<lambda>x. snd ((A(q := a_down w (A q))) x))"
      using s True by (auto simp: sems_def a_down_def elim!: back_subst [where P = "wqs st"])
  qed (simp_all add: upd_sem_def)
  with s True inv show ?thesis
    by (simp add: down_begin_def sems_def upd_sem_def a_down_def)
next
  case False
  have q: "wqs st (\<lambda>q. snd (A q))" using s by (simp add: sems_def)
  let ?s = "upd_proc c (\<lambda>p. p\<lparr>wait_state := ws\<rparr>) (upd_proc c (\<lambda>p. p\<lparr>pstate := PROC_SLEEPING\<rparr>) (sch st))"
  let ?st = "(wait_init w (Some c) st)\<lparr>sch := ?s\<rparr>"
  have i: "wproc (waits ?st w) = Some c" "list_empty (WaitLink w) (wlinks ?st)"
    "\<And>x. x \<noteq> w \<Longrightarrow> waits ?st x = waits st x" "semval ?st = semval st"
    by (simp_all add: wait_init_def Let_def upd_wait_def list_empty_def list_init_def)
  have "ring (wlinks ?st) (WaitHead x) (map WaitLink (snd (A x)))" for x
  proof -
    have "ring (wlinks ?st) (WaitHead x) (map WaitLink (snd (A x))) =
        ring (wlinks st) (WaitHead x) (map WaitLink (snd (A x)))"
      using w by (intro ring_cong) (auto simp: wait_init_def Let_def upd_wait_def list_init_def)
    then show ?thesis using wqsD(1) [OF q] by simp
  qed
  moreover have "wait_queue (waits ?st y) = Some x \<and> wproc (waits ?st y) \<noteq> None" if "y \<in> set (snd (A x))" for x y
  proof -
    have "y \<noteq> w" using w that by auto
    with wqsD(4) [OF q that] i(3) [of y] show ?thesis by simp
  qed
  ultimately have q1: "wqs ?st (\<lambda>q. snd (A q))"
    using q unfolding wqs_def by blast
  from wait_queue_add_eq [OF q1 _ i(2,1), of q] w obtain st2 where
    a: "wait_queue_add q w ?st = Some st2" "wqs st2 ((\<lambda>q. snd (A q))(q := snd (A q) @ [w]))"
      "sch st2 = ?s" "semval st2 = semval st" "wproc (waits st2 w) = Some c"
    using i(4) by auto
  have cs: "wait_current_set q w ws st = Some st2"
    using c a(1) by (simp add: wait_current_set_def Let_def wait_init_def upd_wait_def)
  have qi: "queue_inv ?s"
  proof -
    have "waiting_runnable ?s = waiting_runnable (sch st)"
      using c by (auto simp: waiting_runnable_def)
    moreover have "ready_set ?s (waiting_runnable (sch st))"
      by (rule ready_set_cong [OF inv(1) [unfolded queue_inv_def]]) auto
    ultimately show ?thesis by (simp add: queue_inv_def)
  qed
  have rm: "card (waiting_runnable ?s) < 2 ^ 31"
  proof -
    have "waiting_runnable ?s = waiting_runnable (sch st)"
      using c by (auto simp: waiting_runnable_def)
    with inv(2) show ?thesis by simp
  qed
  have "current ?s = Some c" using c by simp
  from schedule_inv [OF qi this rm] obtain s' where
    sc: "schedule ?s = Some s'" "queue_inv s'" "\<forall>p. pstate (procs s' p) = pstate (procs ?s p)" by blast
  have ws: "wait_state (procs s' c) = ws"
    using schedule_wait_state [OF sc(1)] by simp
  let ?st3 = "st2\<lparr>sch := s'\<rparr>"
  have "down_begin q w ws st = Some (None, ?st3)"
    using False s cs a(3) sc(1) by (simp add: down_begin_def sems_def)
  moreover have "wqs ?st3 (\<lambda>x. snd ((A(q := a_down w (A q))) x))"
  proof (rule wqs_frame)
    have "(\<lambda>x. snd ((A(q := a_down w (A q))) x)) = (\<lambda>q. snd (A q))(q := snd (A q) @ [w])"
      using False by (auto simp: a_down_def)
    with a(2) show "wqs st2 (\<lambda>x. snd ((A(q := a_down w (A q))) x))" by simp
  qed simp_all
  ultimately show ?thesis
    using False s a(4,5) sc ws by (auto simp: sems_def a_down_def waits_with_def)
qed

section \<open>Properties\<close>

text \<open>C16: semaphores on the linked wait queues implement the contract of a value and a
  queue in order of arrival. \<^verbatim>\<open>up\<close> raises the value when nobody waits and otherwise
  takes the first waiting entry out, tells it the wait state and makes its process
  runnable; \<^verbatim>\<open>down\<close> lowers a positive value and otherwise appends the current
  process, puts it to sleep and switches away. The queues of other semaphores and the
  ready-queue invariant are kept.\<close>
theorem semaphore_contract:
  assumes "sems st A" "queue_inv (sch st)" "card (waiting_runnable (sch st)) < 2 ^ 31"
  shows "((\<forall>w ws'. snd (A q) = w # ws' \<longrightarrow> waits_with st w ws) \<longrightarrow>
      (\<exists>st'. up_ws q ws st = Some st' \<and> sems st' (A(q := a_up (A q))) \<and> queue_inv (sch st') \<and>
        (\<forall>w ws' p. snd (A q) = w # ws' \<and> wproc (waits st w) = Some p \<longrightarrow>
          pstate (procs (sch st') p) = PROC_RUNNABLE \<and> wakeup_flags (waits st' w) = ws))) \<and>
    (current (sch st) = Some c \<and> (\<forall>q. w \<notin> set (snd (A q))) \<longrightarrow>
      (\<exists>st'. down_begin q w ws st = Some (if fst (A q) > 0 then Some 0 else None, st') \<and>
        sems st' (A(q := a_down w (A q))) \<and> queue_inv (sch st') \<and>
        (if fst (A q) > 0 then sch st' = sch st else waits_with st' w ws \<and> wproc (waits st' w) = Some c)))"
  using up_refines [OF assms, of q ws] down_refines [OF assms, of c w q ws] by blast

definition no_waiters :: ksync where
  "no_waiters = \<lparr>sch = two_ready, waits = (\<lambda>_. \<lparr>wproc = None, wakeup_flags = 0, wait_queue = None\<rparr>),
     wlinks = \<lparr>prv = (\<lambda>e. e), nxt = (\<lambda>e. e)\<rparr>, semval = (\<lambda>_. 0)\<rparr>"

theorem semaphore_contract_witness:
  "\<exists>st'. down_begin 3 8 WT_KSEM no_waiters = Some (None, st') \<and>
    sems st' ((\<lambda>_. (0, []))(3 := (0, [8]))) \<and> wproc (waits st' 8) = Some 0"
proof -
  have "sems no_waiters (\<lambda>_. (0, []))"
    by (simp add: sems_def wqs_def no_waiters_def ring_def)
  moreover have "sch no_waiters = two_ready" by (simp add: no_waiters_def)
  moreover have "current two_ready = Some 0" by (simp add: two_ready_def)
  ultimately show ?thesis
    using semaphore_contract [of no_waiters "\<lambda>_. (0, [])" 3 WT_KSEM 0 8] two_ready_inv
    by (simp add: a_down_def two_ready_waiting) blast
qed

end
