(* ===== verification/Philosophers.thy ===== *)
theory Philosophers
  imports WaitSem
begin

text \<open>
  kern/sync/check_sync.c, the dining philosophers with semaphores. Every statement that
  touches the shared state is one step of its philosopher, and the philosophers interleave
  freely; the semaphores are the value-and-queue contract of the wait queues, so a
  \<^verbatim>\<open>down\<close> that does not succeed leaves the philosopher waiting until an \<^verbatim>\<open>up\<close>
  takes it off the queue. \<^verbatim>\<open>do_sleep\<close> and the output only pass time.
\<close>

section \<open>The program\<close>

datatype phase = THINKING | HUNGRY | EATING

text \<open>The next statement of a philosopher.\<close>

datatype stmt =
    LoopTest | DownMutex1 | SetHungry | TestSelf | UpMutex1 | DownFork
  | Eat | DownMutex2 | SetThinking | TestLeft | TestRight | UpMutex2 | Quit

record table =
  state_sema :: "nat \<Rightarrow> phase"
  mutex :: asem
  s :: "nat \<Rightarrow> asem"
  pc :: "nat \<Rightarrow> stmt"
  iter :: "nat \<Rightarrow> nat"

abbreviation N :: nat where "N \<equiv> 5"
abbreviation TIMES :: nat where "TIMES \<equiv> 4"

definition LEFT :: "nat \<Rightarrow> nat" where
  "LEFT i = (i + N - 1) mod N"

definition RIGHT :: "nat \<Rightarrow> nat" where
  "RIGHT i = (i + 1) mod N"

definition phi_test_sema :: "nat \<Rightarrow> table \<Rightarrow> table" where
  "phi_test_sema i t =
     (if state_sema t i = HUNGRY \<and> state_sema t (LEFT i) \<noteq> EATING \<and> state_sema t (RIGHT i) \<noteq> EATING
      then (let t = t\<lparr>state_sema := (state_sema t)(i := EATING)\<rparr>
            in t\<lparr>s := (s t)(i := a_up (s t i))\<rparr>)
      else t)"

definition goto :: "nat \<Rightarrow> stmt \<Rightarrow> table \<Rightarrow> table" where
  "goto i c t = t\<lparr>pc := (pc t)(i := c)\<rparr>"

definition phi_take_forks_sema :: "nat \<Rightarrow> stmt \<Rightarrow> table \<Rightarrow> table" where
  "phi_take_forks_sema i c t =
     (case c of
        DownMutex1 \<Rightarrow> goto i SetHungry (t\<lparr>mutex := a_down i (mutex t)\<rparr>)
      | SetHungry \<Rightarrow> goto i TestSelf (t\<lparr>state_sema := (state_sema t)(i := HUNGRY)\<rparr>)
      | TestSelf \<Rightarrow> goto i UpMutex1 (phi_test_sema i t)
      | UpMutex1 \<Rightarrow> goto i DownFork (t\<lparr>mutex := a_up (mutex t)\<rparr>)
      | DownFork \<Rightarrow> goto i Eat (t\<lparr>s := (s t)(i := a_down i (s t i))\<rparr>)
      | _ \<Rightarrow> t)"

definition phi_put_forks_sema :: "nat \<Rightarrow> stmt \<Rightarrow> table \<Rightarrow> table" where
  "phi_put_forks_sema i c t =
     (case c of
        DownMutex2 \<Rightarrow> goto i SetThinking (t\<lparr>mutex := a_down i (mutex t)\<rparr>)
      | SetThinking \<Rightarrow> goto i TestLeft (t\<lparr>state_sema := (state_sema t)(i := THINKING)\<rparr>)
      | TestLeft \<Rightarrow> goto i TestRight (phi_test_sema (LEFT i) t)
      | TestRight \<Rightarrow> goto i UpMutex2 (phi_test_sema (RIGHT i) t)
      | UpMutex2 \<Rightarrow> goto i LoopTest (t\<lparr>mutex := a_up (mutex t)\<rparr>)
      | _ \<Rightarrow> t)"

definition philosopher_using_semaphore :: "nat \<Rightarrow> table \<Rightarrow> table" where
  "philosopher_using_semaphore i t =
     (case pc t i of
        LoopTest \<Rightarrow>
          if iter t i < TIMES then goto i DownMutex1 (t\<lparr>iter := (iter t)(i := iter t i + 1)\<rparr>)
          else goto i Quit (t\<lparr>iter := (iter t)(i := iter t i + 1)\<rparr>)
      | Eat \<Rightarrow> goto i DownMutex2 t
      | Quit \<Rightarrow> t
      | c \<Rightarrow> if c \<in> {DownMutex1, SetHungry, TestSelf, UpMutex1, DownFork}
             then phi_take_forks_sema i c t else phi_put_forks_sema i c t)"

definition waiting :: "table \<Rightarrow> nat \<Rightarrow> bool" where
  "waiting t i \<longleftrightarrow> i \<in> set (snd (mutex t)) \<or> i \<in> set (snd (s t i))"

inductive phi_step :: "table \<Rightarrow> table \<Rightarrow> bool" where
  "i < N \<Longrightarrow> \<not> waiting t i \<Longrightarrow> pc t i \<noteq> Quit \<Longrightarrow> phi_step t (philosopher_using_semaphore i t)"

inductive_cases phi_stepE: "phi_step t t'"

definition phi_start :: table where
  "phi_start = \<lparr>state_sema = (\<lambda>_. THINKING), mutex = (1, []), s = (\<lambda>_. (0, [])),
     pc = (\<lambda>_. LoopTest), iter = (\<lambda>_. 0)\<rparr>"

inductive phi_reach :: "table \<Rightarrow> bool" where
  start: "phi_reach phi_start"
| step: "phi_reach t \<Longrightarrow> phi_step t t' \<Longrightarrow> phi_reach t'"

section \<open>The ring of neighbours\<close>

lemma neighbours:
  assumes "i < N"
  shows "LEFT i < N" "RIGHT i < N" "LEFT i \<noteq> i" "RIGHT i \<noteq> i" "LEFT (RIGHT i) = i" "RIGHT (LEFT i) = i"
    "LEFT i \<noteq> RIGHT i"
proof -
  from assms have "i \<in> {0, 1, 2, 3, 4}" by auto
  then show "LEFT i < N" "RIGHT i < N" "LEFT i \<noteq> i" "RIGHT i \<noteq> i" "LEFT (RIGHT i) = i" "RIGHT (LEFT i) = i"
    "LEFT i \<noteq> RIGHT i"
    by (auto simp: LEFT_def RIGHT_def)
qed

lemma neighbour_iff: "i < N \<Longrightarrow> j < N \<Longrightarrow> RIGHT i = j \<longleftrightarrow> i = LEFT j"
  using neighbours by metis

section \<open>The invariant\<close>

definition critical :: "stmt \<Rightarrow> bool" where
  "critical c \<longleftrightarrow> c \<in> {SetHungry, TestSelf, UpMutex1, SetThinking, TestLeft, TestRight, UpMutex2}"

text \<open>
  The mutex: free and nobody in the critical section, or taken by one philosopher, the
  others whose next statement is critical being the queue, at the entry.
\<close>

definition mutex_free :: "table \<Rightarrow> bool" where
  "mutex_free t \<longleftrightarrow> mutex t = (1, []) \<and> (\<forall>i < N. \<not> critical (pc t i))"

definition mutex_owned :: "table \<Rightarrow> nat \<Rightarrow> bool" where
  "mutex_owned t i \<longleftrightarrow> i < N \<and> fst (mutex t) = 0 \<and> distinct (snd (mutex t)) \<and> i \<notin> set (snd (mutex t)) \<and>
     critical (pc t i) \<and> set (snd (mutex t)) \<subseteq> {..<N} \<and>
     (\<forall>j < N. j \<noteq> i \<longrightarrow> (critical (pc t j) \<longleftrightarrow> j \<in> set (snd (mutex t))) \<and>
        (critical (pc t j) \<longrightarrow> pc t j \<in> {SetHungry, SetThinking}))"

text \<open>Phase and fork semaphore of a philosopher at each statement.\<close>

definition phil_ok :: "table \<Rightarrow> nat \<Rightarrow> bool" where
  "phil_ok t i \<longleftrightarrow>
     (case pc t i of
        LoopTest \<Rightarrow> state_sema t i = THINKING \<and> s t i = (0, [])
      | DownMutex1 \<Rightarrow> state_sema t i = THINKING \<and> s t i = (0, [])
      | SetHungry \<Rightarrow> state_sema t i = THINKING \<and> s t i = (0, [])
      | TestSelf \<Rightarrow> state_sema t i = HUNGRY \<and> s t i = (0, [])
      | UpMutex1 \<Rightarrow> state_sema t i = HUNGRY \<and> s t i = (0, []) \<or> state_sema t i = EATING \<and> s t i = (1, [])
      | DownFork \<Rightarrow> state_sema t i = HUNGRY \<and> s t i = (0, []) \<or> state_sema t i = EATING \<and> s t i = (1, [])
      | Eat \<Rightarrow> state_sema t i = HUNGRY \<and> s t i = (0, [i]) \<or> state_sema t i = EATING \<and> s t i = (0, [])
      | DownMutex2 \<Rightarrow> state_sema t i = EATING \<and> s t i = (0, [])
      | SetThinking \<Rightarrow> state_sema t i = EATING \<and> s t i = (0, [])
      | _ \<Rightarrow> state_sema t i = THINKING \<and> s t i = (0, []))"

text \<open>Every hungry philosopher has been or will be tested when its forks become free.\<close>

definition served :: "table \<Rightarrow> nat \<Rightarrow> bool" where
  "served t i \<longleftrightarrow> state_sema t i = HUNGRY \<and> pc t i \<noteq> TestSelf \<longrightarrow>
     state_sema t (LEFT i) = EATING \<or> state_sema t (RIGHT i) = EATING \<or>
     pc t (RIGHT i) = TestLeft \<or> pc t (LEFT i) \<in> {TestLeft, TestRight}"

definition no_clash :: "table \<Rightarrow> bool" where
  "no_clash t \<longleftrightarrow> (\<forall>i < N. state_sema t i = EATING \<longrightarrow> state_sema t (RIGHT i) \<noteq> EATING)"

definition table_ok :: "table \<Rightarrow> bool" where
  "table_ok t \<longleftrightarrow> (mutex_free t \<or> (\<exists>i. mutex_owned t i)) \<and> (\<forall>i < N. phil_ok t i) \<and> no_clash t \<and>
     (\<forall>i < N. served t i)"

lemma start_ok: "table_ok phi_start"
  by (auto simp: table_ok_def phi_start_def mutex_free_def critical_def phil_ok_def no_clash_def served_def)

section \<open>The mutex\<close>

definition mutex_ok :: "table \<Rightarrow> bool" where
  "mutex_ok t \<longleftrightarrow> mutex_free t \<or> (\<exists>i. mutex_owned t i)"

lemma goto_simps [simp]:
  "pc (goto i c t) = (pc t)(i := c)" "state_sema (goto i c t) = state_sema t"
  "mutex (goto i c t) = mutex t" "s (goto i c t) = s t" "iter (goto i c t) = iter t"
  by (simp_all add: goto_def)

lemma owner:
  assumes "mutex_ok t" "i < N" "critical (pc t i)" "\<not> waiting t i"
  shows "mutex_owned t i"
proof -
  obtain j where j: "mutex_owned t j"
    using assms by (auto simp: mutex_ok_def mutex_free_def)
  with assms have "j = i" by (auto simp: mutex_owned_def waiting_def)
  with j show ?thesis by simp
qed

lemma mutex_enter:
  assumes "mutex_ok t" "i < N" "\<not> critical (pc t i)" "c \<in> {SetHungry, SetThinking}"
    and m: "mutex t' = a_down i (mutex t)" "pc t' = (pc t)(i := c)"
  shows "mutex_ok t'"
proof (cases "mutex_free t")
  case True
  with assms have "mutex_owned t' i"
    by (auto simp: mutex_free_def mutex_owned_def a_down_def critical_def)
  then show ?thesis by (auto simp: mutex_ok_def)
next
  case False
  with assms(1) obtain j where j: "mutex_owned t j" by (auto simp: mutex_ok_def)
  then have "j \<noteq> i" "i \<notin> set (snd (mutex t))" using assms(2,3) by (auto simp: mutex_owned_def)
  with j assms(2,4) m have "mutex_owned t' j"
    by (auto simp: mutex_owned_def a_down_def critical_def)
  then show ?thesis by (auto simp: mutex_ok_def)
qed

lemma mutex_leave:
  assumes o: "mutex_owned t i" and c: "\<not> critical c"
    and m: "mutex t' = a_up (mutex t)" "pc t' = (pc t)(i := c)"
  shows "mutex_ok t'"
proof (cases "snd (mutex t)")
  case Nil
  with assms have "mutex_free t'"
    by (auto simp: mutex_owned_def mutex_free_def a_up_def)
  then show ?thesis by (auto simp: mutex_ok_def)
next
  case (Cons k q)
  then have "k < N" "k \<noteq> i" "critical (pc t k)"
    using o by (auto simp: mutex_owned_def)
  with Cons assms have "mutex_owned t' k"
    by (auto simp: mutex_owned_def a_up_def)
  then show ?thesis by (auto simp: mutex_ok_def)
qed

lemma mutex_inside:
  assumes "mutex_owned t i" "critical c" "mutex t' = mutex t" "pc t' = (pc t)(i := c)"
  shows "mutex_ok t'"
proof -
  have "mutex_owned t' i" using assms by (auto simp: mutex_owned_def)
  then show ?thesis by (auto simp: mutex_ok_def)
qed

lemma mutex_outside:
  assumes "mutex_ok t" "i < N" "\<not> critical (pc t i)" "\<not> critical c" "mutex t' = mutex t" "pc t' = (pc t)(i := c)"
  shows "mutex_ok t'"
proof (cases "mutex_free t")
  case True
  with assms have "mutex_free t'" by (auto simp: mutex_free_def)
  then show ?thesis by (auto simp: mutex_ok_def)
next
  case False
  with assms(1) obtain j where j: "mutex_owned t j" by (auto simp: mutex_ok_def)
  then have "j \<noteq> i" using assms(3) by (auto simp: mutex_owned_def)
  with j assms have "mutex_owned t' j" by (auto simp: mutex_owned_def)
  then show ?thesis by (auto simp: mutex_ok_def)
qed

section \<open>Testing a philosopher\<close>

lemma test_frame [simp]:
  "pc (phi_test_sema j t) = pc t" "mutex (phi_test_sema j t) = mutex t" "iter (phi_test_sema j t) = iter t"
  "k \<noteq> j \<Longrightarrow> state_sema (phi_test_sema j t) k = state_sema t k"
  "k \<noteq> j \<Longrightarrow> s (phi_test_sema j t) k = s t k"
  by (auto simp: phi_test_sema_def Let_def)

lemma test_eating: "state_sema t k = EATING \<Longrightarrow> state_sema (phi_test_sema j t) k = EATING"
  by (auto simp: phi_test_sema_def Let_def)

lemma test_hungry: "state_sema (phi_test_sema j t) k = HUNGRY \<Longrightarrow> state_sema t k = HUNGRY"
  by (auto simp: phi_test_sema_def Let_def split: if_splits)

lemma test_done:
  "state_sema (phi_test_sema j t) j = HUNGRY \<Longrightarrow>
   state_sema t (LEFT j) = EATING \<or> state_sema t (RIGHT j) = EATING"
  by (auto simp: phi_test_sema_def Let_def split: if_splits)

lemma test_phil_ok:
  "phil_ok t j \<Longrightarrow> pc t j \<noteq> TestSelf \<Longrightarrow> phil_ok (phi_test_sema j t) j"
  by (cases "pc t j") (auto simp: phil_ok_def phi_test_sema_def Let_def a_up_def)

lemma phil_ok_frame:
  "phil_ok t k \<Longrightarrow> state_sema t' k = state_sema t k \<Longrightarrow> s t' k = s t k \<Longrightarrow> pc t' k = pc t k \<Longrightarrow> phil_ok t' k"
  by (simp add: phil_ok_def split: stmt.splits)

lemma test_no_clash:
  assumes "no_clash t" "j < N"
  shows "no_clash (phi_test_sema j t)"
proof (cases "state_sema t j = HUNGRY \<and> state_sema t (LEFT j) \<noteq> EATING \<and> state_sema t (RIGHT j) \<noteq> EATING")
  case False
  then have "phi_test_sema j t = t" by (auto simp: phi_test_sema_def)
  with assms show ?thesis by simp
next
  case True
  then have e: "state_sema (phi_test_sema j t) = (state_sema t)(j := EATING)"
    by (simp add: phi_test_sema_def Let_def)
  show ?thesis
    unfolding no_clash_def
  proof (intro allI impI)
    fix i assume i: "i < N" "state_sema (phi_test_sema j t) i = EATING"
    show "state_sema (phi_test_sema j t) (RIGHT i) \<noteq> EATING"
    proof (cases "i = j")
      case i_j: True
      with True neighbours [OF assms(2)] show ?thesis by (simp add: e)
    next
      case False
      then have "state_sema t i = EATING" using i by (simp add: e)
      moreover have "RIGHT i \<noteq> j" using calculation True neighbours [OF i(1)] by metis
      ultimately show ?thesis using assms(1) i by (simp add: e no_clash_def)
    qed
  qed
qed

section \<open>Every step keeps the invariant\<close>

definition others_ok :: "table \<Rightarrow> table \<Rightarrow> nat \<Rightarrow> bool" where
  "others_ok t t' i \<longleftrightarrow> (\<forall>k < N. k \<noteq> i \<longrightarrow> phil_ok t k \<longrightarrow> phil_ok t' k)"

text \<open>
  Nobody stops eating, and whoever is hungry and not about to test itself was so before or
  has an eating neighbour; then everyone is still served, if only the tests that the step
  takes away are made up for.
\<close>

lemma served_keep:
  assumes sv: "\<forall>k < N. served t k"
    and eat: "\<forall>k < N. state_sema t k = EATING \<longrightarrow> state_sema t' k = EATING"
    and hun: "\<forall>k < N. state_sema t' k = HUNGRY \<and> pc t' k \<noteq> TestSelf \<longrightarrow>
      state_sema t k = HUNGRY \<and> pc t k \<noteq> TestSelf \<or>
      state_sema t' (LEFT k) = EATING \<or> state_sema t' (RIGHT k) = EATING"
    and lost: "\<forall>k < N. state_sema t' k = HUNGRY \<longrightarrow>
      pc t (RIGHT k) = TestLeft \<or> pc t (LEFT k) \<in> {TestLeft, TestRight} \<longrightarrow>
      pc t' (RIGHT k) = TestLeft \<or> pc t' (LEFT k) \<in> {TestLeft, TestRight} \<or>
      state_sema t' (LEFT k) = EATING \<or> state_sema t' (RIGHT k) = EATING"
  shows "\<forall>k < N. served t' k"
proof (intro allI impI)
  fix k :: nat assume k: "k < N"
  note n = neighbours [OF k]
  show "served t' k"
    unfolding served_def
  proof (intro impI)
    assume h: "state_sema t' k = HUNGRY \<and> pc t' k \<noteq> TestSelf"
    show "state_sema t' (LEFT k) = EATING \<or> state_sema t' (RIGHT k) = EATING \<or>
      pc t' (RIGHT k) = TestLeft \<or> pc t' (LEFT k) \<in> {TestLeft, TestRight}"
    proof (cases "state_sema t' (LEFT k) = EATING \<or> state_sema t' (RIGHT k) = EATING")
      case False
      with hun k h have "state_sema t k = HUNGRY \<and> pc t k \<noteq> TestSelf" by blast
      with sv k have "state_sema t (LEFT k) = EATING \<or> state_sema t (RIGHT k) = EATING \<or>
          pc t (RIGHT k) = TestLeft \<or> pc t (LEFT k) \<in> {TestLeft, TestRight}"
        unfolding served_def by blast
      with eat n(1,2) False have "pc t (RIGHT k) = TestLeft \<or> pc t (LEFT k) \<in> {TestLeft, TestRight}" by blast
      with lost k h False show ?thesis by blast
    qed blast
  qed
qed

lemmas phi_defs = philosopher_using_semaphore_def phi_take_forks_sema_def phi_put_forks_sema_def

lemma table_okI:
  "mutex_ok t \<Longrightarrow> \<forall>i < N. phil_ok t i \<Longrightarrow> no_clash t \<Longrightarrow> \<forall>i < N. served t i \<Longrightarrow> table_ok t"
  by (simp add: table_ok_def mutex_ok_def)

lemma no_clash_cong: "no_clash t \<Longrightarrow> state_sema t' = state_sema t \<Longrightarrow> no_clash t'"
  by (simp add: no_clash_def)

text \<open>Steps that change neither a phase nor a test that is due.\<close>

lemma served_same:
  assumes "\<forall>k < N. served t k" "state_sema t' = state_sema t" "pc t' = (pc t)(i := c)"
    "pc t i \<notin> {TestSelf, TestLeft, TestRight}" "i < N"
  shows "\<forall>k < N. served t' k"
  by (rule served_keep [OF assms(1)]) (use assms(2-5) in auto)

lemma phil_ok_all:
  assumes "\<forall>k < N. phil_ok t k" "phil_ok t' i" "\<forall>k. k \<noteq> i \<longrightarrow> state_sema t' k = state_sema t k \<and> s t' k = s t k \<and> pc t' k = pc t k"
  shows "\<forall>k < N. phil_ok t' k"
  using assms phil_ok_frame by metis

lemma step_quiet:
  assumes ok: "table_ok t" and i: "i < N" and m: "mutex_ok t'"
    and p: "phil_ok t' i" "state_sema t' = state_sema t" "\<forall>k. k \<noteq> i \<longrightarrow> s t' k = s t k"
      "pc t' = (pc t)(i := c)" "pc t i \<notin> {TestSelf, TestLeft, TestRight}"
  shows "table_ok t'"
proof (rule table_okI [OF m])
  show "\<forall>k < N. phil_ok t' k"
    by (rule phil_ok_all [where t = t and i = i]) (use ok p in \<open>auto simp: table_ok_def\<close>)
  show "no_clash t'" by (rule no_clash_cong [where t = t]) (use ok p in \<open>auto simp: table_ok_def\<close>)
  show "\<forall>k < N. served t' k"
    by (rule served_same [where t = t and i = i and c = c]) (use ok p i in \<open>auto simp: table_ok_def\<close>)
qed

lemma step_ok:
  assumes ok: "table_ok t" and i: "i < N" "\<not> waiting t i" "pc t i \<noteq> Quit"
  shows "table_ok (philosopher_using_semaphore i t)"
proof -
  let ?t = "philosopher_using_semaphore i t"
  have mok: "mutex_ok t" and pok: "phil_ok t i" "\<forall>k < N. phil_ok t k" and nc: "no_clash t"
    and sv: "\<forall>k < N. served t k"
    using ok i(1) by (auto simp: table_ok_def mutex_ok_def)
  note n = neighbours [OF i(1)]
  have own: "mutex_owned t i" if "critical (pc t i)"
    using owner [OF mok i(1) that i(2)] .
  have noself: "pc t k \<noteq> TestSelf" if "critical (pc t i)" "k < N" "k \<noteq> i" for k
    using own [OF that(1)] that by (auto simp: mutex_owned_def critical_def)
  show ?thesis
  proof (cases "pc t i")
    case LoopTest
    let ?c = "if iter t i < TIMES then DownMutex1 else Quit"
    have t': "pc ?t = (pc t)(i := ?c)" "state_sema ?t = state_sema t" "mutex ?t = mutex t" "s ?t = s t"
      using LoopTest by (auto simp: phi_defs)
    show ?thesis
      by (rule step_quiet [OF ok i(1) mutex_outside [OF mok i(1)], where c = ?c])
        (use LoopTest t' pok(1) in \<open>auto simp: critical_def phil_ok_def\<close>)
  next
    case DownMutex1
    then have t': "pc ?t = (pc t)(i := SetHungry)" "state_sema ?t = state_sema t" "mutex ?t = a_down i (mutex t)" "s ?t = s t"
      by (simp_all add: phi_defs)
    show ?thesis
      by (rule step_quiet [OF ok i(1) mutex_enter [OF mok i(1)], where c = SetHungry])
        (use DownMutex1 t' pok(1) in \<open>auto simp: critical_def phil_ok_def\<close>)
  next
    case SetHungry
    then have t': "pc ?t = (pc t)(i := TestSelf)" "state_sema ?t = (state_sema t)(i := HUNGRY)" "mutex ?t = mutex t" "s ?t = s t"
      by (simp_all add: phi_defs)
    have st: "state_sema t i = THINKING" "s t i = (0, [])" using pok(1) SetHungry by (simp_all add: phil_ok_def)
    show ?thesis
    proof (rule table_okI)
      show "mutex_ok ?t"
        by (rule mutex_inside [OF own, where c = TestSelf]) (use SetHungry t' in \<open>auto simp: critical_def\<close>)
      show "\<forall>k < N. phil_ok ?t k"
        by (rule phil_ok_all [OF pok(2), where i = i]) (use t' st in \<open>auto simp: phil_ok_def\<close>)
      show "no_clash ?t" using nc st by (auto simp: no_clash_def t')
      show "\<forall>k < N. served ?t k"
        by (rule served_keep [OF sv]) (use t' st SetHungry in auto)
    qed
  next
    case TestSelf
    then have t': "pc ?t = (pc t)(i := UpMutex1)" "state_sema ?t = state_sema (phi_test_sema i t)"
      "mutex ?t = mutex t" "s ?t = s (phi_test_sema i t)"
      by (simp_all add: phi_defs)
    have st: "state_sema t i = HUNGRY" "s t i = (0, [])" using pok(1) TestSelf by (simp_all add: phil_ok_def)
    show ?thesis
    proof (rule table_okI)
      show "mutex_ok ?t"
        by (rule mutex_inside [OF own, where c = UpMutex1]) (use TestSelf t' in \<open>auto simp: critical_def\<close>)
      have "phil_ok ?t i"
        using st by (simp add: phil_ok_def t' phi_test_sema_def Let_def a_up_def)
      then show "\<forall>k < N. phil_ok ?t k"
        by (rule phil_ok_all [OF pok(2), where i = i]) (use t' in auto)
      show "no_clash ?t" by (rule no_clash_cong [OF test_no_clash [OF nc i(1)]]) (simp add: t')
      show "\<forall>k < N. served ?t k"
      proof (rule served_keep [OF sv])
        show "\<forall>k < N. state_sema t k = EATING \<longrightarrow> state_sema ?t k = EATING"
          by (simp add: t' test_eating)
        show "\<forall>k < N. state_sema ?t k = HUNGRY \<and> pc ?t k \<noteq> TestSelf \<longrightarrow>
            state_sema t k = HUNGRY \<and> pc t k \<noteq> TestSelf \<or>
            state_sema ?t (LEFT k) = EATING \<or> state_sema ?t (RIGHT k) = EATING"
        proof (intro allI impI)
          fix k assume k: "k < N" "state_sema ?t k = HUNGRY \<and> pc ?t k \<noteq> TestSelf"
          show "state_sema t k = HUNGRY \<and> pc t k \<noteq> TestSelf \<or>
            state_sema ?t (LEFT k) = EATING \<or> state_sema ?t (RIGHT k) = EATING"
            using k test_hungry [of i t k] test_done [of i t] test_eating by (cases "k = i") (auto simp: t')
        qed
      qed (use TestSelf t' in auto)
    qed
  next
    case UpMutex1
    then have t': "pc ?t = (pc t)(i := DownFork)" "state_sema ?t = state_sema t" "mutex ?t = a_up (mutex t)" "s ?t = s t"
      by (simp_all add: phi_defs)
    show ?thesis
      by (rule step_quiet [OF ok i(1) mutex_leave [OF own, where c = DownFork], where c = DownFork])
        (use UpMutex1 t' pok(1) in \<open>auto simp: critical_def phil_ok_def\<close>)
  next
    case DownFork
    then have t': "pc ?t = (pc t)(i := Eat)" "state_sema ?t = state_sema t" "mutex ?t = mutex t"
      "s ?t = (s t)(i := a_down i (s t i))"
      by (simp_all add: phi_defs)
    show ?thesis
      by (rule step_quiet [OF ok i(1) mutex_outside [OF mok i(1)], where c = Eat])
        (use DownFork t' pok(1) in \<open>auto simp: critical_def phil_ok_def a_down_def\<close>)
  next
    case Eat
    then have t': "pc ?t = (pc t)(i := DownMutex2)" "state_sema ?t = state_sema t" "mutex ?t = mutex t" "s ?t = s t"
      by (simp_all add: phi_defs)
    show ?thesis
      by (rule step_quiet [OF ok i(1) mutex_outside [OF mok i(1)], where c = DownMutex2])
        (use Eat t' pok(1) i(2) in \<open>auto simp: critical_def phil_ok_def waiting_def\<close>)
  next
    case DownMutex2
    then have t': "pc ?t = (pc t)(i := SetThinking)" "state_sema ?t = state_sema t" "mutex ?t = a_down i (mutex t)" "s ?t = s t"
      by (simp_all add: phi_defs)
    show ?thesis
      by (rule step_quiet [OF ok i(1) mutex_enter [OF mok i(1)], where c = SetThinking])
        (use DownMutex2 t' pok(1) in \<open>auto simp: critical_def phil_ok_def\<close>)
  next
    case SetThinking
    then have t': "pc ?t = (pc t)(i := TestLeft)" "state_sema ?t = (state_sema t)(i := THINKING)" "mutex ?t = mutex t" "s ?t = s t"
      by (simp_all add: phi_defs)
    have st: "state_sema t i = EATING" "s t i = (0, [])" using pok(1) SetThinking by (simp_all add: phil_ok_def)
    show ?thesis
    proof (rule table_okI)
      show "mutex_ok ?t"
        by (rule mutex_inside [OF own, where c = TestLeft]) (use SetThinking t' in \<open>auto simp: critical_def\<close>)
      show "\<forall>k < N. phil_ok ?t k"
        by (rule phil_ok_all [OF pok(2), where i = i]) (use t' st in \<open>auto simp: phil_ok_def\<close>)
      show "no_clash ?t" using nc by (auto simp: no_clash_def t')
      show "\<forall>k < N. served ?t k"
      proof (intro allI impI)
        fix k assume k: "k < N"
        have "served t k" using sv k by blast
        then show "served ?t k"
          using neighbours [OF k] SetThinking by (auto simp: served_def t')
      qed
    qed
  next
    case TestLeft
    let ?j = "LEFT i"
    from TestLeft have t': "pc ?t = (pc t)(i := TestRight)" "state_sema ?t = state_sema (phi_test_sema ?j t)"
      "mutex ?t = mutex t" "s ?t = s (phi_test_sema ?j t)"
      by (simp_all add: phi_defs)
    have cr: "critical (pc t i)" using TestLeft by (simp add: critical_def)
    show ?thesis
    proof (rule table_okI)
      show "mutex_ok ?t"
        by (rule mutex_inside [OF own [OF cr], where c = TestRight]) (use t' in \<open>auto simp: critical_def\<close>)
      have "phil_ok (phi_test_sema ?j t) ?j"
        by (rule test_phil_ok) (use pok(2) n noself [OF cr] in auto)
      moreover have "phil_ok ?t i" using pok(1) TestLeft n by (simp add: phil_ok_def t')
      ultimately show "\<forall>k < N. phil_ok ?t k"
        using pok(2) n t' phil_ok_frame [of t _ ?t] phil_ok_frame [of "phi_test_sema ?j t" ?j ?t]
        by (metis fun_upd_apply test_frame)
      show "no_clash ?t" by (rule no_clash_cong [OF test_no_clash [OF nc n(1)]]) (simp add: t')
      show "\<forall>k < N. served ?t k"
      proof (rule served_keep [OF sv])
        show "\<forall>k < N. state_sema t k = EATING \<longrightarrow> state_sema ?t k = EATING"
          by (simp add: t' test_eating)
        show "\<forall>k < N. state_sema ?t k = HUNGRY \<and> pc ?t k \<noteq> TestSelf \<longrightarrow>
            state_sema t k = HUNGRY \<and> pc t k \<noteq> TestSelf \<or>
            state_sema ?t (LEFT k) = EATING \<or> state_sema ?t (RIGHT k) = EATING"
          using test_hungry [of ?j t] by (auto simp: t' TestLeft)
        show "\<forall>k < N. state_sema ?t k = HUNGRY \<longrightarrow>
            pc t (RIGHT k) = TestLeft \<or> pc t (LEFT k) \<in> {TestLeft, TestRight} \<longrightarrow>
            pc ?t (RIGHT k) = TestLeft \<or> pc ?t (LEFT k) \<in> {TestLeft, TestRight} \<or>
            state_sema ?t (LEFT k) = EATING \<or> state_sema ?t (RIGHT k) = EATING"
        proof (intro allI impI)
          fix k assume k: "k < N" "state_sema ?t k = HUNGRY"
            "pc t (RIGHT k) = TestLeft \<or> pc t (LEFT k) \<in> {TestLeft, TestRight}"
          show "pc ?t (RIGHT k) = TestLeft \<or> pc ?t (LEFT k) \<in> {TestLeft, TestRight} \<or>
            state_sema ?t (LEFT k) = EATING \<or> state_sema ?t (RIGHT k) = EATING"
          proof (cases "RIGHT k = i")
            case True
            then have "k = ?j" using neighbours [OF k(1)] by auto
            with k(2) test_done [of ?j t] test_eating show ?thesis by (auto simp: t')
          next
            case False
            with k(3) show ?thesis by (auto simp: t')
          qed
        qed
      qed
    qed
  next
    case TestRight
    let ?j = "RIGHT i"
    from TestRight have t': "pc ?t = (pc t)(i := UpMutex2)" "state_sema ?t = state_sema (phi_test_sema ?j t)"
      "mutex ?t = mutex t" "s ?t = s (phi_test_sema ?j t)"
      by (simp_all add: phi_defs)
    have cr: "critical (pc t i)" using TestRight by (simp add: critical_def)
    show ?thesis
    proof (rule table_okI)
      show "mutex_ok ?t"
        by (rule mutex_inside [OF own [OF cr], where c = UpMutex2]) (use t' in \<open>auto simp: critical_def\<close>)
      have "phil_ok (phi_test_sema ?j t) ?j"
        by (rule test_phil_ok) (use pok(2) n noself [OF cr] in auto)
      moreover have "phil_ok ?t i" using pok(1) TestRight n by (simp add: phil_ok_def t')
      ultimately show "\<forall>k < N. phil_ok ?t k"
        using pok(2) n t' phil_ok_frame [of t _ ?t] phil_ok_frame [of "phi_test_sema ?j t" ?j ?t]
        by (metis fun_upd_apply test_frame)
      show "no_clash ?t" by (rule no_clash_cong [OF test_no_clash [OF nc n(2)]]) (simp add: t')
      show "\<forall>k < N. served ?t k"
      proof (rule served_keep [OF sv])
        show "\<forall>k < N. state_sema t k = EATING \<longrightarrow> state_sema ?t k = EATING"
          by (simp add: t' test_eating)
        show "\<forall>k < N. state_sema ?t k = HUNGRY \<and> pc ?t k \<noteq> TestSelf \<longrightarrow>
            state_sema t k = HUNGRY \<and> pc t k \<noteq> TestSelf \<or>
            state_sema ?t (LEFT k) = EATING \<or> state_sema ?t (RIGHT k) = EATING"
          using test_hungry [of ?j t] by (auto simp: t' TestRight)
        show "\<forall>k < N. state_sema ?t k = HUNGRY \<longrightarrow>
            pc t (RIGHT k) = TestLeft \<or> pc t (LEFT k) \<in> {TestLeft, TestRight} \<longrightarrow>
            pc ?t (RIGHT k) = TestLeft \<or> pc ?t (LEFT k) \<in> {TestLeft, TestRight} \<or>
            state_sema ?t (LEFT k) = EATING \<or> state_sema ?t (RIGHT k) = EATING"
        proof (intro allI impI)
          fix k assume k: "k < N" "state_sema ?t k = HUNGRY"
            "pc t (RIGHT k) = TestLeft \<or> pc t (LEFT k) \<in> {TestLeft, TestRight}"
          show "pc ?t (RIGHT k) = TestLeft \<or> pc ?t (LEFT k) \<in> {TestLeft, TestRight} \<or>
            state_sema ?t (LEFT k) = EATING \<or> state_sema ?t (RIGHT k) = EATING"
          proof (cases "LEFT k = i")
            case True
            then have "k = ?j" using neighbours [OF k(1)] by auto
            with k(2) test_done [of ?j t] test_eating show ?thesis by (auto simp: t')
          next
            case False
            with k(3) TestRight show ?thesis by (auto simp: t')
          qed
        qed
      qed
    qed
  next
    case UpMutex2
    then have t': "pc ?t = (pc t)(i := LoopTest)" "state_sema ?t = state_sema t" "mutex ?t = a_up (mutex t)" "s ?t = s t"
      by (simp_all add: phi_defs)
    show ?thesis
      by (rule step_quiet [OF ok i(1) mutex_leave [OF own, where c = LoopTest], where c = LoopTest])
        (use UpMutex2 t' pok(1) in \<open>auto simp: critical_def phil_ok_def\<close>)
  next
    case Quit
    with i(3) show ?thesis by simp
  qed
qed

lemma phi_reach_ok: "phi_reach t \<Longrightarrow> table_ok t"
proof (induction rule: phi_reach.induct)
  case start
  show ?case by (rule start_ok)
next
  case (step t t')
  then show ?case by (auto elim!: phi_stepE intro: step_ok)
qed

section \<open>Progress\<close>

lemma stuck_all_quit:
  assumes ok: "table_ok t" and stuck: "\<forall>i < N. waiting t i \<or> pc t i = Quit"
  shows "\<forall>i < N. pc t i = Quit"
proof (rule ccontr)
  assume "\<not> (\<forall>i < N. pc t i = Quit)"
  then obtain i where i: "i < N" "pc t i \<noteq> Quit" by blast
  have pok: "\<forall>k < N. phil_ok t k" using ok by (simp add: table_ok_def)
  have free: "mutex_free t"
  proof (rule ccontr)
    assume "\<not> mutex_free t"
    then obtain j where j: "mutex_owned t j" using ok by (auto simp: table_ok_def)
    then have "j < N" "critical (pc t j)" "j \<notin> set (snd (mutex t))" by (auto simp: mutex_owned_def)
    moreover have "phil_ok t j" using calculation(1) pok by blast
    then have "j \<notin> set (snd (s t j))"
      using calculation(2) by (cases "pc t j") (auto simp: phil_ok_def critical_def)
    ultimately show False using stuck by (auto simp: waiting_def critical_def)
  qed
  have hungry: "state_sema t k = HUNGRY \<and> pc t k = Eat" if "k < N" "pc t k \<noteq> Quit" for k
  proof -
    have "k \<in> set (snd (s t k))"
      using stuck that free by (auto simp: waiting_def mutex_free_def)
    moreover have "phil_ok t k" using pok that(1) by blast
    ultimately show ?thesis by (cases "pc t k") (auto simp: phil_ok_def)
  qed
  have quit: "state_sema t k = THINKING" if "k < N" "pc t k = Quit" for k
    using pok that by (auto simp: phil_ok_def)
  have none: "state_sema t k \<noteq> EATING \<and> pc t k \<notin> {TestLeft, TestRight}" if "k < N" for k
    using hungry [OF that] quit [OF that] by (cases "pc t k = Quit") auto
  have "served t i" using ok i by (simp add: table_ok_def)
  with hungry [OF i] none neighbours [OF i(1)] show False by (auto simp: served_def)
qed

text \<open>The statements a philosopher still has to run.\<close>

definition stmt_rank :: "stmt \<Rightarrow> nat" where
  "stmt_rank c = (case c of LoopTest \<Rightarrow> 0 | DownMutex1 \<Rightarrow> 11 | SetHungry \<Rightarrow> 10 | TestSelf \<Rightarrow> 9
     | UpMutex1 \<Rightarrow> 8 | DownFork \<Rightarrow> 7 | Eat \<Rightarrow> 6 | DownMutex2 \<Rightarrow> 5 | SetThinking \<Rightarrow> 4 | TestLeft \<Rightarrow> 3
     | TestRight \<Rightarrow> 2 | UpMutex2 \<Rightarrow> 1 | Quit \<Rightarrow> 0)"

definition work :: "table \<Rightarrow> nat \<Rightarrow> nat" where
  "work t i = (TIMES + 2 - iter t i) * 14 + stmt_rank (pc t i)"

definition iter_ok :: "table \<Rightarrow> bool" where
  "iter_ok t \<longleftrightarrow> (\<forall>i < N. iter t i \<le> TIMES + 1 \<and> (pc t i \<noteq> Quit \<longrightarrow> iter t i \<le> TIMES))"

lemma step_work:
  assumes "iter_ok t" "phi_step t t'"
  shows "iter_ok t' \<and> (\<Sum>i < N. work t' i) < (\<Sum>i < N. work t i)"
proof -
  from assms(2) obtain i where i: "i < N" "pc t i \<noteq> Quit" "t' = philosopher_using_semaphore i t"
    by (auto elim: phi_stepE)
  have it: "iter t i \<le> TIMES" using assms(1) i by (auto simp: iter_ok_def)
  have o: "iter t' k = iter t k \<and> pc t' k = pc t k" if "k \<noteq> i" for k
    using that i(3) by (simp add: phi_defs split: stmt.splits)
  then have w: "work t' k = work t k" if "k \<noteq> i" for k using that by (simp add: work_def)
  have "work t' i < work t i"
    using i it by (cases "pc t i") (auto simp: work_def stmt_rank_def phi_defs)
  moreover have "iter_ok t'"
    using assms(1) i it o by (cases "pc t i") (auto simp: iter_ok_def phi_defs)
  moreover have "work t' k \<le> work t k" for k
    using w [of k] calculation(1) by (cases "k = i") auto
  then have "(\<Sum>k < N. work t' k) < (\<Sum>k < N. work t k)"
    using i(1) calculation(1) by (intro sum_strict_mono_ex1) auto
  ultimately show ?thesis by simp
qed

lemma start_iter: "iter_ok phi_start"
  by (simp add: iter_ok_def phi_start_def)

lemma phi_finishes:
  "phi_reach t \<Longrightarrow> iter_ok t \<Longrightarrow> \<exists>t'. phi_step\<^sup>*\<^sup>* t t' \<and> (\<forall>i < N. pc t' i = Quit)"
proof (induction "\<Sum>i < N. work t i" arbitrary: t rule: less_induct)
  case less
  show ?case
  proof (cases "\<forall>i < N. waiting t i \<or> pc t i = Quit")
    case True
    with stuck_all_quit [OF phi_reach_ok [OF less.prems(1)]] show ?thesis by blast
  next
    case False
    then obtain i where i: "i < N" "\<not> waiting t i" "pc t i \<noteq> Quit" by blast
    let ?t = "philosopher_using_semaphore i t"
    have st: "phi_step t ?t" by (rule phi_step.intros [OF i])
    from less.hyps [OF _ phi_reach.step [OF less.prems(1) st]] step_work [OF less.prems(2) st] st
    show ?thesis by (meson converse_rtranclp_into_rtranclp)
  qed
qed

section \<open>Properties\<close>

text \<open>C14: in every state the philosophers can reach, under any interleaving, two
  neighbours are never both in the eating phase, and a philosopher that has got past its
  \<^verbatim>\<open>down\<close> on its fork semaphore is eating.\<close>
theorem neighbours_never_eat_together:
  assumes "phi_reach t" "i < N"
  shows "\<not> (state_sema t i = EATING \<and> state_sema t (RIGHT i) = EATING) \<and>
    (pc t i = Eat \<and> \<not> waiting t i \<longrightarrow> state_sema t i = EATING)"
proof -
  have ok: "table_ok t" by (rule phi_reach_ok [OF assms(1)])
  then have "phil_ok t i" "no_clash t" using assms(2) by (simp_all add: table_ok_def)
  with assms(2) show ?thesis by (auto simp: no_clash_def phil_ok_def waiting_def)
qed


theorem neighbours_never_eat_together_witness:
  "\<not> (state_sema phi_start 4 = EATING \<and> state_sema phi_start (RIGHT 4) = EATING)"
  using neighbours_never_eat_together [OF phi_reach.start, of 4] by simp


end
