(* ===== verification/Ramdisk.thy ===== *)
theory Ramdisk
  imports Str
begin

text \<open>
  kern/driver/ide.c and kern/driver/ramdisk.c: the table of disks, each an image in memory
  that \<^verbatim>\<open>ramdisk_read\<close> and \<^verbatim>\<open>ramdisk_write\<close> copy sectors from and to. The
  memory is the byte memory of libs/string.c; \<^verbatim>\<open>size_t\<close> arithmetic wraps at 64 bits
  and the sector number of the \<^verbatim>\<open>ide_*\<close> calls is cut to 32 bits. The two images linked
  into the kernel are given by their start and end addresses.
\<close>

section \<open>The program\<close>

abbreviation SECTSIZE :: nat where "SECTSIZE \<equiv> 512"
abbreviation PAGE_NSECT :: nat where "PAGE_NSECT \<equiv> 8"
abbreviation SWAP_DEV_NO :: nat where "SWAP_DEV_NO \<equiv> 1"
abbreviation DISK0_DEV_NO :: nat where "DISK0_DEV_NO \<equiv> 2"

record ide_device =
  valid :: bool
  dsize :: nat
  iobase :: nat

definition MAX_IDE :: nat where "MAX_IDE = 4"
definition MAX_NSECS :: nat where "MAX_NSECS = 128"
definition MAX_DISK_NSECS :: nat where "MAX_DISK_NSECS = 0x10000000"

type_synonym disks = "nat \<Rightarrow> ide_device"

definition VALID_IDE :: "disks \<Rightarrow> nat \<Rightarrow> bool" where
  "VALID_IDE ds ideno \<longleftrightarrow> ideno < MAX_IDE \<and> valid (ds ideno)"

definition clamp_secs :: "ide_device \<Rightarrow> nat \<Rightarrow> nat \<Rightarrow> nat" where
  "clamp_secs dev secno nsecs = min nsecs (w64 (dsize dev + 2 ^ 64 - secno))"

text \<open>The test \<^verbatim>\<open>nsecs < 0\<close> of the code is false for every unsigned value.\<close>

definition ramdisk_read :: "ide_device \<Rightarrow> nat \<Rightarrow> nat \<Rightarrow> nat \<Rightarrow> mem \<Rightarrow> int \<times> mem" where
  "ramdisk_read dev secno dst nsecs m =
     (0, snd (memcpy dst (iobase dev + secno * SECTSIZE) (clamp_secs dev secno nsecs * SECTSIZE) m))"

definition ramdisk_write :: "ide_device \<Rightarrow> nat \<Rightarrow> nat \<Rightarrow> nat \<Rightarrow> mem \<Rightarrow> int \<times> mem" where
  "ramdisk_write dev secno src nsecs m =
     (0, snd (memcpy (iobase dev + secno * SECTSIZE) src (clamp_secs dev secno nsecs * SECTSIZE) m))"

definition check_initrd :: "nat \<Rightarrow> nat \<Rightarrow> bool" where
  "check_initrd initrd_begin initrd_end \<longleftrightarrow> initrd_begin \<noteq> initrd_end"

definition ramdisk_init :: "nat \<times> nat \<Rightarrow> nat \<times> nat \<Rightarrow> nat \<Rightarrow> disks \<Rightarrow> disks option" where
  "ramdisk_init swap_img sfs_img devno ds =
     (let ds = ds(devno := \<lparr>valid = False, dsize = 0, iobase = 0\<rparr>)
      in do { img \<leftarrow> (if devno = SWAP_DEV_NO then Some swap_img
                      else if devno = DISK0_DEV_NO then Some sfs_img else None);
              if check_initrd (fst img) (snd img) then
                Some (ds(devno := \<lparr>valid = True, dsize = w32 (snd img - fst img) div SECTSIZE, iobase = fst img\<rparr>))
              else Some ds })"

definition ide_init :: "nat \<times> nat \<Rightarrow> nat \<times> nat \<Rightarrow> disks \<Rightarrow> disks option" where
  "ide_init swap_img sfs_img ds =
     do { let ds = (\<lambda>n. if n < MAX_IDE then (ds n)\<lparr>valid := False\<rparr> else ds n);
          ds \<leftarrow> ramdisk_init swap_img sfs_img SWAP_DEV_NO ds;
          kassert (VALID_IDE ds SWAP_DEV_NO);
          ds \<leftarrow> ramdisk_init swap_img sfs_img DISK0_DEV_NO ds;
          kassert (VALID_IDE ds DISK0_DEV_NO);
          Some ds }"

definition ide_device_valid :: "nat \<Rightarrow> disks \<Rightarrow> bool" where
  "ide_device_valid ideno ds = VALID_IDE ds ideno"

definition ide_device_size :: "nat \<Rightarrow> disks \<Rightarrow> nat" where
  "ide_device_size ideno ds = (if ide_device_valid ideno ds then dsize (ds ideno) else 0)"

definition ide_read_secs :: "disks \<Rightarrow> nat \<Rightarrow> nat \<Rightarrow> nat \<Rightarrow> nat \<Rightarrow> mem \<Rightarrow> (int \<times> mem) option" where
  "ide_read_secs ds ideno secno dst nsecs m =
     do { kassert (nsecs \<le> MAX_NSECS \<and> VALID_IDE ds ideno);
          kassert (secno < MAX_DISK_NSECS \<and> secno + nsecs \<le> MAX_DISK_NSECS);
          Some (ramdisk_read (ds ideno) secno dst nsecs m) }"

definition ide_write_secs :: "disks \<Rightarrow> nat \<Rightarrow> nat \<Rightarrow> nat \<Rightarrow> nat \<Rightarrow> mem \<Rightarrow> (int \<times> mem) option" where
  "ide_write_secs ds ideno secno src nsecs m =
     do { kassert (nsecs \<le> MAX_NSECS \<and> VALID_IDE ds ideno);
          kassert (secno < MAX_DISK_NSECS \<and> secno + nsecs \<le> MAX_DISK_NSECS);
          Some (ramdisk_write (ds ideno) secno src nsecs m) }"

section \<open>Transfers inside the disk\<close>

lemmas ide_defs = ide_read_secs_def ide_write_secs_def ramdisk_read_def ramdisk_write_def

lemma clamp_inside: "secno + nsecs \<le> dsize dev \<Longrightarrow> dsize dev < 2 ^ 32 \<Longrightarrow> clamp_secs dev secno nsecs = nsecs"
proof -
  assume a: "secno + nsecs \<le> dsize dev" "dsize dev < 2 ^ 32"
  then have "dsize dev + 2 ^ 64 - secno = (dsize dev - secno) + 2 ^ 64" by simp
  then have "w64 (dsize dev + 2 ^ 64 - secno) = dsize dev - secno"
    using a(2) by (simp only: mod_add_self2) simp
  with a(1) show ?thesis by (simp add: clamp_secs_def)
qed

text \<open>
  A sector number above the size is not refused: the subtraction wraps around, nothing
  is clamped, and the copy runs behind the image.
\<close>

lemma clamp_outside:
  assumes "dsize dev < secno" "secno < 2 ^ 32" "nsecs \<le> 2 ^ 32"
  shows "clamp_secs dev secno nsecs = nsecs"
proof -
  have "w64 (dsize dev + 2 ^ 64 - secno) = dsize dev + 2 ^ 64 - secno"
    using assms by simp
  with assms show ?thesis by (simp add: clamp_secs_def)
qed

definition bytes_at :: "mem \<Rightarrow> nat \<Rightarrow> nat \<Rightarrow> byte list" where
  "bytes_at m a n = map (\<lambda>i. m (a + i)) [0..<n]"

lemma bytes_at_eq: "bytes_at m a n = bytes_at m' b n \<longleftrightarrow> (\<forall>i < n. m (a + i) = m' (b + i))"
  by (auto simp: bytes_at_def)

definition disjoint :: "nat \<Rightarrow> nat \<Rightarrow> nat \<Rightarrow> nat \<Rightarrow> bool" where
  "disjoint a n b k \<longleftrightarrow> a + n \<le> b \<or> b + k \<le> a"

definition usable_disk :: "disks \<Rightarrow> nat \<Rightarrow> bool" where
  "usable_disk ds ideno \<longleftrightarrow> VALID_IDE ds ideno \<and> dsize (ds ideno) \<le> MAX_DISK_NSECS"

definition sector_addr :: "disks \<Rightarrow> nat \<Rightarrow> nat \<Rightarrow> nat" where
  "sector_addr ds ideno secno = iobase (ds ideno) + secno * SECTSIZE"

lemma ide_write_inside:
  assumes "usable_disk ds ideno" "secno + nsecs \<le> dsize (ds ideno)" "0 < nsecs" "nsecs \<le> MAX_NSECS"
    "disjoint (sector_addr ds ideno secno) (nsecs * SECTSIZE) src (nsecs * SECTSIZE)"
  shows "ide_write_secs ds ideno secno src nsecs m =
    Some (0, copied (sector_addr ds ideno secno) src (nsecs * SECTSIZE) m)"
  using assms
  by (auto simp: ide_defs usable_disk_def clamp_inside MAX_DISK_NSECS_def sector_addr_def disjoint_def
      memcpy_eq)

lemma ide_read_inside:
  assumes "usable_disk ds ideno" "secno + nsecs \<le> dsize (ds ideno)" "0 < nsecs" "nsecs \<le> MAX_NSECS"
    "disjoint (sector_addr ds ideno secno) (nsecs * SECTSIZE) dst (nsecs * SECTSIZE)"
  shows "ide_read_secs ds ideno secno dst nsecs m =
    Some (0, copied dst (sector_addr ds ideno secno) (nsecs * SECTSIZE) m)"
  using assms
  by (auto simp: ide_defs usable_disk_def clamp_inside MAX_DISK_NSECS_def sector_addr_def disjoint_def
      memcpy_eq)

end
