(* ===== verification/Swap.thy ===== *)
theory Swap
  imports PmmFirstFit Ramdisk
begin

text \<open>
  kern/mm/swap.c with the swap managers of kern/mm/swap_fifo.c (lab8) and
  kern/mm/swap_clock.c and kern/mm/swap_lru.c (lab3), kern/fs/swap/swapfs.c, and the page
  allocation loop of kern/mm/pmm.c that swaps out under memory pressure. The list of
  swappable pages is the pointer list of libs/list.h; \<^verbatim>\<open>le2page\<close> of the list head is no
  page, and a manager that would use it does not return. There is one \<^verbatim>\<open>mm\<close>, the
  \<^verbatim>\<open>check_mm_struct\<close> that the kernel swaps for. \<^verbatim>\<open>get_pte\<close> is read as the slot
  of the virtual page number, absent where the page table is.
\<close>

section \<open>Swap managers\<close>

datatype pra_le = PraHead | PraLink nat

fun pra_le2page :: "pra_le \<Rightarrow> nat option" where
  "pra_le2page PraHead = None"
| "pra_le2page (PraLink p) = Some p"

record pra =
  plinks :: "pra_le links"
  curr_ptr :: pra_le
  visited :: "nat \<Rightarrow> bool"
  sm_priv :: "pra_le option"

type_synonym slots = "nat \<Rightarrow> nat option"

record swap_manager =
  sm_init_mm :: "pra \<Rightarrow> int \<times> pra"
  sm_tick_event :: "(nat \<Rightarrow> nat) \<Rightarrow> slots \<times> pra \<Rightarrow> (int \<times> slots \<times> pra) option"
  sm_map_swappable :: "nat \<Rightarrow> nat \<Rightarrow> int \<Rightarrow> pra \<Rightarrow> (int \<times> pra) option"
  sm_set_unswappable :: "nat \<Rightarrow> pra \<Rightarrow> int \<times> pra"
  sm_swap_out_victim :: "int \<Rightarrow> pra \<Rightarrow> (int \<times> nat option \<times> pra) option"

subsection \<open>First in, first out (lab8/kern/mm/swap_fifo.c)\<close>

definition fifo_init_mm :: "pra \<Rightarrow> int \<times> pra" where
  "fifo_init_mm q = (0, q\<lparr>plinks := list_init PraHead (plinks q), sm_priv := Some PraHead\<rparr>)"

definition fifo_map_swappable :: "nat \<Rightarrow> nat \<Rightarrow> int \<Rightarrow> pra \<Rightarrow> (int \<times> pra) option" where
  "fifo_map_swappable addr page swap_in q =
     do { kassert (sm_priv q \<noteq> None);
          head \<leftarrow> sm_priv q;
          Some (0, q\<lparr>plinks := list_add_before head (PraLink page) (plinks q)\<rparr>) }"

definition fifo_swap_out_victim :: "int \<Rightarrow> pra \<Rightarrow> (int \<times> nat option \<times> pra) option" where
  "fifo_swap_out_victim in_tick q =
     do { kassert (sm_priv q \<noteq> None);
          kassert (in_tick = 0);
          head \<leftarrow> sm_priv q;
          let entry = list_next head (plinks q);
          let q = q\<lparr>plinks := list_del entry (plinks q)\<rparr>;
          page \<leftarrow> pra_le2page entry;
          Some (0, Some page, q) }"

definition fifo_set_unswappable :: "nat \<Rightarrow> pra \<Rightarrow> int \<times> pra" where
  "fifo_set_unswappable addr q = (0, q)"

definition fifo_tick_event :: "(nat \<Rightarrow> nat) \<Rightarrow> slots \<times> pra \<Rightarrow> (int \<times> slots \<times> pra) option" where
  "fifo_tick_event va sq = Some (0, sq)"

definition swap_manager_fifo :: swap_manager where
  "swap_manager_fifo = \<lparr>sm_init_mm = fifo_init_mm, sm_tick_event = fifo_tick_event,
     sm_map_swappable = fifo_map_swappable, sm_set_unswappable = fifo_set_unswappable,
     sm_swap_out_victim = fifo_swap_out_victim\<rparr>"

subsection \<open>Clock (lab3/kern/mm/swap_clock.c)\<close>

definition clock_init_mm :: "pra \<Rightarrow> int \<times> pra" where
  "clock_init_mm q =
     (0, q\<lparr>plinks := list_init PraHead (plinks q), curr_ptr := PraHead, sm_priv := Some PraHead\<rparr>)"

definition clock_map_swappable :: "nat \<Rightarrow> nat \<Rightarrow> int \<Rightarrow> pra \<Rightarrow> (int \<times> pra) option" where
  "clock_map_swappable addr page swap_in q =
     do { head \<leftarrow> sm_priv q;
          let q = q\<lparr>plinks := list_add (list_prev head (plinks q)) (PraLink page) (plinks q)\<rparr>;
          Some (0, q\<lparr>visited := (visited q)(page := True)\<rparr>) }"

partial_function (option) clock_loop :: "pra \<Rightarrow> (nat \<times> pra) option" where
  "clock_loop q =
     (let q = (if curr_ptr q = PraHead then q\<lparr>curr_ptr := list_next (curr_ptr q) (plinks q)\<rparr> else q)
      in do { ptr \<leftarrow> pra_le2page (curr_ptr q);
              if visited q ptr then
                let q = q\<lparr>visited := (visited q)(ptr := False)\<rparr>
                in clock_loop (q\<lparr>curr_ptr := list_next (curr_ptr q) (plinks q)\<rparr>)
              else
                let q = q\<lparr>curr_ptr := list_next (curr_ptr q) (plinks q)\<rparr>
                in Some (ptr, q\<lparr>plinks := list_del (list_prev (curr_ptr q) (plinks q)) (plinks q)\<rparr>) })"

definition clock_swap_out_victim :: "int \<Rightarrow> pra \<Rightarrow> (int \<times> nat option \<times> pra) option" where
  "clock_swap_out_victim in_tick q =
     do { kassert (sm_priv q \<noteq> None);
          kassert (in_tick = 0);
          (page, q) \<leftarrow> clock_loop q;
          Some (0, Some page, q) }"

definition clock_set_unswappable :: "nat \<Rightarrow> pra \<Rightarrow> int \<times> pra" where
  "clock_set_unswappable addr q = (0, q)"

definition clock_tick_event :: "(nat \<Rightarrow> nat) \<Rightarrow> slots \<times> pra \<Rightarrow> (int \<times> slots \<times> pra) option" where
  "clock_tick_event va sq = Some (0, sq)"

definition swap_manager_clock :: swap_manager where
  "swap_manager_clock = \<lparr>sm_init_mm = clock_init_mm, sm_tick_event = clock_tick_event,
     sm_map_swappable = clock_map_swappable, sm_set_unswappable = clock_set_unswappable,
     sm_swap_out_victim = clock_swap_out_victim\<rparr>"

subsection \<open>Least recently used (lab3/kern/mm/swap_lru.c)\<close>

definition lru_init_mm :: "pra \<Rightarrow> int \<times> pra" where
  "lru_init_mm q = (0, q\<lparr>plinks := list_init PraHead (plinks q), sm_priv := Some PraHead\<rparr>)"

definition lru_map_swappable :: "nat \<Rightarrow> nat \<Rightarrow> int \<Rightarrow> pra \<Rightarrow> (int \<times> pra) option" where
  "lru_map_swappable addr page swap_in q =
     do { kassert (sm_priv q \<noteq> None);
          head \<leftarrow> sm_priv q;
          Some (0, q\<lparr>plinks := list_add head (PraLink page) (plinks q)\<rparr>) }"

definition lru_swap_out_victim :: "int \<Rightarrow> pra \<Rightarrow> (int \<times> nat option \<times> pra) option" where
  "lru_swap_out_victim in_tick q =
     do { kassert (sm_priv q \<noteq> None);
          kassert (in_tick = 0);
          head \<leftarrow> sm_priv q;
          let entry = list_prev head (plinks q);
          if entry \<noteq> head then do {
            let q = q\<lparr>plinks := list_del entry (plinks q)\<rparr>;
            page \<leftarrow> pra_le2page entry;
            Some (0, Some page, q) }
          else Some (0, None, q) }"

abbreviation PTE_A_BIT :: nat where "PTE_A_BIT \<equiv> 6"

partial_function (option) lru_tick_loop :: "(nat \<Rightarrow> nat) \<Rightarrow> pra_le \<Rightarrow> slots \<times> pra \<Rightarrow> pra_le \<Rightarrow> (slots \<times> pra) option" where
  "lru_tick_loop va head sq entry =
     (if entry \<noteq> head then do {
        page \<leftarrow> pra_le2page entry;
        pte \<leftarrow> fst sq (va page div PGSIZE);
        let q = snd sq;
        let sq = (if bit pte PTE_A_BIT then
                    ((fst sq)(va page div PGSIZE \<mapsto> unset_bit PTE_A_BIT pte),
                     q\<lparr>plinks := list_add head entry (list_del entry (plinks q))\<rparr>)
                  else sq);
        lru_tick_loop va head sq (list_prev head (plinks (snd sq))) }
      else Some sq)"

definition lru_tick_event :: "(nat \<Rightarrow> nat) \<Rightarrow> slots \<times> pra \<Rightarrow> (int \<times> slots \<times> pra) option" where
  "lru_tick_event va sq =
     do { kassert (sm_priv (snd sq) \<noteq> None);
          head \<leftarrow> sm_priv (snd sq);
          sq \<leftarrow> lru_tick_loop va head sq (list_next head (plinks (snd sq)));
          Some (0, sq) }"

definition lru_set_unswappable :: "nat \<Rightarrow> pra \<Rightarrow> int \<times> pra" where
  "lru_set_unswappable addr q = (0, q)"

definition swap_manager_lru :: swap_manager where
  "swap_manager_lru = \<lparr>sm_init_mm = lru_init_mm, sm_tick_event = lru_tick_event,
     sm_map_swappable = lru_map_swappable, sm_set_unswappable = lru_set_unswappable,
     sm_swap_out_victim = lru_swap_out_victim\<rparr>"

section \<open>Swapping (lab8/kern/mm/swap.c, lab8/kern/fs/swap/swapfs.c)\<close>

record swapst =
  pra :: pra
  pra_vaddr :: "nat \<Rightarrow> nat"
  ptes :: slots
  pm :: pmm
  kmem :: mem
  ides :: disks
  max_swap_offset :: nat
  swap_init_ok :: bool
  npage :: nat
  va_pa_offset :: nat

definition MAX_SWAP_OFFSET_LIMIT :: nat where "MAX_SWAP_OFFSET_LIMIT = 2 ^ 24"

definition page2kva :: "swapst \<Rightarrow> nat \<Rightarrow> nat option" where
  "page2kva st page =
     do { kassert (page + nbase < npage st);
          Some (w64 ((page + nbase) * PGSIZE + va_pa_offset st)) }"

definition swap_offset :: "swapst \<Rightarrow> nat \<Rightarrow> nat option" where
  "swap_offset st entry =
     (let offset = entry div 2 ^ 8
      in do { kassert (0 < offset \<and> offset < max_swap_offset st); Some offset })"

definition swapfs_init :: "swapst \<Rightarrow> swapst option" where
  "swapfs_init st =
     do { kassert (ide_device_valid SWAP_DEV_NO (ides st));
          Some (st\<lparr>max_swap_offset := ide_device_size SWAP_DEV_NO (ides st) div (PGSIZE div SECTSIZE)\<rparr>) }"

definition swapfs_read :: "nat \<Rightarrow> nat \<Rightarrow> swapst \<Rightarrow> (int \<times> swapst) option" where
  "swapfs_read entry page st =
     do { offset \<leftarrow> swap_offset st entry;
          kva \<leftarrow> page2kva st page;
          (r, m) \<leftarrow> ide_read_secs (ides st) SWAP_DEV_NO (w32 (offset * PAGE_NSECT)) kva PAGE_NSECT (kmem st);
          Some (r, st\<lparr>kmem := m\<rparr>) }"

definition swapfs_write :: "nat \<Rightarrow> nat \<Rightarrow> swapst \<Rightarrow> (int \<times> swapst) option" where
  "swapfs_write entry page st =
     do { offset \<leftarrow> swap_offset st entry;
          kva \<leftarrow> page2kva st page;
          (r, m) \<leftarrow> ide_write_secs (ides st) SWAP_DEV_NO (w32 (offset * PAGE_NSECT)) kva PAGE_NSECT (kmem st);
          Some (r, st\<lparr>kmem := m\<rparr>) }"

definition swap_entry :: "nat \<Rightarrow> nat" where
  "swap_entry v = w64 ((v div PGSIZE + 1) * 2 ^ 8)"

definition swap_init_mm :: "swap_manager \<Rightarrow> swapst \<Rightarrow> int \<times> swapst" where
  "swap_init_mm sm st = (let (r, q) = sm_init_mm sm (pra st) in (r, st\<lparr>pra := q\<rparr>))"

definition swap_tick_event :: "swap_manager \<Rightarrow> swapst \<Rightarrow> (int \<times> swapst) option" where
  "swap_tick_event sm st =
     do { (r, pt, q) \<leftarrow> sm_tick_event sm (pra_vaddr st) (ptes st, pra st);
          Some (r, st\<lparr>ptes := pt, pra := q\<rparr>) }"

definition swap_map_swappable :: "swap_manager \<Rightarrow> nat \<Rightarrow> nat \<Rightarrow> int \<Rightarrow> swapst \<Rightarrow> (int \<times> swapst) option" where
  "swap_map_swappable sm addr page swap_in st =
     do { (r, q) \<leftarrow> sm_map_swappable sm addr page swap_in (pra st);
          Some (r, st\<lparr>pra := q\<rparr>) }"

definition swap_set_unswappable :: "swap_manager \<Rightarrow> nat \<Rightarrow> swapst \<Rightarrow> int \<times> swapst" where
  "swap_set_unswappable sm addr st =
     (let (r, q) = sm_set_unswappable sm addr (pra st) in (r, st\<lparr>pra := q\<rparr>))"

partial_function (option) swap_out_loop :: "swap_manager \<Rightarrow> int \<Rightarrow> int \<Rightarrow> int \<Rightarrow> swapst \<Rightarrow> (int \<times> swapst) option" where
  "swap_out_loop sm i n in_tick st =
     (if i \<noteq> n then do {
        (r, ptr_page, q) \<leftarrow> sm_swap_out_victim sm in_tick (pra st);
        let st = st\<lparr>pra := q\<rparr>;
        if r \<noteq> 0 then Some (i, st)
        else do {
          page \<leftarrow> ptr_page;
          let v = pra_vaddr st page;
          pte \<leftarrow> ptes st (v div PGSIZE);
          kassert (bit pte 0);
          (w, st) \<leftarrow> swapfs_write (swap_entry (pra_vaddr st page)) page st;
          if w \<noteq> 0 then do {
            (r, q) \<leftarrow> sm_map_swappable sm v page 0 (pra st);
            swap_out_loop sm (i + 1) n in_tick (st\<lparr>pra := q\<rparr>) }
          else do {
            let st = st\<lparr>ptes := (ptes st)(v div PGSIZE \<mapsto> swap_entry (pra_vaddr st page))\<rparr>;
            m \<leftarrow> default_free_pages page 1 (pm st);
            swap_out_loop sm (i + 1) n in_tick (st\<lparr>pm := m\<rparr>) } } }
      else Some (i, st))"

definition swap_out :: "swap_manager \<Rightarrow> int \<Rightarrow> int \<Rightarrow> swapst \<Rightarrow> (int \<times> swapst) option" where
  "swap_out sm n in_tick st = swap_out_loop sm 0 n in_tick st"

text \<open>\<^verbatim>\<open>alloc_pages\<close> of kern/mm/pmm.c: a single page is swapped out and the call retried.\<close>

partial_function (option) alloc_pages :: "swap_manager \<Rightarrow> nat \<Rightarrow> swapst \<Rightarrow> (nat option \<times> swapst) option" where
  "alloc_pages sm n st =
     do { (page, m) \<leftarrow> default_alloc_pages n (pm st);
          let st = st\<lparr>pm := m\<rparr>;
          if page \<noteq> None \<or> 1 < n \<or> \<not> swap_init_ok st then Some (page, st)
          else do {
            (r, st) \<leftarrow> swap_out sm (int n) 0 st;
            alloc_pages sm n st } }"

definition swap_in :: "swap_manager \<Rightarrow> nat \<Rightarrow> swapst \<Rightarrow> (int \<times> nat \<times> swapst) option" where
  "swap_in sm addr st =
     do { (result, st) \<leftarrow> alloc_pages sm 1 st;
          kassert (result \<noteq> None);
          page \<leftarrow> result;
          pte \<leftarrow> ptes st (addr div PGSIZE);
          (r, st) \<leftarrow> swapfs_read pte page st;
          Some (0, page, st) }"

definition swap_init :: "swapst \<Rightarrow> (int \<times> swapst) option" where
  "swap_init st =
     do { st \<leftarrow> swapfs_init st;
          kassert (7 \<le> max_swap_offset st \<and> max_swap_offset st < MAX_SWAP_OFFSET_LIMIT);
          Some (0, st\<lparr>swap_init_ok := True\<rparr>) }"

section \<open>The managers keep a queue of pages\<close>

definition fifo_queued :: "pra \<Rightarrow> nat list \<Rightarrow> bool" where
  "fifo_queued q ps \<longleftrightarrow> sm_priv q = Some PraHead \<and> ring (plinks q) PraHead (map PraLink ps)"

definition lru_queued :: "pra \<Rightarrow> nat list \<Rightarrow> bool" where
  "lru_queued q ps \<longleftrightarrow> sm_priv q = Some PraHead \<and> ring (plinks q) PraHead (map PraLink (rev ps))"

text \<open>The clock: the pages from the hand to the end of the list, and those before it.\<close>

definition clock_at :: "pra \<Rightarrow> nat list \<Rightarrow> nat list \<Rightarrow> bool" where
  "clock_at q us vs \<longleftrightarrow> sm_priv q = Some PraHead \<and>
     ring (plinks q) PraHead (map PraLink us @ map PraLink vs) \<and>
     curr_ptr q = hd (map PraLink vs @ [PraHead])"

definition clock_queued :: "pra \<Rightarrow> nat list \<Rightarrow> bool" where
  "clock_queued q ps \<longleftrightarrow> (\<exists>us vs. clock_at q us vs \<and> ps = vs @ us)"

lemma fifo_map: "fifo_queued q ps \<Longrightarrow> p \<notin> set ps \<Longrightarrow>
   \<exists>q'. fifo_map_swappable a p f q = Some (0, q') \<and> fifo_queued q' (ps @ [p])"
  using ring_add_tail [of "plinks q" PraHead "map PraLink ps" "PraLink p"]
  by (auto simp: fifo_map_swappable_def fifo_queued_def)

lemma fifo_victim: "fifo_queued q (p # ps) \<Longrightarrow>
   \<exists>q'. fifo_swap_out_victim 0 q = Some (0, Some p, q') \<and> fifo_queued q' ps"
  using ring_del [of "plinks q" PraHead "[]" "PraLink p" "map PraLink ps"]
  by (auto simp: fifo_swap_out_victim_def fifo_queued_def list_next_def ring_next)

lemma lru_map: "lru_queued q ps \<Longrightarrow> p \<notin> set ps \<Longrightarrow>
   \<exists>q'. lru_map_swappable a p f q = Some (0, q') \<and> lru_queued q' (ps @ [p])"
  using ring_add_head [of "plinks q" PraHead "map PraLink (rev ps)" "PraLink p"]
  by (auto simp: lru_map_swappable_def lru_queued_def)

lemma lru_victim: "lru_queued q (p # ps) \<Longrightarrow>
   \<exists>q'. lru_swap_out_victim 0 q = Some (0, Some p, q') \<and> lru_queued q' ps"
  using ring_del [of "plinks q" PraHead "map PraLink (rev ps)" "PraLink p" "[]"]
  by (auto simp: lru_swap_out_victim_def lru_queued_def list_prev_def ring_prev)

lemma clock_map:
  assumes "clock_at q us vs" "p \<notin> set (us @ vs)"
  shows "\<exists>q'. clock_map_swappable a p f q = Some (0, q') \<and> visited q' = (visited q)(p := True) \<and>
    (if vs = [] then clock_at q' (us @ [p]) [] else clock_at q' us (vs @ [p]))"
proof -
  let ?xs = "map PraLink us @ map PraLink vs"
  have r: "ring (plinks q) PraHead ?xs" using assms(1) by (simp add: clock_at_def)
  have e: "list_add (list_prev PraHead (plinks q)) (PraLink p) (plinks q) = list_add_before PraHead (PraLink p) (plinks q)"
    using ring_next_last [of "plinks q" PraHead ?xs "[]"] r ring_prev [OF r]
    by (simp add: list_add_defs list_prev_def)
  have "ring (list_add_before PraHead (PraLink p) (plinks q)) PraHead (?xs @ [PraLink p])"
    using assms(2) by (intro ring_add_tail [OF r]) auto
  then show ?thesis
    using assms(1) by (cases vs) (auto simp: clock_map_swappable_def clock_at_def e)
qed

text \<open>One step of the hand over a visited page, and the stop at an unvisited one.\<close>

lemma clock_wrap:
  assumes "clock_at q us []" "us \<noteq> []"
  shows "\<exists>q'. clock_at q' [] us \<and> clock_loop q = clock_loop q' \<and> visited q' = visited q"
proof -
  let ?q = "q\<lparr>curr_ptr := list_next (curr_ptr q) (plinks q)\<rparr>"
  obtain u us' where u: "us = u # us'" using assms(2) by (cases us) auto
  have "curr_ptr q = PraHead" "ring (plinks q) PraHead (map PraLink us)"
    using assms(1) by (simp_all add: clock_at_def)
  then have n: "curr_ptr ?q = PraLink u" by (simp add: list_next_def ring_next u)
  moreover have "clock_loop q = clock_loop ?q"
    by (subst (1 2) clock_loop.simps) (use n \<open>curr_ptr q = PraHead\<close> in \<open>simp add: Let_def\<close>)
  ultimately show ?thesis
    using assms(1) u by (intro exI [of _ ?q]) (simp add: clock_at_def)
qed

lemma clock_next: "clock_at q us (v # vs) \<Longrightarrow> nxt (plinks q) (PraLink v) = hd (map PraLink vs @ [PraHead])"
  using ring_next_mid [of "plinks q" PraHead "map PraLink us" "PraLink v" "map PraLink vs"]
  by (simp add: clock_at_def)

lemma clock_pass:
  assumes "clock_at q us (v # vs)" "visited q v"
  shows "\<exists>q'. clock_at q' (us @ [v]) vs \<and> clock_loop q = clock_loop q' \<and>
    visited q' = (visited q)(v := False)"
proof -
  let ?q = "q\<lparr>visited := (visited q)(v := False), curr_ptr := hd (map PraLink vs @ [PraHead])\<rparr>"
  have c: "curr_ptr q = PraLink v" using assms(1) by (simp add: clock_at_def)
  have "clock_loop q = clock_loop ?q"
    by (subst clock_loop.simps) (simp add: c assms(2) list_next_def clock_next [OF assms(1)] Let_def)
  moreover have "clock_at ?q (us @ [v]) vs" using assms(1) by (simp add: clock_at_def)
  ultimately show ?thesis by (intro exI [of _ ?q]) simp
qed

lemma clock_stop:
  assumes "clock_at q us (v # vs)" "\<not> visited q v"
  shows "\<exists>q'. clock_loop q = Some (v, q') \<and> clock_at q' us vs \<and> visited q' = visited q"
proof -
  let ?n = "hd (map PraLink vs @ [PraHead])"
  have c: "curr_ptr q = PraLink v" and p: "sm_priv q = Some PraHead"
    and r: "ring (plinks q) PraHead (map PraLink us @ PraLink v # map PraLink vs)"
    using assms(1) by (simp_all add: clock_at_def)
  have pr: "prv (plinks q) ?n = PraLink v"
    using ring_prev_hd [of "plinks q" PraHead "map PraLink us @ [PraLink v]" "map PraLink vs"] r by simp
  have "clock_loop q = Some (v, q\<lparr>curr_ptr := ?n, plinks := list_del (PraLink v) (plinks q)\<rparr>)"
    by (subst clock_loop.simps)
      (simp add: c assms(2) list_next_def list_prev_def clock_next [OF assms(1)] Let_def pr)
  moreover have "ring (list_del (PraLink v) (plinks q)) PraHead (map PraLink us @ map PraLink vs)"
    by (rule ring_del [OF r])
  ultimately show ?thesis using p by (simp add: clock_at_def)
qed

definition cleared :: "nat list \<Rightarrow> (nat \<Rightarrow> bool) \<Rightarrow> nat \<Rightarrow> bool" where
  "cleared ps v = (\<lambda>p. v p \<and> p \<notin> set ps)"

lemma clock_enter:
  assumes "clock_at q us vs" "vs @ us \<noteq> []"
  obtains q' us' vs' where "clock_at q' us' vs'" "vs' @ us' = vs @ us" "vs' \<noteq> []"
    "clock_loop q = clock_loop q'" "visited q' = visited q"
proof (cases "vs = []")
  case True
  with assms clock_wrap [of q us] that [of _ "[]" us] show ?thesis by auto
next
  case False
  with assms that [of q us vs] show ?thesis by simp
qed

lemma clock_skip:
  "clock_at q us vs \<Longrightarrow> vs @ us = pre @ rest \<Longrightarrow> distinct (pre @ rest) \<Longrightarrow> \<forall>p \<in> set pre. visited q p \<Longrightarrow>
   \<exists>q' us' vs'. clock_at q' us' vs' \<and> vs' @ us' = rest @ pre \<and> clock_loop q = clock_loop q' \<and>
     visited q' = cleared pre (visited q)"
proof (induction pre arbitrary: q us vs rest)
  case Nil
  then show ?case by (intro exI [of _ q] exI [of _ us] exI [of _ vs]) (simp add: cleared_def)
next
  case (Cons p pre)
  from Cons.prems(1,2) obtain q1 us1 vs1 where 1: "clock_at q1 us1 vs1" "vs1 @ us1 = p # pre @ rest"
    "vs1 \<noteq> []" "clock_loop q = clock_loop q1" "visited q1 = visited q"
    by (auto elim!: clock_enter [of q us vs])
  then obtain vs2 where vs1: "vs1 = p # vs2" by (cases vs1) auto
  from clock_pass [of q1 us1 p vs2] 1 vs1 Cons.prems(4) obtain q2
    where 2: "clock_at q2 (us1 @ [p]) vs2" "clock_loop q1 = clock_loop q2"
      "visited q2 = (visited q)(p := False)" by auto
  have "vs2 @ us1 @ [p] = pre @ (rest @ [p])" using 1(2) vs1 by simp
  moreover have "\<forall>x \<in> set pre. visited q2 x" using Cons.prems(3,4) 2(3) by auto
  moreover have "distinct (pre @ rest @ [p])" using Cons.prems(3) by auto
  ultimately obtain q' us' vs' where "clock_at q' us' vs'" "vs' @ us' = (rest @ [p]) @ pre"
    "clock_loop q2 = clock_loop q'" "visited q' = cleared pre (visited q2)"
    using Cons.IH [OF 2(1), of "rest @ [p]"] by blast
  then show ?case
    using 1(4) 2 by (intro exI [of _ q'] exI [of _ us'] exI [of _ vs']) (auto simp: cleared_def fun_eq_iff)
qed

lemma clock_distinct: "clock_at q us vs \<Longrightarrow> distinct (vs @ us)"
  using ring_distinct [of "plinks q" PraHead "map PraLink us @ map PraLink vs"]
  by (auto simp: clock_at_def distinct_map)

text \<open>
  Second chance: in the order of the hand, the first unvisited page goes and the visited
  ones before it lose their bit; when all are visited, all lose it and the first one goes.
\<close>

lemma clock_victim:
  assumes c: "clock_at q us vs" and w: "vs @ us = pre @ p # rest" and pre: "\<forall>x \<in> set pre. visited q x"
    and p: "\<not> visited q p \<or> pre = [] \<and> (\<forall>x \<in> set rest. visited q x)"
  shows "\<exists>q' us' vs'. clock_swap_out_victim 0 q = Some (0, Some p, q') \<and> clock_at q' us' vs' \<and>
    vs' @ us' = rest @ pre \<and>
    visited q' = cleared (if visited q p then p # rest else pre) (visited q)"
proof -
  have d: "distinct (pre @ p # rest)" using clock_distinct [OF c] w by simp
  have "\<exists>q1 us1 vs1. clock_at q1 us1 vs1 \<and> vs1 @ us1 = p # rest @ pre \<and> clock_loop q = clock_loop q1 \<and>
    visited q1 = cleared (if visited q p then p # rest else pre) (visited q) \<and> \<not> visited q1 p"
  proof (cases "visited q p")
    case True
    with p obtain q1 us1 vs1 where "clock_at q1 us1 vs1" "vs1 @ us1 = [] @ p # rest"
      "clock_loop q = clock_loop q1" "visited q1 = cleared (p # rest) (visited q)"
      using clock_skip [OF c, of "p # rest" "[]"] w d by auto
    with p True show ?thesis
      by (intro exI [of _ q1] exI [of _ us1] exI [of _ vs1]) (auto simp: cleared_def)
  next
    case False
    with clock_skip [OF c w d pre] obtain q1 us1 vs1 where "clock_at q1 us1 vs1" "vs1 @ us1 = (p # rest) @ pre"
      "clock_loop q = clock_loop q1" "visited q1 = cleared pre (visited q)" by blast
    with False show ?thesis
      by (intro exI [of _ q1] exI [of _ us1] exI [of _ vs1]) (auto simp: cleared_def)
  qed
  then obtain q1 us1 vs1 where 1: "clock_at q1 us1 vs1" "vs1 @ us1 = p # rest @ pre"
    "clock_loop q = clock_loop q1" "visited q1 = cleared (if visited q p then p # rest else pre) (visited q)"
    "\<not> visited q1 p" by blast
  from clock_enter [OF 1(1)] 1(2) obtain q2 us2 vs2 where 2: "clock_at q2 us2 vs2"
    "vs2 @ us2 = p # rest @ pre" "vs2 \<noteq> []" "clock_loop q1 = clock_loop q2" "visited q2 = visited q1"
    by (metis list.distinct(1))
  then obtain vs3 where 3: "vs2 = p # vs3" by (cases vs2) auto
  from clock_stop [of q2 us2 p vs3] 1(5) 2 3 obtain q3 where
    4: "clock_loop q2 = Some (p, q3)" "clock_at q3 us2 vs3" "visited q3 = visited q1" by auto
  have "sm_priv q = Some PraHead" using c by (simp add: clock_at_def)
  with 1 2 3 4 show ?thesis
    by (intro exI [of _ q3] exI [of _ us2] exI [of _ vs3]) (simp add: clock_swap_out_victim_def)
qed

lemma first_unvisited:
  assumes "ps \<noteq> []"
  obtains pre p rest where "ps = pre @ p # rest" "\<forall>x \<in> set pre. visited q x"
    "\<not> visited q p \<or> pre = [] \<and> (\<forall>x \<in> set rest. visited q x)"
proof (cases "\<exists>x \<in> set ps. \<not> visited q x")
  case True
  from split_list_first_prop [OF this] that show ?thesis by blast
next
  case False
  then show ?thesis using assms that [of "[]" "hd ps" "tl ps"] by (cases ps) auto
qed


text \<open>
  The LRU tick never returns once a page is swappable: the loop goes to the last entry
  again and again, and the list never gets empty.
\<close>

definition at_page :: "pra_le \<Rightarrow> pra \<Rightarrow> pra_le \<Rightarrow> bool" where
  "at_page head q entry \<longleftrightarrow> head = PraHead \<and>
     (\<exists>us p vs. ring (plinks q) PraHead (map PraLink us @ PraLink p # map PraLink vs) \<and> entry = PraLink p)"

lemma at_page_step:
  assumes "at_page head q entry"
  shows "at_page head q (list_prev head (plinks q))"
    and "at_page head (q\<lparr>plinks := list_add head entry (list_del entry (plinks q))\<rparr>)
      (list_prev head (list_add head entry (list_del entry (plinks q))))"
proof -
  have last: "at_page head q' (list_prev head (plinks q'))"
    if "head = PraHead" "ring (plinks q') PraHead (map PraLink ps)" "ps \<noteq> []" for q' ps
  proof -
    from that obtain us u where "ps = us @ [u]" by (metis append_butlast_last_id)
    with that show ?thesis
      unfolding at_page_def
      by (intro conjI exI [of _ us] exI [of _ u] exI [of _ "[]"]) (auto simp: list_prev_def ring_prev)
  qed
  from assms obtain us p vs where r: "head = PraHead" "entry = PraLink p"
    "ring (plinks q) PraHead (map PraLink us @ PraLink p # map PraLink vs)" by (auto simp: at_page_def)
  from last [OF r(1), of q "us @ p # vs"] r(3) show "at_page head q (list_prev head (plinks q))" by simp
  have "ring (list_add head entry (list_del entry (plinks q))) PraHead (PraLink p # map PraLink us @ map PraLink vs)"
    unfolding r(1,2) by (rule ring_add_head [OF ring_del [OF r(3)]]) (use ring_distinct [OF r(3)] in auto)
  with last [OF r(1), of "q\<lparr>plinks := list_add head entry (list_del entry (plinks q))\<rparr>" "p # us @ vs"]
  show "at_page head (q\<lparr>plinks := list_add head entry (list_del entry (plinks q))\<rparr>)
      (list_prev head (list_add head entry (list_del entry (plinks q))))" by simp
qed

lemma lru_tick_loop_diverges:
  "lru_tick_loop va head sq entry = Some r \<Longrightarrow> \<not> at_page head (snd sq) entry"
proof (erule lru_tick_loop.raw_induct [where P = "\<lambda>va head sq entry r. \<not> at_page head (snd sq) entry", rotated])
  fix loop :: "(nat \<Rightarrow> nat) \<Rightarrow> pra_le \<Rightarrow> slots \<times> pra \<Rightarrow> pra_le \<Rightarrow> (slots \<times> pra) option"
    and va head sq entry r
  assume ih: "\<And>va head sq entry r. loop va head sq entry = Some r \<Longrightarrow> \<not> at_page head (snd sq) entry"
    and eq: "(if entry \<noteq> head then do {
        page \<leftarrow> pra_le2page entry;
        pte \<leftarrow> fst sq (va page div PGSIZE);
        let q = snd sq;
        let sq = (if bit pte PTE_A_BIT then
                    ((fst sq)(va page div PGSIZE \<mapsto> unset_bit PTE_A_BIT pte),
                     q\<lparr>plinks := list_add head entry (list_del entry (plinks q))\<rparr>)
                  else sq);
        loop va head sq (list_prev head (plinks (snd sq))) }
      else Some sq) = Some r"
  show "\<not> at_page head (snd sq) entry"
  proof
    assume a: "at_page head (snd sq) entry"
    then obtain p where p: "entry = PraLink p" "entry \<noteq> head" by (auto simp: at_page_def)
    with eq obtain pte where pte: "fst sq (va p div PGSIZE) = Some pte"
      by (auto simp: bind_Some_iff)
    show False
    proof (cases "bit pte PTE_A_BIT")
      case True
      let ?q = "(snd sq)\<lparr>plinks := list_add head entry (list_del entry (plinks (snd sq)))\<rparr>"
      have "loop va head ((fst sq)(va p div PGSIZE \<mapsto> unset_bit PTE_A_BIT pte), ?q) (list_prev head (plinks ?q)) = Some r"
        using eq p pte True by (simp add: Let_def)
      from ih [OF this] at_page_step(2) [OF a] show False by simp
    next
      case False
      then have "loop va head sq (list_prev head (plinks (snd sq))) = Some r"
        using eq p pte by (simp add: Let_def)
      from ih [OF this] at_page_step(1) [OF a] show False by simp
    qed
  qed
qed

lemma lru_tick_event_cases:
  assumes "lru_queued q ps"
  shows "lru_tick_event va (pt, q) = (if ps = [] then Some (0, pt, q) else None)"
proof (cases "ps = []")
  case True
  with assms ring_next [of "plinks q" PraHead "[]"]
  have "sm_priv q = Some PraHead" "list_next PraHead (plinks q) = PraHead"
    by (simp_all add: lru_queued_def list_next_def)
  then show ?thesis using True lru_tick_loop.simps [of va PraHead "(pt, q)" PraHead]
    by (simp add: lru_tick_event_def)
next
  case False
  then obtain p us where p: "rev ps = p # us" by (cases "rev ps") auto
  with assms have r: "sm_priv q = Some PraHead" "ring (plinks q) PraHead (PraLink p # map PraLink us)"
    by (simp_all add: lru_queued_def)
  then have "at_page PraHead (snd (pt, q)) (list_next PraHead (plinks q))"
    unfolding at_page_def
    by (intro conjI exI [of _ "[]"] exI [of _ p] exI [of _ us]) (auto simp: list_next_def ring_next)
  then have "lru_tick_loop va PraHead (pt, q) (list_next PraHead (plinks q)) = None"
    by (metis lru_tick_loop_diverges option.exhaust)
  with False r(1) show ?thesis by (simp add: lru_tick_event_def)
qed


section \<open>Swapping over any manager\<close>

text \<open>
  What \<^verbatim>\<open>struct swap_manager\<close> promises: a queue of pages, one enters at each
  \<^verbatim>\<open>map_swappable\<close> and the victim is one of them.
\<close>

locale swap_policy =
  fixes sm :: swap_manager and queued :: "pra \<Rightarrow> nat list \<Rightarrow> bool"
  assumes init_mm: "\<exists>q'. sm_init_mm sm q = (0, q') \<and> queued q' []"
    and map_swappable: "queued q ps \<Longrightarrow> p \<notin> set ps \<Longrightarrow>
      \<exists>q' ps'. sm_map_swappable sm a p f q = Some (0, q') \<and> queued q' ps' \<and> mset ps' = add_mset p (mset ps)"
    and victim: "queued q ps \<Longrightarrow> ps \<noteq> [] \<Longrightarrow>
      \<exists>p q' ps'. sm_swap_out_victim sm 0 q = Some (0, Some p, q') \<and> queued q' ps' \<and>
        mset ps = add_mset p (mset ps')"

definition kva :: "swapst \<Rightarrow> nat \<Rightarrow> nat" where
  "kva st p = w64 ((p + nbase) * PGSIZE + va_pa_offset st)"

text \<open>Where the page of a virtual address is kept on the swap disk.\<close>

definition slot_addr :: "swapst \<Rightarrow> nat \<Rightarrow> nat" where
  "slot_addr st v = sector_addr (ides st) SWAP_DEV_NO ((v div PGSIZE + 1) * PAGE_NSECT)"

definition swap_area :: "swapst \<Rightarrow> bool" where
  "swap_area st \<longleftrightarrow> usable_disk (ides st) SWAP_DEV_NO \<and>
     max_swap_offset st * PAGE_NSECT \<le> dsize (ides st SWAP_DEV_NO)"

definition has_slot :: "swapst \<Rightarrow> nat \<Rightarrow> bool" where
  "has_slot st v \<longleftrightarrow> v div PGSIZE + 1 < max_swap_offset st"

definition frame_ok :: "swapst \<Rightarrow> nat \<Rightarrow> nat \<Rightarrow> bool" where
  "frame_ok st p v \<longleftrightarrow> p + nbase < npage st \<and> disjoint (slot_addr st v) PGSIZE (kva st p) PGSIZE"

definition evictable :: "swapst \<Rightarrow> nat \<Rightarrow> bool" where
  "evictable st p \<longleftrightarrow> has_slot st (pra_vaddr st p) \<and> frame_ok st p (pra_vaddr st p) \<and>
     (\<exists>pte. ptes st (pra_vaddr st p div PGSIZE) = Some pte \<and> bit pte 0)"

lemma slot_facts:
  assumes "swap_area st" "has_slot st v"
  shows "swap_offset st (swap_entry v) = Some (v div PGSIZE + 1)"
    and "w32 ((v div PGSIZE + 1) * PAGE_NSECT) = (v div PGSIZE + 1) * PAGE_NSECT"
    and "(v div PGSIZE + 1) * PAGE_NSECT + PAGE_NSECT \<le> dsize (ides st SWAP_DEV_NO)"
proof -
  have d: "(v div PGSIZE + 1) * PAGE_NSECT + PAGE_NSECT \<le> dsize (ides st SWAP_DEV_NO)"
    "dsize (ides st SWAP_DEV_NO) \<le> 2 ^ 28"
    using assms by (auto simp: swap_area_def has_slot_def usable_disk_def MAX_DISK_NSECS_def)
  then show "(v div PGSIZE + 1) * PAGE_NSECT + PAGE_NSECT \<le> dsize (ides st SWAP_DEV_NO)"
    "w32 ((v div PGSIZE + 1) * PAGE_NSECT) = (v div PGSIZE + 1) * PAGE_NSECT" by auto
  have "swap_entry v = (v div PGSIZE + 1) * 2 ^ 8"
    unfolding swap_entry_def by (rule mod_less) (use d in simp)
  then have "swap_entry v div 2 ^ 8 = v div PGSIZE + 1" by simp
  with assms(2) show "swap_offset st (swap_entry v) = Some (v div PGSIZE + 1)"
    by (simp add: swap_offset_def has_slot_def del: power_numeral)
qed

lemma swapfs_write_ok:
  assumes "swap_area st" "has_slot st v" "frame_ok st p v"
  shows "swapfs_write (swap_entry v) p st =
    Some (0, st\<lparr>kmem := copied (slot_addr st v) (kva st p) PGSIZE (kmem st)\<rparr>)"
proof -
  have "ide_write_secs (ides st) SWAP_DEV_NO ((v div PGSIZE + 1) * PAGE_NSECT) (kva st p) PAGE_NSECT (kmem st) =
      Some (0, copied (slot_addr st v) (kva st p) PGSIZE (kmem st))"
    using ide_write_inside [of "ides st" SWAP_DEV_NO "(v div PGSIZE + 1) * PAGE_NSECT" PAGE_NSECT "kva st p" "kmem st"]
      slot_facts(3) [OF assms(1,2)] assms
    by (simp add: swap_area_def frame_ok_def slot_addr_def MAX_NSECS_def)
  then show ?thesis
    using assms(3) slot_facts [OF assms(1,2)]
    by (simp add: swapfs_write_def page2kva_def kva_def frame_ok_def)
qed

lemma swapfs_read_ok:
  assumes "swap_area st" "has_slot st v" "frame_ok st p v"
  shows "swapfs_read (swap_entry v) p st =
    Some (0, st\<lparr>kmem := copied (kva st p) (slot_addr st v) PGSIZE (kmem st)\<rparr>)"
proof -
  have "ide_read_secs (ides st) SWAP_DEV_NO ((v div PGSIZE + 1) * PAGE_NSECT) (kva st p) PAGE_NSECT (kmem st) =
      Some (0, copied (kva st p) (slot_addr st v) PGSIZE (kmem st))"
    using ide_read_inside [of "ides st" SWAP_DEV_NO "(v div PGSIZE + 1) * PAGE_NSECT" PAGE_NSECT "kva st p" "kmem st"]
      slot_facts(3) [OF assms(1,2)] assms
    by (simp add: swap_area_def frame_ok_def slot_addr_def MAX_NSECS_def)
  then show ?thesis
    using assms(3) slot_facts [OF assms(1,2)]
    by (simp add: swapfs_read_def page2kva_def kva_def frame_ok_def)
qed

text \<open>The state after one page is out: content on its slot, the entry in the page table, the frame free.\<close>

definition evicted :: "nat \<Rightarrow> pra \<Rightarrow> pmm \<Rightarrow> swapst \<Rightarrow> swapst" where
  "evicted p q m st = st\<lparr>pra := q,
     kmem := copied (slot_addr st (pra_vaddr st p)) (kva st p) PGSIZE (kmem st),
     ptes := (ptes st)(pra_vaddr st p div PGSIZE \<mapsto> swap_entry (pra_vaddr st p)), pm := m\<rparr>"

context swap_policy
begin

lemma swap_out_one:
  assumes q: "queued (pra st) ps" "ps \<noteq> []" and a: "swap_area st" and e: "\<forall>p \<in> set ps. evictable st p"
    and fr: "\<forall>p \<in> set ps. \<exists>m. default_free_pages p 1 (pm st) = Some m \<and> I p m"
  shows "\<exists>p q' ps' m. swap_out sm 1 0 st = Some (1, evicted p q' m st) \<and> queued q' ps' \<and>
    mset ps = add_mset p (mset ps') \<and> default_free_pages p 1 (pm st) = Some m \<and> I p m"
proof -
  from victim [OF q] obtain p q' ps' where v: "sm_swap_out_victim sm 0 (pra st) = Some (0, Some p, q')"
    "queued q' ps'" "mset ps = add_mset p (mset ps')" by blast
  then have p: "p \<in> set ps" by (metis set_mset_mset union_single_eq_member)
  with fr obtain m where m: "default_free_pages p 1 (pm st) = Some m" "I p m" by blast
  let ?st = "st\<lparr>pra := q'\<rparr>"
  from e p obtain pte where pte: "ptes st (pra_vaddr st p div PGSIZE) = Some pte" "bit pte 0"
    and s: "has_slot ?st (pra_vaddr st p)" "frame_ok ?st p (pra_vaddr st p)"
    by (auto simp: evictable_def has_slot_def frame_ok_def slot_addr_def kva_def)
  have "swap_area ?st" using a by (simp add: swap_area_def)
  from swapfs_write_ok [OF this s]
  have w: "swapfs_write (swap_entry (pra_vaddr st p)) p ?st =
     Some (0, ?st\<lparr>kmem := copied (slot_addr st (pra_vaddr st p)) (kva st p) PGSIZE (kmem st)\<rparr>)"
    by (simp add: slot_addr_def kva_def)
  have "swap_out sm 1 0 st = Some (1, evicted p q' m st)"
    unfolding swap_out_def
    by (subst swap_out_loop.simps,
       simp add: v(1) pte w m(1) [simplified] evicted_def Let_def,
       subst swap_out_loop.simps, simp add: m(1) [simplified])
  with v m show ?thesis by blast
qed

end

lemma copied_bytes: "bytes_at (copied d s n m) d n = bytes_at m s n"
  by (simp add: bytes_at_def copied_def)

context swap_policy
begin

lemma alloc_evicts:
  assumes q: "queued (pra st) ps" "ps \<noteq> []" and a: "swap_area st" "swap_init_ok st"
    and e: "\<forall>p \<in> set ps. evictable st p" and f: "exhausted (pm st)" "\<forall>p \<in> set ps. clean (pm st) p 1"
  shows "\<exists>p q' ps' m. alloc_pages sm 1 st = Some (Some p, evicted p q' m st) \<and> queued q' ps' \<and>
    mset ps = add_mset p (mset ps') \<and> exhausted m"
proof -
  have "\<forall>p \<in> set ps. \<exists>m. default_free_pages p 1 (pm st) = Some m \<and> pmm_inv m [(p, 1)]"
    using free_one_exhausted [OF f(1)] f(2) by blast
  from swap_out_one [OF q a(1) e this] obtain p q' ps' m where
    s: "swap_out sm 1 0 st = Some (1, evicted p q' m st)" "queued q' ps'" "mset ps = add_mset p (mset ps')"
      "pmm_inv m [(p, 1)]" by blast
  from alloc_one [OF s(4)] obtain m' where m: "default_alloc_pages 1 m = Some (Some p, m')" "exhausted m'"
    by (auto simp: exhausted_def)
  have pm: "st\<lparr>pm := pm st\<rparr> = st" by simp
  have "alloc_pages sm 1 st = Some (Some p, evicted p q' m' st)"
    by (subst alloc_pages.simps, simp add: alloc_none [OF f(1), simplified] a(2) pm s(1),
        subst alloc_pages.simps, simp add: evicted_def m(1) [simplified])
  with s m show ?thesis by blast
qed

text \<open>What was on the page is on its slot, where \<^verbatim>\<open>swap_in\<close> of the same address finds it.\<close>

lemma evicted_content:
  "bytes_at (kmem (evicted p q m st)) (slot_addr st (pra_vaddr st p)) PGSIZE = bytes_at (kmem st) (kva st p) PGSIZE"
  "ptes (evicted p q m st) (pra_vaddr st p div PGSIZE) = Some (swap_entry (pra_vaddr st p))"
  by (simp_all add: evicted_def copied_bytes)

lemma swap_in_reads:
  assumes "swap_area st" "has_slot st v" "frame_ok st p v" "pmm_inv (pm st) ((p, k) # bs)"
    "ptes st (v div PGSIZE) = Some (swap_entry v)"
  shows "\<exists>st'. swap_in sm v st = Some (0, p, st') \<and>
    bytes_at (kmem st') (kva st p) PGSIZE = bytes_at (kmem st) (slot_addr st v) PGSIZE"
proof -
  from alloc_one [OF assms(4)] obtain m' where m: "default_alloc_pages 1 (pm st) = Some (Some p, m')" by blast
  let ?st = "st\<lparr>pm := m'\<rparr>"
  have "alloc_pages sm 1 st = Some (Some p, ?st)"
    by (subst alloc_pages.simps) (simp add: m [simplified])
  moreover have "swapfs_read (swap_entry v) p ?st =
      Some (0, ?st\<lparr>kmem := copied (kva st p) (slot_addr st v) PGSIZE (kmem st)\<rparr>)"
    using swapfs_read_ok [of ?st v p] assms(1-3)
    by (simp add: swap_area_def has_slot_def frame_ok_def slot_addr_def kva_def)
  ultimately show ?thesis
    using assms(5) by (simp add: swap_in_def copied_bytes)
qed

lemma out_in_round_trip:
  assumes q: "queued (pra st) ps" "ps \<noteq> []" and a: "swap_area st" "swap_init_ok st"
    and e: "\<forall>p \<in> set ps. evictable st p" and f: "exhausted (pm st)" "\<forall>p \<in> set ps. clean (pm st) p 1"
  shows "\<exists>p st1. alloc_pages sm 1 st = Some (Some p, st1) \<and> p \<in> set ps \<and>
    ptes st1 (pra_vaddr st p div PGSIZE) = Some (swap_entry (pra_vaddr st p)) \<and>
    (\<forall>st2 p' k bs. ides st2 = ides st1 \<and> max_swap_offset st2 = max_swap_offset st1 \<and>
       ptes st2 (pra_vaddr st p div PGSIZE) = ptes st1 (pra_vaddr st p div PGSIZE) \<and>
       bytes_at (kmem st2) (slot_addr st (pra_vaddr st p)) PGSIZE = bytes_at (kmem st1) (slot_addr st (pra_vaddr st p)) PGSIZE \<and>
       frame_ok st2 p' (pra_vaddr st p) \<and> pmm_inv (pm st2) ((p', k) # bs) \<longrightarrow>
       (\<exists>st3. swap_in sm (pra_vaddr st p) st2 = Some (0, p', st3) \<and>
         bytes_at (kmem st3) (kva st2 p') PGSIZE = bytes_at (kmem st) (kva st p) PGSIZE))"
proof -
  from alloc_evicts [OF assms] obtain p q' ps' m where
    s: "alloc_pages sm 1 st = Some (Some p, evicted p q' m st)" "mset ps = add_mset p (mset ps')" by blast
  then have p: "p \<in> set ps" by (metis set_mset_mset union_single_eq_member)
  let ?v = "pra_vaddr st p" and ?st1 = "evicted p q' m st"
  have i: "ides ?st1 = ides st" "max_swap_offset ?st1 = max_swap_offset st" by (simp_all add: evicted_def)
  have "\<exists>st3. swap_in sm ?v st2 = Some (0, p', st3) \<and>
         bytes_at (kmem st3) (kva st2 p') PGSIZE = bytes_at (kmem st) (kva st p) PGSIZE"
    if "ides st2 = ides ?st1" "max_swap_offset st2 = max_swap_offset ?st1"
       "ptes st2 (?v div PGSIZE) = ptes ?st1 (?v div PGSIZE)"
       "bytes_at (kmem st2) (slot_addr st ?v) PGSIZE = bytes_at (kmem ?st1) (slot_addr st ?v) PGSIZE"
       "frame_ok st2 p' ?v" "pmm_inv (pm st2) ((p', k) # bs)" for st2 p' k bs
  proof -
    have "swap_area st2" "has_slot st2 ?v" "slot_addr st2 ?v = slot_addr st ?v"
      using that(1,2) a(1) e p by (auto simp: i swap_area_def has_slot_def evictable_def slot_addr_def)
    with swap_in_reads [of st2 ?v p' k bs] that(3-6) evicted_content [of p q' m st] show ?thesis by simp
  qed
  with s(1) p evicted_content(2) [of p q' m st] show ?thesis by blast
qed

end

interpretation fifo: swap_policy swap_manager_fifo fifo_queued
proof
  fix q :: pra
  show "\<exists>q'. sm_init_mm swap_manager_fifo q = (0, q') \<and> fifo_queued q' []"
    by (simp add: swap_manager_fifo_def fifo_init_mm_def fifo_queued_def ring_init)
next
  fix q ps p a f
  assume "fifo_queued q ps" "p \<notin> set ps"
  from fifo_map [OF this, of a f]
  show "\<exists>q' ps'. sm_map_swappable swap_manager_fifo a p f q = Some (0, q') \<and> fifo_queued q' ps' \<and>
      mset ps' = add_mset p (mset ps)"
    by (auto simp: swap_manager_fifo_def intro!: exI [of _ "ps @ [p]"])
next
  fix q and ps :: "nat list"
  assume "fifo_queued q ps" "ps \<noteq> []"
  with fifo_victim [of q "hd ps" "tl ps"]
  show "\<exists>p q' ps'. sm_swap_out_victim swap_manager_fifo 0 q = Some (0, Some p, q') \<and> fifo_queued q' ps' \<and>
      mset ps = add_mset p (mset ps')"
    by (cases ps) (auto simp: swap_manager_fifo_def)
qed

interpretation lru: swap_policy swap_manager_lru lru_queued
proof
  fix q :: pra
  show "\<exists>q'. sm_init_mm swap_manager_lru q = (0, q') \<and> lru_queued q' []"
    by (simp add: swap_manager_lru_def lru_init_mm_def lru_queued_def ring_init)
next
  fix q ps p a f
  assume "lru_queued q ps" "p \<notin> set ps"
  from lru_map [OF this, of a f]
  show "\<exists>q' ps'. sm_map_swappable swap_manager_lru a p f q = Some (0, q') \<and> lru_queued q' ps' \<and>
      mset ps' = add_mset p (mset ps)"
    by (auto simp: swap_manager_lru_def intro!: exI [of _ "ps @ [p]"])
next
  fix q and ps :: "nat list"
  assume "lru_queued q ps" "ps \<noteq> []"
  with lru_victim [of q "hd ps" "tl ps"]
  show "\<exists>p q' ps'. sm_swap_out_victim swap_manager_lru 0 q = Some (0, Some p, q') \<and> lru_queued q' ps' \<and>
      mset ps = add_mset p (mset ps')"
    by (cases ps) (auto simp: swap_manager_lru_def)
qed

interpretation clk: swap_policy swap_manager_clock clock_queued
proof
  fix q :: pra
  show "\<exists>q'. sm_init_mm swap_manager_clock q = (0, q') \<and> clock_queued q' []"
    by (simp add: swap_manager_clock_def clock_init_mm_def clock_queued_def clock_at_def ring_init)
next
  fix q ps p a f
  assume c: "clock_queued q ps" and p: "p \<notin> set ps"
  then obtain us vs where uv: "clock_at q us vs" "ps = vs @ us" by (auto simp: clock_queued_def)
  with clock_map [OF uv(1), of p a f] p obtain q' where q': "clock_map_swappable a p f q = Some (0, q')"
    "if vs = [] then clock_at q' (us @ [p]) [] else clock_at q' us (vs @ [p])" by auto
  then have "\<exists>ps'. clock_queued q' ps' \<and> mset ps' = add_mset p (mset ps)"
    unfolding clock_queued_def uv(2)
    by (cases "vs = []") (fastforce intro: exI [of _ "us @ [p]"] exI [of _ "(vs @ [p]) @ us"])+
  with q'(1) show "\<exists>q' ps'. sm_map_swappable swap_manager_clock a p f q = Some (0, q') \<and> clock_queued q' ps' \<and>
      mset ps' = add_mset p (mset ps)"
    by (auto simp: swap_manager_clock_def)
next
  fix q and ps :: "nat list"
  assume "clock_queued q ps" "ps \<noteq> []"
  then obtain us vs where uv: "clock_at q us vs" "ps = vs @ us" by (auto simp: clock_queued_def)
  from first_unvisited [OF \<open>ps \<noteq> []\<close>, of q] obtain pre p rest where
    "ps = pre @ p # rest" "\<forall>x \<in> set pre. visited q x" "\<not> visited q p \<or> pre = [] \<and> (\<forall>x \<in> set rest. visited q x)" .
  with clock_victim [OF uv(1), of pre p rest] uv(2)
  show "\<exists>p q' ps'. sm_swap_out_victim swap_manager_clock 0 q = Some (0, Some p, q') \<and> clock_queued q' ps' \<and>
      mset ps = add_mset p (mset ps')"
    by (fastforce simp: swap_manager_clock_def clock_queued_def intro: exI [of _ "rest @ pre"])
qed


section \<open>Properties\<close>

text \<open>The first-in-first-out and the LRU manager take the pages out in the order in which
  they were entered, whatever was queued before.\<close>
theorem managers_evict_oldest:
  "(fifo_queued q (p # ps) \<longrightarrow>
      (\<exists>q'. fifo_swap_out_victim 0 q = Some (0, Some p, q') \<and> fifo_queued q' ps)) \<and>
   (lru_queued q (p # ps) \<longrightarrow>
      (\<exists>q'. lru_swap_out_victim 0 q = Some (0, Some p, q') \<and> lru_queued q' ps)) \<and>
   (fifo_queued q ps \<and> x \<notin> set ps \<longrightarrow>
      (\<exists>q'. fifo_map_swappable a x f q = Some (0, q') \<and> fifo_queued q' (ps @ [x]))) \<and>
   (lru_queued q ps \<and> x \<notin> set ps \<longrightarrow>
      (\<exists>q'. lru_map_swappable a x f q = Some (0, q') \<and> lru_queued q' (ps @ [x])))"
  by (intro conjI impI; (elim conjE)?) (rule fifo_victim lru_victim fifo_map lru_map; assumption)+

text \<open>C18: the clock takes the first page from the hand on that has not been visited, clears the
  visited bits of the pages it passes and leaves the hand behind the victim; when all pages
  are visited it clears all bits and takes the page at the hand.\<close>
theorem clock_second_chance:
  assumes "clock_at q us vs" "vs @ us = pre @ p # rest" "\<forall>x \<in> set pre. visited q x"
    "\<not> visited q p \<or> pre = [] \<and> (\<forall>x \<in> set rest. visited q x)"
  shows "\<exists>q' us' vs'. clock_swap_out_victim 0 q = Some (0, Some p, q') \<and> clock_at q' us' vs' \<and>
    vs' @ us' = rest @ pre \<and> visited q' = cleared (if visited q p then p # rest else pre) (visited q)"
  by (rule clock_victim [OF assms])

text \<open>C19: the tick handler of the LRU manager returns when no page is swappable and runs
  forever as soon as one is.\<close>
theorem lru_tick_never_returns:
  assumes "lru_queued q ps"
  shows "lru_tick_event va (pt, q) = (if ps = [] then Some (0, pt, q) else None)"
  by (rule lru_tick_event_cases [OF assms])

text \<open>C17: when no page is free, \<^verbatim>\<open>alloc_pages\<close> swaps a queued page out, frees its
  frame and returns it; the swap entry is in the page table, and a later \<^verbatim>\<open>swap_in\<close> of
  that address brings the content back into whatever frame it gets, as long as nobody wrote
  the slot in between.\<close>
theorem swap_keeps_content:
  assumes "fifo_queued (pra st) ps" "ps \<noteq> []" "swap_area st" "swap_init_ok st"
    "\<forall>p \<in> set ps. evictable st p" "exhausted (pm st)" "\<forall>p \<in> set ps. clean (pm st) p 1"
  shows "\<exists>p st1. alloc_pages swap_manager_fifo 1 st = Some (Some p, st1) \<and> p \<in> set ps \<and>
    ptes st1 (pra_vaddr st p div PGSIZE) = Some (swap_entry (pra_vaddr st p)) \<and>
    (\<forall>st2 p' k bs. ides st2 = ides st1 \<and> max_swap_offset st2 = max_swap_offset st1 \<and>
       ptes st2 (pra_vaddr st p div PGSIZE) = ptes st1 (pra_vaddr st p div PGSIZE) \<and>
       bytes_at (kmem st2) (slot_addr st (pra_vaddr st p)) PGSIZE = bytes_at (kmem st1) (slot_addr st (pra_vaddr st p)) PGSIZE \<and>
       frame_ok st2 p' (pra_vaddr st p) \<and> pmm_inv (pm st2) ((p', k) # bs) \<longrightarrow>
       (\<exists>st3. swap_in swap_manager_fifo (pra_vaddr st p) st2 = Some (0, p', st3) \<and>
         bytes_at (kmem st3) (kva st2 p') PGSIZE = bytes_at (kmem st) (kva st p) PGSIZE))"
  by (rule fifo.out_in_round_trip [OF assms])

definition two_pages :: pra where
  "two_pages = \<lparr>plinks = \<lparr>prv = id(PraHead := PraLink 1, PraLink 0 := PraHead, PraLink 1 := PraLink 0),
       nxt = id(PraHead := PraLink 0, PraLink 0 := PraLink 1, PraLink 1 := PraHead)\<rparr>,
     curr_ptr = PraLink 1, visited = (\<lambda>p. p = 1), sm_priv = Some PraHead\<rparr>"

definition full_memory :: swapst where
  "full_memory = \<lparr>pra = two_pages, pra_vaddr = (\<lambda>p. (p + 1) * PGSIZE), ptes = (\<lambda>n. Some 1),
     pm = \<lparr>pages = (\<lambda>_. \<lparr>pref = 0, flags = 0, property = 0\<rparr>), links = \<lparr>prv = id, nxt = id\<rparr>, nr_free = 0\<rparr>,
     kmem = (\<lambda>a. of_nat a), ides = (\<lambda>_. \<lparr>valid = True, dsize = 56, iobase = 0\<rparr>), max_swap_offset = 7,
     swap_init_ok = True, npage = nbase + 2, va_pa_offset = 0\<rparr>"

lemma two_pages_queued: "fifo_queued two_pages [0, 1]" "lru_queued two_pages [1, 0]" "clock_at two_pages [0] [1]"
  by (simp_all add: fifo_queued_def lru_queued_def clock_at_def two_pages_def ring_def)

theorem managers_evict_oldest_witness:
  "(\<exists>q'. fifo_swap_out_victim 0 two_pages = Some (0, Some 0, q') \<and> fifo_queued q' [1]) \<and>
   (\<exists>q'. lru_swap_out_victim 0 two_pages = Some (0, Some 1, q') \<and> lru_queued q' [0]) \<and>
   (\<exists>q'. fifo_map_swappable 0 5 0 two_pages = Some (0, q') \<and> fifo_queued q' [0, 1, 5]) \<and>
   (\<exists>q'. lru_map_swappable 0 5 0 two_pages = Some (0, q') \<and> lru_queued q' [1, 0, 5])"
  using managers_evict_oldest [of two_pages 0 "[1]"] managers_evict_oldest [of two_pages 1 "[0]"]
    managers_evict_oldest [of two_pages _ "[0, 1]" 5 0 0] managers_evict_oldest [of two_pages _ "[1, 0]" 5 0 0]
    two_pages_queued by simp

theorem clock_second_chance_witness:
  "\<exists>q' us' vs'. clock_swap_out_victim 0 two_pages = Some (0, Some 0, q') \<and> clock_at q' us' vs' \<and>
    vs' @ us' = [1] \<and> visited q' = cleared [1] (visited two_pages)"
  using clock_second_chance [OF two_pages_queued(3), of "[1]" 0 "[]"]
  by (simp add: two_pages_def)

theorem lru_tick_never_returns_witness: "lru_tick_event id (\<lambda>_. Some 1, two_pages) = None"
  using lru_tick_never_returns [OF two_pages_queued(2)] by simp

theorem swap_keeps_content_witness:
  "\<exists>p st1. alloc_pages swap_manager_fifo 1 full_memory = Some (Some p, st1) \<and> p \<in> {0, 1} \<and>
    ptes st1 (p + 1) = Some (swap_entry ((p + 1) * PGSIZE))"
proof -
  have "fifo_queued (pra full_memory) [0, 1]" using two_pages_queued by (simp add: full_memory_def)
  moreover have "swap_area full_memory"
    by (simp add: swap_area_def usable_disk_def VALID_IDE_def MAX_IDE_def MAX_DISK_NSECS_def full_memory_def)
  moreover have "evictable full_memory 0" "evictable full_memory 1"
    by (simp_all add: evictable_def has_slot_def frame_ok_def slot_addr_def sector_addr_def kva_def
        disjoint_def full_memory_def bit_0)
  moreover have "exhausted (pm full_memory)"
    by (simp add: exhausted_def pmm_inv_def ring_def full_memory_def)
  moreover have "clean (pm full_memory) p 1" for p
    by (simp add: clean_def PageReserved_def PageProperty_def full_memory_def)
  moreover have "swap_init_ok full_memory" "pra_vaddr full_memory p = (p + 1) * PGSIZE" for p
    by (simp_all add: full_memory_def)
  ultimately show ?thesis
    using swap_keeps_content [of full_memory "[0, 1]"] by fastforce
qed

end
