(* ===== verification/PageTable.thy ===== *)
theory PageTable
  imports PmmFirstFit
begin

text \<open>
  The page tables of kern/mm/pmm.c: three levels of 512 entries, each table in a physical
  page. The memory of a physical page is its 512 words of 64 bits, under the page number, so
  a \<^verbatim>\<open>pte_t *\<close> is a page number and an index, and \<^verbatim>\<open>KADDR\<close> of an
  address is the number of its page. The pages come from the first-fit allocator; the retry
  of \<^verbatim>\<open>alloc_pages\<close> after swapping out is in the theory Swap. A page number below the
  start of memory is outside the array of page descriptors, and the model stops there as it
  does where the code panics.
\<close>

unbundle bit_operations_syntax

section \<open>Data\<close>

record ptst =
  phys :: pmm
  pmem :: "nat \<Rightarrow> nat \<Rightarrow> nat"
  npages :: nat

type_synonym ptep = "nat \<times> nat"

abbreviation PTSIZE :: nat where "PTSIZE \<equiv> 2 ^ 21"

definition PDX1 :: "nat \<Rightarrow> nat" where "PDX1 la = la div 2 ^ 30 mod 512"
definition PDX0 :: "nat \<Rightarrow> nat" where "PDX0 la = la div 2 ^ 21 mod 512"
definition PTX :: "nat \<Rightarrow> nat" where "PTX la = la div 2 ^ 12 mod 512"
definition PPN :: "nat \<Rightarrow> nat" where "PPN la = la div 2 ^ 12"
definition PTE_ADDR :: "nat \<Rightarrow> nat" where "PTE_ADDR pte = w64 (pte div 2 ^ 10 * 2 ^ 12)"

definition PTE_U :: nat where "PTE_U = 16"
definition PTE_USER :: nat where "PTE_USER = 31"

definition pte_create :: "nat \<Rightarrow> nat \<Rightarrow> nat" where
  "pte_create ppn type = (w64 (ppn * 2 ^ 10) OR 1) OR type"

definition page2ppn :: "nat \<Rightarrow> nat" where
  "page2ppn page = page + nbase"

definition KADDR :: "ptst \<Rightarrow> nat \<Rightarrow> nat option" where
  "KADDR st pa = do { kassert (PPN pa < npages st); Some (PPN pa) }"

definition pa2page :: "ptst \<Rightarrow> nat \<Rightarrow> nat option" where
  "pa2page st pa =
     do { kassert (PPN pa < npages st);
          kassert (nbase \<le> PPN pa);
          Some (PPN pa - nbase) }"

definition pte2page :: "ptst \<Rightarrow> nat \<Rightarrow> nat option" where
  "pte2page st pte = do { kassert (bit pte 0); pa2page st (PTE_ADDR pte) }"

definition pde2page :: "ptst \<Rightarrow> nat \<Rightarrow> nat option" where
  "pde2page st pde = pa2page st (PTE_ADDR pde)"

definition page_ref :: "nat \<Rightarrow> ptst \<Rightarrow> int" where
  "page_ref page st = pref (pages (phys st) page)"

definition set_page_ref :: "nat \<Rightarrow> int \<Rightarrow> ptst \<Rightarrow> ptst" where
  "set_page_ref page val st = st\<lparr>phys := upd_page page (\<lambda>p. p\<lparr>pref := val\<rparr>) (phys st)\<rparr>"

definition page_ref_inc :: "nat \<Rightarrow> ptst \<Rightarrow> ptst" where
  "page_ref_inc page st = set_page_ref page (page_ref page st + 1) st"

definition page_ref_dec :: "nat \<Rightarrow> ptst \<Rightarrow> ptst" where
  "page_ref_dec page st = set_page_ref page (page_ref page st - 1) st"

definition set_pte :: "ptep \<Rightarrow> nat \<Rightarrow> ptst \<Rightarrow> ptst" where
  "set_pte p v st = st\<lparr>pmem := (pmem st)(fst p := (pmem st (fst p))(snd p := v))\<rparr>"

definition get_word :: "ptep \<Rightarrow> ptst \<Rightarrow> nat" where
  "get_word p st = pmem st (fst p) (snd p)"

definition alloc_page :: "ptst \<Rightarrow> (nat option \<times> ptst) option" where
  "alloc_page st =
     do { (page, m) \<leftarrow> default_alloc_pages 1 (phys st);
          Some (page, st\<lparr>phys := m\<rparr>) }"

definition free_page :: "nat \<Rightarrow> ptst \<Rightarrow> ptst option" where
  "free_page page st =
     do { m \<leftarrow> default_free_pages page 1 (phys st);
          Some (st\<lparr>phys := m\<rparr>) }"

section \<open>Walking and changing the tables\<close>

text \<open>
  One level of \<^verbatim>\<open>get_pte\<close>, the same text for both: the directory entry, and a new
  table below it when there is none and one is wanted.
\<close>

definition table_below :: "ptep \<Rightarrow> bool \<Rightarrow> ptst \<Rightarrow> (nat option \<times> ptst) option" where
  "table_below pdep create st =
     (if \<not> bit (get_word pdep st) 0 then
        if \<not> create then Some (None, st)
        else do {
          (page, st) \<leftarrow> alloc_page st;
          case page of
            None \<Rightarrow> Some (None, st)
          | Some page \<Rightarrow> do {
              let st = set_page_ref page 1 st;
              t \<leftarrow> KADDR st (w64 (page2ppn page * 2 ^ 12));
              let st = st\<lparr>pmem := (pmem st)(t := (\<lambda>_. 0))\<rparr>;
              let st = set_pte pdep (pte_create (page2ppn page) (PTE_U OR 1)) st;
              t \<leftarrow> KADDR st (PTE_ADDR (get_word pdep st));
              Some (Some t, st) } }
      else do { t \<leftarrow> KADDR st (PTE_ADDR (get_word pdep st)); Some (Some t, st) })"

definition get_pte :: "nat \<Rightarrow> nat \<Rightarrow> bool \<Rightarrow> ptst \<Rightarrow> (ptep option \<times> ptst) option" where
  "get_pte pgdir la create st =
     do { (t1, st) \<leftarrow> table_below (pgdir, PDX1 la) create st;
          case t1 of
            None \<Rightarrow> Some (None, st)
          | Some t1 \<Rightarrow> do {
              (t0, st) \<leftarrow> table_below (t1, PDX0 la) create st;
              case t0 of
                None \<Rightarrow> Some (None, st)
              | Some t0 \<Rightarrow> Some (Some (t0, PTX la), st) } }"

definition get_page :: "nat \<Rightarrow> nat \<Rightarrow> ptst \<Rightarrow> (nat option \<times> ptep option \<times> ptst) option" where
  "get_page pgdir la st =
     do { (ptep, st) \<leftarrow> get_pte pgdir la False st;
          case ptep of
            None \<Rightarrow> Some (None, ptep, st)
          | Some p \<Rightarrow>
              if bit (get_word p st) 0 then do {
                page \<leftarrow> pte2page st (get_word p st);
                Some (Some page, ptep, st) }
              else Some (None, ptep, st) }"

definition page_remove_pte :: "nat \<Rightarrow> nat \<Rightarrow> ptep \<Rightarrow> ptst \<Rightarrow> ptst option" where
  "page_remove_pte pgdir la ptep st =
     (if bit (get_word ptep st) 0 then do {
        page \<leftarrow> pte2page st (get_word ptep st);
        let st = page_ref_dec page st;
        st \<leftarrow> (if page_ref page st = 0 then free_page page st else Some st);
        Some (set_pte ptep 0 st) }
      else Some st)"

definition page_remove :: "nat \<Rightarrow> nat \<Rightarrow> ptst \<Rightarrow> ptst option" where
  "page_remove pgdir la st =
     do { (ptep, st) \<leftarrow> get_pte pgdir la False st;
          case ptep of
            None \<Rightarrow> Some st
          | Some p \<Rightarrow> page_remove_pte pgdir la p st }"

definition page_insert :: "nat \<Rightarrow> nat \<Rightarrow> nat \<Rightarrow> nat \<Rightarrow> ptst \<Rightarrow> (int \<times> ptst) option" where
  "page_insert pgdir page la perm st =
     do { (ptep, st) \<leftarrow> get_pte pgdir la True st;
          case ptep of
            None \<Rightarrow> Some (- E_NO_MEM, st)
          | Some p \<Rightarrow> do {
              let st = page_ref_inc page st;
              st \<leftarrow> (if bit (get_word p st) 0 then do {
                        q \<leftarrow> pte2page st (get_word p st);
                        if q = page then Some (page_ref_dec page st)
                        else page_remove_pte pgdir la p st }
                      else Some st);
              let st = set_pte p (pte_create (page2ppn page) (1 OR perm)) st;
              Some (0, st) } }"

definition USER_ACCESS :: "nat \<Rightarrow> nat \<Rightarrow> bool" where
  "USER_ACCESS start stop \<longleftrightarrow> 0x00200000 \<le> start \<and> start < stop \<and> stop \<le> 0x80000000"

partial_function (option) unmap_loop :: "nat \<Rightarrow> nat \<Rightarrow> nat \<Rightarrow> ptst \<Rightarrow> ptst option" where
  "unmap_loop pgdir start stop st =
     do { (ptep, st) \<leftarrow> get_pte pgdir start False st;
          (start, st) \<leftarrow>
            (case ptep of
               None \<Rightarrow> Some (ROUNDDOWN (w64 (start + PTSIZE)) PTSIZE, st)
             | Some p \<Rightarrow> do {
                 st \<leftarrow> (if get_word p st \<noteq> 0 then page_remove_pte pgdir start p st else Some st);
                 Some (w64 (start + PGSIZE), st) });
          if start \<noteq> 0 \<and> start < stop then unmap_loop pgdir start stop st else Some st }"

definition unmap_range :: "nat \<Rightarrow> nat \<Rightarrow> nat \<Rightarrow> ptst \<Rightarrow> ptst option" where
  "unmap_range pgdir start stop st =
     do { kassert (start mod PGSIZE = 0 \<and> stop mod PGSIZE = 0);
          kassert (USER_ACCESS start stop);
          unmap_loop pgdir start stop st }"

partial_function (option) exit_loop :: "nat \<Rightarrow> nat \<Rightarrow> nat \<Rightarrow> ptst \<Rightarrow> ptst option" where
  "exit_loop pgdir start stop st =
     do { st \<leftarrow> (if bit (get_word (pgdir, PDX1 start) st) 0 then do {
                    page \<leftarrow> pde2page st (get_word (pgdir, PDX1 start) st);
                    st \<leftarrow> free_page page st;
                    Some (set_pte (pgdir, PDX1 start) 0 st) }
                  else Some st);
          let start = w64 (start + PTSIZE);
          if start \<noteq> 0 \<and> start < stop then exit_loop pgdir start stop st else Some st }"

definition exit_range :: "nat \<Rightarrow> nat \<Rightarrow> nat \<Rightarrow> ptst \<Rightarrow> ptst option" where
  "exit_range pgdir start stop st =
     do { kassert (start mod PGSIZE = 0 \<and> stop mod PGSIZE = 0);
          kassert (USER_ACCESS start stop);
          exit_loop pgdir (ROUNDDOWN start PTSIZE) stop st }"

text \<open>\<^verbatim>\<open>memcpy\<close> of a whole page copies its 512 words.\<close>

partial_function (option) copy_loop :: "nat \<Rightarrow> nat \<Rightarrow> nat \<Rightarrow> nat \<Rightarrow> ptst \<Rightarrow> (int \<times> ptst) option" where
  "copy_loop dst src start stop st =
     do { (ptep, st) \<leftarrow> get_pte src start False st;
          case ptep of
            None \<Rightarrow>
              (let start = ROUNDDOWN (w64 (start + PTSIZE)) PTSIZE
               in if start \<noteq> 0 \<and> start < stop then copy_loop dst src start stop st else Some (0, st))
          | Some p \<Rightarrow>
              (if bit (get_word p st) 0 then do {
                 (nptep, st) \<leftarrow> get_pte dst start True st;
                 if nptep = None then Some (- E_NO_MEM, st)
                 else do {
                   let perm = get_word p st AND PTE_USER;
                   page \<leftarrow> pte2page st (get_word p st);
                   (np, st) \<leftarrow> alloc_page st;
                   kassert (np \<noteq> None);
                   np \<leftarrow> np;
                   s \<leftarrow> KADDR st (w64 (page2ppn page * 2 ^ 12));
                   d \<leftarrow> KADDR st (w64 (page2ppn np * 2 ^ 12));
                   let st = st\<lparr>pmem := (pmem st)(d := (\<lambda>i. if i < 512 then pmem st s i else pmem st d i))\<rparr>;
                   (ret, st) \<leftarrow> page_insert dst np start perm st;
                   kassert (ret = 0);
                   let start = w64 (start + PGSIZE);
                   if start \<noteq> 0 \<and> start < stop then copy_loop dst src start stop st else Some (0, st) } }
               else
                 (let start = w64 (start + PGSIZE)
                  in if start \<noteq> 0 \<and> start < stop then copy_loop dst src start stop st else Some (0, st))) }"

definition copy_range :: "nat \<Rightarrow> nat \<Rightarrow> nat \<Rightarrow> nat \<Rightarrow> bool \<Rightarrow> ptst \<Rightarrow> (int \<times> ptst) option" where
  "copy_range dst src start stop share st =
     do { kassert (start mod PGSIZE = 0 \<and> stop mod PGSIZE = 0);
          kassert (USER_ACCESS start stop);
          copy_loop dst src start stop st }"

partial_function (option) boot_map_loop :: "nat \<Rightarrow> nat \<Rightarrow> nat \<Rightarrow> nat \<Rightarrow> nat \<Rightarrow> ptst \<Rightarrow> ptst option" where
  "boot_map_loop pgdir n la pa perm st =
     (if 0 < n then do {
        (ptep, st) \<leftarrow> get_pte pgdir la True st;
        kassert (ptep \<noteq> None);
        p \<leftarrow> ptep;
        boot_map_loop pgdir (n - 1) (w64 (la + PGSIZE)) (w64 (pa + PGSIZE)) perm
          (set_pte p (pte_create (pa div 2 ^ 12) (1 OR perm)) st) }
      else Some st)"

definition boot_map_segment :: "nat \<Rightarrow> nat \<Rightarrow> nat \<Rightarrow> nat \<Rightarrow> nat \<Rightarrow> ptst \<Rightarrow> ptst option" where
  "boot_map_segment pgdir la sz pa perm st =
     do { kassert (la mod PGSIZE = pa mod PGSIZE);
          boot_map_loop pgdir (ROUNDUP (w64 (sz + la mod PGSIZE)) PGSIZE div PGSIZE)
            (ROUNDDOWN la PGSIZE) (ROUNDDOWN pa PGSIZE) perm st }"

text \<open>
  \<^verbatim>\<open>pgdir_alloc_page\<close>; the registration of the page with the swap manager when
  \<^verbatim>\<open>check_mm_struct\<close> is set happens in the theory Swap.
\<close>

definition pgdir_alloc_page :: "nat \<Rightarrow> nat \<Rightarrow> nat \<Rightarrow> ptst \<Rightarrow> (nat option \<times> ptst) option" where
  "pgdir_alloc_page pgdir la perm st =
     do { (page, st) \<leftarrow> alloc_page st;
          case page of
            None \<Rightarrow> Some (None, st)
          | Some page \<Rightarrow> do {
              (r, st) \<leftarrow> page_insert pgdir page la perm st;
              if r \<noteq> 0 then do { st \<leftarrow> free_page page st; Some (None, st) }
              else Some (Some page, st) } }"

section \<open>Entries\<close>

definition tbl :: "nat \<Rightarrow> nat" where
  "tbl e = PPN (PTE_ADDR e)"

lemma or_flags_div:
  fixes a f :: nat
  assumes "f < 2 ^ 10"
  shows "(a * 2 ^ 10 OR f) div 2 ^ 10 = a"
proof -
  have "drop_bit 10 f = 0" using assms by (simp add: drop_bit_eq_div)
  then have "drop_bit 10 (push_bit 10 a OR f) = a" by (simp add: drop_bit_push_bit)
  then show ?thesis by (simp add: drop_bit_eq_div push_bit_eq_mult del: power_numeral)
qed

lemma or_less_exp: "a < 2 ^ n \<Longrightarrow> b < 2 ^ n \<Longrightarrow> a OR b < (2 :: nat) ^ n"
  by (metis take_bit_nat_eq_self take_bit_nat_less_exp take_bit_or)

lemma pte_create_facts:
  assumes "ppn < 2 ^ 52" "type < 2 ^ 10"
  shows "bit (pte_create ppn type) 0" "tbl (pte_create ppn type) = ppn"
proof -
  show "bit (pte_create ppn type) 0"
    by (simp only: pte_create_def bit_or_iff bit_1_iff refl simp_thms)
  have "w64 (ppn * 2 ^ 10) = ppn * 2 ^ 10" using assms(1) by simp
  then have "pte_create ppn type = ppn * 2 ^ 10 OR (1 OR type)"
    by (simp add: pte_create_def or.assoc del: power_numeral)
  moreover have "1 OR type < 2 ^ 10" by (rule or_less_exp) (use assms in simp_all)
  ultimately have "pte_create ppn type div 2 ^ 10 = ppn" by (simp only: or_flags_div)
  then show "tbl (pte_create ppn type) = ppn"
    using assms(1) by (simp add: tbl_def PPN_def PTE_ADDR_def)
qed

lemma pte_create_user: "pte_create p (1 OR f) = pte_create p f"
  by (simp add: pte_create_def or.assoc or.left_commute)

section \<open>The tree of tables\<close>

text \<open>The tables of a page directory, with the way to them.\<close>

type_synonym path = "nat list"

definition nodes :: "ptst \<Rightarrow> nat \<Rightarrow> (path \<times> nat) set" where
  "nodes st d = {([], d)} \<union>
     {([i], tbl (pmem st d i)) | i. i < 512 \<and> bit (pmem st d i) 0} \<union>
     {([i, j], tbl (pmem st (tbl (pmem st d i)) j)) | i j. i < 512 \<and> j < 512 \<and>
        bit (pmem st d i) 0 \<and> bit (pmem st (tbl (pmem st d i)) j) 0}"

definition tree :: "ptst \<Rightarrow> nat \<Rightarrow> bool" where
  "tree st d \<longleftrightarrow> (\<forall>a b x. (a, x) \<in> nodes st d \<longrightarrow> (b, x) \<in> nodes st d \<longrightarrow> a = b)"

definition tables :: "ptst \<Rightarrow> nat \<Rightarrow> nat set" where
  "tables st d = snd ` nodes st d"

text \<open>What the tables say of a virtual page: its entry, or 0 when a table is missing.\<close>

definition entry :: "ptst \<Rightarrow> nat \<Rightarrow> nat \<Rightarrow> nat" where
  "entry st d n =
     (let e1 = pmem st d (n div 2 ^ 18 mod 512)
      in if \<not> bit e1 0 then 0
         else let e0 = pmem st (tbl e1) (n div 2 ^ 9 mod 512)
           in if \<not> bit e0 0 then 0 else pmem st (tbl e0) (n mod 512))"

definition pt_inv :: "ptst \<Rightarrow> nat \<Rightarrow> block list \<Rightarrow> bool" where
  "pt_inv st d bs \<longleftrightarrow> tree st d \<and> pmm_inv (phys st) bs \<and> npages st \<le> 2 ^ 52 \<and>
     (\<forall>t \<in> tables st d. nbase \<le> t \<and> t < npages st \<and> t - nbase \<notin> free_set bs) \<and>
     (\<forall>p \<in> free_set bs. p + nbase < npages st)"

lemma nodes_root: "([], d) \<in> nodes st d"
  by (simp add: nodes_def)

lemma nodes_1: "i < 512 \<Longrightarrow> bit (pmem st d i) 0 \<Longrightarrow> ([i], tbl (pmem st d i)) \<in> nodes st d"
  by (auto simp: nodes_def)

lemma nodes_2: "i < 512 \<Longrightarrow> j < 512 \<Longrightarrow> bit (pmem st d i) 0 \<Longrightarrow> bit (pmem st (tbl (pmem st d i)) j) 0 \<Longrightarrow>
   ([i, j], tbl (pmem st (tbl (pmem st d i)) j)) \<in> nodes st d"
  by (auto simp: nodes_def)

lemma tree_eq: "tree st d \<Longrightarrow> (a, x) \<in> nodes st d \<Longrightarrow> (b, x) \<in> nodes st d \<Longrightarrow> a = b"
  unfolding tree_def by blast

lemma in_tables: "(a, x) \<in> nodes st d \<Longrightarrow> x \<in> tables st d"
  by (force simp: tables_def)

text \<open>The walk and the entries read memory only in the tables.\<close>

lemma nodes_cong:
  assumes "pmem st' d = pmem st d" "\<And>i. i < 512 \<Longrightarrow> bit (pmem st d i) 0 \<Longrightarrow>
    pmem st' (tbl (pmem st d i)) = pmem st (tbl (pmem st d i))"
  shows "nodes st' d = nodes st d"
  unfolding nodes_def assms(1) using assms(2) by (intro arg_cong2 [where f = "(\<union>)"] refl) auto

lemma set_leaf:
  assumes t: "tree st d" and i: "i < 512" "j < 512" "c < 512" "bit (pmem st d i) 0"
    "bit (pmem st (tbl (pmem st d i)) j) 0"
  defines "x \<equiv> tbl (pmem st (tbl (pmem st d i)) j)"
  shows "nodes (set_pte (x, c) v st) d = nodes st d"
    and "n < 2 ^ 27 \<Longrightarrow> entry (set_pte (x, c) v st) d n =
      (if n = i * 2 ^ 18 + j * 2 ^ 9 + c then v else entry st d n)"
proof -
  let ?st = "set_pte (x, c) v st"
  have x: "([i, j], x) \<in> nodes st d" unfolding x_def by (rule nodes_2 [OF i(1,2,4,5)])
  have d: "x \<noteq> d" using tree_eq [OF t, of "[i, j]" x "[]"] x nodes_root by auto
  have 1: "x \<noteq> tbl (pmem st d i')" if "i' < 512" "bit (pmem st d i') 0" for i'
    using tree_eq [OF t x] nodes_1 [OF that] by fastforce
  have 2: "x = tbl (pmem st (tbl (pmem st d i')) j') \<Longrightarrow> i' = i \<and> j' = j"
    if "i' < 512" "j' < 512" "bit (pmem st d i') 0" "bit (pmem st (tbl (pmem st d i')) j') 0" for i' j'
    using tree_eq [OF t x] nodes_2 [OF that] by fastforce
  have pd: "pmem ?st d = pmem st d" using d by (simp add: set_pte_def)
  have p1: "pmem ?st (tbl (pmem st d i')) = pmem st (tbl (pmem st d i'))" if "i' < 512" "bit (pmem st d i') 0" for i'
    using 1 [OF that] by (simp add: set_pte_def)
  show "nodes ?st d = nodes st d" by (rule nodes_cong [OF pd p1])
  show "entry ?st d n = (if n = i * 2 ^ 18 + j * 2 ^ 9 + c then v else entry st d n)" if n: "n < 2 ^ 27"
  proof -
    let ?i = "n div 2 ^ 18 mod 512" and ?j = "n div 2 ^ 9 mod 512" and ?c = "n mod 512"
    have n_eq: "n = i * 2 ^ 18 + j * 2 ^ 9 + c \<longleftrightarrow> ?i = i \<and> ?j = j \<and> ?c = c"
    proof
      assume "n = i * 2 ^ 18 + j * 2 ^ 9 + c"
      then have "n = (i * 2 ^ 9 + j) * 512 + c" by simp
      moreover have "(m * 512 + c) div 2 ^ 9 = m \<and> (m * 512 + c) mod 512 = c" for m using i(3) by simp
      ultimately have "n div 2 ^ 9 = i * 2 ^ 9 + j" "n mod 512 = c" by blast+
      then show "?i = i \<and> ?j = j \<and> ?c = c" using i(1-3) by (simp add: div_mult2_eq [of n "2 ^ 9" "2 ^ 9", simplified])
    next
      assume a: "?i = i \<and> ?j = j \<and> ?c = c"
      have "n = (n div 2 ^ 9) * 2 ^ 9 + ?c" by simp
      moreover have "n div 2 ^ 9 = (n div 2 ^ 18) * 2 ^ 9 + ?j"
        using div_mult2_eq [of n "2 ^ 9" "2 ^ 9"] by simp
      moreover have "n div 2 ^ 18 = ?i" using n by simp
      ultimately show "n = i * 2 ^ 18 + j * 2 ^ 9 + c" using a by simp
    qed
    show ?thesis
    proof (cases "bit (pmem st d ?i) 0 \<and> bit (pmem st (tbl (pmem st d ?i)) ?j) 0")
      case False
      then have "\<not> (?i = i \<and> ?j = j)" using i(4,5) by auto
      with False n_eq p1 [of ?i] pd show ?thesis by (auto simp: entry_def Let_def)
    next
      case True
      have l: "pmem ?st (tbl (pmem st (tbl (pmem st d ?i)) ?j)) ?c =
          (if ?i = i \<and> ?j = j \<and> ?c = c then v else pmem st (tbl (pmem st (tbl (pmem st d ?i)) ?j)) ?c)"
        using 2 [of ?i ?j] True by (auto simp: set_pte_def x_def)
      show ?thesis using True p1 [of ?i] pd n_eq l by (simp add: entry_def Let_def)
    qed
  qed
qed


text \<open>A new empty table in an absent directory entry: one more node, the same entries.\<close>

lemma new_table:
  assumes t: "tree st d" and y: "(a, y) \<in> nodes st d" "length a < 2" and k: "k < 512" "\<not> bit (pmem st y k) 0"
    and x: "x \<notin> tables st d" and e: "bit e 0" "tbl e = x"
  defines "st' \<equiv> set_pte (y, k) e (st\<lparr>pmem := (pmem st)(x := (\<lambda>_. 0))\<rparr>)"
  shows "nodes st' d = insert (a @ [k], x) (nodes st d)" and "entry st' d n = entry st d n"
proof -
  have xy: "z \<noteq> x" if "(b, z) \<in> nodes st d" for b z using that x in_tables by blast
  have mem: "pmem st' z = (if z = y then (pmem st y)(k := e) else pmem st z)" if "(b, z) \<in> nodes st d" for b z
    using xy [OF that] xy [OF y(1)] by (auto simp: st'_def set_pte_def)
  have memx: "pmem st' x = (\<lambda>_. 0)" using xy [OF y(1)] by (auto simp: st'_def set_pte_def)
  consider "a = []" "y = d" | i where "a = [i]" "i < 512" "bit (pmem st d i) 0" "y = tbl (pmem st d i)"
    using y by (auto simp: nodes_def)
  then have "nodes st' d = insert (a @ [k], x) (nodes st d) \<and> entry st' d n = entry st d n"
  proof cases
    case 1
    have pd: "pmem st' d = (pmem st d)(k := e)" using mem [OF nodes_root] 1 by simp
    have p1: "pmem st' (tbl (pmem st d i)) = pmem st (tbl (pmem st d i))" if "i < 512" "bit (pmem st d i) 0" for i
    proof -
      have "tbl (pmem st d i) \<noteq> d" using tree_eq [OF t, of "[i]" d "[]"] nodes_1 [OF that] nodes_root by auto
      with mem [OF nodes_1 [OF that]] 1 show ?thesis by simp
    qed
    have p0: "pmem st' (tbl (pmem st (tbl (pmem st d i)) j)) = pmem st (tbl (pmem st (tbl (pmem st d i)) j))"
      if "i < 512" "j < 512" "bit (pmem st d i) 0" "bit (pmem st (tbl (pmem st d i)) j) 0" for i j
    proof -
      have "tbl (pmem st (tbl (pmem st d i)) j) \<noteq> d"
        using tree_eq [OF t, of "[i, j]" d "[]"] nodes_2 [OF that] nodes_root by auto
      with mem [OF nodes_2 [OF that]] 1 show ?thesis by simp
    qed
    have n: "nodes st' d = insert ([k], x) (nodes st d)"
      unfolding nodes_def pd
      using 1(2) k p1 e memx by (auto simp: set_eq_iff)
    have k0: "\<not> bit (pmem st d k) 0" using k 1 by simp
    have "entry st' d n = entry st d n"
      using p1 [of "n div 2 ^ 18 mod 512"] p0 [of "n div 2 ^ 18 mod 512" "n div 2 ^ 9 mod 512"] k0 e memx
      by (cases "n div 2 ^ 18 mod 512 = k") (simp_all add: entry_def Let_def pd)
    with n 1 show ?thesis by simp
  next
    case 2
    have yd: "y \<noteq> d" using tree_eq [OF t, of "[i]" d "[]"] y(1) 2(1) nodes_root by auto
    have pd: "pmem st' d = pmem st d" using mem [OF nodes_root] yd by simp
    have p1: "pmem st' (tbl (pmem st d i')) = (if i' = i then (pmem st y)(k := e) else pmem st (tbl (pmem st d i')))"
      if "i' < 512" "bit (pmem st d i') 0" for i'
    proof -
      have "tbl (pmem st d i') = y \<Longrightarrow> [i'] = a" using tree_eq [OF t] nodes_1 [OF that] y(1) by auto
      with mem [OF nodes_1 [OF that]] 2 show ?thesis by auto
    qed
    have p0: "pmem st' (tbl (pmem st (tbl (pmem st d i')) j)) = pmem st (tbl (pmem st (tbl (pmem st d i')) j))"
      if "i' < 512" "j < 512" "bit (pmem st d i') 0" "bit (pmem st (tbl (pmem st d i')) j) 0" for i' j
    proof -
      have "tbl (pmem st (tbl (pmem st d i')) j) \<noteq> y"
        using tree_eq [OF t] nodes_2 [OF that] y(1) 2(1) by fastforce
      with mem [OF nodes_2 [OF that]] show ?thesis by simp
    qed
    have k0: "\<not> bit (pmem st (tbl (pmem st d i)) k) 0" using k 2 by simp
    have "nodes st' d = insert ([i, k], x) (nodes st d)"
    proof (rule set_eqI)
      fix z
      show "z \<in> nodes st' d \<longleftrightarrow> z \<in> insert ([i, k], x) (nodes st d)"
        unfolding nodes_def pd using 2 k k0 p1 e by (auto split: if_splits)
    qed
    moreover have "entry st' d n = entry st d n"
    proof (cases "bit (pmem st d (n div 2 ^ 18 mod 512)) 0")
      case True
      with p1 [of "n div 2 ^ 18 mod 512"] p0 [of "n div 2 ^ 18 mod 512" "n div 2 ^ 9 mod 512"] k0 e memx 2
      show ?thesis by (auto simp: entry_def Let_def pd)
    qed (simp add: entry_def pd)
    ultimately show ?thesis using 2 by simp
  qed
  then show "nodes st' d = insert (a @ [k], x) (nodes st d)" "entry st' d n = entry st d n" by simp_all
qed


section \<open>Allocation under the tables\<close>

lemma pmm_inv_pref: "pmm_inv (upd_page p (\<lambda>q. q\<lparr>pref := v\<rparr>) m) bs \<longleftrightarrow> pmm_inv m bs"
proof -
  have "head_ok (pages (upd_page p (\<lambda>q. q\<lparr>pref := v\<rparr>) m)) = head_ok (pages m)"
    by (auto simp: fun_eq_iff head_ok_def upd_page_def PageProperty_def)
  then show ?thesis by (simp add: pmm_inv_def upd_page_def)
qed

lemma take_block_pref: "pref (pages (take_block p n m) q) = pref (pages m q)"
  by (simp add: take_block_def upd_defs SetPageProperty_def ClearPageProperty_def Let_def)

lemma alloc_pref: "default_alloc_pages n m = Some (r, m') \<Longrightarrow> pref (pages m' q) = pref (pages m q)"
  by (auto simp: default_alloc_pages_def take_block_pref bind_Some_iff split: if_splits option.splits)

lemma alloc_page_cases:
  assumes "pmm_inv (phys st) bs"
  shows "bs = [] \<and> alloc_page st = Some (None, st) \<or>
    (\<exists>p m bs'. alloc_page st = Some (Some p, st\<lparr>phys := m\<rparr>) \<and> pmm_inv m bs' \<and> p \<in> free_set bs \<and>
      p \<notin> free_set bs' \<and> free_set bs = insert p (free_set bs') \<and> (\<forall>q. pref (pages m q) = pref (pages (phys st) q)))"
proof (cases bs)
  case Nil
  have "st\<lparr>phys := phys st\<rparr> = st" by simp
  with Nil assms alloc_none [of "phys st", simplified] show ?thesis
    by (simp add: alloc_page_def exhausted_def)
next
  case (Cons b bs')
  obtain p k where b: "b = (p, k)" by (cases b)
  let ?bs = "if k = 1 then bs' else (p + 1, k - 1) # bs'"
  from alloc_one [of "phys st" p k bs'] assms Cons b obtain m where
    m: "default_alloc_pages 1 (phys st) = Some (Some p, m)" "pmm_inv m ?bs" by auto
  have o: "ordered ([] @ (p, k) # bs')" using assms Cons b by (simp add: pmm_inv_def)
  then have k: "0 < k" by (simp add: ordered_def)
  have "after_take [] p k 1 bs' = ?bs" using k by (auto simp: after_take_def)
  with after_take_free [OF o, of 1] k have f: "block_pages (p, 1) \<inter> free_set ?bs = {}"
    "block_pages (p, 1) \<union> free_set ?bs = free_set bs" using Cons b by simp_all
  have "block_pages (p, 1) = {p}" by (auto simp: block_pages_def)
  with f have "p \<notin> free_set ?bs" "free_set bs = insert p (free_set ?bs)" by auto
  with m alloc_pref [OF m(1)] show ?thesis
    by (intro disjI2 exI [of _ p] exI [of _ m] exI [of _ ?bs]) (simp add: alloc_page_def [abs_def])
qed


text \<open>What a step below a directory leaves alone.\<close>

definition keeps :: "nat \<Rightarrow> ptst \<Rightarrow> block list \<Rightarrow> ptst \<Rightarrow> block list \<Rightarrow> bool" where
  "keeps d st bs st' bs' \<longleftrightarrow> npages st' = npages st \<and> free_set bs' \<subseteq> free_set bs \<and> nodes st d \<subseteq> nodes st' d \<and>
     (\<forall>q. q \<notin> free_set bs \<longrightarrow> page_ref q st' = page_ref q st) \<and>
     (\<forall>z. z \<notin> tables st d \<longrightarrow> z \<notin> (\<lambda>p. p + nbase) ` free_set bs \<longrightarrow> pmem st' z = pmem st z) \<and>
     tables st' d \<subseteq> tables st d \<union> (\<lambda>p. p + nbase) ` free_set bs"

lemma keeps_refl: "keeps d st bs st bs"
  by (simp add: keeps_def)

lemma keeps_trans: "keeps d st bs st1 bs1 \<Longrightarrow> keeps d st1 bs1 st2 bs2 \<Longrightarrow> keeps d st bs st2 bs2"
proof -
  assume a: "keeps d st bs st1 bs1" and b: "keeps d st1 bs1 st2 bs2"
  have f: "free_set bs1 \<subseteq> free_set bs" using a by (simp add: keeps_def)
  then have i: "(\<lambda>p. p + nbase) ` free_set bs1 \<subseteq> (\<lambda>p. p + nbase) ` free_set bs" by (rule image_mono)
  have t: "tables st1 d \<subseteq> tables st d \<union> (\<lambda>p. p + nbase) ` free_set bs" using a by (simp add: keeps_def)
  show ?thesis
    unfolding keeps_def
  proof (intro conjI allI impI)
    show "page_ref q st2 = page_ref q st" if "q \<notin> free_set bs" for q
      using a b f that by (metis keeps_def subsetD)
    show "pmem st2 z = pmem st z" if "z \<notin> tables st d" "z \<notin> (\<lambda>p. p + nbase) ` free_set bs" for z
    proof -
      have "z \<notin> tables st1 d" "z \<notin> (\<lambda>p. p + nbase) ` free_set bs1" using that t i by blast+
      then have "pmem st2 z = pmem st1 z" using b by (simp add: keeps_def)
      also have "\<dots> = pmem st z" using a that by (simp add: keeps_def)
      finally show ?thesis .
    qed
    show "tables st2 d \<subseteq> tables st d \<union> (\<lambda>p. p + nbase) ` free_set bs"
      using b t i by (auto simp: keeps_def dest!: subsetD)
  qed (use a b in \<open>auto simp: keeps_def\<close>)
qed

lemma child_node:
  assumes "(a, y) \<in> nodes st d" "length a < 2" "k < 512" "bit (pmem st y k) 0"
  shows "(a @ [k], tbl (pmem st y k)) \<in> nodes st d"
  using assms by (auto simp: nodes_def)

lemma tree_insert:
  assumes "tree st d" "nodes st' d = insert (a, x) (nodes st d)" "x \<notin> tables st d"
  shows "tree st' d"
  using assms unfolding tree_def tables_def by (auto simp: image_iff)

lemma kaddr_table:
  assumes "pt_inv st d bs" "(a, tbl e) \<in> nodes st d"
  shows "KADDR st (PTE_ADDR e) = Some (tbl e)"
  using assms in_tables [OF assms(2)] by (auto simp: KADDR_def pt_inv_def tbl_def)

lemma table_below_spec:
  assumes inv: "pt_inv st d bs" and y: "(a, y) \<in> nodes st d" "length a < 2" and k: "k < 512"
  shows "\<exists>r st' bs'. table_below (y, k) create st = Some (r, st') \<and> pt_inv st' d bs' \<and>
    entry st' d = entry st d \<and> keeps d st bs st' bs' \<and> card (free_set bs) \<le> Suc (card (free_set bs')) \<and>
    (bit (pmem st y k) 0 \<longrightarrow> st' = st \<and> bs' = bs) \<and>
    (case r of None \<Rightarrow> st' = st \<and> bs' = bs \<and> \<not> bit (pmem st y k) 0 \<and> (create \<longrightarrow> bs = [])
     | Some t \<Rightarrow> (a @ [k], t) \<in> nodes st' d \<and> bit (pmem st' y k) 0 \<and> t = tbl (pmem st' y k))"
proof (cases "bit (pmem st y k) 0")
  case True
  note c = child_node [OF y k True]
  have "table_below (y, k) create st = Some (Some (tbl (pmem st y k)), st)"
    using True kaddr_table [OF inv c] by (simp add: table_below_def get_word_def)
  with True c inv keeps_refl show ?thesis
    by (intro exI [of _ "Some (tbl (pmem st y k))"] exI [of _ st] exI [of _ bs]) simp
next
  case False
  show ?thesis
  proof (cases create)
    case False
    with \<open>\<not> bit (pmem st y k) 0\<close> inv keeps_refl show ?thesis
      by (intro exI [of _ None] exI [of _ st] exI [of _ bs]) (simp add: table_below_def get_word_def)
  next
    case True
    from inv have t: "tree st d" and m: "pmm_inv (phys st) bs" and n: "npages st \<le> 2 ^ 52"
      and tb: "\<forall>t \<in> tables st d. nbase \<le> t \<and> t < npages st \<and> t - nbase \<notin> free_set bs"
      and fb: "\<forall>p \<in> free_set bs. p + nbase < npages st" by (auto simp: pt_inv_def)
    from alloc_page_cases [OF m] show ?thesis
    proof (elim disjE)
      assume "bs = [] \<and> alloc_page st = Some (None, st)"
      with \<open>\<not> bit (pmem st y k) 0\<close> True inv keeps_refl show ?thesis
        by (intro exI [of _ None] exI [of _ st] exI [of _ bs]) (simp add: table_below_def get_word_def)
    next
      assume "\<exists>p m bs'. alloc_page st = Some (Some p, st\<lparr>phys := m\<rparr>) \<and> pmm_inv m bs' \<and> p \<in> free_set bs \<and>
        p \<notin> free_set bs' \<and> free_set bs = insert p (free_set bs') \<and> (\<forall>q. pref (pages m q) = pref (pages (phys st) q))"
      then obtain p m' bs' where p: "alloc_page st = Some (Some p, st\<lparr>phys := m'\<rparr>)" "pmm_inv m' bs'"
        "p \<in> free_set bs" "p \<notin> free_set bs'" "free_set bs = insert p (free_set bs')"
        "\<forall>q. pref (pages m' q) = pref (pages (phys st) q)" by (elim exE conjE) (rule that)
      let ?x = "p + nbase" and ?e = "pte_create (p + nbase) (PTE_U OR 1)"
      let ?m = "upd_page p (\<lambda>q. q\<lparr>pref := 1\<rparr>) m'"
      let ?s1 = "st\<lparr>phys := ?m\<rparr>"
      let ?s = "set_pte (y, k) ?e (?s1\<lparr>pmem := (pmem ?s1)(?x := (\<lambda>_. 0))\<rparr>)"
      have x: "?x < npages st" "?x \<notin> tables st d" using fb tb p(3) by auto
      have x52: "?x < 2 ^ 52" using x(1) n by simp
      have fl: "PTE_U OR 1 < 2 ^ 10" by (rule or_less_exp) (simp_all add: PTE_U_def)
      note e = pte_create_facts [OF x52 fl]
      have nd1: "nodes ?s1 d = nodes st d" "entry ?s1 d = entry st d"
        by (simp add: nodes_def, simp add: entry_def Let_def fun_eq_iff)
      have "tree ?s1 d" "?x \<notin> tables ?s1 d" using t x nd1 by (simp_all add: tree_def tables_def)
      note nt = new_table [of ?s1 d a y k ?x ?e, OF this(1) _ y(2) k _ this(2) e, unfolded nd1]
      have ns: "nodes ?s d = insert (a @ [k], ?x) (nodes st d)" "entry ?s d = entry st d"
        using nt y(1) \<open>\<not> bit (pmem st y k) 0\<close> by (auto simp: fun_eq_iff)
      have k1: "w64 (?x * 2 ^ 12) = ?x * 2 ^ 12" using x52 by simp
      have yx: "y \<noteq> ?x" using in_tables [OF y(1)] x by auto
      have g: "pmem ?s y k = ?e" by (simp add: set_pte_def)
      have kad: "KADDR ?s (PTE_ADDR ?e) = Some ?x" using e(2) x(1) by (simp add: KADDR_def tbl_def set_pte_def)
      have kad0: "KADDR ?s1 (w64 (?x * 2 ^ 12)) = Some ?x"
        unfolding k1 using x(1) by (simp add: KADDR_def PPN_def)
      have "table_below (y, k) create st = Some (Some ?x, ?s)"
        using True \<open>\<not> bit (pmem st y k) 0\<close> p(1) x(1)
        by (simp add: table_below_def get_word_def set_page_ref_def page2ppn_def kad0 [simplified] kad [simplified]
            g [simplified] Let_def)
      moreover have tbls: "tables ?s d = insert ?x (tables st d)"
        by (simp only: tables_def ns(1) image_insert snd_conv)
      moreover have "pt_inv ?s d bs'"
        unfolding pt_inv_def
      proof (intro conjI)
        show "tree ?s d" by (rule tree_insert [OF t ns(1) x(2)])
        show "pmm_inv (phys ?s) bs'" using p(2) by (simp add: set_pte_def pmm_inv_pref)
        show "npages ?s \<le> 2 ^ 52" using n by (simp add: set_pte_def)
        show "\<forall>t \<in> tables ?s d. nbase \<le> t \<and> t < npages ?s \<and> t - nbase \<notin> free_set bs'"
          unfolding tbls using tb x p(4,5) by (auto simp: set_pte_def)
        show "\<forall>p \<in> free_set bs'. p + nbase < npages ?s" using fb p(5) by (auto simp: set_pte_def)
      qed
      moreover have "keeps d st bs ?s bs'"
        unfolding keeps_def
      proof (intro conjI allI impI)
        show "nodes st d \<subseteq> nodes ?s d" using ns by auto
        show "tables ?s d \<subseteq> tables st d \<union> (\<lambda>p. p + nbase) ` free_set bs"
          unfolding tbls using p(3) by auto
        show "page_ref q ?s = page_ref q st" if "q \<notin> free_set bs" for q
          using that p(3,6) by (auto simp: page_ref_def set_pte_def upd_page_def)
        show "pmem ?s z = pmem st z" if "z \<notin> tables st d" "z \<notin> (\<lambda>p. p + nbase) ` free_set bs" for z
          using that p(3) in_tables [OF y(1)] by (auto simp: set_pte_def)
      qed (use p(5) in \<open>auto simp: set_pte_def\<close>)
      moreover have "card (free_set bs) \<le> Suc (card (free_set bs'))"
        unfolding p(5) by (rule card_insert_le_m1) simp_all
      ultimately show ?thesis
        using e ns g \<open>\<not> bit (pmem st y k) 0\<close>
        by (intro exI [of _ "Some ?x"] exI [of _ ?s] exI [of _ bs']) simp
    qed
  qed
qed

section \<open>\<^verbatim>\<open>get_pte\<close> and the functions over it\<close>

abbreviation vpn :: "nat \<Rightarrow> nat" where "vpn la \<equiv> la div PGSIZE"

lemma index_vpn:
  "PDX1 la = vpn la div 2 ^ 18 mod 512" "PDX0 la = vpn la div 2 ^ 9 mod 512" "PTX la = vpn la mod 512"
  by (simp_all add: PDX1_def PDX0_def PTX_def flip: div_mult2_eq)

text \<open>A pointer into the last level: it reads the entry of the address, and a store through it changes that entry only.\<close>

definition has_leaf :: "ptst \<Rightarrow> nat \<Rightarrow> nat \<Rightarrow> bool" where
  "has_leaf st d n \<longleftrightarrow> bit (pmem st d (n div 2 ^ 18 mod 512)) 0 \<and>
     bit (pmem st (tbl (pmem st d (n div 2 ^ 18 mod 512))) (n div 2 ^ 9 mod 512)) 0"

definition slot_of :: "ptst \<Rightarrow> nat \<Rightarrow> nat \<Rightarrow> ptep \<Rightarrow> bool" where
  "slot_of st d n p \<longleftrightarrow> has_leaf st d n \<and> fst p \<in> tables st d \<and> get_word p st = entry st d n \<and>
     (\<forall>v st'. pmem st' = pmem st \<longrightarrow> nodes (set_pte p v st') d = nodes st d \<and>
        (\<forall>k < 2 ^ 27. entry (set_pte p v st') d k = (if k = n then v else entry st d k)))"

lemma pmem_cong: "pmem st' = pmem st \<Longrightarrow> nodes st' d = nodes st d" "pmem st' = pmem st \<Longrightarrow> entry st' d = entry st d"
  by (simp add: nodes_def, simp add: entry_def Let_def fun_eq_iff)

lemma leaf_slot:
  assumes inv: "pt_inv st d bs" and n: "n < 2 ^ 27"
    and b: "bit (pmem st d (n div 2 ^ 18 mod 512)) 0"
      "bit (pmem st (tbl (pmem st d (n div 2 ^ 18 mod 512))) (n div 2 ^ 9 mod 512)) 0"
  shows "slot_of st d n (tbl (pmem st (tbl (pmem st d (n div 2 ^ 18 mod 512))) (n div 2 ^ 9 mod 512)), n mod 512)"
  unfolding slot_of_def
proof (intro conjI allI impI)
  let ?i = "n div 2 ^ 18 mod 512" and ?j = "n div 2 ^ 9 mod 512" and ?c = "n mod 512"
  let ?x = "tbl (pmem st (tbl (pmem st d ?i)) ?j)"
  show "has_leaf st d n" using b by (simp add: has_leaf_def)
  show "fst (?x, ?c) \<in> tables st d"
    using in_tables [OF nodes_2 [of ?i ?j st d]] b by simp
  show "get_word (?x, ?c) st = entry st d n" using b by (simp add: get_word_def entry_def Let_def)
  fix v and st' :: ptst
  assume "pmem st' = pmem st"
  then have c: "nodes (set_pte (?x, ?c) v st') d = nodes (set_pte (?x, ?c) v st) d"
    "entry (set_pte (?x, ?c) v st') d = entry (set_pte (?x, ?c) v st) d"
    by (intro pmem_cong, simp add: set_pte_def)+
  have t: "tree st d" using inv by (simp add: pt_inv_def)
  have e: "n = ?i * 2 ^ 18 + ?j * 2 ^ 9 + ?c"
  proof -
    have "n = (n div 2 ^ 9) * 2 ^ 9 + ?c" by simp
    moreover have "n div 2 ^ 9 = (n div 2 ^ 18) * 2 ^ 9 + ?j"
      using div_mult2_eq [of n "2 ^ 9" "2 ^ 9"] by simp
    moreover have "n div 2 ^ 18 = ?i" using n by simp
    ultimately have "n = (?i * 2 ^ 9 + ?j) * 2 ^ 9 + ?c" by argo
    moreover have "(x * 2 ^ 9 + y) * 2 ^ 9 + z = x * 2 ^ 18 + y * 2 ^ 9 + z" for x y z :: nat by simp
    ultimately show ?thesis by (rule trans)
  qed
  show "nodes (set_pte (?x, ?c) v st') d = nodes st d"
    unfolding c by (rule set_leaf(1) [OF t _ _ _ b]) simp_all
  show "entry (set_pte (?x, ?c) v st') d k = (if k = n then v else entry st d k)" if "k < 2 ^ 27" for k
  proof -
    have "entry (set_pte (?x, ?c) v st) d k = (if k = ?i * 2 ^ 18 + ?j * 2 ^ 9 + ?c then v else entry st d k)"
      by (rule set_leaf(2) [OF t _ _ _ b that]) simp_all
    then show ?thesis unfolding c e [symmetric] .
  qed
qed

lemma get_pte_spec:
  assumes inv: "pt_inv st d bs" and la: "la < 2 ^ 39"
  shows "\<exists>r st' bs'. get_pte d la create st = Some (r, st') \<and> pt_inv st' d bs' \<and> entry st' d = entry st d \<and>
    keeps d st bs st' bs' \<and> (\<not> create \<longrightarrow> st' = st \<and> bs' = bs) \<and>
    (has_leaf st d (vpn la) \<longrightarrow> r \<noteq> None \<and> st' = st \<and> bs' = bs) \<and>
    card (free_set bs) \<le> card (free_set bs') + 2 \<and>
    (case r of None \<Rightarrow> entry st d (vpn la) = 0 \<and> (create \<longrightarrow> card (free_set bs) \<le> 1) | Some p \<Rightarrow> slot_of st' d (vpn la) p)"
proof -
  let ?n = "vpn la"
  have n: "?n < 2 ^ 27" using la by simp
  have i: "PDX1 la < 512" "PDX0 la < 512" by (simp_all add: PDX1_def PDX0_def)
  from table_below_spec [OF inv nodes_root _ i(1), of create] obtain r1 st1 bs1 where
    1: "table_below (d, PDX1 la) create st = Some (r1, st1)" "pt_inv st1 d bs1" "entry st1 d = entry st d"
      "keeps d st bs st1 bs1" "card (free_set bs) \<le> Suc (card (free_set bs1))"
      "bit (pmem st d (PDX1 la)) 0 \<longrightarrow> st1 = st \<and> bs1 = bs"
      "case r1 of None \<Rightarrow> st1 = st \<and> bs1 = bs \<and> \<not> bit (pmem st d (PDX1 la)) 0 \<and> (create \<longrightarrow> bs = [])
       | Some t \<Rightarrow> ([] @ [PDX1 la], t) \<in> nodes st1 d \<and> bit (pmem st1 d (PDX1 la)) 0 \<and> t = tbl (pmem st1 d (PDX1 la))"
    by auto
  have nc1: "\<not> create \<Longrightarrow> st1 = st" using 1(1) by (auto simp: table_below_def bind_Some_iff split: if_splits)
  show ?thesis
  proof (cases r1)
    case None
    with 1 show ?thesis
      by (intro exI [of _ None] exI [of _ st] exI [of _ bs])
        (simp add: get_pte_def entry_def index_vpn keeps_refl inv has_leaf_def)
  next
    case (Some t1)
    with 1(7) have t1: "([PDX1 la], t1) \<in> nodes st1 d" "bit (pmem st1 d (PDX1 la)) 0"
      "t1 = tbl (pmem st1 d (PDX1 la))" unfolding Some option.case append_Nil by blast+
    from table_below_spec [OF 1(2) t1(1) _ i(2), of create] obtain r2 st2 bs2 where
      2: "table_below (t1, PDX0 la) create st1 = Some (r2, st2)" "pt_inv st2 d bs2" "entry st2 d = entry st1 d"
        "keeps d st1 bs1 st2 bs2" "card (free_set bs1) \<le> Suc (card (free_set bs2))"
        "bit (pmem st1 t1 (PDX0 la)) 0 \<longrightarrow> st2 = st1 \<and> bs2 = bs1"
        "case r2 of None \<Rightarrow> st2 = st1 \<and> bs2 = bs1 \<and> \<not> bit (pmem st1 t1 (PDX0 la)) 0 \<and> (create \<longrightarrow> bs1 = [])
         | Some t \<Rightarrow> ([PDX1 la] @ [PDX0 la], t) \<in> nodes st2 d \<and> bit (pmem st2 t1 (PDX0 la)) 0 \<and> t = tbl (pmem st2 t1 (PDX0 la))"
      by auto
    have nc2: "\<not> create \<Longrightarrow> st2 = st1" using 2(1) by (auto simp: table_below_def bind_Some_iff split: if_splits)
    have e: "entry st2 d = entry st d" using 1(3) 2(3) by simp
    have k: "keeps d st bs st2 bs2" by (rule keeps_trans [OF 1(4) 2(4)])
    have g: "get_pte d la create st = Some (map_option (\<lambda>t0. (t0, PTX la)) r2, st2)"
      using 1(1) 2(1) Some by (cases r2) (simp_all add: get_pte_def)
    have sl: "slot_of st2 d (vpn la) (t0, PTX la)" if "r2 = Some t0" for t0
    proof -
      have b: "bit (pmem st2 t1 (PDX0 la)) 0" "t0 = tbl (pmem st2 t1 (PDX0 la))"
        using 2(7) that by auto
      have "([PDX1 la], t1) \<in> nodes st2 d" using 2(4) t1(1) by (auto simp: keeps_def)
      then have "bit (pmem st2 d (PDX1 la)) 0 \<and> t1 = tbl (pmem st2 d (PDX1 la))" by (auto simp: nodes_def)
      with leaf_slot [OF 2(2) n] b show ?thesis by (simp add: index_vpn)
    qed
    have z: "entry st d (vpn la) = 0" if "r2 = None"
    proof -
      have "\<not> bit (pmem st1 (tbl (pmem st1 d (PDX1 la))) (PDX0 la)) 0" using 2(7) that t1(3) by simp
      with t1(2) have "entry st1 d (vpn la) = 0" by (simp add: entry_def index_vpn Let_def)
      with 1(3) show ?thesis by simp
    qed
    have h: "r2 \<noteq> None \<and> st2 = st \<and> bs2 = bs" if "has_leaf st d (vpn la)"
    proof -
      have "st1 = st" "bs1 = bs" using 1(6) that by (simp_all add: has_leaf_def index_vpn)
      moreover have "bit (pmem st1 t1 (PDX0 la)) 0"
        using that t1(3) calculation by (simp add: has_leaf_def index_vpn)
      ultimately show ?thesis using 2(6,7) by (cases r2) auto
    qed
    have c: "card (free_set bs) \<le> card (free_set bs2) + 2" using 1(5) 2(5) by simp
    show ?thesis
    proof (cases create)
      case True
      with g e k 2(2) sl z h 2(7) 1(5) c show ?thesis
        by (intro exI [of _ "map_option (\<lambda>t0. (t0, PTX la)) r2"] exI [of _ st2] exI [of _ bs2])
          (auto split: option.splits)
    next
      case False
      with nc1 nc2 have "st2 = st" by simp
      with False g inv sl z h keeps_refl show ?thesis
        by (intro exI [of _ "map_option (\<lambda>t0. (t0, PTX la)) r2"] exI [of _ st] exI [of _ bs])
          (auto split: option.splits)
    qed
  qed
qed


lemma get_page_spec:
  assumes inv: "pt_inv st d bs" and la: "la < 2 ^ 39"
  shows "\<exists>p. get_page d la st =
    (if bit (entry st d (vpn la)) 0 then
       (case pte2page st (entry st d (vpn la)) of None \<Rightarrow> None | Some q \<Rightarrow> Some (Some q, p, st))
     else Some (None, p, st))"
proof -
  from get_pte_spec [OF assms, of False] obtain r where r: "get_pte d la False st = Some (r, st)"
    "case r of None \<Rightarrow> entry st d (vpn la) = 0 | Some p \<Rightarrow> slot_of st d (vpn la) p"
    by (auto split: option.splits)
  then show ?thesis
    by (intro exI [of _ r]) (auto simp: get_page_def slot_of_def split: option.splits)
qed

lemma set_pte_inv:
  assumes "pt_inv st d bs" "slot_of st d n p" "pmm_inv (phys st') bs'" "pmem st' = pmem st" "npages st' = npages st"
    "free_set bs' \<subseteq> free_set bs"
  shows "pt_inv (set_pte p v st') d bs'"
proof -
  have "nodes (set_pte p v st') d = nodes st d" using assms(2,4) by (simp add: slot_of_def)
  then have "tree (set_pte p v st') d = tree st d" "tables (set_pte p v st') d = tables st d"
    by (simp_all add: tree_def tables_def)
  with assms(1,3,5,6) show ?thesis by (auto simp: pt_inv_def set_pte_def)
qed

lemma pte2page_create:
  assumes "page + nbase < npages st" "npages st \<le> 2 ^ 52" "perm < 2 ^ 10"
  shows "pte2page st (pte_create (page2ppn page) perm) = Some page"
proof -
  have "page2ppn page < 2 ^ 52" using assms by (simp add: page2ppn_def)
  note f = pte_create_facts [OF this assms(3)]
  from f(2) have "PPN (PTE_ADDR (pte_create (page2ppn page) perm)) = page + nbase"
    by (simp add: tbl_def page2ppn_def)
  with f(1) assms(1) show ?thesis by (simp add: pte2page_def pa2page_def)
qed

text \<open>
  \<^verbatim>\<open>page_insert\<close>: when memory for the tables is left, the address maps to the page
  with the wanted bits and every other address is as before; a page mapped there before
  loses one reference. The case that frees that page is excluded here.
\<close>

definition old_ok :: "ptst \<Rightarrow> nat \<Rightarrow> nat \<Rightarrow> bool" where
  "old_ok st e page \<longleftrightarrow> (bit e 0 \<longrightarrow> (\<exists>q. pte2page st e = Some q \<and> (q \<noteq> page \<longrightarrow> page_ref q st \<noteq> 1)))"

definition new_ref :: "ptst \<Rightarrow> nat \<Rightarrow> nat \<Rightarrow> nat \<Rightarrow> int" where
  "new_ref st e page q =
     page_ref q st + (if q = page then 1 else 0) - (if bit e 0 \<and> pte2page st e = Some q then 1 else 0)"

lemma set_pte_twice [simp]: "set_pte p v (set_pte p w st) = set_pte p v st"
  by (simp add: set_pte_def)

lemma set_page_ref_facts [simp]:
  "page_ref q (set_page_ref p v st) = (if q = p then v else page_ref q st)"
  "get_word w (set_page_ref p v st) = get_word w st"
  "pmem (set_page_ref p v st) = pmem st" "npages (set_page_ref p v st) = npages st"
  "pmm_inv (phys (set_page_ref p v st)) bs \<longleftrightarrow> pmm_inv (phys st) bs"
  "pte2page (set_page_ref p v st) e = pte2page st e"
  by (simp_all add: set_page_ref_def page_ref_def get_word_def pmm_inv_pref [unfolded upd_page_def] pte2page_def pa2page_def upd_page_def)

lemma set_page_ref_phys: "\<exists>m. set_page_ref p v st = st\<lparr>phys := m\<rparr>"
  by (auto simp: set_page_ref_def)

lemma set_page_ref_phys2: "\<exists>m. set_page_ref p v (set_page_ref q w st) = st\<lparr>phys := m\<rparr>"
proof -
  obtain m where "set_page_ref q w st = st\<lparr>phys := m\<rparr>" using set_page_ref_phys by blast
  moreover obtain m' where "set_page_ref p v (st\<lparr>phys := m\<rparr>) = st\<lparr>phys := m\<rparr>\<lparr>phys := m'\<rparr>"
    using set_page_ref_phys by blast
  ultimately show ?thesis by auto
qed

lemma insert_refs:
  assumes g: "get_pte d la True st = Some (Some p, st1)" "get_word p st1 = e" and pt: "pte2page st1 e = pte2page st e"
    and old: "old_ok st e page" and rf: "\<And>q. q \<notin> free_set bs \<Longrightarrow> page_ref q st1 = page_ref q st"
    and oldf: "\<And>q. pte2page st e = Some q \<Longrightarrow> q \<notin> free_set bs"
    and m: "pmm_inv (phys st1) bs1" and pg: "page \<notin> free_set bs"
  shows "\<exists>m. page_insert d page la perm st = Some (0, set_pte p (pte_create (page2ppn page) perm) (st1\<lparr>phys := m\<rparr>)) \<and>
      pmm_inv m bs1 \<and> (\<forall>q. q \<notin> free_set bs \<longrightarrow> pref (pages m q) = new_ref st e page q)"
proof -
  let ?v = "pte_create (page2ppn page) perm"
  let ?s = "page_ref_inc page st1"
  have "\<exists>s. page_insert d page la perm st = Some (0, set_pte p ?v s) \<and> (\<exists>m. s = st1\<lparr>phys := m\<rparr>) \<and>
      pmm_inv (phys s) bs1 \<and> (\<forall>q. q \<notin> free_set bs \<longrightarrow> page_ref q s = new_ref st e page q)"
  proof (cases "bit e 0")
    case False
    then show ?thesis
      using g m rf set_page_ref_phys
      by (intro exI [of _ ?s]) (auto simp: page_insert_def page_ref_inc_def pte_create_user [simplified] new_ref_def)
  next
    case True
    with old obtain q where q: "pte2page st e = Some q" "q \<noteq> page \<longrightarrow> page_ref q st \<noteq> 1" by (auto simp: old_ok_def)
    show ?thesis
    proof (cases "q = page")
      case same: True
      let ?t = "page_ref_dec page ?s"
      have "\<exists>m. ?t = st1\<lparr>phys := m\<rparr>"
        unfolding page_ref_inc_def page_ref_dec_def by (rule set_page_ref_phys2)
      then show ?thesis
        using True same q g pt m rf
        by (intro exI [of _ ?t]) (auto simp: page_insert_def page_ref_inc_def page_ref_dec_def pte_create_user [simplified] new_ref_def)
    next
      case False
      let ?t = "page_ref_dec q ?s"
      have "\<exists>m. ?t = st1\<lparr>phys := m\<rparr>"
        unfolding page_ref_inc_def page_ref_dec_def by (rule set_page_ref_phys2)
      moreover have "page_remove_pte d la p ?s = Some (set_pte p 0 ?t)"
        using True False q g pt rf [OF oldf [OF q(1)]]
        by (simp add: page_remove_pte_def page_ref_inc_def page_ref_dec_def)
      ultimately show ?thesis
        using True False q g pt m rf
        by (intro exI [of _ ?t]) (auto simp: page_insert_def page_ref_inc_def page_ref_dec_def pte_create_user [simplified] new_ref_def)
    qed
  qed
  then show ?thesis by (auto simp: page_ref_def)
qed

lemma page_insert_spec:
  assumes inv: "pt_inv st d bs" and la: "la < 2 ^ 39" and pg: "page + nbase < npages st" "page \<notin> free_set bs"
    and perm: "perm < 2 ^ 10" and old: "old_ok st (entry st d (vpn la)) page"
    and oldf: "\<forall>q. pte2page st (entry st d (vpn la)) = Some q \<longrightarrow> q \<notin> free_set bs"
  shows "\<exists>r st' bs'. page_insert d page la perm st = Some (r, st') \<and> pt_inv st' d bs' \<and>
    (has_leaf st d (vpn la) \<longrightarrow> r = 0) \<and>
    (if r = 0 then (\<forall>k < 2 ^ 27. entry st' d k = (if k = vpn la then pte_create (page2ppn page) perm else entry st d k)) \<and>
       (\<forall>q. q \<notin> free_set bs \<longrightarrow> page_ref q st' = new_ref st (entry st d (vpn la)) page q) \<and>
       (\<exists>p. get_page d la st' = Some (Some page, p, st'))
     else r = - E_NO_MEM \<and> card (free_set bs) \<le> 1 \<and> entry st' d = entry st d)"
proof -
  from get_pte_spec [OF inv la, of True] obtain r st1 bs1 where
    1: "get_pte d la True st = Some (r, st1)" "pt_inv st1 d bs1" "entry st1 d = entry st d" "keeps d st bs st1 bs1"
      "has_leaf st d (vpn la) \<longrightarrow> r \<noteq> None \<and> st1 = st \<and> bs1 = bs"
      "case r of None \<Rightarrow> entry st d (vpn la) = 0 \<and> (True \<longrightarrow> card (free_set bs) \<le> 1) | Some p \<Rightarrow> slot_of st1 d (vpn la) p"
    by (elim exE conjE) (rule that, assumption+)
  show ?thesis
  proof (cases r)
    case None
    with 1 show ?thesis
      by (intro exI [of _ "- E_NO_MEM"] exI [of _ st1] exI [of _ bs1]) (simp add: page_insert_def)
  next
    case (Some p)
    let ?e = "entry st d (vpn la)" and ?v = "pte_create (page2ppn page) perm"
    have sl: "slot_of st1 d (vpn la) p" using 1(6) Some by simp
    have gw: "get_word p st1 = ?e" using sl 1(3) by (simp add: slot_of_def)
    have np: "npages st1 = npages st" using 1(4) by (simp add: keeps_def)
    have pt: "pte2page s ?e = pte2page st ?e" if "npages s = npages st" for s :: ptst
      using that by (simp add: pte2page_def pa2page_def)
    have rf: "page_ref q st1 = page_ref q st" if "q \<notin> free_set bs" for q using 1(4) that by (simp add: keeps_def)
    have n27: "vpn la < 2 ^ 27" using la by simp
    have "\<exists>m. page_insert d page la perm st = Some (0, set_pte p ?v (st1\<lparr>phys := m\<rparr>)) \<and>
      pmm_inv m bs1 \<and> (\<forall>q. q \<notin> free_set bs \<longrightarrow> pref (pages m q) = new_ref st ?e page q)"
      by (rule insert_refs [OF 1(1) [unfolded Some] gw pt [OF np] old rf oldf [rule_format] _ pg(2)]) (use 1(2) in \<open>simp_all add: pt_inv_def\<close>)
    then obtain m where w: "page_insert d page la perm st = Some (0, set_pte p ?v (st1\<lparr>phys := m\<rparr>))"
      "pmm_inv m bs1" "\<forall>q. q \<notin> free_set bs \<longrightarrow> pref (pages m q) = new_ref st ?e page q"
      by (elim exE conjE)
    let ?s = "set_pte p ?v (st1\<lparr>phys := m\<rparr>)"
    have i: "pt_inv ?s d bs1" by (rule set_pte_inv [OF 1(2) sl]) (simp_all add: w(2))
    have en: "entry ?s d k = (if k = vpn la then ?v else entry st d k)" if "k < 2 ^ 27" for k
      using sl that 1(3) by (simp add: slot_of_def)
    have p2: "pte2page ?s ?v = Some page"
      using pte2page_create [OF pg(1) _ perm] inv np
      by (simp add: pt_inv_def pte2page_def pa2page_def set_pte_def)
    moreover have "bit ?v 0"
      using pte_create_facts(1) [OF _ perm, of "page2ppn page"] pg(1) inv by (simp add: page2ppn_def pt_inv_def)
    ultimately have "\<exists>p. get_page d la ?s = Some (Some page, p, ?s)"
      using get_page_spec [OF i la] en [OF n27] by simp
    with w i en show ?thesis
      by (intro exI [of _ 0] exI [of _ ?s] exI [of _ bs1]) (simp add: page_ref_def set_pte_def)
  qed
qed


section \<open>Properties\<close>


definition boot_memory :: ptst where
  "boot_memory = \<lparr>phys = \<lparr>pages = (\<lambda>p. \<lparr>pref = 0, flags = (if p = 1 then 2 else 0), property = (if p = 1 then 7 else 0)\<rparr>),
       links = \<lparr>prv = id(FreeList := PageLink 1, PageLink 1 := FreeList),
         nxt = id(FreeList := PageLink 1, PageLink 1 := FreeList)\<rparr>, nr_free = 7\<rparr>,
     pmem = (\<lambda>_ _. 0), npages = nbase + 16\<rparr>"

lemma boot_memory_inv: "pt_inv boot_memory nbase [(1, 7)]"
proof -
  have n: "nodes boot_memory nbase = {([], nbase)}" by (simp add: nodes_def boot_memory_def)
  have "pmm_inv (phys boot_memory) [(1, 7)]"
    by (simp add: pmm_inv_def ring_def ordered_def head_ok_def PageProperty_def total_def boot_memory_def)
  then show ?thesis
    unfolding pt_inv_def tree_def tables_def n
    by (auto simp: free_set_def block_pages_def boot_memory_def)
qed


end
