(* ===== verification/Vmm.thy ===== *)
theory Vmm
  imports PageTable Str
begin

text \<open>
  kern/mm/vmm.c and kern/mm/vmm.h: the memory areas of a process, their list sorted by
  address with the cache of the last one found, the checks of user addresses and the page
  fault handler. An area and an \<^verbatim>\<open>mm_struct\<close> are addressed by numbers; the result of
  \<^verbatim>\<open>kmalloc\<close> is an argument, the addresses given to \<^verbatim>\<open>kfree\<close> are
  recorded. Memory copied by the kernel is the byte memory of libs/string.c. The two calls
  of the page fault handler into the swap code are arguments of it.
\<close>

unbundle bit_operations_syntax

section \<open>Data (kern/mm/vmm.h)\<close>

datatype vma_le = MmapList nat | VmaLink nat

fun le2vma :: "vma_le \<Rightarrow> nat" where
  "le2vma (VmaLink v) = v"

record vma_struct =
  vm_mm :: nat
  vm_start :: nat
  vm_end :: nat
  vm_flags :: nat

record mm_struct =
  mmap_cache :: "nat option"
  pgdir :: nat
  map_count :: int
  mm_priv :: "nat option"
  mm_count :: int
  mm_sem :: int

record vmst =
  vlinks :: "vma_le links"
  vmas :: "nat \<Rightarrow> vma_struct"
  mms :: "nat \<Rightarrow> mm_struct"
  freed :: "vma_le list"
  ptab :: ptst

definition VM_READ :: nat where "VM_READ = 1"
definition VM_WRITE :: nat where "VM_WRITE = 2"
definition VM_STACK :: nat where "VM_STACK = 8"

definition KERN_ACCESS :: "nat \<Rightarrow> nat \<Rightarrow> bool" where
  "KERN_ACCESS start stop \<longleftrightarrow>
     0xFFFFFFFFC0200000 \<le> start \<and> start < stop \<and> stop \<le> 0xFFFFFFFFC0200000 + 0x7E00000"

definition upd_mm :: "nat \<Rightarrow> (mm_struct \<Rightarrow> mm_struct) \<Rightarrow> vmst \<Rightarrow> vmst" where
  "upd_mm m f st = st\<lparr>mms := (mms st)(m := f (mms st m))\<rparr>"

definition upd_vma :: "nat \<Rightarrow> (vma_struct \<Rightarrow> vma_struct) \<Rightarrow> vmst \<Rightarrow> vmst" where
  "upd_vma v f st = st\<lparr>vmas := (vmas st)(v := f (vmas st v))\<rparr>"

definition set_mm_count :: "nat \<Rightarrow> int \<Rightarrow> vmst \<Rightarrow> vmst" where
  "set_mm_count m val st = upd_mm m (\<lambda>s. s\<lparr>mm_count := val\<rparr>) st"

definition mm_count_inc :: "nat \<Rightarrow> vmst \<Rightarrow> int \<times> vmst" where
  "mm_count_inc m st =
     (let st = upd_mm m (\<lambda>s. s\<lparr>mm_count := mm_count s + 1\<rparr>) st in (mm_count (mms st m), st))"

definition mm_count_dec :: "nat \<Rightarrow> vmst \<Rightarrow> int \<times> vmst" where
  "mm_count_dec m st =
     (let st = upd_mm m (\<lambda>s. s\<lparr>mm_count := mm_count s - 1\<rparr>) st in (mm_count (mms st m), st))"

section \<open>Areas\<close>

text \<open>With swapping on, every swap manager stores the address of its list head in \<^verbatim>\<open>sm_priv\<close>.\<close>

definition mm_create :: "bool \<Rightarrow> nat \<Rightarrow> nat option \<Rightarrow> vmst \<Rightarrow> nat option \<times> vmst" where
  "mm_create swap_ok pra_head mem st =
     (case mem of
        None \<Rightarrow> (None, st)
      | Some m \<Rightarrow>
          (let st = st\<lparr>vlinks := list_init (MmapList m) (vlinks st)\<rparr>;
               st = upd_mm m (\<lambda>s. s\<lparr>mmap_cache := None, pgdir := 0, map_count := 0\<rparr>) st;
               st = upd_mm m (\<lambda>s. s\<lparr>mm_priv := if swap_ok then Some pra_head else None\<rparr>) st;
               st = set_mm_count m 0 st
           in (Some m, upd_mm m (\<lambda>s. s\<lparr>mm_sem := 1\<rparr>) st)))"

definition vma_create :: "nat option \<Rightarrow> nat \<Rightarrow> nat \<Rightarrow> nat \<Rightarrow> vmst \<Rightarrow> nat option \<times> vmst" where
  "vma_create mem start stop vflags st =
     (case mem of
        None \<Rightarrow> (None, st)
      | Some v \<Rightarrow> (Some v, upd_vma v (\<lambda>a. a\<lparr>vm_start := start, vm_end := stop, vm_flags := vflags\<rparr>) st))"

definition in_vma :: "vmst \<Rightarrow> nat \<Rightarrow> nat \<Rightarrow> bool" where
  "in_vma st v addr \<longleftrightarrow> vm_start (vmas st v) \<le> addr \<and> addr < vm_end (vmas st v)"

partial_function (option) find_vma_loop :: "vmst \<Rightarrow> nat \<Rightarrow> vma_le \<Rightarrow> vma_le \<Rightarrow> nat option option" where
  "find_vma_loop st addr list le0 =
     (let le = list_next le0 (vlinks st)
      in if le \<noteq> list then
           (let vma = le2vma le
            in if in_vma st vma addr then Some (Some vma) else find_vma_loop st addr list le)
         else Some None)"

definition find_vma :: "nat option \<Rightarrow> nat \<Rightarrow> vmst \<Rightarrow> (nat option \<times> vmst) option" where
  "find_vma mm addr st =
     (case mm of
        None \<Rightarrow> Some (None, st)
      | Some m \<Rightarrow> do {
          vma \<leftarrow> (case mmap_cache (mms st m) of
                    Some v \<Rightarrow> if in_vma st v addr then Some (Some v)
                              else find_vma_loop st addr (MmapList m) (MmapList m)
                  | None \<Rightarrow> find_vma_loop st addr (MmapList m) (MmapList m));
          Some (vma, if vma \<noteq> None then upd_mm m (\<lambda>s. s\<lparr>mmap_cache := vma\<rparr>) st else st) })"

definition check_vma_overlap :: "nat \<Rightarrow> nat \<Rightarrow> vmst \<Rightarrow> unit option" where
  "check_vma_overlap p n st =
     do { kassert (vm_start (vmas st p) < vm_end (vmas st p));
          kassert (vm_end (vmas st p) \<le> vm_start (vmas st n));
          kassert (vm_start (vmas st n) < vm_end (vmas st n)) }"

partial_function (option) insert_vma_loop :: "vmst \<Rightarrow> nat \<Rightarrow> vma_le \<Rightarrow> vma_le \<Rightarrow> vma_le option" where
  "insert_vma_loop st vma list le_prev =
     (let le = list_next le_prev (vlinks st)
      in if le \<noteq> list then
           if vm_start (vmas st vma) < vm_start (vmas st (le2vma le)) then Some le_prev
           else insert_vma_loop st vma list le
         else Some le_prev)"

definition insert_vma_struct :: "nat \<Rightarrow> nat \<Rightarrow> vmst \<Rightarrow> vmst option" where
  "insert_vma_struct m vma st =
     do { kassert (vm_start (vmas st vma) < vm_end (vmas st vma));
          let list = MmapList m;
          le_prev \<leftarrow> insert_vma_loop st vma list list;
          let le_next = list_next le_prev (vlinks st);
          (if le_prev \<noteq> list then check_vma_overlap (le2vma le_prev) vma st else Some ());
          (if le_next \<noteq> list then check_vma_overlap vma (le2vma le_next) st else Some ());
          let st = upd_vma vma (\<lambda>a. a\<lparr>vm_mm := m\<rparr>) st;
          let st = st\<lparr>vlinks := list_add_after le_prev (VmaLink vma) (vlinks st)\<rparr>;
          Some (upd_mm m (\<lambda>s. s\<lparr>map_count := map_count s + 1\<rparr>) st) }"

definition note_kfree :: "vma_le \<Rightarrow> vmst \<Rightarrow> vmst" where
  "note_kfree p st = st\<lparr>freed := freed st @ [p]\<rparr>"

partial_function (option) mm_destroy_loop :: "nat \<Rightarrow> vmst \<Rightarrow> vmst option" where
  "mm_destroy_loop m st =
     (let le = list_next (MmapList m) (vlinks st)
      in if le \<noteq> MmapList m then
           (let st = st\<lparr>vlinks := list_del le (vlinks st)\<rparr>
            in mm_destroy_loop m (note_kfree (VmaLink (le2vma le)) st))
         else Some st)"

definition mm_destroy :: "nat \<Rightarrow> vmst \<Rightarrow> vmst option" where
  "mm_destroy m st =
     do { kassert (mm_count (mms st m) = 0);
          st \<leftarrow> mm_destroy_loop m st;
          Some (note_kfree (MmapList m) st) }"

text \<open>\<^verbatim>\<open>mm_map\<close>; the area made is returned with the error code.\<close>

definition mm_map :: "nat option \<Rightarrow> nat option \<Rightarrow> nat \<Rightarrow> nat \<Rightarrow> nat \<Rightarrow> vmst \<Rightarrow> (int \<times> nat option \<times> vmst) option" where
  "mm_map mem mm addr len vflags st =
     (let start = ROUNDDOWN addr PGSIZE; stop = ROUNDUP (w64 (addr + len)) PGSIZE
      in if \<not> USER_ACCESS start stop then Some (- E_INVAL, None, st)
         else do {
           kassert (mm \<noteq> None);
           m \<leftarrow> mm;
           (vma, st) \<leftarrow> find_vma mm start st;
           if (case vma of None \<Rightarrow> False | Some v \<Rightarrow> vm_start (vmas st v) < stop) then Some (- E_INVAL, None, st)
           else (case vma_create mem start stop vflags st of
               (None, st) \<Rightarrow> Some (- E_NO_MEM, None, st)
             | (Some v, st) \<Rightarrow> do {
                 st \<leftarrow> insert_vma_struct m v st;
                 Some (0, Some v, st) }) })"

text \<open>The list of addresses that \<^verbatim>\<open>kmalloc\<close> returns in turn is the first argument.\<close>

partial_function (option) dup_mmap_loop :: "nat option list \<Rightarrow> nat \<Rightarrow> nat \<Rightarrow> vma_le \<Rightarrow> vmst \<Rightarrow> (int \<times> vmst) option" where
  "dup_mmap_loop mem dst src le0 st =
     (let le = list_prev le0 (vlinks st)
      in if le \<noteq> MmapList src then
           (let v = le2vma le; a = vmas st v
            in case vma_create (hd mem) (vm_start a) (vm_end a) (vm_flags a) st of
                 (None, st) \<Rightarrow> Some (- E_NO_MEM, st)
               | (Some nv, st) \<Rightarrow> do {
                   st \<leftarrow> insert_vma_struct dst nv st;
                   (r, pt) \<leftarrow> copy_range (pgdir (mms st dst)) (pgdir (mms st src))
                               (vm_start (vmas st v)) (vm_end (vmas st v)) False (ptab st);
                   let st = st\<lparr>ptab := pt\<rparr>;
                   if r \<noteq> 0 then Some (- E_NO_MEM, st) else dup_mmap_loop (tl mem) dst src le st })
         else Some (0, st))"

definition dup_mmap :: "nat option list \<Rightarrow> nat option \<Rightarrow> nat option \<Rightarrow> vmst \<Rightarrow> (int \<times> vmst) option" where
  "dup_mmap mem dst src st =
     do { kassert (dst \<noteq> None \<and> src \<noteq> None);
          d \<leftarrow> dst;
          s \<leftarrow> src;
          dup_mmap_loop mem d s (MmapList s) st }"

partial_function (option) exit_mmap_loop :: "(nat \<Rightarrow> nat \<Rightarrow> nat \<Rightarrow> ptst \<Rightarrow> ptst option) \<Rightarrow> nat \<Rightarrow> vma_le \<Rightarrow> vmst \<Rightarrow> vmst option" where
  "exit_mmap_loop f m le0 st =
     (let le = list_next le0 (vlinks st)
      in if le \<noteq> MmapList m then do {
           pt \<leftarrow> f (pgdir (mms st m)) (vm_start (vmas st (le2vma le))) (vm_end (vmas st (le2vma le))) (ptab st);
           exit_mmap_loop f m le (st\<lparr>ptab := pt\<rparr>) }
         else Some st)"

definition exit_mmap :: "nat option \<Rightarrow> vmst \<Rightarrow> vmst option" where
  "exit_mmap mm st =
     do { m \<leftarrow> mm;
          kassert (mm_count (mms st m) = 0);
          st \<leftarrow> exit_mmap_loop unmap_range m (MmapList m) st;
          exit_mmap_loop exit_range m (MmapList m) st }"

section \<open>User memory\<close>

partial_function (option) user_mem_loop :: "nat option \<Rightarrow> bool \<Rightarrow> nat \<Rightarrow> nat \<Rightarrow> vmst \<Rightarrow> (bool \<times> vmst) option" where
  "user_mem_loop mm wr start stop st =
     (if start < stop then do {
        (vma, st) \<leftarrow> find_vma mm start st;
        case vma of
          None \<Rightarrow> Some (False, st)
        | Some v \<Rightarrow>
            (let a = vmas st v
             in if start < vm_start a then Some (False, st)
                else if vm_flags a AND (if wr then VM_WRITE else VM_READ) = 0 then Some (False, st)
                else if wr \<and> vm_flags a AND VM_STACK \<noteq> 0 \<and> start < w64 (vm_start a + PGSIZE) then Some (False, st)
                else user_mem_loop mm wr (vm_end a) stop st) }
      else Some (True, st))"

definition user_mem_check :: "nat option \<Rightarrow> nat \<Rightarrow> nat \<Rightarrow> bool \<Rightarrow> vmst \<Rightarrow> (bool \<times> vmst) option" where
  "user_mem_check mm addr len wr st =
     (if mm \<noteq> None then
        if \<not> USER_ACCESS addr (w64 (addr + len)) then Some (False, st)
        else user_mem_loop mm wr addr (w64 (addr + len)) st
      else Some (KERN_ACCESS addr (w64 (addr + len)), st))"

definition copy_from_user :: "nat option \<Rightarrow> nat \<Rightarrow> nat \<Rightarrow> nat \<Rightarrow> bool \<Rightarrow> vmst \<Rightarrow> mem \<Rightarrow> (bool \<times> vmst \<times> mem) option" where
  "copy_from_user mm dst src len wr st m =
     do { (ok, st) \<leftarrow> user_mem_check mm src len wr st;
          if \<not> ok then Some (False, st, m) else Some (True, st, snd (memcpy dst src len m)) }"

definition copy_to_user :: "nat option \<Rightarrow> nat \<Rightarrow> nat \<Rightarrow> nat \<Rightarrow> vmst \<Rightarrow> mem \<Rightarrow> (bool \<times> vmst \<times> mem) option" where
  "copy_to_user mm dst src len st m =
     do { (ok, st) \<leftarrow> user_mem_check mm dst len True st;
          if \<not> ok then Some (False, st, m) else Some (True, st, snd (memcpy dst src len m)) }"

partial_function (option) copy_string_loop :: "nat option \<Rightarrow> nat \<Rightarrow> nat \<Rightarrow> nat \<Rightarrow> nat \<Rightarrow> vmst \<Rightarrow> mem \<Rightarrow> (bool \<times> vmst \<times> mem) option" where
  "copy_string_loop mm dst src maxn part st m =
     (let part = (if maxn < part then maxn else part)
      in do {
        (ok, st) \<leftarrow> user_mem_check mm src part False st;
        if \<not> ok then Some (False, st, m)
        else do {
          let alen = strnlen m src part;
          if alen < part then Some (True, st, snd (memcpy dst src (alen + 1) m))
          else if part = maxn then Some (False, st, m)
          else copy_string_loop mm (dst + part) (src + part) (maxn - part) PGSIZE st (snd (memcpy dst src part m)) } })"

definition copy_string :: "nat option \<Rightarrow> nat \<Rightarrow> nat \<Rightarrow> nat \<Rightarrow> vmst \<Rightarrow> mem \<Rightarrow> (bool \<times> vmst \<times> mem) option" where
  "copy_string mm dst src maxn st m =
     copy_string_loop mm dst src maxn (ROUNDDOWN (w64 (src + PGSIZE)) PGSIZE - src) st m"

section \<open>Page faults\<close>

definition READ_WRITE :: nat where "READ_WRITE = 7"

definition do_pgfault :: "bool \<Rightarrow> (nat \<Rightarrow> nat \<Rightarrow> ptst \<Rightarrow> (int \<times> nat \<times> ptst) option) \<Rightarrow> (nat \<Rightarrow> nat \<Rightarrow> nat \<Rightarrow> ptst \<Rightarrow> ptst option) \<Rightarrow>
    nat option \<Rightarrow> nat \<Rightarrow> nat \<Rightarrow> vmst \<Rightarrow> (int \<times> vmst) option" where
  "do_pgfault swap_ok swap_in swap_map mm error_code addr st =
     do { (vma, st) \<leftarrow> find_vma mm addr st;
          case vma of
            None \<Rightarrow> Some (- E_INVAL, st)
          | Some v \<Rightarrow>
              if addr < vm_start (vmas st v) then Some (- E_INVAL, st)
              else do {
                m \<leftarrow> mm;
                let perm = (if vm_flags (vmas st v) AND VM_WRITE \<noteq> 0 then PTE_U OR READ_WRITE else PTE_U);
                let addr = ROUNDDOWN addr PGSIZE;
                let dir = pgdir (mms st m);
                (ptep, pt) \<leftarrow> get_pte dir addr True (ptab st);
                let st = st\<lparr>ptab := pt\<rparr>;
                case ptep of
                  None \<Rightarrow> Some (- E_NO_MEM, st)
                | Some p \<Rightarrow>
                    if get_word p (ptab st) = 0 then do {
                      (page, pt) \<leftarrow> pgdir_alloc_page dir addr perm (ptab st);
                      let st = st\<lparr>ptab := pt\<rparr>;
                      if page = None then Some (- E_NO_MEM, st) else Some (0, st) }
                    else if swap_ok then do {
                      (ret, page, pt) \<leftarrow> swap_in m addr (ptab st);
                      if ret \<noteq> 0 then Some (ret, st\<lparr>ptab := pt\<rparr>)
                      else do {
                        (r, pt) \<leftarrow> page_insert dir page addr perm pt;
                        pt \<leftarrow> swap_map m addr page pt;
                        Some (0, st\<lparr>ptab := pt\<rparr>) } }
                    else Some (- E_NO_MEM, st) } }"

section \<open>The areas of a process\<close>

definition areas_ok :: "vmst \<Rightarrow> nat list \<Rightarrow> bool" where
  "areas_ok st vs \<longleftrightarrow> sorted_wrt (\<lambda>a b. vm_end (vmas st a) \<le> vm_start (vmas st b)) vs \<and>
     (\<forall>v \<in> set vs. vm_start (vmas st v) < vm_end (vmas st v))"

definition vm_inv :: "vmst \<Rightarrow> nat \<Rightarrow> nat list \<Rightarrow> bool" where
  "vm_inv st m vs \<longleftrightarrow> ring (vlinks st) (MmapList m) (map VmaLink vs) \<and> areas_ok st vs \<and>
     (\<forall>v. mmap_cache (mms st m) = Some v \<longrightarrow> v \<in> set vs)"

definition area_at :: "vmst \<Rightarrow> nat list \<Rightarrow> nat \<Rightarrow> nat option" where
  "area_at st vs addr = List.find (\<lambda>v. in_vma st v addr) vs"

definition touch :: "nat \<Rightarrow> nat option \<Rightarrow> vmst \<Rightarrow> vmst" where
  "touch m r st = (if r \<noteq> None then upd_mm m (\<lambda>s. s\<lparr>mmap_cache := r\<rparr>) st else st)"

lemma touch_simps [simp]:
  "vlinks (touch m r st) = vlinks st" "vmas (touch m r st) = vmas st" "ptab (touch m r st) = ptab st"
  "in_vma (touch m r st) = in_vma st" "area_at (touch m r st) = area_at st" "areas_ok (touch m r st) = areas_ok st"
  "pgdir (mms (touch m r st) k) = pgdir (mms st k)" "map_count (mms (touch m r st) k) = map_count (mms st k)"
  "touch m r' (touch m r st) = touch m (if r' = None then r else r') st" "freed (touch m r st) = freed st"
  by (auto simp: touch_def upd_mm_def in_vma_def [abs_def] area_at_def [abs_def] areas_ok_def [abs_def])

lemma areas_disjoint:
  assumes "areas_ok st vs" "v \<in> set vs" "w \<in> set vs" "in_vma st v a" "in_vma st w a"
  shows "v = w"
proof (rule ccontr)
  assume "v \<noteq> w"
  with assms(2,3) obtain i j where "i < length vs" "j < length vs" "vs ! i = v" "vs ! j = w" "i \<noteq> j"
    by (metis in_set_conv_nth)
  with assms(1,4,5) show False
    unfolding areas_ok_def in_vma_def
    by (metis linorder_neqE_nat not_less order_less_le_trans order_trans sorted_wrt_nth_less)
qed

lemma area_at_Some: "area_at st vs a = Some v \<Longrightarrow> v \<in> set vs \<and> in_vma st v a"
  by (auto simp: area_at_def find_Some_iff)

lemma area_at_iff: "areas_ok st vs \<Longrightarrow> area_at st vs a = Some v \<longleftrightarrow> v \<in> set vs \<and> in_vma st v a"
proof -
  assume ok: "areas_ok st vs"
  have "area_at st vs a \<noteq> None" if "v \<in> set vs" "in_vma st v a"
    using that by (auto simp: area_at_def find_None_iff)
  with areas_disjoint [OF ok] area_at_Some show ?thesis by (metis option.exhaust)
qed

lemma find_vma_loop_find:
  "ring (vlinks st) (MmapList m) (map VmaLink (us @ ws)) \<Longrightarrow>
   find_vma_loop st a (MmapList m) (last (MmapList m # map VmaLink us)) = Some (area_at st ws a)"
proof (induction ws arbitrary: us)
  case Nil
  then have "list_next (last (MmapList m # map VmaLink us)) (vlinks st) = MmapList m"
    using ring_next_last [of "vlinks st" "MmapList m" "map VmaLink us" "[]"] by (simp add: list_next_def)
  then show ?case by (subst find_vma_loop.simps) (simp add: area_at_def)
next
  case (Cons w ws)
  have n: "list_next (last (MmapList m # map VmaLink us)) (vlinks st) = VmaLink w"
    using Cons.prems ring_next_last [of "vlinks st" "MmapList m" "map VmaLink us" "map VmaLink (w # ws)"]
    by (simp add: list_next_def)
  have "find_vma_loop st a (MmapList m) (VmaLink w) = Some (area_at st ws a)"
    using Cons.IH [of "us @ [w]"] Cons.prems by simp
  with n show ?case
    by (subst find_vma_loop.simps) (simp add: area_at_def)
qed

lemma find_vma_spec:
  assumes "vm_inv st m vs"
  shows "find_vma (Some m) a st = Some (area_at st vs a, touch m (area_at st vs a) st)"
    and "vm_inv (touch m (area_at st vs a) st) m vs"
proof -
  have l: "find_vma_loop st a (MmapList m) (MmapList m) = Some (area_at st vs a)"
    using find_vma_loop_find [of st m "[]" vs a] assms by (simp add: vm_inv_def)
  have "area_at st vs a = Some v" if "mmap_cache (mms st m) = Some v" "in_vma st v a" for v
    using assms that area_at_iff [of st vs a v] by (simp add: vm_inv_def)
  with l show "find_vma (Some m) a st = Some (area_at st vs a, touch m (area_at st vs a) st)"
    by (auto simp: find_vma_def touch_def split: option.splits)
  show "vm_inv (touch m (area_at st vs a) st) m vs"
    using assms area_at_Some [of st vs a]
    by (cases "area_at st vs a") (auto simp: vm_inv_def touch_def upd_mm_def areas_ok_def)
qed

text \<open>Inserting an area: after the areas that do not start behind it.\<close>

definition before :: "vmst \<Rightarrow> nat list \<Rightarrow> nat \<Rightarrow> nat list" where
  "before st vs v = takeWhile (\<lambda>u. vm_start (vmas st u) \<le> vm_start (vmas st v)) vs"

definition behind :: "vmst \<Rightarrow> nat list \<Rightarrow> nat \<Rightarrow> nat list" where
  "behind st vs v = dropWhile (\<lambda>u. vm_start (vmas st u) \<le> vm_start (vmas st v)) vs"

definition overlaps :: "vmst \<Rightarrow> nat \<Rightarrow> nat \<Rightarrow> bool" where
  "overlaps st u v \<longleftrightarrow> vm_start (vmas st u) < vm_end (vmas st v) \<and> vm_start (vmas st v) < vm_end (vmas st u)"

lemma insert_vma_loop_before:
  "ring (vlinks st) (MmapList m) (map VmaLink (us @ ws)) \<Longrightarrow>
   insert_vma_loop st v (MmapList m) (last (MmapList m # map VmaLink us)) =
     Some (last (MmapList m # map VmaLink (us @ before st ws v)))"
proof (induction ws arbitrary: us)
  case Nil
  then have "list_next (last (MmapList m # map VmaLink us)) (vlinks st) = MmapList m"
    using ring_next_last [of "vlinks st" "MmapList m" "map VmaLink us" "[]"] by (simp add: list_next_def)
  then show ?case by (subst insert_vma_loop.simps) (simp add: before_def)
next
  case (Cons w ws)
  have n: "list_next (last (MmapList m # map VmaLink us)) (vlinks st) = VmaLink w"
    using Cons.prems ring_next_last [of "vlinks st" "MmapList m" "map VmaLink us" "map VmaLink (w # ws)"]
    by (simp add: list_next_def)
  have "insert_vma_loop st v (MmapList m) (VmaLink w) =
      Some (last (MmapList m # map VmaLink ((us @ [w]) @ before st ws v)))"
    using Cons.IH [of "us @ [w]"] Cons.prems by simp
  with n show ?case
    by (subst insert_vma_loop.simps) (auto simp: before_def not_less)
qed


definition fits :: "vmst \<Rightarrow> nat list \<Rightarrow> nat \<Rightarrow> bool" where
  "fits st vs v \<longleftrightarrow> (let us = before st vs v; ws = behind st vs v in
     (us = [] \<or> vm_end (vmas st (last us)) \<le> vm_start (vmas st v)) \<and>
     (ws = [] \<or> vm_end (vmas st v) \<le> vm_start (vmas st (hd ws))))"

lemma before_behind: "before st vs v @ behind st vs v = vs"
  by (simp add: before_def behind_def)

lemma before_le: "u \<in> set (before st vs v) \<Longrightarrow> vm_start (vmas st u) \<le> vm_start (vmas st v)"
  by (auto simp: before_def dest: set_takeWhileD)

lemma fits_areas:
  assumes ok: "areas_ok st vs" and v: "vm_start (vmas st v) < vm_end (vmas st v)" and f: "fits st vs v"
  shows "areas_ok st (before st vs v @ v # behind st vs v)" and "\<not> (\<exists>u \<in> set vs. overlaps st u v)"
proof -
  let ?us = "before st vs v" and ?ws = "behind st vs v"
  have s: "sorted_wrt (\<lambda>a b. vm_end (vmas st a) \<le> vm_start (vmas st b)) (?us @ ?ws)"
    and p: "\<forall>v \<in> set (?us @ ?ws). vm_start (vmas st v) < vm_end (vmas st v)"
    using ok by (simp_all add: areas_ok_def before_behind del: set_append)
  have u: "vm_end (vmas st u) \<le> vm_start (vmas st v)" if "u \<in> set ?us" for u
  proof -
    from that obtain xs x where x: "?us = xs @ [x]" by (metis append_butlast_last_id empty_iff empty_set)
    then have "u = x \<or> vm_end (vmas st u) \<le> vm_start (vmas st x)" using s that by (auto simp: sorted_wrt_append)
    moreover have "vm_end (vmas st x) \<le> vm_start (vmas st v)" using f x by (simp add: fits_def Let_def)
    moreover have "vm_start (vmas st x) < vm_end (vmas st x)" using p x by simp
    ultimately show ?thesis by auto
  qed
  have w: "vm_end (vmas st v) \<le> vm_start (vmas st w)" if "w \<in> set ?ws" for w
  proof -
    from that obtain x xs where x: "?ws = x # xs" by (cases ?ws) auto
    then have "w = x \<or> vm_end (vmas st x) \<le> vm_start (vmas st w)" using s that by (auto simp: sorted_wrt_append)
    moreover have "vm_end (vmas st v) \<le> vm_start (vmas st x)" using f x by (simp add: fits_def Let_def)
    moreover have "vm_start (vmas st x) < vm_end (vmas st x)" using p x by simp
    ultimately show ?thesis by auto
  qed
  show "areas_ok st (?us @ v # ?ws)"
    using s p u w v by (auto simp: areas_ok_def sorted_wrt_append)
  have "set vs = set ?us \<union> set ?ws" by (metis before_behind set_append)
  with u w show "\<not> (\<exists>u \<in> set vs. overlaps st u v)" by (fastforce simp: overlaps_def)
qed

lemma not_fits_overlap:
  assumes ok: "areas_ok st vs" and v: "vm_start (vmas st v) < vm_end (vmas st v)" and f: "\<not> fits st vs v"
  shows "\<exists>u \<in> set vs. overlaps st u v"
proof -
  let ?us = "before st vs v" and ?ws = "behind st vs v"
  have sub: "set vs = set ?us \<union> set ?ws" by (metis before_behind set_append)
  have p: "vm_start (vmas st u) < vm_end (vmas st u)" if "u \<in> set vs" for u using ok that by (simp add: areas_ok_def)
  from f consider "?us \<noteq> []" "vm_start (vmas st v) < vm_end (vmas st (last ?us))"
    | "?ws \<noteq> []" "vm_start (vmas st (hd ?ws)) < vm_end (vmas st v)"
    by (auto simp: fits_def Let_def not_le)
  then show ?thesis
  proof cases
    case 1
    then have "last ?us \<in> set vs" "vm_start (vmas st (last ?us)) \<le> vm_start (vmas st v)"
      using sub before_le [of "last ?us" st vs v] by auto
    with 1 v show ?thesis by (intro bexI [of _ "last ?us"]) (auto simp: overlaps_def)
  next
    case 2
    then have "hd ?ws \<in> set vs" using sub by auto
    moreover have "\<not> vm_start (vmas st (hd ?ws)) \<le> vm_start (vmas st v)"
      using 2(1) hd_dropWhile unfolding behind_def by blast
    ultimately show ?thesis
      using 2(2) p [of "hd ?ws"] by (intro bexI [of _ "hd ?ws"]) (auto simp: overlaps_def)
  qed
qed

definition inserted :: "nat \<Rightarrow> nat list \<Rightarrow> nat \<Rightarrow> vmst \<Rightarrow> vmst" where
  "inserted m vs v st = upd_mm m (\<lambda>s. s\<lparr>map_count := map_count s + 1\<rparr>)
     ((upd_vma v (\<lambda>a. a\<lparr>vm_mm := m\<rparr>) st)
        \<lparr>vlinks := list_add_after (last (MmapList m # map VmaLink (before st vs v))) (VmaLink v) (vlinks st)\<rparr>)"

lemma insert_vma_spec:
  assumes inv: "vm_inv st m vs" and v: "v \<notin> set vs" "vm_start (vmas st v) < vm_end (vmas st v)"
  shows "insert_vma_struct m v st =
      (if \<exists>u \<in> set vs. overlaps st u v then None else Some (inserted m vs v st))"
    and "\<not> (\<exists>u \<in> set vs. overlaps st u v) \<Longrightarrow>
      vm_inv (inserted m vs v st) m (before st vs v @ v # behind st vs v)"
proof -
  let ?us = "before st vs v" and ?ws = "behind st vs v"
  have r: "ring (vlinks st) (MmapList m) (map VmaLink ?us @ map VmaLink ?ws)" and ok: "areas_ok st vs"
    using inv by (simp_all add: vm_inv_def before_behind flip: map_append)
  have l: "insert_vma_loop st v (MmapList m) (MmapList m) = Some (last (MmapList m # map VmaLink ?us))"
    using insert_vma_loop_before [of st m "[]" vs v] inv by (simp add: vm_inv_def)
  have n: "list_next (last (MmapList m # map VmaLink ?us)) (vlinks st) = hd (map VmaLink ?ws @ [MmapList m])"
    using ring_next_last [OF r] by (simp add: list_next_def)
  have p: "vm_start (vmas st u) < vm_end (vmas st u)" if "u \<in> set ?us \<union> set ?ws" for u
    using ok that by (metis areas_ok_def before_behind set_append)
  have c1: "(if last (MmapList m # map VmaLink ?us) \<noteq> MmapList m
        then check_vma_overlap (le2vma (last (MmapList m # map VmaLink ?us))) v st else Some ()) =
      (if ?us = [] \<or> vm_end (vmas st (last ?us)) \<le> vm_start (vmas st v) then Some () else None)"
    using v(2) p [of "last ?us"] by (simp add: check_vma_overlap_def last_map)
  have c2: "(if hd (map VmaLink ?ws @ [MmapList m]) \<noteq> MmapList m
        then check_vma_overlap v (le2vma (hd (map VmaLink ?ws @ [MmapList m]))) st else Some ()) =
      (if ?ws = [] \<or> vm_end (vmas st v) \<le> vm_start (vmas st (hd ?ws)) then Some () else None)"
    using v(2) p [of "hd ?ws"] by (cases ?ws) (simp_all add: check_vma_overlap_def)
  have i: "insert_vma_struct m v st = (if fits st vs v then Some (inserted m vs v st) else None)"
    by (simp only: insert_vma_struct_def Let_def l n c1 c2 bind.simps fits_def)
      (simp add: v(2) inserted_def fits_def Let_def upd_vma_def)
  have eq: "fits st vs v \<longleftrightarrow> \<not> (\<exists>u \<in> set vs. overlaps st u v)"
    using fits_areas(2) [OF ok v(2)] not_fits_overlap [OF ok v(2)] by blast
  with i show "insert_vma_struct m v st =
      (if \<exists>u \<in> set vs. overlaps st u v then None else Some (inserted m vs v st))" by simp
  assume "\<not> (\<exists>u \<in> set vs. overlaps st u v)"
  with eq have f: "fits st vs v" by simp
  have st: "vmas (inserted m vs v st) = (vmas st)(v := (vmas st v)\<lparr>vm_mm := m\<rparr>)"
    "mmap_cache (mms (inserted m vs v st) m) = mmap_cache (mms st m)"
    "vlinks (inserted m vs v st) = list_add_after (last (MmapList m # map VmaLink ?us)) (VmaLink v) (vlinks st)"
    by (simp_all add: inserted_def upd_mm_def upd_vma_def)
  have "v \<notin> set ?us" "v \<notin> set ?ws" using v(1) by (metis Un_iff before_behind set_append)+
  then have "ring (vlinks (inserted m vs v st)) (MmapList m) (map VmaLink (?us @ v # ?ws))"
    unfolding st(3) using ring_add_after [OF r refl, of "VmaLink v"] by (auto simp: image_iff)
  moreover have "areas_ok (inserted m vs v st) (?us @ v # ?ws)"
    using fits_areas(1) [OF ok v(2) f] unfolding areas_ok_def st(1)
    by (auto elim!: sorted_wrt_mono_rel [rotated])
  moreover have "set (?us @ v # ?ws) = insert v (set vs)" by (metis before_behind Un_insert_right list.simps(15) set_append)
  ultimately show "vm_inv (inserted m vs v st) m (?us @ v # ?ws)"
    using inv by (simp add: vm_inv_def st(2) del: set_append map_append)
qed


section \<open>Checking user memory\<close>

definition access_ok :: "vmst \<Rightarrow> nat list \<Rightarrow> bool \<Rightarrow> nat \<Rightarrow> nat \<Rightarrow> bool" where
  "access_ok st vs wr addr x \<longleftrightarrow> (\<exists>v \<in> set vs. in_vma st v x \<and>
     vm_flags (vmas st v) AND (if wr then VM_WRITE else VM_READ) \<noteq> 0 \<and>
     (wr \<and> vm_flags (vmas st v) AND VM_STACK \<noteq> 0 \<longrightarrow>
       w64 (vm_start (vmas st v) + PGSIZE) \<le> max addr (vm_start (vmas st v))))"

lemma access_ok_touch [simp]: "access_ok (touch m r st) = access_ok st"
  by (intro ext) (simp add: access_ok_def)

lemma user_mem_loop_spec:
  "vm_inv st m vs \<Longrightarrow> \<exists>r. user_mem_loop (Some m) wr start stop st =
     Some (\<forall>x. start \<le> x \<and> x < stop \<longrightarrow> access_ok st vs wr start x, touch m r st) \<and> vm_inv (touch m r st) m vs"
proof (induction "stop - start" arbitrary: start st rule: less_induct)
  case less
  note inv = less.prems
  show ?case
  proof (cases "start < stop")
    case False
    then show ?thesis using inv by (subst user_mem_loop.simps) (auto simp: touch_def intro!: exI [of _ None])
  next
    case True
    let ?r = "area_at st vs start" and ?st = "touch m (area_at st vs start) st"
    note f = find_vma_spec [OF inv, of start]
    have ok: "areas_ok st vs" using inv by (simp add: vm_inv_def)
    show ?thesis
    proof (cases ?r)
      case None
      then have "\<not> access_ok st vs wr start start"
        by (auto simp: access_ok_def area_at_def find_None_iff)
      with True None f show ?thesis
        by (subst user_mem_loop.simps) (auto simp: touch_def intro!: exI [of _ None])
    next
      case (Some v)
      then have v: "v \<in> set vs" "in_vma st v start" by (simp_all add: area_at_Some)
      let ?a = "vmas st v"
      have only: "u = v" if "u \<in> set vs" "in_vma st u x" "start \<le> x" "x < vm_end ?a" for u x
      proof -
        have "in_vma st v x" using that v by (auto simp: in_vma_def)
        with areas_disjoint [OF ok that(1) v(1) that(2)] show ?thesis .
      qed
      let ?good = "vm_flags ?a AND (if wr then VM_WRITE else VM_READ) \<noteq> 0 \<and>
        \<not> (wr \<and> vm_flags ?a AND VM_STACK \<noteq> 0 \<and> start < w64 (vm_start ?a + PGSIZE))"
      have mx: "max start (vm_start ?a) = start" using v(2) by (simp add: in_vma_def)
      have g: "access_ok st vs wr start x \<longleftrightarrow> ?good" if "start \<le> x" "x < vm_end ?a" for x
      proof -
        have vx: "in_vma st v x" using that v by (simp add: in_vma_def)
        show ?thesis
        proof
          assume "access_ok st vs wr start x"
          then obtain u where u: "u \<in> set vs" "in_vma st u x"
            "vm_flags (vmas st u) AND (if wr then VM_WRITE else VM_READ) \<noteq> 0"
            "wr \<and> vm_flags (vmas st u) AND VM_STACK \<noteq> 0 \<longrightarrow>
              w64 (vm_start (vmas st u) + PGSIZE) \<le> max start (vm_start (vmas st u))"
            unfolding access_ok_def by blast
          with only [OF u(1,2) that] mx show ?good by (auto simp: not_less)
        next
          assume ?good
          with v(1) vx mx show "access_ok st vs wr start x"
            unfolding access_ok_def by (intro bexI [of _ v]) (auto simp: not_less)
        qed
      qed
      have loop: "user_mem_loop (Some m) wr start stop st =
          (if ?good then user_mem_loop (Some m) wr (vm_end ?a) stop ?st else Some (False, ?st))"
        using True f(1) Some v(2)
        by (subst user_mem_loop.simps) (simp add: Let_def in_vma_def)
      show ?thesis
      proof (cases ?good)
        case False
        with g [of start] v(2) have "\<not> access_ok st vs wr start start" by (simp add: in_vma_def)
        then have n: "(\<forall>x. start \<le> x \<and> x < stop \<longrightarrow> access_ok st vs wr start x) = False" using True by blast
        have "user_mem_loop (Some m) wr start stop st = Some (False, ?st)" by (simp only: loop False if_False)
        then show ?thesis unfolding n using f(2) by blast
      next
        case good: True
        have "stop - vm_end ?a < stop - start" using True v(2) by (auto simp: in_vma_def)
        from less.hyps [OF this f(2)] obtain r where
          r: "user_mem_loop (Some m) wr (vm_end ?a) stop ?st =
            Some (\<forall>x. vm_end ?a \<le> x \<and> x < stop \<longrightarrow> access_ok st vs wr (vm_end ?a) x, touch m r ?st)"
            "vm_inv (touch m r ?st) m vs" by auto
        have shift: "access_ok st vs wr (vm_end ?a) x \<longleftrightarrow> access_ok st vs wr start x" if "vm_end ?a \<le> x" for x
        proof -
          have "vm_end ?a \<le> vm_start (vmas st u)" if "u \<in> set vs" "in_vma st u x" for u
          proof (rule ccontr)
            assume a: "\<not> vm_end ?a \<le> vm_start (vmas st u)"
            have "in_vma st u (max (vm_start (vmas st u)) start) \<and> in_vma st v (max (vm_start (vmas st u)) start)"
              using a that \<open>vm_end ?a \<le> x\<close> v(2) by (auto simp: in_vma_def)
            with areas_disjoint [OF ok that(1) v(1)] have "u = v" by blast
            with that \<open>vm_end ?a \<le> x\<close> show False by (simp add: in_vma_def)
          qed
          then have "max (vm_end ?a) (vm_start (vmas st u)) = max start (vm_start (vmas st u))"
            if "u \<in> set vs" "in_vma st u x" for u
            using that v(2) by (fastforce simp: in_vma_def)
          then show ?thesis unfolding access_ok_def by (intro bex_cong refl conj_cong) simp_all
        qed
        have "access_ok st vs wr start x" if "start \<le> x" "x < vm_end ?a" for x
          using g [OF that] good by (rule iffD2)
        then have "(\<forall>x. vm_end ?a \<le> x \<and> x < stop \<longrightarrow> access_ok st vs wr (vm_end ?a) x) \<longleftrightarrow>
            (\<forall>x. start \<le> x \<and> x < stop \<longrightarrow> access_ok st vs wr start x)"
          using shift v(2) unfolding in_vma_def by (metis less_imp_le linorder_not_le order.trans)
        moreover have "user_mem_loop (Some m) wr start stop st = user_mem_loop (Some m) wr (vm_end ?a) stop ?st"
          unfolding loop by (rule if_P [OF good])
        ultimately show ?thesis
          using r by (intro exI [of _ "if r = None then ?r else r"]) (simp del: not_None_eq)
      qed
    qed
  qed
qed

section \<open>Mapping and destroying\<close>

definition made :: "nat \<Rightarrow> nat \<Rightarrow> nat \<Rightarrow> nat \<Rightarrow> vmst \<Rightarrow> vmst" where
  "made v start stop vflags st = upd_vma v (\<lambda>a. a\<lparr>vm_start := start, vm_end := stop, vm_flags := vflags\<rparr>) st"

lemma made_simps:
  "vm_start (vmas (made v a b f st) v) = a" "vm_end (vmas (made v a b f st) v) = b" "vm_flags (vmas (made v a b f st) v) = f"
  "u \<noteq> v \<Longrightarrow> vmas (made v a b f st) u = vmas st u"
  by (simp_all add: made_def upd_vma_def)

lemma areas_ok_cong:
  "(\<And>u. u \<in> set vs \<Longrightarrow> vmas st' u = vmas st u) \<Longrightarrow> areas_ok st' vs \<longleftrightarrow> areas_ok st vs"
  unfolding areas_ok_def by (induction vs) auto

lemma made_inv:
  assumes "vm_inv st m vs" "v \<notin> set vs"
  shows "vm_inv (made v a b f st) m vs"
proof -
  have "vmas (made v a b f st) u = vmas st u" if "u \<in> set vs" for u using that assms(2) made_simps(4) by metis
  then have "areas_ok (made v a b f st) vs \<longleftrightarrow> areas_ok st vs" by (rule areas_ok_cong)
  with assms show ?thesis by (simp add: vm_inv_def made_def upd_vma_def)
qed

definition clash :: "vmst \<Rightarrow> nat list \<Rightarrow> nat \<Rightarrow> nat \<Rightarrow> bool" where
  "clash st vs start stop \<longleftrightarrow> (\<exists>u \<in> set vs. vm_start (vmas st u) < stop \<and> start < vm_end (vmas st u))"

lemma mm_map_spec:
  fixes addr len :: nat
  assumes inv: "vm_inv st m vs" and fresh: "\<forall>v. mem = Some v \<longrightarrow> v \<notin> set vs"
  defines "start \<equiv> ROUNDDOWN addr PGSIZE" and "stop \<equiv> ROUNDUP (w64 (addr + len)) PGSIZE"
  shows "mm_map mem (Some m) addr len vflags st =
    (if \<not> USER_ACCESS start stop then Some (- E_INVAL, None, st)
     else case area_at st vs start of
         Some u \<Rightarrow> Some (- E_INVAL, None, touch m (Some u) st)
       | None \<Rightarrow> (case mem of
           None \<Rightarrow> Some (- E_NO_MEM, None, st)
         | Some v \<Rightarrow> if clash st vs start stop then None
             else Some (0, Some v, inserted m vs v (made v start stop vflags st))))"
proof (cases "USER_ACCESS start stop \<and> area_at st vs start = None \<and> mem \<noteq> None")
  case False
  note f = find_vma_spec(1) [OF inv, of start]
  show ?thesis
  proof (cases "area_at st vs start")
    case None
    with False f show ?thesis
      by (auto simp: mm_map_def Let_def vma_create_def touch_def start_def [symmetric] stop_def [symmetric, simplified])
  next
    case (Some u)
    then have "vm_start (vmas st u) \<le> start" by (auto dest!: area_at_Some simp: in_vma_def)
    moreover have "start < stop" if "USER_ACCESS start stop" using that by (simp add: USER_ACCESS_def)
    ultimately show ?thesis using f Some
      by (auto simp: mm_map_def Let_def start_def [symmetric] stop_def [symmetric, simplified])
  qed
next
  case True
  then obtain v where v: "mem = Some v" "v \<notin> set vs" using fresh by auto
  have lt: "start < stop" using True by (simp add: USER_ACCESS_def)
  let ?st = "made v start stop vflags st"
  have t: "touch m None st = st" by (simp add: touch_def)
  have "vm_start (vmas ?st v) < vm_end (vmas ?st v)" using lt by (simp add: made_simps)
  note i = insert_vma_spec(1) [OF made_inv [OF inv v(2)] v(2) this]
  have "(\<exists>u \<in> set vs. overlaps ?st u v) \<longleftrightarrow> clash st vs start stop"
    using v(2) by (auto simp: overlaps_def clash_def made_simps) (metis made_simps(4))+
  with i True v find_vma_spec(1) [OF inv, of start] t show ?thesis
    by (simp add: mm_map_def Let_def vma_create_def made_def [symmetric] start_def [symmetric] stop_def [symmetric, simplified])
qed

lemma mm_destroy_loop_spec:
  "ring (vlinks st) (MmapList m) (map VmaLink vs) \<Longrightarrow>
   \<exists>l. mm_destroy_loop m st = Some (st\<lparr>freed := freed st @ map VmaLink vs, vlinks := l\<rparr>) \<and> ring l (MmapList m) []"
proof (induction vs arbitrary: st)
  case Nil
  then have "list_next (MmapList m) (vlinks st) = MmapList m" by (simp add: list_next_def ring_next)
  with Nil show ?case by (subst mm_destroy_loop.simps) (intro exI [of _ "vlinks st"], simp)
next
  case (Cons v vs)
  then have n: "list_next (MmapList m) (vlinks st) = VmaLink v" by (simp add: list_next_def ring_next)
  let ?st = "note_kfree (VmaLink v) (st\<lparr>vlinks := list_del (VmaLink v) (vlinks st)\<rparr>)"
  have "ring (vlinks ?st) (MmapList m) (map VmaLink vs)"
    using ring_del [of "vlinks st" "MmapList m" "[]"] Cons.prems by (simp add: note_kfree_def)
  from Cons.IH [OF this] show ?case
    by (subst mm_destroy_loop.simps) (simp add: n Let_def note_kfree_def)
qed


section \<open>Page faults\<close>

lemma alloc_page_inv:
  assumes "pt_inv st d bs"
  shows "bs = [] \<and> alloc_page st = Some (None, st) \<or>
    (\<exists>p m bs'. alloc_page st = Some (Some p, st\<lparr>phys := m\<rparr>) \<and> pt_inv (st\<lparr>phys := m\<rparr>) d bs' \<and>
      p \<in> free_set bs \<and> p \<notin> free_set bs' \<and> p + nbase < npages st \<and> free_set bs = insert p (free_set bs'))"
proof -
  have "pt_inv (st\<lparr>phys := m\<rparr>) d bs'" if "pmm_inv m bs'" "free_set bs = insert p (free_set bs')" for p m bs'
  proof -
    have "nodes (st\<lparr>phys := m\<rparr>) d = nodes st d" by (rule pmem_cong) simp
    then have "tree (st\<lparr>phys := m\<rparr>) d = tree st d" "tables (st\<lparr>phys := m\<rparr>) d = tables st d"
      by (simp_all add: tree_def tables_def)
    with assms that show ?thesis by (auto simp: pt_inv_def)
  qed
  with alloc_page_cases [of st bs] assms show ?thesis unfolding pt_inv_def [of st] by blast
qed

definition fault_perm :: "nat \<Rightarrow> nat" where
  "fault_perm vflags = (if vflags AND VM_WRITE \<noteq> 0 then PTE_U OR READ_WRITE else PTE_U)"

lemma fault_perm_small: "fault_perm f < 2 ^ 10"
  by (auto simp: fault_perm_def PTE_U_def READ_WRITE_def intro!: or_less_exp)

lemma pgdir_alloc_spec:
  assumes inv: "pt_inv st d bs" and la: "la < 2 ^ 39" and perm: "perm < 2 ^ 10"
    and leaf: "has_leaf st d (vpn la)" and z: "entry st d (vpn la) = 0"
  shows "\<exists>r st' bs'. pgdir_alloc_page d la perm st = Some (r, st') \<and> pt_inv st' d bs' \<and>
    (case r of None \<Rightarrow> bs = [] \<and> st' = st
     | Some page \<Rightarrow> page \<in> free_set bs \<and> (\<forall>k < 2 ^ 27. entry st' d k =
         (if k = vpn la then pte_create (page2ppn page) perm else entry st d k)))"
  using alloc_page_inv [OF inv]
proof (elim disjE)
  assume "bs = [] \<and> alloc_page st = Some (None, st)"
  with inv show ?thesis by (intro exI [of _ None] exI [of _ st] exI [of _ bs]) (simp add: pgdir_alloc_page_def)
next
  assume "\<exists>p m bs'. alloc_page st = Some (Some p, st\<lparr>phys := m\<rparr>) \<and> pt_inv (st\<lparr>phys := m\<rparr>) d bs' \<and>
      p \<in> free_set bs \<and> p \<notin> free_set bs' \<and> p + nbase < npages st \<and> free_set bs = insert p (free_set bs')"
  then obtain p m bs' where a: "alloc_page st = Some (Some p, st\<lparr>phys := m\<rparr>)" "pt_inv (st\<lparr>phys := m\<rparr>) d bs'"
    "p \<in> free_set bs" "p \<notin> free_set bs'" "p + nbase < npages st" by (elim exE conjE) (rule that)
  let ?st = "st\<lparr>phys := m\<rparr>"
  have e: "entry ?st d = entry st d" by (rule pmem_cong) simp
  have l: "has_leaf ?st d (vpn la)" using leaf by (simp add: has_leaf_def)
  have o: "old_ok ?st (entry ?st d (vpn la)) p" and pg: "p + nbase < npages ?st"
    and oldf: "\<forall>q. pte2page ?st (entry ?st d (vpn la)) = Some q \<longrightarrow> q \<notin> free_set bs'"
    using a(5) by (simp_all add: e z pte2page_def old_ok_def)
  obtain r st' bs'' where i: "page_insert d p la perm ?st = Some (r, st')" "pt_inv st' d bs''"
    "has_leaf ?st d (vpn la) \<longrightarrow> r = 0"
    "if r = 0 then (\<forall>k < 2 ^ 27. entry st' d k = (if k = vpn la then pte_create (page2ppn p) perm else entry ?st d k)) \<and>
       (\<forall>q. q \<notin> free_set bs' \<longrightarrow> page_ref q st' = new_ref ?st (entry ?st d (vpn la)) p q) \<and>
       (\<exists>w. get_page d la st' = Some (Some p, w, st'))
     else r = - E_NO_MEM \<and> card (free_set bs') \<le> 1 \<and> entry st' d = entry ?st d"
    using page_insert_spec [OF a(2) la pg a(4) perm o oldf] by (elim exE conjE) (rule that)
  then have "r = 0" using l by simp
  with i a e show ?thesis
    by (intro exI [of _ "Some p"] exI [of _ st'] exI [of _ bs'']) (simp add: pgdir_alloc_page_def)
qed

lemma page_fault_spec:
  assumes inv: "vm_inv st m vs" and pt: "pt_inv (ptab st) (pgdir (mms st m)) bs" and a: "addr < 2 ^ 39"
    and v: "area_at st vs addr = Some v" and z: "entry (ptab st) (pgdir (mms st m)) (vpn addr) = 0"
  shows "\<exists>r st' bs'. do_pgfault sw si sm (Some m) err addr st = Some (r, st') \<and> vm_inv st' m vs \<and>
    pt_inv (ptab st') (pgdir (mms st m)) bs' \<and>
    (if r = 0 then (\<exists>page \<in> free_set bs. \<forall>k < 2 ^ 27. entry (ptab st') (pgdir (mms st m)) k =
        (if k = vpn addr then pte_create (page2ppn page) (fault_perm (vm_flags (vmas st v)))
         else entry (ptab st) (pgdir (mms st m)) k))
     else r = - E_NO_MEM \<and> card (free_set bs) \<le> 2 \<and>
       entry (ptab st') (pgdir (mms st m)) = entry (ptab st) (pgdir (mms st m)))"
proof -
  let ?d = "pgdir (mms st m)" and ?la = "ROUNDDOWN addr PGSIZE" and ?perm = "fault_perm (vm_flags (vmas st v))"
  let ?st = "touch m (Some v) st"
  have la: "?la < 2 ^ 39" "vpn ?la = vpn addr"
    using a ROUNDDOWN_le [of addr PGSIZE] by (simp_all add: ROUNDDOWN_mult)
  have f: "find_vma (Some m) addr st = Some (Some v, ?st)" "vm_inv ?st m vs"
    using find_vma_spec [OF inv, of addr] v by simp_all
  have s: "vm_start (vmas st v) \<le> addr" using area_at_Some [OF v] by (simp add: in_vma_def)
  obtain r1 t1 bs1 where g: "get_pte ?d ?la True (ptab st) = Some (r1, t1)" "pt_inv t1 ?d bs1"
    "entry t1 ?d = entry (ptab st) ?d" "keeps ?d (ptab st) bs t1 bs1"
    "card (free_set bs) \<le> card (free_set bs1) + 2"
    "case r1 of None \<Rightarrow> entry (ptab st) ?d (vpn ?la) = 0 \<and> (True \<longrightarrow> card (free_set bs) \<le> 1)
      | Some p \<Rightarrow> slot_of t1 ?d (vpn ?la) p"
    using get_pte_spec [OF pt la(1), of True] by (elim exE conjE) (rule that)
  have vi: "vm_inv (?st\<lparr>ptab := t\<rparr>) m vs" for t using f(2) by (simp add: vm_inv_def areas_ok_def)
  show ?thesis
  proof (cases r1)
    case None
    then have "do_pgfault sw si sm (Some m) err addr st = Some (- E_NO_MEM, ?st\<lparr>ptab := t1\<rparr>)"
      using f(1) g(1) s by (simp add: do_pgfault_def Let_def)
    with None g vi show ?thesis by (intro exI [of _ "- E_NO_MEM"] exI [of _ "?st\<lparr>ptab := t1\<rparr>"] exI [of _ bs1]) simp
  next
    case (Some p)
    then have sl: "has_leaf t1 ?d (vpn ?la)" "get_word p t1 = 0"
      using g(3,6) z la(2) by (simp_all add: slot_of_def)
    have z1: "entry t1 ?d (vpn ?la) = 0" using g(3) z la(2) by simp
    from pgdir_alloc_spec [OF g(2) la(1) fault_perm_small sl(1) z1, of "vm_flags (vmas st v)"]
    obtain r2 t2 bs2 where
      p: "pgdir_alloc_page ?d ?la ?perm t1 = Some (r2, t2)" "pt_inv t2 ?d bs2"
      "case r2 of None \<Rightarrow> bs1 = [] \<and> t2 = t1
       | Some page \<Rightarrow> page \<in> free_set bs1 \<and> (\<forall>k < 2 ^ 27. entry t2 ?d k =
           (if k = vpn ?la then pte_create (page2ppn page) ?perm else entry t1 ?d k))" by blast
    have d: "do_pgfault sw si sm (Some m) err addr st = Some (if r2 = None then - E_NO_MEM else 0, ?st\<lparr>ptab := t2\<rparr>)"
      using f(1) g(1) s Some sl(2) p(1)
      by (simp add: do_pgfault_def Let_def fault_perm_def)
    show ?thesis
    proof (cases r2)
      case None
      with d p vi g(3,5) show ?thesis
        by (intro exI [of _ "- E_NO_MEM"] exI [of _ "?st\<lparr>ptab := t2\<rparr>"] exI [of _ bs2]) simp
    next
      case (Some page)
      then have "page \<in> free_set bs" using p(3) g(4) by (auto simp: keeps_def)
      with Some d p vi g(3) la(2) show ?thesis
        by (intro exI [of _ 0] exI [of _ "?st\<lparr>ptab := t2\<rparr>"] exI [of _ bs2]) auto
    qed
  qed
qed

section \<open>Properties\<close>

text \<open>C23: \<^verbatim>\<open>mm_map\<close> rounds the range to pages. It refuses a range outside user
  space, and one whose first page lies in an area, with \<^verbatim>\<open>-E_INVAL\<close>; it returns
  \<^verbatim>\<open>-E_NO_MEM\<close> without memory for the descriptor; it does not return when the range
  reaches an area from below; otherwise the area is entered in address order and the
  areas are sorted and disjoint as before.\<close>
theorem mm_map_outcomes:
  fixes addr len :: nat
  assumes "vm_inv st m vs" "\<forall>v. mem = Some v \<longrightarrow> v \<notin> set vs"
  shows "mm_map mem (Some m) addr len vflags st =
    (let start = ROUNDDOWN addr PGSIZE; stop = ROUNDUP (w64 (addr + len)) PGSIZE
     in if \<not> USER_ACCESS start stop then Some (- E_INVAL, None, st)
        else case area_at st vs start of
            Some u \<Rightarrow> Some (- E_INVAL, None, touch m (Some u) st)
          | None \<Rightarrow> (case mem of
              None \<Rightarrow> Some (- E_NO_MEM, None, st)
            | Some v \<Rightarrow> if clash st vs start stop then None
                else Some (0, Some v, inserted m vs v (made v start stop vflags st)))) \<and>
    (\<forall>v start stop. mem = Some v \<and> start < stop \<and> \<not> clash st vs start stop \<longrightarrow>
      vm_inv (inserted m vs v (made v start stop vflags st)) m
        (before (made v start stop vflags st) vs v @ v # behind (made v start stop vflags st) vs v))"
proof -
  have "vm_inv (inserted m vs v (made v start stop vflags st)) m
        (before (made v start stop vflags st) vs v @ v # behind (made v start stop vflags st) vs v)"
    if v: "mem = Some v" and lt: "start < stop" and c: "\<not> clash st vs start stop" for v start stop
  proof -
    have n: "v \<notin> set vs" using assms(2) v by blast
    have "\<not> (\<exists>u \<in> set vs. overlaps (made v start stop vflags st) u v)"
      using c n by (auto simp: overlaps_def clash_def made_simps) (metis made_simps(4))
    then show ?thesis
      using lt by (intro insert_vma_spec(2) made_inv assms(1) n) (simp_all add: made_simps)
  qed
  then show ?thesis
    unfolding Let_def by (intro conjI) (rule mm_map_spec [OF assms], blast)
qed

text \<open>C22: \<^verbatim>\<open>user_mem_check\<close> accepts a range exactly when it lies in user space and
  every byte of it is in an area that grants the access; a write into a stack area must not
  begin in its lowest page. Only the cache of the last area found changes.\<close>
theorem user_mem_check_exact:
  assumes "vm_inv st m vs"
  shows "\<exists>r. user_mem_check (Some m) addr len wr st =
    Some (USER_ACCESS addr (w64 (addr + len)) \<and>
      (\<forall>x. addr \<le> x \<and> x < w64 (addr + len) \<longrightarrow> access_ok st vs wr addr x), touch m r st) \<and>
    vm_inv (touch m r st) m vs"
proof (cases "USER_ACCESS addr (w64 (addr + len))")
  case True
  with user_mem_loop_spec [OF assms, of wr addr "w64 (addr + len)"] show ?thesis
    by (simp add: user_mem_check_def del: mod_less)
next
  case False
  with assms show ?thesis by (intro exI [of _ None]) (simp add: user_mem_check_def touch_def)
qed


definition one_area :: vmst where
  "one_area = \<lparr>vlinks = \<lparr>prv = id(MmapList 0 := VmaLink 1, VmaLink 1 := MmapList 0),
       nxt = id(MmapList 0 := VmaLink 1, VmaLink 1 := MmapList 0)\<rparr>,
     vmas = (\<lambda>_. \<lparr>vm_mm = 0, vm_start = 0x400000, vm_end = 0x600000, vm_flags = 3\<rparr>),
     mms = (\<lambda>_. \<lparr>mmap_cache = None, pgdir = nbase, map_count = 1, mm_priv = None, mm_count = 1, mm_sem = 1\<rparr>),
     freed = [], ptab = boot_memory\<rparr>"

lemma one_area_inv: "vm_inv one_area 0 [1]"
  by (simp add: vm_inv_def ring_def areas_ok_def one_area_def)

lemma one_area_at: "area_at one_area [1] a = (if 0x400000 \<le> a \<and> a < 0x600000 then Some 1 else None)"
  by (simp add: area_at_def in_vma_def one_area_def)

theorem mm_map_outcomes_witness:
  "mm_map (Some 2) (Some 0) 0x3ff000 0x2000 3 one_area = None \<and>
   mm_map (Some 2) (Some 0) 0x400123 1 3 one_area = Some (- E_INVAL, None, touch 0 (Some 1) one_area) \<and>
   (\<exists>st'. mm_map (Some 2) (Some 0) 0x600000 1 3 one_area = Some (0, Some 2, st'))"
proof -
  note t = mm_map_outcomes [OF one_area_inv, of "Some 2", THEN conjunct1]
  have c: "clash one_area [1] a b \<longleftrightarrow> 0x400000 < b \<and> a < 0x600000" for a b
    by (simp add: clash_def one_area_def)
  show ?thesis
    by (simp add: t one_area_at c USER_ACCESS_def ROUNDDOWN_def ROUNDUP_def del: One_nat_def)
qed

theorem user_mem_check_exact_witness:
  "(\<exists>st'. user_mem_check (Some 0) 0x400000 0x1000 True one_area = Some (True, st')) \<and>
   (\<exists>st'. user_mem_check (Some 0) 0x5ff000 0x1001 True one_area = Some (False, st'))"
proof -
  have a: "access_ok one_area [1] True b x \<longleftrightarrow> 0x400000 \<le> x \<and> x < 0x600000" for b x
    by (simp add: access_ok_def in_vma_def one_area_def VM_WRITE_def VM_STACK_def)
  show ?thesis
    using user_mem_check_exact [OF one_area_inv, of "0x400000" "0x1000" True]
      user_mem_check_exact [OF one_area_inv, of "0x5ff000" "0x1001" True]
    by (auto simp: a USER_ACCESS_def simp del: One_nat_def intro!: exI [of _ "0x600000"])
qed


end
