(* ===== verification/Process.thy ===== *)
theory Process
  imports Sched HashRand
begin

text \<open>
  kern/process/proc.c: the process table. It holds the list of all processes, the hash
  table by pid, the family pointers (parent, youngest child, younger and older sibling),
  the pid generator with its two static variables, and fork, exit, wait, kill, sleep on
  top of the scheduler of \<^verbatim>\<open>Sched\<close>. What other components hand out (the
  descriptor from \<^verbatim>\<open>kmalloc\<close>, the kernel stack, a new memory map and a new file
  table) is an argument, what is given back to them is recorded in \<^verbatim>\<open>released\<close>.
  The machine context and the trap frame are not modelled. A call that gives the processor
  away is cut at \<^verbatim>\<open>schedule\<close>: the part after it is a definition of its own.
\<close>

section \<open>The state\<close>

definition MAX_PROCESS :: int where
  "MAX_PROCESS = 4096"

definition MAX_PID :: int where
  "MAX_PID = MAX_PROCESS * 2"

definition pid_hashfn :: "int \<Rightarrow> nat" where
  "pid_hashfn x = unat (hash32 (of_int x) 10)"

datatype proc_le = ProcList | ProcLink nat

fun le2proc :: "proc_le \<Rightarrow> nat" where
  "le2proc (ProcLink p) = p"

datatype hash_le = HashHead nat | HashLink nat

fun le2hproc :: "hash_le \<Rightarrow> nat" where
  "le2hproc (HashLink p) = p"

text \<open>The fields of a descriptor that name what it owns in other components.\<close>

record proc_res =
  kstack :: nat
  pmm :: "nat option"
  filesp :: "nat option"

datatype release = StackFreed nat | MmapExited nat | PgdirFreed nat | MmDestroyed nat | FilesDestroyed nat | ProcFreed nat

record ptable =
  sd :: sched
  res :: "nat \<Rightarrow> proc_res"
  proc_list :: "proc_le links"
  hash_list :: "hash_le links"
  initproc :: nat
  nr_process :: int
  next_safe :: int
  last_pid :: int
  mm_refs :: "nat \<Rightarrow> int"
  file_refs :: "nat \<Rightarrow> int"
  released :: "release list"

abbreviation pcb :: "ptable \<Rightarrow> nat \<Rightarrow> proc_struct" where
  "pcb st p \<equiv> procs (sd st) p"

definition on_sd :: "(sched \<Rightarrow> sched) \<Rightarrow> ptable \<Rightarrow> ptable" where
  "on_sd f st = st\<lparr>sd := f (sd st)\<rparr>"

definition upd_pcb :: "nat \<Rightarrow> (proc_struct \<Rightarrow> proc_struct) \<Rightarrow> ptable \<Rightarrow> ptable" where
  "upd_pcb p f st = on_sd (upd_proc p f) st"

definition upd_res :: "nat \<Rightarrow> (proc_res \<Rightarrow> proc_res) \<Rightarrow> ptable \<Rightarrow> ptable" where
  "upd_res p f st = st\<lparr>res := (res st)(p := f (res st p))\<rparr>"

definition release :: "release \<Rightarrow> ptable \<Rightarrow> ptable" where
  "release r st = st\<lparr>released := released st @ [r]\<rparr>"

definition on_sched :: "(sched \<Rightarrow> sched option) \<Rightarrow> ptable \<Rightarrow> ptable option" where
  "on_sched f st = do { s \<leftarrow> f (sd st); Some (st\<lparr>sd := s\<rparr>) }"

section \<open>Descriptors, links and pids\<close>

definition alloc_proc :: "nat option \<Rightarrow> ptable \<Rightarrow> nat option \<times> ptable" where
  "alloc_proc proc st =
     (case proc of
        None \<Rightarrow> (None, st)
      | Some p \<Rightarrow>
         (let st = upd_pcb p (\<lambda>q. q\<lparr>pstate := PROC_UNINIT\<rparr>) st;
              st = upd_pcb p (\<lambda>q. q\<lparr>pid := - 1\<rparr>) st;
              st = upd_pcb p (\<lambda>q. q\<lparr>runs := 0\<rparr>) st;
              st = upd_res p (\<lambda>r. r\<lparr>kstack := 0\<rparr>) st;
              st = upd_pcb p (\<lambda>q. q\<lparr>need_resched := False\<rparr>) st;
              st = upd_pcb p (\<lambda>q. q\<lparr>pparent := None\<rparr>) st;
              st = upd_res p (\<lambda>r. r\<lparr>pmm := None\<rparr>) st;
              st = upd_pcb p (\<lambda>q. q\<lparr>pflags := 0\<rparr>) st;
              st = upd_pcb p (\<lambda>q. q\<lparr>wait_state := 0\<rparr>) st;
              st = upd_pcb p (\<lambda>q. q\<lparr>cptr := None, optr := None, yptr := None\<rparr>) st;
              st = upd_pcb p (\<lambda>q. q\<lparr>on_rq := False\<rparr>) st;
              st = on_sd (\<lambda>s. s\<lparr>run_list := list_init (Some p) (run_list s)\<rparr>) st;
              st = upd_pcb p (\<lambda>q. q\<lparr>time_slice := 0\<rparr>) st;
              st = on_sd (\<lambda>s. s\<lparr>heap := skew_heap_init p (heap s)\<rparr>) st;
              st = upd_pcb p (\<lambda>q. q\<lparr>lab6_stride := 0\<rparr>) st;
              st = upd_pcb p (\<lambda>q. q\<lparr>lab6_priority := 0\<rparr>) st;
              st = upd_res p (\<lambda>r. r\<lparr>filesp := None\<rparr>) st
          in (Some p, st)))"

definition set_links :: "nat \<Rightarrow> ptable \<Rightarrow> ptable option" where
  "set_links p st =
     do { let st = st\<lparr>proc_list := list_add ProcList (ProcLink p) (proc_list st)\<rparr>;
          let st = upd_pcb p (\<lambda>q. q\<lparr>yptr := None\<rparr>) st;
          par \<leftarrow> pparent (pcb st p);
          let c = cptr (pcb st par);
          let st = upd_pcb p (\<lambda>q. q\<lparr>optr := c\<rparr>) st;
          let st = (case optr (pcb st p) of None \<Rightarrow> st | Some os \<Rightarrow> upd_pcb os (\<lambda>q. q\<lparr>yptr := Some p\<rparr>) st);
          let st = upd_pcb par (\<lambda>q. q\<lparr>cptr := Some p\<rparr>) st;
          Some (st\<lparr>nr_process := nr_process st + 1\<rparr>) }"

definition remove_links :: "nat \<Rightarrow> ptable \<Rightarrow> ptable option" where
  "remove_links p st =
     do { let st = st\<lparr>proc_list := list_del (ProcLink p) (proc_list st)\<rparr>;
          let st = (case optr (pcb st p) of None \<Rightarrow> st
                    | Some os \<Rightarrow> (let y = yptr (pcb st p) in upd_pcb os (\<lambda>q. q\<lparr>yptr := y\<rparr>) st));
          let old = optr (pcb st p);
          st \<leftarrow> (case yptr (pcb st p) of
                  Some y \<Rightarrow> Some (upd_pcb y (\<lambda>q. q\<lparr>optr := old\<rparr>) st)
                | None \<Rightarrow> do { par \<leftarrow> pparent (pcb st p); Some (upd_pcb par (\<lambda>q. q\<lparr>cptr := old\<rparr>) st) });
          Some (st\<lparr>nr_process := nr_process st - 1\<rparr>) }"

text \<open>
  The search of \<^verbatim>\<open>get_pid\<close>: one turn of the \<^verbatim>\<open>while\<close> loop; the jump to
  \<^verbatim>\<open>repeat\<close> starts over at the head of the list.
\<close>

partial_function (option) pid_scan :: "proc_le \<Rightarrow> int \<Rightarrow> int \<Rightarrow> ptable \<Rightarrow> (int \<times> int) option" where
  "pid_scan le lp safe st =
     (let le = list_next le (proc_list st)
      in if le \<noteq> ProcList then
           (let q = pid (pcb st (le2proc le))
            in if q = lp then
                 (let lp = lp + 1
                  in if lp \<ge> safe
                     then (let lp = (if lp \<ge> MAX_PID then 1 else lp)
                           in pid_scan ProcList lp MAX_PID st)
                     else pid_scan le lp safe st)
               else if q > lp \<and> safe > q then pid_scan le lp q st
               else pid_scan le lp safe st)
         else Some (lp, safe))"

definition get_pid :: "ptable \<Rightarrow> (int \<times> ptable) option" where
  "get_pid st =
     do { let lp = last_pid st + 1;
          (lp, safe) \<leftarrow>
            (if lp \<ge> MAX_PID then pid_scan ProcList 1 MAX_PID st
             else if lp \<ge> next_safe st then pid_scan ProcList lp MAX_PID st
             else Some (lp, next_safe st));
          Some (lp, st\<lparr>last_pid := lp, next_safe := safe\<rparr>) }"

definition hash_proc :: "nat \<Rightarrow> ptable \<Rightarrow> ptable" where
  "hash_proc p st =
     st\<lparr>hash_list := list_add (HashHead (pid_hashfn (pid (pcb st p)))) (HashLink p) (hash_list st)\<rparr>"

definition unhash_proc :: "nat \<Rightarrow> ptable \<Rightarrow> ptable" where
  "unhash_proc p st = st\<lparr>hash_list := list_del (HashLink p) (hash_list st)\<rparr>"

partial_function (option) find_loop :: "nat \<Rightarrow> hash_le \<Rightarrow> int \<Rightarrow> ptable \<Rightarrow> nat option option" where
  "find_loop h le x st =
     (let le = list_next le (hash_list st)
      in if le \<noteq> HashHead h then
           (let p = le2hproc le in if pid (pcb st p) = x then Some (Some p) else find_loop h le x st)
         else Some None)"

definition find_proc :: "int \<Rightarrow> ptable \<Rightarrow> nat option option" where
  "find_proc x st =
     (if 0 < x \<and> x < MAX_PID then find_loop (pid_hashfn x) (HashHead (pid_hashfn x)) x st else Some None)"

section \<open>Fork\<close>

text \<open>\<^verbatim>\<open>exit_mmap\<close>, \<^verbatim>\<open>put_pgdir\<close> and \<^verbatim>\<open>mm_destroy\<close> in this order.\<close>

definition destroy_mm :: "nat \<Rightarrow> ptable \<Rightarrow> ptable" where
  "destroy_mm mm st = release (MmDestroyed mm) (release (PgdirFreed mm) (release (MmapExited mm) st))"

text \<open>What the other components answer during a fork.\<close>

record fork_env =
  got_proc :: "nat option"
  got_stack :: "nat option"
  got_files :: "nat option"
  dup_files_ret :: int
  got_mm :: "nat option"
  setup_pgdir_ret :: int
  dup_mmap_ret :: int

abbreviation CLONE_VM :: "32 word" where "CLONE_VM \<equiv> 0x100"
abbreviation CLONE_FS :: "32 word" where "CLONE_FS \<equiv> 0x800"
abbreviation E_BAD_PROC :: int where "E_BAD_PROC \<equiv> 2"
abbreviation E_NO_FREE_PROC :: int where "E_NO_FREE_PROC \<equiv> 5"
abbreviation E_KILLED :: int where "E_KILLED \<equiv> 9"

definition setup_kstack :: "nat \<Rightarrow> nat option \<Rightarrow> ptable \<Rightarrow> int \<times> ptable" where
  "setup_kstack p page st =
     (case page of Some k \<Rightarrow> (0, upd_res p (\<lambda>r. r\<lparr>kstack := k\<rparr>) st) | None \<Rightarrow> (- E_NO_MEM, st))"

definition put_kstack :: "nat \<Rightarrow> ptable \<Rightarrow> ptable" where
  "put_kstack p st = release (StackFreed (kstack (res st p))) st"

definition copy_mm :: "32 word \<Rightarrow> nat \<Rightarrow> fork_env \<Rightarrow> ptable \<Rightarrow> (int \<times> ptable) option" where
  "copy_mm fl p env st =
     do { c \<leftarrow> current (sd st);
          let good = (\<lambda>mm st. (0, upd_res p (\<lambda>r. r\<lparr>pmm := Some mm\<rparr>) (st\<lparr>mm_refs := (mm_refs st)(mm := mm_refs st mm + 1)\<rparr>)));
          Some (case pmm (res st c) of
                  None \<Rightarrow> (0, st)
                | Some oldmm \<Rightarrow>
                    if and fl CLONE_VM \<noteq> 0 then good oldmm st
                    else (case got_mm env of
                            None \<Rightarrow> (- E_NO_MEM, st)
                          | Some mm \<Rightarrow>
                              (let st = st\<lparr>mm_refs := (mm_refs st)(mm := 0)\<rparr>
                               in if setup_pgdir_ret env \<noteq> 0 then (- E_NO_MEM, release (MmDestroyed mm) st)
                                  else if dup_mmap_ret env \<noteq> 0 then (dup_mmap_ret env, destroy_mm mm st)
                                  else good mm st))) }"

definition copy_files :: "32 word \<Rightarrow> nat \<Rightarrow> fork_env \<Rightarrow> ptable \<Rightarrow> (int \<times> ptable) option" where
  "copy_files fl p env st =
     do { c \<leftarrow> current (sd st);
          old \<leftarrow> filesp (res st c);
          let good = (\<lambda>f st. (0, upd_res p (\<lambda>r. r\<lparr>filesp := Some f\<rparr>) (st\<lparr>file_refs := (file_refs st)(f := file_refs st f + 1)\<rparr>)));
          Some (if and fl CLONE_FS \<noteq> 0 then good old st
                else (case got_files env of
                        None \<Rightarrow> (- E_NO_MEM, st)
                      | Some f \<Rightarrow>
                          (let st = st\<lparr>file_refs := (file_refs st)(f := 0)\<rparr>
                           in if dup_files_ret env \<noteq> 0 then (dup_files_ret env, release (FilesDestroyed f) st)
                              else good f st))) }"

definition put_files :: "nat \<Rightarrow> ptable \<Rightarrow> ptable" where
  "put_files p st =
     (case filesp (res st p) of
        None \<Rightarrow> st
      | Some f \<Rightarrow>
          (let st = st\<lparr>file_refs := (file_refs st)(f := file_refs st f - 1)\<rparr>
           in if file_refs st f = 0 then release (FilesDestroyed f) st else st))"

definition do_fork :: "32 word \<Rightarrow> fork_env \<Rightarrow> ptable \<Rightarrow> (int \<times> ptable) option" where
  "do_fork fl env st =
     (if nr_process st \<ge> MAX_PROCESS then Some (- E_NO_FREE_PROC, st)
      else
        (case alloc_proc (got_proc env) st of
           (None, st) \<Rightarrow> Some (- E_NO_MEM, st)
         | (Some p, st) \<Rightarrow>
             do { let st = upd_pcb p (\<lambda>q. q\<lparr>pparent := current (sd st)\<rparr>) st;
                  c \<leftarrow> current (sd st);
                  kassert (wait_state (pcb st c) = 0);
                  let (ret, st) = setup_kstack p (got_stack env) st;
                  if ret \<noteq> 0 then Some (- E_NO_MEM, release (ProcFreed p) st)
                  else do {
                    (ret, st) \<leftarrow> copy_files fl p env st;
                    if ret \<noteq> 0 then Some (- E_NO_MEM, release (ProcFreed p) (put_kstack p st))
                    else do {
                      (ret, st) \<leftarrow> copy_mm fl p env st;
                      if ret \<noteq> 0 then Some (- E_NO_MEM, release (ProcFreed p) (put_kstack p (put_files p st)))
                      else do {
                        (n, st) \<leftarrow> get_pid st;
                        let st = upd_pcb p (\<lambda>q. q\<lparr>pid := n\<rparr>) st;
                        let st = hash_proc p st;
                        st \<leftarrow> set_links p st;
                        st \<leftarrow> on_sched (wakeup_proc p) st;
                        Some (pid (pcb st p), st) } } } }))"

section \<open>Exit\<close>

text \<open>The children of the exiting process become the youngest children of \<^verbatim>\<open>initproc\<close>.\<close>

definition adopt_child :: "nat \<Rightarrow> nat \<Rightarrow> ptable \<Rightarrow> ptable" where
  "adopt_child c p st =
     (let i = initproc st;
          os = optr (pcb st p);
          st = upd_pcb c (\<lambda>q. q\<lparr>cptr := os\<rparr>) st;
          st = upd_pcb p (\<lambda>q. q\<lparr>yptr := None\<rparr>) st;
          ic = cptr (pcb st i);
          st = upd_pcb p (\<lambda>q. q\<lparr>optr := ic\<rparr>) st;
          st = (case optr (pcb st p) of None \<Rightarrow> st | Some y \<Rightarrow> upd_pcb y (\<lambda>q. q\<lparr>yptr := Some p\<rparr>) st);
          st = upd_pcb p (\<lambda>q. q\<lparr>pparent := Some i\<rparr>) st
      in upd_pcb i (\<lambda>q. q\<lparr>cptr := Some p\<rparr>) st)"

partial_function (option) adopt_loop :: "nat \<Rightarrow> ptable \<Rightarrow> ptable option" where
  "adopt_loop c st =
     (case cptr (pcb st c) of
        None \<Rightarrow> Some st
      | Some p \<Rightarrow>
         do { let i = initproc st;
              let st = adopt_child c p st;
              st \<leftarrow> (if pstate (pcb st p) = PROC_ZOMBIE \<and> wait_state (pcb st i) = WT_CHILD
                     then on_sched (wakeup_proc i) st else Some st);
              adopt_loop c st })"

definition exit_mm :: "nat \<Rightarrow> ptable \<Rightarrow> ptable" where
  "exit_mm c st =
     (case pmm (res st c) of
        None \<Rightarrow> st
      | Some mm \<Rightarrow>
          (let st = st\<lparr>mm_refs := (mm_refs st)(mm := mm_refs st mm - 1)\<rparr>;
               st = (if mm_refs st mm = 0 then destroy_mm mm st else st)
           in upd_res c (\<lambda>r. r\<lparr>pmm := None\<rparr>) st))"

text \<open>\<^verbatim>\<open>do_exit\<close> up to and including \<^verbatim>\<open>schedule\<close>, which does not come back to a zombie.\<close>

definition do_exit :: "int \<Rightarrow> ptable \<Rightarrow> ptable option" where
  "do_exit error_code st =
     do { c \<leftarrow> current (sd st);
          kassert (c \<noteq> idleproc (sd st));
          kassert (c \<noteq> initproc st);
          let st = exit_mm c st;
          let st = upd_pcb c (\<lambda>q. q\<lparr>pstate := PROC_ZOMBIE\<rparr>) st;
          let st = upd_pcb c (\<lambda>q. q\<lparr>exit_code := error_code\<rparr>) st;
          par \<leftarrow> pparent (pcb st c);
          st \<leftarrow> (if wait_state (pcb st par) = WT_CHILD then on_sched (wakeup_proc par) st else Some st);
          st \<leftarrow> adopt_loop c st;
          on_sched schedule st }"

section \<open>Wait, kill, yield and sleep\<close>

text \<open>
  \<^verbatim>\<open>Returned r code\<close>: the call returned \<^verbatim>\<open>r\<close> and stored \<^verbatim>\<open>code\<close>, if any;
  \<^verbatim>\<open>Waits\<close>: the caller sleeps and goes on with \<^verbatim>\<open>do_wait_resume\<close> when it runs again;
  \<^verbatim>\<open>Exited\<close>: it was killed in its sleep.
\<close>

datatype wait_out = Returned int "int option" | Waits | Exited

partial_function (option) kid_loop :: "nat option \<Rightarrow> bool \<Rightarrow> ptable \<Rightarrow> (nat option \<times> bool) option" where
  "kid_loop x haskid st =
     (case x of
        None \<Rightarrow> Some (None, haskid)
      | Some p \<Rightarrow> if pstate (pcb st p) = PROC_ZOMBIE then Some (Some p, True)
                  else kid_loop (optr (pcb st p)) True st)"

definition wait_reap :: "nat \<Rightarrow> bool \<Rightarrow> ptable \<Rightarrow> (wait_out \<times> ptable) option" where
  "wait_reap p store st =
     do { kassert (p \<noteq> idleproc (sd st) \<and> p \<noteq> initproc st);
          let code = (if store then Some (exit_code (pcb st p)) else None);
          let st = unhash_proc p st;
          st \<leftarrow> remove_links p st;
          Some (Returned 0 code, release (ProcFreed p) (put_kstack p st)) }"

definition wait_pass :: "int \<Rightarrow> bool \<Rightarrow> ptable \<Rightarrow> (wait_out \<times> ptable) option" where
  "wait_pass n store st =
     do { c \<leftarrow> current (sd st);
          (found, haskid) \<leftarrow>
            (if n \<noteq> 0 then
               do { r \<leftarrow> find_proc n st;
                    Some (case r of
                            Some p \<Rightarrow> if pparent (pcb st p) = Some c
                                      then (if pstate (pcb st p) = PROC_ZOMBIE then Some p else None, True)
                                      else (None, False)
                          | None \<Rightarrow> (None, False)) }
             else kid_loop (cptr (pcb st c)) False st);
          case found of
            Some p \<Rightarrow> wait_reap p store st
          | None \<Rightarrow>
              if haskid then
                do { let st = upd_pcb c (\<lambda>q. q\<lparr>pstate := PROC_SLEEPING\<rparr>) st;
                     let st = upd_pcb c (\<lambda>q. q\<lparr>wait_state := WT_CHILD\<rparr>) st;
                     st \<leftarrow> on_sched schedule st;
                     Some (Waits, st) }
              else Some (Returned (- E_BAD_PROC) None, st) }"

text \<open>\<^verbatim>\<open>store\<close>: a place for the exit code was given, \<^verbatim>\<open>ok\<close>: it passed \<^verbatim>\<open>user_mem_check\<close>.\<close>

definition do_wait :: "int \<Rightarrow> bool \<Rightarrow> bool \<Rightarrow> ptable \<Rightarrow> (wait_out \<times> ptable) option" where
  "do_wait n store ok st =
     (if store \<and> \<not> ok then Some (Returned (- E_INVAL) None, st) else wait_pass n store st)"

definition do_wait_resume :: "int \<Rightarrow> bool \<Rightarrow> ptable \<Rightarrow> (wait_out \<times> ptable) option" where
  "do_wait_resume n store st =
     do { c \<leftarrow> current (sd st);
          if and (pflags (pcb st c)) PF_EXITING \<noteq> 0
          then do { st \<leftarrow> do_exit (- E_KILLED) st; Some (Exited, st) }
          else wait_pass n store st }"

definition do_kill :: "int \<Rightarrow> ptable \<Rightarrow> (int \<times> ptable) option" where
  "do_kill n st =
     do { r \<leftarrow> find_proc n st;
          case r of
            None \<Rightarrow> Some (- E_INVAL, st)
          | Some p \<Rightarrow>
              if and (pflags (pcb st p)) PF_EXITING = 0 then
                do { let st = upd_pcb p (\<lambda>q. q\<lparr>pflags := or (pflags q) PF_EXITING\<rparr>) st;
                     st \<leftarrow> (if and (wait_state (pcb st p)) WT_INTERRUPTED \<noteq> 0
                            then on_sched (wakeup_proc p) st else Some st);
                     Some (0, st) }
              else Some (- E_KILLED, st) }"

definition do_yield :: "ptable \<Rightarrow> (int \<times> ptable) option" where
  "do_yield st = do { c \<leftarrow> current (sd st); Some (0, upd_pcb c (\<lambda>q. q\<lparr>need_resched := True\<rparr>) st) }"

definition lab6_set_priority :: "32 word \<Rightarrow> ptable \<Rightarrow> ptable option" where
  "lab6_set_priority priority st =
     do { c \<leftarrow> current (sd st);
          Some (if priority = 0 then upd_pcb c (\<lambda>q. q\<lparr>lab6_priority := 1\<rparr>) st
                else upd_pcb c (\<lambda>q. q\<lparr>lab6_priority := priority\<rparr>) st) }"

text \<open>\<^verbatim>\<open>do_sleep\<close> with its timer at \<^verbatim>\<open>t\<close>; true when it gave the processor away.\<close>

definition do_sleep :: "nat \<Rightarrow> nat \<Rightarrow> ptable \<Rightarrow> (bool \<times> ptable) option" where
  "do_sleep t time st =
     (if time = 0 then Some (False, st)
      else do { c \<leftarrow> current (sd st);
                let st = on_sd (timer_init t (Some c) (int time)) st;
                let st = upd_pcb c (\<lambda>q. q\<lparr>pstate := PROC_SLEEPING\<rparr>) st;
                let st = upd_pcb c (\<lambda>q. q\<lparr>wait_state := WT_TIMER\<rparr>) st;
                st \<leftarrow> on_sched (add_timer t) st;
                st \<leftarrow> on_sched schedule st;
                Some (True, st) })"

definition do_sleep_resume :: "nat \<Rightarrow> ptable \<Rightarrow> ptable" where
  "do_sleep_resume t st = on_sd (del_timer t) st"

section \<open>The first processes\<close>

definition proc_init :: "nat option \<Rightarrow> nat \<Rightarrow> nat option \<Rightarrow> fork_env \<Rightarrow> ptable \<Rightarrow> ptable option" where
  "proc_init proc bootstack files env st =
     do { let st = st\<lparr>proc_list := list_init ProcList (proc_list st)\<rparr>;
          let st = st\<lparr>hash_list := fold (\<lambda>i. list_init (HashHead i)) [0..<1024] (hash_list st)\<rparr>;
          let (proc, st) = alloc_proc proc st;
          p \<leftarrow> proc;
          let st = on_sd (\<lambda>s. s\<lparr>idleproc := p\<rparr>) st;
          let st = upd_pcb p (\<lambda>q. q\<lparr>pid := 0\<rparr>) st;
          let st = upd_pcb p (\<lambda>q. q\<lparr>pstate := PROC_RUNNABLE\<rparr>) st;
          let st = upd_res p (\<lambda>r. r\<lparr>kstack := bootstack\<rparr>) st;
          let st = upd_pcb p (\<lambda>q. q\<lparr>need_resched := True\<rparr>) st;
          let st = upd_res p (\<lambda>r. r\<lparr>filesp := files\<rparr>) st;
          f \<leftarrow> files;
          let st = st\<lparr>file_refs := (file_refs st)(f := 1)\<rparr>;
          let st = st\<lparr>nr_process := nr_process st + 1\<rparr>;
          let st = on_sd (\<lambda>s. s\<lparr>current := Some p\<rparr>) st;
          (n, st) \<leftarrow> do_fork CLONE_VM env st;
          kassert (n > 0);
          r \<leftarrow> find_proc n st;
          i \<leftarrow> r;
          let st = st\<lparr>initproc := i\<rparr>;
          kassert (pid (pcb st (idleproc (sd st))) = 0);
          kassert (pid (pcb st (initproc st)) = 1);
          Some st }"

end
