(* ===== verification/ProcTable.thy ===== *)
theory ProcTable
  imports Process
begin

text \<open>
  The parts of the process table: the pid generator and its static variables, the hash
  table, the family pointers as lists of children, and what the scheduler keeps of them.
\<close>

section \<open>The pid generator\<close>

definition on_list :: "ptable \<Rightarrow> nat list \<Rightarrow> bool" where
  "on_list st ps \<longleftrightarrow> ring (proc_list st) ProcList (map ProcLink ps)"

text \<open>The static variables: no listed pid lies strictly between them.\<close>

definition pids_ok :: "ptable \<Rightarrow> nat list \<Rightarrow> bool" where
  "pids_ok st ps \<longleftrightarrow> (\<forall>p \<in> set ps. 1 \<le> pid (pcb st p) \<and> pid (pcb st p) < MAX_PID) \<and>
     inj_on (\<lambda>p. pid (pcb st p)) (set ps) \<and> 0 \<le> last_pid st \<and> last_pid st \<le> MAX_PID \<and> next_safe st \<le> MAX_PID \<and>
     (\<forall>p \<in> set ps. \<not> (last_pid st < pid (pcb st p) \<and> pid (pcb st p) < next_safe st))"

lemma on_list_next:
  assumes "on_list st (us @ vs)"
  shows "list_next (last (ProcList # map ProcLink us)) (proc_list st) = hd (map ProcLink vs @ [ProcList])"
  using ring_next_last [of "proc_list st" ProcList "map ProcLink us" "map ProcLink vs"] assms
  by (simp add: on_list_def list_next_def)

lemma on_list_distinct: "on_list st ps \<Longrightarrow> distinct ps"
  unfolding on_list_def using ring_distinct [of "proc_list st" ProcList "map ProcLink ps"]
  by (simp only: distinct.simps distinct_map)

text \<open>How far a candidate is from the free pid \<^verbatim>\<open>f\<close>, going up and around.\<close>

definition pid_gap :: "int \<Rightarrow> int \<Rightarrow> nat" where
  "pid_gap f lp = nat (if lp \<le> f then f - lp else f - lp + MAX_PID)"

lemma pid_gap_Suc: "lp \<noteq> f \<Longrightarrow> 1 \<le> f \<Longrightarrow> f < MAX_PID \<Longrightarrow> lp < MAX_PID \<Longrightarrow> lp + 1 < MAX_PID \<Longrightarrow>
    pid_gap f (lp + 1) < pid_gap f lp"
  "lp \<noteq> f \<Longrightarrow> 1 \<le> f \<Longrightarrow> f < MAX_PID \<Longrightarrow> lp < MAX_PID \<Longrightarrow> MAX_PID \<le> lp + 1 \<Longrightarrow> pid_gap f 1 < pid_gap f lp"
  by (auto simp: pid_gap_def nat_less_iff)

lemma pid_scan_free:
  assumes l: "on_list st ps" and f: "1 \<le> f" "f < MAX_PID" "\<forall>p \<in> set ps. pid (pcb st p) \<noteq> f"
    and "ps = us @ vs" "1 \<le> lp" "lp < safe" "safe \<le> MAX_PID"
    and "\<forall>u \<in> set us. \<not> (lp \<le> pid (pcb st u) \<and> pid (pcb st u) < safe)"
  shows "\<exists>n s. pid_scan (last (ProcList # map ProcLink us)) lp safe st = Some (n, s) \<and>
    1 \<le> n \<and> n < s \<and> s \<le> MAX_PID \<and> (\<forall>p \<in> set ps. \<not> (n \<le> pid (pcb st p) \<and> pid (pcb st p) < s))"
  using assms(5-)
proof (induction "(pid_gap f lp, length vs)" arbitrary: us vs lp safe rule: wf_induct_rule [OF wf_lex_prod [OF wf_less wf_less]])
  case (1 vs lp us safe)
  note P = "1.prems"
  have ih: "\<exists>n s. pid_scan (last (ProcList # map ProcLink us')) lp' safe' st = Some (n, s) \<and>
    1 \<le> n \<and> n < s \<and> s \<le> MAX_PID \<and> (\<forall>p \<in> set ps. \<not> (n \<le> pid (pcb st p) \<and> pid (pcb st p) < s))"
    if "pid_gap f lp' < pid_gap f lp \<or> pid_gap f lp' = pid_gap f lp \<and> length vs' < length vs"
      "ps = us' @ vs'" "1 \<le> lp'" "lp' < safe'" "safe' \<le> MAX_PID"
      "\<forall>u \<in> set us'. \<not> (lp' \<le> pid (pcb st u) \<and> pid (pcb st u) < safe')" for us' vs' lp' safe'
    using 1(1) [of lp' vs' us' safe'] that by auto
  note nx = on_list_next [of st us vs, folded P(1), OF l]
  show ?case
  proof (cases vs)
    case Nil
    with P nx show ?thesis by (subst pid_scan.simps) simp
  next
    case (Cons v ws)
    let ?q = "pid (pcb st v)"
    have e: "last (ProcList # map ProcLink (us @ [v])) = ProcLink v" by simp
    have nx': "list_next (last (ProcList # map ProcLink us)) (proc_list st) = ProcLink v"
      using nx Cons by simp
    have q: "?q \<noteq> f" using f(3) P(1) Cons by simp
    have ps: "ps = (us @ [v]) @ ws" "length ws < length vs" using P(1) Cons by simp_all
    note step = pid_scan.simps [of "last (ProcList # map ProcLink us)" lp safe st, unfolded nx' Let_def]
    consider (up) "?q = lp" "lp + 1 < safe" | (over) "?q = lp" "lp + 1 \<ge> safe"
      | (tight) "?q \<noteq> lp" "?q > lp \<and> safe > ?q" | (skip) "?q \<noteq> lp" "\<not> (?q > lp \<and> safe > ?q)"
      by linarith
    then show ?thesis
    proof cases
      case up
      then have s: "pid_scan (last (ProcList # map ProcLink us)) lp safe st = pid_scan (ProcLink v) (lp + 1) safe st"
        unfolding step by simp
      have "pid_gap f (lp + 1) < pid_gap f lp"
        using pid_gap_Suc(1) [of lp f] q up f(1,2) P(3,4) by simp
      then show ?thesis
        unfolding s unfolding e [symmetric] by (intro ih [OF _ ps(1)]) (use up P in auto)
    next
      case over
      let ?n = "if lp + 1 \<ge> MAX_PID then 1 else lp + 1"
      have s: "pid_scan (last (ProcList # map ProcLink us)) lp safe st = pid_scan ProcList ?n MAX_PID st"
        unfolding step using over by simp
      have "pid_gap f ?n < pid_gap f lp"
        using pid_gap_Suc [of lp f] q over f(1,2) P(3,4) by auto
      moreover have "1 \<le> ?n" "?n < MAX_PID" using P(2) by (auto simp: MAX_PID_def MAX_PROCESS_def)
      ultimately show ?thesis
        using ih [of ?n ps "[]" MAX_PID] unfolding s by simp
    next
      case tight
      then have s: "pid_scan (last (ProcList # map ProcLink us)) lp safe st = pid_scan (ProcLink v) lp ?q st"
        unfolding step by simp
      show ?thesis
        unfolding s unfolding e [symmetric] by (intro ih [OF _ ps(1)]) (use tight P ps in auto)
    next
      case skip
      then have s: "pid_scan (last (ProcList # map ProcLink us)) lp safe st = pid_scan (ProcLink v) lp safe st"
        unfolding step by auto
      show ?thesis
        unfolding s unfolding e [symmetric] by (intro ih [OF _ ps(1)]) (use skip P ps in auto)
    qed
  qed
qed


lemma free_pid:
  assumes "length ps < nat (MAX_PID - 1)"
  obtains f where "1 \<le> f" "f < MAX_PID" "\<forall>p \<in> set ps. pid (pcb st p) \<noteq> f"
proof -
  have "card (set ps) < card {1..<MAX_PID}"
    using card_length [of ps] assms by simp
  then have "card ((\<lambda>p. pid (pcb st p)) ` set ps) < card {1..<MAX_PID}"
    using card_image_le [of "set ps" "\<lambda>p. pid (pcb st p)"] by simp
  then have "\<not> {1..<MAX_PID} \<subseteq> (\<lambda>p. pid (pcb st p)) ` set ps"
    using card_mono [of "(\<lambda>p. pid (pcb st p)) ` set ps" "{1..<MAX_PID}"] by auto
  then show ?thesis using that by fastforce
qed

lemma get_pid_free:
  assumes l: "on_list st ps" and p: "pids_ok st ps" and room: "length ps < nat (MAX_PID - 1)"
  shows "\<exists>n s. get_pid st = Some (n, st\<lparr>last_pid := n, next_safe := s\<rparr>) \<and> 1 \<le> n \<and> n < s \<and> s \<le> MAX_PID \<and>
    (\<forall>p \<in> set ps. \<not> (n \<le> pid (pcb st p) \<and> pid (pcb st p) < s))"
proof -
  obtain f where f: "1 \<le> f" "f < MAX_PID" "\<forall>p \<in> set ps. pid (pcb st p) \<noteq> f"
    using free_pid [OF room] .
  note scan = pid_scan_free [OF l f, of "[]" ps, simplified]
  let ?l = "last_pid st + 1"
  show ?thesis
  proof (cases "?l \<ge> MAX_PID \<or> ?l \<ge> next_safe st")
    case True
    let ?n = "if ?l \<ge> MAX_PID then 1 else ?l"
    have "1 \<le> ?n" "?n < MAX_PID" using p by (auto simp: pids_ok_def MAX_PID_def MAX_PROCESS_def)
    from scan [OF this] obtain n s where s: "pid_scan ProcList ?n MAX_PID st = Some (n, s)" "1 \<le> n" "n < s" "s \<le> MAX_PID"
      "\<forall>p \<in> set ps. \<not> (n \<le> pid (pcb st p) \<and> pid (pcb st p) < s)" by auto
    have "get_pid st = Some (n, st\<lparr>last_pid := n, next_safe := s\<rparr>)"
      using True s(1) by (cases "?l \<ge> MAX_PID") (simp_all add: get_pid_def Let_def)
    with s(2-) show ?thesis by blast
  next
    case False
    then have "get_pid st = Some (?l, st\<lparr>last_pid := ?l, next_safe := next_safe st\<rparr>)"
      by (cases st) (simp add: get_pid_def Let_def)
    with False p show ?thesis
      by (intro exI [of _ ?l] exI [of _ "next_safe st"]) (simp add: pids_ok_def, linarith?)
  qed
qed

lemma get_pid_pcb: "get_pid st = Some (n, st') \<Longrightarrow> st' = st\<lparr>last_pid := last_pid st', next_safe := next_safe st'\<rparr>"
  by (auto simp: get_pid_def bind_Some_iff Let_def)

section \<open>The hash table\<close>

definition hashed :: "ptable \<Rightarrow> nat list \<Rightarrow> bool" where
  "hashed st ps \<longleftrightarrow> (\<exists>B. \<forall>h < 1024. ring (hash_list st) (HashHead h) (map HashLink (B h)) \<and>
     set (B h) = {p \<in> set ps. pid_hashfn (pid (pcb st p)) = h})"

lemma pid_hashfn_less: "pid_hashfn x < 1024"
proof -
  have "pid_hashfn x < 2 ^ (32 - 22)"
    unfolding pid_hashfn_def hash32_def Let_def
    using drop_bit_less [of 22 "ucast (ucast (word_of_int x :: 32 word) * GOLDEN_RATIO_PRIME_32) :: 32 word"] by simp
  then show ?thesis by simp
qed

lemma hashed_cong: "hashed st ps \<Longrightarrow> hash_list st' = hash_list st \<Longrightarrow>
    \<forall>p \<in> set ps. pid (pcb st' p) = pid (pcb st p) \<Longrightarrow> set ps' = set ps \<Longrightarrow> hashed st' ps'"
  unfolding hashed_def by (elim exE, rule_tac x = B in exI) auto

lemma find_loop_spec:
  assumes r: "ring (hash_list st) (HashHead h) (map HashLink (us @ vs))"
  shows "find_loop h (last (HashHead h # map HashLink us)) x st = Some (find (\<lambda>p. pid (pcb st p) = x) vs)"
  using r
proof (induction vs arbitrary: us)
  case Nil
  with ring_next_last [of "hash_list st" "HashHead h" "map HashLink us" "[]"] show ?case
    by (subst find_loop.simps) (simp add: list_next_def)
next
  case (Cons v vs)
  have n: "list_next (last (HashHead h # map HashLink us)) (hash_list st) = HashLink v"
    using ring_next_last [of "hash_list st" "HashHead h" "map HashLink us" "map HashLink (v # vs)"] Cons.prems
    by (simp add: list_next_def)
  have "last (HashHead h # map HashLink (us @ [v])) = HashLink v" by simp
  with Cons.IH [of "us @ [v]"] Cons.prems have
    "find_loop h (HashLink v) x st = Some (find (\<lambda>p. pid (pcb st p) = x) vs)" by simp
  then show ?case
    by (subst find_loop.simps) (simp only: n Let_def, simp)
qed

lemma find_proc_spec:
  assumes h: "hashed st ps" and p: "\<forall>p \<in> set ps. 1 \<le> pid (pcb st p) \<and> pid (pcb st p) < MAX_PID"
    and inj: "inj_on (\<lambda>p. pid (pcb st p)) (set ps)"
  shows "\<exists>r. find_proc x st = Some r \<and> (\<forall>p. r = Some p \<longleftrightarrow> p \<in> set ps \<and> pid (pcb st p) = x)"
proof (cases "0 < x \<and> x < MAX_PID")
  case False
  with p show ?thesis by (auto simp: find_proc_def)
next
  case True
  let ?h = "pid_hashfn x"
  obtain b where b: "ring (hash_list st) (HashHead ?h) (map HashLink b)"
    "set b = {p \<in> set ps. pid_hashfn (pid (pcb st p)) = ?h}"
    using h pid_hashfn_less [of x] unfolding hashed_def by blast
  have f: "find_proc x st = Some (find (\<lambda>p. pid (pcb st p) = x) b)"
    using True find_loop_spec [of st ?h "[]" b x] b(1) by (simp add: find_proc_def)
  have "find (\<lambda>p. pid (pcb st p) = x) b = Some p \<longleftrightarrow> p \<in> set ps \<and> pid (pcb st p) = x" for p
  proof
    assume "find (\<lambda>p. pid (pcb st p) = x) b = Some p"
    then show "p \<in> set ps \<and> pid (pcb st p) = x"
      using b(2) by (auto simp: find_Some_iff)
  next
    assume a: "p \<in> set ps \<and> pid (pcb st p) = x"
    then have "p \<in> set b" using b(2) by simp
    with a obtain q where q: "find (\<lambda>p. pid (pcb st p) = x) b = Some q"
      by (metis (mono_tags, lifting) find_None_iff not_Some_eq)
    then have "q \<in> set b" "pid (pcb st q) = x" by (auto simp: find_Some_iff)
    with a b(2) inj have "q = p" by (auto simp: inj_on_def)
    with q show "find (\<lambda>p. pid (pcb st p) = x) b = Some p" by simp
  qed
  with f show ?thesis by blast
qed

lemma buckets_apart:
  assumes "set xs = {p \<in> A. f p = h}" "set ys = {p \<in> A. f p = h'}" "h \<noteq> h'"
  shows "apart (HashHead h) (map HashLink xs) (HashHead h') (map HashLink ys)"
  using assms by (auto simp: apart_def)

lemma hash_proc_ok:
  assumes h: "hashed st ps" and p: "p \<notin> set ps"
  shows "hashed (hash_proc p st) (p # ps)"
proof -
  let ?f = "\<lambda>p. pid_hashfn (pid (pcb st p))"
  obtain B where B: "\<And>h. h < 1024 \<Longrightarrow> ring (hash_list st) (HashHead h) (map HashLink (B h))"
    "\<And>h. h < 1024 \<Longrightarrow> set (B h) = {p \<in> set ps. ?f p = h}"
    using h unfolding hashed_def by blast
  let ?h = "?f p"
  let ?l = "list_add (HashHead ?h) (HashLink p) (hash_list st)"
  have lt: "?h < 1024" by (rule pid_hashfn_less)
  have new: "ring ?l (HashHead ?h) (map HashLink (p # B ?h))"
    using ring_add_head [OF B(1) [OF lt], of "HashLink p"] B(2) [OF lt] p by auto
  have old: "ring ?l (HashHead h) (map HashLink (B h))" if "h < 1024" "h \<noteq> ?h" for h
    by (rule ring_frame_add [OF B(1) [OF lt] B(1) [OF that(1)] buckets_apart [OF B(2) [OF lt] B(2) [OF that(1)]]])
      (use that p B(2) [OF that(1)] in auto)
  show ?thesis
    unfolding hashed_def
  proof (intro exI [of _ "B(?h := p # B ?h)"] allI impI conjI)
    fix h :: nat assume "h < 1024"
    then show "ring (hash_list (hash_proc p st)) (HashHead h) (map HashLink ((B(?h := p # B ?h)) h))"
      using new old by (simp add: hash_proc_def)
    show "set ((B(?h := p # B ?h)) h) = {q \<in> set (p # ps). pid_hashfn (pid (pcb (hash_proc p st) q)) = h}"
      using B(2) [OF \<open>h < 1024\<close>] by (auto simp: hash_proc_def)
  qed
qed

lemma unhash_proc_ok:
  assumes h: "hashed st ps" and p: "p \<in> set ps"
  shows "hashed (unhash_proc p st) (filter (\<lambda>q. q \<noteq> p) ps)"
proof -
  let ?f = "\<lambda>p. pid_hashfn (pid (pcb st p))"
  obtain B where B: "\<And>h. h < 1024 \<Longrightarrow> ring (hash_list st) (HashHead h) (map HashLink (B h))"
    "\<And>h. h < 1024 \<Longrightarrow> set (B h) = {p \<in> set ps. ?f p = h}"
    using h unfolding hashed_def by blast
  let ?h = "?f p"
  let ?l = "list_del (HashLink p) (hash_list st)"
  have lt: "?h < 1024" by (rule pid_hashfn_less)
  have "p \<in> set (B ?h)" using B(2) [OF lt] p by simp
  then obtain us vs where s: "B ?h = us @ p # vs" by (meson split_list)
  have d: "p \<notin> set (us @ vs)"
    using ring_distinct [OF B(1) [OF lt]] unfolding s by auto
  have new: "ring ?l (HashHead ?h) (map HashLink (us @ vs))"
    using ring_del [of "hash_list st" "HashHead ?h" "map HashLink us" "HashLink p" "map HashLink vs"] B(1) [OF lt]
    unfolding s by simp
  have old: "ring ?l (HashHead h) (map HashLink (B h))" if "h < 1024" "h \<noteq> ?h" for h
    by (rule ring_frame_del [OF B(1) [OF lt] _ B(1) [OF that(1)] buckets_apart [OF B(2) [OF lt] B(2) [OF that(1)]]])
      (use that s in auto)
  show ?thesis
    unfolding hashed_def
  proof (intro exI [of _ "B(?h := us @ vs)"] allI impI conjI)
    fix h :: nat assume l: "h < 1024"
    then show "ring (hash_list (unhash_proc p st)) (HashHead h) (map HashLink ((B(?h := us @ vs)) h))"
      using new old by (simp add: unhash_proc_def)
    have "set (us @ vs) = set (B ?h) - {p}" using s d by auto
    then show "set ((B(?h := us @ vs)) h) = {q \<in> set (filter (\<lambda>q. q \<noteq> p) ps). pid_hashfn (pid (pcb (unhash_proc p st) q)) = h}"
      using B(2) [OF l] B(2) [OF lt] by (auto simp: unhash_proc_def)
  qed
qed

section \<open>The family\<close>

text \<open>
  \<^verbatim>\<open>sibs ps y x ks\<close>: following \<^verbatim>\<open>optr\<close> from \<^verbatim>\<open>x\<close> gives the processes
  \<^verbatim>\<open>ks\<close>, with \<^verbatim>\<open>yptr\<close> back to the one before, \<^verbatim>\<open>y\<close> for the first.
\<close>

fun sibs :: "(nat \<Rightarrow> proc_struct) \<Rightarrow> nat option \<Rightarrow> nat option \<Rightarrow> nat list \<Rightarrow> bool" where
  "sibs ps y x [] \<longleftrightarrow> x = None"
| "sibs ps y x (k # ks) \<longleftrightarrow> x = Some k \<and> yptr (ps k) = y \<and> sibs ps (Some k) (optr (ps k)) ks"

lemma sibs_cong: "\<forall>k \<in> set ks. yptr (ps' k) = yptr (ps k) \<and> optr (ps' k) = optr (ps k) \<Longrightarrow>
    sibs ps' y x ks = sibs ps y x ks"
  by (induction ks arbitrary: y x) auto

lemma sibs_head: "sibs ps y x ks \<Longrightarrow> distinct ks \<Longrightarrow> \<forall>k \<in> set ks. optr (ps' k) = optr (ps k) \<Longrightarrow>
    \<forall>k \<in> set (tl ks). yptr (ps' k) = yptr (ps k) \<Longrightarrow> ks \<noteq> [] \<longrightarrow> yptr (ps' (hd ks)) = y' \<Longrightarrow> sibs ps' y' x ks"
  by (cases ks) (auto simp: sibs_cong [of _ ps' ps])

lemma sibs_first: "sibs ps y x ks \<Longrightarrow> x = (case ks of [] \<Rightarrow> None | k # ks \<Rightarrow> Some k)"
  by (cases ks) auto

lemma sibs_mid: "sibs ps y x (us @ p # vs) \<Longrightarrow>
    yptr (ps p) = (if us = [] then y else Some (last us)) \<and> optr (ps p) = (case vs of [] \<Rightarrow> None | v # vs \<Rightarrow> Some v)"
  by (induction us arbitrary: y x) (auto dest: sibs_first)

lemma sibs_remove:
  "sibs ps y x (us @ p # vs) \<Longrightarrow> distinct (us @ p # vs) \<Longrightarrow>
   \<forall>k \<in> set (butlast us) \<union> set vs. optr (ps' k) = optr (ps k) \<Longrightarrow>
   us \<noteq> [] \<longrightarrow> optr (ps' (last us)) = optr (ps p) \<Longrightarrow>
   \<forall>k \<in> set us \<union> set (tl vs). yptr (ps' k) = yptr (ps k) \<Longrightarrow>
   vs \<noteq> [] \<longrightarrow> yptr (ps' (hd vs)) = yptr (ps p) \<Longrightarrow>
   sibs ps' y (if us = [] then optr (ps p) else x) (us @ vs)"
proof (induction us arbitrary: y x)
  case Nil
  then show ?case by (auto intro: sibs_head)
next
  case (Cons u us)
  show ?case
  proof (cases us)
    case Nil
    with Cons.prems have "sibs ps (Some p) (optr (ps p)) vs" by simp
    then have "sibs ps' (Some u) (optr (ps p)) vs"
      by (rule sibs_head) (use Cons.prems Nil in auto)
    with Nil Cons.prems show ?thesis by simp
  next
    case (Cons w ws)
    with Cons.IH [of "Some u" "optr (ps u)"] Cons.prems show ?thesis by auto
  qed
qed

definition kin :: "proc_struct \<Rightarrow> int \<times> nat option \<times> nat option \<times> nat option \<times> nat option \<times> int \<times> 32 word" where
  "kin q = (pid q, pparent q, cptr q, yptr q, optr q, exit_code q, pflags q)"

lemma kin_eqD: "kin q' = kin q \<Longrightarrow> pid q' = pid q \<and> pparent q' = pparent q \<and> cptr q' = cptr q \<and> yptr q' = yptr q \<and>
    optr q' = optr q \<and> exit_code q' = exit_code q \<and> pflags q' = pflags q"
  by (simp add: kin_def)

lemma wakeup_proc_kin: "wakeup_proc p st = Some st' \<Longrightarrow> kin (procs st' x) = kin (procs st x)"
  by (auto simp: wakeup_proc_def bind_Some_iff Let_def sched_class_enqueue_def stride_enqueue_def kin_def split: if_splits)

lemma schedule_kin: "schedule st = Some st' \<Longrightarrow> kin (procs st' x) = kin (procs st x)"
  by (rule schedule_keeps [of kin]) (simp add: sched_blind_def kin_def)

definition live :: "ptable \<Rightarrow> nat list \<Rightarrow> nat set" where
  "live st ps = insert (idleproc (sd st)) (set ps)"

text \<open>
  \<^verbatim>\<open>fam st ps Y kids\<close>: the children of each live process \<^verbatim>\<open>q\<close> are \<^verbatim>\<open>kids q\<close>, the youngest
  first; \<^verbatim>\<open>Y q\<close> is what \<^verbatim>\<open>yptr\<close> of the youngest holds.
\<close>

definition fam :: "ptable \<Rightarrow> nat list \<Rightarrow> (nat \<Rightarrow> nat option) \<Rightarrow> (nat \<Rightarrow> nat list) \<Rightarrow> bool" where
  "fam st ps Y kids \<longleftrightarrow>
     (\<forall>q \<in> live st ps. sibs (procs (sd st)) (Y q) (cptr (pcb st q)) (kids q)) \<and> (\<forall>q. distinct (kids q)) \<and>
     (\<forall>q k. k \<in> set (kids q) \<longleftrightarrow> k \<in> set ps \<and> pparent (pcb st k) = Some q) \<and>
     (\<forall>k \<in> set ps. \<exists>q \<in> live st ps. q \<noteq> k \<and> pparent (pcb st k) = Some q)"

abbreviation family :: "ptable \<Rightarrow> nat list \<Rightarrow> (nat \<Rightarrow> nat list) \<Rightarrow> bool" where
  "family st ps kids \<equiv> fam st ps (\<lambda>_. None) kids"

lemma fam_cong:
  assumes "fam st ps Y kids" "idleproc (sd st') = idleproc (sd st)"
    "\<forall>p \<in> live st ps. kin (pcb st' p) = kin (pcb st p)"
  shows "fam st' ps Y kids"
proof -
  have l: "live st' ps = live st ps" using assms(2) by (simp add: live_def)
  have k: "p \<in> live st ps \<Longrightarrow> pparent (pcb st' p) = pparent (pcb st p) \<and> cptr (pcb st' p) = cptr (pcb st p) \<and>
      yptr (pcb st' p) = yptr (pcb st p) \<and> optr (pcb st' p) = optr (pcb st p)" for p
    using assms(3) kin_eqD by blast
  have s: "set ps \<subseteq> live st ps" by (auto simp: live_def)
  have "sibs (procs (sd st')) (Y q) (cptr (pcb st' q)) (kids q)" if "q \<in> live st ps" for q
  proof -
    have "set (kids q) \<subseteq> set ps" using assms(1) by (auto simp: fam_def)
    then have "sibs (procs (sd st')) (Y q) (cptr (pcb st q)) (kids q) = sibs (procs (sd st)) (Y q) (cptr (pcb st q)) (kids q)"
      by (intro sibs_cong) (use k s in blast)
    with that assms(1) k show ?thesis by (simp add: fam_def)
  qed
  moreover have "k \<in> set ps \<Longrightarrow> pparent (pcb st' k) = pparent (pcb st k)" for k using k s by blast
  ultimately show ?thesis
    using assms(1) by (auto simp: fam_def l)
qed

lemma famD:
  assumes "fam st ps Y kids"
  shows "q \<in> live st ps \<Longrightarrow> sibs (procs (sd st)) (Y q) (cptr (pcb st q)) (kids q)" "distinct (kids q)"
    "k \<in> set (kids q) \<longleftrightarrow> k \<in> set ps \<and> pparent (pcb st k) = Some q"
    "k \<in> set ps \<Longrightarrow> \<exists>q \<in> live st ps. q \<noteq> k \<and> pparent (pcb st k) = Some q"
  using assms by (auto simp: fam_def)

lemma upd_simps [simp]:
  "sd (upd_pcb p f st) = upd_proc p f (sd st)" "res (upd_pcb p f st) = res st"
  "proc_list (upd_pcb p f st) = proc_list st" "hash_list (upd_pcb p f st) = hash_list st"
  "initproc (upd_pcb p f st) = initproc st" "nr_process (upd_pcb p f st) = nr_process st"
  "next_safe (upd_pcb p f st) = next_safe st" "last_pid (upd_pcb p f st) = last_pid st"
  "mm_refs (upd_pcb p f st) = mm_refs st" "file_refs (upd_pcb p f st) = file_refs st"
  "released (upd_pcb p f st) = released st"
  by (simp_all add: upd_pcb_def on_sd_def)

text \<open>What the links of the family do not touch.\<close>

definition prest :: "proc_struct \<Rightarrow> proc_state \<times> int \<times> 32 word \<times> int \<times> 32 word \<times> bool" where
  "prest q = (pstate q, pid q, pflags q, exit_code q, wait_state q, on_rq q)"

definition relinked :: "ptable \<Rightarrow> ptable \<Rightarrow> bool" where
  "relinked st st' \<longleftrightarrow> (\<forall>x. prest (pcb st' x) = prest (pcb st x)) \<and> sd st' = (sd st)\<lparr>procs := procs (sd st')\<rparr> \<and>
     res st' = res st \<and> hash_list st' = hash_list st \<and> initproc st' = initproc st \<and> next_safe st' = next_safe st \<and>
     last_pid st' = last_pid st \<and> mm_refs st' = mm_refs st \<and> file_refs st' = file_refs st \<and> released st' = released st"

lemma relinkedD:
  assumes "relinked st st'"
  shows "pstate (pcb st' x) = pstate (pcb st x)" "pid (pcb st' x) = pid (pcb st x)" "pflags (pcb st' x) = pflags (pcb st x)"
    "exit_code (pcb st' x) = exit_code (pcb st x)" "wait_state (pcb st' x) = wait_state (pcb st x)"
    "on_rq (pcb st' x) = on_rq (pcb st x)" "idleproc (sd st') = idleproc (sd st)" "current (sd st') = current (sd st)"
    "heap (sd st') = heap (sd st)" "lab6_run_pool (sd st') = lab6_run_pool (sd st)" "proc_num (sd st') = proc_num (sd st)"
    "timers (sd st') = timers (sd st)" "timer_list (sd st') = timer_list (sd st)"
    "hash_list st' = hash_list st" "initproc st' = initproc st" "next_safe st' = next_safe st"
    "last_pid st' = last_pid st" "released st' = released st" "res st' = res st" "mm_refs st' = mm_refs st"
    "file_refs st' = file_refs st"
proof -
  have "prest (pcb st' x) = prest (pcb st x)" "sd st' = (sd st)\<lparr>procs := procs (sd st')\<rparr>"
    using assms by (auto simp: relinked_def)
  then show "pstate (pcb st' x) = pstate (pcb st x)" "pid (pcb st' x) = pid (pcb st x)" "pflags (pcb st' x) = pflags (pcb st x)"
    "exit_code (pcb st' x) = exit_code (pcb st x)" "wait_state (pcb st' x) = wait_state (pcb st x)"
    "on_rq (pcb st' x) = on_rq (pcb st x)" by (simp_all add: prest_def)
  have s: "sd st' = (sd st)\<lparr>procs := procs (sd st')\<rparr>" by fact
  show "idleproc (sd st') = idleproc (sd st)" "current (sd st') = current (sd st)"
    "heap (sd st') = heap (sd st)" "lab6_run_pool (sd st') = lab6_run_pool (sd st)" "proc_num (sd st') = proc_num (sd st)"
    "timers (sd st') = timers (sd st)" "timer_list (sd st') = timer_list (sd st)"
    by (subst s, simp)+
qed (use assms in \<open>simp_all add: relinked_def\<close>)

lemma filter_other: "p \<notin> set xs \<Longrightarrow> filter (\<lambda>q. q \<noteq> p) xs = xs"
  by (rule filter_True) auto

lemma fam_no_kids: "fam st ps Y kids \<Longrightarrow> p \<notin> live st ps \<Longrightarrow> kids p = []"
proof (rule ccontr)
  assume f: "fam st ps Y kids" "p \<notin> live st ps" "kids p \<noteq> []"
  then obtain k where "k \<in> set (kids p)" by (cases "kids p") auto
  with famD(3,4) [OF f(1), of k] f(2) show False by auto
qed

lemma set_links_ok:
  assumes l: "on_list st ps" and f: "family st ps kids" and p: "p \<notin> live st ps" "cptr (pcb st p) = None"
    and c: "pparent (pcb st p) = Some c" "c \<in> live st ps"
  shows "\<exists>st'. set_links p st = Some st' \<and> on_list st' (p # ps) \<and> family st' (p # ps) (kids(c := p # kids c)) \<and>
    relinked st st' \<and> nr_process st' = nr_process st + 1"
proof -
  let ?x = "cptr (pcb st c)"
  have pc: "p \<noteq> c" using p c by auto
  obtain st' where s: "set_links p st = Some st'"
    "procs (sd st') = (\<lambda>q. if q = p then (pcb st p)\<lparr>yptr := None, optr := ?x\<rparr>
       else if q = c then (pcb st c)\<lparr>yptr := (if ?x = Some c then Some p else yptr (pcb st c)), cptr := Some p\<rparr>
       else if ?x = Some q then (pcb st q)\<lparr>yptr := Some p\<rparr> else pcb st q)"
    "proc_list st' = list_add ProcList (ProcLink p) (proc_list st)" "nr_process st' = nr_process st + 1"
    "relinked st st'"
  proof (cases ?x)
    case None
    with c pc that show ?thesis by (simp add: set_links_def Let_def relinked_def prest_def fun_eq_iff)
  next
    case (Some h)
    have "h \<noteq> p"
      using famD(1) [OF f c(2)] famD(3) [OF f, of h c] p(1) Some by (auto simp: live_def dest: sibs_first split: list.splits)
    with c pc that Some show ?thesis by (simp add: set_links_def Let_def relinked_def prest_def fun_eq_iff)
  qed
  have "on_list st' (p # ps)"
    using ring_add_head [of "proc_list st" ProcList "map ProcLink ps" "ProcLink p"] l p(1) s(3)
    by (auto simp: on_list_def live_def)
  moreover have "family st' (p # ps) (kids(c := p # kids c))"
    unfolding fam_def
  proof (intro conjI ballI allI)
    have lv: "live st' (p # ps) = insert p (live st ps)"
      using relinkedD(7) [OF s(5)] by (auto simp: live_def)
    have par: "pparent (pcb st' x) = pparent (pcb st x)" for x by (simp add: s(2))
    have k0: "kids p = []" by (rule fam_no_kids [OF f p(1)])
    have kp: "k \<in> set (kids q) \<Longrightarrow> k \<noteq> p" for k q using famD(3) [OF f, of k q] p(1) by (auto simp: live_def)
    have kc: "\<forall>k \<in> set (kids c). k \<noteq> p" using kp by blast
    {
      fix q assume "q \<in> live st' (p # ps)"
      then consider "q = p" | "q = c" | "q \<in> live st ps" "q \<noteq> p" "q \<noteq> c" using lv by auto
      then show "sibs (procs (sd st')) None (cptr (pcb st' q)) ((kids(c := p # kids c)) q)"
      proof cases
        case 1
        with k0 p(2) pc show ?thesis by (simp add: s(2))
      next
        case 2
        have "sibs (procs (sd st')) (Some p) ?x (kids c)"
        proof (rule sibs_head [OF famD(1,2) [OF f, of c]])
          show "c \<in> live st ps" by (rule c(2))
          show "\<forall>k \<in> set (kids c). optr (pcb st' k) = optr (pcb st k)"
            using kp by (auto simp: s(2))
          show "\<forall>k \<in> set (tl (kids c)). yptr (pcb st' k) = yptr (pcb st k)"
            using kc famD(1,2) [OF f, of c] c(2) by (cases "kids c") (auto simp: s(2))
          show "kids c \<noteq> [] \<longrightarrow> yptr (pcb st' (hd (kids c))) = Some p"
            using kc famD(1) [OF f, of c] c(2) by (cases "kids c") (auto simp: s(2))
        qed
        with 2 pc show ?thesis by (simp add: s(2))
      next
        case 3
        have "sibs (procs (sd st')) None (cptr (pcb st q)) (kids q) = sibs (procs (sd st)) None (cptr (pcb st q)) (kids q)"
        proof (intro sibs_cong ballI)
          fix k assume k: "k \<in> set (kids q)"
          have "k \<notin> set (kids c)"
            using famD(3) [OF f, of k q] famD(3) [OF f, of k c] k 3(3) by simp
          then have "?x \<noteq> Some k"
            using sibs_first [OF famD(1) [OF f c(2)]] by (auto split: list.splits)
          then show "yptr (pcb st' k) = yptr (pcb st k) \<and> optr (pcb st' k) = optr (pcb st k)"
            using kp [OF k] by (auto simp: s(2))
        qed
        with 3 famD(1) [OF f 3(1)] show ?thesis by (simp add: s(2))
      qed
    next
      fix q show "distinct ((kids(c := p # kids c)) q)"
        using famD(2) [OF f] kp by auto
    next
      fix q k show "k \<in> set ((kids(c := p # kids c)) q) \<longleftrightarrow> k \<in> set (p # ps) \<and> pparent (pcb st' k) = Some q"
        using famD(3) [OF f, of k q] c(1) p(1) by (auto simp: par live_def)
    next
      fix k assume "k \<in> set (p # ps)"
      then show "\<exists>q \<in> live st' (p # ps). q \<noteq> k \<and> pparent (pcb st' k) = Some q"
        using famD(4) [OF f, of k] c pc by (auto simp: par lv)
    }
  qed
  ultimately show ?thesis using s by blast
qed


lemma remove_links_ok:
  assumes l: "on_list st ps" and f: "family st ps kids" and p: "p \<in> set ps" "p \<noteq> idleproc (sd st)" "kids p = []"
    and c: "pparent (pcb st p) = Some c"
  shows "\<exists>st'. remove_links p st = Some st' \<and> on_list st' (filter (\<lambda>q. q \<noteq> p) ps) \<and>
    family st' (filter (\<lambda>q. q \<noteq> p) ps) (kids(c := filter (\<lambda>q. q \<noteq> p) (kids c))) \<and>
    relinked st st' \<and> nr_process st' = nr_process st - 1"
proof -
  let ?ps = "filter (\<lambda>q. q \<noteq> p) ps" and ?kids = "kids(c := filter (\<lambda>q. q \<noteq> p) (kids c))"
  have cl: "c \<in> live st ps" using famD(4) [OF f p(1)] c by auto
  have "p \<in> set (kids c)" using famD(3) [OF f, of p c] p(1) c by simp
  then obtain us vs where k: "kids c = us @ p # vs" by (meson split_list)
  have d: "distinct (us @ p # vs)" using famD(2) [OF f, of c] k by simp
  have pc: "p \<noteq> c" using p(3) k by auto
  have sc: "sibs (procs (sd st)) None (cptr (pcb st c)) (us @ p # vs)"
    using famD(1) [OF f cl] k by simp
  note m = sibs_mid [OF sc]
  have cus: "c \<notin> set us \<or> c \<in> set us" by simp
  let ?y = "yptr (pcb st p)" and ?o = "optr (pcb st p)"
  obtain st' where s: "remove_links p st = Some st'"
    "procs (sd st') = (\<lambda>q. (pcb st q)\<lparr>cptr := (if us = [] \<and> q = c then ?o else cptr (pcb st q)),
       yptr := (if ?o = Some q then ?y else yptr (pcb st q)), optr := (if ?y = Some q then ?o else optr (pcb st q))\<rparr>)"
    "proc_list st' = list_del (ProcLink p) (proc_list st)" "nr_process st' = nr_process st - 1" "relinked st st'"
  proof (cases us)
    case Nil
    with m c d pc that show ?thesis
      by (cases vs) (simp_all add: remove_links_def Let_def relinked_def prest_def fun_eq_iff)
  next
    case (Cons u ws)
    with m c d pc that show ?thesis
      by (cases vs) (simp_all add: remove_links_def Let_def relinked_def prest_def fun_eq_iff)
  qed
  have "on_list st' ?ps"
  proof -
    obtain xs ys where x: "ps = xs @ p # ys" using p(1) by (meson split_list)
    have "?ps = xs @ ys" using on_list_distinct [OF l] x by (simp add: filter_other)
    then show ?thesis
      using ring_del [of "proc_list st" ProcList "map ProcLink xs" "ProcLink p" "map ProcLink ys"] l s(3) x
      by (simp add: on_list_def)
  qed
  moreover have "family st' ?ps ?kids"
    unfolding fam_def
  proof (intro conjI ballI allI)
    have lv: "live st' ?ps = live st ps - {p}"
      using relinkedD(7) [OF s(5)] p(2) by (auto simp: live_def)
    have par: "pparent (pcb st' x) = pparent (pcb st x)" for x by (simp add: s(2))
    have fil: "filter (\<lambda>q. q \<noteq> p) (kids c) = us @ vs" using d k by (simp add: filter_other)
    {
      fix q assume "q \<in> live st' ?ps"
      then consider "q = c" | "q \<in> live st ps" "q \<noteq> p" "q \<noteq> c" using lv by auto
      then show "sibs (procs (sd st')) None (cptr (pcb st' q)) (?kids q)"
      proof cases
        case 1
        have "sibs (procs (sd st')) None (if us = [] then ?o else cptr (pcb st c)) (us @ vs)"
        proof (rule sibs_remove [OF sc d])
          show "\<forall>k \<in> set (butlast us) \<union> set vs. optr (pcb st' k) = optr (pcb st k)"
          proof
            fix k assume "k \<in> set (butlast us) \<union> set vs"
            then have "?y \<noteq> Some k"
              using m d by (cases us rule: rev_cases) auto
            then show "optr (pcb st' k) = optr (pcb st k)" by (simp add: s(2))
          qed
          show "us \<noteq> [] \<longrightarrow> optr (pcb st' (last us)) = ?o"
            using m by (simp add: s(2))
          show "\<forall>k \<in> set us \<union> set (tl vs). yptr (pcb st' k) = yptr (pcb st k)"
          proof
            fix k assume "k \<in> set us \<union> set (tl vs)"
            then have "?o \<noteq> Some k" using m d by (cases vs) auto
            then show "yptr (pcb st' k) = yptr (pcb st k)" by (simp add: s(2))
          qed
          show "vs \<noteq> [] \<longrightarrow> yptr (pcb st' (hd vs)) = ?y"
            using m by (cases vs) (simp_all add: s(2))
        qed
        with 1 fil show ?thesis by (simp add: s(2))
      next
        case 2
        have "sibs (procs (sd st')) None (cptr (pcb st q)) (kids q) = sibs (procs (sd st)) None (cptr (pcb st q)) (kids q)"
        proof (intro sibs_cong ballI)
          fix k assume "k \<in> set (kids q)"
          then have "pparent (pcb st k) = Some q" using famD(3) [OF f, of k q] by simp
          then have "k \<notin> set (us @ vs)" using famD(3) [OF f, of k c] k 2 by auto
          then have "?o \<noteq> Some k" "?y \<noteq> Some k" using m by (auto split: list.splits if_splits)
          then show "yptr (pcb st' k) = yptr (pcb st k) \<and> optr (pcb st' k) = optr (pcb st k)"
            by (simp add: s(2))
        qed
        with 2 famD(1) [OF f 2(1)] show ?thesis by (simp add: s(2))
      qed
    next
      fix q show "distinct (?kids q)" using famD(2) [OF f] by simp
    next
      fix q x show "x \<in> set (?kids q) \<longleftrightarrow> x \<in> set ?ps \<and> pparent (pcb st' x) = Some q"
        using famD(3) [OF f, of x q] c by (auto simp: par)
    next
      fix x assume x: "x \<in> set ?ps"
      then obtain q where q: "q \<in> live st ps" "q \<noteq> x" "pparent (pcb st x) = Some q" using famD(4) [OF f, of x] by auto
      have "q \<noteq> p" using famD(3) [OF f, of x p] p(3) x q by auto
      with q show "\<exists>q \<in> live st' ?ps. q \<noteq> x \<and> pparent (pcb st' x) = Some q" by (auto simp: par lv)
    }
  qed
  ultimately show ?thesis using s by blast
qed

section \<open>The scheduler below the process table\<close>

definition runs_ok :: "ptable \<Rightarrow> nat list \<Rightarrow> bool" where
  "runs_ok st ps \<longleftrightarrow> queue_inv (sd st) \<and> pstate (pcb st (idleproc (sd st))) = PROC_RUNNABLE \<and>
     (\<forall>p. p \<notin> live st ps \<longrightarrow> pstate (pcb st p) \<noteq> PROC_RUNNABLE) \<and>
     (\<forall>p \<in> live st ps. wait_state (pcb st p) \<noteq> 0 \<longrightarrow> pstate (pcb st p) = PROC_SLEEPING) \<and> length ps < 2 ^ 31"

lemma runs_ok_room:
  assumes "runs_ok st ps"
  shows "card (waiting_runnable (sd st)) < 2 ^ 31"
proof -
  have "waiting_runnable (sd st) \<subseteq> set ps"
    using assms by (fastforce simp: waiting_runnable_def runs_ok_def live_def)
  then have "card (waiting_runnable (sd st)) \<le> length ps"
    using card_mono [of "set ps"] card_length [of ps] by (meson List.finite_set le_trans)
  with assms show ?thesis by (simp add: runs_ok_def)
qed

text \<open>Only the scheduler's part of the state changes, and of no descriptor a field of the family.\<close>

definition only_sched :: "ptable \<Rightarrow> ptable \<Rightarrow> bool" where
  "only_sched st st' \<longleftrightarrow> st' = st\<lparr>sd := sd st'\<rparr> \<and> (\<forall>p. kin (pcb st' p) = kin (pcb st p)) \<and>
     idleproc (sd st') = idleproc (sd st)"

lemma only_schedD:
  assumes "only_sched st st'"
  shows "proc_list st' = proc_list st" "hash_list st' = hash_list st" "initproc st' = initproc st"
    "nr_process st' = nr_process st" "next_safe st' = next_safe st" "last_pid st' = last_pid st"
    "released st' = released st" "res st' = res st" "mm_refs st' = mm_refs st" "file_refs st' = file_refs st"
    "idleproc (sd st') = idleproc (sd st)" "kin (pcb st' p) = kin (pcb st p)" "live st' ps = live st ps"
proof -
  have s: "st' = st\<lparr>sd := sd st'\<rparr>" using assms by (simp add: only_sched_def)
  show "proc_list st' = proc_list st" "hash_list st' = hash_list st" "initproc st' = initproc st"
    "nr_process st' = nr_process st" "next_safe st' = next_safe st" "last_pid st' = last_pid st"
    "released st' = released st" "res st' = res st" "mm_refs st' = mm_refs st" "file_refs st' = file_refs st"
    by (subst s, simp)+
  show "idleproc (sd st') = idleproc (sd st)" "kin (pcb st' p) = kin (pcb st p)" "live st' ps = live st ps"
    using assms by (auto simp: only_sched_def live_def)
qed

lemma only_sched_trans: "only_sched st st' \<Longrightarrow> only_sched st' st'' \<Longrightarrow> only_sched st st''"
  unfolding only_sched_def by (cases st, cases st', cases st'') simp

lemma wake_ok:
  assumes r: "runs_ok st ps" and p: "p \<in> live st ps" "pstate (pcb st p) \<noteq> PROC_ZOMBIE"
  shows "\<exists>st'. on_sched (wakeup_proc p) st = Some st' \<and> runs_ok st' ps \<and> only_sched st st' \<and>
    current (sd st') = current (sd st) \<and> pstate (pcb st' p) = PROC_RUNNABLE \<and>
    wait_state (pcb st' p) = 0 \<and>
    (\<forall>x. x \<noteq> p \<longrightarrow> pstate (pcb st' x) = pstate (pcb st x) \<and> wait_state (pcb st' x) = wait_state (pcb st x))"
proof -
  have q: "queue_inv (sd st)" using r by (simp add: runs_ok_def)
  obtain s where s: "wakeup_proc p (sd st) = Some s" "queue_inv s" "pstate (procs s p) = PROC_RUNNABLE"
    "\<forall>x. x \<noteq> p \<longrightarrow> pstate (procs s x) = pstate (pcb st x) \<and> wait_state (procs s x) = wait_state (pcb st x)"
    "pstate (pcb st p) \<noteq> PROC_RUNNABLE \<longrightarrow> wait_state (procs s p) = 0"
    "pstate (pcb st p) = PROC_RUNNABLE \<longrightarrow> s = sd st" "current s = current (sd st)"
    using wakeup_proc_inv [OF q p(2) runs_ok_room [OF r]] by blast
  have i: "idleproc s = idleproc (sd st)"
    using s(1) by (auto simp: wakeup_proc_def bind_Some_iff Let_def sched_class_enqueue_def stride_enqueue_def split: if_splits)
  have w: "wait_state (procs s p) = 0"
    using s(5,6) r p by (cases "pstate (pcb st p) = PROC_RUNNABLE") (auto simp: runs_ok_def)
  have "runs_ok (st\<lparr>sd := s\<rparr>) ps"
    unfolding runs_ok_def live_def
  proof (intro conjI allI ballI impI)
    show "queue_inv (sd (st\<lparr>sd := s\<rparr>))" using s(2) by simp
    show "pstate (pcb (st\<lparr>sd := s\<rparr>) (idleproc (sd (st\<lparr>sd := s\<rparr>)))) = PROC_RUNNABLE"
      using s(3,4) r by (cases "idleproc (sd st) = p") (simp_all add: i runs_ok_def)
    fix x
    show "pstate (pcb (st\<lparr>sd := s\<rparr>) x) \<noteq> PROC_RUNNABLE" if "x \<notin> insert (idleproc (sd (st\<lparr>sd := s\<rparr>))) (set ps)"
    proof -
      have "x \<noteq> p" using that p(1) by (auto simp: i live_def)
      with that s(4) r show ?thesis by (simp add: i runs_ok_def live_def)
    qed
    show "pstate (pcb (st\<lparr>sd := s\<rparr>) x) = PROC_SLEEPING"
      if "x \<in> insert (idleproc (sd (st\<lparr>sd := s\<rparr>))) (set ps)" "wait_state (pcb (st\<lparr>sd := s\<rparr>) x) \<noteq> 0"
      using that w s(4) r by (cases "x = p") (auto simp: i runs_ok_def live_def)
    show "length ps < 2 ^ 31" using r by (simp add: runs_ok_def)
  qed
  moreover have "only_sched st (st\<lparr>sd := s\<rparr>)"
    using wakeup_proc_kin [OF s(1)] i by (simp add: only_sched_def)
  ultimately show ?thesis
    using s w by (intro exI [of _ "st\<lparr>sd := s\<rparr>"]) (simp add: on_sched_def)
qed

lemma sched_ok:
  assumes r: "runs_ok st ps" and c: "current (sd st) = Some c"
  shows "\<exists>st' n. on_sched schedule st = Some st' \<and> runs_ok st' ps \<and> only_sched st st' \<and>
    current (sd st') = Some n \<and> n \<in> live st ps \<and> pstate (pcb st' n) = PROC_RUNNABLE \<and>
    (\<forall>x. pstate (pcb st' x) = pstate (pcb st x) \<and> wait_state (pcb st' x) = wait_state (pcb st x))"
proof -
  have q: "queue_inv (sd st)" using r by (simp add: runs_ok_def)
  obtain s n where s: "schedule (sd st) = Some s" "queue_inv s" "current s = Some n"
    "if waiting_runnable (sd st) = {} \<and> (pstate (procs (sd st) c) \<noteq> PROC_RUNNABLE \<or> c = idleproc (sd st))
     then n = idleproc (sd st) else pstate (procs (sd st) n) = PROC_RUNNABLE \<and> n \<noteq> idleproc (sd st)"
    "\<forall>p. pstate (procs s p) = pstate (pcb st p)" "idleproc s = idleproc (sd st)"
    using schedule_inv [OF q c runs_ok_room [OF r]] by blast
  have w: "wait_state (procs s x) = wait_state (pcb st x)" for x
    by (rule schedule_wait_state [OF s(1)])
  have n: "pstate (pcb st n) = PROC_RUNNABLE"
    using s(4) r by (auto simp: runs_ok_def split: if_splits)
  then have "n \<in> live st ps" using r by (auto simp: runs_ok_def)
  moreover have "runs_ok (st\<lparr>sd := s\<rparr>) ps"
    using r s(2,5,6) w by (auto simp: runs_ok_def live_def)
  moreover have "only_sched st (st\<lparr>sd := s\<rparr>)"
    using schedule_kin [OF s(1)] s(6) by (simp add: only_sched_def)
  ultimately show ?thesis
    using s w n by (intro exI [of _ "st\<lparr>sd := s\<rparr>"] exI [of _ n]) (simp add: on_sched_def)
qed

end
