(* ===== verification/ProcLife.thy ===== *)
theory ProcLife
  imports ProcTable
begin

text \<open>
  Fork, exit, wait and kill keep the process table sound: one lemma per call with its
  outcomes and the invariant after each.
\<close>

section \<open>Exit\<close>

text \<open>The process list, the hash table and what identifies a process stay.\<close>

definition same_table :: "ptable \<Rightarrow> ptable \<Rightarrow> bool" where
  "same_table st st' \<longleftrightarrow> proc_list st' = proc_list st \<and> hash_list st' = hash_list st \<and> initproc st' = initproc st \<and>
     nr_process st' = nr_process st \<and> next_safe st' = next_safe st \<and> last_pid st' = last_pid st \<and>
     idleproc (sd st') = idleproc (sd st) \<and>
     (\<forall>x. pid (pcb st' x) = pid (pcb st x) \<and> exit_code (pcb st' x) = exit_code (pcb st x) \<and> pflags (pcb st' x) = pflags (pcb st x))"

lemma same_table_refl [simp]: "same_table st st"
  by (simp add: same_table_def)

lemma same_table_trans: "same_table st st' \<Longrightarrow> same_table st' st'' \<Longrightarrow> same_table st st''"
  by (simp add: same_table_def)

lemma only_sched_same: "only_sched st st' \<Longrightarrow> same_table st st'"
proof -
  assume o: "only_sched st st'"
  from kin_eqD [OF only_schedD(12) [OF o]] only_schedD [OF o] show ?thesis
    by (simp add: same_table_def)
qed

definition tab_ok :: "ptable \<Rightarrow> nat list \<Rightarrow> bool" where
  "tab_ok st ps \<longleftrightarrow> on_list st ps \<and> pids_ok st ps \<and> hashed st ps \<and> idleproc (sd st) \<notin> set ps \<and>
     nr_process st = int (length ps) + 1 \<and> nr_process st \<le> MAX_PROCESS"

lemma tab_ok_same: "tab_ok st ps \<Longrightarrow> same_table st st' \<Longrightarrow> tab_ok st' ps"
  using hashed_cong [of st ps st' ps] by (simp add: tab_ok_def same_table_def on_list_def pids_ok_def)

lemma fam_only_sched: "fam st ps Y kids \<Longrightarrow> only_sched st st' \<Longrightarrow> fam st' ps Y kids"
  by (erule fam_cong) (auto dest: only_schedD)

text \<open>One child moves from \<^verbatim>\<open>c\<close> to the process \<^verbatim>\<open>i\<close>.\<close>

lemma fam_move:
  assumes f: "fam st ps (\<lambda>q. if q = c then y else None) kids" and ks: "kids c = k # ks"
    and c: "c \<in> live st ps" and i: "i \<in> live st ps" "c \<noteq> i" "i \<notin> set (kids c)"
    and st': "procs (sd st') = (\<lambda>q. (pcb st q)\<lparr>
        cptr := (if q = c then optr (pcb st k) else if q = i then Some k else cptr (pcb st q)),
        yptr := (if q = k then None else if cptr (pcb st i) = Some q then Some k else yptr (pcb st q)),
        optr := (if q = k then cptr (pcb st i) else optr (pcb st q)),
        pparent := (if q = k then Some i else pparent (pcb st q))\<rparr>)"
    and idle: "idleproc (sd st') = idleproc (sd st)"
  shows "fam st' ps (\<lambda>q. if q = c then Some k else None) (kids(c := ks, i := k # kids i))"
  unfolding fam_def
proof (intro conjI ballI allI)
  note kk = famD(3) [OF f]
  have lv: "live st' ps = live st ps" using idle by (simp add: live_def)
  have dk: "distinct (k # ks)" using famD(2) [OF f, of c] ks by simp
  have pk: "pparent (pcb st k) = Some c" "k \<in> set ps" using kk [of k c] ks by auto
  have ki: "k \<noteq> i" "k \<noteq> c" using i(3) ks famD(4) [OF f pk(2)] pk(1) by auto
  have kn: "k \<notin> set (kids q)" if "q \<noteq> c" for q using kk [of k q] pk that by simp
  have hi: "cptr (pcb st i) = Some q \<longleftrightarrow> kids i \<noteq> [] \<and> q = hd (kids i)" for q
    using sibs_first [OF famD(1) [OF f i(1)]] by (auto split: list.splits)
  have apart: "x \<notin> set (kids q')" if "x \<in> set (kids q)" "q \<noteq> q'" for x q q'
    using kk [of x q] kk [of x q'] that by simp
  {
    fix q assume "q \<in> live st' ps"
    then have q: "q \<in> live st ps" using lv by simp
    consider "q = c" | "q = i" | "q \<noteq> c" "q \<noteq> i" by auto
    then show "sibs (procs (sd st')) (if q = c then Some k else None) (cptr (pcb st' q)) ((kids(c := ks, i := k # kids i)) q)"
    proof cases
      case 1
      have "sibs (procs (sd st)) (Some k) (optr (pcb st k)) ks"
        using famD(1) [OF f c] ks by simp
      moreover have "sibs (procs (sd st')) (Some k) (optr (pcb st k)) ks = sibs (procs (sd st)) (Some k) (optr (pcb st k)) ks"
      proof (intro sibs_cong ballI)
        fix x assume x: "x \<in> set ks"
        then have "x \<noteq> k" "x \<notin> set (kids i)" using dk apart [of x c i] ks i(2) by auto
        then show "yptr (pcb st' x) = yptr (pcb st x) \<and> optr (pcb st' x) = optr (pcb st x)"
          using hi by (cases "kids i") (auto simp: st')
      qed
      ultimately show ?thesis using 1 i(2) by (simp add: st')
    next
      case 2
      have "sibs (procs (sd st')) (Some k) (cptr (pcb st i)) (kids i)"
      proof (rule sibs_head [OF famD(1) [OF f i(1)] famD(2) [OF f]])
        show "\<forall>x \<in> set (kids i). optr (pcb st' x) = optr (pcb st x)"
          using kn [of i] i(2) by (auto simp: st')
        show "\<forall>x \<in> set (tl (kids i)). yptr (pcb st' x) = yptr (pcb st x)"
          using kn [of i] i(2) hi famD(2) [OF f, of i] by (cases "kids i") (auto simp: st')
        show "kids i \<noteq> [] \<longrightarrow> yptr (pcb st' (hd (kids i))) = Some k"
          using kn [of i] i(2) hi by (cases "kids i") (auto simp: st')
      qed
      with 2 i(2) ki show ?thesis by (simp add: st')
    next
      case 3
      have "sibs (procs (sd st')) None (cptr (pcb st q)) (kids q) = sibs (procs (sd st)) None (cptr (pcb st q)) (kids q)"
      proof (intro sibs_cong ballI)
        fix x assume x: "x \<in> set (kids q)"
        then have "x \<noteq> k" "x \<notin> set (kids i)" using kn [of q] apart [of x q i] 3 by auto
        then show "yptr (pcb st' x) = yptr (pcb st x) \<and> optr (pcb st' x) = optr (pcb st x)"
          using hi by (cases "kids i") (auto simp: st')
      qed
      with 3 famD(1) [OF f q] show ?thesis by (simp add: st')
    qed
  next
    fix q show "distinct ((kids(c := ks, i := k # kids i)) q)"
      using famD(2) [OF f] dk kn [of i] i(2) by auto
  next
    fix q x show "x \<in> set ((kids(c := ks, i := k # kids i)) q) \<longleftrightarrow> x \<in> set ps \<and> pparent (pcb st' x) = Some q"
      using kk [of x q] kk [of x c] pk ks dk i(2) by (auto simp: st')
  next
    fix x assume "x \<in> set ps"
    then show "\<exists>q \<in> live st' ps. q \<noteq> x \<and> pparent (pcb st' x) = Some q"
      using famD(4) [OF f, of x] i(1) ki by (auto simp: st' lv)
  }
qed

lemma adopt_child_eq:
  assumes "c \<noteq> initproc st" "k \<noteq> initproc st" "k \<noteq> c" "cptr (pcb st (initproc st)) \<noteq> Some k"
  shows "procs (sd (adopt_child c k st)) = (\<lambda>q. (pcb st q)\<lparr>
        cptr := (if q = c then optr (pcb st k) else if q = initproc st then Some k else cptr (pcb st q)),
        yptr := (if q = k then None else if cptr (pcb st (initproc st)) = Some q then Some k else yptr (pcb st q)),
        optr := (if q = k then cptr (pcb st (initproc st)) else optr (pcb st q)),
        pparent := (if q = k then Some (initproc st) else pparent (pcb st q))\<rparr>)"
    and "relinked st (adopt_child c k st)" "proc_list (adopt_child c k st) = proc_list st"
    "nr_process (adopt_child c k st) = nr_process st"
proof -
  let ?i = "initproc st"
  show "procs (sd (adopt_child c k st)) = (\<lambda>q. (pcb st q)\<lparr>
        cptr := (if q = c then optr (pcb st k) else if q = ?i then Some k else cptr (pcb st q)),
        yptr := (if q = k then None else if cptr (pcb st ?i) = Some q then Some k else yptr (pcb st q)),
        optr := (if q = k then cptr (pcb st ?i) else optr (pcb st q)),
        pparent := (if q = k then Some ?i else pparent (pcb st q))\<rparr>)" (is "?l = ?r")
  proof
    fix q
    show "?l q = ?r q"
    proof (cases "cptr (pcb st ?i)")
      case None
      with assms show ?thesis by (auto simp: adopt_child_def Let_def)
    next
      case (Some h)
      with assms show ?thesis
        by (cases "q = h"; cases "q = c"; cases "q = k"; cases "q = ?i") (simp_all add: adopt_child_def Let_def)
    qed
  qed
  show "proc_list (adopt_child c k st) = proc_list st" "nr_process (adopt_child c k st) = nr_process st"
    by (simp_all add: adopt_child_def Let_def split: option.splits)
  show "relinked st (adopt_child c k st)"
    by (cases "cptr (pcb st ?i)"; cases "?i = c")
      (simp_all add: relinked_def prest_def adopt_child_def Let_def split: option.splits)
qed

lemma relinked_same:
  "relinked st st' \<Longrightarrow> proc_list st' = proc_list st \<Longrightarrow> nr_process st' = nr_process st \<Longrightarrow> same_table st st'"
  by (simp add: same_table_def relinkedD)

lemma queue_inv_cong:
  assumes "queue_inv s" "\<forall>p. pstate (procs s' p) = pstate (procs s p) \<and> on_rq (procs s' p) = on_rq (procs s p)"
    "current s' = current s" "idleproc s' = idleproc s" "heap s' = heap s" "lab6_run_pool s' = lab6_run_pool s"
    "proc_num s' = proc_num s"
  shows "queue_inv s'"
proof -
  have "waiting_runnable s' = waiting_runnable s" using assms by (simp add: waiting_runnable_def)
  moreover have "ready_set s' (waiting_runnable s)"
    by (rule ready_set_cong [OF assms(1) [unfolded queue_inv_def]]) (use assms in auto)
  ultimately show ?thesis by (simp add: queue_inv_def)
qed

lemma runs_ok_relinked:
  assumes "runs_ok st ps" "relinked st st'"
  shows "runs_ok st' ps"
proof -
  have "queue_inv (sd st')"
    by (rule queue_inv_cong [of "sd st"]) (use assms in \<open>simp_all add: relinkedD runs_ok_def\<close>)
  with assms show ?thesis by (auto simp: runs_ok_def live_def relinkedD)
qed

text \<open>The children move to the front of those of \<^verbatim>\<open>initproc\<close>, which is woken for a zombie among them.\<close>

lemma adopt_loop_ok:
  assumes "runs_ok st ps" "fam st ps (\<lambda>q. if q = c then y else None) kids"
    "c \<in> live st ps" "initproc st \<in> live st ps" "c \<noteq> initproc st" "initproc st \<notin> set (kids c)" "kids c = ks"
  shows "\<exists>st'. adopt_loop c st = Some st' \<and> runs_ok st' ps \<and>
    family st' ps (kids(c := [], initproc st := rev ks @ kids (initproc st))) \<and> same_table st st' \<and>
    current (sd st') = current (sd st) \<and> res st' = res st \<and> released st' = released st \<and>
    mm_refs st' = mm_refs st \<and> file_refs st' = file_refs st \<and>
    (\<forall>x. x \<noteq> initproc st \<longrightarrow> pstate (pcb st' x) = pstate (pcb st x) \<and> wait_state (pcb st' x) = wait_state (pcb st x)) \<and>
    (if wait_state (pcb st (initproc st)) = WT_CHILD \<and> (\<exists>k \<in> set ks. pstate (pcb st k) = PROC_ZOMBIE)
     then pstate (pcb st' (initproc st)) = PROC_RUNNABLE
     else pstate (pcb st' (initproc st)) = pstate (pcb st (initproc st)) \<and>
       wait_state (pcb st' (initproc st)) = wait_state (pcb st (initproc st)))"
  using assms
proof (induction ks arbitrary: st y kids)
  case Nil
  let ?i = "initproc st"
  have "cptr (pcb st c) = None"
    using famD(1) [OF Nil.prems(2,3)] Nil.prems(7) by simp
  moreover have "family st ps (kids(c := [], ?i := rev [] @ kids ?i))"
  proof -
    have e: "kids(c := [], ?i := rev [] @ kids ?i) = kids" using Nil.prems(5,7) by (auto simp: fun_eq_iff)
    have "sibs (procs (sd st)) None (cptr (pcb st q)) (kids q)" if "q \<in> live st ps" for q
      using famD(1) [OF Nil.prems(2) that] Nil.prems(7) by (cases "q = c") simp_all
    then show ?thesis
      unfolding e using Nil.prems(2) by (simp add: fam_def)
  qed
  ultimately show ?case
    using Nil.prems by (intro exI [of _ st], subst adopt_loop.simps) simp
next
  case (Cons k ks)
  let ?i = "initproc st"
  note f = Cons.prems(2)
  have ck: "cptr (pcb st c) = Some k"
    using famD(1) [OF f Cons.prems(3)] Cons.prems(7) by simp
  have kp: "k \<in> set ps" "pparent (pcb st k) = Some c"
    using famD(3) [OF f, of k c] Cons.prems(7) by auto
  have kc: "k \<noteq> c" using famD(4) [OF f kp(1)] kp(2) by auto
  have ki: "k \<noteq> ?i" using Cons.prems(6,7) by auto
  have hd: "cptr (pcb st ?i) \<noteq> Some k"
    using sibs_first [OF famD(1) [OF f Cons.prems(4)]] famD(3) [OF f, of k ?i] kp(2) Cons.prems(5)
    by (auto split: list.splits)
  let ?st1 = "adopt_child c k st"
  note a = adopt_child_eq [OF Cons.prems(5) ki kc hd]
  note R = relinkedD [OF a(2)]
  let ?kids = "kids(c := ks, ?i := k # kids ?i)"
  have f1: "fam ?st1 ps (\<lambda>q. if q = c then Some k else None) ?kids"
    by (rule fam_move [OF f Cons.prems(7,3,4,5,6) a(1) R(7)])
  have r1: "runs_ok ?st1 ps" by (rule runs_ok_relinked [OF Cons.prems(1) a(2)])
  have s1: "same_table st ?st1" by (rule relinked_same [OF a(2,3,4)])
  have lv1: "live ?st1 ps = live st ps" by (simp add: live_def R)
  let ?w = "pstate (pcb st k) = PROC_ZOMBIE \<and> wait_state (pcb st ?i) = WT_CHILD"
  have sl: "wait_state (pcb st ?i) = WT_CHILD \<Longrightarrow> pstate (pcb st ?i) = PROC_SLEEPING"
    using Cons.prems(1,4) by (simp add: runs_ok_def)
  obtain st2 where s2: "(if ?w then on_sched (wakeup_proc ?i) ?st1 else Some ?st1) = Some st2" "runs_ok st2 ps"
    "only_sched ?st1 st2" "current (sd st2) = current (sd st)"
    "\<forall>x. x \<noteq> ?i \<longrightarrow> pstate (pcb st2 x) = pstate (pcb st x) \<and> wait_state (pcb st2 x) = wait_state (pcb st x)"
    "if ?w then pstate (pcb st2 ?i) = PROC_RUNNABLE \<and> wait_state (pcb st2 ?i) = 0
     else pstate (pcb st2 ?i) = pstate (pcb st ?i) \<and> wait_state (pcb st2 ?i) = wait_state (pcb st ?i)"
  proof (cases ?w)
    case True
    have "?i \<in> live ?st1 ps" "pstate (pcb ?st1 ?i) \<noteq> PROC_ZOMBIE"
      using Cons.prems(4) sl True by (simp_all add: lv1 R)
    from wake_ok [OF r1 this] True show ?thesis by (elim exE conjE) (rule that, simp_all add: R)
  next
    case False
    with r1 show ?thesis by (intro that [of ?st1]) (auto simp: R only_sched_def)
  qed
  note O = only_schedD [OF s2(3)]
  have i2: "initproc st2 = ?i" by (simp add: O R)
  have lv2: "live st2 ps = live st ps" by (simp add: O lv1)
  have step: "adopt_loop c st = adopt_loop c st2"
    using ck s2(1) by (subst adopt_loop.simps) (simp add: Let_def R)
  have f2: "fam st2 ps (\<lambda>q. if q = c then Some k else None) ?kids"
    by (rule fam_only_sched [OF f1 s2(3)])
  have dk: "k \<notin> set ks" using famD(2) [OF f, of c] Cons.prems(7) by simp
  have q: "?i \<notin> set (?kids c)" "?kids c = ks" using Cons.prems(5,6,7) by auto
  from Cons.IH [OF s2(2) f2, unfolded i2 lv2, OF Cons.prems(3,4,5) q] obtain st' where st':
    "adopt_loop c st2 = Some st'" "runs_ok st' ps"
    "family st' ps (?kids(c := [], ?i := rev ks @ ?kids ?i))" "same_table st2 st'"
    "current (sd st') = current (sd st2)" "res st' = res st2" "released st' = released st2"
    "mm_refs st' = mm_refs st2" "file_refs st' = file_refs st2"
    "\<forall>x. x \<noteq> ?i \<longrightarrow> pstate (pcb st' x) = pstate (pcb st2 x) \<and> wait_state (pcb st' x) = wait_state (pcb st2 x)"
    "if wait_state (pcb st2 ?i) = WT_CHILD \<and> (\<exists>k \<in> set ks. pstate (pcb st2 k) = PROC_ZOMBIE)
     then pstate (pcb st' ?i) = PROC_RUNNABLE
     else pstate (pcb st' ?i) = pstate (pcb st2 ?i) \<and> wait_state (pcb st' ?i) = wait_state (pcb st2 ?i)"
    by (elim exE conjE) (rule that)
  have ks: "?kids(c := [], ?i := rev ks @ ?kids ?i) = kids(c := [], ?i := rev (k # ks) @ kids ?i)"
    using Cons.prems(5) by (auto simp: fun_eq_iff)
  have same: "same_table st st'"
    using same_table_trans [OF s1 same_table_trans [OF only_sched_same [OF s2(3)] st'(4)]] .
  have zk: "(\<exists>k \<in> set ks. pstate (pcb st2 k) = PROC_ZOMBIE) \<longleftrightarrow> (\<exists>k \<in> set ks. pstate (pcb st k) = PROC_ZOMBIE)"
  proof (rule bex_cong [OF refl])
    fix x assume "x \<in> set ks"
    then have "x \<noteq> ?i" using Cons.prems(6,7) by auto
    with s2(5) show "pstate (pcb st2 x) = PROC_ZOMBIE \<longleftrightarrow> pstate (pcb st x) = PROC_ZOMBIE" by simp
  qed
  have frame: "current (sd st') = current (sd st)" "res st' = res st" "released st' = released st"
    "mm_refs st' = mm_refs st" "file_refs st' = file_refs st"
    using st'(5-9) s2(4) by (simp_all add: O R)
  have others: "\<forall>x. x \<noteq> ?i \<longrightarrow> pstate (pcb st' x) = pstate (pcb st x) \<and> wait_state (pcb st' x) = wait_state (pcb st x)"
    using st'(10) s2(5) by simp
  have init: "if wait_state (pcb st ?i) = WT_CHILD \<and> (\<exists>k \<in> set (k # ks). pstate (pcb st k) = PROC_ZOMBIE)
     then pstate (pcb st' ?i) = PROC_RUNNABLE
     else pstate (pcb st' ?i) = pstate (pcb st ?i) \<and> wait_state (pcb st' ?i) = wait_state (pcb st ?i)"
  proof (cases ?w)
    case True
    with s2(6) have "pstate (pcb st2 ?i) = PROC_RUNNABLE" "wait_state (pcb st2 ?i) = 0" by simp_all
    with st'(11) True show ?thesis by simp
  next
    case False
    with s2(6) have e: "pstate (pcb st2 ?i) = pstate (pcb st ?i)" "wait_state (pcb st2 ?i) = wait_state (pcb st ?i)"
      by (simp_all split: if_splits)
    have "wait_state (pcb st ?i) = WT_CHILD \<and> (\<exists>k \<in> set (k # ks). pstate (pcb st k) = PROC_ZOMBIE) \<longleftrightarrow>
        wait_state (pcb st ?i) = WT_CHILD \<and> (\<exists>k \<in> set ks. pstate (pcb st2 k) = PROC_ZOMBIE)"
      using False zk by auto
    with st'(11) e show ?thesis by (simp only:)
  qed
  show ?case
    using st'(1-3) same frame others init step unfolding ks
    by (intro exI [of _ st'] conjI) (simp_all only:)
qed

definition proc_inv :: "ptable \<Rightarrow> nat list \<Rightarrow> (nat \<Rightarrow> nat list) \<Rightarrow> bool" where
  "proc_inv st ps kids \<longleftrightarrow> tab_ok st ps \<and> family st ps kids \<and> runs_ok st ps \<and>
     (\<exists>c \<in> live st ps. current (sd st) = Some c \<and> pstate (pcb st c) = PROC_RUNNABLE)"

text \<open>After the boot, \<^verbatim>\<open>initproc\<close> is a child of the idle process.\<close>

definition booted :: "ptable \<Rightarrow> nat list \<Rightarrow> bool" where
  "booted st ps \<longleftrightarrow> initproc st \<in> set ps \<and> pparent (pcb st (initproc st)) = Some (idleproc (sd st))"

text \<open>The running process may leave the runnable state, as it is not on the ready queue.\<close>

lemma park_ok:
  assumes r: "runs_ok st ps" and c: "current (sd st) = Some c" "c \<noteq> idleproc (sd st)"
    and f: "pstate (f (pcb st c)) \<noteq> PROC_RUNNABLE" "on_rq (f (pcb st c)) = on_rq (pcb st c)"
      "wait_state (f (pcb st c)) \<noteq> 0 \<longrightarrow> pstate (f (pcb st c)) = PROC_SLEEPING"
  shows "runs_ok (upd_pcb c f st) ps"
proof -
  let ?s = "upd_proc c f (sd st)"
  have w: "waiting_runnable ?s = waiting_runnable (sd st)"
    using c by (auto simp: waiting_runnable_def)
  have "ready_set ?s (waiting_runnable (sd st))"
    by (rule ready_set_cong [of "sd st"]) (use r f(2) in \<open>auto simp: runs_ok_def queue_inv_def\<close>)
  then have "queue_inv ?s" by (simp add: queue_inv_def w)
  with r c f show ?thesis by (auto simp: runs_ok_def live_def)
qed

lemma exit_mm_frame [simp]:
  "sd (exit_mm c st) = sd st" "proc_list (exit_mm c st) = proc_list st" "hash_list (exit_mm c st) = hash_list st"
  "initproc (exit_mm c st) = initproc st" "nr_process (exit_mm c st) = nr_process st"
  "next_safe (exit_mm c st) = next_safe st" "last_pid (exit_mm c st) = last_pid st" "file_refs (exit_mm c st) = file_refs st"
  by (simp_all add: exit_mm_def upd_res_def destroy_mm_def release_def Let_def split: option.splits)

lemma tab_ok_cong: "tab_ok st ps \<Longrightarrow> proc_list st' = proc_list st \<Longrightarrow> hash_list st' = hash_list st \<Longrightarrow>
    nr_process st' = nr_process st \<Longrightarrow> next_safe st' = next_safe st \<Longrightarrow> last_pid st' = last_pid st \<Longrightarrow>
    idleproc (sd st') = idleproc (sd st) \<Longrightarrow> (\<forall>x. pid (pcb st' x) = pid (pcb st x)) \<Longrightarrow> tab_ok st' ps"
  using hashed_cong [of st ps st' ps] by (simp add: tab_ok_def on_list_def pids_ok_def)

lemma fam_pcb_cong: "fam st ps Y kids \<Longrightarrow> idleproc (sd st') = idleproc (sd st) \<Longrightarrow>
    (\<forall>x. pparent (pcb st' x) = pparent (pcb st x) \<and> cptr (pcb st' x) = cptr (pcb st x) \<and>
      yptr (pcb st' x) = yptr (pcb st x) \<and> optr (pcb st' x) = optr (pcb st x)) \<Longrightarrow> fam st' ps Y kids"
  using sibs_cong [of _ "procs (sd st')" "procs (sd st)"] by (auto simp: fam_def live_def)

lemma do_exit_ok:
  assumes inv: "proc_inv st ps kids" and b: "booted st ps" and c: "current (sd st) = Some c"
    "c \<noteq> idleproc (sd st)" "c \<noteq> initproc st"
  shows "\<exists>st'. do_exit code st = Some st' \<and> booted st' ps \<and> initproc st' = initproc st \<and>
    proc_inv st' ps (kids(c := [], initproc st := rev (kids c) @ kids (initproc st))) \<and>
    (\<forall>x. pstate (pcb st' x) = (if x = c then PROC_ZOMBIE
      else if wait_state (pcb st x) = WT_CHILD \<and> (pparent (pcb st c) = Some x \<or>
        x = initproc st \<and> (\<exists>k \<in> set (kids c). pstate (pcb st k) = PROC_ZOMBIE)) then PROC_RUNNABLE
      else pstate (pcb st x))) \<and>
    (\<forall>x. exit_code (pcb st' x) = (if x = c then code else exit_code (pcb st x))) \<and>
    file_refs st' = file_refs st \<and> released st' = released (exit_mm c st)"
proof -
  let ?i = "initproc st" and ?idle = "idleproc (sd st)"
  have r: "runs_ok st ps" and f: "family st ps kids" and t: "tab_ok st ps"
    and cl: "c \<in> live st ps" "pstate (pcb st c) = PROC_RUNNABLE"
    using inv c(1) by (auto simp: proc_inv_def)
  have cp: "c \<in> set ps" using cl c(2) by (simp add: live_def)
  obtain q where q: "q \<in> live st ps" "q \<noteq> c" "pparent (pcb st c) = Some q"
    using famD(4) [OF f cp] by auto
  have w0: "wait_state (pcb st c) = 0" using r cl by (auto simp: runs_ok_def)
  let ?f = "\<lambda>q. q\<lparr>pstate := PROC_ZOMBIE, exit_code := code\<rparr>"
  let ?st1 = "upd_pcb c ?f (exit_mm c st)"
  have st1: "upd_pcb c (\<lambda>q. q\<lparr>exit_code := code\<rparr>) (upd_pcb c (\<lambda>q. q\<lparr>pstate := PROC_ZOMBIE\<rparr>) (exit_mm c st)) = ?st1"
    by (simp add: upd_pcb_def on_sd_def upd_proc_def)
  have r0: "runs_ok (exit_mm c st) ps" using r by (auto simp: runs_ok_def live_def)
  have r1: "runs_ok ?st1 ps"
    by (rule park_ok [OF r0]) (use c w0 in simp_all)
  have f1: "family ?st1 ps kids" by (rule fam_pcb_cong [OF f]) simp_all
  have t1: "tab_ok ?st1 ps" by (rule tab_ok_cong [OF t]) simp_all
  have q1: "q \<in> live ?st1 ps" using q by (simp add: live_def)
  have sl: "wait_state (pcb st x) = WT_CHILD \<Longrightarrow> x \<in> live st ps \<Longrightarrow> pstate (pcb st x) = PROC_SLEEPING" for x
    using r by (auto simp: runs_ok_def)
  obtain st2 where s2: "(if wait_state (pcb ?st1 q) = WT_CHILD then on_sched (wakeup_proc q) ?st1 else Some ?st1) = Some st2"
    "runs_ok st2 ps" "only_sched ?st1 st2" "current (sd st2) = Some c"
    "\<forall>x. x \<noteq> q \<longrightarrow> pstate (pcb st2 x) = pstate (pcb ?st1 x) \<and> wait_state (pcb st2 x) = wait_state (pcb ?st1 x)"
    "if wait_state (pcb st q) = WT_CHILD then pstate (pcb st2 q) = PROC_RUNNABLE \<and> wait_state (pcb st2 q) = 0
     else pstate (pcb st2 q) = pstate (pcb st q) \<and> wait_state (pcb st2 q) = wait_state (pcb st q)"
  proof (cases "wait_state (pcb st q) = WT_CHILD")
    case True
    then have "pstate (pcb ?st1 q) \<noteq> PROC_ZOMBIE" using sl [OF _ q(1)] q(2) by simp
    from wake_ok [OF r1 q1 this] True q(2) c(1) show ?thesis by (elim exE conjE) (rule that, simp_all)
  next
    case False
    with r1 q(2) c(1) show ?thesis by (intro that [of ?st1]) (auto simp: only_sched_def)
  qed
  note O = only_schedD [OF s2(3)]
  have i2: "initproc st2 = ?i" and lv: "live st2 ps = live st ps" by (simp_all add: O live_def)
  have f2: "fam st2 ps (\<lambda>x. if x = c then None else None) kids"
    using fam_only_sched [OF f1 s2(3)] by simp
  have il: "?i \<in> live st ps" using b by (simp add: booted_def live_def)
  have ik: "?i \<notin> set (kids c)" using famD(3) [OF f, of ?i c] b c(2) by (simp add: booted_def)
  from adopt_loop_ok [OF s2(2) f2, unfolded i2 lv, OF cl(1) il c(3) ik refl] obtain st3 where s3:
    "adopt_loop c st2 = Some st3" "runs_ok st3 ps" "family st3 ps (kids(c := [], ?i := rev (kids c) @ kids ?i))"
    "same_table st2 st3" "current (sd st3) = current (sd st2)" "released st3 = released st2" "file_refs st3 = file_refs st2"
    "\<forall>x. x \<noteq> ?i \<longrightarrow> pstate (pcb st3 x) = pstate (pcb st2 x) \<and> wait_state (pcb st3 x) = wait_state (pcb st2 x)"
    "if wait_state (pcb st2 ?i) = WT_CHILD \<and> (\<exists>k \<in> set (kids c). pstate (pcb st2 k) = PROC_ZOMBIE)
     then pstate (pcb st3 ?i) = PROC_RUNNABLE
     else pstate (pcb st3 ?i) = pstate (pcb st2 ?i) \<and> wait_state (pcb st3 ?i) = wait_state (pcb st2 ?i)"
    by (elim exE conjE) (rule that)
  have c3: "current (sd st3) = Some c" using s3(5) s2(4) by simp
  from sched_ok [OF s3(2) c3] obtain st' n where s4: "on_sched schedule st3 = Some st'" "runs_ok st' ps" "only_sched st3 st'"
    "current (sd st') = Some n" "n \<in> live st3 ps" "pstate (pcb st' n) = PROC_RUNNABLE"
    "\<forall>x. pstate (pcb st' x) = pstate (pcb st3 x) \<and> wait_state (pcb st' x) = wait_state (pcb st3 x)"
    by (elim exE conjE) (rule that)
  note O4 = only_schedD [OF s4(3)]
  have same: "same_table ?st1 st'"
    by (rule same_table_trans [OF only_sched_same [OF s2(3)] same_table_trans [OF s3(4) only_sched_same [OF s4(3)]]])
  have ex: "do_exit code st = Some st'"
    using c q s2(1) s3(1) s4(1)
    by (cases "wait_state (pcb st q) = WT_CHILD") (simp_all add: do_exit_def Let_def st1)
  have f4: "family st' ps (kids(c := [], ?i := rev (kids c) @ kids ?i))"
    by (rule fam_only_sched [OF s3(3) s4(3)])
  have lv4: "live st' ps = live st3 ps" by (rule O4(13))
  have "proc_inv st' ps (kids(c := [], ?i := rev (kids c) @ kids ?i))"
    unfolding proc_inv_def using tab_ok_same [OF t1 same] f4 s4(2,4,5,6) lv4 by blast
  moreover have "booted st' ps"
  proof -
    have i4: "initproc st' = ?i" "idleproc (sd st') = ?idle" using same by (simp_all add: same_table_def)
    have "?i \<in> set (kids ?idle)" using famD(3) [OF f, of ?i ?idle] b by (simp add: booted_def)
    moreover have "?idle \<noteq> ?i" using t b by (auto simp: tab_ok_def booted_def)
    ultimately have "?i \<in> set ((kids(c := [], ?i := rev (kids c) @ kids ?i)) ?idle)" using c(2) by auto
    then show ?thesis using famD(3) [OF f4, of ?i ?idle] by (simp add: booted_def i4)
  qed
  moreover have "pstate (pcb st' x) = (if x = c then PROC_ZOMBIE
      else if wait_state (pcb st x) = WT_CHILD \<and> (pparent (pcb st c) = Some x \<or>
        x = ?i \<and> (\<exists>k \<in> set (kids c). pstate (pcb st k) = PROC_ZOMBIE)) then PROC_RUNNABLE
      else pstate (pcb st x))" for x
  proof -
    have e: "pstate (pcb st' x) = pstate (pcb st3 x)" using s4(7) by simp
    have px: "pparent (pcb st c) = Some x \<longleftrightarrow> x = q" using q(3) by auto
    have s2x: "x \<noteq> c \<Longrightarrow> x \<noteq> q \<Longrightarrow> pstate (pcb st2 x) = pstate (pcb st x) \<and> wait_state (pcb st2 x) = wait_state (pcb st x)" for x
      using s2(5) by simp
    have z: "pstate (pcb st2 k) = PROC_ZOMBIE \<longleftrightarrow> pstate (pcb st k) = PROC_ZOMBIE" if "k \<in> set (kids c)" for k
    proof -
      have "k \<noteq> c" using famD(3) [OF f, of k c] famD(4) [OF f, of k] that by auto
      then show ?thesis using s2x [of k] s2(6) sl [OF _ q(1)] by (cases "k = q") (auto split: if_splits)
    qed
    consider "x = c" | "x \<noteq> c" "x \<noteq> ?i" "x \<noteq> q" | "x \<noteq> c" "x \<noteq> ?i" "x = q" | "x = ?i" "x = q" | "x = ?i" "x \<noteq> q" by blast
    then show ?thesis
    proof cases
      case 1
      then show ?thesis using s3(8) s2(5) q(2) c(3) by (simp add: s4(7))
    next
      case 2
      then show ?thesis using s3(8) s2x [of x] px by (simp add: s4(7))
    next
      case 3
      then show ?thesis using s3(8) s2(6) px by (simp add: s4(7) split: if_splits)
    next
      case 4
      then show ?thesis using s3(9) s2(6) px q(2) by (cases "wait_state (pcb st q) = WT_CHILD") (simp_all add: s4(7))
    next
      case 5
      then have i: "pstate (pcb st2 ?i) = pstate (pcb st ?i)" "wait_state (pcb st2 ?i) = wait_state (pcb st ?i)"
        using s2x [of ?i] c(3) by auto
      have "(\<exists>k \<in> set (kids c). pstate (pcb st2 k) = PROC_ZOMBIE) \<longleftrightarrow> (\<exists>k \<in> set (kids c). pstate (pcb st k) = PROC_ZOMBIE)"
        by (rule bex_cong [OF refl z])
      then show ?thesis using 5 s3(9) px c(3) by (auto simp: s4(7) i split: if_splits)
    qed
  qed
  moreover have "exit_code (pcb st' x) = (if x = c then code else exit_code (pcb st x))" for x
    using same by (simp add: same_table_def)
  moreover have "initproc st' = initproc st" using same by (simp add: same_table_def)
  moreover have "file_refs st' = file_refs st" "released st' = released (exit_mm c st)"
    using s3(6,7) by (simp_all add: O O4)
  ultimately show ?thesis using ex by blast
qed

section \<open>Fork\<close>

lemma ready_set_init:
  assumes r: "ready_set s A" and p: "p \<notin> A" and s': "heap s' = skew_heap_init p (heap s)"
    "lab6_run_pool s' = lab6_run_pool s" "proc_num s' = proc_num s" "\<forall>x \<in> A. on_rq (procs s' x) = on_rq (procs s x)"
  shows "ready_set s' A"
proof -
  obtain t where t: "ready_tree s t" "set_tree t = A" using r by (auto simp: ready_set_def)
  have d: "dtree t" using t(1) by (simp add: ready_tree_def heap_of_def)
  have "htree (heap s') (lab6_run_pool s) t = htree (heap s) (lab6_run_pool s) t"
    by (rule htree_same [OF _ d]) (use p t(2) in \<open>auto simp: same_on_def s'(1) skew_heap_init_def Let_def\<close>)
  moreover have "parent (heap s') x = parent (heap s) x" if "x \<in> A" for x
    using that p by (auto simp: s'(1) skew_heap_init_def Let_def)
  ultimately have "ready_tree s' t"
    using t s'(2-4) root_in [of _ t] by (auto simp: ready_tree_def heap_of_def)
  with t(2) show ?thesis by (auto simp: ready_set_def)
qed

text \<open>Only what processes own in other components changes.\<close>

definition owns_only :: "ptable \<Rightarrow> ptable \<Rightarrow> bool" where
  "owns_only st st' \<longleftrightarrow> st' = st\<lparr>res := res st', mm_refs := mm_refs st', file_refs := file_refs st', released := released st'\<rparr>"

lemma owns_only_trans: "owns_only st st' \<Longrightarrow> owns_only st' st'' \<Longrightarrow> owns_only st st''"
  unfolding owns_only_def by (cases st, cases st', cases st'') simp

lemma owns_onlyD:
  assumes "owns_only st st'"
  shows "sd st' = sd st" "proc_list st' = proc_list st" "hash_list st' = hash_list st" "initproc st' = initproc st"
    "nr_process st' = nr_process st" "next_safe st' = next_safe st" "last_pid st' = last_pid st"
  using assms unfolding owns_only_def by (cases st, cases st', simp)+

lemma proc_inv_cong: "sd st' = sd st \<Longrightarrow> proc_list st' = proc_list st \<Longrightarrow> hash_list st' = hash_list st \<Longrightarrow>
    nr_process st' = nr_process st \<Longrightarrow> next_safe st' = next_safe st \<Longrightarrow> last_pid st' = last_pid st \<Longrightarrow>
    proc_inv st' ps kids = proc_inv st ps kids"
  by (simp add: proc_inv_def tab_ok_def on_list_def pids_ok_def hashed_def fam_def runs_ok_def live_def)

lemma owns_only_upds [simp]: "owns_only st st" "owns_only st (release r st)" "owns_only st (upd_res p f st)"
  "owns_only st (destroy_mm mm st)" "owns_only st (st\<lparr>mm_refs := m\<rparr>)" "owns_only st (st\<lparr>file_refs := m\<rparr>)"
  by (simp_all add: owns_only_def release_def upd_res_def destroy_mm_def)

lemma setup_kstack_owns: "setup_kstack p page st = (r, st') \<Longrightarrow> owns_only st st'"
  by (auto simp: setup_kstack_def split: option.splits)

lemma put_owns: "owns_only st (put_kstack p st)" "owns_only st (put_files p st)"
  by (auto simp: put_kstack_def put_files_def Let_def owns_only_def release_def split: option.splits)

lemma copy_files_owns: "copy_files fl p env st = Some (r, st') \<Longrightarrow> owns_only st st'"
  by (auto simp: copy_files_def bind_Some_iff Let_def owns_only_def release_def upd_res_def split: option.splits if_splits)

lemma copy_mm_owns: "copy_mm fl p env st = Some (r, st') \<Longrightarrow> owns_only st st'"
  by (auto simp: copy_mm_def bind_Some_iff Let_def owns_only_def release_def upd_res_def destroy_mm_def split: option.splits if_splits)

text \<open>Whether the other components grant what the fork asks for.\<close>

definition granted :: "32 word \<Rightarrow> fork_env \<Rightarrow> nat option \<Rightarrow> bool" where
  "granted fl env oldmm \<longleftrightarrow> got_stack env \<noteq> None \<and>
     (and fl CLONE_FS \<noteq> 0 \<or> got_files env \<noteq> None \<and> dup_files_ret env = 0) \<and>
     (oldmm = None \<or> and fl CLONE_VM \<noteq> 0 \<or> got_mm env \<noteq> None \<and> setup_pgdir_ret env = 0 \<and> dup_mmap_ret env = 0)"

lemma setup_kstack_ret: "fst (setup_kstack p page st) = 0 \<longleftrightarrow> page \<noteq> None"
  by (auto simp: setup_kstack_def split: option.splits)

lemma copy_files_ret:
  assumes "current (sd st) = Some c" "filesp (res st c) \<noteq> None"
  shows "\<exists>r st'. copy_files fl p env st = Some (r, st') \<and>
    (r = 0 \<longleftrightarrow> and fl CLONE_FS \<noteq> 0 \<or> got_files env \<noteq> None \<and> dup_files_ret env = 0) \<and> pmm (res st' c) = pmm (res st c)"
  using assms by (auto simp: copy_files_def Let_def upd_res_def release_def split: option.splits)

lemma copy_mm_ret:
  assumes "current (sd st) = Some c"
  shows "\<exists>r st'. copy_mm fl p env st = Some (r, st') \<and>
    (r = 0 \<longleftrightarrow> pmm (res st c) = None \<or> and fl CLONE_VM \<noteq> 0 \<or>
       got_mm env \<noteq> None \<and> setup_pgdir_ret env = 0 \<and> dup_mmap_ret env = 0)"
  using assms by (auto simp: copy_mm_def Let_def split: option.splits)

lemma alloc_proc_eq:
  obtains st1 where "alloc_proc (Some p) st = (Some p, st1)"
    "pstate (pcb st1 p) = PROC_UNINIT" "pid (pcb st1 p) = - 1" "cptr (pcb st1 p) = None" "wait_state (pcb st1 p) = 0"
    "pflags (pcb st1 p) = 0" "\<forall>x. x \<noteq> p \<longrightarrow> pcb st1 x = pcb st x \<and> res st1 x = res st x"
    "idleproc (sd st1) = idleproc (sd st)" "current (sd st1) = current (sd st)"
    "heap (sd st1) = skew_heap_init p (heap (sd st))" "lab6_run_pool (sd st1) = lab6_run_pool (sd st)"
    "proc_num (sd st1) = proc_num (sd st)" "timers (sd st1) = timers (sd st)" "timer_list (sd st1) = timer_list (sd st)"
    "max_time_slice (sd st1) = max_time_slice (sd st)"
    "proc_list st1 = proc_list st" "hash_list st1 = hash_list st" "initproc st1 = initproc st"
    "nr_process st1 = nr_process st" "next_safe st1 = next_safe st" "last_pid st1 = last_pid st"
    "mm_refs st1 = mm_refs st" "file_refs st1 = file_refs st" "released st1 = released st"
  by (rule that [of "snd (alloc_proc (Some p) st)"]) (simp_all add: alloc_proc_def upd_pcb_def upd_res_def on_sd_def upd_proc_def)

text \<open>A fresh descriptor changes nothing the invariant is about.\<close>

lemma alloc_inv:
  assumes inv: "proc_inv st ps kids" and p: "p \<notin> live st ps" and a: "alloc_proc (Some p) st = (Some p, st1)"
    and f: "pstate (f (pcb st1 p)) = pstate (pcb st1 p)" "current (sd st) = Some c"
  shows "proc_inv (upd_pcb p f st1) ps kids"
proof -
  obtain st1' where "alloc_proc (Some p) st = (Some p, st1')"
    and e: "pstate (pcb st1' p) = PROC_UNINIT" "\<forall>x. x \<noteq> p \<longrightarrow> pcb st1' x = pcb st x \<and> res st1' x = res st x"
      "idleproc (sd st1') = idleproc (sd st)" "current (sd st1') = current (sd st)"
      "heap (sd st1') = skew_heap_init p (heap (sd st))" "lab6_run_pool (sd st1') = lab6_run_pool (sd st)"
      "proc_num (sd st1') = proc_num (sd st)" "proc_list st1' = proc_list st" "hash_list st1' = hash_list st"
      "nr_process st1' = nr_process st" "next_safe st1' = next_safe st" "last_pid st1' = last_pid st"
    using alloc_proc_eq [of p st] by metis
  then have eq: "st1' = st1" using a by simp
  note e = e [unfolded eq]
  let ?st = "upd_pcb p f st1"
  have pl: "p \<notin> set ps" "p \<noteq> idleproc (sd st)" using p by (auto simp: live_def)
  have o: "pcb ?st x = pcb st x" if "x \<noteq> p" for x using e(2) that by simp
  have pstp: "pstate (pcb ?st p) = PROC_UNINIT" using e(1) f by simp
  have lv: "live ?st ps = live st ps" by (simp add: live_def e)
  have r: "runs_ok st ps" and t: "tab_ok st ps" and fm: "family st ps kids"
    using inv by (auto simp: proc_inv_def)
  have np: "pstate (pcb st p) \<noteq> PROC_RUNNABLE" using r p by (auto simp: runs_ok_def)
  have w: "waiting_runnable (sd ?st) = waiting_runnable (sd st)"
  proof -
    have "x \<in> waiting_runnable (sd ?st) \<longleftrightarrow> x \<in> waiting_runnable (sd st)" for x
      using o [of x] pstp np by (cases "x = p") (simp_all add: waiting_runnable_def e)
    then show ?thesis by blast
  qed
  have "ready_set (sd ?st) (waiting_runnable (sd st))"
  proof (rule ready_set_init)
    show "ready_set (sd st) (waiting_runnable (sd st))" using r by (simp add: runs_ok_def queue_inv_def)
    show pw: "p \<notin> waiting_runnable (sd st)" using np by (simp add: waiting_runnable_def)
    show "\<forall>x \<in> waiting_runnable (sd st). on_rq (procs (sd ?st) x) = on_rq (procs (sd st) x)"
      using pw o by metis
  qed (simp_all add: e)
  then have q: "queue_inv (sd ?st)" unfolding queue_inv_def w .
  have "runs_ok ?st ps"
    unfolding runs_ok_def lv
  proof (intro conjI allI ballI impI)
    show "queue_inv (sd ?st)" by (rule q)
    show "pstate (pcb ?st (idleproc (sd ?st))) = PROC_RUNNABLE"
      using r o [of "idleproc (sd st)"] pl(2) by (simp add: runs_ok_def e)
    show "length ps < 2 ^ 31" using r by (simp add: runs_ok_def)
    fix x
    show "pstate (pcb ?st x) \<noteq> PROC_RUNNABLE" if "x \<notin> live st ps"
      using r o [of x] that pstp by (cases "x = p") (auto simp: runs_ok_def)
    show "pstate (pcb ?st x) = PROC_SLEEPING" if "x \<in> live st ps" "wait_state (pcb ?st x) \<noteq> 0"
    proof -
      have "x \<noteq> p" using that(1) p by auto
      with o [of x] that r show ?thesis by (auto simp: runs_ok_def)
    qed
  qed
  moreover have "tab_ok ?st ps"
  proof -
    have "\<forall>x \<in> set ps. pid (pcb ?st x) = pid (pcb st x)" using o pl(1) by metis
    moreover then have "hashed ?st ps"
      using hashed_cong [of st ps ?st ps] t by (simp add: tab_ok_def e)
    ultimately show ?thesis
      using t by (simp add: tab_ok_def on_list_def pids_ok_def e cong: inj_on_cong)
  qed
  moreover have "family ?st ps kids"
  proof (rule fam_cong [OF fm])
    show "\<forall>x \<in> live st ps. kin (pcb ?st x) = kin (pcb st x)" using o p by metis
  qed (simp add: e)
  moreover have "\<exists>c \<in> live ?st ps. current (sd ?st) = Some c \<and> pstate (pcb ?st c) = PROC_RUNNABLE"
    using inv o p lv by (auto simp: proc_inv_def e)
  ultimately show ?thesis by (simp only: proc_inv_def simp_thms)
qed


text \<open>The outcomes of a fork by \<^verbatim>\<open>c\<close>.\<close>

lemma do_fork_ok:
  assumes inv: "proc_inv st ps kids" and c: "current (sd st) = Some c" "filesp (res st c) \<noteq> None"
    and p: "\<forall>p. got_proc env = Some p \<longrightarrow> p \<notin> live st ps"
  shows "\<exists>r st'. do_fork fl env st = Some (r, st') \<and> initproc st' = initproc st \<and> idleproc (sd st') = idleproc (sd st) \<and>
    (\<forall>x \<in> live st ps. pparent (pcb st' x) = pparent (pcb st x)) \<and>
    (if nr_process st \<ge> MAX_PROCESS then r = - E_NO_FREE_PROC \<and> st' = st
     else if got_proc env = None then r = - E_NO_MEM \<and> st' = st
     else if \<not> granted fl env (pmm (res st c)) then r = - E_NO_MEM \<and> proc_inv st' ps kids \<and>
       (\<forall>x \<in> live st ps. pcb st' x = pcb st x)
     else let p = the (got_proc env) in 1 \<le> r \<and> r < MAX_PID \<and> (\<forall>q \<in> set ps. pid (pcb st q) \<noteq> r) \<and>
       proc_inv st' (p # ps) (kids(c := p # kids c)) \<and> pid (pcb st' p) = r \<and>
       pstate (pcb st' p) = PROC_RUNNABLE \<and> current (sd st') = Some c \<and>
       (\<forall>x \<in> live st ps. pstate (pcb st' x) = pstate (pcb st x) \<and> pid (pcb st' x) = pid (pcb st x)) \<and>
       (ps = [] \<and> last_pid st = MAX_PID \<longrightarrow> r = 1))"
proof (cases "nr_process st \<ge> MAX_PROCESS \<or> got_proc env = None")
  case True
  then show ?thesis by (cases "nr_process st \<ge> MAX_PROCESS") (simp_all add: do_fork_def alloc_proc_def)
next
  case False
  then obtain p where gp: "got_proc env = Some p" and nr: "nr_process st < MAX_PROCESS" by auto
  have pl: "p \<notin> live st ps" using p gp by simp
  obtain st1 where a: "alloc_proc (Some p) st = (Some p, st1)"
    and e: "pstate (pcb st1 p) = PROC_UNINIT" "cptr (pcb st1 p) = None" "wait_state (pcb st1 p) = 0"
      "\<forall>x. x \<noteq> p \<longrightarrow> pcb st1 x = pcb st x \<and> res st1 x = res st x" "idleproc (sd st1) = idleproc (sd st)"
      "current (sd st1) = current (sd st)" "initproc st1 = initproc st" "nr_process st1 = nr_process st"
      "last_pid st1 = last_pid st"
    using alloc_proc_eq [of p st] by metis
  let ?st2 = "upd_pcb p (\<lambda>q. q\<lparr>pparent := Some c\<rparr>) st1"
  have inv2: "proc_inv ?st2 ps kids" by (rule alloc_inv [OF inv pl a _ c(1)]) simp
  have cl: "c \<in> live st ps" "pstate (pcb st c) = PROC_RUNNABLE" using inv c(1) by (auto simp: proc_inv_def)
  have w0: "wait_state (pcb st c) = 0" using inv cl by (auto simp: proc_inv_def runs_ok_def)
  have pc: "p \<noteq> c" using pl cl(1) by auto
  obtain r3 st3 where s3: "setup_kstack p (got_stack env) ?st2 = (r3, st3)" by (cases "setup_kstack p (got_stack env) ?st2")
  have o3: "owns_only ?st2 st3" by (rule setup_kstack_owns [OF s3])
  note O3 = owns_onlyD [OF o3]
  have r3: "r3 = 0 \<longleftrightarrow> got_stack env \<noteq> None" using setup_kstack_ret [of p "got_stack env" ?st2] s3 by simp
  have res3: "res st3 c = res st c"
    using s3 pc e(4) by (auto simp: setup_kstack_def upd_res_def split: option.splits)
  obtain r4 st4 where s4: "copy_files fl p env st3 = Some (r4, st4)"
    "r4 = 0 \<longleftrightarrow> and fl CLONE_FS \<noteq> 0 \<or> got_files env \<noteq> None \<and> dup_files_ret env = 0" "pmm (res st4 c) = pmm (res st c)"
    using copy_files_ret [of st3 c fl p env] c res3 by (auto simp: O3 e)
  have o4: "owns_only ?st2 st4" by (rule owns_only_trans [OF o3 copy_files_owns [OF s4(1)]])
  note O4 = owns_onlyD [OF o4]
  have c4: "current (sd st4) = Some c" using c(1) by (simp add: O4 e)
  obtain r5 st5 where s5: "copy_mm fl p env st4 = Some (r5, st5)"
    "r5 = 0 \<longleftrightarrow> pmm (res st c) = None \<or> and fl CLONE_VM \<noteq> 0 \<or> got_mm env \<noteq> None \<and> setup_pgdir_ret env = 0 \<and> dup_mmap_ret env = 0"
    using copy_mm_ret [OF c4, of fl p env] unfolding s4(3) by blast
  have o5: "owns_only ?st2 st5" by (rule owns_only_trans [OF o4 copy_mm_owns [OF s5(1)]])
  note O5 = owns_onlyD [OF o5]
  have gr: "granted fl env (pmm (res st c)) \<longleftrightarrow> r3 = 0 \<and> r4 = 0 \<and> r5 = 0"
    using r3 s4(2) s5(2) by (simp add: granted_def)
  have pre: "do_fork fl env st = (if r3 \<noteq> 0 then Some (- E_NO_MEM, release (ProcFreed p) st3)
      else if r4 \<noteq> 0 then Some (- E_NO_MEM, release (ProcFreed p) (put_kstack p st4))
      else if r5 \<noteq> 0 then Some (- E_NO_MEM, release (ProcFreed p) (put_kstack p (put_files p st5)))
      else do { (n, st) \<leftarrow> get_pid st5;
                let st = upd_pcb p (\<lambda>q. q\<lparr>pid := n\<rparr>) st;
                let st = hash_proc p st;
                st \<leftarrow> set_links p st;
                st \<leftarrow> on_sched (wakeup_proc p) st;
                Some (pid (pcb st p), st) })"
    using nr gp a s3 s4(1) s5(1) e(4,6) c(1) w0 pc by (simp add: do_fork_def Let_def)
  have xp: "x \<noteq> p" if "x \<in> live st ps" for x using that pl by auto
  show ?thesis
  proof (cases "granted fl env (pmm (res st c))")
    case ng: False
    obtain st' where st': "do_fork fl env st = Some (- E_NO_MEM, st')" "owns_only ?st2 st'"
    proof -
      have "owns_only ?st2 (release (ProcFreed p) st3)" "owns_only ?st2 (release (ProcFreed p) (put_kstack p st4))"
        "owns_only ?st2 (release (ProcFreed p) (put_kstack p (put_files p st5)))"
        by (rule owns_only_trans [OF o3 owns_only_upds(2)]
              owns_only_trans [OF owns_only_trans [OF o4 put_owns(1)] owns_only_upds(2)]
              owns_only_trans [OF owns_only_trans [OF owns_only_trans [OF o5 put_owns(2)] put_owns(1)] owns_only_upds(2)])+
      with pre ng gr that show ?thesis by (cases "r3 = 0"; cases "r4 = 0") simp_all
    qed
    note O = owns_onlyD [OF st'(2)]
    have "proc_inv st' ps kids" using inv2 proc_inv_cong [of st' ?st2] by (simp add: O)
    moreover have "\<forall>x \<in> live st ps. pcb st' x = pcb st x" using e(4) xp by (auto simp: O)
    ultimately show ?thesis using st' nr gp ng by (simp add: O e)
  next
    case True
    then have gr0: "r3 = 0" "r4 = 0" "r5 = 0" using gr by auto
    have inv5: "proc_inv st5 ps kids" using inv2 proc_inv_cong [of st5 ?st2] by (simp add: O5)
    have t5: "tab_ok st5 ps" and f5: "family st5 ps kids" and q5: "runs_ok st5 ps"
      using inv5 by (auto simp: proc_inv_def)
    have len: "int (length ps) < MAX_PROCESS - 1" using inv nr by (simp add: proc_inv_def tab_ok_def)
    then have room: "length ps < nat (MAX_PID - 1)" by (simp add: MAX_PID_def MAX_PROCESS_def)
    obtain n s where g: "get_pid st5 = Some (n, st5\<lparr>last_pid := n, next_safe := s\<rparr>)" "1 \<le> n" "n < s" "s \<le> MAX_PID"
      "\<forall>p \<in> set ps. \<not> (n \<le> pid (pcb st5 p) \<and> pid (pcb st5 p) < s)"
      using get_pid_free [of st5 ps] t5 room by (auto simp: tab_ok_def)
    let ?st7 = "upd_pcb p (\<lambda>q. q\<lparr>pid := n\<rparr>) (st5\<lparr>last_pid := n, next_safe := s\<rparr>)"
    let ?st8 = "hash_proc p ?st7"
    have pp: "p \<notin> set ps" "p \<noteq> idleproc (sd st)" using pl by (auto simp: live_def)
    have p5: "pcb st5 p = (pcb st1 p)\<lparr>pparent := Some c\<rparr>" "x \<noteq> p \<Longrightarrow> pcb st5 x = pcb st x" for x
      using e(4) by (simp_all add: O5)
    have i5: "idleproc (sd st5) = idleproc (sd st)" "current (sd st5) = Some c" "initproc st5 = initproc st"
      "nr_process st5 = nr_process st"
      using c(1) by (simp_all add: O5 e)
    have lv8: "live ?st8 ps = live st ps" "live st5 ps = live st ps" by (simp_all add: live_def hash_proc_def i5)
    have h8: "hashed ?st8 (p # ps)"
    proof (rule hash_proc_ok [OF _ pp(1)])
      show "hashed ?st7 ps" by (rule hashed_cong [of st5 ps]) (use t5 pp in \<open>auto simp: tab_ok_def\<close>)
    qed
    have l8: "on_list ?st8 ps" using t5 by (simp add: tab_ok_def on_list_def hash_proc_def)
    have f8: "family ?st8 ps kids"
      by (rule fam_cong [OF f5]) (use pl lv8 in \<open>auto simp: hash_proc_def\<close>)
    have r8: "runs_ok ?st8 ps"
    proof -
      have "queue_inv (sd ?st8)"
        by (rule queue_inv_cong [of "sd st5"]) (use q5 in \<open>simp_all add: runs_ok_def hash_proc_def\<close>)
      with q5 show ?thesis by (auto simp: runs_ok_def live_def hash_proc_def)
    qed
    have p8: "p \<notin> live ?st8 ps" "cptr (pcb ?st8 p) = None" "pparent (pcb ?st8 p) = Some c" "c \<in> live ?st8 ps"
      using pl lv8 cl(1) e(2) by (simp_all add: hash_proc_def p5)
    from set_links_ok [OF l8 f8 p8] obtain st9 where s9: "set_links p ?st8 = Some st9" "on_list st9 (p # ps)"
      "family st9 (p # ps) (kids(c := p # kids c))" "relinked ?st8 st9" "nr_process st9 = nr_process ?st8 + 1"
      by blast
    note R = relinkedD [OF s9(4)]
    have t9: "tab_ok st9 (p # ps)"
      unfolding tab_ok_def
    proof (intro conjI)
      show "on_list st9 (p # ps)" by (rule s9(2))
      show "hashed st9 (p # ps)" by (rule hashed_cong [OF h8]) (simp_all add: R)
      show "idleproc (sd st9) \<notin> set (p # ps)" using t5 pp(2) by (simp add: tab_ok_def R hash_proc_def i5)
      show "nr_process st9 = int (length (p # ps)) + 1" "nr_process st9 \<le> MAX_PROCESS"
        using t5 nr by (simp_all add: s9(5) hash_proc_def tab_ok_def i5)
      show "pids_ok st9 (p # ps)"
        using t5 g pp(1) by (auto simp: pids_ok_def tab_ok_def R hash_proc_def inj_on_def)
    qed
    have r9: "runs_ok st9 (p # ps)"
    proof -
      have "runs_ok st9 ps" by (rule runs_ok_relinked [OF r8 s9(4)])
      then show ?thesis
        using e(1,3) len by (auto simp: runs_ok_def live_def R hash_proc_def p5 MAX_PROCESS_def)
    qed
    have p9: "p \<in> live st9 (p # ps)" "pstate (pcb st9 p) \<noteq> PROC_ZOMBIE"
      using e(1) by (simp_all add: live_def R hash_proc_def p5)
    from wake_ok [OF r9 p9] obtain st' where s': "on_sched (wakeup_proc p) st9 = Some st'" "runs_ok st' (p # ps)"
      "only_sched st9 st'" "current (sd st') = current (sd st9)" "pstate (pcb st' p) = PROC_RUNNABLE"
      "\<forall>x. x \<noteq> p \<longrightarrow> pstate (pcb st' x) = pstate (pcb st9 x) \<and> wait_state (pcb st' x) = wait_state (pcb st9 x)"
      by (elim exE conjE) (rule that)
    note O = only_schedD [OF s'(3)]
    note K = kin_eqD [OF O(12)]
    have cur: "current (sd st') = Some c" using s'(4) i5 by (simp add: R hash_proc_def)
    have "pid (pcb st' p) = n" using K [of p] by (simp add: R hash_proc_def)
    then have f: "do_fork fl env st = Some (n, st')"
      using pre gr0 g(1) s9(1) s'(1) by (simp add: Let_def)
    have "proc_inv st' (p # ps) (kids(c := p # kids c))"
      unfolding proc_inv_def
    proof (intro conjI)
      show "tab_ok st' (p # ps)" by (rule tab_ok_same [OF t9 only_sched_same [OF s'(3)]])
      show "family st' (p # ps) (kids(c := p # kids c))" by (rule fam_only_sched [OF s9(3) s'(3)])
      show "\<exists>c \<in> live st' (p # ps). current (sd st') = Some c \<and> pstate (pcb st' c) = PROC_RUNNABLE"
        using cur cl pc s'(6) by (intro bexI [of _ c]) (auto simp: R hash_proc_def p5 O live_def i5)
    qed (rule s'(2))
    moreover have "\<forall>x \<in> live st ps. pparent (pcb st' x) = pparent (pcb st x)"
    proof
      fix x assume x: "x \<in> live st ps"
      have "pparent (pcb st9 x) = pparent (pcb ?st8 x)"
        using s9(1) by (auto simp: set_links_def Let_def bind_Some_iff split: option.splits)
      then show "pparent (pcb st' x) = pparent (pcb st x)"
        using K [of x] xp [OF x] by (simp add: hash_proc_def p5)
    qed
    moreover have "initproc st' = initproc st" "idleproc (sd st') = idleproc (sd st)"
      by (simp_all add: O R hash_proc_def i5)
    moreover have "\<forall>q \<in> set ps. pid (pcb st q) \<noteq> n"
      using g(2-5) pp(1) p5(2) by (metis order_refl)
    moreover have "\<forall>x \<in> live st ps. pstate (pcb st' x) = pstate (pcb st x) \<and> pid (pcb st' x) = pid (pcb st x)"
    proof
      fix x assume x: "x \<in> live st ps"
      show "pstate (pcb st' x) = pstate (pcb st x) \<and> pid (pcb st' x) = pid (pcb st x)"
        using s'(6) xp [OF x] K [of x] by (simp add: R hash_proc_def p5)
    qed
    moreover have "ps = [] \<and> last_pid st = MAX_PID \<longrightarrow> n = 1"
    proof
      assume a: "ps = [] \<and> last_pid st = MAX_PID"
      then have "list_next ProcList (proc_list st5) = ProcList"
        using on_list_next [of st5 "[]" "[]"] t5 by (simp add: tab_ok_def)
      then have "pid_scan ProcList 1 MAX_PID st5 = Some (1, MAX_PID)"
        by (subst pid_scan.simps) simp
      moreover have "last_pid st5 = MAX_PID" using a by (simp add: O5 e)
      ultimately show "n = 1" using g(1) by (simp add: get_pid_def Let_def)
    qed
    ultimately show ?thesis
      using f nr gp True g(2-4) cur s'(5) \<open>pid (pcb st' p) = n\<close>
      by (intro exI [of _ n] exI [of _ st']) simp
  qed
qed

section \<open>Wait\<close>

abbreviation zombie :: "ptable \<Rightarrow> nat \<Rightarrow> bool" where
  "zombie st p \<equiv> pstate (pcb st p) = PROC_ZOMBIE"

text \<open>Zombies have given their children away, and \<^verbatim>\<open>initproc\<close>, which takes them, lives.\<close>

definition lineage :: "ptable \<Rightarrow> (nat \<Rightarrow> nat list) \<Rightarrow> bool" where
  "lineage st kids \<longleftrightarrow> \<not> zombie st (initproc st) \<and> (\<forall>p. zombie st p \<longrightarrow> kids p = [])"

lemma kid_loop_spec: "sibs (procs (sd st)) y x ks \<Longrightarrow>
    kid_loop x h st = Some (find (zombie st) ks, h \<or> ks \<noteq> [])"
proof (induction ks arbitrary: y x h)
  case Nil
  then show ?case by (subst kid_loop.simps) simp
next
  case (Cons k ks)
  from Cons.prems have x: "x = Some k" and s: "sibs (procs (sd st)) (Some k) (optr (pcb st k)) ks" by auto
  show ?case
    unfolding x by (subst kid_loop.simps) (simp add: Cons.IH [OF s])
qed

text \<open>The table without a process that is neither running nor on the ready queue.\<close>

lemma wait_reap_ok:
  assumes inv: "proc_inv st ps kids" and l: "lineage st kids" and p: "p \<in> set ps" "zombie st p" "p \<noteq> initproc st"
    and c: "pparent (pcb st p) = Some c"
  shows "\<exists>st'. wait_reap p store st =
      Some (Returned 0 (if store then Some (exit_code (pcb st p)) else None), st') \<and>
    proc_inv st' (filter (\<lambda>q. q \<noteq> p) ps) (kids(c := filter (\<lambda>q. q \<noteq> p) (kids c))) \<and>
    initproc st' = initproc st \<and> idleproc (sd st') = idleproc (sd st) \<and> (\<forall>x. pstate (pcb st' x) = pstate (pcb st x)) \<and>
    (\<forall>x. pparent (pcb st' x) = pparent (pcb st x)) \<and>
    released st' = released st @ [StackFreed (kstack (res st p)), ProcFreed p] \<and> current (sd st') = current (sd st)"
proof -
  let ?ps = "filter (\<lambda>q. q \<noteq> p) ps"
  have t: "tab_ok st ps" and f: "family st ps kids" and r: "runs_ok st ps" using inv by (auto simp: proc_inv_def)
  have pi: "p \<noteq> idleproc (sd st)" using t p(1) by (auto simp: tab_ok_def)
  have k0: "kids p = []" using l p(2) by (auto simp: lineage_def)
  let ?st1 = "unhash_proc p st"
  have f1: "family ?st1 ps kids" by (rule fam_cong [OF f]) (simp_all add: unhash_proc_def)
  have l1: "on_list ?st1 ps" using t by (simp add: tab_ok_def on_list_def unhash_proc_def)
  have h1: "hashed ?st1 ?ps" using unhash_proc_ok [of st ps p] t p(1) by (simp add: tab_ok_def)
  have p1: "p \<noteq> idleproc (sd ?st1)" "pparent (pcb ?st1 p) = Some c" using pi c by (simp_all add: unhash_proc_def)
  from remove_links_ok [OF l1 f1 p(1) p1(1) k0 p1(2)] obtain st2 where s2: "remove_links p ?st1 = Some st2"
    "on_list st2 ?ps" "family st2 ?ps (kids(c := filter (\<lambda>q. q \<noteq> p) (kids c)))" "relinked ?st1 st2"
    "nr_process st2 = nr_process ?st1 - 1" by blast
  note R = relinkedD [OF s2(4)]
  have len: "int (length ?ps) = int (length ps) - 1"
  proof -
    have "length ?ps + length (filter (\<lambda>q. \<not> q \<noteq> p) ps) = length ps" by (rule sum_length_filter_compl)
    moreover have "length (filter (\<lambda>q. \<not> q \<noteq> p) ps) = 1"
      using on_list_distinct [OF l1] p(1) by (induction ps) (auto simp: filter_empty_conv)
    ultimately show ?thesis by simp
  qed
  have t2: "tab_ok st2 ?ps"
    unfolding tab_ok_def
  proof (intro conjI)
    show "on_list st2 ?ps" by (rule s2(2))
    show "hashed st2 ?ps" by (rule hashed_cong [OF h1]) (simp_all add: R)
    show "pids_ok st2 ?ps"
      using t by (auto simp: tab_ok_def pids_ok_def R unhash_proc_def inj_on_def)
    show "idleproc (sd st2) \<notin> set ?ps" using t by (simp add: tab_ok_def R unhash_proc_def)
    show "nr_process st2 = int (length ?ps) + 1" "nr_process st2 \<le> MAX_PROCESS"
      using t len by (simp_all add: tab_ok_def s2(5) unhash_proc_def)
  qed
  have "runs_ok ?st1 ps" using r by (auto simp: runs_ok_def live_def unhash_proc_def)
  then have "runs_ok st2 ps" by (rule runs_ok_relinked [OF _ s2(4)])
  then have r2: "runs_ok st2 ?ps"
    using p(2) len by (auto simp: runs_ok_def live_def R unhash_proc_def)
  have inv2: "proc_inv st2 ?ps (kids(c := filter (\<lambda>q. q \<noteq> p) (kids c)))"
    unfolding proc_inv_def
  proof (intro conjI)
    obtain d where "d \<in> live st ps" "current (sd st) = Some d" "pstate (pcb st d) = PROC_RUNNABLE"
      using inv by (auto simp: proc_inv_def)
    then show "\<exists>c \<in> live st2 ?ps. current (sd st2) = Some c \<and> pstate (pcb st2 c) = PROC_RUNNABLE"
      using p(2) by (intro bexI [of _ d]) (auto simp: R unhash_proc_def live_def)
  qed (use t2 r2 s2(3) in auto)
  have par: "pparent (pcb st2 x) = pparent (pcb st x)" for x
    using s2(1) by (auto simp: remove_links_def Let_def bind_Some_iff unhash_proc_def split: option.splits)
  let ?st' = "release (ProcFreed p) (put_kstack p st2)"
  have o: "owns_only st2 ?st'" by (rule owns_only_trans [OF put_owns(1) owns_only_upds(2)])
  note O = owns_onlyD [OF o]
  have "proc_inv ?st' ?ps (kids(c := filter (\<lambda>q. q \<noteq> p) (kids c)))"
    using inv2 proc_inv_cong [of ?st' st2] by (simp only: O)
  moreover have "released ?st' = released st @ [StackFreed (kstack (res st p)), ProcFreed p]"
    by (simp add: release_def put_kstack_def R unhash_proc_def)
  moreover have "wait_reap p store st = Some (Returned 0 (if store then Some (exit_code (pcb st p)) else None), ?st')"
    using p(3) pi s2(1) by (simp add: wait_reap_def Let_def)
  ultimately show ?thesis
    using par by (intro exI [of _ ?st']) (simp add: O R unhash_proc_def)
qed


definition wanted :: "int \<Rightarrow> ptable \<Rightarrow> nat \<Rightarrow> bool" where
  "wanted n st p \<longleftrightarrow> n = 0 \<or> pid (pcb st p) = n"

lemma wait_pass_ok:
  assumes inv: "proc_inv st ps kids" and l: "lineage st kids" and b: "booted st ps"
    and c: "current (sd st) = Some c" "c \<noteq> idleproc (sd st)"
  shows "\<exists>out st'. wait_pass n store st = Some (out, st') \<and>
    initproc st' = initproc st \<and> idleproc (sd st') = idleproc (sd st) \<and>
    (\<forall>x. pparent (pcb st' x) = pparent (pcb st x)) \<and>
    (if \<exists>p \<in> set (kids c). zombie st p \<and> wanted n st p
     then \<exists>p \<in> set (kids c). zombie st p \<and> wanted n st p \<and>
       out = Returned 0 (if store then Some (exit_code (pcb st p)) else None) \<and>
       proc_inv st' (filter (\<lambda>q. q \<noteq> p) ps) (kids(c := filter (\<lambda>q. q \<noteq> p) (kids c))) \<and>
       released st' = released st @ [StackFreed (kstack (res st p)), ProcFreed p] \<and>
       (\<forall>x. pstate (pcb st' x) = pstate (pcb st x))
     else if \<exists>p \<in> set (kids c). wanted n st p
     then out = Waits \<and> proc_inv st' ps kids \<and>
       (\<forall>x. pstate (pcb st' x) = (if x = c then PROC_SLEEPING else pstate (pcb st x))) \<and>
       wait_state (pcb st' c) = WT_CHILD \<and> current (sd st') \<noteq> Some c
     else out = Returned (- E_BAD_PROC) None \<and> st' = st)"
proof -
  have t: "tab_ok st ps" and f: "family st ps kids" and r: "runs_ok st ps"
    and cl: "c \<in> live st ps" "pstate (pcb st c) = PROC_RUNNABLE" using inv c(1) by (auto simp: proc_inv_def)
  have pids: "\<forall>p \<in> set ps. 1 \<le> pid (pcb st p) \<and> pid (pcb st p) < MAX_PID" "inj_on (\<lambda>p. pid (pcb st p)) (set ps)"
    "hashed st ps" using t by (auto simp: tab_ok_def pids_ok_def)
  have kid: "p \<in> set (kids c) \<longleftrightarrow> p \<in> set ps \<and> pparent (pcb st p) = Some c" for p by (rule famD(3) [OF f])
  let ?look = "if n \<noteq> 0 then
               do { r \<leftarrow> find_proc n st;
                    Some (case r of
                            Some p \<Rightarrow> if pparent (pcb st p) = Some c
                                      then (if zombie st p then Some p else None, True)
                                      else (None, False)
                          | None \<Rightarrow> (None, False)) }
             else kid_loop (cptr (pcb st c)) False st"
  obtain found haskid where look: "?look = Some (found, haskid)"
    "\<forall>p. found = Some p \<longrightarrow> p \<in> set (kids c) \<and> zombie st p \<and> wanted n st p"
    "found = None \<longrightarrow> (\<forall>p \<in> set (kids c). wanted n st p \<longrightarrow> \<not> zombie st p)"
    "haskid \<longleftrightarrow> (\<exists>p \<in> set (kids c). wanted n st p)"
  proof (cases "n = 0")
    case True
    have "kid_loop (cptr (pcb st c)) False st = Some (find (zombie st) (kids c), False \<or> kids c \<noteq> [])"
      by (rule kid_loop_spec [OF famD(1) [OF f cl(1)]])
    with True show ?thesis
      by (intro that) (auto simp: wanted_def find_Some_iff find_None_iff, use last_in_set in blast)
  next
    case False
    obtain r where fp: "find_proc n st = Some r" "\<forall>p. r = Some p \<longleftrightarrow> p \<in> set ps \<and> pid (pcb st p) = n"
      using find_proc_spec [OF pids(3,1,2)] by blast
    have w: "wanted n st p \<longleftrightarrow> pid (pcb st p) = n" for p using False by (simp add: wanted_def)
    show ?thesis
    proof (cases r)
      case None
      with fp False show ?thesis by (intro that [of None False]) (auto simp: w kid)
    next
      case (Some p)
      then have p: "p \<in> set ps" "pid (pcb st p) = n" "\<And>q. q \<in> set ps \<Longrightarrow> pid (pcb st q) = n \<Longrightarrow> q = p"
        using fp(2) Some by auto
      show ?thesis
      proof (cases "pparent (pcb st p) = Some c")
        case True
        show ?thesis
        proof (rule that [of "if zombie st p then Some p else None" True])
          show "?look = Some (if zombie st p then Some p else None, True)"
            using True Some fp(1) False by simp
          show "\<forall>q. (if zombie st p then Some p else None) = Some q \<longrightarrow> q \<in> set (kids c) \<and> zombie st q \<and> wanted n st q"
            using p(1,2) True by (simp add: w kid)
          show "(if zombie st p then Some p else None) = None \<longrightarrow> (\<forall>q \<in> set (kids c). wanted n st q \<longrightarrow> \<not> zombie st q)"
            using p(3) by (auto simp: w kid)
          show "True \<longleftrightarrow> (\<exists>q \<in> set (kids c). wanted n st q)"
            using p(1,2) True by (auto simp: w kid)
        qed
      next
        case np: False
        have "\<not> wanted n st q" if "q \<in> set (kids c)" for q
          using p(3) [of q] np that by (auto simp: w kid)
        moreover have "?look = Some (None, False)"
          using np Some fp(1) False by simp
        ultimately show ?thesis by (intro that [of None False]) simp_all
      qed
    qed
  qed
  have pass: "wait_pass n store st = (case found of
            Some p \<Rightarrow> wait_reap p store st
          | None \<Rightarrow>
              if haskid then
                do { let st = upd_pcb c (\<lambda>q. q\<lparr>pstate := PROC_SLEEPING\<rparr>) st;
                     let st = upd_pcb c (\<lambda>q. q\<lparr>wait_state := WT_CHILD\<rparr>) st;
                     st \<leftarrow> on_sched schedule st;
                     Some (Waits, st) }
              else Some (Returned (- E_BAD_PROC) None, st))"
    unfolding wait_pass_def using c(1) look(1) by simp
  show ?thesis
  proof (cases found)
    case (Some p)
    then have p: "p \<in> set (kids c)" "zombie st p" "wanted n st p" using look(2) by auto
    then have "p \<in> set ps" "pparent (pcb st p) = Some c" using kid by auto
    moreover have "p \<noteq> initproc st" using b c(2) calculation(2) by (auto simp: booted_def)
    ultimately obtain st' where st': "wait_reap p store st =
        Some (Returned 0 (if store then Some (exit_code (pcb st p)) else None), st')"
      "proc_inv st' (filter (\<lambda>q. q \<noteq> p) ps) (kids(c := filter (\<lambda>q. q \<noteq> p) (kids c)))"
      "initproc st' = initproc st" "idleproc (sd st') = idleproc (sd st)" "\<forall>x. pstate (pcb st' x) = pstate (pcb st x)"
      "\<forall>x. pparent (pcb st' x) = pparent (pcb st x)"
      "released st' = released st @ [StackFreed (kstack (res st p)), ProcFreed p]"
      using wait_reap_ok [OF inv l _ p(2), of c store] by blast
    have z: "\<exists>p \<in> set (kids c). zombie st p \<and> wanted n st p" using p by blast
    show ?thesis
      unfolding pass Some option.case if_P [OF z]
      using st' p by (intro exI [of _ "Returned 0 (if store then Some (exit_code (pcb st p)) else None)"] exI [of _ st'] conjI bexI [of _ p]) simp_all
  next
    case None
    then have z: "\<not> (\<exists>p \<in> set (kids c). zombie st p \<and> wanted n st p)" using look(3) by auto
    show ?thesis
    proof (cases haskid)
      case False
      then have h: "\<not> (\<exists>p \<in> set (kids c). wanted n st p)" using look(4) by simp
      show ?thesis unfolding pass None option.case if_not_P [OF z] if_not_P [OF h] using False by simp
    next
      case True
      then have h: "\<exists>p \<in> set (kids c). wanted n st p" using look(4) by simp
      let ?st1 = "upd_pcb c (\<lambda>q. q\<lparr>pstate := PROC_SLEEPING, wait_state := WT_CHILD\<rparr>) st"
      have e: "upd_pcb c (\<lambda>q. q\<lparr>wait_state := WT_CHILD\<rparr>) (upd_pcb c (\<lambda>q. q\<lparr>pstate := PROC_SLEEPING\<rparr>) st) = ?st1"
        by (simp add: upd_pcb_def on_sd_def upd_proc_def)
      have r1: "runs_ok ?st1 ps" by (rule park_ok [OF r c]) simp_all
      have f1: "family ?st1 ps kids" by (rule fam_pcb_cong [OF f]) simp_all
      have t1: "tab_ok ?st1 ps" by (rule tab_ok_cong [OF t]) simp_all
      have c1: "current (sd ?st1) = Some c" using c(1) by simp
      from sched_ok [OF r1 c1] obtain st' m where st': "on_sched schedule ?st1 = Some st'" "runs_ok st' ps" "only_sched ?st1 st'"
        "current (sd st') = Some m" "m \<in> live ?st1 ps" "pstate (pcb st' m) = PROC_RUNNABLE"
        "\<forall>x. pstate (pcb st' x) = pstate (pcb ?st1 x) \<and> wait_state (pcb st' x) = wait_state (pcb ?st1 x)"
        by (elim exE conjE) (rule that)
      note O = only_schedD [OF st'(3)]
      note K = kin_eqD [OF O(12)]
      have "proc_inv st' ps kids"
        unfolding proc_inv_def
        using tab_ok_same [OF t1 only_sched_same [OF st'(3)]] fam_only_sched [OF f1 st'(3)] st'(2,4,5,6) O(13) by blast
      moreover have "m \<noteq> c" using st'(6,7) by auto
      moreover have "pparent (pcb st' x) = pparent (pcb st x)" for x using K [of x] by simp
      ultimately show ?thesis
        unfolding pass None option.case if_not_P [OF z] if_P [OF h]
        using True st' by (intro exI [of _ Waits] exI [of _ st']) (simp add: e O)
    qed
  qed
qed

section \<open>Kill, and giving the processor away\<close>

lemma proc_inv_sched:
  assumes "tab_ok st1 ps" "family st1 ps kids" "runs_ok st1 ps" "current (sd st1) = Some c"
    and "on_sched schedule st1 = Some st'"
  shows "proc_inv st' ps kids \<and> only_sched st1 st' \<and> (\<forall>x. pstate (pcb st' x) = pstate (pcb st1 x))"
proof -
  from sched_ok [OF assms(3,4)] assms(5) obtain n where st': "runs_ok st' ps" "only_sched st1 st'"
    "current (sd st') = Some n" "n \<in> live st1 ps" "pstate (pcb st' n) = PROC_RUNNABLE"
    "\<forall>x. pstate (pcb st' x) = pstate (pcb st1 x) \<and> wait_state (pcb st' x) = wait_state (pcb st1 x)"
    by auto
  have "live st' ps = live st1 ps" by (rule only_schedD(13) [OF st'(2)])
  with st' tab_ok_same [OF assms(1) only_sched_same [OF st'(2)]] fam_only_sched [OF assms(2) st'(2)]
  show ?thesis by (auto simp: proc_inv_def)
qed

lemma proc_inv_wake:
  assumes inv: "proc_inv st ps kids" and p: "p \<in> live st ps" "\<not> zombie st p"
  shows "\<exists>st'. on_sched (wakeup_proc p) st = Some st' \<and> proc_inv st' ps kids \<and> only_sched st st' \<and>
    (\<forall>x. pstate (pcb st' x) = (if x = p then PROC_RUNNABLE else pstate (pcb st x)))"
proof -
  have r: "runs_ok st ps" using inv by (simp add: proc_inv_def)
  from wake_ok [OF r p] obtain st' where st': "on_sched (wakeup_proc p) st = Some st'" "runs_ok st' ps" "only_sched st st'"
    "current (sd st') = current (sd st)" "pstate (pcb st' p) = PROC_RUNNABLE"
    "\<forall>x. x \<noteq> p \<longrightarrow> pstate (pcb st' x) = pstate (pcb st x) \<and> wait_state (pcb st' x) = wait_state (pcb st x)"
    by (elim exE conjE) (rule that)
  have l: "live st' ps = live st ps" by (rule only_schedD(13) [OF st'(3)])
  obtain c where c: "c \<in> live st ps" "current (sd st) = Some c" "pstate (pcb st c) = PROC_RUNNABLE"
    using inv by (auto simp: proc_inv_def)
  have "proc_inv st' ps kids"
    unfolding proc_inv_def
  proof (intro conjI)
    show "tab_ok st' ps" using inv tab_ok_same [OF _ only_sched_same [OF st'(3)]] by (simp add: proc_inv_def)
    show "family st' ps kids" using inv fam_only_sched [OF _ st'(3)] by (simp add: proc_inv_def)
    show "\<exists>c \<in> live st' ps. current (sd st') = Some c \<and> pstate (pcb st' c) = PROC_RUNNABLE"
      using c st'(4-6) l by (intro bexI [of _ c]) auto
  qed (rule st'(2))
  with st' show ?thesis by (intro exI [of _ st']) simp
qed

lemma do_kill_ok:
  assumes inv: "proc_inv st ps kids"
  shows "\<exists>r st'. do_kill n st = Some (r, st') \<and> proc_inv st' ps kids \<and> initproc st' = initproc st \<and>
    idleproc (sd st') = idleproc (sd st) \<and> (\<forall>x. pparent (pcb st' x) = pparent (pcb st x)) \<and>
    (\<forall>x. zombie st' x \<longrightarrow> zombie st x) \<and>
    (\<forall>p \<in> set ps. pid (pcb st p) = n \<longrightarrow> and (pflags (pcb st' p)) PF_EXITING \<noteq> 0 \<and>
      (and (wait_state (pcb st p)) WT_INTERRUPTED \<noteq> 0 \<and> r = 0 \<longrightarrow> pstate (pcb st' p) = PROC_RUNNABLE)) \<and>
    (r = - E_INVAL \<longleftrightarrow> (\<forall>p \<in> set ps. pid (pcb st p) \<noteq> n))"
proof -
  have t: "tab_ok st ps" and f: "family st ps kids" and r: "runs_ok st ps" using inv by (auto simp: proc_inv_def)
  have pids: "hashed st ps" "\<forall>p \<in> set ps. 1 \<le> pid (pcb st p) \<and> pid (pcb st p) < MAX_PID"
    "inj_on (\<lambda>p. pid (pcb st p)) (set ps)" using t by (auto simp: tab_ok_def pids_ok_def)
  obtain fp where fp: "find_proc n st = Some fp" "\<forall>p. fp = Some p \<longleftrightarrow> p \<in> set ps \<and> pid (pcb st p) = n"
    using find_proc_spec [OF pids] by blast
  show ?thesis
  proof (cases fp)
    case None
    with fp inv show ?thesis by (intro exI [of _ "- E_INVAL"] exI [of _ st]) (auto simp: do_kill_def)
  next
    case (Some p)
    then have p: "p \<in> set ps" "pid (pcb st p) = n" and uq: "\<forall>q \<in> set ps. pid (pcb st q) = n \<longrightarrow> q = p"
      using fp(2) Some by auto
    have only: "(\<forall>q \<in> set ps. pid (pcb st q) = n \<longrightarrow> Q q) \<longleftrightarrow> Q p" for Q using p uq by blast
    have some: "(\<forall>q \<in> set ps. pid (pcb st q) \<noteq> n) \<longleftrightarrow> False" using p by blast
    show ?thesis
    proof (cases "and (pflags (pcb st p)) PF_EXITING = 0")
      case False
      have "do_kill n st = Some (- E_KILLED, st)" using fp(1) Some False by (simp add: do_kill_def)
      with inv False show ?thesis
        unfolding only some by (intro exI [of _ "- E_KILLED"] exI [of _ st]) simp
    next
      case True
      let ?st1 = "upd_pcb p (\<lambda>q. q\<lparr>pflags := or (pflags q) PF_EXITING\<rparr>) st"
      have bit: "and (or w 1) 1 = (1 :: 32 word)" for w
        by (rule bit_word_eqI) (auto simp: bit_simps)
      have r1: "runs_ok ?st1 ps"
      proof -
        have "queue_inv (sd ?st1)"
          by (rule queue_inv_cong [of "sd st"]) (use r in \<open>simp_all add: runs_ok_def\<close>)
        with r show ?thesis by (auto simp: runs_ok_def live_def)
      qed
      have inv1: "proc_inv ?st1 ps kids"
        unfolding proc_inv_def
      proof (intro conjI)
        show "tab_ok ?st1 ps" by (rule tab_ok_cong [OF t]) simp_all
        show "family ?st1 ps kids" by (rule fam_pcb_cong [OF f]) simp_all
        show "\<exists>c \<in> live ?st1 ps. current (sd ?st1) = Some c \<and> pstate (pcb ?st1 c) = PROC_RUNNABLE"
          using inv by (auto simp: proc_inv_def live_def)
      qed (rule r1)
      show ?thesis
      proof (cases "and (wait_state (pcb st p)) WT_INTERRUPTED = 0")
        case w: True
        have "do_kill n st = Some (0, ?st1)" using fp(1) Some True w by (simp add: do_kill_def Let_def)
        with inv1 w show ?thesis
          unfolding only some by (intro exI [of _ 0] exI [of _ ?st1]) (auto simp: bit)
      next
        case w: False
        have "wait_state (pcb st p) \<noteq> 0" using w by auto
        then have "pstate (pcb st p) = PROC_SLEEPING" using r p(1) by (simp add: runs_ok_def live_def)
        then have "\<not> zombie ?st1 p" "p \<in> live ?st1 ps" using p(1) by (simp_all add: live_def)
        from proc_inv_wake [OF inv1 this(2,1)] obtain st' where st': "on_sched (wakeup_proc p) ?st1 = Some st'"
          "proc_inv st' ps kids" "only_sched ?st1 st'"
          "\<forall>x. pstate (pcb st' x) = (if x = p then PROC_RUNNABLE else pstate (pcb ?st1 x))"
          by blast
        note O = only_schedD [OF st'(3)]
        note K = kin_eqD [OF O(12)]
        have "do_kill n st = Some (0, st')" using fp(1) Some True w st'(1) by (simp add: do_kill_def Let_def)
        moreover have "pparent (pcb st' x) = pparent (pcb st x)" for x using K [of x] by simp
        moreover have "and (pflags (pcb st' p)) PF_EXITING = 1" using K [of p] by (simp add: bit)
        ultimately show ?thesis
          unfolding only some using st'(2,4) by (intro exI [of _ 0] exI [of _ st']) (auto simp: O)
      qed
    qed
  qed
qed

lemma timer_walk_frame:
  "timer_walk t le st = Some (le', st') \<Longrightarrow> st' = st\<lparr>timers := timers st'\<rparr>"
proof -
  have "timer_walk t le st = Some y \<Longrightarrow> snd y = st\<lparr>timers := timers (snd y)\<rparr>" for y
  proof (rule timer_walk.raw_induct [where P = "\<lambda>t le st y. snd y = st\<lparr>timers := timers (snd y)\<rparr>", rotated])
    fix f t le st y
    assume ih: "\<And>t le st y. f t le st = Some y \<Longrightarrow> snd y = st\<lparr>timers := timers (snd y)\<rparr>"
      and e: "(if le \<noteq> TimerList then
        (let next = le2timer le
         in if expires (timers st t) < expires (timers st next)
            then Some (le, upd_timer next (\<lambda>x. x\<lparr>expires := expires x - expires (timers st t)\<rparr>) st)
            else (let st = upd_timer t (\<lambda>x. x\<lparr>expires := expires x - expires (timers st next)\<rparr>) st
                  in f t (list_next le (timer_list st)) st))
      else Some (le, st)) = Some y"
    show "snd y = st\<lparr>timers := timers (snd y)\<rparr>"
      using e by (auto simp: Let_def upd_timer_def dest!: ih split: if_splits)
  qed
  then show "timer_walk t le st = Some (le', st') \<Longrightarrow> st' = st\<lparr>timers := timers st'\<rparr>" by fastforce
qed

text \<open>What only the timers differ in.\<close>

definition timers_only :: "sched \<Rightarrow> sched \<Rightarrow> bool" where
  "timers_only s s' \<longleftrightarrow> s' = s\<lparr>timers := timers s', timer_list := timer_list s'\<rparr>"

lemma timers_onlyD:
  assumes "timers_only s s'"
  shows "procs s' = procs s" "idleproc s' = idleproc s" "current s' = current s" "heap s' = heap s"
    "lab6_run_pool s' = lab6_run_pool s" "proc_num s' = proc_num s"
  using assms unfolding timers_only_def by (cases s, cases s', simp)+

lemma timer_ops_only: "timers_only s (timer_init t p e s)" "timers_only s (del_timer t s)"
  "add_timer t s = Some s' \<Longrightarrow> timers_only s s'"
proof -
  show "timers_only s (timer_init t p e s)"
    by (simp add: timers_only_def timer_init_def upd_timer_def Let_def)
  show "timers_only s (del_timer t s)"
    by (simp add: timers_only_def del_timer_def upd_timer_def Let_def)
  assume a: "add_timer t s = Some s'"
  then obtain le s1 where w: "timer_walk t (list_next TimerList (timer_list s)) s = Some (le, s1)"
    "s' = s1\<lparr>timer_list := list_add_before le (TimerLink t) (timer_list s1)\<rparr>"
    by (auto simp: add_timer_def bind_Some_iff split: if_splits)
  from timer_walk_frame [OF w(1)] w(2) show "timers_only s s'"
    unfolding timers_only_def by (cases s, cases s1, simp)
qed

lemma proc_inv_timers:
  assumes inv: "proc_inv st ps kids" and t: "timers_only (sd st) s"
  shows "proc_inv (st\<lparr>sd := s\<rparr>) ps kids"
proof -
  note D = timers_onlyD [OF t]
  have "queue_inv s" by (rule queue_inv_cong [of "sd st"]) (use inv in \<open>simp_all add: D proc_inv_def runs_ok_def\<close>)
  then have "runs_ok (st\<lparr>sd := s\<rparr>) ps"
    using inv by (auto simp: proc_inv_def runs_ok_def live_def D)
  then show ?thesis
    using inv by (auto simp: proc_inv_def tab_ok_def on_list_def pids_ok_def hashed_def fam_def live_def D)
qed

text \<open>The running process goes to sleep.\<close>

lemma proc_inv_block:
  assumes inv: "proc_inv st ps kids" and c: "current (sd st) = Some c" "c \<noteq> idleproc (sd st)"
    and s: "on_sched schedule (upd_pcb c (\<lambda>q. q\<lparr>pstate := PROC_SLEEPING, wait_state := ws\<rparr>) st) = Some st'"
  shows "proc_inv st' ps kids \<and> only_sched st st' \<and>
    (\<forall>x. pstate (pcb st' x) = (if x = c then PROC_SLEEPING else pstate (pcb st x)))"
proof -
  let ?st1 = "upd_pcb c (\<lambda>q. q\<lparr>pstate := PROC_SLEEPING, wait_state := ws\<rparr>) st"
  have t: "tab_ok st ps" and f: "family st ps kids" and r: "runs_ok st ps" using inv by (auto simp: proc_inv_def)
  have "tab_ok ?st1 ps" by (rule tab_ok_cong [OF t]) simp_all
  moreover have "family ?st1 ps kids" by (rule fam_pcb_cong [OF f]) simp_all
  moreover have "runs_ok ?st1 ps" by (rule park_ok [OF r c]) simp_all
  moreover have "current (sd ?st1) = Some c" using c by simp
  ultimately have p: "proc_inv st' ps kids \<and> only_sched ?st1 st' \<and> (\<forall>x. pstate (pcb st' x) = pstate (pcb ?st1 x))"
    by (rule proc_inv_sched [OF _ _ _ _ s])
  have "only_sched st ?st1" by (auto simp: only_sched_def kin_def upd_pcb_def on_sd_def)
  with p only_sched_trans [of st ?st1 st'] show ?thesis by auto
qed

end
