(* ===== verification/ProcHistory.thy ===== *)
theory ProcHistory
  imports ProcLife
begin

text \<open>
  The histories of the process table of \<^verbatim>\<open>Process\<close>: the step relation over all
  calls that touch it, the boot, and the properties of fork, exit and wait, with a small
  concrete table as their witness.
\<close>

section \<open>All histories of the table\<close>

text \<open>
  A step is a call of the running process, a wake-up by another component (a timer, a
  semaphore, a device), a preemption, or a change of what processes own. Descriptors that
  \<^verbatim>\<open>kmalloc\<close> hands out are not in use, and the idle process only runs \<^verbatim>\<open>cpu_idle\<close>.
\<close>

definition listed :: "ptable \<Rightarrow> nat set" where
  "listed st = {p. \<exists>ps. on_list st ps \<and> p \<in> set ps}"

definition user_runs :: "ptable \<Rightarrow> nat \<Rightarrow> bool" where
  "user_runs st c \<longleftrightarrow> current (sd st) = Some c \<and> c \<noteq> idleproc (sd st)"

inductive kstep :: "ptable \<Rightarrow> ptable \<Rightarrow> bool" where
  fork: "do_fork fl env st = Some (r, st') \<Longrightarrow> current (sd st) = Some c \<Longrightarrow> filesp (res st c) \<noteq> None \<Longrightarrow>
    got_proc env \<notin> Some ` insert (idleproc (sd st)) (listed st) \<Longrightarrow> kstep st st'"
| exit: "do_exit code st = Some st' \<Longrightarrow> kstep st st'"
| wait: "do_wait n store ok st = Some (out, st') \<Longrightarrow> user_runs st c \<Longrightarrow> kstep st st'"
| resume: "do_wait_resume n store st = Some (out, st') \<Longrightarrow> user_runs st c \<Longrightarrow> kstep st st'"
| kill: "do_kill n st = Some (r, st') \<Longrightarrow> kstep st st'"
| sleep: "do_sleep t time st = Some (b, st') \<Longrightarrow> user_runs st c \<Longrightarrow> kstep st st'"
| sleep_over: "kstep st (do_sleep_resume t st)"
| block: "on_sched schedule (upd_pcb c (\<lambda>q. q\<lparr>pstate := PROC_SLEEPING, wait_state := ws\<rparr>) st) = Some st' \<Longrightarrow>
    user_runs st c \<Longrightarrow> kstep st st'"
| wake: "on_sched (wakeup_proc p) st = Some st' \<Longrightarrow> p \<in> listed st \<Longrightarrow> kstep st st'"
| preempt: "on_sched schedule st = Some st' \<Longrightarrow> kstep st st'"
| own: "owns_only st st' \<Longrightarrow> kstep st st'"

lemma listed_eq: "on_list st ps \<Longrightarrow> listed st = set ps"
proof -
  assume l: "on_list st ps"
  have "qs = ps" if "on_list st qs" for qs
  proof -
    have "map le2proc (map ProcLink qs) = map le2proc (map ProcLink ps)"
      using ring_unique [OF that [unfolded on_list_def] l [unfolded on_list_def]] by (rule arg_cong)
    then show ?thesis by (simp add: comp_def)
  qed
  with l show ?thesis unfolding listed_def by blast
qed

definition sound :: "ptable \<Rightarrow> nat list \<Rightarrow> (nat \<Rightarrow> nat list) \<Rightarrow> bool" where
  "sound st ps kids \<longleftrightarrow> proc_inv st ps kids \<and> booted st ps \<and> lineage st kids"

lemma sound_mono:
  assumes s: "sound st ps kids" and i: "proc_inv st' ps kids" "initproc st' = initproc st" "idleproc (sd st') = idleproc (sd st)"
    "pparent (pcb st' (initproc st)) = pparent (pcb st (initproc st))" "\<forall>x. zombie st' x \<longrightarrow> zombie st x"
  shows "sound st' ps kids"
  using assms by (auto simp: sound_def booted_def lineage_def)

lemma sound_only_sched:
  assumes s: "sound st ps kids" and i: "proc_inv st' ps kids" "only_sched st st'" "\<forall>x. zombie st' x \<longrightarrow> zombie st x"
  shows "sound st' ps kids"
  by (rule sound_mono [OF s i(1)]) (use i(2,3) kin_eqD [OF only_schedD(12) [OF i(2)]] in \<open>simp_all add: only_schedD\<close>)

lemma fork_sound:
  assumes s: "sound st ps kids" and d: "do_fork fl env st = Some (r, st')" and c: "current (sd st) = Some c"
    "filesp (res st c) \<noteq> None" and p: "got_proc env \<notin> Some ` insert (idleproc (sd st)) (listed st)"
  shows "\<exists>ps kids. sound st' ps kids"
proof -
  have inv: "proc_inv st ps kids" and b: "booted st ps" and l: "lineage st kids" using s by (auto simp: sound_def)
  have li: "listed st = set ps" using inv by (intro listed_eq) (simp add: proc_inv_def tab_ok_def)
  have fr: "\<forall>p. got_proc env = Some p \<longrightarrow> p \<notin> live st ps" using p by (auto simp: li live_def)
  have il: "initproc st \<in> live st ps" using b by (simp add: booted_def live_def)
  obtain r' st'' where z: "do_fork fl env st = Some (r', st'')" "initproc st'' = initproc st"
    "idleproc (sd st'') = idleproc (sd st)" "\<forall>x \<in> live st ps. pparent (pcb st'' x) = pparent (pcb st x)"
    "if nr_process st \<ge> MAX_PROCESS then r' = - E_NO_FREE_PROC \<and> st'' = st
     else if got_proc env = None then r' = - E_NO_MEM \<and> st'' = st
     else if \<not> granted fl env (pmm (res st c)) then r' = - E_NO_MEM \<and> proc_inv st'' ps kids \<and>
       (\<forall>x \<in> live st ps. pcb st'' x = pcb st x)
     else let p = the (got_proc env) in 1 \<le> r' \<and> r' < MAX_PID \<and> (\<forall>q \<in> set ps. pid (pcb st q) \<noteq> r') \<and>
       proc_inv st'' (p # ps) (kids(c := p # kids c)) \<and> pid (pcb st'' p) = r' \<and>
       pstate (pcb st'' p) = PROC_RUNNABLE \<and> current (sd st'') = Some c \<and>
       (\<forall>x \<in> live st ps. pstate (pcb st'' x) = pstate (pcb st x) \<and> pid (pcb st'' x) = pid (pcb st x)) \<and>
       (ps = [] \<and> last_pid st = MAX_PID \<longrightarrow> r' = 1)"
    using do_fork_ok [OF inv c fr, of fl] by (elim exE conjE) (rule that)
  have eq: "st'' = st'" using z(1) d by simp
  note st' = z(2-4) [unfolded eq]
  have cs: "st' = st \<or> proc_inv st' ps kids \<and> (\<forall>x \<in> live st ps. pcb st' x = pcb st x) \<or>
     proc_inv st' (the (got_proc env) # ps) (kids(c := the (got_proc env) # kids c)) \<and>
       pstate (pcb st' (the (got_proc env))) = PROC_RUNNABLE \<and> (\<forall>x \<in> live st ps. pstate (pcb st' x) = pstate (pcb st x))"
    using z(5) unfolding eq Let_def
    by (cases "nr_process st \<ge> MAX_PROCESS"; cases "got_proc env = None"; cases "granted fl env (pmm (res st c))") simp_all
  from cs show ?thesis
  proof (elim disjE conjE)
    assume "st' = st"
    with s show ?thesis by blast
  next
    assume a: "proc_inv st' ps kids" "\<forall>x \<in> live st ps. pcb st' x = pcb st x"
    have "kids x = []" if "zombie st' x" for x
    proof (cases "x \<in> live st ps")
      case True
      with a(2) l that show ?thesis by (simp add: lineage_def)
    next
      case False
      have "family st ps kids" using inv by (simp add: proc_inv_def)
      from fam_no_kids [OF this False] show ?thesis .
    qed
    with a b l il show ?thesis
      by (intro exI [of _ ps] exI [of _ kids]) (simp add: sound_def booted_def lineage_def st')
  next
    let ?p = "the (got_proc env)" and ?kids = "kids(c := the (got_proc env) # kids c)"
    assume a: "proc_inv st' (?p # ps) ?kids" "pstate (pcb st' ?p) = PROC_RUNNABLE"
      "\<forall>x \<in> live st ps. pstate (pcb st' x) = pstate (pcb st x)"
    have cl: "c \<in> live st ps" "pstate (pcb st c) = PROC_RUNNABLE" using inv c(1) by (auto simp: proc_inv_def)
    have "?kids x = []" if z: "zombie st' x" for x
    proof (cases "x \<in> live st ps")
      case True
      with a(3) z cl have "x \<noteq> c" "zombie st x" by auto
      with l show ?thesis by (simp add: lineage_def)
    next
      case False
      with a(2) z have "x \<notin> live st' (?p # ps)" by (auto simp: live_def st')
      have "family st' (?p # ps) ?kids" using a(1) by (simp add: proc_inv_def)
      from fam_no_kids [OF this \<open>x \<notin> live st' (?p # ps)\<close>] show ?thesis .
    qed
    with a b l il st'(3) show ?thesis
      by (intro exI [of _ "?p # ps"] exI [of _ ?kids]) (simp add: sound_def booted_def lineage_def st')
  qed
qed

lemma exit_sound:
  assumes s: "sound st ps kids" and d: "do_exit code st = Some st'"
  shows "\<exists>ps kids. sound st' ps kids"
proof -
  have inv: "proc_inv st ps kids" and b: "booted st ps" and l: "lineage st kids" using s by (auto simp: sound_def)
  obtain c where c: "current (sd st) = Some c" "c \<noteq> idleproc (sd st)" "c \<noteq> initproc st"
    using d by (auto simp: do_exit_def bind_Some_iff split: if_splits)
  let ?kids = "kids(c := [], initproc st := rev (kids c) @ kids (initproc st))"
  from do_exit_ok [OF inv b c, of code] d have e: "booted st' ps" "proc_inv st' ps ?kids"
    and i: "initproc st' = initproc st" and e':     "\<forall>x. pstate (pcb st' x) = (if x = c then PROC_ZOMBIE
      else if wait_state (pcb st x) = WT_CHILD \<and> (pparent (pcb st c) = Some x \<or>
        x = initproc st \<and> (\<exists>k \<in> set (kids c). pstate (pcb st k) = PROC_ZOMBIE)) then PROC_RUNNABLE
      else pstate (pcb st x))" by auto
  have z: "zombie st' x \<Longrightarrow> x = c \<or> zombie st x" for x using e' by (auto split: if_splits)
  have "lineage st' ?kids"
    using z l c(3) by (auto simp: lineage_def i)
  with e show ?thesis unfolding sound_def by blast
qed

lemma wait_pass_sound:
  assumes s: "sound st ps kids" and u: "user_runs st c" and d: "wait_pass n store st = Some (out, st')"
  shows "\<exists>ps kids. sound st' ps kids"
proof -
  have inv: "proc_inv st ps kids" and b: "booted st ps" and l: "lineage st kids" using s by (auto simp: sound_def)
  have c: "current (sd st) = Some c" "c \<noteq> idleproc (sd st)" using u by (simp_all add: user_runs_def)
  from wait_pass_ok [OF inv l b c, of n store] d
  have e: "initproc st' = initproc st" "idleproc (sd st') = idleproc (sd st)"
    "\<forall>x. pparent (pcb st' x) = pparent (pcb st x)"
    and cs: "if \<exists>p \<in> set (kids c). zombie st p \<and> wanted n st p
     then \<exists>p \<in> set (kids c). zombie st p \<and> wanted n st p \<and>
       out = Returned 0 (if store then Some (exit_code (pcb st p)) else None) \<and>
       proc_inv st' (filter (\<lambda>q. q \<noteq> p) ps) (kids(c := filter (\<lambda>q. q \<noteq> p) (kids c))) \<and>
       released st' = released st @ [StackFreed (kstack (res st p)), ProcFreed p] \<and>
       (\<forall>x. pstate (pcb st' x) = pstate (pcb st x))
     else if \<exists>p \<in> set (kids c). wanted n st p
     then out = Waits \<and> proc_inv st' ps kids \<and>
       (\<forall>x. pstate (pcb st' x) = (if x = c then PROC_SLEEPING else pstate (pcb st x))) \<and>
       wait_state (pcb st' c) = WT_CHILD \<and> current (sd st') \<noteq> Some c
     else out = Returned (- E_BAD_PROC) None \<and> st' = st" by auto
  from cs consider
    p where "p \<in> set (kids c)" "proc_inv st' (filter (\<lambda>q. q \<noteq> p) ps) (kids(c := filter (\<lambda>q. q \<noteq> p) (kids c)))"
      "\<forall>x. pstate (pcb st' x) = pstate (pcb st x)"
    | "proc_inv st' ps kids" "\<forall>x. pstate (pcb st' x) = (if x = c then PROC_SLEEPING else pstate (pcb st x))" | "st' = st"
    by (auto split: if_splits)
  then show ?thesis
  proof cases
    case 1
    have "pparent (pcb st p) = Some c" using inv 1(1) famD(3) [of st ps "\<lambda>_. None" kids p c] by (simp add: proc_inv_def)
    then have "initproc st \<noteq> p" using b c(2) by (auto simp: booted_def)
    with b l 1 e have "sound st' (filter (\<lambda>q. q \<noteq> p) ps) (kids(c := filter (\<lambda>q. q \<noteq> p) (kids c)))"
      by (auto simp: sound_def booted_def lineage_def)
    then show ?thesis by blast
  next
    case 2
    then have "sound st' ps kids" by (intro sound_mono [OF s]) (auto simp: e)
    then show ?thesis by blast
  next
    case 3
    with s show ?thesis by blast
  qed
qed

lemma block_sound:
  assumes s: "sound st ps kids" and u: "user_runs st c"
    and d: "on_sched schedule (upd_pcb c (\<lambda>q. q\<lparr>pstate := PROC_SLEEPING, wait_state := ws\<rparr>) st) = Some st'"
  shows "sound st' ps kids"
proof -
  have inv: "proc_inv st ps kids" using s by (simp add: sound_def)
  have c: "current (sd st) = Some c" "c \<noteq> idleproc (sd st)" using u by (simp_all add: user_runs_def)
  from proc_inv_block [OF inv c d] show ?thesis
    by (intro sound_only_sched [OF s]) (auto split: if_splits)
qed

lemma sound_cong:
  assumes "sound st ps kids" "proc_inv st' ps kids" "initproc st' = initproc st" "procs (sd st') = procs (sd st)"
    "idleproc (sd st') = idleproc (sd st)"
  shows "sound st' ps kids"
  by (rule sound_mono [OF assms(1,2,3,5)]) (simp_all add: assms(4))

lemma sleep_sound:
  assumes s: "sound st ps kids" and u: "user_runs st c" and d: "do_sleep t time st = Some (b, st')"
  shows "sound st' ps kids"
proof (cases "time = 0")
  case True
  with s d show ?thesis by (simp add: do_sleep_def)
next
  case False
  have inv: "proc_inv st ps kids" using s by (simp add: sound_def)
  have c: "current (sd st) = Some c" "c \<noteq> idleproc (sd st)" using u by (simp_all add: user_runs_def)
  let ?f = "\<lambda>q. q\<lparr>pstate := PROC_SLEEPING, wait_state := WT_TIMER\<rparr>"
  let ?s1 = "timer_init t (Some c) (int time) (sd st)"
  have e: "upd_proc c (\<lambda>q. q\<lparr>wait_state := WT_TIMER\<rparr>) (upd_proc c (\<lambda>q. q\<lparr>pstate := PROC_SLEEPING\<rparr>)
      (sd (on_sd (timer_init t (Some c) (int time)) st))) = upd_proc c ?f ?s1"
    by (simp add: on_sd_def upd_proc_def)
  have r: "upd_pcb c f (upd_pcb c g (on_sd h st))\<lparr>sd := s\<rparr> = st\<lparr>sd := s\<rparr>" for f g h s
    by (simp add: upd_pcb_def on_sd_def)
  obtain s2 where s2: "add_timer t (upd_proc c ?f ?s1) = Some s2" "on_sched schedule (st\<lparr>sd := s2\<rparr>) = Some st'"
    using d False c(1) by (auto simp: do_sleep_def bind_Some_iff Let_def e r on_sched_def)
  let ?s3 = "s2\<lparr>procs := procs (sd st)\<rparr>"
  have t1: "timers_only (sd st) ?s1" by (rule timer_ops_only)
  have t2: "timers_only (upd_proc c ?f ?s1) s2" by (rule timer_ops_only(3) [OF s2(1)])
  note D1 = timers_onlyD [OF t1] and D2 = timers_onlyD [OF t2]
  have t3: "timers_only (sd st) ?s3"
    using t1 t2 unfolding timers_only_def upd_proc_def by (cases "sd st", cases s2, cases ?s1) simp
  have "s2 = upd_proc c ?f ?s3"
    by (cases s2) (simp add: upd_proc_def, use D1(1) D2(1) in \<open>simp add: upd_proc_def\<close>)
  then have st2: "st\<lparr>sd := s2\<rparr> = upd_pcb c ?f (st\<lparr>sd := ?s3\<rparr>)"
    by (simp add: upd_pcb_def on_sd_def)
  have "sound (st\<lparr>sd := ?s3\<rparr>) ps kids"
    by (rule sound_cong [OF s proc_inv_timers [OF inv t3]]) (simp_all add: timers_onlyD(2) [OF t3])
  moreover have "user_runs (st\<lparr>sd := ?s3\<rparr>) c"
    using c timers_onlyD [OF t3] by (simp add: user_runs_def)
  ultimately show ?thesis
    by (rule block_sound) (use s2(2) st2 in simp)
qed

lemma kill_sound:
  assumes s: "sound st ps kids" and d: "do_kill n st = Some (r, st')"
  shows "sound st' ps kids"
proof -
  have inv: "proc_inv st ps kids" using s by (simp add: sound_def)
  obtain r2 st2 where k: "do_kill n st = Some (r2, st2)" "proc_inv st2 ps kids" "initproc st2 = initproc st"
    "idleproc (sd st2) = idleproc (sd st)" "\<forall>x. pparent (pcb st2 x) = pparent (pcb st x)" "\<forall>x. zombie st2 x \<longrightarrow> zombie st x"
    using do_kill_ok [OF inv, of n] by (elim exE conjE) (rule that)
  have "st2 = st'" using k(1) d by simp
  with k show ?thesis by (intro sound_mono [OF s]) simp_all
qed

lemma wait_sound:
  assumes s: "sound st ps kids" and u: "user_runs st c" and d: "do_wait n store ok st = Some (out, st')"
  shows "\<exists>ps kids. sound st' ps kids"
proof (cases "store \<and> \<not> ok")
  case True
  with s d have "sound st' ps kids" by (simp add: do_wait_def)
  then show ?thesis by blast
next
  case False
  with d have "wait_pass n store st = Some (out, st')" by (simp add: do_wait_def)
  with s u show ?thesis by (rule wait_pass_sound)
qed

lemma resume_sound:
  assumes s: "sound st ps kids" and u: "user_runs st c" and d: "do_wait_resume n store st = Some (out, st')"
  shows "\<exists>ps kids. sound st' ps kids"
proof (cases "and (pflags (pcb st c)) PF_EXITING = 0")
  case True
  with d u have "wait_pass n store st = Some (out, st')" by (simp add: do_wait_resume_def user_runs_def)
  with s u show ?thesis by (rule wait_pass_sound)
next
  case False
  with d u have "do_exit (- E_KILLED) st = Some st'"
    by (auto simp: do_wait_resume_def user_runs_def bind_Some_iff)
  with s show ?thesis by (rule exit_sound)
qed

lemma kstep_sound: "kstep st st' \<Longrightarrow> sound st ps kids \<Longrightarrow> \<exists>ps' kids'. sound st' ps' kids'"
proof (induction rule: kstep.induct)
  case (fork fl env st r st' c)
  show ?case by (rule fork_sound [OF fork(5,1,2,3,4)])
next
  case (exit code st st')
  show ?case by (rule exit_sound [OF exit(2,1)])
next
  case (wait n store ok st out st' c)
  show ?case by (rule wait_sound [OF wait(3,2,1)])
next
  case (resume n store st out st' c)
  show ?case by (rule resume_sound [OF resume(3,2,1)])
next
  case (kill n st r st')
  have "sound st' ps kids" by (rule kill_sound [OF kill(2,1)])
  then show ?case by blast
next
  case (sleep t time st b st' c)
  have "sound st' ps kids" by (rule sleep_sound [OF sleep(3,2,1)])
  then show ?case by blast
next
  case (sleep_over st t)
  then have inv: "proc_inv st ps kids" by (simp add: sound_def)
  have t: "timers_only (sd st) (del_timer t (sd st))" by (rule timer_ops_only)
  have "do_sleep_resume t st = st\<lparr>sd := del_timer t (sd st)\<rparr>" by (simp add: do_sleep_resume_def on_sd_def)
  moreover have "sound (st\<lparr>sd := del_timer t (sd st)\<rparr>) ps kids"
    by (rule sound_cong [OF sleep_over proc_inv_timers [OF inv t]]) (simp_all add: timers_onlyD [OF t])
  ultimately show ?case by auto
next
  case (block c ws st st')
  have "sound st' ps kids" by (rule block_sound [OF block(3,2,1)])
  then show ?case by blast
next
  case (wake p st st')
  then have inv: "proc_inv st ps kids" by (simp add: sound_def)
  have "p \<in> live st ps"
    using wake(2) inv listed_eq [of st ps] by (simp add: proc_inv_def tab_ok_def live_def)
  moreover have "\<not> zombie st p"
    using wake(1) by (auto simp: on_sched_def wakeup_proc_def bind_Some_iff split: if_splits)
  ultimately obtain st2 where w: "on_sched (wakeup_proc p) st = Some st2" "proc_inv st2 ps kids" "only_sched st st2"
    "\<forall>x. pstate (pcb st2 x) = (if x = p then PROC_RUNNABLE else pstate (pcb st x))"
    using proc_inv_wake [OF inv] by blast
  then have "st2 = st'" using wake(1) by simp
  then have "sound st' ps kids"
    by (intro sound_only_sched [OF wake(3)]) (use w in simp_all)
  then show ?case by blast
next
  case (preempt st st')
  then have inv: "proc_inv st ps kids" by (simp add: sound_def)
  then obtain c where c: "current (sd st) = Some c" by (auto simp: proc_inv_def)
  from inv have "proc_inv st' ps kids \<and> only_sched st st' \<and> (\<forall>x. pstate (pcb st' x) = pstate (pcb st x))"
    by (intro proc_inv_sched [OF _ _ _ c preempt(1)]) (simp_all add: proc_inv_def)
  then have "sound st' ps kids" by (intro sound_only_sched [OF preempt(2)]) simp_all
  then show ?case by blast
next
  case (own st st')
  then have inv: "proc_inv st ps kids" by (simp add: sound_def)
  note O = owns_onlyD [OF own(1)]
  have "proc_inv st' ps kids" using inv proc_inv_cong [of st' st] by (simp add: O)
  then have "sound st' ps kids" by (intro sound_mono [OF own(2)]) (simp_all add: O)
  then show ?case by blast
qed

lemma ksteps_sound: "kstep\<^sup>*\<^sup>* st st' \<Longrightarrow> sound st ps kids \<Longrightarrow> \<exists>ps' kids'. sound st' ps' kids'"
proof (induction rule: rtranclp_induct)
  case base
  then show ?case by blast
next
  case (step y z)
  then show ?case using kstep_sound by blast
qed

section \<open>The boot\<close>

text \<open>The state before \<^verbatim>\<open>proc_init\<close>: an empty run queue, no process, and the initial static variables.\<close>

definition cold :: "ptable \<Rightarrow> bool" where
  "cold st \<longleftrightarrow> lab6_run_pool (sd st) = None \<and> proc_num (sd st) = 0 \<and> (\<forall>p. pstate (pcb st p) = PROC_UNINIT) \<and>
     nr_process st = 0 \<and> next_safe st = MAX_PID \<and> last_pid st = MAX_PID"

lemma init_heads:
  "h < n \<Longrightarrow> nxt (fold (\<lambda>i. list_init (HashHead i)) [0..<n] l) (HashHead h) = HashHead h \<and>
    prv (fold (\<lambda>i. list_init (HashHead i)) [0..<n] l) (HashHead h) = HashHead h"
  by (induction n) (auto simp: list_init_def less_Suc_eq)

lemma ready_empty: "lab6_run_pool s = None \<Longrightarrow> proc_num s = 0 \<Longrightarrow> ready_set s {}"
  by (auto simp: ready_set_def ready_tree_def heap_of_def intro!: exI [of _ Leaf])

text \<open>The table that holds nothing but the idle process.\<close>

lemma idle_only:
  assumes "proc_list st = list_init ProcList l" "hash_list st = fold (\<lambda>i. list_init (HashHead i)) [0..<1024] k"
    "lab6_run_pool (sd st) = None" "proc_num (sd st) = 0" "idleproc (sd st) = p" "current (sd st) = Some p"
    "pstate (pcb st p) = PROC_RUNNABLE" "\<forall>x. x \<noteq> p \<longrightarrow> pstate (pcb st x) = PROC_UNINIT" "wait_state (pcb st p) = 0"
    "cptr (pcb st p) = None" "nr_process st = 1" "next_safe st = MAX_PID" "last_pid st = MAX_PID"
  shows "proc_inv st [] (\<lambda>_. [])"
proof -
  have "waiting_runnable (sd st) = {}"
    using assms(5-8) by (auto simp: waiting_runnable_def)
  then have "queue_inv (sd st)"
    using ready_empty [OF assms(3,4)] by (simp add: queue_inv_def)
  then have "runs_ok st []" using assms by (auto simp: runs_ok_def live_def)
  moreover have "hashed st []"
    unfolding hashed_def using init_heads [of _ 1024 k] by (intro exI [of _ "\<lambda>_. []"]) (simp add: ring_def assms(2))
  then have "tab_ok st []"
    using assms ring_init [of ProcList l] by (simp add: tab_ok_def on_list_def pids_ok_def MAX_PROCESS_def MAX_PID_def)
  moreover have "family st [] (\<lambda>_. [])" using assms by (simp add: fam_def live_def)
  ultimately show ?thesis using assms by (simp add: proc_inv_def live_def)
qed

lemma proc_init_ok:
  assumes c: "cold st" and e: "got_proc env = Some i" "i \<noteq> p" "granted CLONE_VM env None"
  shows "\<exists>st'. proc_init (Some p) bs (Some f) env st = Some st' \<and> sound st' [i] ((\<lambda>_. [])(p := [i])) \<and>
    current (sd st') = Some p \<and> idleproc (sd st') = p \<and> initproc st' = i"
proof -
  let ?st0 = "st\<lparr>proc_list := list_init ProcList (proc_list st),
    hash_list := fold (\<lambda>i. list_init (HashHead i)) [0..<1024] (hash_list st)\<rparr>"
  obtain st1 where a: "alloc_proc (Some p) ?st0 = (Some p, st1)"
    "cptr (pcb st1 p) = None" "wait_state (pcb st1 p) = 0" "\<forall>x. x \<noteq> p \<longrightarrow> pcb st1 x = pcb ?st0 x \<and> res st1 x = res ?st0 x"
    "lab6_run_pool (sd st1) = lab6_run_pool (sd ?st0)"
    "proc_num (sd st1) = proc_num (sd ?st0)" "proc_list st1 = proc_list ?st0" "hash_list st1 = hash_list ?st0"
    "nr_process st1 = nr_process ?st0" "next_safe st1 = next_safe ?st0" "last_pid st1 = last_pid ?st0"
    by (rule alloc_proc_eq [of p ?st0]) blast
  have pm: "pmm (res st1 p) = None"
    using a(1) by (auto simp: alloc_proc_def Let_def upd_res_def upd_pcb_def on_sd_def)
  let ?st2 = "upd_res p (\<lambda>r. r\<lparr>filesp := Some f\<rparr>) (upd_pcb p (\<lambda>q. q\<lparr>need_resched := True\<rparr>)
    (upd_res p (\<lambda>r. r\<lparr>kstack := bs\<rparr>) (upd_pcb p (\<lambda>q. q\<lparr>pstate := PROC_RUNNABLE\<rparr>)
    (upd_pcb p (\<lambda>q. q\<lparr>pid := 0\<rparr>) (on_sd (\<lambda>s. s\<lparr>idleproc := p\<rparr>) st1)))))"
  obtain st3 where st3: "st3 = on_sd (\<lambda>s. s\<lparr>current := Some p\<rparr>) (?st2\<lparr>file_refs := (file_refs ?st2)(f := 1), nr_process := nr_process ?st2 + 1\<rparr>)"
    by simp
  have inv3: "proc_inv st3 [] (\<lambda>_. [])"
    unfolding st3 by (rule idle_only [where p = p and l = "proc_list st" and k = "hash_list st"])
      (use c a(2-) in \<open>simp_all add: cold_def upd_res_def on_sd_def\<close>)
  have s3: "current (sd st3) = Some p" "filesp (res st3 p) \<noteq> None" "pmm (res st3 p) = None"
    "idleproc (sd st3) = p" "nr_process st3 = 1" "last_pid st3 = MAX_PID" "pid (pcb st3 p) = 0" "pstate (pcb st3 p) = PROC_RUNNABLE"
    unfolding st3 using c a(2-) pm by (simp_all add: upd_res_def on_sd_def cold_def)
  have fr: "\<forall>x. got_proc env = Some x \<longrightarrow> x \<notin> live st3 []" using e(1,2) s3(4) by (simp add: live_def)
  have few: "(nr_process st3 \<ge> MAX_PROCESS) = False" "granted CLONE_VM env (pmm (res st3 p)) = True"
    "(Some i = None) = False"
    using s3(3,5) e by (simp_all add: MAX_PROCESS_def)
  from do_fork_ok [OF inv3 s3(1,2) fr, of CLONE_VM, unfolded e(1) few if_False not_True_eq_False Let_def option.sel]
  obtain r st4 where st4: "do_fork CLONE_VM env st3 = Some (r, st4)" "idleproc (sd st4) = idleproc (sd st3)"
    "proc_inv st4 [i] ((\<lambda>_. [])(p := [i]))" "pid (pcb st4 i) = r" "pstate (pcb st4 i) = PROC_RUNNABLE"
    "current (sd st4) = Some p" "\<forall>x \<in> live st3 []. pstate (pcb st4 x) = pstate (pcb st3 x) \<and> pid (pcb st4 x) = pid (pcb st3 x)"
    "([] :: nat list) = [] \<and> last_pid st3 = MAX_PID \<longrightarrow> r = 1"
    by (elim exE conjE) (rule that)
  have r1: "r = 1" using st4(8) s3(6) by simp
  note st4 = st4 [unfolded r1]
  have i4: "idleproc (sd st4) = p" using st4(2) s3(4) by simp
  have pp: "pstate (pcb st4 p) = PROC_RUNNABLE" "pid (pcb st4 p) = 0"
    using st4(7) s3(4,7,8) by (simp_all add: live_def)
  have t4: "tab_ok st4 [i]" and f4: "family st4 [i] ((\<lambda>_. [])(p := [i]))" using st4(3) by (simp_all add: proc_inv_def)
  have pids: "hashed st4 [i]" "\<forall>p \<in> set [i]. 1 \<le> pid (pcb st4 p) \<and> pid (pcb st4 p) < MAX_PID"
    "inj_on (\<lambda>p. pid (pcb st4 p)) (set [i])" using t4 by (simp_all add: tab_ok_def pids_ok_def)
  obtain r where r: "find_proc 1 st4 = Some r" "\<forall>p. r = Some p \<longleftrightarrow> p \<in> set [i] \<and> pid (pcb st4 p) = 1"
    using find_proc_spec [OF pids] by blast
  then have "r = Some i" using st4(4) by simp
  with r(1) have init: "proc_init (Some p) bs (Some f) env st = Some (st4\<lparr>initproc := i\<rparr>)"
    using a(1) st4(1,4) i4 pp(2) by (simp add: proc_init_def Let_def st3)
  have "sound (st4\<lparr>initproc := i\<rparr>) [i] ((\<lambda>_. [])(p := [i]))"
  proof -
    have "pparent (pcb st4 i) = Some p" using famD(3) [OF f4, of i p] by simp
    moreover have "proc_inv (st4\<lparr>initproc := i\<rparr>) [i] ((\<lambda>_. [])(p := [i]))"
      using st4(3) proc_inv_cong [of "st4\<lparr>initproc := i\<rparr>" st4] by simp
    ultimately show ?thesis
      using st4(5) i4 pp(1) by (simp add: sound_def booted_def lineage_def)
  qed
  with init st4(6) i4 show ?thesis by auto
qed

section \<open>A small table\<close>

text \<open>
  The idle process 0, \<^verbatim>\<open>initproc\<close> 1 in state \<^verbatim>\<open>s1\<close> and its child 2 in state
  \<^verbatim>\<open>s2\<close>; \<^verbatim>\<open>c\<close> runs.
\<close>

definition blank :: proc_struct where
  "blank = \<lparr>pstate = PROC_UNINIT, pid = - 1, runs = 0, need_resched = False, pparent = None, pflags = 0, exit_code = 0,
     wait_state = 0, cptr = None, yptr = None, optr = None, on_rq = False, time_slice = 0, lab6_stride = 0, lab6_priority = 0\<rparr>"

definition trio_pcbs :: "proc_state \<Rightarrow> 32 word \<Rightarrow> proc_state \<Rightarrow> nat \<Rightarrow> proc_struct" where
  "trio_pcbs s1 w1 s2 x =
     (if x = 0 then blank\<lparr>pstate := PROC_RUNNABLE, pid := 0, cptr := Some 1\<rparr>
      else if x = 1 then blank\<lparr>pstate := s1, pid := 1, pparent := Some 0, cptr := Some 2, wait_state := w1\<rparr>
      else if x = 2 then blank\<lparr>pstate := s2, pid := 2, pparent := Some 1, exit_code := 7\<rparr>
      else blank)"

definition trio :: "proc_state \<Rightarrow> 32 word \<Rightarrow> proc_state \<Rightarrow> nat \<Rightarrow> ptable" where
  "trio s1 w1 s2 c =
     \<lparr>sd = \<lparr>procs = trio_pcbs s1 w1 s2, idleproc = 0, current = Some c, run_list = \<lparr>prv = id, nxt = id\<rparr>, proc_num = 0,
             max_time_slice = 5, heap = \<lparr>parent = (\<lambda>_. None), left = (\<lambda>_. None), right = (\<lambda>_. None)\<rparr>, lab6_run_pool = None,
             timers = (\<lambda>_. \<lparr>expires = 0, tproc = None\<rparr>), timer_list = \<lparr>prv = id, nxt = id\<rparr>\<rparr>,
      res = (\<lambda>x. \<lparr>kstack = 100 + x, pmm = None, filesp = Some 0\<rparr>),
      proc_list = \<lparr>prv = id(ProcList := ProcLink 1, ProcLink 1 := ProcLink 2, ProcLink 2 := ProcList),
                   nxt = id(ProcList := ProcLink 2, ProcLink 2 := ProcLink 1, ProcLink 1 := ProcList)\<rparr>,
      hash_list = \<lparr>prv = id(HashHead 632 := HashLink 1, HashLink 1 := HashHead 632, HashHead 241 := HashLink 2, HashLink 2 := HashHead 241),
                   nxt = id(HashHead 632 := HashLink 1, HashLink 1 := HashHead 632, HashHead 241 := HashLink 2, HashLink 2 := HashHead 241)\<rparr>,
      initproc = 1, nr_process = 3, next_safe = MAX_PID, last_pid = 2, mm_refs = (\<lambda>_. 0), file_refs = (\<lambda>_. 3), released = []\<rparr>"

definition trio_kids :: "nat \<Rightarrow> nat list" where
  "trio_kids = (\<lambda>_. [])(0 := [1], 1 := [2])"

lemma hash_1_2: "pid_hashfn 1 = 632" "pid_hashfn 2 = 241"
  by (simp_all add: pid_hashfn_def hash32_def GOLDEN_RATIO_PRIME_32_def Let_def)

lemma trio_tab: "tab_ok (trio s1 w1 s2 c) [2, 1]"
proof -
  have "hashed (trio s1 w1 s2 c) [2, 1]"
    unfolding hashed_def
    by (intro exI [of _ "(\<lambda>_. [])(632 := [1], 241 := [2])"])
      (auto simp: ring_def trio_def trio_pcbs_def blank_def hash_1_2)
  then show ?thesis
    by (simp add: tab_ok_def on_list_def ring_def pids_ok_def trio_def trio_pcbs_def blank_def MAX_PID_def MAX_PROCESS_def)
qed

lemma trio_inv:
  assumes "s1 = PROC_RUNNABLE \<and> c = 1 \<and> s2 \<noteq> PROC_RUNNABLE \<or> s2 = PROC_RUNNABLE \<and> c = 2 \<and> s1 \<noteq> PROC_RUNNABLE"
    and "w1 \<noteq> 0 \<longrightarrow> s1 = PROC_SLEEPING"
  shows "proc_inv (trio s1 w1 s2 c) [2, 1] trio_kids"
proof -
  let ?st = "trio s1 w1 s2 c"
  have f: "family ?st [2, 1] trio_kids"
    by (auto simp: fam_def live_def trio_def trio_pcbs_def blank_def trio_kids_def)
  have "waiting_runnable (sd ?st) = {}"
    using assms(1) by (auto simp: waiting_runnable_def trio_def trio_pcbs_def blank_def)
  then have "queue_inv (sd ?st)"
    using ready_empty [of "sd ?st"] by (simp add: queue_inv_def trio_def)
  then have r: "runs_ok ?st [2, 1]"
    using assms by (auto simp: runs_ok_def live_def trio_def trio_pcbs_def blank_def)
  show ?thesis
    using trio_tab f r assms(1) by (auto simp: proc_inv_def live_def trio_def trio_pcbs_def blank_def)
qed

lemma trio_booted: "booted (trio s1 w1 s2 c) [2, 1]"
  by (simp add: booted_def trio_def trio_pcbs_def blank_def)

section \<open>The properties\<close>

text \<open>C25: while at most 8190 processes are listed, \<^verbatim>\<open>get_pid\<close> returns, although it restarts its
  search whenever it runs into a used pid: the pid is between 1 and \<^verbatim>\<open>MAX_PID\<close>, none of
  the listed processes has it, and with the new process in the list the static variables
  again have no used pid strictly between them.\<close>
theorem get_pid_fresh:
  assumes "on_list st ps" "pids_ok st ps" "length ps < nat (MAX_PID - 1)" "p \<notin> set ps"
  shows "\<exists>n st'. get_pid st = Some (n, st') \<and> 1 \<le> n \<and> n < MAX_PID \<and>
    (\<forall>q \<in> set ps. pid (pcb st' q) \<noteq> n) \<and> on_list st' ps \<and>
    pids_ok (upd_pcb p (\<lambda>q. q\<lparr>pid := n\<rparr>) st') (p # ps)"
proof -
  obtain n s where "get_pid st = Some (n, st\<lparr>last_pid := n, next_safe := s\<rparr>)" "1 \<le> n" "n < s" "s \<le> MAX_PID"
    "\<forall>p \<in> set ps. \<not> (n \<le> pid (pcb st p) \<and> pid (pcb st p) < s)"
    using get_pid_free [OF assms(1-3)] by auto
  with assms show ?thesis
    by (auto simp: pids_ok_def on_list_def upd_pcb_def on_sd_def inj_on_def)
qed


theorem get_pid_fresh_witness:
  "\<exists>n st'. get_pid (trio PROC_SLEEPING 0 PROC_RUNNABLE 2) = Some (n, st') \<and> 1 \<le> n \<and> n < MAX_PID \<and>
    (\<forall>q \<in> set [2, 1]. pid (pcb st' q) \<noteq> n) \<and> on_list st' [2, 1] \<and>
    pids_ok (upd_pcb 3 (\<lambda>q. q\<lparr>pid := n\<rparr>) st') [3, 2, 1]"
  by (rule get_pid_fresh) (use trio_tab in \<open>simp_all add: tab_ok_def MAX_PID_def MAX_PROCESS_def\<close>)

text \<open>C26: the outcomes of \<^verbatim>\<open>do_fork\<close>. With 4096 processes, or without memory for the
  descriptor, it fails and changes nothing; when a later request fails it returns
  \<^verbatim>\<open>-E_NO_MEM\<close> with the table, the families and the ready queue as before; otherwise it
  returns a pid no listed process has, and the child is the first of the caller's children,
  runnable and on the ready queue.\<close>
theorem fork_outcomes:
  assumes "proc_inv st ps kids" "current (sd st) = Some c" "filesp (res st c) \<noteq> None"
    and "\<forall>p. got_proc env = Some p \<longrightarrow> p \<notin> live st ps"
  shows "\<exists>r st'. do_fork fl env st = Some (r, st') \<and>
    (if nr_process st \<ge> MAX_PROCESS then r = - E_NO_FREE_PROC \<and> st' = st
     else if got_proc env = None then r = - E_NO_MEM \<and> st' = st
     else if \<not> granted fl env (pmm (res st c))
     then r = - E_NO_MEM \<and> proc_inv st' ps kids \<and> (\<forall>x \<in> live st ps. pcb st' x = pcb st x)
     else let p = the (got_proc env) in 1 \<le> r \<and> r < MAX_PID \<and> (\<forall>q \<in> set ps. pid (pcb st q) \<noteq> r) \<and>
       proc_inv st' (p # ps) (kids(c := p # kids c)) \<and> pid (pcb st' p) = r \<and> pstate (pcb st' p) = PROC_RUNNABLE \<and>
       current (sd st') = Some c)"
proof -
  from do_fork_ok [OF assms, of fl] obtain r st' where "do_fork fl env st = Some (r, st')"
    and r: "if nr_process st \<ge> MAX_PROCESS then r = - E_NO_FREE_PROC \<and> st' = st
     else if got_proc env = None then r = - E_NO_MEM \<and> st' = st
     else if \<not> granted fl env (pmm (res st c)) then r = - E_NO_MEM \<and> proc_inv st' ps kids \<and>
       (\<forall>x \<in> live st ps. pcb st' x = pcb st x)
     else let p = the (got_proc env) in 1 \<le> r \<and> r < MAX_PID \<and> (\<forall>q \<in> set ps. pid (pcb st q) \<noteq> r) \<and>
       proc_inv st' (p # ps) (kids(c := p # kids c)) \<and> pid (pcb st' p) = r \<and>
       pstate (pcb st' p) = PROC_RUNNABLE \<and> current (sd st') = Some c \<and>
       (\<forall>x \<in> live st ps. pstate (pcb st' x) = pstate (pcb st x) \<and> pid (pcb st' x) = pid (pcb st x)) \<and>
       (ps = [] \<and> last_pid st = MAX_PID \<longrightarrow> r = 1)"
    by (elim exE conjE) (rule that)
  then show ?thesis
    by (intro exI [of _ r] exI [of _ st'] conjI) (simp_all add: Let_def split: if_splits)
qed

definition rich_env :: fork_env where
  "rich_env = \<lparr>got_proc = Some 3, got_stack = Some 9, got_files = Some 1, dup_files_ret = 0, got_mm = None,
     setup_pgdir_ret = 0, dup_mmap_ret = 0\<rparr>"

theorem fork_outcomes_witness:
  "\<exists>r st'. do_fork 0 rich_env (trio PROC_SLEEPING 0 PROC_RUNNABLE 2) = Some (r, st') \<and> 1 \<le> r \<and> r < MAX_PID \<and>
    proc_inv st' [3, 2, 1] (trio_kids(2 := [3])) \<and> pid (pcb st' 3) = r \<and> pstate (pcb st' 3) = PROC_RUNNABLE"
proof -
  let ?st = "trio PROC_SLEEPING 0 PROC_RUNNABLE 2"
  have "proc_inv ?st [2, 1] trio_kids" by (rule trio_inv) simp_all
  moreover have "\<forall>p. got_proc rich_env = Some p \<longrightarrow> p \<notin> live ?st [2, 1]"
    by (simp add: rich_env_def live_def trio_def)
  moreover have "current (sd ?st) = Some 2" "filesp (res ?st 2) \<noteq> None" by (simp_all add: trio_def)
  moreover have "\<not> nr_process ?st \<ge> MAX_PROCESS" "got_proc rich_env \<noteq> None" "granted 0 rich_env (pmm (res ?st 2))"
    "the (got_proc rich_env) = 3" "trio_kids(2 := 3 # trio_kids 2) = trio_kids(2 := [3])"
    by (simp_all add: trio_def MAX_PROCESS_def rich_env_def granted_def trio_kids_def)
  ultimately show ?thesis
    using fork_outcomes [of ?st "[2, 1]" trio_kids 2 rich_env 0] unfolding Let_def by (simp only: if_False simp_thms) blast
qed

text \<open>C27: \<^verbatim>\<open>do_exit\<close> of a process other than the idle one and \<^verbatim>\<open>initproc\<close>: it
  becomes a zombie with the exit code, a parent that waits for a child is woken, its
  children move to the front of those of \<^verbatim>\<open>initproc\<close>, which is woken when it waits and
  one of them is a zombie; nobody else changes state. The reference count of its open files
  stays, so the files of a process that exits are never closed.\<close>
theorem exit_hands_over:
  assumes "proc_inv st ps kids" "booted st ps" "current (sd st) = Some c" "c \<noteq> idleproc (sd st)" "c \<noteq> initproc st"
  shows "\<exists>st'. do_exit code st = Some st' \<and> booted st' ps \<and>
    proc_inv st' ps (kids(c := [], initproc st := rev (kids c) @ kids (initproc st))) \<and>
    (\<forall>x. pstate (pcb st' x) = (if x = c then PROC_ZOMBIE
      else if wait_state (pcb st x) = WT_CHILD \<and> (pparent (pcb st c) = Some x \<or>
        x = initproc st \<and> (\<exists>k \<in> set (kids c). pstate (pcb st k) = PROC_ZOMBIE)) then PROC_RUNNABLE
      else pstate (pcb st x))) \<and>
    (\<forall>x. exit_code (pcb st' x) = (if x = c then code else exit_code (pcb st x))) \<and> file_refs st' = file_refs st"
proof -
  from do_exit_ok [OF assms, of code] obtain st' where "do_exit code st = Some st'" "booted st' ps"
    "proc_inv st' ps (kids(c := [], initproc st := rev (kids c) @ kids (initproc st)))"
    "\<forall>x. pstate (pcb st' x) = (if x = c then PROC_ZOMBIE
      else if wait_state (pcb st x) = WT_CHILD \<and> (pparent (pcb st c) = Some x \<or>
        x = initproc st \<and> (\<exists>k \<in> set (kids c). pstate (pcb st k) = PROC_ZOMBIE)) then PROC_RUNNABLE
      else pstate (pcb st x))"
    "\<forall>x. exit_code (pcb st' x) = (if x = c then code else exit_code (pcb st x))" "file_refs st' = file_refs st"
    by (elim exE conjE) (rule that)
  then show ?thesis by (intro exI [of _ st'] conjI)
qed

theorem exit_hands_over_witness:
  "\<exists>st'. do_exit 7 (trio PROC_SLEEPING WT_CHILD PROC_RUNNABLE 2) = Some st' \<and> zombie st' 2 \<and>
    pstate (pcb st' 1) = PROC_RUNNABLE \<and> exit_code (pcb st' 2) = 7"
proof -
  let ?st = "trio PROC_SLEEPING WT_CHILD PROC_RUNNABLE 2"
  have inv: "proc_inv ?st [2, 1] trio_kids" by (rule trio_inv) simp_all
  have c: "current (sd ?st) = Some 2" "2 \<noteq> idleproc (sd ?st)" "2 \<noteq> initproc ?st"
    "wait_state (pcb ?st 1) = WT_CHILD" "pparent (pcb ?st 2) = Some 1"
    by (simp_all add: trio_def trio_pcbs_def blank_def)
  obtain st' where "do_exit 7 ?st = Some st'"
    and p: "\<forall>x. pstate (pcb st' x) = (if x = 2 then PROC_ZOMBIE
      else if wait_state (pcb ?st x) = WT_CHILD \<and> (pparent (pcb ?st 2) = Some x \<or>
        x = initproc ?st \<and> (\<exists>k \<in> set (trio_kids 2). pstate (pcb ?st k) = PROC_ZOMBIE)) then PROC_RUNNABLE
      else pstate (pcb ?st x))"
    and e: "\<forall>x. exit_code (pcb st' x) = (if x = 2 then 7 else exit_code (pcb ?st x))"
    using exit_hands_over [OF inv trio_booted c(1-3), of 7]
    by (elim exE conjE) (rule that)
  moreover have "zombie st' 2" using p by simp
  moreover have "pstate (pcb st' 1) = PROC_RUNNABLE" using p [rule_format, of 1] c by simp
  ultimately show ?thesis using e by auto
qed

text \<open>C28: the outcomes of \<^verbatim>\<open>do_wait\<close>. A bad address is refused. If a child that is
  asked for (any for pid 0) is a zombie, one such child is taken out of the table, its
  exit code returned and its stack and descriptor freed; if there are only living ones,
  the caller goes to sleep until a child exits; without one the call fails with
  \<^verbatim>\<open>-E_BAD_PROC\<close>.\<close>
theorem wait_outcomes:
  assumes "proc_inv st ps kids" "lineage st kids" "booted st ps"
    and "current (sd st) = Some c" "c \<noteq> idleproc (sd st)"
  shows "\<exists>out st'. do_wait n store ok st = Some (out, st') \<and>
    (if store \<and> \<not> ok then out = Returned (- E_INVAL) None \<and> st' = st
     else if \<exists>p \<in> set (kids c). zombie st p \<and> wanted n st p
     then \<exists>p \<in> set (kids c). zombie st p \<and> wanted n st p \<and>
       out = Returned 0 (if store then Some (exit_code (pcb st p)) else None) \<and>
       proc_inv st' (filter (\<lambda>q. q \<noteq> p) ps) (kids(c := filter (\<lambda>q. q \<noteq> p) (kids c))) \<and>
       released st' = released st @ [StackFreed (kstack (res st p)), ProcFreed p] \<and>
       (\<forall>x. pstate (pcb st' x) = pstate (pcb st x))
     else if \<exists>p \<in> set (kids c). wanted n st p
     then out = Waits \<and> proc_inv st' ps kids \<and>
       (\<forall>x. pstate (pcb st' x) = (if x = c then PROC_SLEEPING else pstate (pcb st x))) \<and>
       wait_state (pcb st' c) = WT_CHILD \<and> current (sd st') \<noteq> Some c
     else out = Returned (- E_BAD_PROC) None \<and> st' = st)"
proof (cases "store \<and> \<not> ok")
  case True
  then show ?thesis by (simp add: do_wait_def)
next
  case False
  have w: "do_wait n store ok st = wait_pass n store st" unfolding do_wait_def if_not_P [OF False] ..
  show ?thesis
    unfolding w if_not_P [OF False] using wait_pass_ok [OF assms, of n store]
    by (elim exE conjE) (intro exI conjI)
qed

theorem wait_outcomes_witness:
  "\<exists>st'. do_wait 0 True True (trio PROC_RUNNABLE 0 PROC_ZOMBIE 1) = Some (Returned 0 (Some 7), st') \<and>
    released st' = [StackFreed 102, ProcFreed 2] \<and> proc_inv st' [1] (trio_kids(1 := []))"
proof -
  let ?st = "trio PROC_RUNNABLE 0 PROC_ZOMBIE 1"
  have inv: "proc_inv ?st [2, 1] trio_kids" by (rule trio_inv) simp_all
  have lin: "lineage ?st trio_kids"
    by (auto simp: lineage_def trio_def trio_pcbs_def blank_def trio_kids_def)
  have c: "current (sd ?st) = Some 1" "1 \<noteq> idleproc (sd ?st)" by (simp_all add: trio_def)
  have k: "set (trio_kids 1) = {2}" "trio_kids(1 := filter (\<lambda>q. q \<noteq> 2) (trio_kids 1)) = trio_kids(1 := [])"
    "filter (\<lambda>q. q \<noteq> 2) [2, 1 :: nat] = [1]" by (simp_all add: trio_kids_def)
  have z: "zombie ?st 2" "exit_code (pcb ?st 2) = 7" "released ?st = []" "kstack (res ?st 2) = 102"
    by (simp_all add: trio_def trio_pcbs_def blank_def)
  from wait_outcomes [OF inv lin trio_booted c, of 0 True True] show ?thesis
    unfolding k by (auto simp: z wanted_def k simp del: One_nat_def)
qed

text \<open>C24: \<^verbatim>\<open>proc_init\<close> succeeds from the cold state, and after any number of forks,
  exits, waits, kills, sleeps, wake-ups and preemptions the table is sound: pids are
  pairwise distinct and in range, \<^verbatim>\<open>find_proc\<close> returns for every number exactly the
  listed process with this pid, the pointers of each live process are the list of those
  whose parent it is, the count of processes is right, the ready queue holds exactly the
  runnable processes that wait for the processor, and zombies have no children.\<close>
theorem process_table_sound:
  assumes "cold st0" "got_proc env = Some i" "i \<noteq> p" "granted CLONE_VM env None"
  shows "\<exists>st. proc_init (Some p) bs (Some f) env st0 = Some st \<and>
    (\<forall>st'. kstep\<^sup>*\<^sup>* st st' \<longrightarrow> (\<exists>ps kids. on_list st' ps \<and> nr_process st' = int (length ps) + 1 \<and>
      inj_on (\<lambda>p. pid (pcb st' p)) (set ps) \<and> (\<forall>p \<in> set ps. 1 \<le> pid (pcb st' p) \<and> pid (pcb st' p) < MAX_PID) \<and>
      (\<forall>n. \<exists>r. find_proc n st' = Some r \<and> (\<forall>p. r = Some p \<longleftrightarrow> p \<in> set ps \<and> pid (pcb st' p) = n)) \<and>
      family st' ps kids \<and> queue_inv (sd st') \<and> initproc st' \<in> set ps \<and> (\<forall>p. zombie st' p \<longrightarrow> kids p = [])))"
proof -
  obtain st where st: "proc_init (Some p) bs (Some f) env st0 = Some st" "sound st [i] ((\<lambda>_. [])(p := [i]))"
    using proc_init_ok [OF assms] by blast
  have "\<exists>ps kids. on_list st' ps \<and> nr_process st' = int (length ps) + 1 \<and>
      inj_on (\<lambda>p. pid (pcb st' p)) (set ps) \<and> (\<forall>p \<in> set ps. 1 \<le> pid (pcb st' p) \<and> pid (pcb st' p) < MAX_PID) \<and>
      (\<forall>n. \<exists>r. find_proc n st' = Some r \<and> (\<forall>p. r = Some p \<longleftrightarrow> p \<in> set ps \<and> pid (pcb st' p) = n)) \<and>
      family st' ps kids \<and> queue_inv (sd st') \<and> initproc st' \<in> set ps \<and> (\<forall>p. zombie st' p \<longrightarrow> kids p = [])"
    if r: "kstep\<^sup>*\<^sup>* st st'" for st'
  proof -
    obtain ps kids where s: "sound st' ps kids" using ksteps_sound [OF r st(2)] by blast
    then have t: "tab_ok st' ps" "family st' ps kids" "queue_inv (sd st')" "initproc st' \<in> set ps"
      "\<forall>p. zombie st' p \<longrightarrow> kids p = []"
      by (simp_all add: sound_def proc_inv_def runs_ok_def booted_def lineage_def)
    then have "hashed st' ps" "\<forall>p \<in> set ps. 1 \<le> pid (pcb st' p) \<and> pid (pcb st' p) < MAX_PID"
      "inj_on (\<lambda>p. pid (pcb st' p)) (set ps)" "on_list st' ps" "nr_process st' = int (length ps) + 1"
      by (simp_all add: tab_ok_def pids_ok_def)
    with t find_proc_spec [OF this(1-3)] show ?thesis by (intro exI [of _ ps] exI [of _ kids] conjI) (assumption | rule allI)+
  qed
  with st(1) show ?thesis by blast
qed

definition cold_state :: ptable where
  "cold_state = (trio PROC_UNINIT 0 PROC_UNINIT 0)\<lparr>sd := (sd (trio PROC_UNINIT 0 PROC_UNINIT 0))\<lparr>procs := (\<lambda>_. blank)\<rparr>,
     nr_process := 0, last_pid := MAX_PID\<rparr>"

theorem process_table_sound_witness:
  "\<exists>st ps kids. proc_init (Some 0) 5 (Some 0) rich_env cold_state = Some st \<and> on_list st ps \<and>
    inj_on (\<lambda>p. pid (pcb st p)) (set ps) \<and> family st ps kids \<and> queue_inv (sd st) \<and> initproc st \<in> set ps"
proof -
  have "cold cold_state" "got_proc rich_env = Some 3" "3 \<noteq> (0 :: nat)" "granted CLONE_VM rich_env None"
    by (simp_all add: cold_def cold_state_def trio_def blank_def rich_env_def granted_def)
  from process_table_sound [OF this, of 5 0] show ?thesis by (blast intro: rtranclp.rtrancl_refl)
qed

end
