(* ===== verification/SfsIo.thy ===== *)
theory SfsIo
  imports Bitmap Str
begin

text \<open>
  kern/fs/sfs/sfs.h and kern/fs/sfs/sfs_io.c: the structures of the simple file system on
  disk and its block input and output. A buffer is passed by value: a call that fills a
  buffer takes the bytes it held and returns the bytes it holds afterwards. The device is
  the number of its blocks and their contents; \<^verbatim>\<open>dop_io\<close> is what \<^verbatim>\<open>disk0_io\<close>
  of kern/fs/devs/dev_disk0.c does with a request for one block, which \<^verbatim>\<open>Disk0\<close>
  proves of that function. The locks around the bodies have no counterpart.
\<close>

section \<open>Structures on disk\<close>

abbreviation SFS_MAGIC :: nat where "SFS_MAGIC \<equiv> 0x2f8dbe2a"
abbreviation SFS_BLKSIZE :: nat where "SFS_BLKSIZE \<equiv> 4096"
abbreviation SFS_NDIRECT :: nat where "SFS_NDIRECT \<equiv> 12"
abbreviation SFS_MAX_INFO_LEN :: nat where "SFS_MAX_INFO_LEN \<equiv> 31"
abbreviation SFS_MAX_FNAME_LEN :: nat where "SFS_MAX_FNAME_LEN \<equiv> 255"
abbreviation SFS_MAX_FILE_SIZE :: nat where "SFS_MAX_FILE_SIZE \<equiv> 134217728"
abbreviation (input) SFS_BLKN_SUPER :: nat where "SFS_BLKN_SUPER \<equiv> 0"
abbreviation (input) SFS_BLKN_ROOT :: nat where "SFS_BLKN_ROOT \<equiv> 1"
abbreviation (input) SFS_BLKN_FREEMAP :: nat where "SFS_BLKN_FREEMAP \<equiv> 2"
abbreviation SFS_BLKBITS :: nat where "SFS_BLKBITS \<equiv> 32768"
abbreviation SFS_BLK_NENTRY :: nat where "SFS_BLK_NENTRY \<equiv> 1024"
abbreviation (input) SFS_TYPE_FILE :: nat where "SFS_TYPE_FILE \<equiv> 1"
abbreviation (input) SFS_TYPE_DIR :: nat where "SFS_TYPE_DIR \<equiv> 2"
abbreviation (input) SFS_TYPE_LINK :: nat where "SFS_TYPE_LINK \<equiv> 3"

record sfs_super =
  magic :: nat
  sblocks :: nat
  unused_blocks :: nat
  info :: "byte list"

record sfs_disk_inode =
  din_size :: nat
  din_type :: nat
  din_nlinks :: nat
  din_blocks :: nat
  din_direct :: "nat list"
  din_indirect :: nat

record sfs_disk_entry =
  ent_ino :: nat
  ent_name :: "byte list"

record sfs_inode =
  sin_din :: sfs_disk_inode
  sin_ino :: nat
  sin_dirty :: bool
  reclaim_count :: int

record sfs_fs =
  super :: sfs_super
  freemap :: bitmap
  super_dirty :: bool
  d_blocks :: nat
  disk :: "nat \<Rightarrow> byte list"

text \<open>The bytes of the structures: integers are little endian.\<close>

primrec le_bytes :: "nat \<Rightarrow> nat \<Rightarrow> byte list" where
  "le_bytes 0 n = []"
| "le_bytes (Suc k) n = of_nat n # le_bytes k (n div 256)"

primrec le_nat :: "byte list \<Rightarrow> nat" where
  "le_nat [] = 0"
| "le_nat (b # bs) = unat b + 256 * le_nat bs"

definition slice :: "nat \<Rightarrow> nat \<Rightarrow> 'b list \<Rightarrow> 'b list" where
  "slice off n xs = take n (drop off xs)"

definition splice_at :: "nat \<Rightarrow> 'b list \<Rightarrow> 'b list \<Rightarrow> 'b list" where
  "splice_at off bs xs = take off xs @ bs @ drop (off + length bs) xs"

definition super_bytes :: "sfs_super \<Rightarrow> byte list" where
  "super_bytes s = le_bytes 4 (magic s) @ le_bytes 4 (sblocks s) @ le_bytes 4 (unused_blocks s) @ info s"

definition bytes_super :: "byte list \<Rightarrow> sfs_super" where
  "bytes_super bs = \<lparr>magic = le_nat (slice 0 4 bs), sblocks = le_nat (slice 4 4 bs),
     unused_blocks = le_nat (slice 8 4 bs), info = slice 12 (SFS_MAX_INFO_LEN + 1) bs\<rparr>"

definition din_bytes :: "sfs_disk_inode \<Rightarrow> byte list" where
  "din_bytes d = le_bytes 4 (din_size d) @ le_bytes 2 (din_type d) @ le_bytes 2 (din_nlinks d) @
     le_bytes 4 (din_blocks d) @ concat (map (le_bytes 4) (din_direct d)) @ le_bytes 4 (din_indirect d)"

definition bytes_din :: "byte list \<Rightarrow> sfs_disk_inode" where
  "bytes_din bs = \<lparr>din_size = le_nat (slice 0 4 bs), din_type = le_nat (slice 4 2 bs),
     din_nlinks = le_nat (slice 6 2 bs), din_blocks = le_nat (slice 8 4 bs),
     din_direct = map (\<lambda>i. le_nat (slice (12 + 4 * i) 4 bs)) [0..<SFS_NDIRECT],
     din_indirect = le_nat (slice 60 4 bs)\<rparr>"

definition entry_bytes :: "sfs_disk_entry \<Rightarrow> byte list" where
  "entry_bytes e = le_bytes 4 (ent_ino e) @ ent_name e"

definition bytes_entry :: "byte list \<Rightarrow> sfs_disk_entry" where
  "bytes_entry bs = \<lparr>ent_ino = le_nat (slice 0 4 bs), ent_name = slice 4 (SFS_MAX_FNAME_LEN + 1) bs\<rparr>"

abbreviation sizeof_super :: nat where "sizeof_super \<equiv> 44"
abbreviation sizeof_din :: nat where "sizeof_din \<equiv> 64"
abbreviation sizeof_entry :: nat where "sizeof_entry \<equiv> 260"

definition sfs_freemap_bits :: "sfs_super \<Rightarrow> nat" where
  "sfs_freemap_bits s = w32 (ROUNDUP (sblocks s) SFS_BLKBITS)"

definition sfs_freemap_blocks :: "sfs_super \<Rightarrow> nat" where
  "sfs_freemap_blocks s = w32 (ROUNDUP_DIV (sblocks s) SFS_BLKBITS)"

section \<open>Block input and output\<close>

text \<open>The result is the return code, the buffer and the file system with its device.\<close>

definition dop_io :: "sfs_fs \<Rightarrow> byte list \<Rightarrow> nat \<Rightarrow> bool \<Rightarrow> int \<times> byte list \<times> sfs_fs" where
  "dop_io sfs buf offset write =
     (let blkno = offset div SFS_BLKSIZE
      in if blkno + 1 > d_blocks sfs then (- E_INVAL, buf, sfs)
         else if write then (0, buf, sfs\<lparr>disk := (disk sfs)(blkno := buf)\<rparr>)
         else (0, disk sfs blkno, sfs))"

definition sfs_rwblock_nolock ::
    "sfs_fs \<Rightarrow> byte list \<Rightarrow> nat \<Rightarrow> bool \<Rightarrow> bool \<Rightarrow> (int \<times> byte list \<times> sfs_fs) option" where
  "sfs_rwblock_nolock sfs buf blkno write check =
     do { kassert ((blkno \<noteq> 0 \<or> \<not> check) \<and> blkno < sblocks (super sfs));
          Some (dop_io sfs buf (w32 (blkno * SFS_BLKSIZE)) write) }"

text \<open>The loop of \<^verbatim>\<open>sfs_rwblock\<close>; \<^verbatim>\<open>buf\<close> is what is left of the buffer.\<close>

primrec sfs_rwblock_loop ::
    "nat \<Rightarrow> sfs_fs \<Rightarrow> byte list \<Rightarrow> nat \<Rightarrow> bool \<Rightarrow> (int \<times> byte list \<times> sfs_fs) option" where
  "sfs_rwblock_loop 0 sfs buf blkno write = Some (0, buf, sfs)"
| "sfs_rwblock_loop (Suc nblks) sfs buf blkno write =
     do { (ret, b, sfs) \<leftarrow> sfs_rwblock_nolock sfs (take SFS_BLKSIZE buf) blkno write True;
          if ret \<noteq> 0 then Some (ret, b @ drop SFS_BLKSIZE buf, sfs)
          else do { (ret, bs, sfs) \<leftarrow> sfs_rwblock_loop nblks sfs (drop SFS_BLKSIZE buf) (w32 (blkno + 1)) write;
                    Some (ret, b @ bs, sfs) } }"

definition sfs_rwblock ::
    "sfs_fs \<Rightarrow> byte list \<Rightarrow> nat \<Rightarrow> nat \<Rightarrow> bool \<Rightarrow> (int \<times> byte list \<times> sfs_fs) option" where
  "sfs_rwblock sfs buf blkno nblks write = sfs_rwblock_loop nblks sfs buf blkno write"

definition sfs_rblock :: "sfs_fs \<Rightarrow> byte list \<Rightarrow> nat \<Rightarrow> nat \<Rightarrow> (int \<times> byte list \<times> sfs_fs) option" where
  "sfs_rblock sfs buf blkno nblks = sfs_rwblock sfs buf blkno nblks False"

definition sfs_wblock :: "sfs_fs \<Rightarrow> byte list \<Rightarrow> nat \<Rightarrow> nat \<Rightarrow> (int \<times> byte list \<times> sfs_fs) option" where
  "sfs_wblock sfs buf blkno nblks = sfs_rwblock sfs buf blkno nblks True"

text \<open>
  \<^verbatim>\<open>sfs_buffer\<close> is filled before it is used in every call, so what it holds between
  calls is not kept; \<^verbatim>\<open>[]\<close> stands for it.
\<close>

definition sfs_rbuf :: "sfs_fs \<Rightarrow> byte list \<Rightarrow> nat \<Rightarrow> nat \<Rightarrow> nat \<Rightarrow> (int \<times> byte list \<times> sfs_fs) option" where
  "sfs_rbuf sfs buf len blkno offset =
     do { kassert (offset < SFS_BLKSIZE \<and> offset + len \<le> SFS_BLKSIZE);
          (ret, sfs_buffer, sfs) \<leftarrow> sfs_rwblock_nolock sfs [] blkno False True;
          if ret = 0 then Some (ret, splice_at 0 (slice offset len sfs_buffer) buf, sfs)
          else Some (ret, buf, sfs) }"

definition sfs_wbuf :: "sfs_fs \<Rightarrow> byte list \<Rightarrow> nat \<Rightarrow> nat \<Rightarrow> nat \<Rightarrow> (int \<times> byte list \<times> sfs_fs) option" where
  "sfs_wbuf sfs buf len blkno offset =
     do { kassert (offset < SFS_BLKSIZE \<and> offset + len \<le> SFS_BLKSIZE);
          (ret, sfs_buffer, sfs) \<leftarrow> sfs_rwblock_nolock sfs [] blkno False True;
          if ret = 0 then
            do { (ret, sfs_buffer, sfs) \<leftarrow>
                   sfs_rwblock_nolock sfs (splice_at offset (take len buf) sfs_buffer) blkno True True;
                 Some (ret, buf, sfs) }
          else Some (ret, buf, sfs) }"

definition sfs_sync_super :: "sfs_fs \<Rightarrow> (int \<times> sfs_fs) option" where
  "sfs_sync_super sfs =
     do { (ret, sfs_buffer, sfs) \<leftarrow> sfs_rwblock_nolock sfs
            (splice_at 0 (super_bytes (super sfs)) (replicate SFS_BLKSIZE 0)) SFS_BLKN_SUPER True False;
          Some (ret, sfs) }"

definition freemap_bytes :: "32 word list \<Rightarrow> byte list" where
  "freemap_bytes ws = concat (map (\<lambda>w. le_bytes 4 (unat w)) ws)"

definition sfs_sync_freemap :: "sfs_fs \<Rightarrow> (int \<times> sfs_fs) option" where
  "sfs_sync_freemap sfs =
     do { let nblks = sfs_freemap_blocks (super sfs);
          (ret, buf, sfs) \<leftarrow> sfs_wblock sfs (freemap_bytes (snd (bitmap_getdata (freemap sfs)))) SFS_BLKN_FREEMAP nblks;
          Some (ret, sfs) }"

text \<open>
  \<^verbatim>\<open>ret\<close> is not set when there are no blocks to clear, so what it holds before the loop
  is an argument.
\<close>

primrec sfs_clear_loop :: "nat \<Rightarrow> int \<Rightarrow> sfs_fs \<Rightarrow> nat \<Rightarrow> (int \<times> sfs_fs) option" where
  "sfs_clear_loop 0 ret sfs blkno = Some (ret, sfs)"
| "sfs_clear_loop (Suc nblks) ret sfs blkno =
     do { (ret, sfs_buffer, sfs) \<leftarrow> sfs_rwblock_nolock sfs (replicate SFS_BLKSIZE 0) blkno True True;
          if ret \<noteq> 0 then Some (ret, sfs) else sfs_clear_loop nblks ret sfs (w32 (blkno + 1)) }"

definition sfs_clear_block :: "int \<Rightarrow> sfs_fs \<Rightarrow> nat \<Rightarrow> nat \<Rightarrow> (int \<times> sfs_fs) option" where
  "sfs_clear_block ret sfs blkno nblks = sfs_clear_loop nblks ret sfs blkno"

section \<open>Bytes and structures\<close>

lemma length_le_bytes [simp]: "length (le_bytes k n) = k"
  by (induction k arbitrary: n) simp_all

lemma le_nat_le_bytes: "le_nat (le_bytes k n) = n mod 256 ^ k"
proof (induction k arbitrary: n)
  case 0
  then show ?case by simp
next
  case (Suc k)
  have "n mod 256 ^ Suc k = n mod 256 + 256 * (n div 256 mod 256 ^ k)"
    by (simp add: mod_mult2_eq)
  with Suc show ?case by (simp add: unat_of_nat)
qed

lemma le_nat_u32 [simp]: "n < 2 ^ 32 \<Longrightarrow> le_nat (le_bytes 4 n) = n"
  by (simp add: le_nat_le_bytes)

lemma le_nat_u16 [simp]: "n < 2 ^ 16 \<Longrightarrow> le_nat (le_bytes 2 n) = n"
  by (simp add: le_nat_le_bytes)

lemma le_nat_less: "le_nat bs < 256 ^ length bs"
proof (induction bs)
  case Nil
  then show ?case by simp
next
  case (Cons b bs)
  have "unat b < 2 ^ LENGTH(8)" by (rule unsigned_less)
  then have "unat b < 256" by simp
  with Cons show ?case by simp
qed

lemma le_nat_slice: "le_nat (slice off 4 xs) < 2 ^ 32"
proof -
  have "length (slice off 4 xs) \<le> 4" by (simp add: slice_def)
  then have "(256 :: nat) ^ length (slice off 4 xs) \<le> 256 ^ 4" by (rule power_increasing) simp
  with le_nat_less [of "slice off 4 xs"] show ?thesis by simp
qed

lemma length_slice [simp]: "length (slice off n xs) = min n (length xs - off)"
  by (simp add: slice_def)

lemma nth_slice: "i < n \<Longrightarrow> off + i < length xs \<Longrightarrow> slice off n xs ! i = xs ! (off + i)"
  by (simp add: slice_def)

lemma slice_append_left: "off + n \<le> length xs \<Longrightarrow> slice off n (xs @ ys) = slice off n xs"
  by (simp add: slice_def)

lemma slice_append_right: "length xs \<le> off \<Longrightarrow> slice off n (xs @ ys) = slice (off - length xs) n ys"
  by (simp add: slice_def)

lemma slice_whole: "slice 0 n xs = take n xs"
  by (simp add: slice_def)

lemma slice_all [simp]: "length xs \<le> n \<Longrightarrow> slice 0 n xs = xs"
  by (simp add: slice_def)

lemma length_splice_at [simp]: "off + length bs \<le> length xs \<Longrightarrow> length (splice_at off bs xs) = length xs"
  by (simp add: splice_at_def)

lemma nth_splice_at:
  "off + length bs \<le> length xs \<Longrightarrow> i < length xs \<Longrightarrow>
   splice_at off bs xs ! i = (if off \<le> i \<and> i < off + length bs then bs ! (i - off) else xs ! i)"
  by (auto simp: splice_at_def nth_append min_def)

lemma splice_at_0: "splice_at 0 bs xs = bs @ drop (length bs) xs"
  by (simp add: splice_at_def)

lemma slice_splice_same: "off + length bs \<le> length xs \<Longrightarrow> n = length bs \<Longrightarrow> slice off n (splice_at off bs xs) = bs"
  by (simp add: slice_def splice_at_def)

lemma slice_splice_other:
  assumes "off + length bs \<le> length xs" "a + n \<le> off \<or> off + length bs \<le> a"
  shows "slice a n (splice_at off bs xs) = slice a n xs"
proof (rule nth_equalityI)
  show "length (slice a n (splice_at off bs xs)) = length (slice a n xs)" using assms(1) by simp
next
  fix i assume "i < length (slice a n (splice_at off bs xs))"
  then have i: "i < n" "a + i < length xs" using assms(1) by auto
  then show "slice a n (splice_at off bs xs) ! i = slice a n xs ! i"
    using assms by (auto simp: nth_slice nth_splice_at)
qed

lemma length_concat_u32 [simp]: "length (concat (map (le_bytes 4) ns)) = 4 * length ns"
  by (induction ns) simp_all

lemma slice_concat_u32:
  "i < length ns \<Longrightarrow> slice (4 * i) 4 (concat (map (le_bytes 4) ns) @ ys) = le_bytes 4 (ns ! i)"
proof (induction ns arbitrary: i)
  case Nil
  then show ?case by simp
next
  case (Cons n ns)
  show ?case
  proof (cases i)
    case 0
    then show ?thesis by (simp add: slice_def)
  next
    case (Suc j)
    have "slice (4 * i) 4 (concat (map (le_bytes 4) (n # ns)) @ ys) =
        slice (4 * j) 4 (concat (map (le_bytes 4) ns) @ ys)"
      using Suc slice_append_right [of "le_bytes 4 n" "4 * i" 4 "concat (map (le_bytes 4) ns) @ ys"] by simp
    with Cons Suc show ?thesis by simp
  qed
qed

definition din_wf :: "sfs_disk_inode \<Rightarrow> bool" where
  "din_wf d \<longleftrightarrow> din_size d < 2 ^ 32 \<and> din_type d < 2 ^ 16 \<and> din_nlinks d < 2 ^ 16 \<and> din_blocks d < 2 ^ 32 \<and>
     length (din_direct d) = SFS_NDIRECT \<and> (\<forall>b \<in> set (din_direct d). b < 2 ^ 32) \<and> din_indirect d < 2 ^ 32"

lemma length_din_bytes: "din_wf d \<Longrightarrow> length (din_bytes d) = sizeof_din"
  by (simp add: din_bytes_def din_wf_def)

lemma din_roundtrip:
  assumes "din_wf d"
  shows "bytes_din (din_bytes d @ ys) = d"
proof -
  have wf: "length (din_direct d) = 12" "\<And>i. i < 12 \<Longrightarrow> din_direct d ! i < 2 ^ 32"
    using assms by (auto simp: din_wf_def)
  have "map (\<lambda>i. le_nat (slice (12 + 4 * i) 4 (din_bytes d @ ys))) [0..<12] = din_direct d"
  proof (rule nth_equalityI)
    fix i assume "i < length (map (\<lambda>i. le_nat (slice (12 + 4 * i) 4 (din_bytes d @ ys))) [0..<12])"
    then have i: "i < 12" by simp
    have "slice (12 + 4 * i) 4 (din_bytes d @ ys) = le_bytes 4 (din_direct d ! i)"
      using slice_concat_u32 [of i "din_direct d"] i wf
      by (simp add: din_bytes_def slice_append_right)
    with i wf show "map (\<lambda>i. le_nat (slice (12 + 4 * i) 4 (din_bytes d @ ys))) [0..<12] ! i = din_direct d ! i"
      by simp
  qed (simp add: wf)
  moreover have "slice 60 4 (din_bytes d @ ys) = le_bytes 4 (din_indirect d)"
    using wf by (simp add: din_bytes_def slice_append_right slice_append_left)
  moreover have "slice 0 4 (din_bytes d @ ys) = le_bytes 4 (din_size d)"
    "slice 4 2 (din_bytes d @ ys) = le_bytes 2 (din_type d)"
    "slice 6 2 (din_bytes d @ ys) = le_bytes 2 (din_nlinks d)"
    "slice 8 4 (din_bytes d @ ys) = le_bytes 4 (din_blocks d)"
    by (simp_all add: din_bytes_def slice_append_right slice_append_left)
  ultimately show ?thesis using assms by (simp add: bytes_din_def din_wf_def)
qed

lemma entry_roundtrip:
  "ent_ino e < 2 ^ 32 \<Longrightarrow> length (ent_name e) = SFS_MAX_FNAME_LEN + 1 \<Longrightarrow> bytes_entry (entry_bytes e @ ys) = e"
  by (simp add: bytes_entry_def entry_bytes_def slice_append_right slice_append_left)

lemma super_roundtrip:
  "magic s < 2 ^ 32 \<Longrightarrow> sblocks s < 2 ^ 32 \<Longrightarrow> unused_blocks s < 2 ^ 32 \<Longrightarrow> length (info s) = SFS_MAX_INFO_LEN + 1 \<Longrightarrow>
   bytes_super (super_bytes s @ ys) = s"
  by (simp add: bytes_super_def super_bytes_def slice_append_right slice_append_left)

section \<open>What the block calls do on a mounted device\<close>

definition disk_ok :: "sfs_fs \<Rightarrow> bool" where
  "disk_ok sfs \<longleftrightarrow> sblocks (super sfs) \<le> d_blocks sfs \<and> sblocks (super sfs) \<le> 2 ^ 20 \<and>
     (\<forall>b < sblocks (super sfs). length (disk sfs b) = SFS_BLKSIZE)"

definition data_block :: "sfs_fs \<Rightarrow> nat \<Rightarrow> bool" where
  "data_block sfs b \<longleftrightarrow> 0 < b \<and> b < sblocks (super sfs)"

abbreviation put_block :: "nat \<Rightarrow> byte list \<Rightarrow> sfs_fs \<Rightarrow> sfs_fs" where
  "put_block b bs sfs \<equiv> sfs\<lparr>disk := (disk sfs)(b := bs)\<rparr>"

lemma disk_ok_put [intro]: "disk_ok sfs \<Longrightarrow> length bs = SFS_BLKSIZE \<Longrightarrow> disk_ok (put_block b bs sfs)"
  by (simp add: disk_ok_def)

lemma disk_ok_length: "disk_ok sfs \<Longrightarrow> data_block sfs b \<Longrightarrow> length (disk sfs b) = SFS_BLKSIZE"
  by (simp add: disk_ok_def data_block_def)

lemma data_block_put [simp]: "data_block (sfs\<lparr>disk := f\<rparr>) c = data_block sfs c"
  by (simp add: data_block_def)

lemma block_offset: "disk_ok sfs \<Longrightarrow> b < sblocks (super sfs) \<Longrightarrow> w32 (b * SFS_BLKSIZE) div SFS_BLKSIZE = b \<and> b + 1 \<le> d_blocks sfs"
  by (simp add: disk_ok_def)

lemma rwblock_read:
  "disk_ok sfs \<Longrightarrow> b < sblocks (super sfs) \<Longrightarrow> b \<noteq> 0 \<or> \<not> check \<Longrightarrow>
   sfs_rwblock_nolock sfs buf b False check = Some (0, disk sfs b, sfs)"
  using block_offset [of sfs b] by (simp add: sfs_rwblock_nolock_def dop_io_def Let_def)

lemma rwblock_write:
  "disk_ok sfs \<Longrightarrow> b < sblocks (super sfs) \<Longrightarrow> b \<noteq> 0 \<or> \<not> check \<Longrightarrow>
   sfs_rwblock_nolock sfs buf b True check = Some (0, buf, put_block b buf sfs)"
  using block_offset [of sfs b] by (simp add: sfs_rwblock_nolock_def dop_io_def Let_def)

lemma sfs_rbuf_ok:
  "disk_ok sfs \<Longrightarrow> data_block sfs b \<Longrightarrow> off < SFS_BLKSIZE \<Longrightarrow> off + len \<le> SFS_BLKSIZE \<Longrightarrow>
   sfs_rbuf sfs buf len b off = Some (0, splice_at 0 (slice off len (disk sfs b)) buf, sfs)"
  by (simp add: sfs_rbuf_def data_block_def rwblock_read)

lemma sfs_rbuf_all:
  "disk_ok sfs \<Longrightarrow> data_block sfs b \<Longrightarrow> off < SFS_BLKSIZE \<Longrightarrow> off + len \<le> SFS_BLKSIZE \<Longrightarrow> length buf = len \<Longrightarrow>
   sfs_rbuf sfs buf len b off = Some (0, slice off len (disk sfs b), sfs)"
  by (simp add: sfs_rbuf_ok splice_at_0 disk_ok_length)

lemma sfs_wbuf_ok:
  "disk_ok sfs \<Longrightarrow> data_block sfs b \<Longrightarrow> off < SFS_BLKSIZE \<Longrightarrow> off + len \<le> SFS_BLKSIZE \<Longrightarrow>
   sfs_wbuf sfs buf len b off = Some (0, buf, put_block b (splice_at off (take len buf) (disk sfs b)) sfs)"
  by (simp add: sfs_wbuf_def data_block_def rwblock_read rwblock_write)

lemma sfs_clear_one:
  "disk_ok sfs \<Longrightarrow> data_block sfs b \<Longrightarrow> sfs_clear_block ret sfs b 1 = Some (0, put_block b (replicate SFS_BLKSIZE 0) sfs)"
  by (simp add: sfs_clear_block_def data_block_def rwblock_write)

lemma rwblock_next: "disk_ok sfs \<Longrightarrow> b < sblocks (super sfs) \<Longrightarrow> w32 (b + 1) = b + 1"
  by (simp add: disk_ok_def)

lemma sfs_rblock_ok:
  assumes "disk_ok sfs" "0 < b" "b + n \<le> sblocks (super sfs)"
  shows "sfs_rblock sfs buf b n = Some (0, concat (map (disk sfs) [b..<b + n]) @ drop (n * SFS_BLKSIZE) buf, sfs)"
  unfolding sfs_rblock_def sfs_rwblock_def using assms
proof (induction n arbitrary: b buf)
  case 0
  then show ?case by simp
next
  case (Suc n)
  have IH: "sfs_rwblock_loop n sfs (drop SFS_BLKSIZE buf) (b + 1) False =
      Some (0, concat (map (disk sfs) [b + 1..<b + 1 + n]) @ drop (n * SFS_BLKSIZE) (drop SFS_BLKSIZE buf), sfs)"
    using Suc by (intro Suc.IH) simp_all
  have "[b..<b + Suc n] = b # [b + 1..<b + 1 + n]" by (simp add: upt_conv_Cons)
  moreover have "w32 (b + 1) = b + 1" using Suc.prems rwblock_next [of sfs b] by auto
  ultimately show ?case using Suc.prems IH
    by (simp add: rwblock_read add.commute [of SFS_BLKSIZE] del: upt_Suc)
qed

definition written :: "nat \<Rightarrow> nat \<Rightarrow> byte list \<Rightarrow> (nat \<Rightarrow> byte list) \<Rightarrow> nat \<Rightarrow> byte list" where
  "written b n buf d c = (if b \<le> c \<and> c < b + n then slice ((c - b) * SFS_BLKSIZE) SFS_BLKSIZE buf else d c)"

lemma sfs_wblock_ok:
  assumes "disk_ok sfs" "0 < b" "b + n \<le> sblocks (super sfs)" "n * SFS_BLKSIZE \<le> length buf"
  shows "sfs_wblock sfs buf b n = Some (0, buf, sfs\<lparr>disk := written b n buf (disk sfs)\<rparr>)"
  unfolding sfs_wblock_def sfs_rwblock_def using assms
proof (induction n arbitrary: b buf sfs)
  case 0
  have "written b 0 buf (disk sfs) = disk sfs" by (rule ext) (auto simp: written_def)
  with 0 show ?case by simp
next
  case (Suc n)
  let ?h = "take SFS_BLKSIZE buf" and ?t = "drop SFS_BLKSIZE buf"
  let ?s = "put_block b ?h sfs"
  have len: "length ?h = SFS_BLKSIZE" "n * SFS_BLKSIZE \<le> length ?t" using Suc.prems by simp_all
  have IH: "sfs_rwblock_loop n ?s ?t (b + 1) True = Some (0, ?t, ?s\<lparr>disk := written (b + 1) n ?t (disk ?s)\<rparr>)"
    using Suc.prems len disk_ok_put [OF Suc.prems(1) len(1)] by (intro Suc.IH) simp_all
  have "written (b + 1) n ?t ((disk sfs)(b := ?h)) = written b (Suc n) buf (disk sfs)"
  proof
    fix c
    consider "c = b" | "b + 1 \<le> c" "c < b + Suc n" | "c < b" | "b + Suc n \<le> c" by linarith
    then show "written (b + 1) n ?t ((disk sfs)(b := ?h)) c = written b (Suc n) buf (disk sfs) c"
    proof cases
      case 2
      then obtain k where k: "c = b + 1 + k" by (auto simp: le_iff_add)
      then show ?thesis using 2 by (simp add: written_def slice_def add.commute)
    qed (auto simp: written_def slice_def)
  qed
  moreover have "w32 (b + 1) = b + 1" using Suc.prems rwblock_next [of sfs b] by auto
  ultimately show ?case using Suc.prems IH by (simp add: rwblock_write)
qed

lemma written_length:
  "b \<le> c \<Longrightarrow> c < b + n \<Longrightarrow> n * SFS_BLKSIZE \<le> length buf \<Longrightarrow> length (written b n buf d c) = SFS_BLKSIZE"
proof -
  assume a: "b \<le> c" "c < b + n" "n * SFS_BLKSIZE \<le> length buf"
  then have "(c - b + 1) * SFS_BLKSIZE \<le> n * SFS_BLKSIZE" by (intro mult_le_mono1) simp
  with a show ?thesis by (simp add: written_def)
qed

lemma disk_ok_written:
  assumes "disk_ok sfs" "n * SFS_BLKSIZE \<le> length buf"
  shows "disk_ok (sfs\<lparr>disk := written b n buf (disk sfs)\<rparr>)"
proof -
  have "length (written b n buf (disk sfs) c) = SFS_BLKSIZE" if "c < sblocks (super sfs)" for c
    using that assms written_length [of b c n buf "disk sfs"]
    by (cases "b \<le> c \<and> c < b + n") (auto simp: written_def disk_ok_def)
  with assms show ?thesis by (simp add: disk_ok_def)
qed

end
