(* ===== verification/SfsMap.thy ===== *)
theory SfsMap
  imports SfsIo
begin

text \<open>
  kern/fs/sfs/sfs_inode.c, the allocation of blocks and the map from the blocks of a file to
  the blocks of the disk: twelve direct entries in the inode and one block of 1024 further
  entries. \<^verbatim>\<open>inode_blocks\<close> is the list of disk blocks of an inode; the functions look
  it up, append to it and shorten it.
\<close>

section \<open>Allocating blocks\<close>

definition sfs_block_inuse :: "sfs_fs \<Rightarrow> nat \<Rightarrow> bool option" where
  "sfs_block_inuse sfs b =
     (if b \<noteq> 0 \<and> b < sblocks (super sfs) then map_option Not (bitmap_test (freemap sfs) b) else None)"

definition assert_inuse :: "sfs_fs \<Rightarrow> nat \<Rightarrow> unit option" where
  "assert_inuse sfs b = do { used \<leftarrow> sfs_block_inuse sfs b; kassert used }"

text \<open>The result is the return code, the value of \<^verbatim>\<open>*ino_store\<close> and the file system.\<close>

definition sfs_block_alloc :: "sfs_fs \<Rightarrow> nat \<Rightarrow> (int \<times> nat \<times> sfs_fs) option" where
  "sfs_block_alloc sfs b =
     do { (ret, i, fm) \<leftarrow> bitmap_alloc (freemap sfs);
          let sfs = sfs\<lparr>freemap := fm\<rparr>;
          if ret \<noteq> 0 then Some (ret, b, sfs)
          else do { b \<leftarrow> i;
                    kassert (unused_blocks (super sfs) > 0);
                    let sfs = sfs\<lparr>super := (super sfs)\<lparr>unused_blocks := unused_blocks (super sfs) - 1\<rparr>,
                                  super_dirty := True\<rparr>;
                    assert_inuse sfs b;
                    (ret, sfs) \<leftarrow> sfs_clear_block 0 sfs b 1;
                    Some (ret, b, sfs) } }"

definition sfs_block_free :: "sfs_fs \<Rightarrow> nat \<Rightarrow> sfs_fs option" where
  "sfs_block_free sfs b =
     do { assert_inuse sfs b;
          fm \<leftarrow> bitmap_free (freemap sfs) b;
          Some (sfs\<lparr>freemap := fm, super := (super sfs)\<lparr>unused_blocks := w32 (unused_blocks (super sfs) + 1)\<rparr>,
                    super_dirty := True\<rparr>) }"

section \<open>The block map\<close>

text \<open>
  The result is the return code, the values of \<^verbatim>\<open>*entp\<close> and \<^verbatim>\<open>*ino_store\<close>, and
  the file system. \<^verbatim>\<open>bmap_sub_fill\<close> is the part that allocates the block, with the
  clean-up behind the label \<^verbatim>\<open>failed_cleanup\<close>.
\<close>

definition bmap_sub_cleanup :: "sfs_fs \<Rightarrow> nat \<Rightarrow> nat \<Rightarrow> int \<Rightarrow> nat \<Rightarrow> (int \<times> nat \<times> nat \<times> sfs_fs) option" where
  "bmap_sub_cleanup sfs entp ent ret ino_store =
     do { sfs \<leftarrow> (if ent \<noteq> entp then sfs_block_free sfs ent else Some sfs);
          Some (ret, entp, ino_store, sfs) }"

definition bmap_sub_fill :: "sfs_fs \<Rightarrow> nat \<Rightarrow> nat \<Rightarrow> nat \<Rightarrow> nat \<Rightarrow> (int \<times> nat \<times> nat \<times> sfs_fs) option" where
  "bmap_sub_fill sfs entp ent offset ino_store =
     do { (ret, b, sfs) \<leftarrow> sfs_block_alloc sfs 0;
          if ret \<noteq> 0 then bmap_sub_cleanup sfs entp ent ret ino_store
          else do { (ret, buf, sfs) \<leftarrow> sfs_wbuf sfs (le_bytes 4 b) 4 ent offset;
                    if ret \<noteq> 0 then
                      do { sfs \<leftarrow> sfs_block_free sfs b; bmap_sub_cleanup sfs entp ent ret ino_store }
                    else Some (0, ent, b, sfs) } }"

definition sfs_bmap_get_sub_nolock ::
    "sfs_fs \<Rightarrow> nat \<Rightarrow> nat \<Rightarrow> bool \<Rightarrow> nat \<Rightarrow> (int \<times> nat \<times> nat \<times> sfs_fs) option" where
  "sfs_bmap_get_sub_nolock sfs entp index create ino_store =
     do { kassert (index < SFS_BLK_NENTRY);
          let offset = index * 4;
          if entp \<noteq> 0 then
            do { (ret, buf, sfs) \<leftarrow> sfs_rbuf sfs (le_bytes 4 0) 4 entp offset;
                 if ret \<noteq> 0 then Some (ret, entp, ino_store, sfs)
                 else if le_nat buf \<noteq> 0 \<or> \<not> create then Some (0, entp, le_nat buf, sfs)
                 else bmap_sub_fill sfs entp entp offset ino_store }
          else if \<not> create then Some (0, entp, 0, sfs)
          else do { (ret, ent, sfs) \<leftarrow> sfs_block_alloc sfs entp;
                    if ret \<noteq> 0 then Some (ret, entp, ino_store, sfs)
                    else bmap_sub_fill sfs entp ent offset ino_store } }"

text \<open>The result is the return code, the value of \<^verbatim>\<open>*ino_store\<close>, the inode and the file system.\<close>

definition sfs_bmap_get_nolock ::
    "sfs_fs \<Rightarrow> sfs_inode \<Rightarrow> nat \<Rightarrow> bool \<Rightarrow> nat \<Rightarrow> (int \<times> nat \<times> sfs_inode \<times> sfs_fs) option" where
  "sfs_bmap_get_nolock sfs sin index create ino_store =
     (let d = sin_din sin in
      if index < SFS_NDIRECT then
        (if din_direct d ! index = 0 \<and> create then
           do { (ret, b, sfs) \<leftarrow> sfs_block_alloc sfs 0;
                if ret \<noteq> 0 then Some (ret, ino_store, sin, sfs)
                else do { let sin = sin\<lparr>sin_din := d\<lparr>din_direct := (din_direct d)[index := b]\<rparr>, sin_dirty := True\<rparr>;
                          (if b = 0 then Some () else assert_inuse sfs b);
                          Some (0, b, sin, sfs) } }
         else do { let b = din_direct d ! index;
                   (if b = 0 then Some () else assert_inuse sfs b);
                   Some (0, b, sin, sfs) })
      else if index - SFS_NDIRECT < SFS_BLK_NENTRY then
        do { (ret, ent, b, sfs) \<leftarrow> sfs_bmap_get_sub_nolock sfs (din_indirect d) (index - SFS_NDIRECT) create 0;
             if ret \<noteq> 0 then Some (ret, ino_store, sin, sfs)
             else do { kassert (ent = din_indirect d \<or> din_indirect d = 0);
                       let sin = (if ent \<noteq> din_indirect d
                                  then sin\<lparr>sin_din := d\<lparr>din_indirect := ent\<rparr>, sin_dirty := True\<rparr> else sin);
                       (if b = 0 then Some () else assert_inuse sfs b);
                       Some (0, b, sin, sfs) } }
      else None)"

definition sfs_bmap_free_sub_nolock :: "sfs_fs \<Rightarrow> nat \<Rightarrow> nat \<Rightarrow> (int \<times> sfs_fs) option" where
  "sfs_bmap_free_sub_nolock sfs ent index =
     do { assert_inuse sfs ent; kassert (index < SFS_BLK_NENTRY);
          let offset = index * 4;
          (ret, buf, sfs) \<leftarrow> sfs_rbuf sfs (le_bytes 4 0) 4 ent offset;
          if ret \<noteq> 0 then Some (ret, sfs)
          else if le_nat buf \<noteq> 0 then
            do { (ret, zero, sfs) \<leftarrow> sfs_wbuf sfs (le_bytes 4 0) 4 ent offset;
                 if ret \<noteq> 0 then Some (ret, sfs)
                 else do { sfs \<leftarrow> sfs_block_free sfs (le_nat buf); Some (0, sfs) } }
          else Some (0, sfs) }"

definition sfs_bmap_free_nolock :: "sfs_fs \<Rightarrow> sfs_inode \<Rightarrow> nat \<Rightarrow> (int \<times> sfs_inode \<times> sfs_fs) option" where
  "sfs_bmap_free_nolock sfs sin index =
     (let d = sin_din sin in
      if index < SFS_NDIRECT then
        (let b = din_direct d ! index in
         if b \<noteq> 0 then
           do { sfs \<leftarrow> sfs_block_free sfs b;
                Some (0, sin\<lparr>sin_din := d\<lparr>din_direct := (din_direct d)[index := 0]\<rparr>, sin_dirty := True\<rparr>, sfs) }
         else Some (0, sin, sfs))
      else if index - SFS_NDIRECT < SFS_BLK_NENTRY then
        (if din_indirect d \<noteq> 0 then
           do { (ret, sfs) \<leftarrow> sfs_bmap_free_sub_nolock sfs (din_indirect d) (index - SFS_NDIRECT);
                Some (ret, sin, sfs) }
         else Some (0, sin, sfs))
      else Some (0, sin, sfs))"

definition sfs_bmap_load_nolock ::
    "sfs_fs \<Rightarrow> sfs_inode \<Rightarrow> nat \<Rightarrow> nat \<Rightarrow> (int \<times> nat \<times> sfs_inode \<times> sfs_fs) option" where
  "sfs_bmap_load_nolock sfs sin index ino_store =
     do { kassert (index \<le> din_blocks (sin_din sin));
          let create = (index = din_blocks (sin_din sin));
          (ret, b, sin, sfs) \<leftarrow> sfs_bmap_get_nolock sfs sin index create 0;
          if ret \<noteq> 0 then Some (ret, ino_store, sin, sfs)
          else do { assert_inuse sfs b;
                    let sin = (if create then sin\<lparr>sin_din := (sin_din sin)\<lparr>din_blocks := w32 (din_blocks (sin_din sin) + 1)\<rparr>\<rparr>
                               else sin);
                    Some (0, b, sin, sfs) } }"

definition sfs_bmap_truncate_nolock :: "sfs_fs \<Rightarrow> sfs_inode \<Rightarrow> (int \<times> sfs_inode \<times> sfs_fs) option" where
  "sfs_bmap_truncate_nolock sfs sin =
     do { kassert (din_blocks (sin_din sin) \<noteq> 0);
          (ret, sin, sfs) \<leftarrow> sfs_bmap_free_nolock sfs sin (din_blocks (sin_din sin) - 1);
          if ret \<noteq> 0 then Some (ret, sin, sfs)
          else Some (0, sin\<lparr>sin_din := (sin_din sin)\<lparr>din_blocks := din_blocks (sin_din sin) - 1\<rparr>, sin_dirty := True\<rparr>, sfs) }"

section \<open>The state of a mounted file system\<close>

abbreviation free_blocks :: "sfs_fs \<Rightarrow> nat set" where
  "free_blocks sfs \<equiv> free_ix (freemap sfs)"

definition fs_ok :: "sfs_fs \<Rightarrow> bool" where
  "fs_ok sfs \<longleftrightarrow> disk_ok sfs \<and> bitmap_inv (freemap sfs) \<and> sblocks (super sfs) \<le> nbits (freemap sfs) \<and>
     (\<forall>b \<in> free_blocks sfs. data_block sfs b) \<and> unused_blocks (super sfs) = card (free_blocks sfs)"

definition used_block :: "sfs_fs \<Rightarrow> nat \<Rightarrow> bool" where
  "used_block sfs b \<longleftrightarrow> data_block sfs b \<and> b \<notin> free_blocks sfs"

definition zero_block :: "byte list" where
  "zero_block = replicate SFS_BLKSIZE 0"

lemma length_zero_block [simp]: "length zero_block = SFS_BLKSIZE"
  by (simp add: zero_block_def)

lemma fs_ok_disk: "fs_ok sfs \<Longrightarrow> disk_ok sfs"
  by (simp add: fs_ok_def)

lemma used_data: "used_block sfs b \<Longrightarrow> data_block sfs b"
  by (simp add: used_block_def)

lemma used_less: "fs_ok sfs \<Longrightarrow> used_block sfs b \<Longrightarrow> 0 < b \<and> b < 2 ^ 20"
  by (auto simp: fs_ok_def used_block_def data_block_def disk_ok_def)

lemma used_put [simp]: "used_block (sfs\<lparr>disk := f\<rparr>) c = used_block sfs c"
  by (simp add: used_block_def data_block_def)

lemma fs_ok_put [intro]: "fs_ok sfs \<Longrightarrow> length bs = SFS_BLKSIZE \<Longrightarrow> fs_ok (put_block b bs sfs)"
  by (auto simp: fs_ok_def data_block_def)

lemma assert_inuse_ok: "fs_ok sfs \<Longrightarrow> used_block sfs b \<Longrightarrow> assert_inuse sfs b = Some ()"
  by (simp add: assert_inuse_def sfs_block_inuse_def fs_ok_def used_block_def data_block_def bitmap_test_eq
      kassert_def)

lemma finite_free: "fs_ok sfs \<Longrightarrow> finite (free_blocks sfs)"
  by (rule finite_subset [of _ "{..<nbits (freemap sfs)}"]) (auto simp: fs_ok_def bitmap_inv_def)

definition fs_like :: "sfs_fs \<Rightarrow> sfs_fs \<Rightarrow> bool" where
  "fs_like sfs sfs' \<longleftrightarrow> d_blocks sfs' = d_blocks sfs \<and> sblocks (super sfs') = sblocks (super sfs) \<and>
     magic (super sfs') = magic (super sfs) \<and> info (super sfs') = info (super sfs)"

lemma fs_like_refl [simp, intro]: "fs_like sfs sfs"
  by (simp add: fs_like_def)

lemma fs_like_trans [trans]: "fs_like a b \<Longrightarrow> fs_like b c \<Longrightarrow> fs_like a c"
  by (simp add: fs_like_def)

lemma fs_like_put [simp]: "fs_like sfs (sfs'\<lparr>disk := f\<rparr>) = fs_like sfs sfs'"
  by (simp add: fs_like_def)

lemma fs_like_data: "fs_like sfs sfs' \<Longrightarrow> data_block sfs' b = data_block sfs b"
  by (simp add: fs_like_def data_block_def)

lemma sfs_block_alloc_none:
  "fs_ok sfs \<Longrightarrow> free_blocks sfs = {} \<Longrightarrow> sfs_block_alloc sfs b = Some (- E_NO_MEM, b, sfs)"
  by (simp add: sfs_block_alloc_def fs_ok_def bm.alloc_none)

lemma sfs_block_alloc_some:
  assumes "fs_ok sfs" "free_blocks sfs \<noteq> {}"
  shows "\<exists>i sfs'. sfs_block_alloc sfs b = Some (0, i, sfs') \<and> i \<in> free_blocks sfs \<and> fs_ok sfs' \<and> fs_like sfs sfs' \<and>
    free_blocks sfs' = free_blocks sfs - {i} \<and> disk sfs' = (disk sfs)(i := zero_block) \<and> i = Min (free_blocks sfs)"
proof -
  have "bitmap_inv (freemap sfs)" "\<forall>i \<in> free_blocks sfs. 32 * 0 \<le> i" using assms(1) by (simp_all add: fs_ok_def)
  from alloc_from_spec [OF this] assms(2) obtain i fm where a: "bitmap_alloc (freemap sfs) = Some (0, Some i, fm)"
    "i = Min (free_blocks sfs)" "bitmap_inv fm" "free_ix fm = free_blocks sfs - {i}" "nbits fm = nbits (freemap sfs)"
    "i \<in> free_blocks sfs"
    using Min_in [OF finite_free [OF assms(1)] assms(2)] by (auto simp: bitmap_alloc_def)
  let ?s = "sfs\<lparr>freemap := fm, super := (super sfs)\<lparr>unused_blocks := unused_blocks (super sfs) - 1\<rparr>, super_dirty := True\<rparr>"
  have fin: "finite (free_blocks sfs)" by (rule finite_free [OF assms(1)])
  have pos: "unused_blocks (super sfs) > 0" using assms fin by (simp add: fs_ok_def card_gt_0_iff)
  have i: "data_block sfs i" using a assms by (simp add: fs_ok_def)
  have ok: "fs_ok ?s" using a assms fin by (auto simp: fs_ok_def disk_ok_def data_block_def)
  have "used_block ?s i" using i a by (simp add: used_block_def data_block_def)
  then have "assert_inuse ?s i = Some ()" "sfs_clear_block 0 ?s i 1 = Some (0, put_block i zero_block ?s)"
    using ok by (simp_all add: assert_inuse_ok sfs_clear_one fs_ok_disk used_data zero_block_def del: One_nat_def)
  then have "sfs_block_alloc sfs b = Some (0, i, put_block i zero_block ?s)"
    using a pos by (simp add: sfs_block_alloc_def Let_def del: One_nat_def)
  moreover have "fs_ok (put_block i zero_block ?s)" using ok by (rule fs_ok_put) simp
  ultimately show ?thesis using a
    by (intro exI [of _ i] exI [of _ "put_block i zero_block ?s"] conjI) (simp_all add: fs_like_def)
qed

lemma card_free: "fs_ok sfs \<Longrightarrow> card (free_blocks sfs) < 2 ^ 20"
proof -
  assume ok: "fs_ok sfs"
  have sub: "free_blocks sfs \<subseteq> {1..<2 ^ 20}"
    using ok by (auto simp: fs_ok_def data_block_def disk_ok_def)
  have "card (free_blocks sfs) \<le> card {1..<(2::nat) ^ 20}" by (rule card_mono) (use sub in simp_all)
  then show ?thesis by simp
qed

lemma sfs_block_free_ok:
  assumes "fs_ok sfs" "used_block sfs b"
  shows "\<exists>sfs'. sfs_block_free sfs b = Some sfs' \<and> fs_ok sfs' \<and> fs_like sfs sfs' \<and>
    free_blocks sfs' = insert b (free_blocks sfs) \<and> disk sfs' = disk sfs"
proof -
  have b: "b < nbits (freemap sfs)" "b \<notin> free_blocks sfs" "data_block sfs b"
    using assms by (auto simp: fs_ok_def used_block_def data_block_def)
  from bitmap_free_eq [of "freemap sfs" b] assms b obtain fm where f: "bitmap_free (freemap sfs) b = Some fm"
    "bitmap_inv fm" "nbits fm = nbits (freemap sfs)" "free_ix fm = insert b (free_blocks sfs)"
    by (auto simp: fs_ok_def)
  let ?s = "sfs\<lparr>freemap := fm, super := (super sfs)\<lparr>unused_blocks := w32 (unused_blocks (super sfs) + 1)\<rparr>, super_dirty := True\<rparr>"
  have fin: "finite (free_blocks sfs)" by (rule finite_free [OF assms(1)])
  have "w32 (unused_blocks (super sfs) + 1) = card (free_blocks sfs) + 1"
    using card_free [OF assms(1)] assms(1) by (simp add: fs_ok_def)
  then have "fs_ok ?s" using f assms(1) fin b by (auto simp: fs_ok_def disk_ok_def data_block_def)
  with f show ?thesis
    using assms by (simp add: sfs_block_free_def assert_inuse_ok fs_like_def)
qed

section \<open>The blocks of an inode\<close>

abbreviation MAX_BLOCKS :: nat where "MAX_BLOCKS \<equiv> SFS_NDIRECT + SFS_BLK_NENTRY"

definition map_entry :: "sfs_fs \<Rightarrow> nat \<Rightarrow> nat \<Rightarrow> nat" where
  "map_entry sfs ent i = le_nat (slice (i * 4) 4 (disk sfs ent))"

definition inode_block :: "sfs_fs \<Rightarrow> sfs_disk_inode \<Rightarrow> nat \<Rightarrow> nat" where
  "inode_block sfs d i =
     (if i < SFS_NDIRECT then din_direct d ! i
      else if din_indirect d = 0 then 0 else map_entry sfs (din_indirect d) (i - SFS_NDIRECT))"

definition inode_blocks :: "sfs_fs \<Rightarrow> sfs_disk_inode \<Rightarrow> nat list" where
  "inode_blocks sfs d = map (inode_block sfs d) [0..<din_blocks d]"

definition inode_ok :: "sfs_fs \<Rightarrow> sfs_disk_inode \<Rightarrow> bool" where
  "inode_ok sfs d \<longleftrightarrow> length (din_direct d) = SFS_NDIRECT \<and> din_blocks d \<le> MAX_BLOCKS \<and>
     distinct (inode_blocks sfs d) \<and> (\<forall>b \<in> set (inode_blocks sfs d). used_block sfs b) \<and>
     (din_indirect d \<noteq> 0 \<longrightarrow> used_block sfs (din_indirect d) \<and> din_indirect d \<notin> set (inode_blocks sfs d)) \<and>
     (\<forall>i. din_blocks d \<le> i \<and> i < MAX_BLOCKS \<longrightarrow> inode_block sfs d i = 0)"

lemma inode_blocks_length [simp]: "length (inode_blocks sfs d) = din_blocks d"
  by (simp add: inode_blocks_def)

lemma inode_blocks_nth [simp]: "i < din_blocks d \<Longrightarrow> inode_blocks sfs d ! i = inode_block sfs d i"
  by (simp add: inode_blocks_def)

lemma inode_block_used: "inode_ok sfs d \<Longrightarrow> i < din_blocks d \<Longrightarrow> used_block sfs (inode_block sfs d i)"
  by (auto simp: inode_ok_def inode_blocks_def)

lemma inode_block_cong:
  "din_direct d' = din_direct d \<Longrightarrow> din_indirect d' = din_indirect d \<Longrightarrow>
   (din_indirect d \<noteq> 0 \<Longrightarrow> disk sfs' (din_indirect d) = disk sfs (din_indirect d)) \<Longrightarrow>
   inode_block sfs' d' i = inode_block sfs d i"
  by (auto simp: inode_block_def map_entry_def)

text \<open>An inode keeps its blocks when its own blocks stay in use and its indirect block is unchanged.\<close>

lemma inode_ok_frame:
  assumes "inode_ok sfs d" "\<And>b. used_block sfs b \<Longrightarrow> b \<in> insert (din_indirect d) (set (inode_blocks sfs d)) \<Longrightarrow> used_block sfs' b"
    "din_indirect d \<noteq> 0 \<Longrightarrow> disk sfs' (din_indirect d) = disk sfs (din_indirect d)"
  shows "inode_ok sfs' d \<and> inode_blocks sfs' d = inode_blocks sfs d"
proof -
  have "inode_block sfs' d = inode_block sfs d" by (rule ext, rule inode_block_cong) (use assms in simp_all)
  then have eq: "inode_block sfs' d = inode_block sfs d" "inode_blocks sfs' d = inode_blocks sfs d"
    by (simp_all add: inode_blocks_def)
  show ?thesis using assms(1,2) unfolding inode_ok_def eq by blast
qed

lemma le_nat_zeros: "le_nat (replicate k 0) = 0"
  by (induction k) simp_all

lemma map_entry_zero: "disk sfs ent = zero_block \<Longrightarrow> map_entry sfs ent i = 0"
  by (simp add: map_entry_def zero_block_def slice_def le_nat_zeros del: replicate_Suc)

lemma map_entry_put:
  assumes "length (disk sfs ent) = SFS_BLKSIZE" "i < SFS_BLK_NENTRY" "b < 2 ^ 32"
  shows "map_entry (put_block ent (splice_at (i * 4) (le_bytes 4 b) (disk sfs ent)) sfs) ent j =
    (if j = i then b else map_entry sfs ent j)"
proof (cases "j = i")
  case True
  with assms show ?thesis by (simp add: map_entry_def slice_splice_same)
next
  case False
  then have "j * 4 + 4 \<le> i * 4 \<or> i * 4 + length (le_bytes 4 b) \<le> j * 4" by (cases "j < i") simp_all
  with False assms show ?thesis by (simp add: map_entry_def slice_splice_other)
qed

section \<open>Looking up and appending blocks\<close>

lemma used_nonzero: "used_block sfs b \<Longrightarrow> b \<noteq> 0"
  by (simp add: used_block_def data_block_def)

lemma indirect_needed: "inode_ok sfs d \<Longrightarrow> SFS_NDIRECT \<le> i \<Longrightarrow> i < din_blocks d \<Longrightarrow> din_indirect d \<noteq> 0"
  using inode_block_used [of sfs d i] used_nonzero [of sfs "inode_block sfs d i"]
  by (auto simp: inode_block_def split: if_splits)

lemma indirect_used: "inode_ok sfs d \<Longrightarrow> din_indirect d \<noteq> 0 \<Longrightarrow> used_block sfs (din_indirect d)"
  by (simp add: inode_ok_def)

lemma read_entry:
  "fs_ok sfs \<Longrightarrow> used_block sfs ent \<Longrightarrow> i < SFS_BLK_NENTRY \<Longrightarrow>
   \<exists>buf. sfs_rbuf sfs (le_bytes 4 0) 4 ent (i * 4) = Some (0, buf, sfs) \<and> le_nat buf = map_entry sfs ent i"
  using sfs_rbuf_all [of sfs ent "i * 4" 4 "le_bytes 4 0"]
  by (simp add: fs_ok_disk used_data map_entry_def)

lemma sfs_bmap_load_old:
  assumes "fs_ok sfs" "inode_ok sfs (sin_din sin)" "index < din_blocks (sin_din sin)"
  shows "sfs_bmap_load_nolock sfs sin index st = Some (0, inode_blocks sfs (sin_din sin) ! index, sin, sfs)"
proof -
  let ?d = "sin_din sin" and ?b = "inode_block sfs (sin_din sin) index"
  have used: "used_block sfs ?b" using assms inode_block_used by blast
  then have a: "assert_inuse sfs ?b = Some ()" "?b \<noteq> 0"
    using assms(1) assert_inuse_ok used_nonzero by auto
  have "sfs_bmap_get_nolock sfs sin index False 0 = Some (0, ?b, sin, sfs)"
  proof (cases "index < SFS_NDIRECT")
    case True
    with a show ?thesis by (simp add: sfs_bmap_get_nolock_def inode_block_def)
  next
    case False
    then have i: "index - SFS_NDIRECT < SFS_BLK_NENTRY" "din_indirect ?d \<noteq> 0"
      using assms indirect_needed [of sfs ?d index] by (auto simp: inode_ok_def)
    then have u: "used_block sfs (din_indirect ?d)" using assms(2) indirect_used by blast
    from read_entry [OF assms(1) u i(1)] obtain buf where
      "sfs_rbuf sfs (le_bytes 4 0) 4 (din_indirect ?d) ((index - SFS_NDIRECT) * 4) = Some (0, buf, sfs)"
      "le_nat buf = map_entry sfs (din_indirect ?d) (index - SFS_NDIRECT)" by blast
    then have "sfs_bmap_get_sub_nolock sfs (din_indirect ?d) (index - SFS_NDIRECT) False 0 =
        Some (0, din_indirect ?d, ?b, sfs)"
      using i False by (simp add: sfs_bmap_get_sub_nolock_def inode_block_def Let_def)
    with False i a show ?thesis by (simp add: sfs_bmap_get_nolock_def Let_def)
  qed
  with assms(3) a(1) show ?thesis by (simp add: sfs_bmap_load_nolock_def)
qed

definition blocks_needed :: "sfs_disk_inode \<Rightarrow> nat" where
  "blocks_needed d = (if SFS_NDIRECT \<le> din_blocks d \<and> din_indirect d = 0 then 2 else 1)"

definition appended :: "sfs_fs \<Rightarrow> sfs_inode \<Rightarrow> nat \<Rightarrow> sfs_inode \<Rightarrow> sfs_fs \<Rightarrow> bool" where
  "appended sfs sin b sin' sfs' \<longleftrightarrow>
     b \<in> free_blocks sfs \<and> fs_ok sfs' \<and> fs_like sfs sfs' \<and> inode_ok sfs' (sin_din sin') \<and>
     inode_blocks sfs' (sin_din sin') = inode_blocks sfs (sin_din sin) @ [b] \<and> disk sfs' b = zero_block \<and>
     free_blocks sfs' = free_blocks sfs - {b, din_indirect (sin_din sin')} \<and>
     (if blocks_needed (sin_din sin) = 2 then din_indirect (sin_din sin') \<in> free_blocks sfs - {b}
      else din_indirect (sin_din sin') = din_indirect (sin_din sin)) \<and>
     (\<forall>c. used_block sfs c \<and> c \<noteq> din_indirect (sin_din sin) \<longrightarrow> disk sfs' c = disk sfs c) \<and>
     sin_ino sin' = sin_ino sin \<and> reclaim_count sin' = reclaim_count sin \<and>
     din_size (sin_din sin') = din_size (sin_din sin) \<and> din_type (sin_din sin') = din_type (sin_din sin) \<and>
     din_nlinks (sin_din sin') = din_nlinks (sin_din sin)"

definition unchanged :: "sfs_fs \<Rightarrow> sfs_fs \<Rightarrow> bool" where
  "unchanged sfs sfs' \<longleftrightarrow> fs_ok sfs' \<and> fs_like sfs sfs' \<and> free_blocks sfs' = free_blocks sfs \<and>
     (\<forall>c. used_block sfs c \<longrightarrow> disk sfs' c = disk sfs c)"

lemma used_keep: "used_block sfs c \<Longrightarrow> fs_like sfs sfs' \<Longrightarrow> free_blocks sfs' \<subseteq> free_blocks sfs \<Longrightarrow> used_block sfs' c"
  by (auto simp: used_block_def fs_like_data)

lemma indirect_not_free: "fs_ok sfs \<Longrightarrow> inode_ok sfs d \<Longrightarrow> din_indirect d \<notin> free_blocks sfs"
  using indirect_used [of sfs d] by (cases "din_indirect d = 0") (auto simp: fs_ok_def used_block_def data_block_def)

text \<open>The inode after a block has been appended, from what is known of its map entries.\<close>

lemma inode_ok_snoc:
  assumes ok: "inode_ok sfs d" and n: "din_blocks d < MAX_BLOCKS" "din_blocks d' = din_blocks d + 1"
    and len: "length (din_direct d') = SFS_NDIRECT"
    and old: "\<And>i. i < MAX_BLOCKS \<Longrightarrow> i \<noteq> din_blocks d \<Longrightarrow> inode_block sfs' d' i = inode_block sfs d i"
    and new: "inode_block sfs' d' (din_blocks d) = b" "used_block sfs' b" "\<not> used_block sfs b"
    and keep: "\<And>c. used_block sfs c \<Longrightarrow> used_block sfs' c"
    and ind: "din_indirect d' = din_indirect d \<or> \<not> used_block sfs (din_indirect d') \<and> din_indirect d' \<noteq> b \<and>
        used_block sfs' (din_indirect d')"
  shows "inode_ok sfs' d' \<and> inode_blocks sfs' d' = inode_blocks sfs d @ [b]"
proof -
  have eq: "inode_blocks sfs' d' = inode_blocks sfs d @ [b]"
  proof (rule nth_equalityI)
    fix i assume "i < length (inode_blocks sfs' d')"
    then have "i < din_blocks d \<or> i = din_blocks d" "i < MAX_BLOCKS" using n by auto
    then show "inode_blocks sfs' d' ! i = (inode_blocks sfs d @ [b]) ! i"
      using n old [of i] new(1) by (auto simp: nth_append)
  qed (use n in simp)
  have used: "\<forall>c \<in> set (inode_blocks sfs d). used_block sfs c" and dist: "distinct (inode_blocks sfs d)"
    using ok by (simp_all add: inode_ok_def)
  have "b \<notin> set (inode_blocks sfs d)" using used new(3) by blast
  moreover have "\<forall>c \<in> set (inode_blocks sfs d @ [b]). used_block sfs' c" using used keep new(2) by auto
  moreover have "din_indirect d' \<noteq> 0 \<longrightarrow> used_block sfs' (din_indirect d') \<and> din_indirect d' \<notin> set (inode_blocks sfs d @ [b])"
  proof
    assume nz: "din_indirect d' \<noteq> 0"
    from ind show "used_block sfs' (din_indirect d') \<and> din_indirect d' \<notin> set (inode_blocks sfs d @ [b])"
    proof
      assume e: "din_indirect d' = din_indirect d"
      with nz ok have "used_block sfs (din_indirect d)" "din_indirect d \<notin> set (inode_blocks sfs d)"
        by (simp_all add: inode_ok_def)
      with e keep new(3) show ?thesis by auto
    next
      assume "\<not> used_block sfs (din_indirect d') \<and> din_indirect d' \<noteq> b \<and> used_block sfs' (din_indirect d')"
      with used show ?thesis by auto
    qed
  qed
  moreover have "inode_block sfs' d' i = 0" if "din_blocks d' \<le> i" "i < MAX_BLOCKS" for i
    using that n old [of i] ok by (simp add: inode_ok_def)
  ultimately show ?thesis using n len dist eq unfolding inode_ok_def by simp
qed

lemma bmap_sub_fill_ok:
  assumes "fs_ok sfs" "used_block sfs ent" "i < SFS_BLK_NENTRY" "free_blocks sfs \<noteq> {}"
  shows "\<exists>b sfs'. bmap_sub_fill sfs entp ent (i * 4) st = Some (0, ent, b, sfs') \<and> b \<in> free_blocks sfs \<and> fs_ok sfs' \<and>
    fs_like sfs sfs' \<and> free_blocks sfs' = free_blocks sfs - {b} \<and> disk sfs' b = zero_block \<and>
    (\<forall>c. c \<noteq> b \<and> c \<noteq> ent \<longrightarrow> disk sfs' c = disk sfs c) \<and>
    (\<forall>j. map_entry sfs' ent j = (if j = i then b else map_entry sfs ent j))"
proof -
  from sfs_block_alloc_some [OF assms(1,4), of 0] obtain b s1 where a: "sfs_block_alloc sfs 0 = Some (0, b, s1)"
    "b \<in> free_blocks sfs" "fs_ok s1" "fs_like sfs s1" "free_blocks s1 = free_blocks sfs - {b}"
    "disk s1 = (disk sfs)(b := zero_block)" by blast
  have ne: "ent \<noteq> b" using assms(2) a(2) by (auto simp: used_block_def)
  have u: "used_block s1 ent" using used_keep [OF assms(2) a(4)] a(5) by blast
  then have len: "length (disk s1 ent) = SFS_BLKSIZE" using a(3) disk_ok_length fs_ok_disk used_data by blast
  have b32: "b < 2 ^ 32"
  proof -
    have "data_block sfs b" using assms(1) a(2) by (simp add: fs_ok_def)
    with assms(1) show ?thesis by (simp add: fs_ok_def disk_ok_def data_block_def)
  qed
  let ?blk = "splice_at (i * 4) (le_bytes 4 b) (disk s1 ent)"
  let ?s2 = "put_block ent ?blk s1"
  have w: "sfs_wbuf s1 (le_bytes 4 b) 4 ent (i * 4) = Some (0, le_bytes 4 b, ?s2)"
    using sfs_wbuf_ok [of s1 ent "i * 4" 4 "le_bytes 4 b"] a(3) u assms(3) by (simp add: fs_ok_disk used_data)
  have "fs_ok ?s2" using a(3) by (rule fs_ok_put) (use len assms(3) in simp)
  moreover have "map_entry ?s2 ent j = (if j = i then b else map_entry sfs ent j)" for j
    using map_entry_put [OF len assms(3) b32, of j] a(6) ne by (simp add: map_entry_def)
  moreover have "bmap_sub_fill sfs entp ent (i * 4) st = Some (0, ent, b, ?s2)"
    using a(1) w by (simp add: bmap_sub_fill_def)
  ultimately show ?thesis using a ne
    by (intro exI [of _ b] exI [of _ ?s2] conjI) simp_all
qed

lemma bmap_sub_fill_full:
  assumes "fs_ok sfs" "used_block sfs ent" "free_blocks sfs = {}"
  shows "\<exists>sfs'. bmap_sub_fill sfs entp ent off st = Some (- E_NO_MEM, entp, st, sfs') \<and> fs_ok sfs' \<and> fs_like sfs sfs' \<and>
    free_blocks sfs' = (if ent = entp then {} else {ent}) \<and> disk sfs' = disk sfs"
  using sfs_block_free_ok [OF assms(1,2)] assms
  by (auto simp: bmap_sub_fill_def sfs_block_alloc_none bmap_sub_cleanup_def)

lemma appendedI:
  assumes ok: "fs_ok sfs" "inode_ok sfs (sin_din sin)" "din_blocks (sin_din sin) < MAX_BLOCKS"
    and b: "b \<in> free_blocks sfs" and s: "fs_ok sfs'" "fs_like sfs sfs'" "disk sfs' b = zero_block"
    and free: "free_blocks sfs' = free_blocks sfs - {b, din_indirect (sin_din sin')}"
    and keep: "\<And>c. used_block sfs c \<Longrightarrow> c \<noteq> din_indirect (sin_din sin) \<Longrightarrow> disk sfs' c = disk sfs c"
    and din: "din_blocks (sin_din sin') = din_blocks (sin_din sin) + 1" "length (din_direct (sin_din sin')) = SFS_NDIRECT"
      "sin_ino sin' = sin_ino sin" "reclaim_count sin' = reclaim_count sin"
      "din_size (sin_din sin') = din_size (sin_din sin)" "din_type (sin_din sin') = din_type (sin_din sin)"
      "din_nlinks (sin_din sin') = din_nlinks (sin_din sin)"
    and old: "\<And>i. i < MAX_BLOCKS \<Longrightarrow> inode_block sfs' (sin_din sin') i =
        (if i = din_blocks (sin_din sin) then b else inode_block sfs (sin_din sin) i)"
    and ind: "if blocks_needed (sin_din sin) = 2 then din_indirect (sin_din sin') \<in> free_blocks sfs - {b}
        else din_indirect (sin_din sin') = din_indirect (sin_din sin)"
  shows "appended sfs sin b sin' sfs'"
proof -
  have data: "data_block sfs c" if "c \<in> free_blocks sfs" for c using ok(1) that by (simp add: fs_ok_def)
  have used: "used_block sfs' c" if "c \<in> free_blocks sfs - free_blocks sfs'" for c
    using that data fs_like_data [OF s(2)] by (simp add: used_block_def)
  have nu: "\<not> used_block sfs c" if "c \<in> free_blocks sfs" for c using that by (simp add: used_block_def)
  have bu: "used_block sfs' b" using used [of b] b free by blast
  have ind': "din_indirect (sin_din sin') = din_indirect (sin_din sin) \<or>
      \<not> used_block sfs (din_indirect (sin_din sin')) \<and> din_indirect (sin_din sin') \<noteq> b \<and>
      used_block sfs' (din_indirect (sin_din sin'))"
    using ind free used [of "din_indirect (sin_din sin')"] nu [of "din_indirect (sin_din sin')"] by (auto split: if_splits)
  have old': "inode_block sfs' (sin_din sin') i = inode_block sfs (sin_din sin) i"
    if "i < MAX_BLOCKS" "i \<noteq> din_blocks (sin_din sin)" for i using that old [of i] by simp
  have new: "inode_block sfs' (sin_din sin') (din_blocks (sin_din sin)) = b" using old ok(3) by simp
  have kp: "used_block sfs' c" if "used_block sfs c" for c using used_keep [OF that s(2)] free by blast
  have "inode_ok sfs' (sin_din sin') \<and> inode_blocks sfs' (sin_din sin') = inode_blocks sfs (sin_din sin) @ [b]"
    by (rule inode_ok_snoc [OF ok(2,3) din(1,2) old' new bu nu [OF b] kp ind'])
  with assms show ?thesis by (auto simp: appended_def)
qed

lemma unchanged_refl: "fs_ok sfs \<Longrightarrow> unchanged sfs sfs"
  by (simp add: unchanged_def)

lemma load_appends_direct:
  assumes ok: "fs_ok sfs" "inode_ok sfs (sin_din sin)" and n: "din_blocks (sin_din sin) < SFS_NDIRECT"
  shows "if free_blocks sfs = {} then
      sfs_bmap_load_nolock sfs sin (din_blocks (sin_din sin)) st = Some (- E_NO_MEM, st, sin, sfs)
    else \<exists>b sin' sfs'. sfs_bmap_load_nolock sfs sin (din_blocks (sin_din sin)) st = Some (0, b, sin', sfs') \<and>
      appended sfs sin b sin' sfs' \<and> b = Min (free_blocks sfs)"
proof -
  let ?d = "sin_din sin" let ?n = "din_blocks ?d"
  have z: "din_direct ?d ! ?n = 0" and len: "length (din_direct ?d) = SFS_NDIRECT"
    using ok(2) n by (auto simp: inode_ok_def inode_block_def dest: spec [of _ ?n])
  show ?thesis
  proof (cases "free_blocks sfs = {}")
    case True
    with ok n z show ?thesis
      by (simp add: sfs_bmap_load_nolock_def sfs_bmap_get_nolock_def sfs_block_alloc_none)
  next
    case False
    from sfs_block_alloc_some [OF ok(1) False, of 0] obtain b s1 where a: "sfs_block_alloc sfs 0 = Some (0, b, s1)"
      "b \<in> free_blocks sfs" "fs_ok s1" "fs_like sfs s1" "free_blocks s1 = free_blocks sfs - {b}"
      "disk s1 = (disk sfs)(b := zero_block)" "b = Min (free_blocks sfs)" by blast
    have db: "data_block sfs b" using a(2) ok(1) by (simp add: fs_ok_def)
    then have u: "used_block s1 b" using a(4,5) by (simp add: used_block_def fs_like_data)
    let ?d' = "?d\<lparr>din_direct := (din_direct ?d)[?n := b], din_blocks := ?n + 1\<rparr>"
    let ?sin = "sin\<lparr>sin_din := ?d', sin_dirty := True\<rparr>"
    have inb: "assert_inuse s1 b = Some ()" by (rule assert_inuse_ok [OF a(3) u])
    have r: "sfs_bmap_load_nolock sfs sin ?n st = Some (0, b, ?sin, s1)"
      using a(1) inb n z by (simp add: sfs_bmap_load_nolock_def sfs_bmap_get_nolock_def Let_def)
    have ind: "disk s1 (din_indirect ?d) = disk sfs (din_indirect ?d)" if "din_indirect ?d \<noteq> 0"
      using indirect_used [OF ok(2) that] a(2,6) by (auto simp: used_block_def)
    have "appended sfs sin b ?sin s1"
    proof (rule appendedI [OF ok _ a(2,3,4)])
      fix i assume "i < MAX_BLOCKS"
      show "inode_block s1 (sin_din ?sin) i = (if i = ?n then b else inode_block sfs ?d i)"
        using ind n len by (auto simp: inode_block_def map_entry_def nth_list_update)
    next
      fix c assume "used_block sfs c"
      then show "disk s1 c = disk sfs c" using a(2,6) by (auto simp: used_block_def)
    next
      show "free_blocks s1 = free_blocks sfs - {b, din_indirect (sin_din ?sin)}"
        using a(5) indirect_not_free [OF ok] by auto
    qed (use a n len in \<open>simp_all add: blocks_needed_def\<close>)
    with r False a(7) show ?thesis by auto
  qed
qed

lemma load_appends_indirect:
  assumes ok: "fs_ok sfs" "inode_ok sfs (sin_din sin)"
    and n: "SFS_NDIRECT \<le> din_blocks (sin_din sin)" "din_blocks (sin_din sin) < MAX_BLOCKS"
    and ind: "din_indirect (sin_din sin) \<noteq> 0"
  shows "if free_blocks sfs = {} then
      \<exists>sfs'. sfs_bmap_load_nolock sfs sin (din_blocks (sin_din sin)) st = Some (- E_NO_MEM, st, sin, sfs') \<and>
        unchanged sfs sfs'
    else \<exists>b sin' sfs'. sfs_bmap_load_nolock sfs sin (din_blocks (sin_din sin)) st = Some (0, b, sin', sfs') \<and>
      appended sfs sin b sin' sfs'"
proof -
  let ?d = "sin_din sin" let ?n = "din_blocks ?d" let ?i = "?n - SFS_NDIRECT" let ?ent = "din_indirect ?d"
  have u: "used_block sfs ?ent" by (rule indirect_used [OF ok(2) ind])
  have i: "?i < SFS_BLK_NENTRY" "\<not> ?n < SFS_NDIRECT" using n by auto
  have z: "map_entry sfs ?ent ?i = 0"
    using ok(2) n ind by (auto simp: inode_ok_def inode_block_def dest: spec [of _ ?n])
  from read_entry [OF ok(1) u i(1)] z obtain buf where rd:
    "sfs_rbuf sfs (le_bytes 4 0) 4 ?ent (?i * 4) = Some (0, buf, sfs)" "le_nat buf = 0" by auto
  have sub: "sfs_bmap_get_sub_nolock sfs ?ent ?i True 0 = bmap_sub_fill sfs ?ent ?ent (?i * 4) 0"
    using rd i(1) ind by (simp add: sfs_bmap_get_sub_nolock_def)
  show ?thesis
  proof (cases "free_blocks sfs = {}")
    case True
    from bmap_sub_fill_full [OF ok(1) u True, of ?ent "?i * 4" 0] obtain s1 where f:
      "bmap_sub_fill sfs ?ent ?ent (?i * 4) 0 = Some (- E_NO_MEM, ?ent, 0, s1)" "fs_ok s1" "fs_like sfs s1"
      "free_blocks s1 = {}" "disk s1 = disk sfs" by auto
    then have "sfs_bmap_load_nolock sfs sin ?n st = Some (- E_NO_MEM, st, sin, s1)"
      using sub i by (simp add: sfs_bmap_load_nolock_def sfs_bmap_get_nolock_def)
    with f True show ?thesis by (simp add: unchanged_def)
  next
    case False
    from bmap_sub_fill_ok [OF ok(1) u i(1) False, of ?ent 0] obtain b s1 where f:
      "bmap_sub_fill sfs ?ent ?ent (?i * 4) 0 = Some (0, ?ent, b, s1)" "b \<in> free_blocks sfs" "fs_ok s1"
      "fs_like sfs s1" "free_blocks s1 = free_blocks sfs - {b}" "disk s1 b = zero_block"
      "\<And>c. c \<noteq> b \<Longrightarrow> c \<noteq> ?ent \<Longrightarrow> disk s1 c = disk sfs c"
      "\<And>j. map_entry s1 ?ent j = (if j = ?i then b else map_entry sfs ?ent j)" by blast
    have db: "data_block sfs b" using f(2) ok(1) by (simp add: fs_ok_def)
    then have ub: "used_block s1 b" using f(4,5) by (simp add: used_block_def fs_like_data)
    have inb: "assert_inuse s1 b = Some ()" by (rule assert_inuse_ok [OF f(3) ub])
    let ?sin = "sin\<lparr>sin_din := ?d\<lparr>din_blocks := ?n + 1\<rparr>\<rparr>"
    have r: "sfs_bmap_load_nolock sfs sin ?n st = Some (0, b, ?sin, s1)"
      using sub f(1) inb i n(2) used_nonzero [OF ub]
      by (simp add: sfs_bmap_load_nolock_def sfs_bmap_get_nolock_def Let_def)
    have "appended sfs sin b ?sin s1"
    proof (rule appendedI [OF ok n(2) f(2,3,4,6)])
      fix i assume "i < MAX_BLOCKS"
      show "inode_block s1 (sin_din ?sin) i = (if i = ?n then b else inode_block sfs ?d i)"
        using ind n f(8) by (auto simp: inode_block_def)
    next
      fix c assume "used_block sfs c" "c \<noteq> ?ent"
      then show "disk s1 c = disk sfs c" using f(2) f(7) [of c] by (cases "c = b") (auto simp: used_block_def)
    next
      show "free_blocks s1 = free_blocks sfs - {b, din_indirect (sin_din ?sin)}"
        using f(5) indirect_not_free [OF ok] by auto
    qed (use ok(2) ind in \<open>auto simp: inode_ok_def blocks_needed_def\<close>)
    with r False show ?thesis by auto
  qed
qed

text \<open>The first block behind the direct ones also needs the block of further entries.\<close>

lemma load_appends_new_indirect:
  assumes ok: "fs_ok sfs" "inode_ok sfs (sin_din sin)"
    and n: "SFS_NDIRECT \<le> din_blocks (sin_din sin)" "din_blocks (sin_din sin) < MAX_BLOCKS"
    and ind: "din_indirect (sin_din sin) = 0"
  shows "if card (free_blocks sfs) < 2 then
      \<exists>sfs'. sfs_bmap_load_nolock sfs sin (din_blocks (sin_din sin)) st = Some (- E_NO_MEM, st, sin, sfs') \<and>
        unchanged sfs sfs'
    else \<exists>b sin' sfs'. sfs_bmap_load_nolock sfs sin (din_blocks (sin_din sin)) st = Some (0, b, sin', sfs') \<and>
      appended sfs sin b sin' sfs'"
proof -
  let ?d = "sin_din sin" let ?n = "din_blocks ?d" let ?i = "?n - SFS_NDIRECT"
  have n12: "?n = SFS_NDIRECT"
  proof (rule ccontr)
    assume "?n \<noteq> SFS_NDIRECT"
    then have "SFS_NDIRECT < ?n" using n by simp
    from indirect_needed [OF ok(2) _ this] ind show False by simp
  qed
  have i: "?i < SFS_BLK_NENTRY" "\<not> ?n < SFS_NDIRECT" using n by auto
  have fin: "finite (free_blocks sfs)" by (rule finite_free [OF ok(1)])
  show ?thesis
  proof (cases "free_blocks sfs = {}")
    case True
    then have "sfs_bmap_load_nolock sfs sin ?n st = Some (- E_NO_MEM, st, sin, sfs)"
      using ok(1) i ind
      by (simp add: sfs_bmap_load_nolock_def sfs_bmap_get_nolock_def sfs_bmap_get_sub_nolock_def sfs_block_alloc_none)
    with True ok(1) show ?thesis by (simp add: unchanged_refl)
  next
    case False
    from sfs_block_alloc_some [OF ok(1) False, of 0] obtain e s1 where a: "sfs_block_alloc sfs 0 = Some (0, e, s1)"
      "e \<in> free_blocks sfs" "fs_ok s1" "fs_like sfs s1" "free_blocks s1 = free_blocks sfs - {e}"
      "disk s1 = (disk sfs)(e := zero_block)" by blast
    have de: "data_block sfs e" using a(2) ok(1) by (simp add: fs_ok_def)
    then have u: "used_block s1 e" using a(4,5) by (simp add: used_block_def fs_like_data)
    have sub: "sfs_bmap_get_sub_nolock sfs (din_indirect ?d) ?i True 0 = bmap_sub_fill s1 0 e (?i * 4) 0"
      using a(1) i(1) ind by (simp add: sfs_bmap_get_sub_nolock_def)
    have keep1: "disk s1 c = disk sfs c" if "used_block sfs c" for c
      using that a(2,6) by (auto simp: used_block_def)
    show ?thesis
    proof (cases "free_blocks s1 = {}")
      case True
      from bmap_sub_fill_full [OF a(3) u True, of 0 "?i * 4" 0] obtain s2 where f:
        "bmap_sub_fill s1 0 e (?i * 4) 0 = Some (- E_NO_MEM, 0, 0, s2)" "fs_ok s2" "fs_like s1 s2"
        "free_blocks s2 = {e}" "disk s2 = disk s1" using used_nonzero [OF u] by auto
      then have "sfs_bmap_load_nolock sfs sin ?n st = Some (- E_NO_MEM, st, sin, s2)"
        using sub i by (simp add: sfs_bmap_load_nolock_def sfs_bmap_get_nolock_def)
      moreover have "free_blocks sfs = {e}" using True a(2,5) by auto
      ultimately show ?thesis using f keep1 fs_like_trans [OF a(4) f(3)] by (simp add: unchanged_def)
    next
      case nonempty: False
      from bmap_sub_fill_ok [OF a(3) u i(1) nonempty, of 0 0] obtain b s2 where f:
        "bmap_sub_fill s1 0 e (?i * 4) 0 = Some (0, e, b, s2)" "b \<in> free_blocks s1" "fs_ok s2"
        "fs_like s1 s2" "free_blocks s2 = free_blocks s1 - {b}" "disk s2 b = zero_block"
        "\<And>c. c \<noteq> b \<Longrightarrow> c \<noteq> e \<Longrightarrow> disk s2 c = disk s1 c"
        "\<And>j. map_entry s2 e j = (if j = ?i then b else map_entry s1 e j)" by blast
      have db: "data_block sfs b" using f(2) a(5) ok(1) by (auto simp: fs_ok_def)
      then have ub: "used_block s2 b"
        using f(4,5) a(4) by (simp add: used_block_def fs_like_data)
      have inb: "assert_inuse s2 b = Some ()" by (rule assert_inuse_ok [OF f(3) ub])
      let ?sin = "sin\<lparr>sin_din := ?d\<lparr>din_indirect := e, din_blocks := ?n + 1\<rparr>, sin_dirty := True\<rparr>"
      have r: "sfs_bmap_load_nolock sfs sin ?n st = Some (0, b, ?sin, s2)"
        using sub f(1) inb i n(2) used_nonzero [OF ub] used_nonzero [OF u] ind
        by (simp add: sfs_bmap_load_nolock_def sfs_bmap_get_nolock_def Let_def)
      have zero: "map_entry s1 e j = 0" for j using a(6) by (simp add: map_entry_zero)
      have be: "b \<in> free_blocks sfs" "b \<noteq> e" using f(2) a(5) by auto
      have "appended sfs sin b ?sin s2"
      proof (rule appendedI [OF ok n(2) be(1) f(3) fs_like_trans [OF a(4) f(4)] f(6)])
        fix k assume k: "k < MAX_BLOCKS"
        have "inode_block sfs ?d k = 0" if "?n \<le> k" using ok(2) k that by (simp add: inode_ok_def)
        then show "inode_block s2 (sin_din ?sin) k = (if k = ?n then b else inode_block sfs ?d k)"
          using ind n12 f(8) zero used_nonzero [OF u] by (auto simp: inode_block_def)
      next
        fix c assume "used_block sfs c"
        then show "disk s2 c = disk sfs c"
          using f(7) [of c] keep1 [of c] be a(2) by (cases "c = b"; cases "c = e") (auto simp: used_block_def)
      next
        show "free_blocks s2 = free_blocks sfs - {b, din_indirect (sin_din ?sin)}"
          using a(5) f(5) by auto
      qed (use a be ok(2) ind n in \<open>auto simp: inode_ok_def blocks_needed_def\<close>)
      moreover have "\<not> card (free_blocks sfs) < 2"
      proof -
        have "card {e, b} \<le> card (free_blocks sfs)" by (rule card_mono) (use fin a(2) be in auto)
        with be(2) show ?thesis by simp
      qed
      ultimately show ?thesis using r by auto
    qed
  qed
qed

lemma sfs_bmap_load_append:
  assumes ok: "fs_ok sfs" "inode_ok sfs (sin_din sin)" and n: "din_blocks (sin_din sin) < MAX_BLOCKS"
  shows "if card (free_blocks sfs) < blocks_needed (sin_din sin) then
      \<exists>sfs'. sfs_bmap_load_nolock sfs sin (din_blocks (sin_din sin)) st = Some (- E_NO_MEM, st, sin, sfs') \<and>
        unchanged sfs sfs'
    else \<exists>b sin' sfs'. sfs_bmap_load_nolock sfs sin (din_blocks (sin_din sin)) st = Some (0, b, sin', sfs') \<and>
      appended sfs sin b sin' sfs'"
proof -
  have none: "card (free_blocks sfs) < 1 \<longleftrightarrow> free_blocks sfs = {}"
    using finite_free [OF ok(1)] by (simp add: card_eq_0_iff)
  consider "din_blocks (sin_din sin) < SFS_NDIRECT"
    | "SFS_NDIRECT \<le> din_blocks (sin_din sin)" "din_indirect (sin_din sin) \<noteq> 0"
    | "SFS_NDIRECT \<le> din_blocks (sin_din sin)" "din_indirect (sin_din sin) = 0" by fastforce
  then show ?thesis
  proof cases
    case 1
    then have "blocks_needed (sin_din sin) = 1" by (simp add: blocks_needed_def)
    with load_appends_direct [OF ok 1, of st] none unchanged_refl [OF ok(1)] show ?thesis
      by (cases "free_blocks sfs = {}") (auto simp del: One_nat_def)
  next
    case 2
    with load_appends_indirect [OF ok 2(1) n 2(2), of st] none show ?thesis
      by (simp add: blocks_needed_def del: One_nat_def)
  next
    case 3
    with load_appends_new_indirect [OF ok 3(1) n 3(2), of st] show ?thesis
      by (simp add: blocks_needed_def)
  qed
qed

lemma sfs_bmap_load_beyond:
  assumes "MAX_BLOCKS \<le> index"
  shows "sfs_bmap_load_nolock sfs sin index st = None"
proof -
  have "sfs_bmap_get_nolock sfs sin index create 0 = None" for create
    unfolding sfs_bmap_get_nolock_def Let_def using assms by (subst if_not_P, simp, subst if_not_P, auto)
  then show ?thesis by (simp add: sfs_bmap_load_nolock_def Let_def)
qed

section \<open>Removing the last block\<close>

definition shortened :: "sfs_fs \<Rightarrow> sfs_inode \<Rightarrow> sfs_inode \<Rightarrow> sfs_fs \<Rightarrow> bool" where
  "shortened sfs sin sin' sfs' \<longleftrightarrow>
     fs_ok sfs' \<and> fs_like sfs sfs' \<and> inode_ok sfs' (sin_din sin') \<and>
     inode_blocks sfs' (sin_din sin') = butlast (inode_blocks sfs (sin_din sin)) \<and>
     free_blocks sfs' = insert (last (inode_blocks sfs (sin_din sin))) (free_blocks sfs) \<and>
     (\<forall>c. c \<noteq> din_indirect (sin_din sin) \<longrightarrow> disk sfs' c = disk sfs c) \<and>
     din_indirect (sin_din sin') = din_indirect (sin_din sin) \<and>
     sin_ino sin' = sin_ino sin \<and> reclaim_count sin' = reclaim_count sin \<and> sin_dirty sin' \<and>
     din_size (sin_din sin') = din_size (sin_din sin) \<and> din_type (sin_din sin') = din_type (sin_din sin) \<and>
     din_nlinks (sin_din sin') = din_nlinks (sin_din sin)"

lemma inode_blocks_last: "din_blocks d \<noteq> 0 \<Longrightarrow> last (inode_blocks sfs d) = inode_block sfs d (din_blocks d - 1)"
  by (simp add: inode_blocks_def last_map)

lemma inode_ok_butlast:
  assumes ok: "inode_ok sfs d" and n: "din_blocks d \<noteq> 0" "din_blocks d' = din_blocks d - 1"
    and len: "length (din_direct d') = SFS_NDIRECT" and ind: "din_indirect d' = din_indirect d"
    and map: "\<And>i. i < MAX_BLOCKS \<Longrightarrow> inode_block sfs' d' i = (if i = din_blocks d - 1 then 0 else inode_block sfs d i)"
    and keep: "\<And>c. used_block sfs c \<Longrightarrow> c \<noteq> last (inode_blocks sfs d) \<Longrightarrow> used_block sfs' c"
  shows "inode_ok sfs' d' \<and> inode_blocks sfs' d' = butlast (inode_blocks sfs d)"
proof -
  have le: "din_blocks d \<le> MAX_BLOCKS" using ok by (simp add: inode_ok_def)
  have eq: "inode_blocks sfs' d' = butlast (inode_blocks sfs d)"
    by (rule nth_equalityI) (use n le in \<open>simp_all add: nth_butlast map\<close>)
  have ne: "inode_blocks sfs d \<noteq> []" using n(1) by (metis inode_blocks_length length_0_conv)
  have dist: "distinct (inode_blocks sfs d)" using ok by (simp add: inode_ok_def)
  have notin: "last (inode_blocks sfs d) \<notin> set (butlast (inode_blocks sfs d))"
    using dist ne by (metis append_butlast_last_id distinct_append disjoint_iff list.set_intros(1))
  have used: "\<forall>b \<in> set (butlast (inode_blocks sfs d)). used_block sfs' b"
    using ok notin keep by (metis in_set_butlastD inode_ok_def)
  have i: "din_indirect d \<noteq> 0 \<longrightarrow> used_block sfs' (din_indirect d) \<and> din_indirect d \<notin> set (butlast (inode_blocks sfs d))"
  proof
    assume "din_indirect d \<noteq> 0"
    then have a: "used_block sfs (din_indirect d)" "din_indirect d \<notin> set (inode_blocks sfs d)"
      using ok by (simp_all add: inode_ok_def)
    with last_in_set [OF ne] have "din_indirect d \<noteq> last (inode_blocks sfs d)" by metis
    with a keep show "used_block sfs' (din_indirect d) \<and> din_indirect d \<notin> set (butlast (inode_blocks sfs d))"
      by (meson in_set_butlastD)
  qed
  have z: "inode_block sfs' d' i = 0" if "din_blocks d' \<le> i" "i < MAX_BLOCKS" for i
    using that n ok map [of i] by (cases "i = din_blocks d - 1") (auto simp: inode_ok_def)
  show ?thesis
    using eq dist used i z n le len ind by (auto simp: inode_ok_def intro: distinct_butlast)
qed

lemma shortenedI:
  assumes ok: "inode_ok sfs (sin_din sin)" "fs_ok sfs'" "fs_like sfs sfs'"
    and n: "din_blocks (sin_din sin) \<noteq> 0" "din_blocks (sin_din sin') = din_blocks (sin_din sin) - 1"
    and len: "length (din_direct (sin_din sin')) = SFS_NDIRECT" and ind: "din_indirect (sin_din sin') = din_indirect (sin_din sin)"
    and map: "\<And>i. i < MAX_BLOCKS \<Longrightarrow> inode_block sfs' (sin_din sin') i =
      (if i = din_blocks (sin_din sin) - 1 then 0 else inode_block sfs (sin_din sin) i)"
    and free: "free_blocks sfs' = insert (inode_block sfs (sin_din sin) (din_blocks (sin_din sin) - 1)) (free_blocks sfs)"
    and rest: "\<And>c. c \<noteq> din_indirect (sin_din sin) \<Longrightarrow> disk sfs' c = disk sfs c"
      "sin_ino sin' = sin_ino sin" "reclaim_count sin' = reclaim_count sin" "sin_dirty sin'"
      "din_size (sin_din sin') = din_size (sin_din sin)" "din_type (sin_din sin') = din_type (sin_din sin)"
      "din_nlinks (sin_din sin') = din_nlinks (sin_din sin)"
  shows "shortened sfs sin sin' sfs'"
proof -
  have keep: "used_block sfs' c" if "used_block sfs c" "c \<noteq> last (inode_blocks sfs (sin_din sin))" for c
    using that free fs_like_data [OF ok(3)] by (simp add: used_block_def inode_blocks_last [OF n(1)])
  from inode_ok_butlast [OF ok(1) n len ind map keep] assms show ?thesis
    by (simp add: shortened_def inode_blocks_last)
qed

lemma sfs_bmap_truncate_ok:
  assumes ok: "fs_ok sfs" "inode_ok sfs (sin_din sin)" and n: "din_blocks (sin_din sin) \<noteq> 0"
  shows "\<exists>sin' sfs'. sfs_bmap_truncate_nolock sfs sin = Some (0, sin', sfs') \<and> shortened sfs sin sin' sfs'"
proof -
  let ?d = "sin_din sin" let ?n = "din_blocks ?d - 1" let ?b = "inode_block sfs ?d ?n"
  have ub: "used_block sfs ?b" using inode_block_used [OF ok(2), of ?n] n by simp
  have le: "din_blocks ?d \<le> MAX_BLOCKS" "length (din_direct ?d) = SFS_NDIRECT" using ok(2) by (simp_all add: inode_ok_def)
  have bset: "?b \<in> set (inode_blocks sfs ?d)" using n by (simp add: inode_blocks_def)
  show ?thesis
  proof (cases "?n < SFS_NDIRECT")
    case True
    from sfs_block_free_ok [OF ok(1) ub] obtain s1 where f: "sfs_block_free sfs ?b = Some s1" "fs_ok s1" "fs_like sfs s1"
      "free_blocks s1 = insert ?b (free_blocks sfs)" "disk s1 = disk sfs" by blast
    have bd: "din_direct ?d ! ?n = ?b" using True by (simp add: inode_block_def)
    let ?sin = "sin\<lparr>sin_din := ?d\<lparr>din_direct := (din_direct ?d)[?n := 0], din_blocks := ?n\<rparr>, sin_dirty := True\<rparr>"
    have r: "sfs_bmap_truncate_nolock sfs sin = Some (0, ?sin, s1)"
      using n True f(1) used_nonzero [OF ub] unfolding bd [symmetric]
      by (simp add: sfs_bmap_truncate_nolock_def sfs_bmap_free_nolock_def Let_def)
    have "shortened sfs sin ?sin s1"
    proof (rule shortenedI [OF ok(2) f(2,3) n])
      fix i assume "i < MAX_BLOCKS"
      show "inode_block s1 (sin_din ?sin) i = (if i = ?n then 0 else inode_block sfs ?d i)"
        using True le f(5) by (simp add: inode_block_def map_entry_def nth_list_update)
    qed (use f le in simp_all)
    with r show ?thesis by blast
  next
    case False
    let ?i = "?n - SFS_NDIRECT" and ?e = "din_indirect ?d"
    have nz: "?e \<noteq> 0" using indirect_needed [OF ok(2), of ?n] False n by simp
    have ue: "used_block sfs ?e" by (rule indirect_used [OF ok(2) nz])
    have ne: "?e \<noteq> ?b" using ok(2) nz bset by (auto simp: inode_ok_def)
    have i: "?i < SFS_BLK_NENTRY" using le n False by auto
    have bm: "map_entry sfs ?e ?i = ?b" using False nz by (simp add: inode_block_def)
    from read_entry [OF ok(1) ue i] bm obtain buf where rd:
      "sfs_rbuf sfs (le_bytes 4 0) 4 ?e (?i * 4) = Some (0, buf, sfs)" "le_nat buf = ?b" by auto
    have len: "length (disk sfs ?e) = SFS_BLKSIZE" using ok(1) ue disk_ok_length fs_ok_disk used_data by blast
    let ?s1 = "put_block ?e (splice_at (?i * 4) (le_bytes 4 0) (disk sfs ?e)) sfs"
    have w: "sfs_wbuf sfs (le_bytes 4 0) 4 ?e (?i * 4) = Some (0, le_bytes 4 0, ?s1)"
      using sfs_wbuf_ok [of sfs ?e "?i * 4" 4 "le_bytes 4 0"] ok(1) ue i by (simp add: fs_ok_disk used_data)
    have ok1: "fs_ok ?s1" using ok(1) by (rule fs_ok_put) (use len i in simp)
    have ub1: "used_block ?s1 ?b" using ub by simp
    from sfs_block_free_ok [OF ok1 ub1] obtain s2 where f: "sfs_block_free ?s1 ?b = Some s2" "fs_ok s2" "fs_like ?s1 s2"
      "free_blocks s2 = insert ?b (free_blocks sfs)" "disk s2 = disk ?s1" by auto
    have like: "fs_like sfs s2" using f(3) by (simp add: fs_like_def)
    have me: "map_entry s2 ?e j = (if j = ?i then 0 else map_entry sfs ?e j)" for j
      using map_entry_put [OF len i, of 0 j] f(5) by (simp add: map_entry_def)
    let ?sin = "sin\<lparr>sin_din := ?d\<lparr>din_blocks := ?n\<rparr>, sin_dirty := True\<rparr>"
    have sub: "sfs_bmap_free_sub_nolock sfs ?e ?i = Some (0, s2)"
      using rd w f(1) i used_nonzero [OF ub] assert_inuse_ok [OF ok(1) ue]
      by (simp add: sfs_bmap_free_sub_nolock_def)
    have r: "sfs_bmap_truncate_nolock sfs sin = Some (0, ?sin, s2)"
      unfolding sfs_bmap_truncate_nolock_def sfs_bmap_free_nolock_def Let_def
      using n False sub nz i by simp
    have "shortened sfs sin ?sin s2"
    proof (rule shortenedI [OF ok(2) f(2) like n])
      fix k assume "k < MAX_BLOCKS"
      show "inode_block s2 (sin_din ?sin) k = (if k = ?n then 0 else inode_block sfs ?d k)"
        using False nz me by (auto simp: inode_block_def)
    qed (use f le in \<open>simp_all\<close>)
    with r show ?thesis by blast
  qed
qed

section \<open>A small file system\<close>

text \<open>Eight blocks; 2, 5, 6 and 7 are free, 3 and 4 belong to files.\<close>

definition small_map :: bitmap where
  "small_map = \<lparr>nbits = 32, nwords = 1, bmap = [228]\<rparr>"

definition small_fs :: sfs_fs where
  "small_fs = \<lparr>super = \<lparr>magic = SFS_MAGIC, sblocks = 8, unused_blocks = 4, info = replicate 32 0\<rparr>,
     freemap = small_map, super_dirty = False, d_blocks = 8,
     disk = (\<lambda>b. if b = 3 then replicate SFS_BLKSIZE 7 else zero_block)\<rparr>"

definition small_din :: "nat list \<Rightarrow> nat \<Rightarrow> sfs_disk_inode" where
  "small_din bs n = \<lparr>din_size = n, din_type = SFS_TYPE_FILE, din_nlinks = 1, din_blocks = length bs,
     din_direct = bs @ replicate (SFS_NDIRECT - length bs) 0, din_indirect = 0\<rparr>"

definition small_sin :: "nat list \<Rightarrow> nat \<Rightarrow> sfs_inode" where
  "small_sin bs n = \<lparr>sin_din = small_din bs n, sin_ino = 4, sin_dirty = False, reclaim_count = 1\<rparr>"

lemma small_free: "free_ix small_map = {2, 5, 6, 7}"
proof -
  have b: "list_all (\<lambda>i. bit (228 :: 32 word) i = (i \<in> set [2, 5, 6, 7])) [0..<32]" by code_simp
  have "free_at [228] i \<longleftrightarrow> i \<in> {2, 5, 6, 7}" for i
  proof (cases "i < 32")
    case True
    with b have "bit (228 :: 32 word) i \<longleftrightarrow> i \<in> set [2, 5, 6, 7]" unfolding list_all_iff by auto
    with True show ?thesis by (simp add: free_at_def)
  next
    case False
    then show ?thesis by (auto simp: free_at_def)
  qed
  then show ?thesis by (simp add: free_ix_def small_map_def set_eq_iff)
qed

lemma small_ok: "fs_ok small_fs"
  by (simp add: fs_ok_def disk_ok_def small_fs_def small_free bitmap_inv_def data_block_def)
    (simp add: small_map_def zero_block_def)

lemma small_inode:
  assumes "distinct bs" "set bs \<subseteq> {3, 4}" "length bs \<le> SFS_NDIRECT"
  shows "inode_ok small_fs (small_din bs n)" "inode_blocks small_fs (small_din bs n) = bs"
proof -
  have eq: "inode_blocks small_fs (small_din bs n) = bs"
    by (rule nth_equalityI) (use assms(3) in \<open>simp_all add: small_din_def inode_block_def nth_append inode_blocks_def\<close>)
  show "inode_blocks small_fs (small_din bs n) = bs" by (rule eq)
  have "inode_block small_fs (small_din bs n) i = 0" if "length bs \<le> i" for i
    using that assms(3) by (auto simp: inode_block_def small_din_def nth_append)
  moreover have "used_block small_fs b" if "b \<in> set bs" for b
    using that assms(2) by (auto simp: used_block_def data_block_def small_fs_def small_free)
  ultimately show "inode_ok small_fs (small_din bs n)"
    using assms unfolding inode_ok_def eq by (simp add: small_din_def)
qed

section \<open>Properties\<close>

text \<open>C29: \<^verbatim>\<open>sfs_bmap_load_nolock\<close> returns the disk block of a block of the file
  without a change; asked for the block behind the last one it appends a zeroed block that
  was free, keeps every other block that is in use except the block of entries, and fails
  without a change of any of them when the free blocks do not suffice; it panics behind
  that and at the 1037th block. \<^verbatim>\<open>sfs_bmap_truncate_nolock\<close> takes the last block off
  again and frees it.\<close>
theorem block_map_outcomes:
  assumes "fs_ok sfs" "inode_ok sfs (sin_din sin)"
  shows "(\<forall>i < din_blocks (sin_din sin). sfs_bmap_load_nolock sfs sin i st =
      Some (0, inode_blocks sfs (sin_din sin) ! i, sin, sfs)) \<and>
    (\<forall>i. i > din_blocks (sin_din sin) \<or> i \<ge> MAX_BLOCKS \<longrightarrow> sfs_bmap_load_nolock sfs sin i st = None) \<and>
    (din_blocks (sin_din sin) < MAX_BLOCKS \<longrightarrow>
      (if card (free_blocks sfs) < blocks_needed (sin_din sin) then
         \<exists>sfs'. sfs_bmap_load_nolock sfs sin (din_blocks (sin_din sin)) st = Some (- E_NO_MEM, st, sin, sfs') \<and>
           unchanged sfs sfs'
       else \<exists>b sin' sfs'. sfs_bmap_load_nolock sfs sin (din_blocks (sin_din sin)) st = Some (0, b, sin', sfs') \<and>
         appended sfs sin b sin' sfs')) \<and>
    (din_blocks (sin_din sin) \<noteq> 0 \<longrightarrow>
      (\<exists>sin' sfs'. sfs_bmap_truncate_nolock sfs sin = Some (0, sin', sfs') \<and> shortened sfs sin sin' sfs'))"
proof (intro conjI allI impI)
  fix i assume "i > din_blocks (sin_din sin) \<or> i \<ge> MAX_BLOCKS"
  then show "sfs_bmap_load_nolock sfs sin i st = None"
  proof
    assume "din_blocks (sin_din sin) < i"
    then show ?thesis by (simp add: sfs_bmap_load_nolock_def)
  next
    assume "MAX_BLOCKS \<le> i"
    then show ?thesis by (rule sfs_bmap_load_beyond)
  qed
qed (use sfs_bmap_load_old [OF assms] sfs_bmap_load_append [OF assms] sfs_bmap_truncate_ok [OF assms] in blast)+

theorem block_map_outcomes_witness:
  "sfs_bmap_load_nolock small_fs (small_sin [4, 3] 5000) 1 0 = Some (0, 3, small_sin [4, 3] 5000, small_fs) \<and>
   sfs_bmap_load_nolock small_fs (small_sin [4, 3] 5000) 3 0 = None \<and>
   (\<exists>b sin' sfs'. sfs_bmap_load_nolock small_fs (small_sin [4, 3] 5000) 2 0 = Some (0, b, sin', sfs') \<and>
     b \<in> {2, 5, 6, 7} \<and> inode_blocks sfs' (sin_din sin') = [4, 3, b])"
proof -
  have d: "sin_din (small_sin [4, 3] 5000) = small_din [4, 3] 5000" by (simp add: small_sin_def)
  have b: "din_blocks (small_din [4, 3] 5000) = 2" "blocks_needed (small_din [4, 3] 5000) = 1"
    by (simp_all add: small_din_def blocks_needed_def)
  have i: "inode_ok small_fs (small_din [4, 3] 5000)" "inode_blocks small_fs (small_din [4, 3] 5000) = [4, 3]"
    using small_inode [of "[4, 3]"] by simp_all
  have f: "free_blocks small_fs = {2, 5, 6, 7}" by (simp add: small_fs_def small_free)
  note th = block_map_outcomes [OF small_ok, of "small_sin [4, 3] 5000" 0, unfolded d b i f, OF i(1)]
  have "sfs_bmap_load_nolock small_fs (small_sin [4, 3] 5000) 1 0 = Some (0, 3, small_sin [4, 3] 5000, small_fs)"
    using th by simp
  moreover have "sfs_bmap_load_nolock small_fs (small_sin [4, 3] 5000) 3 0 = None" using th by simp
  moreover have "\<exists>b sin' sfs'. sfs_bmap_load_nolock small_fs (small_sin [4, 3] 5000) 2 0 = Some (0, b, sin', sfs') \<and>
      appended small_fs (small_sin [4, 3] 5000) b sin' sfs'"
    using th by simp
  then have "\<exists>b sin' sfs'. sfs_bmap_load_nolock small_fs (small_sin [4, 3] 5000) 2 0 = Some (0, b, sin', sfs') \<and>
     b \<in> {2, 5, 6, 7} \<and> inode_blocks sfs' (sin_din sin') = [4, 3, b]"
    unfolding appended_def d i(2) f by force
  ultimately show ?thesis by blast
qed

end
