(* ===== verification/SfsFile.thy ===== *)
theory SfsFile
  imports SfsMap Iobuf
begin

text \<open>
  kern/fs/sfs/sfs_inode.c, the operations on the contents of a file: reading, writing,
  changing the length, seeking, and writing the inode back. The buffer of the caller is
  passed by value; \<^verbatim>\<open>off_t\<close> and \<^verbatim>\<open>size_t\<close> have 64 bits.
\<close>

section \<open>The program\<close>

abbreviation E_ISDIR :: int where "E_ISDIR \<equiv> 17"
abbreviation E_UNIMP :: int where "E_UNIMP \<equiv> 20"

definition S_IFREG :: nat where "S_IFREG = 0x1000"
definition S_IFDIR :: nat where "S_IFDIR = 0x2000"
definition S_IFLNK :: nat where "S_IFLNK = 0x3000"

definition O_ACCMODE :: "32 word" where "O_ACCMODE = 3"
definition O_RDONLY :: "32 word" where "O_RDONLY = 0"
definition O_WRONLY :: "32 word" where "O_WRONLY = 1"
definition O_RDWR :: "32 word" where "O_RDWR = 2"
definition O_CREAT :: "32 word" where "O_CREAT = 4"
definition O_EXCL :: "32 word" where "O_EXCL = 8"
definition O_TRUNC :: "32 word" where "O_TRUNC = 16"
definition O_APPEND :: "32 word" where "O_APPEND = 32"

unbundle bit_operations_syntax

definition sfs_opendir :: "32 word \<Rightarrow> int" where
  "sfs_opendir open_flags =
     (if open_flags AND O_ACCMODE \<noteq> O_RDONLY then - E_ISDIR
      else if open_flags AND O_APPEND \<noteq> 0 then - E_ISDIR else 0)"

definition sfs_openfile :: "32 word \<Rightarrow> int" where
  "sfs_openfile open_flags = 0"

definition s64 :: "int \<Rightarrow> int" where
  "s64 i = sint (word_of_int i :: 64 word)"

definition sfs_buf_op :: "bool \<Rightarrow> sfs_fs \<Rightarrow> byte list \<Rightarrow> nat \<Rightarrow> nat \<Rightarrow> nat \<Rightarrow> (int \<times> byte list \<times> sfs_fs) option" where
  "sfs_buf_op write = (if write then sfs_wbuf else sfs_rbuf)"

definition sfs_block_op :: "bool \<Rightarrow> sfs_fs \<Rightarrow> byte list \<Rightarrow> nat \<Rightarrow> nat \<Rightarrow> (int \<times> byte list \<times> sfs_fs) option" where
  "sfs_block_op write = (if write then sfs_wblock else sfs_rblock)"

text \<open>
  \<^verbatim>\<open>sfs_io_nolock\<close>, cut at its three parts and the label \<^verbatim>\<open>out\<close>. The buffer is
  the whole of the caller's, \<^verbatim>\<open>alen\<close> the position in it. The result is the return
  code, the buffer, \<^verbatim>\<open>*alenp\<close>, the inode and the file system.
\<close>

type_synonym io_result = "(int \<times> byte list \<times> nat \<times> sfs_inode \<times> sfs_fs) option"

definition sfs_io_out :: "sfs_fs \<Rightarrow> sfs_inode \<Rightarrow> byte list \<Rightarrow> nat \<Rightarrow> nat \<Rightarrow> int \<Rightarrow> io_result" where
  "sfs_io_out sfs sin buf offset alen ret =
     Some (ret, buf, alen,
       if offset + alen > din_size (sin_din sin) then
         sin\<lparr>sin_din := (sin_din sin)\<lparr>din_size := w32 (offset + alen)\<rparr>, sin_dirty := True\<rparr>
       else sin, sfs)"

definition sfs_io_last ::
    "bool \<Rightarrow> sfs_fs \<Rightarrow> sfs_inode \<Rightarrow> byte list \<Rightarrow> nat \<Rightarrow> nat \<Rightarrow> nat \<Rightarrow> nat \<Rightarrow> io_result" where
  "sfs_io_last write sfs sin buf offset endpos alen blkno =
     (let size = endpos mod SFS_BLKSIZE in
      if size \<noteq> 0 then
        do { (ret, b, sin, sfs) \<leftarrow> sfs_bmap_load_nolock sfs sin blkno 0;
             if ret \<noteq> 0 then sfs_io_out sfs sin buf offset alen ret
             else do { (ret, bs, sfs) \<leftarrow> sfs_buf_op write sfs (drop alen buf) size b 0;
                       let buf = take alen buf @ bs;
                       if ret \<noteq> 0 then sfs_io_out sfs sin buf offset alen ret
                       else sfs_io_out sfs sin buf offset (alen + size) 0 } }
      else sfs_io_out sfs sin buf offset alen 0)"

definition sfs_io_blocks ::
    "bool \<Rightarrow> sfs_fs \<Rightarrow> sfs_inode \<Rightarrow> byte list \<Rightarrow> nat \<Rightarrow> nat \<Rightarrow> nat \<Rightarrow> nat \<Rightarrow> nat \<Rightarrow> io_result" where
  "sfs_io_blocks write sfs sin buf offset endpos alen blkno nblks =
     (if nblks > 0 then
        do { (ret, b, sin, sfs) \<leftarrow> sfs_bmap_load_nolock sfs sin blkno 0;
             if ret \<noteq> 0 then sfs_io_out sfs sin buf offset alen ret
             else do { (ret, bs, sfs) \<leftarrow> sfs_block_op write sfs (drop alen buf) b nblks;
                       let buf = take alen buf @ bs;
                       if ret \<noteq> 0 then sfs_io_out sfs sin buf offset alen ret
                       else sfs_io_last write sfs sin buf offset endpos (alen + nblks * SFS_BLKSIZE) (blkno + nblks) } }
      else sfs_io_last write sfs sin buf offset endpos alen blkno)"

definition sfs_io_first ::
    "bool \<Rightarrow> sfs_fs \<Rightarrow> sfs_inode \<Rightarrow> byte list \<Rightarrow> nat \<Rightarrow> nat \<Rightarrow> nat \<Rightarrow> nat \<Rightarrow> io_result" where
  "sfs_io_first write sfs sin buf offset endpos blkno nblks =
     (let blkoff = offset mod SFS_BLKSIZE in
      if blkoff \<noteq> 0 then
        (let size = (if nblks \<noteq> 0 then SFS_BLKSIZE - blkoff else endpos - offset)
         in do { (ret, b, sin, sfs) \<leftarrow> sfs_bmap_load_nolock sfs sin blkno 0;
                 if ret \<noteq> 0 then sfs_io_out sfs sin buf offset 0 ret
                 else do { (ret, buf, sfs) \<leftarrow> sfs_buf_op write sfs buf size b blkoff;
                           if ret \<noteq> 0 then sfs_io_out sfs sin buf offset 0 ret
                           else if nblks = 0 then sfs_io_out sfs sin buf offset size 0
                           else sfs_io_blocks write sfs sin buf offset endpos size (blkno + 1) (nblks - 1) } })
      else sfs_io_blocks write sfs sin buf offset endpos 0 blkno nblks)"

definition sfs_io_nolock :: "sfs_fs \<Rightarrow> sfs_inode \<Rightarrow> byte list \<Rightarrow> int \<Rightarrow> nat \<Rightarrow> bool \<Rightarrow> io_result" where
  "sfs_io_nolock sfs sin buf offset alen write =
     do { kassert (din_type (sin_din sin) \<noteq> SFS_TYPE_DIR);
          let endpos = s64 (offset + int alen);
          if offset < 0 \<or> offset \<ge> int SFS_MAX_FILE_SIZE \<or> offset > endpos then Some (- E_INVAL, buf, 0, sin, sfs)
          else if offset = endpos then Some (0, buf, 0, sin, sfs)
          else let endpos = (if endpos > int SFS_MAX_FILE_SIZE then int SFS_MAX_FILE_SIZE else endpos);
                   size = int (din_size (sin_din sin))
               in if \<not> write \<and> offset \<ge> size then Some (0, buf, 0, sin, sfs)
                  else let endpos = (if \<not> write \<and> endpos > size then size else endpos);
                           blkno = nat offset div SFS_BLKSIZE;
                           nblks = nat endpos div SFS_BLKSIZE - blkno
                       in sfs_io_first write sfs sin buf (nat offset) (nat endpos) blkno nblks }"

text \<open>The buffer of the \<^verbatim>\<open>iobuf\<close> is passed beside it.\<close>

definition sfs_io ::
    "sfs_fs \<Rightarrow> sfs_inode \<Rightarrow> iobuf \<Rightarrow> byte list \<Rightarrow> bool \<Rightarrow> (int \<times> iobuf \<times> byte list \<times> sfs_inode \<times> sfs_fs) option" where
  "sfs_io sfs sin iob buf write =
     do { (ret, buf, alen, sin, sfs) \<leftarrow> sfs_io_nolock sfs sin buf (io_offset iob) (io_resid iob) write;
          iob \<leftarrow> (if alen \<noteq> 0 then iobuf_skip iob alen else Some iob);
          Some (ret, iob, buf, sin, sfs) }"

definition sfs_read :: "sfs_fs \<Rightarrow> sfs_inode \<Rightarrow> iobuf \<Rightarrow> byte list \<Rightarrow> (int \<times> iobuf \<times> byte list \<times> sfs_inode \<times> sfs_fs) option" where
  "sfs_read sfs sin iob buf = sfs_io sfs sin iob buf False"

definition sfs_write :: "sfs_fs \<Rightarrow> sfs_inode \<Rightarrow> iobuf \<Rightarrow> byte list \<Rightarrow> (int \<times> iobuf \<times> byte list \<times> sfs_inode \<times> sfs_fs) option" where
  "sfs_write sfs sin iob buf = sfs_io sfs sin iob buf True"

definition sfs_gettype :: "sfs_inode \<Rightarrow> (int \<times> nat) option" where
  "sfs_gettype sin =
     (if din_type (sin_din sin) = SFS_TYPE_DIR then Some (0, S_IFDIR)
      else if din_type (sin_din sin) = SFS_TYPE_FILE then Some (0, S_IFREG)
      else if din_type (sin_din sin) = SFS_TYPE_LINK then Some (0, S_IFLNK) else None)"

record stat =
  st_mode :: nat
  st_nlinks :: nat
  st_blocks :: nat
  st_size :: nat

definition sfs_fstat :: "sfs_inode \<Rightarrow> (int \<times> stat) option" where
  "sfs_fstat sin =
     do { (ret, mode) \<leftarrow> sfs_gettype sin;
          if ret \<noteq> 0 then Some (ret, \<lparr>st_mode = mode, st_nlinks = 0, st_blocks = 0, st_size = 0\<rparr>)
          else Some (0, \<lparr>st_mode = mode, st_nlinks = din_nlinks (sin_din sin),
                         st_blocks = din_blocks (sin_din sin), st_size = din_size (sin_din sin)\<rparr>) }"

definition sfs_fsync :: "sfs_fs \<Rightarrow> sfs_inode \<Rightarrow> (int \<times> sfs_inode \<times> sfs_fs) option" where
  "sfs_fsync sfs sin =
     (if sin_dirty sin then
        do { let sin = sin\<lparr>sin_dirty := False\<rparr>;
             (ret, buf, sfs) \<leftarrow> sfs_wbuf sfs (din_bytes (sin_din sin)) sizeof_din (sin_ino sin) 0;
             Some (ret, if ret \<noteq> 0 then sin\<lparr>sin_dirty := True\<rparr> else sin, sfs) }
      else Some (0, sin, sfs))"

definition sfs_close :: "sfs_fs \<Rightarrow> sfs_inode \<Rightarrow> (int \<times> sfs_inode \<times> sfs_fs) option" where
  "sfs_close sfs sin = sfs_fsync sfs sin"

text \<open>The two loops of \<^verbatim>\<open>sfs_truncfile\<close>, by the number of blocks still to add or remove.\<close>

primrec truncfile_grow :: "nat \<Rightarrow> nat \<Rightarrow> sfs_fs \<Rightarrow> sfs_inode \<Rightarrow> (int \<times> sfs_inode \<times> sfs_fs) option" where
  "truncfile_grow 0 nblks sfs sin = Some (0, sin, sfs)"
| "truncfile_grow (Suc k) nblks sfs sin =
     do { (ret, b, sin, sfs) \<leftarrow> sfs_bmap_load_nolock sfs sin nblks 0;
          if ret \<noteq> 0 then Some (ret, sin, sfs) else truncfile_grow k (nblks + 1) sfs sin }"

primrec truncfile_shrink :: "nat \<Rightarrow> sfs_fs \<Rightarrow> sfs_inode \<Rightarrow> (int \<times> sfs_inode \<times> sfs_fs) option" where
  "truncfile_shrink 0 sfs sin = Some (0, sin, sfs)"
| "truncfile_shrink (Suc k) sfs sin =
     do { (ret, sin, sfs) \<leftarrow> sfs_bmap_truncate_nolock sfs sin;
          if ret \<noteq> 0 then Some (ret, sin, sfs) else truncfile_shrink k sfs sin }"

definition sfs_truncfile :: "sfs_fs \<Rightarrow> sfs_inode \<Rightarrow> int \<Rightarrow> (int \<times> sfs_inode \<times> sfs_fs) option" where
  "sfs_truncfile sfs sin len =
     (if len < 0 \<or> len > int SFS_MAX_FILE_SIZE then Some (- E_INVAL, sin, sfs)
      else let d = sin_din sin; tblks = w32 (ROUNDUP_DIV (nat len) SFS_BLKSIZE); nblks = din_blocks d
           in if int (din_size d) = len then do { kassert (tblks = din_blocks d); Some (0, sin, sfs) }
              else do { (ret, sin, sfs) \<leftarrow>
                          (if nblks < tblks then truncfile_grow (tblks - nblks) nblks sfs sin
                           else if tblks < nblks then truncfile_shrink (nblks - tblks) sfs sin
                           else Some (0, sin, sfs));
                        if ret \<noteq> 0 then Some (ret, sin, sfs)
                        else do { kassert (din_blocks (sin_din sin) = tblks);
                                  Some (0, sin\<lparr>sin_din := (sin_din sin)\<lparr>din_size := nat len\<rparr>, sin_dirty := True\<rparr>, sfs) } })"

definition sfs_tryseek :: "sfs_fs \<Rightarrow> sfs_inode \<Rightarrow> int \<Rightarrow> (int \<times> sfs_inode \<times> sfs_fs) option" where
  "sfs_tryseek sfs sin pos =
     (if pos < 0 \<or> pos \<ge> int SFS_MAX_FILE_SIZE then Some (- E_INVAL, sin, sfs)
      else if pos > int (din_size (sin_din sin)) then sfs_truncfile sfs sin pos
      else Some (0, sin, sfs))"

section \<open>Changing the number of blocks\<close>

text \<open>What stays of the inode and of the other blocks when blocks are added or removed.\<close>

definition same_file :: "sfs_fs \<Rightarrow> sfs_inode \<Rightarrow> sfs_inode \<Rightarrow> sfs_fs \<Rightarrow> bool" where
  "same_file sfs sin sin' sfs' \<longleftrightarrow>
     fs_ok sfs' \<and> fs_like sfs sfs' \<and> inode_ok sfs' (sin_din sin') \<and>
     sin_ino sin' = sin_ino sin \<and> reclaim_count sin' = reclaim_count sin \<and>
     din_size (sin_din sin') = din_size (sin_din sin) \<and> din_type (sin_din sin') = din_type (sin_din sin) \<and>
     din_nlinks (sin_din sin') = din_nlinks (sin_din sin)"

definition grow_needs :: "sfs_disk_inode \<Rightarrow> nat \<Rightarrow> nat" where
  "grow_needs d k = k + (if din_indirect d = 0 \<and> SFS_NDIRECT < din_blocks d + k then 1 else 0)"

lemma appended_card:
  assumes "appended sfs sin b sin' sfs'" "fs_ok sfs" "inode_ok sfs (sin_din sin)"
  shows "card (free_blocks sfs) = card (free_blocks sfs') + blocks_needed (sin_din sin)"
proof -
  have fin: "finite (free_blocks sfs)" by (rule finite_free [OF assms(2)])
  have a: "b \<in> free_blocks sfs" "free_blocks sfs' = free_blocks sfs - {b, din_indirect (sin_din sin')}"
    "if blocks_needed (sin_din sin) = 2 then din_indirect (sin_din sin') \<in> free_blocks sfs - {b}
     else din_indirect (sin_din sin') = din_indirect (sin_din sin)"
    using assms(1) unfolding appended_def by blast+
  show ?thesis
  proof (cases "blocks_needed (sin_din sin) = 2")
    case True
    then have sub: "{b, din_indirect (sin_din sin')} \<subseteq> free_blocks sfs" "b \<noteq> din_indirect (sin_din sin')" using a by auto
    have "card (free_blocks sfs') = card (free_blocks sfs) - card {b, din_indirect (sin_din sin')}"
      unfolding a(2) by (rule card_Diff_subset) (use sub in auto)
    moreover have "card {b, din_indirect (sin_din sin')} \<le> card (free_blocks sfs)" by (rule card_mono [OF fin sub(1)])
    ultimately show ?thesis using True sub(2) by simp
  next
    case False
    then have "free_blocks sfs' = free_blocks sfs - {b}"
      using a indirect_not_free [OF assms(2,3)] by (simp, blast)
    moreover have "0 < card (free_blocks sfs)" using a(1) fin by (auto simp: card_gt_0_iff)
    ultimately show ?thesis using False a(1) fin by (simp add: blocks_needed_def split: if_splits)
  qed
qed

lemma appended_blocks: "appended sfs sin b sin' sfs' \<Longrightarrow> din_blocks (sin_din sin') = din_blocks (sin_din sin) + 1"
  by (metis appended_def inode_blocks_length length_append_singleton Suc_eq_plus1)

lemma appended_needs:
  assumes "appended sfs sin b sin' sfs'" "fs_ok sfs" "inode_ok sfs (sin_din sin)"
  shows "grow_needs (sin_din sin) (Suc k) = blocks_needed (sin_din sin) + grow_needs (sin_din sin') k"
proof (cases "blocks_needed (sin_din sin) = 2")
  case True
  then have "din_indirect (sin_din sin') \<in> free_blocks sfs" using assms(1) by (simp add: appended_def)
  then have "din_indirect (sin_din sin') \<noteq> 0" using assms(2) by (auto simp: fs_ok_def data_block_def)
  with True show ?thesis by (auto simp: grow_needs_def blocks_needed_def split: if_splits)
next
  case False
  then have "din_indirect (sin_din sin') = din_indirect (sin_din sin)" using assms(1) by (simp add: appended_def)
  with False show ?thesis using appended_blocks [OF assms(1)] by (auto simp: grow_needs_def blocks_needed_def split: if_splits)
qed

lemma butlast_take_last:
  "k < length xs \<Longrightarrow> take (length xs - Suc k) xs = take (length (butlast xs) - k) (butlast xs) \<and>
    set (drop (length xs - Suc k) xs) = insert (last xs) (set (drop (length (butlast xs) - k) (butlast xs)))"
proof -
  assume k: "k < length xs"
  then obtain ys y where xs: "xs = ys @ [y]" by (metis append_butlast_last_id length_0_conv less_zeroE)
  with k show ?thesis by simp
qed

lemma truncfile_shrink_ok:
  assumes "fs_ok sfs" "inode_ok sfs (sin_din sin)" "k \<le> din_blocks (sin_din sin)"
  shows "\<exists>sin' sfs'. truncfile_shrink k sfs sin = Some (0, sin', sfs') \<and> same_file sfs sin sin' sfs' \<and>
    inode_blocks sfs' (sin_din sin') =
      take (din_blocks (sin_din sin) - k) (inode_blocks sfs (sin_din sin)) \<and>
    free_blocks sfs' = free_blocks sfs \<union> set (drop (din_blocks (sin_din sin) - k) (inode_blocks sfs (sin_din sin))) \<and>
    (\<forall>c. c \<noteq> din_indirect (sin_din sin) \<longrightarrow> disk sfs' c = disk sfs c)"
  using assms
proof (induction k arbitrary: sfs sin)
  case 0
  then show ?case by (auto simp: same_file_def)
next
  case (Suc k)
  let ?bs = "inode_blocks sfs (sin_din sin)"
  from sfs_bmap_truncate_ok [of sfs sin] Suc.prems obtain sin1 s1 where t:
    "sfs_bmap_truncate_nolock sfs sin = Some (0, sin1, s1)" "shortened sfs sin sin1 s1" by auto
  note sh = t(2) [unfolded shortened_def]
  have len: "k < length ?bs" using Suc.prems(3) by simp
  have n1: "din_blocks (sin_din sin1) = din_blocks (sin_din sin) - 1"
    using sh by (metis inode_blocks_length length_butlast)
  have ind1: "din_indirect (sin_din sin1) = din_indirect (sin_din sin)" using t(2) by (simp add: shortened_def)
  have "k \<le> din_blocks (sin_din sin1)" using n1 Suc.prems(3) by simp
  with Suc.IH [of s1 sin1] sh obtain sin' sfs' where IH: "truncfile_shrink k s1 sin1 = Some (0, sin', sfs')"
    "same_file s1 sin1 sin' sfs'"
    "inode_blocks sfs' (sin_din sin') = take (din_blocks (sin_din sin1) - k) (inode_blocks s1 (sin_din sin1))"
    "free_blocks sfs' = free_blocks s1 \<union> set (drop (din_blocks (sin_din sin1) - k) (inode_blocks s1 (sin_din sin1)))"
    "\<forall>c. c \<noteq> din_indirect (sin_din sin1) \<longrightarrow> disk sfs' c = disk s1 c"
    by auto
  have r: "truncfile_shrink (Suc k) sfs sin = Some (0, sin', sfs')" using t(1) IH(1) by simp
  show ?case
  proof (intro exI conjI)
    show "truncfile_shrink (Suc k) sfs sin = Some (0, sin', sfs')" by (rule r)
    show "same_file sfs sin sin' sfs'" using IH(2) sh fs_like_trans by (auto simp: same_file_def)
    show "inode_blocks sfs' (sin_din sin') = take (din_blocks (sin_din sin) - Suc k) ?bs"
      using IH(3) sh butlast_take_last [OF len] n1 by simp
    show "free_blocks sfs' = free_blocks sfs \<union> set (drop (din_blocks (sin_din sin) - Suc k) ?bs)"
      using IH(4) sh butlast_take_last [OF len] n1 by auto
    show "\<forall>c. c \<noteq> din_indirect (sin_din sin) \<longrightarrow> disk sfs' c = disk sfs c"
      using IH(5) sh ind1 by simp
  qed
qed

definition grown :: "sfs_fs \<Rightarrow> sfs_inode \<Rightarrow> nat list \<Rightarrow> sfs_inode \<Rightarrow> sfs_fs \<Rightarrow> bool" where
  "grown sfs sin bs sin' sfs' \<longleftrightarrow> same_file sfs sin sin' sfs' \<and>
     inode_blocks sfs' (sin_din sin') = inode_blocks sfs (sin_din sin) @ bs \<and> set bs \<subseteq> free_blocks sfs \<and>
     (\<forall>b \<in> set bs. disk sfs' b = zero_block) \<and> free_blocks sfs' \<subseteq> free_blocks sfs - set bs \<and>
     (\<forall>c. used_block sfs c \<and> c \<noteq> din_indirect (sin_din sin) \<longrightarrow> disk sfs' c = disk sfs c)"

lemma grown_refl: "fs_ok sfs \<Longrightarrow> inode_ok sfs (sin_din sin) \<Longrightarrow> grown sfs sin [] sin sfs"
  by (simp add: grown_def same_file_def)

lemma unchanged_grown:
  assumes "unchanged sfs sfs'" "inode_ok sfs (sin_din sin)"
  shows "grown sfs sin [] sin sfs'"
proof -
  have k: "used_block sfs' c" if "used_block sfs c" for c
    using that assms(1) fs_like_data [of sfs sfs' c] by (simp add: unchanged_def used_block_def)
  have "inode_ok sfs' (sin_din sin) \<and> inode_blocks sfs' (sin_din sin) = inode_blocks sfs (sin_din sin)"
    by (rule inode_ok_frame [OF assms(2)])
      (use assms k indirect_used in \<open>auto simp: unchanged_def\<close>)
  with assms show ?thesis by (simp add: grown_def same_file_def unchanged_def)
qed

lemma appended_parts:
  assumes "appended sfs sin b sin1 s1"
  shows "b \<in> free_blocks sfs" "fs_ok s1" "inode_ok s1 (sin_din sin1)" "disk s1 b = zero_block"
    "inode_blocks s1 (sin_din sin1) = inode_blocks sfs (sin_din sin) @ [b]" "same_file sfs sin sin1 s1"
    "free_blocks s1 \<subseteq> free_blocks sfs - {b}" "fs_like sfs s1"
    "din_indirect (sin_din sin1) = din_indirect (sin_din sin) \<or> din_indirect (sin_din sin1) \<in> free_blocks sfs"
    "\<And>c. used_block sfs c \<Longrightarrow> c \<noteq> din_indirect (sin_din sin) \<Longrightarrow> disk s1 c = disk sfs c"
  using assms unfolding appended_def same_file_def by (auto split: if_splits)

lemma grown_step:
  assumes ok: "inode_ok sfs (sin_din sin)" and a: "appended sfs sin b sin1 s1" and g: "grown s1 sin1 bs sin' sfs'"
  shows "grown sfs sin (b # bs) sin' sfs'"
proof -
  note ap = appended_parts [OF a]
  have gd: "same_file s1 sin1 sin' sfs'" "inode_blocks sfs' (sin_din sin') = inode_blocks s1 (sin_din sin1) @ bs"
    "set bs \<subseteq> free_blocks s1" "\<And>c. c \<in> set bs \<Longrightarrow> disk sfs' c = zero_block"
    "free_blocks sfs' \<subseteq> free_blocks s1 - set bs"
    "\<And>c. used_block s1 c \<Longrightarrow> c \<noteq> din_indirect (sin_din sin1) \<Longrightarrow> disk sfs' c = disk s1 c"
    using g unfolding grown_def by blast+
  have bin: "b \<in> set (inode_blocks s1 (sin_din sin1))" using ap(5) by simp
  then have ub: "used_block s1 b" and nb: "b \<noteq> din_indirect (sin_din sin1)"
    using ap(3) used_nonzero [of s1 b] by (auto simp: inode_ok_def)
  have zb: "disk sfs' b = zero_block" using gd(6) [OF ub nb] ap(4) by simp
  have keep: "disk sfs' c = disk sfs c" if c: "used_block sfs c" "c \<noteq> din_indirect (sin_din sin)" for c
  proof -
    have "used_block s1 c" using used_keep [OF c(1) ap(8)] ap(7) by blast
    moreover have "c \<noteq> din_indirect (sin_din sin1)" using c ap(9) by (auto simp: used_block_def)
    ultimately show ?thesis using gd(6) ap(10) [OF c] by simp
  qed
  have same: "same_file sfs sin sin' sfs'" using ap(6) gd(1) fs_like_trans by (auto simp: same_file_def)
  show ?thesis unfolding grown_def using same gd(2-5) ap(1,5,7) zb keep by auto
qed

lemma truncfile_grow_ok:
  assumes "fs_ok sfs" "inode_ok sfs (sin_din sin)" "din_blocks (sin_din sin) + k \<le> MAX_BLOCKS"
    "grow_needs (sin_din sin) k \<le> card (free_blocks sfs)"
  shows "\<exists>bs sin' sfs'. truncfile_grow k (din_blocks (sin_din sin)) sfs sin = Some (0, sin', sfs') \<and>
    length bs = k \<and> grown sfs sin bs sin' sfs'"
  using assms
proof (induction k arbitrary: sfs sin)
  case 0
  then show ?case using grown_refl by (intro exI [of _ "[]"]) auto
next
  case (Suc k)
  have "blocks_needed (sin_din sin) \<le> grow_needs (sin_din sin) (Suc k)"
    by (simp add: blocks_needed_def grow_needs_def)
  then have "\<not> card (free_blocks sfs) < blocks_needed (sin_din sin)" using Suc.prems(4) by simp
  with sfs_bmap_load_append [OF Suc.prems(1,2), of 0] Suc.prems(3) obtain b sin1 s1 where l:
    "sfs_bmap_load_nolock sfs sin (din_blocks (sin_din sin)) 0 = Some (0, b, sin1, s1)" "appended sfs sin b sin1 s1"
    by auto
  note n1 = appended_blocks [OF l(2)]
  have "grow_needs (sin_din sin1) k \<le> card (free_blocks s1)"
    using appended_card [OF l(2) Suc.prems(1,2)] appended_needs [OF l(2) Suc.prems(1,2), of k] Suc.prems(4) by simp
  then obtain bs sin' sfs' where IH: "truncfile_grow k (din_blocks (sin_din sin1)) s1 sin1 = Some (0, sin', sfs')"
    "length bs = k" "grown s1 sin1 bs sin' sfs'"
    using Suc.IH [of s1 sin1] appended_parts(2,3) [OF l(2)] Suc.prems(3) n1 by auto
  have "truncfile_grow (Suc k) (din_blocks (sin_din sin)) sfs sin = Some (0, sin', sfs')"
    using l(1) IH(1) n1 by simp
  with IH grown_step [OF Suc.prems(2) l(2) IH(3)] show ?case
    by (intro exI [of _ "b # bs"]) auto
qed

lemma truncfile_grow_fails:
  assumes "fs_ok sfs" "inode_ok sfs (sin_din sin)"
    "card (free_blocks sfs) < grow_needs (sin_din sin) (min k (MAX_BLOCKS - din_blocks (sin_din sin)))"
  shows "\<exists>bs sin' sfs'. truncfile_grow k (din_blocks (sin_din sin)) sfs sin = Some (- E_NO_MEM, sin', sfs') \<and>
    length bs < k \<and> grown sfs sin bs sin' sfs'"
  using assms
proof (induction k arbitrary: sfs sin)
  case 0
  have "din_indirect (sin_din sin) \<noteq> 0" if "SFS_NDIRECT < din_blocks (sin_din sin)"
    using indirect_needed [OF 0(2), of SFS_NDIRECT] that by simp
  with 0(3) show ?case by (auto simp: grow_needs_def split: if_splits)
next
  case (Suc k)
  have le: "din_blocks (sin_din sin) \<le> MAX_BLOCKS" using Suc.prems(2) by (simp add: inode_ok_def)
  have lt: "din_blocks (sin_din sin) < MAX_BLOCKS"
  proof (rule ccontr)
    assume "\<not> ?thesis"
    then have m: "din_blocks (sin_din sin) = MAX_BLOCKS" using le by simp
    then have "din_indirect (sin_din sin) \<noteq> 0" using indirect_needed [OF Suc.prems(2), of SFS_NDIRECT] by simp
    with m Suc.prems(3) show False by (simp add: grow_needs_def)
  qed
  then obtain j where j: "min (Suc k) (MAX_BLOCKS - din_blocks (sin_din sin)) = Suc j"
      "j = min k (MAX_BLOCKS - (din_blocks (sin_din sin) + 1))"
    by (cases "MAX_BLOCKS - din_blocks (sin_din sin)") auto
  show ?case
  proof (cases "card (free_blocks sfs) < blocks_needed (sin_din sin)")
    case True
    with sfs_bmap_load_append [OF Suc.prems(1,2) lt, of 0] obtain s1 where
      "sfs_bmap_load_nolock sfs sin (din_blocks (sin_din sin)) 0 = Some (- E_NO_MEM, 0, sin, s1)" "unchanged sfs s1"
      by auto
    with unchanged_grown [OF _ Suc.prems(2)] show ?thesis by (intro exI [of _ "[]"]) auto
  next
    case False
    with sfs_bmap_load_append [OF Suc.prems(1,2) lt, of 0] obtain b sin1 s1 where l:
      "sfs_bmap_load_nolock sfs sin (din_blocks (sin_din sin)) 0 = Some (0, b, sin1, s1)" "appended sfs sin b sin1 s1"
      by auto
    note n1 = appended_blocks [OF l(2)]
    have "card (free_blocks s1) < grow_needs (sin_din sin1) (min k (MAX_BLOCKS - din_blocks (sin_din sin1)))"
      using appended_card [OF l(2) Suc.prems(1,2)] appended_needs [OF l(2) Suc.prems(1,2), of j] Suc.prems(3) j n1
      by simp
    with Suc.IH [of s1 sin1] appended_parts(2,3) [OF l(2)] obtain bs sin' sfs' where IH:
      "truncfile_grow k (din_blocks (sin_din sin1)) s1 sin1 = Some (- E_NO_MEM, sin', sfs')"
      "length bs < k" "grown s1 sin1 bs sin' sfs'" by auto
    have "truncfile_grow (Suc k) (din_blocks (sin_din sin)) sfs sin = Some (- E_NO_MEM, sin', sfs')"
      using l(1) IH(1) n1 by simp
    with IH grown_step [OF Suc.prems(2) l(2) IH(3)] show ?thesis
      by (intro exI [of _ "b # bs"]) auto
  qed
qed

lemma truncfile_grow_panics:
  assumes "fs_ok sfs" "inode_ok sfs (sin_din sin)" "MAX_BLOCKS < din_blocks (sin_din sin) + k"
    "grow_needs (sin_din sin) (MAX_BLOCKS - din_blocks (sin_din sin)) \<le> card (free_blocks sfs)"
  shows "truncfile_grow k (din_blocks (sin_din sin)) sfs sin = None"
  using assms
proof (induction k arbitrary: sfs sin)
  case 0
  then show ?case by (simp add: inode_ok_def)
next
  case (Suc k)
  have le: "din_blocks (sin_din sin) \<le> MAX_BLOCKS" using Suc.prems(2) by (simp add: inode_ok_def)
  show ?case
  proof (cases "din_blocks (sin_din sin) = MAX_BLOCKS")
    case True
    then show ?thesis using sfs_bmap_load_beyond [of "din_blocks (sin_din sin)" sfs sin 0] by simp
  next
    case False
    then obtain j where j: "MAX_BLOCKS - din_blocks (sin_din sin) = Suc j"
      "j = MAX_BLOCKS - (din_blocks (sin_din sin) + 1)" using le by (cases "MAX_BLOCKS - din_blocks (sin_din sin)") auto
    have "blocks_needed (sin_din sin) \<le> grow_needs (sin_din sin) (Suc j)"
      by (simp add: blocks_needed_def grow_needs_def)
    then have "\<not> card (free_blocks sfs) < blocks_needed (sin_din sin)" using Suc.prems(4) j by simp
    with sfs_bmap_load_append [OF Suc.prems(1,2), of 0] False le obtain b sin1 s1 where l:
      "sfs_bmap_load_nolock sfs sin (din_blocks (sin_din sin)) 0 = Some (0, b, sin1, s1)" "appended sfs sin b sin1 s1"
      by auto
    note n1 = appended_blocks [OF l(2)]
    have "grow_needs (sin_din sin1) (MAX_BLOCKS - din_blocks (sin_din sin1)) \<le> card (free_blocks s1)"
      using appended_card [OF l(2) Suc.prems(1,2)] appended_needs [OF l(2) Suc.prems(1,2), of j] Suc.prems(4) j n1
      by simp
    then have "truncfile_grow k (din_blocks (sin_din sin1)) s1 sin1 = None"
      using Suc.IH [of s1 sin1] appended_parts(2,3) [OF l(2)] Suc.prems(3) n1 by simp
    with l(1) n1 show ?thesis by simp
  qed
qed

section \<open>Reading a file\<close>

definition fdata :: "sfs_fs \<Rightarrow> sfs_disk_inode \<Rightarrow> byte list" where
  "fdata sfs d = concat (map (disk sfs) (inode_blocks sfs d))"

text \<open>The \<^verbatim>\<open>n\<close> blocks of the file from the \<^verbatim>\<open>i\<close>-th on are neighbours on the disk.\<close>

definition neighbours :: "sfs_fs \<Rightarrow> sfs_disk_inode \<Rightarrow> nat \<Rightarrow> nat \<Rightarrow> bool" where
  "neighbours sfs d i n \<longleftrightarrow> (\<forall>j < n. inode_block sfs d (i + j) = inode_block sfs d i + j)"

lemma drop_concat_blocks:
  "\<forall>b \<in> set bs. length b = k \<Longrightarrow> drop (i * k) (concat bs) = concat (drop i bs)"
proof (induction bs arbitrary: i)
  case Nil
  then show ?case by simp
next
  case (Cons b bs)
  then show ?case by (cases i) (auto simp: drop_append)
qed

lemma take_concat_blocks:
  "\<forall>b \<in> set bs. length b = k \<Longrightarrow> take (i * k) (concat bs) = concat (take i bs)"
proof (induction bs arbitrary: i)
  case Nil
  then show ?case by simp
next
  case (Cons b bs)
  then show ?case by (cases i) auto
qed

lemma fdata_lengths: "fs_ok sfs \<Longrightarrow> inode_ok sfs d \<Longrightarrow> \<forall>b \<in> set (map (disk sfs) (inode_blocks sfs d)). length b = SFS_BLKSIZE"
  using disk_ok_length fs_ok_disk used_data by (auto simp: inode_ok_def)

lemma length_fdata: "fs_ok sfs \<Longrightarrow> inode_ok sfs d \<Longrightarrow> length (fdata sfs d) = din_blocks d * SFS_BLKSIZE"
proof -
  assume a: "fs_ok sfs" "inode_ok sfs d"
  have "\<forall>b \<in> set bs. length b = k \<Longrightarrow> length (concat bs) = length bs * k" for bs :: "byte list list" and k
    by (induction bs) simp_all
  from this [OF fdata_lengths [OF a]] show ?thesis by (simp add: fdata_def)
qed

lemma slice_fdata_blocks:
  assumes "fs_ok sfs" "inode_ok sfs d" "i + n \<le> din_blocks d"
  shows "slice (i * SFS_BLKSIZE) (n * SFS_BLKSIZE) (fdata sfs d) = concat (map (\<lambda>j. disk sfs (inode_block sfs d (i + j))) [0..<n])"
proof -
  let ?bs = "map (disk sfs) (inode_blocks sfs d)"
  have l: "\<forall>b \<in> set ?bs. length b = SFS_BLKSIZE" by (rule fdata_lengths [OF assms(1,2)])
  then have l': "\<forall>b \<in> set (drop i ?bs). length b = SFS_BLKSIZE" by (meson in_set_dropD)
  have "take n (drop i ?bs) = map (\<lambda>j. disk sfs (inode_block sfs d (i + j))) [0..<n]"
    by (rule nth_equalityI) (use assms(3) in auto)
  then show ?thesis
    by (simp only: slice_def fdata_def drop_concat_blocks [OF l] take_concat_blocks [OF l'])
qed

lemma slice_slice: "a + k \<le> n \<Longrightarrow> slice a k (slice off n xs) = slice (off + a) k xs"
  by (simp add: slice_def drop_take add.commute min_def)

lemma slice_fdata_part:
  assumes "fs_ok sfs" "inode_ok sfs d" "i < din_blocks d" "off + n \<le> SFS_BLKSIZE"
  shows "slice off n (disk sfs (inode_block sfs d i)) = slice (i * SFS_BLKSIZE + off) n (fdata sfs d)"
proof -
  have "disk sfs (inode_block sfs d i) = slice (i * SFS_BLKSIZE) SFS_BLKSIZE (fdata sfs d)"
    using slice_fdata_blocks [OF assms(1,2), of i 1] assms(3) by simp
  then show ?thesis using slice_slice [OF assms(4)] by metis
qed

lemma slice_join: "slice a n xs @ slice (a + n) k xs = slice a (n + k) xs"
  by (simp add: slice_def take_add add.commute [of a n])

lemma load_old:
  "fs_ok sfs \<Longrightarrow> inode_ok sfs (sin_din sin) \<Longrightarrow> i < din_blocks (sin_din sin) \<Longrightarrow>
   sfs_bmap_load_nolock sfs sin i st = Some (0, inode_block sfs (sin_din sin) i, sin, sfs)"
  by (simp add: sfs_bmap_load_old)

lemma block_data: "inode_ok sfs d \<Longrightarrow> i < din_blocks d \<Longrightarrow> data_block sfs (inode_block sfs d i)"
  using inode_block_used used_data by blast

lemma sfs_io_out_inside:
  "offset + alen \<le> din_size (sin_din sin) \<Longrightarrow> sfs_io_out sfs sin buf offset alen ret = Some (ret, buf, alen, sin, sfs)"
  by (simp add: sfs_io_out_def)

lemma rbuf_rest:
  "fs_ok sfs \<Longrightarrow> data_block sfs b \<Longrightarrow> off < SFS_BLKSIZE \<Longrightarrow> off + len \<le> SFS_BLKSIZE \<Longrightarrow>
   sfs_rbuf sfs buf len b off = Some (0, slice off len (disk sfs b) @ drop len buf, sfs)"
  using disk_ok_length [of sfs b] by (simp add: sfs_rbuf_ok splice_at_0 fs_ok_disk)

lemma read_last:
  assumes ok: "fs_ok sfs" "inode_ok sfs (sin_din sin)"
    and sz: "endpos \<le> din_size (sin_din sin)" "din_size (sin_din sin) \<le> din_blocks (sin_din sin) * SFS_BLKSIZE"
    and pos: "offset + alen = blkno * SFS_BLKSIZE" "blkno = endpos div SFS_BLKSIZE"
    and got: "length got = alen" "got = slice offset alen (fdata sfs (sin_din sin))"
  shows "sfs_io_last False sfs sin (got @ rest) offset endpos alen blkno =
    Some (0, slice offset (endpos - offset) (fdata sfs (sin_din sin)) @ drop (endpos mod SFS_BLKSIZE) rest,
      endpos - offset, sin, sfs)"
proof -
  let ?d = "sin_din sin" let ?r = "endpos mod SFS_BLKSIZE"
  have e: "endpos = blkno * SFS_BLKSIZE + ?r" unfolding pos(2) by simp
  have r: "?r < SFS_BLKSIZE" by simp
  show ?thesis
  proof (cases "?r = 0")
    case True
    with e pos(1) have "endpos - offset = alen" "offset + alen \<le> din_size ?d" using sz(1) by linarith+
    with True got show ?thesis by (simp add: sfs_io_last_def sfs_io_out_inside)
  next
    case False
    have b: "blkno < din_blocks ?d"
    proof (rule ccontr)
      assume "\<not> ?thesis"
      then have "din_blocks ?d * SFS_BLKSIZE \<le> blkno * SFS_BLKSIZE" by (intro mult_le_mono1) simp
      with e False sz show False by linarith
    qed
    have rd: "sfs_rbuf sfs rest ?r (inode_block sfs ?d blkno) 0 =
        Some (0, slice (blkno * SFS_BLKSIZE) ?r (fdata sfs ?d) @ drop ?r rest, sfs)"
      using rbuf_rest [OF ok(1) block_data [OF ok(2) b], of 0 ?r rest] r
        slice_fdata_part [OF ok b, of 0 ?r] by simp
    have eo: "alen + ?r = endpos - offset" using e pos(1) by linarith
    have "sfs_io_last False sfs sin (got @ rest) offset endpos alen blkno =
        sfs_io_out sfs sin (got @ slice (blkno * SFS_BLKSIZE) ?r (fdata sfs ?d) @ drop ?r rest) offset (alen + ?r) 0"
      using False load_old [OF ok b] rd got(1) by (simp add: sfs_io_last_def sfs_buf_op_def Let_def)
    also have "got @ slice (blkno * SFS_BLKSIZE) ?r (fdata sfs ?d) @ drop ?r rest =
        slice offset (endpos - offset) (fdata sfs ?d) @ drop ?r rest"
      using slice_join [of offset alen "fdata sfs ?d" ?r] unfolding got(2) eo [symmetric] pos(1) [symmetric] by simp
    finally show ?thesis
      using eo e pos(1) sz(1) by (simp add: sfs_io_out_inside)
  qed
qed

lemma read_blocks:
  assumes ok: "fs_ok sfs" "inode_ok sfs (sin_din sin)"
    and sz: "endpos \<le> din_size (sin_din sin)" "din_size (sin_din sin) \<le> din_blocks (sin_din sin) * SFS_BLKSIZE"
    and pos: "offset + alen = blkno * SFS_BLKSIZE" "blkno + nblks = endpos div SFS_BLKSIZE"
    and got: "length got = alen" "got = slice offset alen (fdata sfs (sin_din sin))"
    and nb: "neighbours sfs (sin_din sin) blkno nblks"
  shows "sfs_io_blocks False sfs sin (got @ rest) offset endpos alen blkno nblks =
    Some (0, slice offset (endpos - offset) (fdata sfs (sin_din sin)) @ drop (endpos - offset - alen) rest,
      endpos - offset, sin, sfs)"
proof -
  let ?d = "sin_din sin" let ?D = "fdata sfs ?d"
  have e: "endpos = (blkno + nblks) * SFS_BLKSIZE + endpos mod SFS_BLKSIZE" unfolding pos(2) by simp
  show ?thesis
  proof (cases "nblks = 0")
    case True
    then have "endpos - offset - alen = endpos mod SFS_BLKSIZE" using e pos(1) by simp
    with True read_last [OF ok sz pos(1) _ got, of rest] pos(2) show ?thesis by (simp add: sfs_io_blocks_def)
  next
    case False
    have le: "blkno + nblks \<le> din_blocks ?d"
    proof (rule ccontr)
      assume "\<not> ?thesis"
      then have "(din_blocks ?d + 1) * SFS_BLKSIZE \<le> (blkno + nblks) * SFS_BLKSIZE" by (intro mult_le_mono1) simp
      with e sz show False by simp
    qed
    let ?b = "inode_block sfs ?d blkno"
    have b: "blkno < din_blocks ?d" using False le by simp
    have last: "data_block sfs (?b + (nblks - 1))"
    proof -
      have "nblks - 1 < nblks" using False by simp
      with nb have "inode_block sfs ?d (blkno + (nblks - 1)) = ?b + (nblks - 1)" unfolding neighbours_def by blast
      with block_data [OF ok(2), of "blkno + (nblks - 1)"] False le show ?thesis by simp
    qed
    have dataeq: "concat (map (disk sfs) [?b..<?b + nblks]) = slice (blkno * SFS_BLKSIZE) (nblks * SFS_BLKSIZE) ?D"
    proof -
      have "map (disk sfs) [?b..<?b + nblks] = map (\<lambda>j. disk sfs (inode_block sfs ?d (blkno + j))) [0..<nblks]"
        by (rule nth_equalityI) (use nb in \<open>auto simp: neighbours_def\<close>)
      with slice_fdata_blocks [OF ok le] show ?thesis by simp
    qed
    have rd: "sfs_rblock sfs rest ?b nblks =
        Some (0, slice (blkno * SFS_BLKSIZE) (nblks * SFS_BLKSIZE) ?D @ drop (nblks * SFS_BLKSIZE) rest, sfs)"
      using sfs_rblock_ok [OF fs_ok_disk [OF ok(1)], of ?b nblks rest] block_data [OF ok(2) b] last False dataeq
      by (simp add: data_block_def)
    let ?got = "got @ slice (blkno * SFS_BLKSIZE) (nblks * SFS_BLKSIZE) ?D"
    have gl: "length ?got = alen + nblks * SFS_BLKSIZE"
    proof -
      have "(blkno + nblks) * SFS_BLKSIZE \<le> length ?D"
        unfolding length_fdata [OF ok] using le by (intro mult_le_mono1)
      then show ?thesis using got(1) by (simp add: add_mult_distrib)
    qed
    have gd: "?got = slice offset (alen + nblks * SFS_BLKSIZE) ?D"
      unfolding got(2) using slice_join [of offset alen ?D "nblks * SFS_BLKSIZE"] pos(1) by simp
    have step: "sfs_io_blocks False sfs sin (got @ rest) offset endpos alen blkno nblks =
        sfs_io_last False sfs sin (?got @ drop (nblks * SFS_BLKSIZE) rest) offset endpos
          (alen + nblks * SFS_BLKSIZE) (blkno + nblks)"
      using False load_old [OF ok b] rd got(1) by (simp add: sfs_io_blocks_def sfs_block_op_def)
    have p: "offset + (alen + nblks * SFS_BLKSIZE) = (blkno + nblks) * SFS_BLKSIZE"
      using pos(1) by (simp add: add_mult_distrib)
    have d: "endpos mod SFS_BLKSIZE + nblks * SFS_BLKSIZE = endpos - offset - alen"
      using e pos(1) by (simp add: add_mult_distrib)
    show ?thesis
      unfolding step read_last [OF ok sz p pos(2) gl gd] drop_drop d ..
  qed
qed

lemma s64_id: "int n < 2 ^ 63 \<Longrightarrow> s64 (int n) = int n"
  by (simp add: s64_def signed_of_int signed_take_bit_int_eq_self del: of_int_of_nat_eq)

lemma sfs_io_read:
  assumes ok: "fs_ok sfs" "inode_ok sfs (sin_din sin)" "din_type (sin_din sin) \<noteq> SFS_TYPE_DIR"
    and sz: "din_size (sin_din sin) \<le> din_blocks (sin_din sin) * SFS_BLKSIZE"
    and off: "offset < din_size (sin_din sin)" "0 < alen" "alen < 2 ^ 62"
    and nb: "neighbours sfs (sin_din sin) (offset div SFS_BLKSIZE + (if offset mod SFS_BLKSIZE = 0 then 0 else 1))
       ((min (offset + alen) (din_size (sin_din sin))) div SFS_BLKSIZE - offset div SFS_BLKSIZE -
         (if offset mod SFS_BLKSIZE = 0 then 0 else 1))"
  shows "sfs_io_nolock sfs sin buf (int offset) alen False =
    (let n = min alen (din_size (sin_din sin) - offset) in
     Some (0, slice offset n (fdata sfs (sin_din sin)) @ drop n buf, n, sin, sfs))"
proof -
  let ?d = "sin_din sin" let ?D = "fdata sfs ?d" let ?o = "offset mod SFS_BLKSIZE" let ?i = "offset div SFS_BLKSIZE"
  let ?e = "min (offset + alen) (din_size ?d)" let ?n = "?e div SFS_BLKSIZE - ?i"
  have max: "din_size ?d \<le> MAX_BLOCKS * SFS_BLKSIZE"
    using sz ok(2) mult_le_mono1 [of "din_blocks ?d" MAX_BLOCKS SFS_BLKSIZE] by (auto simp: inode_ok_def)
  have s: "s64 (int offset + int alen) = int (offset + alen)"
  proof -
    have "int (offset + alen) < 2 ^ 63" using off max by simp
    then show ?thesis unfolding of_nat_add [symmetric] by (rule s64_id)
  qed
  have first: "sfs_io_nolock sfs sin buf (int offset) alen False = sfs_io_first False sfs sin buf offset ?e ?i ?n"
  proof -
    have "nat (int (offset + alen)) = offset + alen" by simp
    then show ?thesis
      using ok(3) off max unfolding sfs_io_nolock_def s Let_def
      by (auto simp: min_def)
  qed
  have len: "?e - offset = min alen (din_size ?d - offset)" "offset < ?e" using off by auto
  have oi: "offset = ?i * SFS_BLKSIZE + ?o" by simp
  have ie: "?i \<le> ?e div SFS_BLKSIZE" using len(2) by (intro div_le_mono) simp
  have esz: "?e \<le> din_size ?d" by simp
  show ?thesis
  proof (cases "?o = 0")
    case True
    have "sfs_io_blocks False sfs sin ([] @ buf) offset ?e 0 ?i ?n =
      Some (0, slice offset (?e - offset) ?D @ drop (?e - offset - 0) buf, ?e - offset, sin, sfs)"
      by (rule read_blocks [OF ok(1,2) esz sz]) (use True oi ie nb in \<open>simp_all add: slice_def\<close>)
    with True first len show ?thesis by (simp add: sfs_io_first_def Let_def)
  next
    case False
    have b: "?i < din_blocks ?d"
    proof (rule ccontr)
      assume "\<not> ?thesis"
      then have "din_blocks ?d * SFS_BLKSIZE \<le> ?i * SFS_BLKSIZE" by (intro mult_le_mono1) simp
      with oi off(1) sz show False by linarith
    qed
    let ?s = "if ?n \<noteq> 0 then SFS_BLKSIZE - ?o else ?e - offset"
    have within: "?o + ?s \<le> SFS_BLKSIZE"
    proof (cases "?n = 0")
      case True
      then have "?e div SFS_BLKSIZE = ?i" using ie by simp
      moreover have "?e = ?e div SFS_BLKSIZE * SFS_BLKSIZE + ?e mod SFS_BLKSIZE" by simp
      moreover have "?e mod SFS_BLKSIZE < SFS_BLKSIZE" by simp
      ultimately have "?e < ?i * SFS_BLKSIZE + SFS_BLKSIZE" by linarith
      then have "?o + (?e - offset) \<le> SFS_BLKSIZE" using oi len(2) by linarith
      with True show ?thesis by simp
    next
      case False
      have "?o < SFS_BLKSIZE" by simp
      then have "?o + (SFS_BLKSIZE - ?o) \<le> SFS_BLKSIZE" by linarith
      with False show ?thesis by simp
    qed
    have rd: "sfs_rbuf sfs buf ?s (inode_block sfs ?d ?i) ?o = Some (0, slice offset ?s ?D @ drop ?s buf, sfs)"
      using rbuf_rest [OF ok(1) block_data [OF ok(2) b] _ within, of buf] slice_fdata_part [OF ok(1,2) b within] oi
      by simp
    have lenD: "?e \<le> length ?D" using length_fdata [OF ok(1,2)] sz by simp
    show ?thesis
    proof (cases "?n = 0")
      case True
      have "offset + (?e - offset) \<le> din_size ?d" using len(2) by simp
      then have "sfs_io_first False sfs sin buf offset ?e ?i ?n =
          Some (0, slice offset (?e - offset) ?D @ drop (?e - offset) buf, ?e - offset, sin, sfs)"
        using False True load_old [OF ok(1,2) b] rd by (simp add: sfs_io_first_def sfs_buf_op_def sfs_io_out_inside Let_def)
      with first len show ?thesis by (simp add: Let_def)
    next
      case n: False
      let ?got = "slice offset (SFS_BLKSIZE - ?o) ?D"
      have p: "offset + (SFS_BLKSIZE - ?o) = (?i + 1) * SFS_BLKSIZE"
      proof -
        have "?o < SFS_BLKSIZE" "(?i + 1) * SFS_BLKSIZE = ?i * SFS_BLKSIZE + SFS_BLKSIZE" by simp_all
        with oi show ?thesis by linarith
      qed
      have ne: "(?i + 1) * SFS_BLKSIZE \<le> ?e"
      proof -
        have "?i + 1 \<le> ?e div SFS_BLKSIZE" using n by simp
        then have "(?i + 1) * SFS_BLKSIZE \<le> ?e div SFS_BLKSIZE * SFS_BLKSIZE" by (rule mult_le_mono1)
        also have "\<dots> \<le> ?e" by (rule div_times_less_eq_dividend)
        finally show ?thesis .
      qed
      have gl: "length ?got = SFS_BLKSIZE - ?o"
        unfolding length_slice by (rule min_absorb1) (use p ne lenD in linarith)
      have nb': "neighbours sfs ?d (?i + 1) (?n - 1)" using nb False by simp
      have pe: "?i + 1 + (?n - 1) = ?e div SFS_BLKSIZE" using n ie by simp
      have "sfs_io_blocks False sfs sin (?got @ drop (SFS_BLKSIZE - ?o) buf) offset ?e (SFS_BLKSIZE - ?o) (?i + 1) (?n - 1) =
          Some (0, slice offset (?e - offset) ?D @ drop (?e - offset - (SFS_BLKSIZE - ?o)) (drop (SFS_BLKSIZE - ?o) buf),
            ?e - offset, sin, sfs)"
        by (rule read_blocks [OF ok(1,2) esz sz p pe gl refl nb'])
      moreover have "drop (?e - offset - (SFS_BLKSIZE - ?o)) (drop (SFS_BLKSIZE - ?o) buf) = drop (?e - offset) buf"
      proof -
        have "?e - offset - (SFS_BLKSIZE - ?o) + (SFS_BLKSIZE - ?o) = ?e - offset" using p ne by linarith
        then show ?thesis unfolding drop_drop by (rule arg_cong)
      qed
      ultimately have rest: "sfs_io_blocks False sfs sin (?got @ drop (SFS_BLKSIZE - ?o) buf) offset ?e (SFS_BLKSIZE - ?o)
          (?i + 1) (?n - 1) = Some (0, slice offset (?e - offset) ?D @ drop (?e - offset) buf, ?e - offset, sin, sfs)"
        by (simp only:)
      then have "sfs_io_first False sfs sin buf offset ?e ?i ?n =
          Some (0, slice offset (?e - offset) ?D @ drop (?e - offset) buf, ?e - offset, sin, sfs)"
        using False n load_old [OF ok(1,2) b] rd by (simp add: sfs_io_first_def sfs_buf_op_def Let_def)
      with first len show ?thesis by (simp add: Let_def)
    qed
  qed
qed

section \<open>Writing inside a file\<close>

lemma nth_fdata:
  assumes "fs_ok sfs" "inode_ok sfs d" "i < din_blocks d" "r < SFS_BLKSIZE"
  shows "fdata sfs d ! (i * SFS_BLKSIZE + r) = disk sfs (inode_block sfs d i) ! r"
proof -
  have "disk sfs (inode_block sfs d i) = slice (i * SFS_BLKSIZE) SFS_BLKSIZE (fdata sfs d)"
    using slice_fdata_blocks [OF assms(1,2), of i 1] assms(3) by simp
  moreover have "i * SFS_BLKSIZE + r < length (fdata sfs d)"
  proof -
    have "(i + 1) * SFS_BLKSIZE \<le> din_blocks d * SFS_BLKSIZE" by (rule mult_le_mono1) (use assms(3) in simp)
    with assms(4) show ?thesis unfolding length_fdata [OF assms(1,2)] by simp
  qed
  ultimately show ?thesis using assms(4) by (simp add: nth_slice)
qed

text \<open>
  \<^verbatim>\<open>stored sfs d off bs sfs'\<close>: the file has the bytes \<^verbatim>\<open>bs\<close> at
  \<^verbatim>\<open>off\<close>, and nothing else is different.
\<close>

definition stored :: "sfs_fs \<Rightarrow> sfs_disk_inode \<Rightarrow> nat \<Rightarrow> byte list \<Rightarrow> sfs_fs \<Rightarrow> bool" where
  "stored sfs d off bs sfs' \<longleftrightarrow> fs_ok sfs' \<and> fs_like sfs sfs' \<and> free_blocks sfs' = free_blocks sfs \<and>
     inode_ok sfs' d \<and> inode_block sfs' d = inode_block sfs d \<and> fdata sfs' d = splice_at off bs (fdata sfs d) \<and>
     (\<forall>c. c \<notin> set (inode_blocks sfs d) \<longrightarrow> disk sfs' c = disk sfs c)"

lemma stored_refl: "fs_ok sfs \<Longrightarrow> inode_ok sfs d \<Longrightarrow> stored sfs d off [] sfs"
  by (simp add: stored_def splice_at_def)

lemma splice_join:
  assumes "off + length b1 + length b2 \<le> length xs"
  shows "splice_at (off + length b1) b2 (splice_at off b1 xs) = splice_at off (b1 @ b2) xs"
proof (rule nth_equalityI)
  show "length (splice_at (off + length b1) b2 (splice_at off b1 xs)) = length (splice_at off (b1 @ b2) xs)"
    using assms by simp
next
  fix i assume "i < length (splice_at (off + length b1) b2 (splice_at off b1 xs))"
  then have i: "i < length xs" using assms by simp
  then show "splice_at (off + length b1) b2 (splice_at off b1 xs) ! i = splice_at off (b1 @ b2) xs ! i"
    using assms by (auto simp: nth_splice_at nth_append)
qed

lemma stored_trans:
  assumes "stored sfs d off b1 s1" "stored s1 d (off + length b1) b2 s2" "fs_ok sfs" "inode_ok sfs d"
    "off + length b1 + length b2 \<le> din_blocks d * SFS_BLKSIZE"
  shows "stored sfs d off (b1 @ b2) s2"
proof -
  have "inode_blocks s1 d = inode_blocks sfs d" using assms(1) by (simp add: stored_def inode_blocks_def)
  moreover have "off + length b1 + length b2 \<le> length (fdata sfs d)" using length_fdata [OF assms(3,4)] assms(5) by simp
  ultimately show ?thesis using assms(1,2) splice_join [of off b1 b2 "fdata sfs d"] fs_like_trans [of sfs s1 s2]
    unfolding stored_def by auto
qed

lemma storedI:
  assumes ok: "fs_ok sfs" "inode_ok sfs d" and fit: "off + length bs \<le> din_blocks d * SFS_BLKSIZE"
    and rest: "\<And>c. c \<notin> set (inode_blocks sfs d) \<Longrightarrow> f c = disk sfs c"
    and len: "\<And>i. i < din_blocks d \<Longrightarrow> length (f (inode_block sfs d i)) = SFS_BLKSIZE"
    and upd: "\<And>i r. i < din_blocks d \<Longrightarrow> r < SFS_BLKSIZE \<Longrightarrow> f (inode_block sfs d i) ! r =
      (if off \<le> i * SFS_BLKSIZE + r \<and> i * SFS_BLKSIZE + r < off + length bs then bs ! (i * SFS_BLKSIZE + r - off)
       else disk sfs (inode_block sfs d i) ! r)"
  shows "stored sfs d off bs (sfs\<lparr>disk := f\<rparr>)"
proof -
  let ?s = "sfs\<lparr>disk := f\<rparr>"
  have lf: "length (f c) = length (disk sfs c)" if "c < sblocks (super sfs)" for c
  proof (cases "c \<in> set (inode_blocks sfs d)")
    case True
    then obtain i where "i < din_blocks d" "c = inode_block sfs d i" by (auto simp: inode_blocks_def)
    then show ?thesis using len [of i] disk_ok_length [OF fs_ok_disk [OF ok(1)] block_data [OF ok(2)]] by simp
  next
    case False
    then show ?thesis using rest by simp
  qed
  then have fok: "fs_ok ?s" using ok(1) by (auto simp: fs_ok_def disk_ok_def data_block_def)
  have ind: "f (din_indirect d) = disk sfs (din_indirect d)" if "din_indirect d \<noteq> 0"
    using ok(2) that rest by (simp add: inode_ok_def)
  have fr: "inode_ok ?s d \<and> inode_blocks ?s d = inode_blocks sfs d"
    by (rule inode_ok_frame [OF ok(2)]) (use ind in simp_all)
  have ib: "inode_block ?s d = inode_block sfs d"
    by (rule ext, rule inode_block_cong) (use ind in simp_all)
  have "fdata ?s d = splice_at off bs (fdata sfs d)"
  proof (rule nth_equalityI)
    show "length (fdata ?s d) = length (splice_at off bs (fdata sfs d))"
      using length_fdata [OF ok] length_fdata [OF fok] fr fit by simp
  next
    fix q assume "q < length (fdata ?s d)"
    then have q: "q < din_blocks d * SFS_BLKSIZE" using length_fdata [OF fok] fr by simp
    let ?i = "q div SFS_BLKSIZE" let ?r = "q mod SFS_BLKSIZE"
    have i: "?i < din_blocks d" "?r < SFS_BLKSIZE" "q = ?i * SFS_BLKSIZE + ?r"
      using q by (simp_all add: less_mult_imp_div_less)
    have "fdata ?s d ! q = f (inode_block sfs d ?i) ! ?r"
      using nth_fdata [OF fok _ i(1,2)] fr ib i(3) by simp
    also have "\<dots> = (if off \<le> q \<and> q < off + length bs then bs ! (q - off) else disk sfs (inode_block sfs d ?i) ! ?r)"
      using upd [OF i(1,2)] i(3) by simp
    also have "disk sfs (inode_block sfs d ?i) ! ?r = fdata sfs d ! q" using nth_fdata [OF ok i(1,2)] i(3) by simp
    also have "(if off \<le> q \<and> q < off + length bs then bs ! (q - off) else fdata sfs d ! q) =
        splice_at off bs (fdata sfs d) ! q"
      using q fit length_fdata [OF ok] by (simp add: nth_splice_at)
    finally show "fdata ?s d ! q = splice_at off bs (fdata sfs d) ! q" .
  qed
  with fok fr ib rest show ?thesis by (simp add: stored_def fs_like_def)
qed

lemma inode_block_inject:
  "inode_ok sfs d \<Longrightarrow> i < din_blocks d \<Longrightarrow> j < din_blocks d \<Longrightarrow> inode_block sfs d i = inode_block sfs d j \<longleftrightarrow> i = j"
  using nth_eq_iff_index_eq [of "inode_blocks sfs d" i j] by (auto simp: inode_ok_def)

lemma inode_block_in: "i < din_blocks d \<Longrightarrow> inode_block sfs d i \<in> set (inode_blocks sfs d)"
  by (simp add: inode_blocks_def)

lemma block_index_range:
  fixes i j :: nat
  assumes "i \<noteq> j" "o' + n \<le> SFS_BLKSIZE" "r < SFS_BLKSIZE"
  shows "\<not> (j * SFS_BLKSIZE + o' \<le> i * SFS_BLKSIZE + r \<and> i * SFS_BLKSIZE + r < j * SFS_BLKSIZE + o' + n)"
proof (cases "i < j")
  case True
  then have "(i + 1) * SFS_BLKSIZE \<le> j * SFS_BLKSIZE" by (intro mult_le_mono1) simp
  with assms show ?thesis by simp
next
  case False
  then have "(j + 1) * SFS_BLKSIZE \<le> i * SFS_BLKSIZE" using assms(1) by (intro mult_le_mono1) simp
  with assms show ?thesis by simp
qed

lemma stored_wbuf:
  assumes ok: "fs_ok sfs" "inode_ok sfs d" and i: "i < din_blocks d"
    and fit: "off + n \<le> SFS_BLKSIZE" "off < SFS_BLKSIZE" "n \<le> length buf"
  shows "\<exists>sfs'. sfs_wbuf sfs buf n (inode_block sfs d i) off = Some (0, buf, sfs') \<and>
    stored sfs d (i * SFS_BLKSIZE + off) (take n buf) sfs'"
proof -
  let ?b = "inode_block sfs d i" let ?blk = "splice_at off (take n buf) (disk sfs (inode_block sfs d i))"
  have lb: "length (disk sfs ?b) = SFS_BLKSIZE" using disk_ok_length [OF fs_ok_disk [OF ok(1)] block_data [OF ok(2) i]] .
  have end_: "i * SFS_BLKSIZE + off + n \<le> din_blocks d * SFS_BLKSIZE"
  proof -
    have "(i + 1) * SFS_BLKSIZE \<le> din_blocks d * SFS_BLKSIZE" by (rule mult_le_mono1) (use i in simp)
    with fit show ?thesis by simp
  qed
  have "stored sfs d (i * SFS_BLKSIZE + off) (take n buf) (put_block ?b ?blk sfs)"
  proof (rule storedI [OF ok])
    fix c assume "c \<notin> set (inode_blocks sfs d)"
    then show "((disk sfs)(?b := ?blk)) c = disk sfs c" using inode_block_in [OF i] by auto
  next
    fix k assume "k < din_blocks d"
    then show "length (((disk sfs)(?b := ?blk)) (inode_block sfs d k)) = SFS_BLKSIZE"
      using lb fit disk_ok_length [OF fs_ok_disk [OF ok(1)] block_data [OF ok(2)]] by simp
  next
    fix k r assume k: "k < din_blocks d" and r: "r < SFS_BLKSIZE"
    show "((disk sfs)(?b := ?blk)) (inode_block sfs d k) ! r =
      (if i * SFS_BLKSIZE + off \<le> k * SFS_BLKSIZE + r \<and> k * SFS_BLKSIZE + r < i * SFS_BLKSIZE + off + length (take n buf)
       then take n buf ! (k * SFS_BLKSIZE + r - (i * SFS_BLKSIZE + off)) else disk sfs (inode_block sfs d k) ! r)"
    proof (cases "k = i")
      case True
      with lb fit r show ?thesis by (auto simp: nth_splice_at)
    next
      case False
      then have "inode_block sfs d k \<noteq> ?b" using inode_block_inject [OF ok(2) k i] by simp
      with block_index_range [OF False fit(1) r] fit(3) show ?thesis by auto
    qed
  qed (use end_ fit in simp)
  moreover have "sfs_wbuf sfs buf n ?b off = Some (0, buf, put_block ?b ?blk sfs)"
    by (rule sfs_wbuf_ok) (use ok fit block_data [OF ok(2) i] fs_ok_disk in simp_all)
  ultimately show ?thesis by blast
qed

lemma stored_wblock:
  assumes ok: "fs_ok sfs" "inode_ok sfs d" and i: "0 < n" "i + n \<le> din_blocks d" and nb: "neighbours sfs d i n"
    and fit: "n * SFS_BLKSIZE \<le> length buf"
  shows "\<exists>sfs'. sfs_wblock sfs buf (inode_block sfs d i) n = Some (0, buf, sfs') \<and>
    stored sfs d (i * SFS_BLKSIZE) (take (n * SFS_BLKSIZE) buf) sfs'"
proof -
  let ?b = "inode_block sfs d i" let ?f = "written ?b n buf (disk sfs)"
  have nbj: "inode_block sfs d (i + j) = ?b + j" if "j < n" for j using nb that by (simp add: neighbours_def)
  have last: "?b + n \<le> sblocks (super sfs)"
  proof -
    have "i + (n - 1) < din_blocks d" using i by simp
    from block_data [OF ok(2) this] nbj [of "n - 1"] i(1) show ?thesis unfolding data_block_def by linarith
  qed
  have pos: "0 < ?b" using block_data [OF ok(2), of i] i by (simp add: data_block_def)
  have w: "sfs_wblock sfs buf ?b n = Some (0, buf, sfs\<lparr>disk := ?f\<rparr>)"
    by (rule sfs_wblock_ok [OF fs_ok_disk [OF ok(1)] pos last fit])
  have inside: "(?b \<le> inode_block sfs d k \<and> inode_block sfs d k < ?b + n) \<longleftrightarrow> (i \<le> k \<and> k < i + n)"
    if k: "k < din_blocks d" for k
  proof
    assume "i \<le> k \<and> k < i + n"
    then obtain j where "k = i + j" "j < n" by (auto simp: le_iff_add)
    then show "?b \<le> inode_block sfs d k \<and> inode_block sfs d k < ?b + n" using nbj [of j] by simp
  next
    assume "?b \<le> inode_block sfs d k \<and> inode_block sfs d k < ?b + n"
    then obtain j where j: "j < n" "inode_block sfs d k = ?b + j" by (metis le_iff_add nat_add_left_cancel_less)
    then have "inode_block sfs d k = inode_block sfs d (i + j)" using nbj by simp
    then show "i \<le> k \<and> k < i + n" using inode_block_inject [OF ok(2) k, of "i + j"] i j by simp
  qed
  have val: "?f (inode_block sfs d (i + j)) = slice (j * SFS_BLKSIZE) SFS_BLKSIZE buf" if "j < n" for j
    using nbj [OF that] that by (simp add: written_def)
  have end_: "(i + n) * SFS_BLKSIZE \<le> din_blocks d * SFS_BLKSIZE" using i(2) by (rule mult_le_mono1)
  have "stored sfs d (i * SFS_BLKSIZE) (take (n * SFS_BLKSIZE) buf) (sfs\<lparr>disk := ?f\<rparr>)"
  proof (rule storedI [OF ok])
    fix c assume c: "c \<notin> set (inode_blocks sfs d)"
    have "\<not> (?b \<le> c \<and> c < ?b + n)"
    proof
      assume "?b \<le> c \<and> c < ?b + n"
      then obtain j where j: "j < n" "c = ?b + j" by (metis le_iff_add nat_add_left_cancel_less)
      then have "c = inode_block sfs d (i + j)" using nbj by simp
      with c inode_block_in [of "i + j" d sfs] i j show False by simp
    qed
    then show "?f c = disk sfs c" by (auto simp: written_def)
  next
    fix k assume k: "k < din_blocks d"
    show "length (?f (inode_block sfs d k)) = SFS_BLKSIZE"
      using written_length [of ?b "inode_block sfs d k" n buf] fit disk_ok_length [OF fs_ok_disk [OF ok(1)] block_data [OF ok(2) k]]
      by (cases "?b \<le> inode_block sfs d k \<and> inode_block sfs d k < ?b + n") (auto simp: written_def)
  next
    fix k r assume k: "k < din_blocks d" and r: "r < SFS_BLKSIZE"
    show "?f (inode_block sfs d k) ! r =
      (if i * SFS_BLKSIZE \<le> k * SFS_BLKSIZE + r \<and> k * SFS_BLKSIZE + r < i * SFS_BLKSIZE + length (take (n * SFS_BLKSIZE) buf)
       then take (n * SFS_BLKSIZE) buf ! (k * SFS_BLKSIZE + r - i * SFS_BLKSIZE) else disk sfs (inode_block sfs d k) ! r)"
    proof (cases "i \<le> k \<and> k < i + n")
      case True
      then obtain j where j: "k = i + j" "j < n" by (auto simp: le_iff_add)
      have "(j + 1) * SFS_BLKSIZE \<le> n * SFS_BLKSIZE" by (rule mult_le_mono1) (use j in simp)
      with val [OF j(2)] j r fit show ?thesis by (simp add: nth_slice add_mult_distrib)
    next
      case False
      have "\<not> (i * SFS_BLKSIZE \<le> k * SFS_BLKSIZE + r \<and> k * SFS_BLKSIZE + r < i * SFS_BLKSIZE + n * SFS_BLKSIZE)"
      proof (cases "k < i")
        case True
        then have "(k + 1) * SFS_BLKSIZE \<le> i * SFS_BLKSIZE" by (intro mult_le_mono1) simp
        with r show ?thesis by simp
      next
        case False
        with \<open>\<not> (i \<le> k \<and> k < i + n)\<close> have "(i + n) * SFS_BLKSIZE \<le> k * SFS_BLKSIZE" by (intro mult_le_mono1) simp
        then show ?thesis by (simp add: add_mult_distrib)
      qed
      moreover have "?f (inode_block sfs d k) = disk sfs (inode_block sfs d k)"
        using inside [OF k] False by (auto simp: written_def)
      ultimately show ?thesis using fit by auto
    qed
  qed (use end_ fit in \<open>simp add: add_mult_distrib\<close>)
  with w show ?thesis by blast
qed

text \<open>The state of a write that has stored the first \<^verbatim>\<open>alen\<close> bytes.\<close>

lemma stored_blocks: "stored sfs d off bs s1 \<Longrightarrow> inode_blocks s1 d = inode_blocks sfs d"
  by (simp add: stored_def inode_blocks_def)

lemma write_last:
  assumes ok: "fs_ok sfs" "inode_ok sfs (sin_din sin)"
    and sz: "endpos \<le> din_blocks (sin_din sin) * SFS_BLKSIZE" "endpos - offset \<le> length buf"
    and pos: "offset + alen = blkno * SFS_BLKSIZE" "blkno = endpos div SFS_BLKSIZE"
    and got: "stored sfs (sin_din sin) offset (take alen buf) s1"
  shows "\<exists>s2. sfs_io_last True s1 sin buf offset endpos alen blkno = sfs_io_out s2 sin buf offset (endpos - offset) 0 \<and>
    stored sfs (sin_din sin) offset (take (endpos - offset) buf) s2"
proof -
  let ?d = "sin_din sin" let ?r = "endpos mod SFS_BLKSIZE"
  have e: "endpos = blkno * SFS_BLKSIZE + ?r" unfolding pos(2) by simp
  have r: "?r < SFS_BLKSIZE" by simp
  have s1: "fs_ok s1" "inode_ok s1 ?d" using got by (simp_all add: stored_def)
  have eo: "alen + ?r = endpos - offset" using e pos(1) by linarith
  show ?thesis
  proof (cases "?r = 0")
    case True
    with got eo show ?thesis by (auto simp: sfs_io_last_def)
  next
    case False
    have b: "blkno < din_blocks ?d"
    proof (rule ccontr)
      assume "\<not> ?thesis"
      then have "din_blocks ?d * SFS_BLKSIZE \<le> blkno * SFS_BLKSIZE" by (intro mult_le_mono1) simp
      with e False sz show False by linarith
    qed
    have la: "alen \<le> length buf" "?r \<le> length (drop alen buf)" using eo sz(2) by auto
    from stored_wbuf [OF s1 b, of 0 ?r "drop alen buf"] la obtain s2 where w:
      "sfs_wbuf s1 (drop alen buf) ?r (inode_block s1 ?d blkno) 0 = Some (0, drop alen buf, s2)"
      "stored s1 ?d (blkno * SFS_BLKSIZE) (take ?r (drop alen buf)) s2" by auto
    have "stored sfs ?d offset (take alen buf @ take ?r (drop alen buf)) s2"
      by (rule stored_trans [OF got _ ok]) (use w(2) pos(1) la e sz(1) eo in \<open>simp_all add: min_absorb2\<close>)
    moreover have "take alen buf @ take ?r (drop alen buf) = take (endpos - offset) buf"
      unfolding eo [symmetric] by (simp add: take_add)
    moreover have "sfs_io_last True s1 sin buf offset endpos alen blkno = sfs_io_out s2 sin buf offset (endpos - offset) 0"
      using False load_old [OF s1 b] w(1) eo by (simp add: sfs_io_last_def sfs_buf_op_def Let_def)
    ultimately show ?thesis by auto
  qed
qed

lemma write_blocks:
  assumes ok: "fs_ok sfs" "inode_ok sfs (sin_din sin)"
    and sz: "endpos \<le> din_blocks (sin_din sin) * SFS_BLKSIZE" "endpos - offset \<le> length buf"
    and pos: "offset + alen = blkno * SFS_BLKSIZE" "blkno + nblks = endpos div SFS_BLKSIZE"
    and got: "stored sfs (sin_din sin) offset (take alen buf) s1"
    and nb: "neighbours sfs (sin_din sin) blkno nblks"
  shows "\<exists>s2. sfs_io_blocks True s1 sin buf offset endpos alen blkno nblks =
      sfs_io_out s2 sin buf offset (endpos - offset) 0 \<and>
    stored sfs (sin_din sin) offset (take (endpos - offset) buf) s2"
proof (cases "nblks = 0")
  case True
  with write_last [OF ok sz pos(1) _ got] pos(2) show ?thesis by (simp add: sfs_io_blocks_def)
next
  case False
  let ?d = "sin_din sin"
  have e: "endpos = (blkno + nblks) * SFS_BLKSIZE + endpos mod SFS_BLKSIZE" unfolding pos(2) by simp
  have s1: "fs_ok s1" "inode_ok s1 ?d" using got by (simp_all add: stored_def)
  have le: "blkno + nblks \<le> din_blocks ?d"
  proof (rule ccontr)
    assume "\<not> ?thesis"
    then have "(din_blocks ?d + 1) * SFS_BLKSIZE \<le> (blkno + nblks) * SFS_BLKSIZE" by (intro mult_le_mono1) simp
    with e sz show False by simp
  qed
  have b: "blkno < din_blocks ?d" using False le by simp
  have nb1: "neighbours s1 ?d blkno nblks" using nb got by (simp add: stored_def neighbours_def)
  have p: "offset + (alen + nblks * SFS_BLKSIZE) = (blkno + nblks) * SFS_BLKSIZE"
    using pos(1) by (simp add: add_mult_distrib)
  have la: "alen + nblks * SFS_BLKSIZE \<le> length buf" using e p sz(2) by linarith
  then have la': "nblks * SFS_BLKSIZE \<le> length (drop alen buf)" by simp
  from stored_wblock [OF s1 _ le nb1 la'] False obtain s2 where w:
    "sfs_wblock s1 (drop alen buf) (inode_block s1 ?d blkno) nblks = Some (0, drop alen buf, s2)"
    "stored s1 ?d (blkno * SFS_BLKSIZE) (take (nblks * SFS_BLKSIZE) (drop alen buf)) s2" by auto
  have le4: "(blkno + nblks) * SFS_BLKSIZE \<le> din_blocks ?d * SFS_BLKSIZE" using le by (rule mult_le_mono1)
  have "stored sfs ?d offset (take alen buf @ take (nblks * SFS_BLKSIZE) (drop alen buf)) s2"
    by (rule stored_trans [OF got _ ok]) (use w(2) pos(1) la p le4 in \<open>simp_all add: min_absorb2\<close>)
  then have g2: "stored sfs ?d offset (take (alen + nblks * SFS_BLKSIZE) buf) s2" by (simp add: take_add)
  have "sfs_io_blocks True s1 sin buf offset endpos alen blkno nblks =
      sfs_io_last True s2 sin buf offset endpos (alen + nblks * SFS_BLKSIZE) (blkno + nblks)"
    using False load_old [OF s1 b] w(1) by (simp add: sfs_io_blocks_def sfs_block_op_def)
  with write_last [OF ok sz p pos(2) g2] show ?thesis by simp
qed

text \<open>The whole blocks between two positions: the first one, and how many there are.\<close>

definition first_whole :: "nat \<Rightarrow> nat" where
  "first_whole offset = offset div SFS_BLKSIZE + (if offset mod SFS_BLKSIZE = 0 then 0 else 1)"

definition whole_blocks :: "nat \<Rightarrow> nat \<Rightarrow> nat" where
  "whole_blocks offset endpos = endpos div SFS_BLKSIZE - first_whole offset"

lemma blocks_of_position: "p < n * SFS_BLKSIZE \<Longrightarrow> p div SFS_BLKSIZE < n"
  by (simp add: less_mult_imp_div_less)

lemma part_within_block:
  fixes offset endpos :: nat
  assumes "offset \<le> endpos" "endpos div SFS_BLKSIZE = offset div SFS_BLKSIZE"
  shows "offset mod SFS_BLKSIZE + (endpos - offset) \<le> SFS_BLKSIZE"
proof -
  have "endpos = offset div SFS_BLKSIZE * SFS_BLKSIZE + endpos mod SFS_BLKSIZE" unfolding assms(2) [symmetric] by simp
  moreover have "endpos mod SFS_BLKSIZE < SFS_BLKSIZE" "offset = offset div SFS_BLKSIZE * SFS_BLKSIZE + offset mod SFS_BLKSIZE"
    by simp_all
  ultimately show ?thesis using assms(1) by linarith
qed

lemma sfs_io_write_start:
  assumes "din_type (sin_din sin) \<noteq> SFS_TYPE_DIR" "offset < endpos" "endpos \<le> SFS_MAX_FILE_SIZE"
  shows "sfs_io_nolock sfs sin buf (int offset) (endpos - offset) True =
    sfs_io_first True sfs sin buf offset endpos (offset div SFS_BLKSIZE) (endpos div SFS_BLKSIZE - offset div SFS_BLKSIZE)"
proof -
  have "int offset + int (endpos - offset) = int endpos" using assms(2) by simp
  moreover have "s64 (int endpos) = int endpos" by (rule s64_id) (use assms(3) in simp)
  ultimately have s: "s64 (int offset + int (endpos - offset)) = int endpos" by simp
  have "\<not> int offset < 0" "\<not> int SFS_MAX_FILE_SIZE \<le> int offset" "\<not> int endpos < int offset" "int offset \<noteq> int endpos"
    "\<not> int SFS_MAX_FILE_SIZE < int endpos" using assms(2,3) by simp_all
  then show ?thesis using assms(1) unfolding sfs_io_nolock_def s Let_def by simp
qed

lemma sfs_io_write:
  assumes ok: "fs_ok sfs" "inode_ok sfs (sin_din sin)" "din_type (sin_din sin) \<noteq> SFS_TYPE_DIR"
    and off: "0 < alen" "alen \<le> length buf" "offset + alen \<le> din_blocks (sin_din sin) * SFS_BLKSIZE"
    and nb: "neighbours sfs (sin_din sin) (first_whole offset) (whole_blocks offset (offset + alen))"
  shows "\<exists>sfs'. sfs_io_nolock sfs sin buf (int offset) alen True = sfs_io_out sfs' sin buf offset alen 0 \<and>
    stored sfs (sin_din sin) offset (take alen buf) sfs'"
proof -
  let ?d = "sin_din sin" let ?o = "offset mod SFS_BLKSIZE" let ?i = "offset div SFS_BLKSIZE"
  let ?e = "offset + alen" let ?n = "?e div SFS_BLKSIZE - ?i"
  have max: "?e \<le> MAX_BLOCKS * SFS_BLKSIZE"
    using off(3) ok(2) mult_le_mono1 [of "din_blocks ?d" MAX_BLOCKS SFS_BLKSIZE] by (auto simp: inode_ok_def)
  have first: "sfs_io_nolock sfs sin buf (int offset) alen True = sfs_io_first True sfs sin buf offset ?e ?i ?n"
    using sfs_io_write_start [OF ok(3), of offset ?e sfs buf] off(1) max by simp
  have oi: "offset = ?i * SFS_BLKSIZE + ?o" by simp
  have ie: "?i \<le> ?e div SFS_BLKSIZE" by (intro div_le_mono) simp
  have e0: "?e - offset = alen" by simp
  show ?thesis
  proof (cases "?o = 0")
    case True
    have g: "stored sfs ?d offset (take 0 buf) sfs" using stored_refl [OF ok(1,2)] by simp
    have nb0: "neighbours sfs ?d ?i ?n" using nb True by (simp add: first_whole_def whole_blocks_def)
    have p: "offset + 0 = ?i * SFS_BLKSIZE" "?i + ?n = ?e div SFS_BLKSIZE" using True oi ie by simp_all
    from write_blocks [OF ok(1,2) off(3) _ p g nb0] off(2) first True show ?thesis
      unfolding e0 by (simp add: sfs_io_first_def Let_def)
  next
    case False
    have b: "?i < din_blocks ?d" using off by (intro blocks_of_position) linarith
    let ?s = "if ?n \<noteq> 0 then SFS_BLKSIZE - ?o else ?e - offset"
    have ob: "?o < SFS_BLKSIZE" by simp
    have within: "?o + ?s \<le> SFS_BLKSIZE"
    proof (cases "?n = 0")
      case True
      with part_within_block [of offset ?e] ie show ?thesis by simp
    next
      case False
      have "?o + (SFS_BLKSIZE - ?o) \<le> SFS_BLKSIZE" using ob by linarith
      with False show ?thesis by simp
    qed
    have p1: "offset + (SFS_BLKSIZE - ?o) = (?i + 1) * SFS_BLKSIZE"
    proof -
      have "(?i + 1) * SFS_BLKSIZE = ?i * SFS_BLKSIZE + SFS_BLKSIZE" by simp
      with oi ob show ?thesis by linarith
    qed
    have ne: "(?i + 1) * SFS_BLKSIZE \<le> ?e" if "?n \<noteq> 0"
    proof -
      have "?i + 1 \<le> ?e div SFS_BLKSIZE" using that by simp
      then have "(?i + 1) * SFS_BLKSIZE \<le> ?e div SFS_BLKSIZE * SFS_BLKSIZE" by (rule mult_le_mono1)
      also have "\<dots> \<le> ?e" by (rule div_times_less_eq_dividend)
      finally show ?thesis .
    qed
    have sb: "?s \<le> length buf"
    proof (cases "?n = 0")
      case True
      then show ?thesis using off(2) by simp
    next
      case False
      then show ?thesis using ne [OF False] p1 off(2) by simp
    qed
    from stored_wbuf [OF ok(1,2) b within ob sb] obtain s1 where w:
      "sfs_wbuf sfs buf ?s (inode_block sfs ?d ?i) ?o = Some (0, buf, s1)" "stored sfs ?d offset (take ?s buf) s1"
      unfolding oi [symmetric] by blast
    show ?thesis
    proof (cases "?n = 0")
      case True
      then have "sfs_io_first True sfs sin buf offset ?e ?i ?n = sfs_io_out s1 sin buf offset alen 0"
        using False load_old [OF ok(1,2) b] w(1) by (simp add: sfs_io_first_def sfs_buf_op_def Let_def)
      with first w(2) True show ?thesis by auto
    next
      case n: False
      have g: "stored sfs ?d offset (take (SFS_BLKSIZE - ?o) buf) s1" using w(2) n by simp
      have nb1: "neighbours sfs ?d (?i + 1) (?n - 1)" using nb False by (simp add: first_whole_def whole_blocks_def)
      have p2: "?i + 1 + (?n - 1) = ?e div SFS_BLKSIZE" using n ie by simp
      have "sfs_io_first True sfs sin buf offset ?e ?i ?n =
          sfs_io_blocks True s1 sin buf offset ?e (SFS_BLKSIZE - ?o) (?i + 1) (?n - 1)"
        using False n load_old [OF ok(1,2) b] w(1) by (simp add: sfs_io_first_def sfs_buf_op_def Let_def)
      with write_blocks [OF ok(1,2) off(3) _ p1 p2 g nb1] off(2) first show ?thesis
        unfolding e0 by simp
    qed
  qed
qed

section \<open>Appending whole blocks\<close>

lemma rwblock_loop_outside:
  "disk_ok sfs \<Longrightarrow> 0 < b \<Longrightarrow> b \<le> sblocks (super sfs) \<Longrightarrow> sblocks (super sfs) < b + n \<Longrightarrow> n * SFS_BLKSIZE \<le> length buf \<Longrightarrow>
   sfs_rwblock_loop n sfs buf b True = None"
proof (induction n arbitrary: b buf sfs)
  case 0
  then show ?case by simp
next
  case (Suc n)
  show ?case
  proof (cases "b = sblocks (super sfs)")
    case True
    then show ?thesis by (simp add: sfs_rwblock_nolock_def)
  next
    case False
    let ?s = "put_block b (take SFS_BLKSIZE buf) sfs"
    have b: "b < sblocks (super sfs)" "w32 (b + 1) = b + 1"
      using False Suc.prems(1,3) rwblock_next [of sfs b] by auto
    have "disk_ok ?s" using Suc.prems(1,5) by (intro disk_ok_put) auto
    then have "sfs_rwblock_loop n ?s (drop SFS_BLKSIZE buf) (b + 1) True = None"
      using Suc.prems b by (intro Suc.IH) auto
    with b Suc.prems(1,2) show ?thesis by (simp add: rwblock_write)
  qed
qed

text \<open>A write of \<^verbatim>\<open>n\<close> whole blocks at the end of the file: one block is looked up, \<^verbatim>\<open>n\<close> are written.\<close>

lemma append_whole_blocks:
  assumes ok: "fs_ok sfs" "inode_ok sfs (sin_din sin)" "din_type (sin_din sin) \<noteq> SFS_TYPE_DIR"
    and n: "0 < n" "length buf = n * SFS_BLKSIZE" "(din_blocks (sin_din sin) + n) * SFS_BLKSIZE \<le> SFS_MAX_FILE_SIZE"
    and room: "din_blocks (sin_din sin) < MAX_BLOCKS" "blocks_needed (sin_din sin) \<le> card (free_blocks sfs)"
    and size: "din_size (sin_din sin) \<le> din_blocks (sin_din sin) * SFS_BLKSIZE"
  shows "\<exists>b sin1 s1. sfs_bmap_load_nolock sfs sin (din_blocks (sin_din sin)) 0 = Some (0, b, sin1, s1) \<and> appended sfs sin b sin1 s1 \<and>
    sfs_io_nolock sfs sin buf (int (din_blocks (sin_din sin) * SFS_BLKSIZE)) (n * SFS_BLKSIZE) True =
      (if b + n \<le> sblocks (super sfs)
       then Some (0, buf, n * SFS_BLKSIZE,
         sin1\<lparr>sin_din := (sin_din sin1)\<lparr>din_size := (din_blocks (sin_din sin) + n) * SFS_BLKSIZE\<rparr>, sin_dirty := True\<rparr>,
         s1\<lparr>disk := written b n buf (disk s1)\<rparr>)
       else None)"
proof -
  let ?d = "sin_din sin" let ?k = "din_blocks (sin_din sin)" let ?o = "?k * SFS_BLKSIZE" let ?e = "(?k + n) * SFS_BLKSIZE"
  from sfs_bmap_load_append [OF ok(1,2) room(1), of 0] room(2) obtain b sin1 s1 where l:
    "sfs_bmap_load_nolock sfs sin ?k 0 = Some (0, b, sin1, s1)" "appended sfs sin b sin1 s1" by auto
  note ap = appended_parts [OF l(2)]
  have like: "sblocks (super s1) = sblocks (super sfs)" using ap(8) by (simp add: fs_like_def)
  have db: "data_block sfs b" using ap(1) ok(1) by (simp add: fs_ok_def)
  have sz: "din_size (sin_din sin1) = din_size ?d" using ap(6) by (simp add: same_file_def)
  have en: "?o + n * SFS_BLKSIZE = ?e" by (simp add: add_mult_distrib)
  have oe: "?o < ?e" using n(1) by (simp add: add_mult_distrib)
  have "?o div SFS_BLKSIZE = ?k" "?e div SFS_BLKSIZE - ?k = n" "?o mod SFS_BLKSIZE = 0" by simp_all
  moreover have "?e - ?o = n * SFS_BLKSIZE" by (simp add: add_mult_distrib)
  ultimately have first: "sfs_io_nolock sfs sin buf (int ?o) (n * SFS_BLKSIZE) True = sfs_io_blocks True sfs sin buf ?o ?e 0 ?k n"
    using sfs_io_write_start [OF ok(3) oe n(3), of sfs buf] unfolding sfs_io_first_def Let_def by simp
  have out: "din_size ?d < ?o + n * SFS_BLKSIZE" using size oe en by linarith
  have w32: "w32 (?o + n * SFS_BLKSIZE) = ?e" unfolding en by (rule mod_less) (use n(3) in simp)
  have "sfs_io_blocks True sfs sin buf ?o ?e 0 ?k n =
      (if b + n \<le> sblocks (super sfs)
       then Some (0, buf, n * SFS_BLKSIZE, sin1\<lparr>sin_din := (sin_din sin1)\<lparr>din_size := ?e\<rparr>, sin_dirty := True\<rparr>,
         s1\<lparr>disk := written b n buf (disk s1)\<rparr>) else None)"
  proof (cases "b + n \<le> sblocks (super sfs)")
    case True
    have "sfs_wblock s1 buf b n = Some (0, buf, s1\<lparr>disk := written b n buf (disk s1)\<rparr>)"
      by (rule sfs_wblock_ok) (use fs_ok_disk [OF ap(2)] db True like n(2) in \<open>simp_all add: data_block_def\<close>)
    with True n(1) l(1) out w32 sz show ?thesis
      by (simp add: sfs_io_blocks_def sfs_block_op_def sfs_io_last_def sfs_io_out_def)
  next
    case False
    have "sfs_wblock s1 buf b n = None"
      unfolding sfs_wblock_def sfs_rwblock_def
      by (rule rwblock_loop_outside) (use fs_ok_disk [OF ap(2)] db False like n(2) in \<open>simp_all add: data_block_def\<close>)
    with False n(1) l(1) show ?thesis by (simp add: sfs_io_blocks_def sfs_block_op_def)
  qed
  with first l show ?thesis by auto
qed

section \<open>Changing the length\<close>

lemma inode_block_size [simp]: "inode_block sfs (d\<lparr>din_size := n\<rparr>) = inode_block sfs d"
  by (rule ext) (simp add: inode_block_def)

lemma inode_ok_size [simp]: "inode_ok sfs (d\<lparr>din_size := n\<rparr>) = inode_ok sfs d"
  "inode_blocks sfs (d\<lparr>din_size := n\<rparr>) = inode_blocks sfs d" "fdata sfs (d\<lparr>din_size := n\<rparr>) = fdata sfs d"
  by (simp_all add: inode_ok_def inode_blocks_def fdata_def)

definition blocks_for :: "nat \<Rightarrow> nat" where
  "blocks_for len = (len + SFS_BLKSIZE - 1) div SFS_BLKSIZE"

lemma truncfile_blocks: "len \<le> SFS_MAX_FILE_SIZE \<Longrightarrow> w32 (ROUNDUP_DIV len SFS_BLKSIZE) = blocks_for len"
proof -
  assume a: "len \<le> SFS_MAX_FILE_SIZE"
  then have "(len + SFS_BLKSIZE - 1) div SFS_BLKSIZE \<le> (SFS_MAX_FILE_SIZE + SFS_BLKSIZE - 1) div SFS_BLKSIZE"
    by (intro div_le_mono) simp
  with a show ?thesis by (simp add: ROUNDUP_DIV_def blocks_for_def)
qed

lemma same_file_blocks: "same_file sfs sin sin' sfs' \<Longrightarrow> fs_ok sfs' \<and> inode_ok sfs' (sin_din sin')"
  by (simp add: same_file_def)

text \<open>\<^verbatim>\<open>sized n sin\<close> is the inode with its length set.\<close>

abbreviation sized :: "nat \<Rightarrow> sfs_inode \<Rightarrow> sfs_inode" where
  "sized n sin \<equiv> sin\<lparr>sin_din := (sin_din sin)\<lparr>din_size := n\<rparr>, sin_dirty := True\<rparr>"

lemma truncfile_eq:
  assumes "len \<le> SFS_MAX_FILE_SIZE" "len \<noteq> din_size (sin_din sin)"
  shows "sfs_truncfile sfs sin (int len) =
    (let t = blocks_for len; n = din_blocks (sin_din sin)
     in do { (ret, sin, sfs) \<leftarrow> (if n < t then truncfile_grow (t - n) n sfs sin
                                else if t < n then truncfile_shrink (n - t) sfs sin else Some (0, sin, sfs));
             if ret \<noteq> 0 then Some (ret, sin, sfs)
             else do { kassert (din_blocks (sin_din sin) = t); Some (0, sized len sin, sfs) } })"
  using assms unfolding sfs_truncfile_def Let_def nat_int truncfile_blocks [OF assms(1)] by simp

lemma truncfile_shrinks:
  assumes ok: "fs_ok sfs" "inode_ok sfs (sin_din sin)"
    and len: "len \<le> SFS_MAX_FILE_SIZE" "len \<noteq> din_size (sin_din sin)" "blocks_for len \<le> din_blocks (sin_din sin)"
  shows "\<exists>sin' sfs'. sfs_truncfile sfs sin (int len) = Some (0, sized len sin', sfs') \<and> same_file sfs sin sin' sfs' \<and>
    inode_blocks sfs' (sin_din sin') = take (blocks_for len) (inode_blocks sfs (sin_din sin)) \<and>
    free_blocks sfs' = free_blocks sfs \<union> set (drop (blocks_for len) (inode_blocks sfs (sin_din sin))) \<and>
    (\<forall>c. c \<noteq> din_indirect (sin_din sin) \<longrightarrow> disk sfs' c = disk sfs c)"
proof -
  let ?n = "din_blocks (sin_din sin)" let ?t = "blocks_for len"
  from truncfile_shrink_ok [OF ok, of "?n - ?t"] len(3) obtain sin' sfs' where t:
    "truncfile_shrink (?n - ?t) sfs sin = Some (0, sin', sfs')" "same_file sfs sin sin' sfs'"
    "inode_blocks sfs' (sin_din sin') = take ?t (inode_blocks sfs (sin_din sin))"
    "free_blocks sfs' = free_blocks sfs \<union> set (drop ?t (inode_blocks sfs (sin_din sin)))"
    "\<forall>c. c \<noteq> din_indirect (sin_din sin) \<longrightarrow> disk sfs' c = disk sfs c" by auto
  have "length (inode_blocks sfs' (sin_din sin')) = ?t" using t(3) len(3) by simp
  then have n': "din_blocks (sin_din sin') = ?t" by simp
  have "sfs_truncfile sfs sin (int len) = Some (0, sized len sin', sfs')"
  proof (cases "?t < ?n")
    case True
    with truncfile_eq [OF len(1,2), of sfs] t(1) n' show ?thesis by simp
  next
    case False
    with truncfile_eq [OF len(1,2), of sfs] t(1) n' len(3) show ?thesis by auto
  qed
  with t show ?thesis by blast
qed

lemma truncfile_grows:
  assumes ok: "fs_ok sfs" "inode_ok sfs (sin_din sin)"
    and len: "len \<le> SFS_MAX_FILE_SIZE" "len \<noteq> din_size (sin_din sin)" "din_blocks (sin_din sin) < blocks_for len"
  shows "(blocks_for len \<le> MAX_BLOCKS \<and>
      grow_needs (sin_din sin) (blocks_for len - din_blocks (sin_din sin)) \<le> card (free_blocks sfs) \<longrightarrow>
      (\<exists>bs sin' sfs'. sfs_truncfile sfs sin (int len) = Some (0, sized len sin', sfs') \<and>
        length bs = blocks_for len - din_blocks (sin_din sin) \<and> grown sfs sin bs sin' sfs')) \<and>
    (card (free_blocks sfs) < grow_needs (sin_din sin)
        (min (blocks_for len - din_blocks (sin_din sin)) (MAX_BLOCKS - din_blocks (sin_din sin))) \<longrightarrow>
      (\<exists>bs sin' sfs'. sfs_truncfile sfs sin (int len) = Some (- E_NO_MEM, sin', sfs') \<and>
        length bs < blocks_for len - din_blocks (sin_din sin) \<and> grown sfs sin bs sin' sfs')) \<and>
    (MAX_BLOCKS < blocks_for len \<and>
      grow_needs (sin_din sin) (MAX_BLOCKS - din_blocks (sin_din sin)) \<le> card (free_blocks sfs) \<longrightarrow>
      sfs_truncfile sfs sin (int len) = None)"
proof (intro conjI impI; (elim conjE)?)
  let ?n = "din_blocks (sin_din sin)" let ?t = "blocks_for len"
  note eq = truncfile_eq [OF len(1,2), of sfs]
  {
    assume a: "?t \<le> MAX_BLOCKS" "grow_needs (sin_din sin) (?t - ?n) \<le> card (free_blocks sfs)"
    from truncfile_grow_ok [OF ok, of "?t - ?n"] a len(3) obtain bs sin' sfs' where g:
      "truncfile_grow (?t - ?n) ?n sfs sin = Some (0, sin', sfs')" "length bs = ?t - ?n" "grown sfs sin bs sin' sfs'"
      by auto
    have "length (inode_blocks sfs' (sin_din sin')) = ?t" using g(2,3) len(3) by (simp add: grown_def)
    with g eq len(3) show "\<exists>bs sin' sfs'. sfs_truncfile sfs sin (int len) = Some (0, sized len sin', sfs') \<and>
        length bs = ?t - ?n \<and> grown sfs sin bs sin' sfs'" by auto
  next
    assume "card (free_blocks sfs) < grow_needs (sin_din sin) (min (?t - ?n) (MAX_BLOCKS - ?n))"
    from truncfile_grow_fails [OF ok this] obtain bs sin' sfs' where
      "truncfile_grow (?t - ?n) ?n sfs sin = Some (- E_NO_MEM, sin', sfs')" "length bs < ?t - ?n"
      "grown sfs sin bs sin' sfs'" by blast
    with eq len(3) show "\<exists>bs sin' sfs'. sfs_truncfile sfs sin (int len) = Some (- E_NO_MEM, sin', sfs') \<and>
        length bs < ?t - ?n \<and> grown sfs sin bs sin' sfs'" by auto
  next
    assume a: "MAX_BLOCKS < ?t" "grow_needs (sin_din sin) (MAX_BLOCKS - ?n) \<le> card (free_blocks sfs)"
    have "truncfile_grow (?t - ?n) ?n sfs sin = None"
      by (rule truncfile_grow_panics [OF ok]) (use a len(3) in simp_all)
    with eq len(3) show "sfs_truncfile sfs sin (int len) = None" by simp
  }
qed

section \<open>Properties\<close>

definition file_bytes :: "sfs_fs \<Rightarrow> sfs_disk_inode \<Rightarrow> byte list" where
  "file_bytes sfs d = take (din_size d) (fdata sfs d)"

text \<open>A request of at most one block has at most one whole block in its range.\<close>

lemma small_request:
  assumes "len \<le> SFS_BLKSIZE"
  shows "neighbours sfs d (first_whole offset) (whole_blocks offset (offset + len))"
proof -
  have "(offset + len) div SFS_BLKSIZE \<le> (offset + SFS_BLKSIZE) div SFS_BLKSIZE"
    by (rule div_le_mono) (use assms in simp)
  then have "whole_blocks offset (offset + len) \<le> 1" by (simp add: whole_blocks_def first_whole_def)
  then have "j = 0" if "j < whole_blocks offset (offset + len)" for j using that by simp
  then show ?thesis unfolding neighbours_def by fastforce
qed

lemma sfs_read_inside:
  assumes ok: "fs_ok sfs" "inode_ok sfs (sin_din sin)" "din_type (sin_din sin) \<noteq> SFS_TYPE_DIR"
    and sz: "din_size (sin_din sin) \<le> din_blocks (sin_din sin) * SFS_BLKSIZE"
    and off: "offset + len \<le> din_size (sin_din sin)" "0 < len"
    and nb: "neighbours sfs (sin_din sin) (first_whole offset) (whole_blocks offset (offset + len))"
  shows "sfs_read sfs sin (iobuf_init base len (int offset)) buf =
    Some (0, \<lparr>io_base = base + len, io_offset = int (offset + len), io_len = len, io_resid = 0\<rparr>,
      slice offset len (fdata sfs (sin_din sin)) @ drop len buf, sin, sfs)"
proof -
  have max: "din_size (sin_din sin) \<le> MAX_BLOCKS * SFS_BLKSIZE"
    using sz ok(2) mult_le_mono1 [of "din_blocks (sin_din sin)" MAX_BLOCKS SFS_BLKSIZE] by (auto simp: inode_ok_def)
  have m: "min (offset + len) (din_size (sin_din sin)) = offset + len" "min len (din_size (sin_din sin) - offset) = len"
    using off(1) by simp_all
  have nb': "neighbours sfs (sin_din sin) (offset div SFS_BLKSIZE + (if offset mod SFS_BLKSIZE = 0 then 0 else 1))
      ((min (offset + len) (din_size (sin_din sin))) div SFS_BLKSIZE - offset div SFS_BLKSIZE -
        (if offset mod SFS_BLKSIZE = 0 then 0 else 1))"
    using nb unfolding m first_whole_def whole_blocks_def by (simp add: diff_diff_left)
  have o: "offset < din_size (sin_din sin)" "len < 2 ^ 62" using off max by simp_all
  have "sfs_io_nolock sfs sin buf (int offset) len False =
      Some (0, slice offset len (fdata sfs (sin_din sin)) @ drop len buf, len, sin, sfs)"
    using sfs_io_read [OF ok sz o(1) off(2) o(2) nb', of buf] unfolding m Let_def .
  with off(2) show ?thesis by (simp add: sfs_read_def sfs_io_def iobuf_init_def iobuf_skip_def)
qed

text \<open>C30: what \<^verbatim>\<open>sfs_write\<close> stores inside a file \<^verbatim>\<open>sfs_read\<close> reads back, for
  requests of at most a block and for those whose whole blocks are neighbours on the disk: the contents of the file change
  exactly in the range, no block of another file changes, and both calls use up their
  \<^verbatim>\<open>iobuf\<close>.\<close>
theorem sfs_write_read:
  assumes "fs_ok sfs" "inode_ok sfs (sin_din sin)" "din_type (sin_din sin) \<noteq> SFS_TYPE_DIR"
    and "din_size (sin_din sin) \<le> din_blocks (sin_din sin) * SFS_BLKSIZE"
    and "offset + len \<le> din_size (sin_din sin)" "0 < len" "len \<le> length buf"
    and "len \<le> SFS_BLKSIZE \<or> neighbours sfs (sin_din sin) (first_whole offset) (whole_blocks offset (offset + len))"
  shows "\<exists>sfs'. sfs_write sfs sin (iobuf_init base len (int offset)) buf =
      Some (0, \<lparr>io_base = base + len, io_offset = int (offset + len), io_len = len, io_resid = 0\<rparr>, buf, sin, sfs') \<and>
    fs_ok sfs' \<and> inode_ok sfs' (sin_din sin) \<and> inode_blocks sfs' (sin_din sin) = inode_blocks sfs (sin_din sin) \<and>
    file_bytes sfs' (sin_din sin) = splice_at offset (take len buf) (file_bytes sfs (sin_din sin)) \<and>
    (\<forall>c. c \<notin> set (inode_blocks sfs (sin_din sin)) \<longrightarrow> disk sfs' c = disk sfs c) \<and>
    sfs_read sfs' sin (iobuf_init base2 len (int offset)) rbuf =
      Some (0, \<lparr>io_base = base2 + len, io_offset = int (offset + len), io_len = len, io_resid = 0\<rparr>,
        take len buf @ drop len rbuf, sin, sfs')"
proof -
  let ?d = "sin_din sin"
  have nb: "neighbours sfs ?d (first_whole offset) (whole_blocks offset (offset + len))"
    using assms(8) small_request by blast
  have e: "offset + len \<le> din_blocks ?d * SFS_BLKSIZE" using assms(4,5) by simp
  from sfs_io_write [OF assms(1-3,6,7) e nb] obtain s1 where w:
    "sfs_io_nolock sfs sin buf (int offset) len True = sfs_io_out s1 sin buf offset len 0"
    "stored sfs ?d offset (take len buf) s1" by blast
  have st: "fs_ok s1" "inode_ok s1 ?d" "inode_block s1 ?d = inode_block sfs ?d"
    "fdata s1 ?d = splice_at offset (take len buf) (fdata sfs ?d)"
    "\<forall>c. c \<notin> set (inode_blocks sfs ?d) \<longrightarrow> disk s1 c = disk sfs c"
    using w(2) unfolding stored_def by blast+
  have D: "offset + len \<le> length (fdata sfs ?d)" using length_fdata [OF assms(1,2)] e by simp
  have wr: "sfs_write sfs sin (iobuf_init base len (int offset)) buf =
      Some (0, \<lparr>io_base = base + len, io_offset = int (offset + len), io_len = len, io_resid = 0\<rparr>, buf, sin, s1)"
    using w(1) assms(5,6) by (simp add: sfs_write_def sfs_io_def iobuf_init_def iobuf_skip_def sfs_io_out_inside)
  have nb1: "neighbours s1 ?d (first_whole offset) (whole_blocks offset (offset + len))"
    using nb st(3) by (simp add: neighbours_def)
  have rd: "slice offset len (fdata s1 ?d) = take len buf"
    unfolding st(4) by (rule slice_splice_same) (use D assms(7) in simp_all)
  have fb: "file_bytes s1 ?d = splice_at offset (take len buf) (file_bytes sfs ?d)"
  proof (rule nth_equalityI)
    show "length (file_bytes s1 ?d) = length (splice_at offset (take len buf) (file_bytes sfs ?d))"
      using D assms(5,7) st(4) by (simp add: file_bytes_def)
  next
    fix i assume "i < length (file_bytes s1 ?d)"
    then have "i < din_size ?d" "i < length (fdata sfs ?d)" using D assms(7) st(4) by (simp_all add: file_bytes_def)
    then show "file_bytes s1 ?d ! i = splice_at offset (take len buf) (file_bytes sfs ?d) ! i"
      using D assms(5,7) st(4) by (simp add: file_bytes_def nth_splice_at)
  qed
  show ?thesis
    using wr st fb stored_blocks [OF w(2)] sfs_read_inside [OF st(1,2) assms(3-6) nb1, of base2 rbuf] rd
    by (intro exI [of _ s1]) simp
qed

lemma small_sin_din [simp]: "sin_din (small_sin bs n) = small_din bs n"
  by (simp add: small_sin_def)

lemma small_din_fields [simp]: "din_size (small_din bs n) = n" "din_type (small_din bs n) = SFS_TYPE_FILE"
  "din_blocks (small_din bs n) = length bs" "din_indirect (small_din bs n) = 0"
  by (simp_all add: small_din_def)

theorem sfs_write_read_witness:
  "\<exists>sfs'. sfs_write small_fs (small_sin [4, 3] 5000) (iobuf_init 0 3 4095) [1, 2, 3] =
      Some (0, \<lparr>io_base = 3, io_offset = 4098, io_len = 3, io_resid = 0\<rparr>, [1, 2, 3], small_sin [4, 3] 5000, sfs') \<and>
    sfs_read sfs' (small_sin [4, 3] 5000) (iobuf_init 8 3 4095) [0, 0, 0, 9] =
      Some (0, \<lparr>io_base = 11, io_offset = 4098, io_len = 3, io_resid = 0\<rparr>, [1, 2, 3, 9], small_sin [4, 3] 5000, sfs')"
proof -
  have i: "inode_ok small_fs (small_din [4, 3] 5000)" using small_inode(1) [of "[4, 3]"] by simp
  from sfs_write_read [of small_fs "small_sin [4, 3] 5000" 4095 3 "[1, 2, 3]" 0 8 "[0, 0, 0, 9]", unfolded small_sin_din,
      OF small_ok i] show ?thesis by simp blast
qed

text \<open>C31: a write of several whole blocks at the end of a file looks up, and so
  allocates, only the first of them: the file gets one block more and its length grows by
  all of them, and the bytes go to the blocks of the disk behind the new one, whatever
  file these belong to. When the disk ends before that the call panics.\<close>
theorem whole_block_append_overruns:
  assumes "fs_ok sfs" "inode_ok sfs (sin_din sin)" "din_type (sin_din sin) \<noteq> SFS_TYPE_DIR"
    and "din_size (sin_din sin) \<le> din_blocks (sin_din sin) * SFS_BLKSIZE" "din_blocks (sin_din sin) < SFS_NDIRECT"
    and "0 < n" "length buf = n * SFS_BLKSIZE" "n < 1000" "free_blocks sfs \<noteq> {}"
  defines "b \<equiv> Min (free_blocks sfs)"
  shows "if b + n \<le> sblocks (super sfs) then
      \<exists>sin' sfs'. sfs_io_nolock sfs sin buf (int (din_blocks (sin_din sin) * SFS_BLKSIZE)) (n * SFS_BLKSIZE) True =
          Some (0, buf, n * SFS_BLKSIZE, sin', sfs') \<and>
        din_blocks (sin_din sin') = din_blocks (sin_din sin) + 1 \<and>
        din_size (sin_din sin') = (din_blocks (sin_din sin) + n) * SFS_BLKSIZE \<and>
        free_blocks sfs' = free_blocks sfs - {b} \<and>
        (\<forall>j < n. disk sfs' (b + j) = slice (j * SFS_BLKSIZE) SFS_BLKSIZE buf)
    else sfs_io_nolock sfs sin buf (int (din_blocks (sin_din sin) * SFS_BLKSIZE)) (n * SFS_BLKSIZE) True = None"
proof -
  let ?d = "sin_din sin"
  have lim: "(din_blocks ?d + n) * SFS_BLKSIZE \<le> SFS_MAX_FILE_SIZE"
    using assms(5,8) mult_le_mono1 [of "din_blocks ?d + n" 1012 SFS_BLKSIZE] by simp
  have room: "din_blocks ?d < MAX_BLOCKS" "blocks_needed ?d \<le> card (free_blocks sfs)"
    using assms(5,9) finite_free [OF assms(1)] by (simp_all add: blocks_needed_def Suc_le_eq card_gt_0_iff)
  from append_whole_blocks [OF assms(1-3,6,7) lim room assms(4)] obtain c sin1 s1 where a:
    "sfs_bmap_load_nolock sfs sin (din_blocks ?d) 0 = Some (0, c, sin1, s1)" "appended sfs sin c sin1 s1"
    "sfs_io_nolock sfs sin buf (int (din_blocks ?d * SFS_BLKSIZE)) (n * SFS_BLKSIZE) True =
      (if c + n \<le> sblocks (super sfs)
       then Some (0, buf, n * SFS_BLKSIZE, sized ((din_blocks ?d + n) * SFS_BLKSIZE) sin1,
         s1\<lparr>disk := written c n buf (disk s1)\<rparr>) else None)" by blast
  from load_appends_direct [OF assms(1,2,5), of 0, unfolded if_not_P [OF assms(9)]] a(1) have c: "c = b"
    by (auto simp: b_def)
  have nb: "blocks_needed ?d \<noteq> 2" using assms(5) by (simp add: blocks_needed_def)
  then have "free_blocks s1 = free_blocks sfs - {c}"
    using a(2) indirect_not_free [OF assms(1,2)] unfolding appended_def by auto
  with a(3) appended_blocks [OF a(2)] c show ?thesis by (auto simp: written_def)
qed

text \<open>Block 3 belongs to another file.\<close>

theorem whole_block_append_overruns_witness:
  "\<exists>sin' sfs'. sfs_io_nolock small_fs (small_sin [] 0) (replicate 8192 1) 0 8192 True =
      Some (0, replicate 8192 1, 8192, sin', sfs') \<and> din_blocks (sin_din sin') = 1 \<and>
    used_block small_fs 3 \<and> disk sfs' 3 = replicate SFS_BLKSIZE 1"
proof -
  have i: "inode_ok small_fs (small_din [] 0)" using small_inode(1) [of "[]"] by simp
  have f: "free_blocks small_fs = {2, 5, 6, 7}" "sblocks (super small_fs) = 8" by (simp_all add: small_fs_def small_free)
  have "\<exists>sin' sfs'. sfs_io_nolock small_fs (small_sin [] 0) (replicate 8192 1) 0 8192 True =
      Some (0, replicate 8192 1, 8192, sin', sfs') \<and> din_blocks (sin_din sin') = 1 \<and>
      (\<forall>j < 2. disk sfs' (2 + j) = slice (j * SFS_BLKSIZE) SFS_BLKSIZE (replicate 8192 1))"
    using whole_block_append_overruns [of small_fs "small_sin [] 0" 2 "replicate 8192 1", unfolded small_sin_din f, OF small_ok i]
    by (auto simp del: replicate_Suc)
  then obtain sin' sfs' where r: "sfs_io_nolock small_fs (small_sin [] 0) (replicate 8192 1) 0 8192 True =
      Some (0, replicate 8192 1, 8192, sin', sfs')" "din_blocks (sin_din sin') = 1"
    "\<forall>j < 2. disk sfs' (2 + j) = slice (j * SFS_BLKSIZE) SFS_BLKSIZE (replicate 8192 1)" by blast
  have "disk sfs' 3 = replicate SFS_BLKSIZE 1" using spec [OF r(3), of 1] by (simp add: slice_def)
  moreover have "used_block small_fs 3" by (simp add: used_block_def data_block_def f)
  ultimately show ?thesis using r(1,2) by blast
qed



end
