(* ===== verification/SfsDir.thy ===== *)
theory SfsDir
  imports SfsFile
begin

text \<open>
  kern/fs/sfs/sfs_inode.c, directories: every block of a directory holds one entry, an
  entry with inode number 0 is empty. \<^verbatim>\<open>dir_entries\<close> is the list of entries; the
  functions search it by name and by inode number and pick the entries that are in use in
  order. A name is its bytes without the terminator. Whether \<^verbatim>\<open>kmalloc\<close> succeeds is an
  argument.
\<close>

section \<open>The program\<close>

definition cname :: "byte list \<Rightarrow> byte list" where
  "cname bs = takeWhile (\<lambda>c. c \<noteq> 0) bs"

text \<open>The result is the return code, the entry, the inode and the file system.\<close>

definition sfs_dirent_read_nolock ::
    "sfs_fs \<Rightarrow> sfs_inode \<Rightarrow> nat \<Rightarrow> sfs_disk_entry \<Rightarrow> (int \<times> sfs_disk_entry \<times> sfs_inode \<times> sfs_fs) option" where
  "sfs_dirent_read_nolock sfs sin slot entry =
     do { kassert (din_type (sin_din sin) = SFS_TYPE_DIR \<and> slot < din_blocks (sin_din sin));
          (ret, b, sin, sfs) \<leftarrow> sfs_bmap_load_nolock sfs sin slot 0;
          if ret \<noteq> 0 then Some (ret, entry, sin, sfs)
          else do { assert_inuse sfs b;
                    (ret, bs, sfs) \<leftarrow> sfs_rbuf sfs (entry_bytes entry) sizeof_entry b 0;
                    let entry = bytes_entry bs;
                    if ret \<noteq> 0 then Some (ret, entry, sin, sfs)
                    else Some (0, entry\<lparr>ent_name := (ent_name entry)[SFS_MAX_FNAME_LEN := 0]\<rparr>, sin, sfs) } }"

text \<open>
  The loop of \<^verbatim>\<open>sfs_dirent_search_nolock\<close> from \<^verbatim>\<open>i\<close> on, by the number of slots
  left: the result is the return code, \<^verbatim>\<open>*slot\<close> with \<^verbatim>\<open>*ino_store\<close> when they are
  set, \<^verbatim>\<open>*empty_slot\<close>, the inode and the file system.
\<close>

primrec dirent_search_loop ::
    "nat \<Rightarrow> nat \<Rightarrow> sfs_fs \<Rightarrow> sfs_inode \<Rightarrow> byte list \<Rightarrow> sfs_disk_entry \<Rightarrow> nat \<Rightarrow>
      (int \<times> (nat \<times> nat) option \<times> nat \<times> sfs_inode \<times> sfs_fs) option" where
  "dirent_search_loop 0 i sfs sin name entry empty_slot = Some (- E_NOENT, None, empty_slot, sin, sfs)"
| "dirent_search_loop (Suc k) i sfs sin name entry empty_slot =
     do { (ret, entry, sin, sfs) \<leftarrow> sfs_dirent_read_nolock sfs sin i entry;
          if ret \<noteq> 0 then Some (ret, None, empty_slot, sin, sfs)
          else if ent_ino entry = 0 then dirent_search_loop k (i + 1) sfs sin name entry i
          else if name = cname (ent_name entry) then Some (0, Some (i, ent_ino entry), empty_slot, sin, sfs)
          else dirent_search_loop k (i + 1) sfs sin name entry empty_slot }"

definition sfs_dirent_search_nolock ::
    "bool \<Rightarrow> sfs_disk_entry \<Rightarrow> sfs_fs \<Rightarrow> sfs_inode \<Rightarrow> byte list \<Rightarrow> nat \<Rightarrow>
      (int \<times> (nat \<times> nat) option \<times> nat \<times> sfs_inode \<times> sfs_fs) option" where
  "sfs_dirent_search_nolock got entry sfs sin name empty_slot =
     do { kassert (length name \<le> SFS_MAX_FNAME_LEN);
          if \<not> got then Some (- E_NO_MEM, None, empty_slot, sin, sfs)
          else let nslots = din_blocks (sin_din sin) in dirent_search_loop nslots 0 sfs sin name entry nslots }"

primrec dirent_findino_loop ::
    "nat \<Rightarrow> nat \<Rightarrow> sfs_fs \<Rightarrow> sfs_inode \<Rightarrow> nat \<Rightarrow> sfs_disk_entry \<Rightarrow> (int \<times> sfs_disk_entry \<times> sfs_inode \<times> sfs_fs) option" where
  "dirent_findino_loop 0 i sfs sin b entry = Some (- E_NOENT, entry, sin, sfs)"
| "dirent_findino_loop (Suc k) i sfs sin b entry =
     do { (ret, entry, sin, sfs) \<leftarrow> sfs_dirent_read_nolock sfs sin i entry;
          if ret \<noteq> 0 then Some (ret, entry, sin, sfs)
          else if ent_ino entry = b then Some (0, entry, sin, sfs)
          else dirent_findino_loop k (i + 1) sfs sin b entry }"

definition sfs_dirent_findino_nolock ::
    "sfs_fs \<Rightarrow> sfs_inode \<Rightarrow> nat \<Rightarrow> sfs_disk_entry \<Rightarrow> (int \<times> sfs_disk_entry \<times> sfs_inode \<times> sfs_fs) option" where
  "sfs_dirent_findino_nolock sfs sin b entry = dirent_findino_loop (din_blocks (sin_din sin)) 0 sfs sin b entry"

primrec getdirentry_loop ::
    "nat \<Rightarrow> nat \<Rightarrow> sfs_fs \<Rightarrow> sfs_inode \<Rightarrow> nat \<Rightarrow> sfs_disk_entry \<Rightarrow> (int \<times> sfs_disk_entry \<times> sfs_inode \<times> sfs_fs) option" where
  "getdirentry_loop 0 i sfs sin slot entry = Some (- E_NOENT, entry, sin, sfs)"
| "getdirentry_loop (Suc k) i sfs sin slot entry =
     do { (ret, entry, sin, sfs) \<leftarrow> sfs_dirent_read_nolock sfs sin i entry;
          if ret \<noteq> 0 then Some (ret, entry, sin, sfs)
          else if ent_ino entry \<noteq> 0 then
            (if slot = 0 then Some (0, entry, sin, sfs) else getdirentry_loop k (i + 1) sfs sin (slot - 1) entry)
          else getdirentry_loop k (i + 1) sfs sin slot entry }"

definition sfs_getdirentry_sub_nolock ::
    "sfs_fs \<Rightarrow> sfs_inode \<Rightarrow> nat \<Rightarrow> sfs_disk_entry \<Rightarrow> (int \<times> sfs_disk_entry \<times> sfs_inode \<times> sfs_fs) option" where
  "sfs_getdirentry_sub_nolock sfs sin slot entry = getdirentry_loop (din_blocks (sin_din sin)) 0 sfs sin slot entry"

abbreviation sfs_dentry_size :: nat where "sfs_dentry_size \<equiv> 256"

text \<open>\<^verbatim>\<open>iobuf_move\<close> into the buffer of the \<^verbatim>\<open>iobuf\<close>, which is passed by value.\<close>

definition iobuf_move_out :: "iobuf \<Rightarrow> byte list \<Rightarrow> byte list \<Rightarrow> (int \<times> iobuf \<times> byte list) option" where
  "iobuf_move_out iob buf data =
     (let alen = (if io_resid iob > length data then length data else io_resid iob)
      in if alen > 0 then
           do { iob \<leftarrow> iobuf_skip iob alen;
                Some (if length data - alen = 0 then 0 else - E_NO_MEM, iob, splice_at 0 (take alen data) buf) }
         else Some (if length data = 0 then 0 else - E_NO_MEM, iob, buf))"

definition sfs_getdirentry ::
    "bool \<Rightarrow> sfs_disk_entry \<Rightarrow> sfs_fs \<Rightarrow> sfs_inode \<Rightarrow> iobuf \<Rightarrow> byte list \<Rightarrow>
      (int \<times> iobuf \<times> byte list \<times> sfs_inode \<times> sfs_fs) option" where
  "sfs_getdirentry got entry sfs sin iob buf =
     (if \<not> got then Some (- E_NO_MEM, iob, buf, sin, sfs)
      else let offset = io_offset iob
           in if offset < 0 \<or> offset mod int sfs_dentry_size \<noteq> 0 then Some (- E_INVAL, iob, buf, sin, sfs)
              else let slot = nat (offset div int sfs_dentry_size)
                   in if slot > din_blocks (sin_din sin) then Some (- E_NOENT, iob, buf, sin, sfs)
                      else do { (ret, entry, sin, sfs) \<leftarrow> sfs_getdirentry_sub_nolock sfs sin slot entry;
                                if ret \<noteq> 0 then Some (ret, iob, buf, sin, sfs)
                                else do { (ret, iob, buf) \<leftarrow> iobuf_move_out iob buf (ent_name entry);
                                          Some (ret, iob, buf, sin, sfs) } })"

section \<open>The entries of a directory\<close>

definition dir_entry :: "sfs_fs \<Rightarrow> sfs_disk_inode \<Rightarrow> nat \<Rightarrow> sfs_disk_entry" where
  "dir_entry sfs d i =
     (let e = bytes_entry (disk sfs (inode_block sfs d i)) in e\<lparr>ent_name := (ent_name e)[SFS_MAX_FNAME_LEN := 0]\<rparr>)"

definition dir_entries :: "sfs_fs \<Rightarrow> sfs_disk_inode \<Rightarrow> sfs_disk_entry list" where
  "dir_entries sfs d = map (dir_entry sfs d) [0..<din_blocks d]"

definition dir_ok :: "sfs_fs \<Rightarrow> sfs_inode \<Rightarrow> bool" where
  "dir_ok sfs sin \<longleftrightarrow> fs_ok sfs \<and> inode_ok sfs (sin_din sin) \<and> din_type (sin_din sin) = SFS_TYPE_DIR"

lemma bytes_entry_slice:
  "length xs = sizeof_entry \<Longrightarrow> xs = slice 0 sizeof_entry bs \<Longrightarrow> bytes_entry (xs @ ys) = bytes_entry bs"
  by (simp add: bytes_entry_def slice_append_left) (simp add: slice_def drop_take)

lemma sfs_dirent_read_ok:
  assumes "dir_ok sfs sin" "slot < din_blocks (sin_din sin)"
  shows "sfs_dirent_read_nolock sfs sin slot entry = Some (0, dir_entry sfs (sin_din sin) slot, sin, sfs)"
proof -
  let ?b = "inode_block sfs (sin_din sin) slot"
  have ok: "fs_ok sfs" "inode_ok sfs (sin_din sin)" using assms(1) by (simp_all add: dir_ok_def)
  have u: "used_block sfs ?b" by (rule inode_block_used [OF ok(2) assms(2)])
  have rd: "sfs_rbuf sfs (entry_bytes entry) sizeof_entry ?b 0 =
      Some (0, slice 0 sizeof_entry (disk sfs ?b) @ drop sizeof_entry (entry_bytes entry), sfs)"
    by (rule rbuf_rest) (use ok(1) used_data [OF u] in simp_all)
  have len: "length (slice 0 sizeof_entry (disk sfs ?b)) = sizeof_entry"
    using disk_ok_length [OF fs_ok_disk [OF ok(1)] used_data [OF u]] by simp
  show ?thesis
    using assms load_old [OF ok assms(2), of 0] assert_inuse_ok [OF ok(1) u] rd
      bytes_entry_slice [OF len refl, of "drop sizeof_entry (entry_bytes entry)"]
    by (simp add: sfs_dirent_read_nolock_def dir_ok_def dir_entry_def Let_def)
qed

text \<open>The last element of a range with a property, or a default.\<close>

definition last_in :: "(nat \<Rightarrow> bool) \<Rightarrow> nat \<Rightarrow> nat \<Rightarrow> nat \<Rightarrow> nat" where
  "last_in P i j e = (let xs = filter P [i..<j] in if xs = [] then e else List.last xs)"

lemma last_in_empty [simp]: "last_in P i i e = e"
  by (simp add: last_in_def)

lemma last_in_step: "i < j \<Longrightarrow> last_in P i j e = last_in P (i + 1) j (if P i then i else e)"
  by (simp add: last_in_def upt_conv_Cons Let_def)

definition names :: "sfs_disk_entry \<Rightarrow> byte list \<Rightarrow> bool" where
  "names e name \<longleftrightarrow> ent_ino e \<noteq> 0 \<and> cname (ent_name e) = name"

lemma dirent_search_loop_ok:
  assumes "dir_ok sfs sin" "i + k = din_blocks (sin_din sin)"
  shows "let E = dir_entry sfs (sin_din sin); n = din_blocks (sin_din sin) in
    if \<exists>j. i \<le> j \<and> j < n \<and> names (E j) name then
      \<exists>j. i \<le> j \<and> j < n \<and> names (E j) name \<and> (\<forall>l. i \<le> l \<and> l < j \<longrightarrow> \<not> names (E l) name) \<and>
        dirent_search_loop k i sfs sin name entry es =
          Some (0, Some (j, ent_ino (E j)), last_in (\<lambda>l. ent_ino (E l) = 0) i j es, sin, sfs)
    else dirent_search_loop k i sfs sin name entry es =
      Some (- E_NOENT, None, last_in (\<lambda>l. ent_ino (E l) = 0) i n es, sin, sfs)"
  using assms
proof (induction k arbitrary: i entry es)
  case 0
  then show ?case by (auto simp: Let_def)
next
  case (Suc k)
  let ?E = "dir_entry sfs (sin_din sin)" let ?n = "din_blocks (sin_din sin)"
  have i: "i < ?n" "i + 1 + k = ?n" using Suc.prems(2) by simp_all
  have rd: "sfs_dirent_read_nolock sfs sin i entry = Some (0, ?E i, sin, sfs)"
    by (rule sfs_dirent_read_ok [OF Suc.prems(1) i(1)])
  show ?case
  proof (cases "names (?E i) name")
    case True
    then have "dirent_search_loop (Suc k) i sfs sin name entry es = Some (0, Some (i, ent_ino (?E i)), es, sin, sfs)"
      using rd by (simp add: names_def)
    with True i(1) show ?thesis unfolding Let_def
      by (subst if_P) (auto intro!: exI [of _ i])
  next
    case False
    let ?es = "if ent_ino (?E i) = 0 then i else es"
    have step: "dirent_search_loop (Suc k) i sfs sin name entry es = dirent_search_loop k (i + 1) sfs sin name (?E i) ?es"
      using rd False by (auto simp: names_def)
    have ex: "(\<exists>j. i \<le> j \<and> j < ?n \<and> names (?E j) name) \<longleftrightarrow> (\<exists>j. i + 1 \<le> j \<and> j < ?n \<and> names (?E j) name)"
      using False by (metis Suc_eq_plus1 Suc_leD not_less_eq_eq order_antisym_conv)
    note IH = Suc.IH [OF Suc.prems(1) i(2), of "?E i" ?es, unfolded Let_def]
    show ?thesis
    proof (cases "\<exists>j. i + 1 \<le> j \<and> j < ?n \<and> names (?E j) name")
      case True
      from IH [unfolded if_P [OF True]] obtain j where j: "i + 1 \<le> j" "j < ?n" "names (?E j) name"
        "\<forall>l. i + 1 \<le> l \<and> l < j \<longrightarrow> \<not> names (?E l) name"
        "dirent_search_loop k (i + 1) sfs sin name (?E i) ?es =
          Some (0, Some (j, ent_ino (?E j)), last_in (\<lambda>l. ent_ino (?E l) = 0) (i + 1) j ?es, sin, sfs)" by blast
      have "\<forall>l. i \<le> l \<and> l < j \<longrightarrow> \<not> names (?E l) name"
      proof (intro allI impI)
        fix l assume "i \<le> l \<and> l < j"
        with j(4) False show "\<not> names (?E l) name" by (cases "l = i") auto
      qed
      with j step last_in_step [of i j "\<lambda>l. ent_ino (?E l) = 0" es] show ?thesis
        unfolding Let_def by (subst if_P) (auto intro!: exI [of _ j])
    next
      case none: False
      from IH [unfolded if_not_P [OF none]] step last_in_step [OF i(1), of "\<lambda>l. ent_ino (?E l) = 0" es]
      show ?thesis unfolding Let_def ex if_not_P [OF none] by simp
    qed
  qed
qed

lemma getdirentry_loop_ok:
  assumes "dir_ok sfs sin" "i + k = din_blocks (sin_din sin)"
  shows "let es = filter (\<lambda>e. ent_ino e \<noteq> 0) (map (dir_entry sfs (sin_din sin)) [i..<din_blocks (sin_din sin)]) in
    \<exists>e. getdirentry_loop k i sfs sin slot entry =
      (if slot < length es then Some (0, es ! slot, sin, sfs) else Some (- E_NOENT, e, sin, sfs))"
  using assms
proof (induction k arbitrary: i slot entry)
  case 0
  then show ?case by (simp add: Let_def)
next
  case (Suc k)
  let ?E = "dir_entry sfs (sin_din sin)" let ?n = "din_blocks (sin_din sin)"
  have i: "i < ?n" "i + 1 + k = ?n" using Suc.prems(2) by simp_all
  have rd: "sfs_dirent_read_nolock sfs sin i entry = Some (0, ?E i, sin, sfs)"
    by (rule sfs_dirent_read_ok [OF Suc.prems(1) i(1)])
  have up: "[i..<?n] = i # [i + 1..<?n]" using i(1) by (simp add: upt_conv_Cons)
  show ?case
  proof (cases "ent_ino (?E i) = 0")
    case True
    with Suc.IH [OF Suc.prems(1) i(2), of slot "?E i"] rd up show ?thesis by (simp add: Let_def)
  next
    case False
    show ?thesis
    proof (cases slot)
      case 0
      with False rd up show ?thesis by (simp add: Let_def)
    next
      case (Suc s)
      with False Suc.IH [OF Suc.prems(1) i(2), of s "?E i"] rd up show ?thesis by (auto simp: Let_def split: if_splits)
    qed
  qed
qed

lemma dirent_findino_loop_ok:
  assumes "dir_ok sfs sin" "i + k = din_blocks (sin_din sin)"
  shows "\<exists>e'. dirent_findino_loop k i sfs sin b entry =
    (case List.find (\<lambda>e. ent_ino e = b) (map (dir_entry sfs (sin_din sin)) [i..<din_blocks (sin_din sin)]) of
       Some e \<Rightarrow> Some (0, e, sin, sfs) | None \<Rightarrow> Some (- E_NOENT, e', sin, sfs))"
  using assms
proof (induction k arbitrary: i entry)
  case 0
  then show ?case by simp
next
  case (Suc k)
  let ?E = "dir_entry sfs (sin_din sin)" let ?n = "din_blocks (sin_din sin)"
  have i: "i < ?n" "i + 1 + k = ?n" using Suc.prems(2) by simp_all
  have rd: "sfs_dirent_read_nolock sfs sin i entry = Some (0, ?E i, sin, sfs)"
    by (rule sfs_dirent_read_ok [OF Suc.prems(1) i(1)])
  have up: "[i..<?n] = i # [i + 1..<?n]" using i(1) by (simp add: upt_conv_Cons)
  show ?case using Suc.IH [OF Suc.prems(1) i(2), of "?E i"] rd up by auto
qed

section \<open>Properties\<close>

text \<open>The position of the first entry with a name, and the entries in use.\<close>

definition named_at :: "sfs_disk_entry list \<Rightarrow> byte list \<Rightarrow> nat option" where
  "named_at es name = List.find (\<lambda>i. names (es ! i) name) [0..<length es]"

definition used_entries :: "sfs_disk_entry list \<Rightarrow> sfs_disk_entry list" where
  "used_entries es = filter (\<lambda>e. ent_ino e \<noteq> 0) es"

lemma named_at_Some:
  assumes "j < length es" "names (es ! j) name" "\<forall>l < j. \<not> names (es ! l) name"
  shows "named_at es name = Some j"
  unfolding named_at_def find_Some_iff using assms by (intro exI [of _ j]) simp

lemma length_dir_entries [simp]: "length (dir_entries sfs d) = din_blocks d"
  by (simp add: dir_entries_def)

lemma nth_dir_entries [simp]: "i < din_blocks d \<Longrightarrow> dir_entries sfs d ! i = dir_entry sfs d i"
  by (simp add: dir_entries_def)

lemma last_in_cong:
  "(\<And>l. i \<le> l \<Longrightarrow> l < j \<Longrightarrow> P l = Q l) \<Longrightarrow> last_in P i j e = last_in Q i j e"
proof -
  assume "\<And>l. i \<le> l \<Longrightarrow> l < j \<Longrightarrow> P l = Q l"
  then have "filter P [i..<j] = filter Q [i..<j]" by (intro filter_cong) auto
  then show ?thesis by (simp add: last_in_def)
qed

lemma length_ent_name:
  assumes "dir_ok sfs sin" "e \<in> set (dir_entries sfs (sin_din sin))"
  shows "length (ent_name e) = SFS_MAX_FNAME_LEN + 1"
proof -
  from assms(2) obtain i where i: "i < din_blocks (sin_din sin)" "e = dir_entry sfs (sin_din sin) i"
    by (auto simp: dir_entries_def)
  have ok: "fs_ok sfs" "inode_ok sfs (sin_din sin)" using assms(1) by (simp_all add: dir_ok_def)
  have "length (disk sfs (inode_block sfs (sin_din sin) i)) = SFS_BLKSIZE"
    using disk_ok_length [OF fs_ok_disk [OF ok(1)] used_data [OF inode_block_used [OF ok(2) i(1)]]] .
  then show ?thesis using i(2) by (simp add: dir_entry_def bytes_entry_def Let_def)
qed

text \<open>C33: \<^verbatim>\<open>sfs_dirent_search_nolock\<close> returns the slot and the inode number of the first
  entry in use with the name, or \<^verbatim>\<open>-E_NOENT\<close> when there is none, and the last empty slot
  it met on the way (the number of slots when it met none); nothing changes. It panics for
  a name of more than 255 characters. \<^verbatim>\<open>sfs_dirent_findino_nolock\<close> returns the first entry
  with an inode number.\<close>
theorem directory_search:
  assumes "dir_ok sfs sin"
  shows "sfs_dirent_search_nolock got entry sfs sin name es =
    (if length name > SFS_MAX_FNAME_LEN then None
     else if \<not> got then Some (- E_NO_MEM, None, es, sin, sfs)
     else let D = dir_entries sfs (sin_din sin); n = length D; empty = (\<lambda>l. ent_ino (D ! l) = 0)
          in case named_at D name of
               Some j \<Rightarrow> Some (0, Some (j, ent_ino (D ! j)), last_in empty 0 j n, sin, sfs)
             | None \<Rightarrow> Some (- E_NOENT, None, last_in empty 0 n n, sin, sfs)) \<and>
    (case List.find (\<lambda>e. ent_ino e = b) (dir_entries sfs (sin_din sin)) of
       Some e \<Rightarrow> sfs_dirent_findino_nolock sfs sin b entry = Some (0, e, sin, sfs)
     | None \<Rightarrow> \<exists>e. sfs_dirent_findino_nolock sfs sin b entry = Some (- E_NOENT, e, sin, sfs))"
proof -
  let ?D = "dir_entries sfs (sin_din sin)" let ?n = "din_blocks (sin_din sin)"
  let ?E = "dir_entry sfs (sin_din sin)"
  let ?le = "\<lambda>j. last_in (\<lambda>l. ent_ino (?E l) = 0) 0 j ?n"
  have le: "last_in (\<lambda>l. ent_ino (?D ! l) = 0) 0 j ?n = ?le j" if "j \<le> ?n" for j
    by (rule last_in_cong) (use that in simp)
  note S = dirent_search_loop_ok [OF assms, of 0 ?n name entry ?n, unfolded Let_def, OF add_0]
  have srch: "dirent_search_loop ?n 0 sfs sin name entry ?n = (case named_at ?D name of
      Some j \<Rightarrow> Some (0, Some (j, ent_ino (?D ! j)), ?le j, sin, sfs) | None \<Rightarrow> Some (- E_NOENT, None, ?le ?n, sin, sfs)) \<and>
      (\<forall>j. named_at ?D name = Some j \<longrightarrow> j < ?n)"
  proof (cases "\<exists>j. 0 \<le> j \<and> j < ?n \<and> names (?E j) name")
    case True
    from S [unfolded if_P [OF True]] obtain j where j: "j < ?n" "names (?E j) name" "\<forall>l. 0 \<le> l \<and> l < j \<longrightarrow> \<not> names (?E l) name"
      "dirent_search_loop ?n 0 sfs sin name entry ?n = Some (0, Some (j, ent_ino (?E j)), ?le j, sin, sfs)" by blast
    have "named_at ?D name = Some j" by (rule named_at_Some) (use j in simp_all)
    with j show ?thesis by simp
  next
    case False
    then have "named_at ?D name = None" by (auto simp: named_at_def find_None_iff)
    with S [unfolded if_not_P [OF False]] show ?thesis by simp
  qed
  have "sfs_dirent_search_nolock got entry sfs sin name es =
    (if length name > SFS_MAX_FNAME_LEN then None
     else if \<not> got then Some (- E_NO_MEM, None, es, sin, sfs)
     else case named_at ?D name of
               Some j \<Rightarrow> Some (0, Some (j, ent_ino (?D ! j)), last_in (\<lambda>l. ent_ino (?D ! l) = 0) 0 j ?n, sin, sfs)
             | None \<Rightarrow> Some (- E_NOENT, None, last_in (\<lambda>l. ent_ino (?D ! l) = 0) 0 ?n ?n, sin, sfs))"
    using srch le by (cases "named_at ?D name") (auto simp: sfs_dirent_search_nolock_def Let_def)
  moreover from dirent_findino_loop_ok [OF assms, of 0 ?n b entry] obtain e' where
    "dirent_findino_loop ?n 0 sfs sin b entry =
     (case List.find (\<lambda>e. ent_ino e = b) ?D of Some e \<Rightarrow> Some (0, e, sin, sfs) | None \<Rightarrow> Some (- E_NOENT, e', sin, sfs))"
    by (auto simp: dir_entries_def)
  ultimately show ?thesis unfolding Let_def length_dir_entries
    by (auto simp: sfs_dirent_findino_nolock_def split: option.splits)
qed

text \<open>A directory of two blocks; the first entry is empty.\<close>

definition small_entry :: "nat \<Rightarrow> byte list \<Rightarrow> sfs_disk_entry" where
  "small_entry ino name = \<lparr>ent_ino = ino, ent_name = name @ replicate (256 - length name) 0\<rparr>"

definition small_dir_fs :: sfs_fs where
  "small_dir_fs = small_fs\<lparr>disk := (\<lambda>b. if b = 3 then entry_bytes (small_entry 3 [97, 98]) @ replicate 3836 0 else zero_block)\<rparr>"

definition small_dir :: sfs_inode where
  "small_dir = (small_sin [4, 3] 0)\<lparr>sin_din := (small_din [4, 3] 0)\<lparr>din_type := SFS_TYPE_DIR\<rparr>\<rparr>"

lemma small_dir_ok: "dir_ok small_dir_fs small_dir"
proof -
  have "disk_ok small_dir_fs"
    using small_ok by (simp add: fs_ok_def disk_ok_def small_dir_fs_def entry_bytes_def small_entry_def zero_block_def)
  then have "fs_ok small_dir_fs" using small_ok by (simp add: fs_ok_def small_dir_fs_def data_block_def)
  moreover have "inode_ok small_dir_fs (sin_din small_dir)"
  proof -
    have "inode_block small_dir_fs (sin_din small_dir) = inode_block small_fs (small_din [4, 3] 0)"
      by (simp add: fun_eq_iff small_dir_def small_din_def inode_block_def)
    then show ?thesis using small_inode(1) [of "[4, 3]" 0] unfolding inode_ok_def inode_blocks_def
      by (simp add: small_dir_fs_def small_dir_def small_din_def used_block_def data_block_def)
  qed
  ultimately show ?thesis by (simp add: dir_ok_def small_dir_def)
qed

lemma small_dir_entries:
  "dir_entries small_dir_fs (sin_din small_dir) = [small_entry 0 [], small_entry 3 [97, 98]]"
proof -
  have b: "inode_block small_dir_fs (sin_din small_dir) 0 = 4" "inode_block small_dir_fs (sin_din small_dir) 1 = 3"
    "din_blocks (sin_din small_dir) = 2"
    by (simp_all add: small_dir_def small_din_def inode_block_def)
  have d: "disk small_dir_fs 4 = zero_block"
    "disk small_dir_fs 3 = entry_bytes (small_entry 3 [97, 98]) @ replicate 3836 0"
    by (simp_all add: small_dir_fs_def)
  have "le_nat (replicate k 0) = 0" for k by (induction k) simp_all
  then have z: "bytes_entry zero_block = small_entry 0 []"
    by (simp add: zero_block_def bytes_entry_def small_entry_def slice_def del: replicate_Suc)
  have e: "bytes_entry (disk small_dir_fs 3) = small_entry 3 [97, 98]"
    unfolding d by (rule entry_roundtrip) (simp_all add: small_entry_def)
  have n: "(ent_name (small_entry i n))[255 := 0] = ent_name (small_entry i n)" if "length n < 256" for i n
    using that by (intro nth_equalityI) (auto simp: small_entry_def nth_list_update nth_append)
  have same: "small_entry i n\<lparr>ent_name := (ent_name (small_entry i n))[255 := 0]\<rparr> = small_entry i n" if "length n < 256" for i n
    unfolding n [OF that] by (simp add: small_entry_def)
  have "dir_entry small_dir_fs (sin_din small_dir) 0 = small_entry 0 []"
    using same [of "[]" 0] by (simp add: dir_entry_def b d z Let_def)
  moreover have "dir_entry small_dir_fs (sin_din small_dir) 1 = small_entry 3 [97, 98]"
    unfolding dir_entry_def b e Let_def using same [of "[97, 98]" 3] by simp
  moreover have "[0..<2] = [0, 1 :: nat]" by (simp add: upt_rec)
  ultimately show ?thesis by (simp add: dir_entries_def b(3))
qed

lemma small_entry_name: "cname (ent_name (small_entry i [97, 98])) = [97, 98]"
  by (simp add: cname_def small_entry_def)

theorem directory_search_witness:
  "sfs_dirent_search_nolock True (small_entry 0 []) small_dir_fs small_dir [97, 98] 9 = Some (0, Some (1, 3), 0, small_dir, small_dir_fs) \<and>
   sfs_dirent_search_nolock True (small_entry 0 []) small_dir_fs small_dir [97] 9 = Some (- E_NOENT, None, 0, small_dir, small_dir_fs) \<and>
   sfs_dirent_findino_nolock small_dir_fs small_dir 3 (small_entry 0 []) = Some (0, small_entry 3 [97, 98], small_dir, small_dir_fs)"
proof -
  let ?D = "[small_entry 0 [], small_entry 3 [97, 98]]"
  have i: "ent_ino (small_entry i n) = i" for i n by (simp add: small_entry_def)
  have r: "[0..<2] = [0, 1 :: nat]" by (simp add: upt_rec)
  have n: "named_at ?D [97, 98] = Some 1" "named_at ?D [97] = None"
    by (simp_all add: named_at_def names_def i r small_entry_name)
  have l: "last_in (\<lambda>l. ent_ino (?D ! l) = 0) 0 1 2 = 0" "last_in (\<lambda>l. ent_ino (?D ! l) = 0) 0 2 2 = 0"
    by (simp_all add: last_in_def i r)
  note th = directory_search [OF small_dir_ok, of True "small_entry 0 []" _ 9 3, unfolded small_dir_entries Let_def]
  show ?thesis using th [of "[97, 98]"] th [of "[97]"] n l i by (simp add: numeral_2_eq_2)
qed



end
