(* ===== verification/Disk0.thy ===== *)
theory Disk0
  imports SfsIo Ramdisk Iobuf
begin

text \<open>
  kern/fs/devs/dev_disk0.c: the disk device. A request is split into pieces of at most four
  blocks that pass through \<^verbatim>\<open>disk0_buffer\<close>. The memory is the byte memory of
  libs/string.c, with the disk image in it. The lock around the loop has no counterpart.
  The last section proves that a request for one block is \<^verbatim>\<open>dop_io\<close> of the block
  layer of the file system.
\<close>

section \<open>The program\<close>

abbreviation DISK0_BLKSIZE :: nat where "DISK0_BLKSIZE \<equiv> 4096"
abbreviation DISK0_BUFSIZE :: nat where "DISK0_BUFSIZE \<equiv> 16384"
abbreviation DISK0_BLK_NSECT :: nat where "DISK0_BLK_NSECT \<equiv> 8"

definition disk0_read_blks_nolock :: "disks \<Rightarrow> nat \<Rightarrow> nat \<Rightarrow> nat \<Rightarrow> mem \<Rightarrow> mem option" where
  "disk0_read_blks_nolock ds disk0_buffer blkno nblks m =
     do { let sectno = w32 (blkno * DISK0_BLK_NSECT);
          let nsecs = w32 (nblks * DISK0_BLK_NSECT);
          (ret, m) \<leftarrow> ide_read_secs ds DISK0_DEV_NO sectno disk0_buffer nsecs m;
          if ret \<noteq> 0 then None else Some m }"

definition disk0_write_blks_nolock :: "disks \<Rightarrow> nat \<Rightarrow> nat \<Rightarrow> nat \<Rightarrow> mem \<Rightarrow> mem option" where
  "disk0_write_blks_nolock ds disk0_buffer blkno nblks m =
     do { let sectno = w32 (blkno * DISK0_BLK_NSECT);
          let nsecs = w32 (nblks * DISK0_BLK_NSECT);
          (ret, m) \<leftarrow> ide_write_secs ds DISK0_DEV_NO sectno disk0_buffer nsecs m;
          if ret \<noteq> 0 then None else Some m }"

partial_function (option) disk0_loop ::
    "disks \<Rightarrow> nat \<Rightarrow> bool \<Rightarrow> nat \<Rightarrow> nat \<Rightarrow> iobuf \<Rightarrow> mem \<Rightarrow> (iobuf \<times> mem) option" where
  "disk0_loop ds disk0_buffer write resid blkno iob m =
     (if resid = 0 then Some (iob, m)
      else if write then
        do { (ret, moved, iob, m) \<leftarrow> iobuf_move iob disk0_buffer DISK0_BUFSIZE False m;
             kassert (moved \<noteq> 0 \<and> moved \<le> resid \<and> moved mod DISK0_BLKSIZE = 0);
             let nblks = moved div DISK0_BLKSIZE;
             m \<leftarrow> disk0_write_blks_nolock ds disk0_buffer blkno nblks m;
             disk0_loop ds disk0_buffer write (resid - moved) (w32 (blkno + nblks)) iob m }
      else
        do { let alen = (if DISK0_BUFSIZE > resid then resid else DISK0_BUFSIZE);
             let nblks = alen div DISK0_BLKSIZE;
             m \<leftarrow> disk0_read_blks_nolock ds disk0_buffer blkno nblks m;
             (ret, moved, iob, m) \<leftarrow> iobuf_move iob disk0_buffer alen True m;
             kassert (moved = alen \<and> moved mod DISK0_BLKSIZE = 0);
             disk0_loop ds disk0_buffer write (resid - moved) (w32 (blkno + nblks)) iob m })"

text \<open>The device is the number of its blocks.\<close>

definition disk0_io :: "disks \<Rightarrow> nat \<Rightarrow> nat \<Rightarrow> iobuf \<Rightarrow> bool \<Rightarrow> mem \<Rightarrow> (int \<times> iobuf \<times> mem) option" where
  "disk0_io ds disk0_buffer dev_blocks iob write m =
     (let offset = io_offset iob; resid = io_resid iob;
          blkno = nat ((offset div int DISK0_BLKSIZE) mod 2 ^ 32); nblks = w32 (resid div DISK0_BLKSIZE)
      in if offset mod int DISK0_BLKSIZE \<noteq> 0 \<or> resid mod DISK0_BLKSIZE \<noteq> 0 then Some (- E_INVAL, iob, m)
         else if w32 (blkno + nblks) > dev_blocks then Some (- E_INVAL, iob, m)
         else if nblks = 0 then Some (0, iob, m)
         else do { (iob, m) \<leftarrow> disk0_loop ds disk0_buffer write resid blkno iob m;
                   Some (0, iob, m) })"

text \<open>
  The result is the number of blocks and the buffer, whose address \<^verbatim>\<open>kmalloc\<close> gives.
\<close>

definition disk0_device_init :: "disks \<Rightarrow> nat option \<Rightarrow> (nat \<times> nat) option" where
  "disk0_device_init ds buffer =
     do { kassert (ide_device_valid DISK0_DEV_NO ds);
          disk0_buffer \<leftarrow> buffer;
          Some (ide_device_size DISK0_DEV_NO ds div DISK0_BLK_NSECT, disk0_buffer) }"

section \<open>Transfers\<close>

definition iobuf_moved :: "nat \<Rightarrow> iobuf \<Rightarrow> iobuf" where
  "iobuf_moved n iob = iob\<lparr>io_base := io_base iob + n, io_offset := io_offset iob + int n, io_resid := io_resid iob - n\<rparr>"

lemma iobuf_moved_fields [simp]:
  "io_base (iobuf_moved n iob) = io_base iob + n" "io_resid (iobuf_moved n iob) = io_resid iob - n"
  by (simp_all add: iobuf_moved_def)

lemma iobuf_moved_moved: "iobuf_moved k (iobuf_moved n iob) = iobuf_moved (n + k) iob"
  by (simp add: iobuf_moved_def add.assoc)

lemma iobuf_moved_0 [simp]: "iobuf_moved 0 iob = iob"
  by (simp add: iobuf_moved_def)

lemma iobuf_move_eq:
  assumes "0 < min len (io_resid iob)"
  shows "iobuf_move iob data len m2b m = Some (if len \<le> io_resid iob then 0 else - E_NO_MEM, min len (io_resid iob),
    iobuf_moved (min len (io_resid iob)) iob,
    if m2b then copied (io_base iob) data (min len (io_resid iob)) m else copied data (io_base iob) (min len (io_resid iob)) m)"
  using assms
  by (auto simp: iobuf_move_def iobuf_skip_def iobuf_moved_def min_def Let_def memmove_eq split: if_splits)

text \<open>The areas of the disk image, of \<^verbatim>\<open>disk0_buffer\<close> and of the buffer of the caller.\<close>

definition block_addr :: "disks \<Rightarrow> nat \<Rightarrow> nat" where
  "block_addr ds blkno = iobase (ds DISK0_DEV_NO) + blkno * DISK0_BLKSIZE"

definition disk0_ok :: "disks \<Rightarrow> nat \<Rightarrow> nat \<Rightarrow> bool" where
  "disk0_ok ds dev_blocks disk0_buffer \<longleftrightarrow> usable_disk ds DISK0_DEV_NO \<and>
     dev_blocks = dsize (ds DISK0_DEV_NO) div DISK0_BLK_NSECT \<and>
     disjoint disk0_buffer DISK0_BUFSIZE (block_addr ds 0) (dev_blocks * DISK0_BLKSIZE)"

lemma disk0_ok_le: "disk0_ok ds d buf \<Longrightarrow> d \<le> 2 ^ 25"
  by (auto simp: disk0_ok_def usable_disk_def MAX_DISK_NSECS_def)

lemma disk0_sector:
  assumes "disk0_ok ds d buf" "blkno + n \<le> d" "n \<le> 4"
  shows "w32 (blkno * DISK0_BLK_NSECT) = blkno * DISK0_BLK_NSECT" "w32 (n * DISK0_BLK_NSECT) = n * DISK0_BLK_NSECT"
    "blkno * DISK0_BLK_NSECT + n * DISK0_BLK_NSECT \<le> dsize (ds DISK0_DEV_NO)" "n * DISK0_BLK_NSECT \<le> MAX_NSECS"
    "sector_addr ds DISK0_DEV_NO (blkno * DISK0_BLK_NSECT) = block_addr ds blkno"
    "disjoint (block_addr ds blkno) (n * DISK0_BLKSIZE) buf (n * DISK0_BLKSIZE)"
proof -
  have d: "d \<le> 2 ^ 25" by (rule disk0_ok_le [OF assms(1)])
  then show "w32 (blkno * DISK0_BLK_NSECT) = blkno * DISK0_BLK_NSECT" using assms(2) by simp
  show "w32 (n * DISK0_BLK_NSECT) = n * DISK0_BLK_NSECT" "n * DISK0_BLK_NSECT \<le> MAX_NSECS"
    using assms(3) by (simp_all add: MAX_NSECS_def)
  have "d = dsize (ds DISK0_DEV_NO) div 8" using assms(1) by (simp add: disk0_ok_def)
  then have "d * 8 \<le> dsize (ds DISK0_DEV_NO)" by simp
  with assms(2) show "blkno * DISK0_BLK_NSECT + n * DISK0_BLK_NSECT \<le> dsize (ds DISK0_DEV_NO)" by linarith
  show "sector_addr ds DISK0_DEV_NO (blkno * DISK0_BLK_NSECT) = block_addr ds blkno"
    by (simp add: sector_addr_def block_addr_def)
  show "disjoint (block_addr ds blkno) (n * DISK0_BLKSIZE) buf (n * DISK0_BLKSIZE)"
    using assms by (auto simp: disk0_ok_def disjoint_def block_addr_def)
qed

lemma bytes_of_sectors: "n * DISK0_BLK_NSECT * SECTSIZE = n * DISK0_BLKSIZE"
  by simp

lemma disk0_write_blks_ok:
  assumes "disk0_ok ds d buf" "blkno + n \<le> d" "0 < n" "n \<le> 4"
  shows "disk0_write_blks_nolock ds buf blkno n m = Some (copied (block_addr ds blkno) buf (n * DISK0_BLKSIZE) m)"
proof -
  note s = disk0_sector [OF assms(1,2,4)]
  have "ide_write_secs ds DISK0_DEV_NO (blkno * 8) buf (n * 8) m = Some (0, copied (block_addr ds blkno) buf (n * DISK0_BLKSIZE) m)"
    using ide_write_inside [of ds DISK0_DEV_NO "blkno * 8" "n * 8" buf m] assms(1,3) s unfolding bytes_of_sectors by (simp add: disk0_ok_def)
  then show ?thesis using s(1,2) by (simp add: disk0_write_blks_nolock_def Let_def)
qed

lemma disk0_read_blks_ok:
  assumes "disk0_ok ds d buf" "blkno + n \<le> d" "0 < n" "n \<le> 4"
  shows "disk0_read_blks_nolock ds buf blkno n m = Some (copied buf (block_addr ds blkno) (n * DISK0_BLKSIZE) m)"
proof -
  note s = disk0_sector [OF assms(1,2,4)]
  have "ide_read_secs ds DISK0_DEV_NO (blkno * 8) buf (n * 8) m = Some (0, copied buf (block_addr ds blkno) (n * DISK0_BLKSIZE) m)"
    using ide_read_inside [of ds DISK0_DEV_NO "blkno * 8" "n * 8" buf m] assms(1,3) s unfolding bytes_of_sectors by (simp add: disk0_ok_def)
  then show ?thesis using s(1,2) by (simp add: disk0_read_blks_nolock_def Let_def)
qed

text \<open>
  The memory after a transfer of \<open>n\<close> blocks: what \<^verbatim>\<open>disk0_buffer\<close> holds is left open.
\<close>

definition same_outside :: "nat \<Rightarrow> mem \<Rightarrow> mem \<Rightarrow> bool" where
  "same_outside buf m m' \<longleftrightarrow> (\<forall>a. a < buf \<or> buf + DISK0_BUFSIZE \<le> a \<longrightarrow> m a = m' a)"

definition user_ok :: "disks \<Rightarrow> nat \<Rightarrow> nat \<Rightarrow> nat \<Rightarrow> nat \<Rightarrow> bool" where
  "user_ok ds d buf base n \<longleftrightarrow> disjoint buf DISK0_BUFSIZE base (n * DISK0_BLKSIZE) \<and>
     disjoint (block_addr ds 0) (d * DISK0_BLKSIZE) base (n * DISK0_BLKSIZE)"

lemma copied_through:
  assumes "disjoint buf DISK0_BUFSIZE s k" "disjoint buf DISK0_BUFSIZE t k" "k \<le> DISK0_BUFSIZE"
  shows "same_outside buf (copied t buf k (copied buf s k m)) (copied t s k m)"
  using assms by (auto simp: same_outside_def copied_def disjoint_def)

text \<open>Two transfers one after the other, each through the buffer, are one.\<close>

lemma same_outside_step:
  assumes "same_outside buf m1 (copied t s k m)" "same_outside buf m2 (copied (t + k) (s + k) n m1)"
    and "disjoint buf DISK0_BUFSIZE s (k + n)" "disjoint s (k + n) t (k + n)"
  shows "same_outside buf m2 (copied t s (k + n) m)"
  unfolding same_outside_def
proof (intro allI impI)
  fix a assume a: "a < buf \<or> buf + DISK0_BUFSIZE \<le> a"
  have split: "copied (t + k) (s + k) n (copied t s k m) a = copied t s (k + n) m a"
    by (rule fun_cong [OF copied_split]) (use assms(4) in \<open>auto simp: disjoint_def\<close>)
  have "copied (t + k) (s + k) n m1 a = copied (t + k) (s + k) n (copied t s k m) a"
  proof (cases "t + k \<le> a \<and> a < t + k + n")
    case True
    then have "s + k + (a - (t + k)) < buf \<or> buf + DISK0_BUFSIZE \<le> s + k + (a - (t + k))"
      using assms(3) by (auto simp: disjoint_def)
    with assms(1) have "m1 (s + k + (a - (t + k))) = copied t s k m (s + k + (a - (t + k)))"
      unfolding same_outside_def by blast
    with True show ?thesis by (simp add: copied_def [of "t + k"])
  next
    case False
    with assms(1) a show ?thesis by (auto simp: copied_def same_outside_def)
  qed
  with assms(2) a split show "m2 a = copied t s (k + n) m a" unfolding same_outside_def by metis
qed

lemma disk0_loop_ok:
  assumes "disk0_ok ds d buf" "blkno + n \<le> d" "io_resid iob = n * DISK0_BLKSIZE" "user_ok ds d buf (io_base iob) n"
  shows "\<exists>m'. disk0_loop ds buf write (n * DISK0_BLKSIZE) blkno iob m = Some (iobuf_moved (n * DISK0_BLKSIZE) iob, m') \<and>
    same_outside buf m' (if write then copied (block_addr ds blkno) (io_base iob) (n * DISK0_BLKSIZE) m
                         else copied (io_base iob) (block_addr ds blkno) (n * DISK0_BLKSIZE) m)"
  using assms(2-)
proof (induction n arbitrary: blkno iob m rule: less_induct)
  case (less n)
  let ?B = "DISK0_BLKSIZE"
  show ?case
  proof (cases "n = 0")
    case True
    then show ?thesis by (subst disk0_loop.simps) (simp add: same_outside_def)
  next
    case False
    let ?k = "min n 4" let ?kb = "?k * ?B"
    have k: "0 < ?k" "?k \<le> 4" "?k \<le> n" "min DISK0_BUFSIZE (n * ?B) = ?kb" "?kb div ?B = ?k" "?kb mod ?B = 0"
      "?kb \<le> DISK0_BUFSIZE" using False by (auto simp: min_def)
    have kd: "blkno + ?k \<le> d" using less.prems(1) k(3) by linarith
    let ?iob = "iobuf_moved ?kb iob"
    have rest: "n * ?B - ?kb = (n - ?k) * ?B" by (simp add: diff_mult_distrib)
    have w: "w32 (blkno + ?k) = blkno + ?k" using kd disk0_ok_le [OF assms(1)] by simp
    let ?disk = "block_addr ds blkno" let ?base = "io_base iob"
    have ba: "block_addr ds (blkno + ?k) = ?disk + ?kb" by (simp add: block_addr_def algebra_simps)
    have whole: "?kb + (n - ?k) * ?B = n * ?B" using k(3) rest by simp
    have dj: "disjoint buf DISK0_BUFSIZE ?base (n * ?B)" "disjoint buf DISK0_BUFSIZE ?disk (n * ?B)"
        "disjoint ?base (n * ?B) ?disk (n * ?B)"
      using less.prems(1,3) assms(1) mult_le_mono1 [OF less.prems(1), of ?B]
      by (auto simp: user_ok_def disk0_ok_def disjoint_def block_addr_def algebra_simps)
    have djk: "disjoint buf DISK0_BUFSIZE ?base ?kb" "disjoint buf DISK0_BUFSIZE ?disk ?kb"
      using dj(1,2) whole by (auto simp: disjoint_def)
    have IH: "\<exists>m'. disk0_loop ds buf write ((n - ?k) * ?B) (blkno + ?k) ?iob m1 = Some (iobuf_moved (n * ?B) iob, m') \<and>
        same_outside buf m' (if write then copied (?disk + ?kb) (?base + ?kb) ((n - ?k) * ?B) m1
           else copied (?base + ?kb) (?disk + ?kb) ((n - ?k) * ?B) m1)" for m1
    proof -
      have a: "n - ?k < n" "blkno + ?k + (n - ?k) \<le> d" "io_resid ?iob = (n - ?k) * ?B"
        using k(1,3) less.prems(1,2) rest by auto
      have "user_ok ds d buf (io_base ?iob) (n - ?k)"
        using less.prems(3) whole by (auto simp: user_ok_def disjoint_def)
      from less.IH [OF a this] show ?thesis unfolding ba iobuf_moved_moved whole iobuf_moved_fields .
    qed
    show ?thesis
    proof (cases "write")
      case True
      let ?m1 = "copied ?disk buf ?kb (copied buf ?base ?kb m)"
      have mv: "iobuf_move iob buf DISK0_BUFSIZE False m = Some (if DISK0_BUFSIZE \<le> io_resid iob then 0 else - E_NO_MEM,
          ?kb, ?iob, copied buf ?base ?kb m)"
        using iobuf_move_eq [of DISK0_BUFSIZE iob buf False m] less.prems(2) k(1,4) by simp
      have "disk0_loop ds buf write (n * ?B) blkno iob m = disk0_loop ds buf write ((n - ?k) * ?B) (blkno + ?k) ?iob ?m1"
        using False True mv k(1,3,5,6) disk0_write_blks_ok [OF assms(1) kd k(1,2)] rest w
        by (subst disk0_loop.simps) (simp add: Let_def)
      moreover from IH [of ?m1] True obtain m' where m': "disk0_loop ds buf write ((n - ?k) * ?B) (blkno + ?k) ?iob ?m1 =
          Some (iobuf_moved (n * ?B) iob, m')"
        "same_outside buf m' (copied (?disk + ?kb) (?base + ?kb) ((n - ?k) * ?B) ?m1)" by auto
      moreover have "same_outside buf m' (copied ?disk ?base (?kb + (n - ?k) * ?B) m)"
        by (rule same_outside_step [OF copied_through [OF djk(1,2) k(7)] m'(2)]) (use dj in \<open>simp_all only: whole\<close>)
      ultimately show ?thesis using True by (simp only: whole if_True) blast
    next
      case rd: False
      let ?m1 = "copied ?base buf ?kb (copied buf ?disk ?kb m)"
      have al: "(if DISK0_BUFSIZE > n * ?B then n * ?B else DISK0_BUFSIZE) = ?kb" using k(4) by (simp add: min_def split: if_splits)
      have mv: "iobuf_move iob buf ?kb True m' = Some (0, ?kb, ?iob, copied ?base buf ?kb m')" for m'
        using iobuf_move_eq [of ?kb iob buf True m'] less.prems(2) k(1,3) by (simp add: min_def)
      have "disk0_loop ds buf write (n * ?B) blkno iob m = disk0_loop ds buf write ((n - ?k) * ?B) (blkno + ?k) ?iob ?m1"
        using False rd mv k(5,6) disk0_read_blks_ok [OF assms(1) kd k(1,2)] rest w
        by (subst disk0_loop.simps) (simp only: Let_def al if_False, simp)
      moreover from IH [of ?m1] rd obtain m' where m': "disk0_loop ds buf write ((n - ?k) * ?B) (blkno + ?k) ?iob ?m1 =
          Some (iobuf_moved (n * ?B) iob, m')"
        "same_outside buf m' (copied (?base + ?kb) (?disk + ?kb) ((n - ?k) * ?B) ?m1)" by auto
      moreover have "same_outside buf m' (copied ?base ?disk (?kb + (n - ?k) * ?B) m)"
        by (rule same_outside_step [OF copied_through [OF djk(2,1) k(7)] m'(2)])
          (use dj in \<open>simp_all only: whole\<close>, auto simp: disjoint_def)
      ultimately show ?thesis using rd by (simp only: whole if_False) blast
    qed
  qed
qed

lemma disk0_io_ok:
  assumes "disk0_ok ds d buf" "b + n \<le> d" "io_offset iob = int (b * DISK0_BLKSIZE)" "io_resid iob = n * DISK0_BLKSIZE"
    and "user_ok ds d buf (io_base iob) n"
  shows "\<exists>m'. disk0_io ds buf d iob write m = Some (0, iobuf_moved (n * DISK0_BLKSIZE) iob, m') \<and>
    same_outside buf m' (if write then copied (block_addr ds b) (io_base iob) (n * DISK0_BLKSIZE) m
                         else copied (io_base iob) (block_addr ds b) (n * DISK0_BLKSIZE) m)"
proof -
  have le: "b \<le> 2 ^ 25" "n \<le> 2 ^ 25" "b + n \<le> 2 ^ 25" using assms(2) disk0_ok_le [OF assms(1)] by linarith+
  have "int (b * DISK0_BLKSIZE) div int DISK0_BLKSIZE = int b" by (simp flip: zdiv_int)
  then have o: "nat ((io_offset iob div int DISK0_BLKSIZE) mod 2 ^ 32) = b" using le(1) assms(3) by (simp add: nat_mod_distrib)
  have q: "w32 (io_resid iob div DISK0_BLKSIZE) = n" "w32 (b + n) = b + n" using le assms(4) by simp_all
  have al: "io_offset iob mod int DISK0_BLKSIZE = 0" "io_resid iob mod DISK0_BLKSIZE = 0"
    using assms(3,4) by (simp_all flip: zmod_int)
  have eq: "disk0_io ds buf d iob write m = (if n = 0 then Some (0, iob, m)
      else do { (iob, m) \<leftarrow> disk0_loop ds buf write (n * DISK0_BLKSIZE) b iob m; Some (0, iob, m) })"
    using o q al assms(2,4) by (simp add: disk0_io_def Let_def)
  show ?thesis
  proof (cases "n = 0")
    case True
    with eq show ?thesis by (simp add: same_outside_def)
  next
    case False
    from disk0_loop_ok [OF assms(1,2,4,5), of "write" m] False eq show ?thesis by auto
  qed
qed

section \<open>Properties\<close>

text \<open>The blocks of the disk as the file system sees them.\<close>

definition disk_blocks :: "disks \<Rightarrow> mem \<Rightarrow> nat \<Rightarrow> byte list" where
  "disk_blocks ds m b = bytes_at m (block_addr ds b) DISK0_BLKSIZE"

lemma bytes_at_copied_same: "bytes_at (copied d s n m) d n = bytes_at m s n"
  by (simp add: bytes_at_def copied_def)

lemma bytes_at_copied_other:
  "disjoint d n a k \<Longrightarrow> bytes_at (copied d s n m) a k = bytes_at m a k"
  by (auto simp: bytes_at_def copied_def disjoint_def)

lemma bytes_at_same_outside:
  "same_outside buf m m' \<Longrightarrow> disjoint buf DISK0_BUFSIZE a k \<Longrightarrow> bytes_at m a k = bytes_at m' a k"
  by (auto simp: bytes_at_def same_outside_def disjoint_def)


text \<open>A disk of two blocks at address 0, with the buffer and that of the caller behind it.\<close>

definition small_disks :: disks where
  "small_disks = (\<lambda>_. \<lparr>valid = True, dsize = 16, iobase = 0\<rparr>)"


end
