(* ===== verification/Stdin.thy ===== *)
theory Stdin
  imports WaitSem Iobuf
begin

text \<open>
  kern/fs/devs/dev_stdin.c and dev_stdout.c: the keyboard buffer, a ring of 4096
  characters with the processes that wait for input, and the screen. A read that has to
  wait ends in its call of \<^verbatim>\<open>schedule\<close> and goes on in \<^verbatim>\<open>dev_stdin_resume\<close>.
  \<^verbatim>\<open>unread\<close> is the list of characters that have not been read.
\<close>

section \<open>The program\<close>

abbreviation STDIN_BUFSIZE :: nat where "STDIN_BUFSIZE \<equiv> 4096"

record stdin =
  stdin_buffer :: "nat \<Rightarrow> byte"
  p_rpos :: nat
  p_wpos :: nat
  ksyncs :: ksync

text \<open>The argument \<open>q\<close> is the wait queue of the device, \<open>w\<close> the wait entry on the stack of the reader.\<close>

definition dev_stdin_write :: "nat \<Rightarrow> byte \<Rightarrow> stdin \<Rightarrow> stdin option" where
  "dev_stdin_write q c st =
     (if c \<noteq> 0 then
        do { let st = st\<lparr>stdin_buffer := (stdin_buffer st)(p_wpos st mod STDIN_BUFSIZE := c)\<rparr>;
             let st = (if int (p_wpos st) - int (p_rpos st) < int STDIN_BUFSIZE then st\<lparr>p_wpos := p_wpos st + 1\<rparr> else st);
             if \<not> wait_queue_empty q (ksyncs st) then
               do { k \<leftarrow> wakeup_queue q WT_KBD True (ksyncs st); Some (st\<lparr>ksyncs := k\<rparr>) }
             else Some st }
      else Some st)"

text \<open>
  The loop of \<^verbatim>\<open>dev_stdin_read\<close> with \<open>n\<close> characters left to read. The result is the
  return code, or \<^verbatim>\<open>None\<close> when the reader has gone to sleep, with the number of
  characters read so far and the place of the next one.
\<close>

primrec stdin_read_loop ::
    "nat \<Rightarrow> nat \<Rightarrow> nat \<Rightarrow> nat \<Rightarrow> nat \<Rightarrow> stdin \<Rightarrow> mem \<Rightarrow> (int option \<times> nat \<times> nat \<times> stdin \<times> mem) option" where
  "stdin_read_loop 0 q w ret buf st m = Some (Some (int ret), ret, buf, st, m)"
| "stdin_read_loop (Suc n) q w ret buf st m =
     (if p_rpos st < p_wpos st
      then stdin_read_loop n q w (ret + 1) (buf + 1) (st\<lparr>p_rpos := p_rpos st + 1\<rparr>)
             (m(buf := stdin_buffer st (p_rpos st mod STDIN_BUFSIZE)))
      else do { k \<leftarrow> wait_current_set q w WT_KBD (ksyncs st);
                s \<leftarrow> schedule (sch k);
                Some (None, ret, buf, st\<lparr>ksyncs := k\<lparr>sch := s\<rparr>\<rparr>, m) })"

definition dev_stdin_read ::
    "nat \<Rightarrow> nat \<Rightarrow> nat \<Rightarrow> nat \<Rightarrow> stdin \<Rightarrow> mem \<Rightarrow> (int option \<times> nat \<times> nat \<times> stdin \<times> mem) option" where
  "dev_stdin_read q w buf len st m = stdin_read_loop len q w 0 buf st m"

definition dev_stdin_resume ::
    "nat \<Rightarrow> nat \<Rightarrow> nat \<Rightarrow> nat \<Rightarrow> nat \<Rightarrow> stdin \<Rightarrow> mem \<Rightarrow> (int option \<times> nat \<times> nat \<times> stdin \<times> mem) option" where
  "dev_stdin_resume q w len ret buf st m =
     do { k \<leftarrow> wait_current_del q w (ksyncs st);
          let st = st\<lparr>ksyncs := k\<rparr>;
          if wakeup_flags (waits k w) = WT_KBD then stdin_read_loop (len - ret) q w ret buf st m
          else Some (Some (int ret), ret, buf, st, m) }"

text \<open>\<^verbatim>\<open>stdin_io\<close> once the read is over with result \<open>ret\<close>.\<close>

definition stdin_io_end :: "int \<Rightarrow> iobuf \<Rightarrow> int \<times> iobuf" where
  "stdin_io_end ret iob = (ret, if ret > 0 then iob\<lparr>io_resid := w64 (io_resid iob + 2 ^ 64 - nat ret)\<rparr> else iob)"

definition stdin_io ::
    "nat \<Rightarrow> nat \<Rightarrow> iobuf \<Rightarrow> bool \<Rightarrow> stdin \<Rightarrow> mem \<Rightarrow> (int option \<times> iobuf \<times> nat \<times> nat \<times> stdin \<times> mem) option" where
  "stdin_io q w iob write st m =
     (if \<not> write then
        do { (ret, n, buf, st, m) \<leftarrow> dev_stdin_read q w (io_base iob) (io_resid iob) st m;
             Some (case ret of None \<Rightarrow> (None, iob, n, buf, st, m)
                   | Some r \<Rightarrow> let (r, iob) = stdin_io_end r iob in (Some r, iob, n, buf, st, m)) }
      else Some (Some (- E_INVAL), iob, 0, io_base iob, st, m))"

definition stdin_open :: "nat \<Rightarrow> int" where
  "stdin_open open_flags = (if open_flags \<noteq> 0 then - E_INVAL else 0)"

definition stdin_device_init :: "nat \<Rightarrow> stdin \<Rightarrow> stdin" where
  "stdin_device_init q st = st\<lparr>p_rpos := 0, p_wpos := 0, ksyncs := wait_queue_init q (ksyncs st)\<rparr>"

text \<open>The characters given to \<^verbatim>\<open>cputchar\<close> are a list.\<close>

primrec stdout_loop :: "nat \<Rightarrow> nat \<Rightarrow> mem \<Rightarrow> byte list \<Rightarrow> byte list" where
  "stdout_loop 0 data m screen = screen"
| "stdout_loop (Suc n) data m screen = stdout_loop n (data + 1) m (screen @ [m data])"

definition stdout_io :: "iobuf \<Rightarrow> bool \<Rightarrow> mem \<Rightarrow> byte list \<Rightarrow> int \<times> iobuf \<times> byte list" where
  "stdout_io iob write m screen =
     (if write then (0, iob\<lparr>io_resid := 0\<rparr>, stdout_loop (io_resid iob) (io_base iob) m screen)
      else (- E_INVAL, iob, screen))"

definition stdout_open :: "nat \<Rightarrow> int" where
  "stdout_open open_flags = (if open_flags \<noteq> 1 then - E_INVAL else 0)"

section \<open>The ring as a list\<close>

definition stdin_ok :: "stdin \<Rightarrow> bool" where
  "stdin_ok st \<longleftrightarrow> p_rpos st \<le> p_wpos st \<and> p_wpos st \<le> p_rpos st + STDIN_BUFSIZE"

definition unread :: "stdin \<Rightarrow> byte list" where
  "unread st = map (\<lambda>i. stdin_buffer st (i mod STDIN_BUFSIZE)) [p_rpos st..<p_wpos st]"

lemma length_unread [simp]: "length (unread st) = p_wpos st - p_rpos st"
  by (simp add: unread_def)

lemma unread_empty: "unread st = [] \<longleftrightarrow> p_wpos st \<le> p_rpos st"
  by (auto simp: unread_def)

lemma mod_apart: "(a :: nat) < b \<Longrightarrow> b < a + n \<Longrightarrow> a mod n \<noteq> b mod n"
proof
  assume a: "a < b" "b < a + n" and e: "a mod n = b mod n"
  then have "n dvd b - a" by (metis less_imp_le mod_eq_dvd_iff_nat)
  with a show False by (auto dest: dvd_imp_le)
qed

text \<open>What a character does to the ring.\<close>

definition keyed :: "byte \<Rightarrow> byte list \<Rightarrow> byte list" where
  "keyed c cs = (if length cs < STDIN_BUFSIZE then cs @ [c] else c # tl cs)"

lemma unread_write:
  assumes "stdin_ok st"
  shows "unread (st\<lparr>stdin_buffer := (stdin_buffer st)(p_wpos st mod STDIN_BUFSIZE := c),
      p_wpos := if p_wpos st < p_rpos st + STDIN_BUFSIZE then p_wpos st + 1 else p_wpos st\<rparr>) = keyed c (unread st)"
proof -
  let ?r = "p_rpos st" let ?w = "p_wpos st" let ?b = "stdin_buffer st"
  have le: "?r \<le> ?w" "?w \<le> ?r + STDIN_BUFSIZE" using assms by (simp_all add: stdin_ok_def)
  let ?f = "\<lambda>i. (?b(?w mod STDIN_BUFSIZE := c)) (i mod STDIN_BUFSIZE)"
  have old: "?f i = ?b (i mod STDIN_BUFSIZE)" if "i < ?w" "?w < i + STDIN_BUFSIZE" for i
    using mod_apart [OF that] by simp
  show ?thesis
  proof (cases "?w < ?r + STDIN_BUFSIZE")
    case True
    have "map ?f [?r..<?w] = map (\<lambda>i. ?b (i mod STDIN_BUFSIZE)) [?r..<?w]"
      by (rule map_cong [OF refl]) (use old True in auto)
    with True le show ?thesis by (auto simp: unread_def keyed_def)
  next
    case False
    then have w: "?w = ?r + STDIN_BUFSIZE" using le by simp
    have lt: "?r < ?w" using w by linarith
    have len: "\<not> ?w - ?r < STDIN_BUFSIZE" using w by linarith
    have up: "[?r..<?w] = ?r # [?r + 1..<?w]" using upt_conv_Cons [OF lt] by simp
    have "?w < i + STDIN_BUFSIZE" if "?r + 1 \<le> i" for i using w that by linarith
    then have tl: "map ?f [?r + 1..<?w] = map (\<lambda>i. ?b (i mod STDIN_BUFSIZE)) [?r + 1..<?w]"
      by (intro map_cong [OF refl] old) simp_all
    have hd: "?f ?r = c" using w by (metis fun_upd_same mod_add_self2)
    have "unread (st\<lparr>stdin_buffer := ?b(?w mod STDIN_BUFSIZE := c), p_wpos := if ?w < ?r + STDIN_BUFSIZE then ?w + 1 else ?w\<rparr>) =
        map ?f [?r..<?w]"
      unfolding if_not_P [OF False] by (simp add: unread_def)
    also have "\<dots> = c # map (\<lambda>i. ?b (i mod STDIN_BUFSIZE)) [?r + 1..<?w]"
      unfolding up list.map tl hd ..
    also have "\<dots> = keyed c (unread st)"
      unfolding keyed_def length_unread if_not_P [OF len] by (simp add: unread_def up)
    finally show ?thesis .
  qed
qed

lemma stdin_read_step:
  assumes "p_rpos st < p_wpos st"
  shows "unread st = stdin_buffer st (p_rpos st mod STDIN_BUFSIZE) # unread (st\<lparr>p_rpos := p_rpos st + 1\<rparr>)"
  using assms by (simp add: unread_def upt_conv_Cons)

text \<open>A read takes characters from the front and stores them one after the other.\<close>

definition stored_at :: "nat \<Rightarrow> byte list \<Rightarrow> mem \<Rightarrow> mem" where
  "stored_at buf cs m = (\<lambda>a. if buf \<le> a \<and> a < buf + length cs then cs ! (a - buf) else m a)"

lemma stored_at_Nil [simp]: "stored_at buf [] m = m"
  by (auto simp: stored_at_def fun_eq_iff)

lemma stored_at_Cons: "stored_at (buf + 1) cs (m(buf := c)) = stored_at buf (c # cs) m"
proof
  fix a
  consider "a < buf" | "a = buf" | k where "a = Suc (buf + k)"
    by (metis less_imp_Suc_add linorder_neqE_nat)
  then show "stored_at (buf + 1) cs (m(buf := c)) a = stored_at buf (c # cs) m a"
    by cases (simp_all add: stored_at_def)
qed

definition taken :: "nat \<Rightarrow> stdin \<Rightarrow> stdin" where
  "taken n st = st\<lparr>p_rpos := p_rpos st + n\<rparr>"

lemma stdin_read_loop_eq:
  "stdin_read_loop n q w ret buf st m =
    (let cs = take n (unread st); k = length cs; st1 = taken k st; m1 = stored_at buf cs m
     in if k = n then Some (Some (int (ret + n)), ret + n, buf + n, st1, m1)
        else do { s \<leftarrow> wait_current_set q w WT_KBD (ksyncs st);
                  s' \<leftarrow> schedule (sch s);
                  Some (None, ret + k, buf + k, st1\<lparr>ksyncs := s\<lparr>sch := s'\<rparr>\<rparr>, m1) })"
proof (induction n arbitrary: ret buf st m)
  case 0
  then show ?case by (simp add: Let_def taken_def)
next
  case (Suc n)
  show ?case
  proof (cases "p_rpos st < p_wpos st")
    case True
    note u = stdin_read_step [OF True]
    have t: "taken k (st\<lparr>p_rpos := p_rpos st + 1\<rparr>) = taken (Suc k) st" for k by (simp add: taken_def)
    show ?thesis using True Suc [of "ret + 1" "buf + 1" "st\<lparr>p_rpos := p_rpos st + 1\<rparr>"]
      unfolding u Let_def by (simp add: t t [simplified] stored_at_Cons stored_at_Cons [simplified])
  next
    case False
    then have "unread st = []" by (simp add: unread_empty)
    with False show ?thesis by (simp add: Let_def taken_def)
  qed
qed

section \<open>Waking the readers\<close>

lemma wakeup_wait_ok:
  assumes w: "wqs st Q" "Q q = w # ws" and p: "wproc (waits st w) = Some p" "pstate (procs (sch st) p) \<noteq> PROC_ZOMBIE"
    and inv: "queue_inv (sch st)" "card (waiting_runnable (sch st)) < 2 ^ 31"
  shows "\<exists>st'. wakeup_wait q w fl True st = Some st' \<and> wqs st' (Q(q := ws)) \<and> queue_inv (sch st') \<and>
    pstate (procs (sch st') p) = PROC_RUNNABLE \<and> wakeup_flags (waits st' w) = fl \<and>
    (\<forall>x. wproc (waits st' x) = wproc (waits st x)) \<and> (\<forall>x. x \<noteq> w \<longrightarrow> waits st' x = waits st x) \<and>
    (\<forall>x. x \<noteq> p \<longrightarrow> pstate (procs (sch st') x) = pstate (procs (sch st) x))"
proof -
  obtain st1 where d: "wait_queue_del q w st = Some st1" "wqs st1 (Q(q := ws))" "sch st1 = sch st" "waits st1 = waits st"
    using wait_queue_del_eq [OF w(1), of q "[]" w ws] w(2) by auto
  from wakeup_proc_inv [OF inv(1) p(2) inv(2)] obtain s' where
    k: "wakeup_proc p (sch st) = Some s'" "queue_inv s'" "pstate (procs s' p) = PROC_RUNNABLE"
      "\<forall>x. x \<noteq> p \<longrightarrow> pstate (procs s' x) = pstate (procs (sch st) x)" by blast
  let ?st = "(upd_wait w (\<lambda>x. x\<lparr>wakeup_flags := fl\<rparr>) st1)\<lparr>sch := s'\<rparr>"
  have "wakeup_wait q w fl True st = Some ?st" using p d k by (simp add: wakeup_wait_def upd_wait_def)
  moreover have "wqs ?st (Q(q := ws))"
    by (rule wqs_frame [OF d(2)]) (simp_all add: upd_wait_def)
  ultimately show ?thesis using k d by (simp add: upd_wait_def)
qed

text \<open>
  The processes of the waiting entries can be woken, and there are few enough of them for
  the counter of the ready queue.
\<close>

definition wakeable :: "ksync \<Rightarrow> nat list \<Rightarrow> bool" where
  "wakeable st ws \<longleftrightarrow> (\<exists>N. finite N \<and> card N < 2 ^ 31 \<and> {p. pstate (procs (sch st) p) = PROC_RUNNABLE} \<subseteq> N \<and>
     (\<forall>w \<in> set ws. \<exists>p. wproc (waits st w) = Some p \<and> p \<in> N \<and> pstate (procs (sch st) p) \<noteq> PROC_ZOMBIE))"

lemma wakeable_card:
  assumes "wakeable st ws"
  shows "card (waiting_runnable (sch st)) < 2 ^ 31"
proof -
  from assms obtain N where N: "finite N" "card N < 2 ^ 31" "{p. pstate (procs (sch st) p) = PROC_RUNNABLE} \<subseteq> N"
    by (auto simp: wakeable_def)
  have "waiting_runnable (sch st) \<subseteq> N" using N(3) by (auto simp: waiting_runnable_def)
  from le_less_trans [OF card_mono [OF N(1) this] N(2)] show ?thesis .
qed

definition all_woken :: "ksync \<Rightarrow> ksync \<Rightarrow> nat list \<Rightarrow> 32 word \<Rightarrow> bool" where
  "all_woken st st' ws fl \<longleftrightarrow> (\<forall>w \<in> set ws. wakeup_flags (waits st' w) = fl \<and>
     (\<exists>p. wproc (waits st' w) = Some p \<and> pstate (procs (sch st') p) = PROC_RUNNABLE))"

lemma wakeup_del_loop_ok:
  assumes "wqs st Q" "Q q = w # ws" "queue_inv (sch st)" "wakeable st (w # ws)"
  shows "\<exists>st'. wakeup_del_loop q w fl st = Some st' \<and> wqs st' (Q(q := [])) \<and> queue_inv (sch st') \<and>
    all_woken st st' (w # ws) fl \<and> (\<forall>x. wproc (waits st' x) = wproc (waits st x)) \<and>
    (\<forall>x. x \<notin> set (w # ws) \<longrightarrow> waits st' x = waits st x) \<and>
    (\<forall>p. pstate (procs (sch st) p) = PROC_RUNNABLE \<longrightarrow> pstate (procs (sch st') p) = PROC_RUNNABLE)"
  using assms
proof (induction ws arbitrary: w st Q)
  case Nil
  from Nil.prems(4) obtain p where p: "wproc (waits st w) = Some p" "pstate (procs (sch st) p) \<noteq> PROC_ZOMBIE"
    by (auto simp: wakeable_def)
  from wakeup_wait_ok [OF Nil.prems(1,2) p Nil.prems(3) wakeable_card [OF Nil.prems(4)], of fl] obtain st1 where
    s: "wakeup_wait q w fl True st = Some st1" "wqs st1 (Q(q := []))" "queue_inv (sch st1)"
      "pstate (procs (sch st1) p) = PROC_RUNNABLE" "wakeup_flags (waits st1 w) = fl"
      "\<forall>x. wproc (waits st1 x) = wproc (waits st x)" "\<forall>x. x \<noteq> w \<longrightarrow> waits st1 x = waits st x"
      "\<forall>x. x \<noteq> p \<longrightarrow> pstate (procs (sch st1) x) = pstate (procs (sch st) x)" by blast
  have "wakeup_del_loop q w fl st = Some st1"
    using s(1) wait_queue_first_eq [OF s(2), of q] by (subst wakeup_del_loop.simps) simp
  moreover have "pstate (procs (sch st1) x) = PROC_RUNNABLE" if "pstate (procs (sch st) x) = PROC_RUNNABLE" for x
    using s(4,8) that by (cases "x = p") auto
  ultimately show ?case using s p by (intro exI [of _ st1]) (auto simp: all_woken_def simp del: fun_upd_apply)
next
  case (Cons v ws)
  from Cons.prems(4) obtain p N where p: "wproc (waits st w) = Some p" "pstate (procs (sch st) p) \<noteq> PROC_ZOMBIE"
    and N: "finite N" "card N < 2 ^ 31" "{p. pstate (procs (sch st) p) = PROC_RUNNABLE} \<subseteq> N" "p \<in> N"
      "\<forall>w \<in> set (v # ws). \<exists>p. wproc (waits st w) = Some p \<and> p \<in> N \<and> pstate (procs (sch st) p) \<noteq> PROC_ZOMBIE"
    by (fastforce simp: wakeable_def)
  from wakeup_wait_ok [OF Cons.prems(1,2) p Cons.prems(3) wakeable_card [OF Cons.prems(4)], of fl] obtain st1 where
    s: "wakeup_wait q w fl True st = Some st1" "wqs st1 (Q(q := v # ws))" "queue_inv (sch st1)"
      "pstate (procs (sch st1) p) = PROC_RUNNABLE" "wakeup_flags (waits st1 w) = fl"
      "\<forall>x. wproc (waits st1 x) = wproc (waits st x)" "\<forall>x. x \<noteq> w \<longrightarrow> waits st1 x = waits st x"
      "\<forall>x. x \<noteq> p \<longrightarrow> pstate (procs (sch st1) x) = pstate (procs (sch st) x)" by blast
  have zomb: "pstate (procs (sch st1) x) \<noteq> PROC_ZOMBIE" if "pstate (procs (sch st) x) \<noteq> PROC_ZOMBIE" for x
    using s(4,8) that by (cases "x = p") auto
  have run: "pstate (procs (sch st1) x) = PROC_RUNNABLE" if "pstate (procs (sch st) x) = PROC_RUNNABLE" for x
    using s(4,8) that by (cases "x = p") auto
  have "{x. pstate (procs (sch st1) x) = PROC_RUNNABLE} \<subseteq> N"
    using N(3,4) s(8) by fastforce
  moreover have "\<forall>w \<in> set (v # ws). \<exists>p. wproc (waits st1 w) = Some p \<and> p \<in> N \<and> pstate (procs (sch st1) p) \<noteq> PROC_ZOMBIE"
    using N(5) s(6) zomb by metis
  ultimately have wk: "wakeable st1 (v # ws)" using N(1,2) by (auto simp: wakeable_def)
  have Q1: "(Q(q := v # ws)) q = v # ws" by simp
  from Cons.IH [OF s(2) Q1 s(3) wk] obtain st' where
    r: "wakeup_del_loop q v fl st1 = Some st'" "wqs st' ((Q(q := v # ws))(q := []))" "queue_inv (sch st')"
      "all_woken st1 st' (v # ws) fl" "\<forall>x. wproc (waits st' x) = wproc (waits st1 x)"
      "\<forall>x. x \<notin> set (v # ws) \<longrightarrow> waits st' x = waits st1 x"
      "\<forall>p. pstate (procs (sch st1) p) = PROC_RUNNABLE \<longrightarrow> pstate (procs (sch st') p) = PROC_RUNNABLE" by blast
  have "wakeup_del_loop q w fl st = wakeup_del_loop q v fl st1"
    using s(1) wait_queue_first_eq [OF s(2), of q] by (subst wakeup_del_loop.simps) simp
  moreover have "w \<notin> set (v # ws)" using wqsD(2) [OF Cons.prems(1), of q] Cons.prems(2) by simp
  ultimately show ?case using r s p run by (intro exI [of _ st']) (auto simp: all_woken_def simp del: fun_upd_apply)
qed

lemma wakeup_queue_ok:
  assumes "wqs st Q" "queue_inv (sch st)" "wakeable st (Q q)"
  shows "\<exists>st'. wakeup_queue q fl True st = Some st' \<and> wqs st' (Q(q := [])) \<and> queue_inv (sch st') \<and> all_woken st st' (Q q) fl"
proof (cases "Q q")
  case Nil
  then have "wqs st (Q(q := []))" using assms(1) by (metis fun_upd_triv)
  with Nil assms show ?thesis
    using wait_queue_first_eq [OF assms(1), of q] by (simp add: wakeup_queue_def all_woken_def)
next
  case (Cons w ws)
  have wk: "wakeable st (w # ws)" using assms(3) Cons by simp
  have "wakeup_queue q fl True st = wakeup_del_loop q w fl st"
    using wait_queue_first_eq [OF assms(1), of q] Cons by (simp add: wakeup_queue_def)
  with wakeup_del_loop_ok [OF assms(1) Cons assms(2) wk, of fl] show ?thesis
    unfolding Cons by auto
qed

section \<open>Going to sleep\<close>

lemma wait_current_ok:
  assumes "wqs st Q" "queue_inv (sch st)" "card (waiting_runnable (sch st)) < 2 ^ 31"
    and "current (sch st) = Some c" "\<forall>q. w \<notin> set (Q q)"
  shows "\<exists>k s. wait_current_set q w ws st = Some k \<and> schedule (sch k) = Some s \<and>
    wqs (k\<lparr>sch := s\<rparr>) (Q(q := Q q @ [w])) \<and> queue_inv s \<and> waits_with (k\<lparr>sch := s\<rparr>) w ws \<and> wproc (waits k w) = Some c"
proof -
  let ?z = "\<lambda>st :: ksync. st\<lparr>semval := \<lambda>_. 0\<rparr>"
  let ?A = "\<lambda>q. (0 :: int, Q q)"
  have z: "wqs (?z st) Q' \<longleftrightarrow> wqs st Q'" "waits_with (?z st) w ws \<longleftrightarrow> waits_with st w ws" for st Q'
    by (simp_all add: wqs_def waits_with_def)
  have "sems (?z st) ?A" using assms(1) by (simp add: sems_def z)
  from down_refines [OF this, of c w q ws] assms obtain st' where
    d: "down_begin q w ws (?z st) = Some (None, st')" "sems st' (?A(q := a_down w (0, Q q)))" "queue_inv (sch st')"
      "waits_with st' w ws" "wproc (waits st' w) = Some c"
    by auto
  have set0: "wait_current_set q w ws (?z st) = map_option ?z (wait_current_set q w ws st)"
    using assms(4) by (simp add: wait_current_set_def wait_queue_add_def Let_def wait_init_def upd_wait_def)
  from d(1) set0 obtain k s where k: "wait_current_set q w ws st = Some k" "schedule (sch k) = Some s"
    "st' = ?z (k\<lparr>sch := s\<rparr>)"
    by (auto simp: down_begin_def bind_Some_iff)
  have "(\<lambda>x. snd ((?A(q := a_down w (0, Q q))) x)) = Q(q := Q q @ [w])"
    by (auto simp: a_down_def)
  with d(2) have "wqs st' (Q(q := Q q @ [w]))" by (simp add: sems_def)
  with d(3-5) k z show ?thesis by (auto simp del: fun_upd_apply)
qed

section \<open>Properties\<close>

text \<open>C36: the keyboard buffer. A character that is not 0 is appended to the unread
  characters and wakes every process that waits for input; when 4096 characters are unread
  it takes the place of the oldest one, so that it is read before all characters that came
  before it. A read takes characters from the front in order; when there are not enough it
  takes all of them and the process goes to sleep in the wait queue.\<close>
theorem keyboard_buffer:
  assumes "stdin_ok st" "wqs (ksyncs st) Q" "queue_inv (sch (ksyncs st))" "wakeable (ksyncs st) (Q q)" "c \<noteq> 0"
  shows "(\<exists>st'. dev_stdin_write q c st = Some st' \<and> stdin_ok st' \<and>
      unread st' = (if length (unread st) < STDIN_BUFSIZE then unread st @ [c] else c # tl (unread st)) \<and>
      wqs (ksyncs st') (Q(q := [])) \<and> queue_inv (sch (ksyncs st')) \<and> all_woken (ksyncs st) (ksyncs st') (Q q) WT_KBD) \<and>
    (len \<le> length (unread st) \<longrightarrow>
      dev_stdin_read q w buf len st m =
        Some (Some (int len), len, buf + len, taken len st, stored_at buf (take len (unread st)) m) \<and>
      stdin_ok (taken len st) \<and> unread (taken len st) = drop len (unread st)) \<and>
    (length (unread st) < len \<and> current (sch (ksyncs st)) = Some p \<and> (\<forall>q. w \<notin> set (Q q)) \<longrightarrow>
      (\<exists>st'. dev_stdin_read q w buf len st m =
          Some (None, length (unread st), buf + length (unread st), st', stored_at buf (unread st) m) \<and>
        stdin_ok st' \<and> unread st' = [] \<and> wqs (ksyncs st') (Q(q := Q q @ [w])) \<and> queue_inv (sch (ksyncs st')) \<and>
        waits_with (ksyncs st') w WT_KBD \<and> wproc (waits (ksyncs st') w) = Some p))"
proof (intro conjI impI)
  let ?st = "st\<lparr>stdin_buffer := (stdin_buffer st)(p_wpos st mod STDIN_BUFSIZE := c),
      p_wpos := if p_wpos st < p_rpos st + STDIN_BUFSIZE then p_wpos st + 1 else p_wpos st\<rparr>"
  have lt: "int (p_wpos st) - int (p_rpos st) < int STDIN_BUFSIZE \<longleftrightarrow> p_wpos st < p_rpos st + STDIN_BUFSIZE" by linarith
  have wr: "dev_stdin_write q c st = (if Q q \<noteq> [] then
      do { k \<leftarrow> wakeup_queue q WT_KBD True (ksyncs st); Some (?st\<lparr>ksyncs := k\<rparr>) } else Some ?st)"
    using assms(5) wait_queue_empty_eq [OF assms(2), of q] unfolding dev_stdin_write_def Let_def lt by simp
  from wakeup_queue_ok [OF assms(2-4), of WT_KBD] obtain k where
    k: "wakeup_queue q WT_KBD True (ksyncs st) = Some k" "wqs k (Q(q := []))" "queue_inv (sch k)"
      "all_woken (ksyncs st) k (Q q) WT_KBD" by blast
  have u: "unread (?st\<lparr>ksyncs := k\<rparr>) = unread ?st" for k by (simp add: unread_def)
  have kd: "unread ?st = (if length (unread st) < STDIN_BUFSIZE then unread st @ [c] else c # tl (unread st))"
    unfolding unread_write [OF assms(1)] keyed_def ..
  have ok: "stdin_ok ?st" using assms(1) by (auto simp: stdin_ok_def)
  show "\<exists>st'. dev_stdin_write q c st = Some st' \<and> stdin_ok st' \<and>
      unread st' = (if length (unread st) < STDIN_BUFSIZE then unread st @ [c] else c # tl (unread st)) \<and>
      wqs (ksyncs st') (Q(q := [])) \<and> queue_inv (sch (ksyncs st')) \<and> all_woken (ksyncs st) (ksyncs st') (Q q) WT_KBD"
  proof (cases "Q q = []")
    case True
    then have "wqs (ksyncs st) (Q(q := []))" using assms(2) by (metis fun_upd_triv)
    with wr True ok kd assms(3) show ?thesis by (intro exI [of _ ?st]) (simp add: all_woken_def del: fun_upd_apply)
  next
    case False
    have "stdin_ok (?st\<lparr>ksyncs := k\<rparr>)" using ok by (simp add: stdin_ok_def)
    with wr False k kd u [of k] show ?thesis
      by (intro exI [of _ "?st\<lparr>ksyncs := k\<rparr>"]) (simp del: fun_upd_apply)
  qed
next
  assume l: "len \<le> length (unread st)"
  then show "dev_stdin_read q w buf len st m =
      Some (Some (int len), len, buf + len, taken len st, stored_at buf (take len (unread st)) m)"
    by (simp add: dev_stdin_read_def stdin_read_loop_eq Let_def)
  show "stdin_ok (taken len st)" using l assms(1) by (auto simp: stdin_ok_def taken_def)
  show "unread (taken len st) = drop len (unread st)"
    by (simp add: unread_def taken_def drop_map)
next
  assume l: "length (unread st) < len \<and> current (sch (ksyncs st)) = Some p \<and> (\<forall>q. w \<notin> set (Q q))"
  from wait_current_ok [OF assms(2,3) wakeable_card [OF assms(4)], of p w q WT_KBD] l obtain k s where
    k: "wait_current_set q w WT_KBD (ksyncs st) = Some k" "schedule (sch k) = Some s"
      "wqs (k\<lparr>sch := s\<rparr>) (Q(q := Q q @ [w]))" "queue_inv s" "waits_with (k\<lparr>sch := s\<rparr>) w WT_KBD" "wproc (waits k w) = Some p"
    by blast
  let ?n = "length (unread st)"
  let ?st = "(taken ?n st)\<lparr>ksyncs := k\<lparr>sch := s\<rparr>\<rparr>"
  have "take len (unread st) = unread st" using l by simp
  then have "dev_stdin_read q w buf len st m = Some (None, ?n, buf + ?n, ?st, stored_at buf (unread st) m)"
    using l k(1,2) by (simp add: dev_stdin_read_def stdin_read_loop_eq Let_def)
  moreover have "stdin_ok ?st" "unread ?st = []"
    using assms(1) by (auto simp: stdin_ok_def taken_def unread_empty)
  ultimately show "\<exists>st'. dev_stdin_read q w buf len st m = Some (None, ?n, buf + ?n, st', stored_at buf (unread st) m) \<and>
        stdin_ok st' \<and> unread st' = [] \<and> wqs (ksyncs st') (Q(q := Q q @ [w])) \<and> queue_inv (sch (ksyncs st')) \<and>
        waits_with (ksyncs st') w WT_KBD \<and> wproc (waits (ksyncs st') w) = Some p"
    using k(3-6) by (intro exI [of _ ?st]) (simp del: fun_upd_apply)
qed

text \<open>One unread character, one process that asks for two.\<close>

definition one_key :: stdin where
  "one_key = \<lparr>stdin_buffer = (\<lambda>_. 120), p_rpos = 5, p_wpos = 6, ksyncs = no_waiters\<rparr>"

theorem keyboard_buffer_witness:
  "(\<exists>st'. dev_stdin_write 9 121 one_key = Some st' \<and> unread st' = [120, 121]) \<and>
   (\<exists>st'. dev_stdin_read 9 8 100 2 one_key (\<lambda>_. 0) = Some (None, 1, 101, st', stored_at 100 [120] (\<lambda>_. 0)) \<and>
     waits_with (ksyncs st') 8 WT_KBD)"
proof -
  have w: "wqs (ksyncs one_key) (\<lambda>_. [])"
    by (simp add: one_key_def wqs_def no_waiters_def ring_def)
  have q: "queue_inv (sch (ksyncs one_key))" "current (sch (ksyncs one_key)) = Some 0"
    using two_ready_inv by (simp_all add: one_key_def no_waiters_def two_ready_def)
  have "{p. pstate (procs two_ready p) = PROC_RUNNABLE} \<subseteq> {0, 1, 2}"
    by (auto simp: two_ready_def ready_proc_def)
  then have wk: "wakeable (ksyncs one_key) []"
    unfolding wakeable_def by (intro exI [of _ "{0, 1, 2}"]) (simp add: one_key_def no_waiters_def)
  have u: "unread one_key = [120]" by (simp add: unread_def one_key_def)
  have ok: "stdin_ok one_key" by (simp add: stdin_ok_def one_key_def)
  show ?thesis
    using keyboard_buffer [OF ok w q(1) wk, of 121 9 2 8 100 "\<lambda>_. 0" 0] u q(2) by auto
qed

end
