(* ===== verification/Kmalloc.thy ===== *)
theory Kmalloc
  imports Prelude
begin

text \<open>
  kern/mm/kmalloc.c: the SLOB allocator. A pointer is the number of a unit of 16 bytes, the
  size of \<^verbatim>\<open>slob_t\<close>, so that pointer arithmetic is addition. The answers of
  \<^verbatim>\<open>alloc_pages\<close> are a list in the state, which answers NULL when it is used up, and
  what \<^verbatim>\<open>free_pages\<close> gets is recorded. The fields of \<^verbatim>\<open>slob_t\<close> and
  \<^verbatim>\<open>bigblock_t\<close> are stores of their own: a unit never holds both at a time.
\<close>

section \<open>The program\<close>

abbreviation SLOB_UNIT :: nat where "SLOB_UNIT \<equiv> 16"
abbreviation sizeof_bigblock :: nat where "sizeof_bigblock \<equiv> 24"
abbreviation page_units :: nat where "page_units \<equiv> 256"

record slob =
  s_units :: "nat \<Rightarrow> nat"
  s_next :: "nat \<Rightarrow> nat"
  arena :: nat
  slobfree :: nat
  bigblocks :: "nat option"
  bb_order :: "nat \<Rightarrow> nat"
  bb_pages :: "nat \<Rightarrow> nat option"
  bb_next :: "nat \<Rightarrow> nat option"
  page_answers :: "nat option list"
  freed_pages :: "(nat \<times> nat) list"

definition SLOB_UNITS :: "nat \<Rightarrow> nat" where
  "SLOB_UNITS sz = (w64 (sz + SLOB_UNIT - 1)) div SLOB_UNIT"

definition set_units :: "nat \<Rightarrow> nat \<Rightarrow> slob \<Rightarrow> slob" where
  "set_units b n st = st\<lparr>s_units := (s_units st)(b := n)\<rparr>"

definition set_next :: "nat \<Rightarrow> nat \<Rightarrow> slob \<Rightarrow> slob" where
  "set_next b n st = st\<lparr>s_next := (s_next st)(b := n)\<rparr>"

text \<open>\<^verbatim>\<open>1 << order\<close> pages; the order is kept for the record of what was asked.\<close>

definition slob_get_free_pages :: "nat \<Rightarrow> slob \<Rightarrow> nat option \<times> slob" where
  "slob_get_free_pages order st =
     (case page_answers st of [] \<Rightarrow> (None, st) | a # as \<Rightarrow> (a, st\<lparr>page_answers := as\<rparr>))"

definition slob_free_pages :: "nat \<Rightarrow> nat \<Rightarrow> slob \<Rightarrow> slob" where
  "slob_free_pages kva order st = st\<lparr>freed_pages := (kva, order) # freed_pages st\<rparr>"

text \<open>The loop that finds the place for block \<open>b\<close>.\<close>

partial_function (option) slob_find :: "nat \<Rightarrow> nat \<Rightarrow> slob \<Rightarrow> nat option" where
  "slob_find b cur st =
     (if b > cur \<and> b < s_next st cur then Some cur
      else if cur \<ge> s_next st cur \<and> (b > cur \<or> b < s_next st cur) then Some cur
      else slob_find b (s_next st cur) st)"

definition slob_free :: "nat option \<Rightarrow> nat \<Rightarrow> slob \<Rightarrow> slob option" where
  "slob_free block sz st =
     (case block of
        None \<Rightarrow> Some st
      | Some b \<Rightarrow>
         do { let st = (if sz \<noteq> 0 then set_units b (SLOB_UNITS sz) st else st);
              cur \<leftarrow> slob_find b (slobfree st) st;
              let st = (if b + s_units st b = s_next st cur
                        then (let st = set_units b (s_units st b + s_units st (s_next st cur)) st
                              in set_next b (s_next st (s_next st cur)) st)
                        else set_next b (s_next st cur) st);
              let st = (if cur + s_units st cur = b
                        then (let st = set_units cur (s_units st cur + s_units st b) st
                              in set_next cur (s_next st b) st)
                        else set_next cur b st);
              Some (st\<lparr>slobfree := cur\<rparr>) })"

definition slob_align :: "nat \<Rightarrow> nat \<Rightarrow> nat" where
  "slob_align cur align = (cur * SLOB_UNIT + align - 1) div align * align div SLOB_UNIT"

text \<open>Taking \<open>n\<close> units of the block \<open>cur\<close>, which is large enough, with \<open>delta\<close> units left before.\<close>

definition slob_take :: "nat \<Rightarrow> nat \<Rightarrow> nat \<Rightarrow> nat \<Rightarrow> slob \<Rightarrow> nat \<times> slob" where
  "slob_take n delta prev cur st =
     (let (prev, cur, st) =
        (if delta \<noteq> 0 then
           (let aligned = cur + delta;
                st = set_units aligned (s_units st cur - delta) st;
                st = set_next aligned (s_next st cur) st;
                st = set_next cur aligned st;
                st = set_units cur delta st
            in (cur, aligned, st))
         else (prev, cur, st));
        st = (if s_units st cur = n then set_next prev (s_next st cur) st
              else (let st = set_next prev (cur + n) st;
                        st = set_units (s_next st prev) (s_units st cur - n) st;
                        st = set_next (s_next st prev) (s_next st cur) st
                    in set_units cur n st))
      in (cur, st\<lparr>slobfree := prev\<rparr>))"

partial_function (option) slob_alloc_loop ::
    "nat \<Rightarrow> nat \<Rightarrow> nat \<Rightarrow> nat \<Rightarrow> nat \<Rightarrow> slob \<Rightarrow> (nat option \<times> slob) option" where
  "slob_alloc_loop sz n align prev cur st =
     (let delta = (if align \<noteq> 0 then slob_align cur align - cur else 0)
      in if s_units st cur \<ge> n + delta then
           (let (p, st) = slob_take n delta prev cur st in Some (Some p, st))
         else if cur = slobfree st then
           (if sz = PGSIZE then Some (None, st)
            else (case slob_get_free_pages 0 st of
                    (None, st) \<Rightarrow> Some (None, st)
                  | (Some p, st) \<Rightarrow>
                      do { st \<leftarrow> slob_free (Some p) PGSIZE st;
                           slob_alloc_loop sz n align (slobfree st) (s_next st (slobfree st)) st }))
         else slob_alloc_loop sz n align cur (s_next st cur) st)"

definition slob_alloc :: "nat \<Rightarrow> nat \<Rightarrow> slob \<Rightarrow> (nat option \<times> slob) option" where
  "slob_alloc sz align st =
     do { kassert (w64 (sz + SLOB_UNIT) < PGSIZE);
          slob_alloc_loop sz (SLOB_UNITS sz) align (slobfree st) (s_next st (slobfree st)) st }"

fun find_order :: "nat \<Rightarrow> nat" where
  "find_order sz = (if sz > 4096 then find_order (sz div 2) + 1 else 0)"

declare find_order.simps [simp del]

definition kmalloc :: "nat \<Rightarrow> slob \<Rightarrow> (nat option \<times> slob) option" where
  "kmalloc sz st =
     (if sz < PGSIZE - SLOB_UNIT then
        do { (m, st) \<leftarrow> slob_alloc (sz + SLOB_UNIT) 0 st;
             Some (map_option (\<lambda>m. m + 1) m, st) }
      else
        do { (bb, st) \<leftarrow> slob_alloc sizeof_bigblock 0 st;
             case bb of
               None \<Rightarrow> Some (None, st)
             | Some b \<Rightarrow>
                 (let st = st\<lparr>bb_order := (bb_order st)(b := find_order sz)\<rparr>;
                      (pages, st) = slob_get_free_pages (bb_order st b) st;
                      st = st\<lparr>bb_pages := (bb_pages st)(b := pages)\<rparr>
                  in if pages \<noteq> None then
                       (let st = st\<lparr>bb_next := (bb_next st)(b := bigblocks st)\<rparr>
                        in Some (pages, st\<lparr>bigblocks := Some b\<rparr>))
                     else do { st \<leftarrow> slob_free (Some b) sizeof_bigblock st; Some (None, st) }) })"

text \<open>
  The list of big blocks from \<open>bb\<close> on; \<open>prev\<close> is the record whose \<^verbatim>\<open>next\<close> field
  \<^verbatim>\<open>last\<close> points to, or \<^verbatim>\<open>None\<close> for the variable \<^verbatim>\<open>bigblocks\<close>.
\<close>

partial_function (option) bigblock_find ::
    "nat \<Rightarrow> nat option \<Rightarrow> nat option \<Rightarrow> slob \<Rightarrow> (nat option \<times> nat) option option" where
  "bigblock_find block prev bb st =
     (case bb of
        None \<Rightarrow> Some None
      | Some b \<Rightarrow> if bb_pages st b = Some block then Some (Some (prev, b))
          else bigblock_find block (Some b) (bb_next st b) st)"

definition kfree :: "nat option \<Rightarrow> slob \<Rightarrow> slob option" where
  "kfree block st =
     (case block of
        None \<Rightarrow> Some st
      | Some p \<Rightarrow>
         do { found \<leftarrow> (if p mod page_units = 0 then bigblock_find p None (bigblocks st) st else Some None);
              case found of
                Some (prev, b) \<Rightarrow>
                  (let st = (case prev of None \<Rightarrow> st\<lparr>bigblocks := bb_next st b\<rparr>
                             | Some q \<Rightarrow> st\<lparr>bb_next := (bb_next st)(q := bb_next st b)\<rparr>);
                       st = slob_free_pages p (bb_order st b) st
                   in slob_free (Some b) sizeof_bigblock st)
              | None \<Rightarrow> slob_free (Some (p - 1)) 0 st })"

definition ksize :: "nat option \<Rightarrow> slob \<Rightarrow> nat option" where
  "ksize block st =
     (case block of
        None \<Rightarrow> Some 0
      | Some p \<Rightarrow>
         do { found \<leftarrow> (if p mod page_units = 0 then bigblock_find p None (bigblocks st) st else Some None);
              case found of
                Some (prev, b) \<Rightarrow> Some (PGSIZE * 2 ^ bb_order st b)
              | None \<Rightarrow> Some (s_units st (p - 1) * SLOB_UNIT) })"

section \<open>Circular order\<close>

text \<open>The next element of a set of addresses, and the elements from one on up to another.\<close>

definition after :: "nat set \<Rightarrow> nat \<Rightarrow> nat" where
  "after S x = (if \<exists>y \<in> S. x < y then LEAST y. y \<in> S \<and> x < y else LEAST y. y \<in> S)"

lemma after_eqI: "y \<in> S \<Longrightarrow> x < y \<Longrightarrow> (\<And>z. z \<in> S \<Longrightarrow> x < z \<Longrightarrow> y \<le> z) \<Longrightarrow> after S x = y"
  by (auto simp: after_def intro!: Least_equality)

lemma after_wrapI: "y \<in> S \<Longrightarrow> (\<And>z. z \<in> S \<Longrightarrow> z \<le> x) \<Longrightarrow> (\<And>z. z \<in> S \<Longrightarrow> y \<le> z) \<Longrightarrow> after S x = y"
  by (auto simp: after_def intro!: Least_equality) (meson leD)

lemma after_cases:
  assumes "a \<in> S" "\<forall>x \<in> S. a \<le> x"
  shows "(after S x \<in> S \<and> x < after S x \<and> (\<forall>z \<in> S. x < z \<longrightarrow> after S x \<le> z)) \<or>
    (after S x = a \<and> (\<forall>z \<in> S. z \<le> x))"
proof (cases "\<exists>y \<in> S. x < y")
  case True
  then obtain y where "y \<in> S \<and> x < y" by blast
  from LeastI [of "\<lambda>y. y \<in> S \<and> x < y", OF this] have "after S x \<in> S" "x < after S x"
    using True by (simp_all add: after_def)
  moreover have "after S x \<le> z" if "z \<in> S" "x < z" for z
    using Least_le [of "\<lambda>y. y \<in> S \<and> x < y" z] True that by (simp add: after_def)
  ultimately show ?thesis by blast
next
  case False
  then have le: "z \<le> x" if "z \<in> S" for z using that by (meson not_le)
  have "after S x = a" by (rule after_wrapI) (use assms le in auto)
  with le show ?thesis by blast
qed

definition ahead :: "nat set \<Rightarrow> nat \<Rightarrow> nat \<Rightarrow> nat set" where
  "ahead S x t = (if x \<le> t then {y \<in> S. x \<le> y \<and> y < t} else {y \<in> S. x \<le> y \<or> y < t})"

lemma ahead_self [simp]: "ahead S t t = {}"
  by (auto simp: ahead_def)

lemma ahead_after:
  assumes "a \<in> S" "\<forall>x \<in> S. a \<le> x" "x \<in> S" "t \<in> S" "x \<noteq> t"
  shows "ahead S x t = insert x (ahead S (after S x) t)" "x \<notin> ahead S (after S x) t"
proof -
  have "ahead S x t = insert x (ahead S (after S x) t) \<and> x \<notin> ahead S (after S x) t"
    using after_cases [OF assms(1,2), of x]
  proof
    assume s: "after S x \<in> S \<and> x < after S x \<and> (\<forall>z \<in> S. x < z \<longrightarrow> after S x \<le> z)"
    then have "t \<le> x \<or> after S x \<le> t" using assms(4) by (meson not_le)
    then show ?thesis using s assms(3-5) by (fastforce simp: ahead_def)
  next
    assume w: "after S x = a \<and> (\<forall>z \<in> S. z \<le> x)"
    then have "a \<le> t" "t \<le> x" using assms(2,4) by auto
    then show ?thesis using w assms(2-5) by (auto simp: ahead_def)
  qed
  then show "ahead S x t = insert x (ahead S (after S x) t)" "x \<notin> ahead S (after S x) t" by blast+
qed

lemma ahead_whole:
  assumes "a \<in> S" "\<forall>x \<in> S. a \<le> x" "t \<in> S"
  shows "insert t (ahead S (after S t) t) = S"
  using after_cases [OF assms(1,2), of t]
proof
  assume s: "after S t \<in> S \<and> t < after S t \<and> (\<forall>z \<in> S. t < z \<longrightarrow> after S t \<le> z)"
  then have "z < t \<or> z = t \<or> after S t \<le> z" if "z \<in> S" for z using that by (meson linorder_neqE_nat)
  then show ?thesis using s assms(3) by (fastforce simp: ahead_def)
next
  assume w: "after S t = a \<and> (\<forall>z \<in> S. z \<le> t)"
  then show ?thesis using assms by (fastforce simp: ahead_def)
qed

lemma after_in: "a \<in> S \<Longrightarrow> \<forall>x \<in> S. a \<le> x \<Longrightarrow> after S x \<in> S"
  using after_cases [of a S x] by auto

section \<open>The free list\<close>

text \<open>
  \<^verbatim>\<open>slob_ok st S\<close>: the blocks of the list are at the addresses \<open>S\<close>, linked in
  circular order from the arena on, and two blocks neither overlap nor touch.
\<close>

definition slob_ok :: "slob \<Rightarrow> nat set \<Rightarrow> bool" where
  "slob_ok st S \<longleftrightarrow> finite S \<and> arena st \<in> S \<and> (\<forall>x \<in> S. arena st \<le> x) \<and> slobfree st \<in> S \<and>
     (\<forall>x \<in> S. s_next st x = after S x) \<and> (\<forall>x \<in> S. 0 < s_units st x) \<and> s_units st (arena st) = 1 \<and>
     (\<forall>x \<in> S. \<forall>y \<in> S. x < y \<longrightarrow> x + s_units st x < y)"

definition extent :: "slob \<Rightarrow> nat \<Rightarrow> nat set" where
  "extent st x = {x..<x + s_units st x}"

definition free_units :: "slob \<Rightarrow> nat set \<Rightarrow> nat set" where
  "free_units st S = (\<Union>x \<in> S - {arena st}. extent st x)"

lemma slob_okD:
  assumes "slob_ok st S"
  shows "finite S" "arena st \<in> S" "\<forall>x \<in> S. arena st \<le> x" "slobfree st \<in> S" "s_units st (arena st) = 1"
    "x \<in> S \<Longrightarrow> s_next st x = after S x" "x \<in> S \<Longrightarrow> 0 < s_units st x"
    "x \<in> S \<Longrightarrow> y \<in> S \<Longrightarrow> x < y \<Longrightarrow> x + s_units st x < y"
  using assms by (auto simp: slob_ok_def)

lemma slob_next_in: "slob_ok st S \<Longrightarrow> x \<in> S \<Longrightarrow> s_next st x \<in> S"
  using slob_okD(2,3,6) [of st S] after_in by metis

text \<open>The block before an address.\<close>

definition before :: "nat set \<Rightarrow> nat \<Rightarrow> nat \<Rightarrow> bool" where
  "before S b p \<longleftrightarrow> p \<in> S \<and> p < b \<and> (\<forall>z \<in> S. z < b \<longrightarrow> z \<le> p)"

lemma slob_find_at:
  assumes "slob_ok st S" "b \<notin> S" "before S b p"
  shows "slob_find b p st = Some p"
proof -
  have nx: "s_next st p = after S p" using assms(1,3) by (simp add: slob_okD(6) before_def)
  from after_cases [OF slob_okD(2,3) [OF assms(1)], of p] show ?thesis
  proof
    assume s: "after S p \<in> S \<and> p < after S p \<and> (\<forall>z \<in> S. p < z \<longrightarrow> after S p \<le> z)"
    then have "b < after S p" using assms(2,3) unfolding before_def by (metis linorder_neqE_nat not_le)
    with assms(3) nx show ?thesis by (subst slob_find.simps) (simp add: before_def)
  next
    assume w: "after S p = arena st \<and> (\<forall>z \<in> S. z \<le> p)"
    then have "after S p \<le> p" using slob_okD(2) [OF assms(1)] by auto
    with assms(3) nx show ?thesis by (subst slob_find.simps) (simp add: before_def)
  qed
qed

lemma slob_find_passes:
  assumes ok: "slob_ok st S" and p: "before S b p" and cur: "cur \<in> S" "cur \<noteq> p" and b: "arena st < b"
  shows "slob_find b cur st = slob_find b (after S cur) st"
proof -
  have nx: "s_next st cur = after S cur" by (rule slob_okD(6) [OF ok cur(1)])
  from after_cases [OF slob_okD(2,3) [OF ok], of cur]
  have "\<not> (b > cur \<and> b < after S cur) \<and> \<not> (cur \<ge> after S cur \<and> (b > cur \<or> b < after S cur))"
  proof
    assume s: "after S cur \<in> S \<and> cur < after S cur \<and> (\<forall>z \<in> S. cur < z \<longrightarrow> after S cur \<le> z)"
    have "\<not> (b > cur \<and> b < after S cur)"
    proof
      assume c: "b > cur \<and> b < after S cur"
      then have "cur \<le> p" using p cur(1) by (simp add: before_def)
      with s p cur(2) have "after S cur \<le> p" by (simp add: before_def)
      with c p show False by (simp add: before_def)
    qed
    with s show ?thesis by auto
  next
    assume w: "after S cur = arena st \<and> (\<forall>z \<in> S. z \<le> cur)"
    then have "p < cur" using p cur(2) by (auto simp: before_def le_less)
    then have "\<not> b > cur" using p cur(1) by (auto simp: before_def)
    with w b show ?thesis by auto
  qed
  with nx show ?thesis by (subst slob_find.simps) auto
qed

lemma slob_find_from:
  assumes ok: "slob_ok st S" and p: "before S b p" and b: "arena st < b" "b \<notin> S" and "cur \<in> S"
  shows "slob_find b cur st = Some p"
  using assms(5)
proof (induction "card (ahead S cur p)" arbitrary: cur rule: less_induct)
  case less
  show ?case
  proof (cases "cur = p")
    case True
    with slob_find_at [OF ok b(2) p] show ?thesis by simp
  next
    case False
    have ps: "p \<in> S" using p by (simp add: before_def)
    note a = ahead_after [OF slob_okD(2,3) [OF ok] less.prems ps False]
    have "finite (ahead S (after S cur) p)" using slob_okD(1) [OF ok] by (rule finite_subset [rotated]) (auto simp: ahead_def)
    then have "card (ahead S (after S cur) p) < card (ahead S cur p)" using a by simp
    from less.hyps [OF this after_in [OF slob_okD(2,3) [OF ok]]] slob_find_passes [OF ok p less.prems False b(1)]
    show ?thesis by simp
  qed
qed

lemma before_exists:
  assumes "slob_ok st S" "arena st < b"
  obtains p where "before S b p"
proof -
  let ?M = "{y \<in> S. y < b}"
  have "finite ?M" "?M \<noteq> {}" using slob_okD(1,2) [OF assms(1)] assms(2) by auto
  then have "before S b (Max ?M)" using Max_in [of ?M] by (auto simp: before_def)
  then show ?thesis by (rule that)
qed

text \<open>The circular order under insertion and removal.\<close>

lemma after_eq_iff:
  assumes "a \<in> S" "\<forall>x \<in> S. a \<le> x"
  shows "after S x = y \<longleftrightarrow> (y \<in> S \<and> x < y \<and> (\<forall>z \<in> S. x < z \<longrightarrow> y \<le> z)) \<or> (y = a \<and> (\<forall>z \<in> S. z \<le> x))"
  using after_cases [OF assms, of x] by (metis antisym_conv leD not_le)

lemma after_insert:
  assumes "a \<in> S" "\<forall>x \<in> S. a \<le> x" "a < b" "b \<notin> S" "before S b p"
  shows "after (insert b S) b = after S p" "after (insert b S) p = b"
    "x \<in> S \<Longrightarrow> x \<noteq> p \<Longrightarrow> after (insert b S) x = after S x"
proof -
  have m: "a \<in> insert b S" "\<forall>x \<in> insert b S. a \<le> x" using assms(1-3) by auto
  note E = after_eq_iff [OF m] and C = after_cases [OF assms(1,2)]
  have p: "p \<in> S" "p < b" "\<And>z. z \<in> S \<Longrightarrow> z < b \<Longrightarrow> z \<le> p" using assms(5) by (auto simp: before_def)
  have gt: "b < z" if "z \<in> S" "p < z" for z using p(3) [OF that(1)] that assms(4) by (metis linorder_neqE_nat not_le)
  show "after (insert b S) p = b" unfolding E using p gt by (auto intro: less_imp_le)
  show "after (insert b S) b = after S p"
    using C [of p]
  proof
    assume s: "after S p \<in> S \<and> p < after S p \<and> (\<forall>z \<in> S. p < z \<longrightarrow> after S p \<le> z)"
    then show ?thesis unfolding E using gt p(2) by auto
  next
    assume w: "after S p = a \<and> (\<forall>z \<in> S. z \<le> p)"
    then show ?thesis unfolding E using p(2) by (auto intro: less_imp_le order_trans)
  qed
  show "after (insert b S) x = after S x" if x: "x \<in> S" "x \<noteq> p"
    using C [of x]
  proof
    assume s: "after S x \<in> S \<and> x < after S x \<and> (\<forall>z \<in> S. x < z \<longrightarrow> after S x \<le> z)"
    have "after S x \<le> b" if "x < b"
    proof -
      have "x < p" using p(3) [OF x(1) that] x(2) by simp
      with s p(1) have "after S x \<le> p" by blast
      with p(2) show ?thesis by simp
    qed
    with s show ?thesis unfolding E by auto
  next
    assume w: "after S x = a \<and> (\<forall>z \<in> S. z \<le> x)"
    then have "p < x" using p(1) x(2) by (auto simp: le_less)
    then have "b \<le> x" using gt [OF x(1)] by simp
    with w show ?thesis unfolding E by auto
  qed
qed

lemma after_remove:
  assumes "a \<in> S" "\<forall>x \<in> S. a \<le> x" "y \<in> S" "y \<noteq> a" "p \<in> S" "after S p = y"
  shows "after (S - {y}) p = after S y" "x \<in> S \<Longrightarrow> x \<noteq> p \<Longrightarrow> x \<noteq> y \<Longrightarrow> after (S - {y}) x = after S x" "p < y"
proof -
  have m: "a \<in> S - {y}" "\<forall>x \<in> S - {y}. a \<le> x" using assms(1,2,4) by auto
  note E = after_eq_iff [OF m] and C = after_cases [OF assms(1,2)]
  from C [of p] assms(4,6) have y: "p < y" "\<And>z. z \<in> S \<Longrightarrow> p < z \<Longrightarrow> y \<le> z" by auto
  show "p < y" by (rule y(1))
  show "after (S - {y}) p = after S y"
    using C [of y]
  proof
    assume s: "after S y \<in> S \<and> y < after S y \<and> (\<forall>z \<in> S. y < z \<longrightarrow> after S y \<le> z)"
    then show ?thesis unfolding E using y by (auto simp: le_less)
  next
    assume w: "after S y = a \<and> (\<forall>z \<in> S. z \<le> y)"
    have "z \<le> p" if "z \<in> S - {y}" for z using w y(2) [of z] that by (metis DiffE antisym insertI1 not_le)
    with w show ?thesis unfolding E by auto
  qed
  show "after (S - {y}) x = after S x" if x: "x \<in> S" "x \<noteq> p" "x \<noteq> y"
  proof -
    have ne: "after S x \<noteq> y"
    proof
      assume "after S x = y"
      with C [of x] assms(4) have "x < y" "\<forall>z \<in> S. x < z \<longrightarrow> y \<le> z" by auto
      with y assms(5) x show False by (metis leD linorder_neqE_nat)
    qed
    from C [of x] show ?thesis
    proof
      assume "after S x \<in> S \<and> x < after S x \<and> (\<forall>z \<in> S. x < z \<longrightarrow> after S x \<le> z)"
      with ne show ?thesis unfolding E by auto
    next
      assume "after S x = a \<and> (\<forall>z \<in> S. z \<le> x)"
      then show ?thesis unfolding E by auto
    qed
  qed
qed

section \<open>Linking and joining blocks\<close>

text \<open>
  Inside \<^verbatim>\<open>slob_free\<close> neighbours may touch. \<^verbatim>\<open>slob_linked\<close> allows that, and
  \<^verbatim>\<open>touch\<close> is the set of blocks that touch the next one.
\<close>

definition slob_linked :: "slob \<Rightarrow> nat set \<Rightarrow> bool" where
  "slob_linked st S \<longleftrightarrow> finite S \<and> arena st \<in> S \<and> (\<forall>x \<in> S. arena st \<le> x) \<and>
     (\<forall>x \<in> S. s_next st x = after S x) \<and> (\<forall>x \<in> S. 0 < s_units st x) \<and> s_units st (arena st) = 1 \<and>
     (\<forall>x \<in> S. \<forall>y \<in> S. x < y \<longrightarrow> x + s_units st x \<le> y)"

definition touch :: "slob \<Rightarrow> nat set \<Rightarrow> nat set" where
  "touch st S = {x \<in> S. x + s_units st x = s_next st x}"

lemma slob_ok_iff: "slob_ok st S \<longleftrightarrow> slob_linked st S \<and> touch st S = {} \<and> slobfree st \<in> S"
proof
  assume ok: "slob_ok st S"
  have "x + s_units st x \<noteq> s_next st x" if x: "x \<in> S" for x
  proof
    assume e: "x + s_units st x = s_next st x"
    then have "x < s_next st x" using slob_okD(7) [OF ok x] by simp
    with slob_okD(8) [OF ok x slob_next_in [OF ok x]] e show False by simp
  qed
  then have "touch st S = {}" by (auto simp: touch_def)
  moreover have "slob_linked st S" using ok by (auto simp: slob_linked_def slob_ok_def intro: less_imp_le)
  ultimately show "slob_linked st S \<and> touch st S = {} \<and> slobfree st \<in> S" using slob_okD(4) [OF ok] by simp
next
  assume l: "slob_linked st S \<and> touch st S = {} \<and> slobfree st \<in> S"
  have "x + s_units st x < y" if "x \<in> S" "y \<in> S" "x < y" for x y
  proof -
    have m: "arena st \<in> S" "\<forall>x \<in> S. arena st \<le> x" and nx: "s_next st x = after S x"
      using l that(1) by (simp_all add: slob_linked_def)
    from after_cases [OF m, of x] that have s: "after S x \<in> S" "x < after S x" "after S x \<le> y" by auto
    then have "x + s_units st x \<le> after S x" using l that(1) by (simp add: slob_linked_def)
    moreover have "x + s_units st x \<noteq> after S x" using l that(1) nx by (auto simp: touch_def)
    ultimately show ?thesis using s(3) by simp
  qed
  with l show "slob_ok st S" by (simp add: slob_ok_def slob_linked_def)
qed

definition slob_link :: "nat \<Rightarrow> nat \<Rightarrow> slob \<Rightarrow> slob" where
  "slob_link p b st = set_next p b (set_next b (s_next st p) st)"

definition slob_join :: "nat \<Rightarrow> slob \<Rightarrow> slob" where
  "slob_join x st = (let y = s_next st x in set_next x (s_next st y) (set_units x (s_units st x + s_units st y) st))"

lemma set_simps [simp]:
  "s_units (set_units b n st) = (s_units st)(b := n)" "s_next (set_units b n st) = s_next st"
  "s_next (set_next b n st) = (s_next st)(b := n)" "s_units (set_next b n st) = s_units st"
  "arena (set_units b n st) = arena st" "arena (set_next b n st) = arena st"
  "slobfree (set_units b n st) = slobfree st" "slobfree (set_next b n st) = slobfree st"
  by (simp_all add: set_units_def set_next_def)

lemma link_ok:
  assumes l: "slob_linked st S" and p: "before S b p" and b: "arena st < b" "b \<notin> S" "0 < s_units st b"
    and gap: "\<forall>x \<in> S. x < b \<longrightarrow> x + s_units st x \<le> b" "\<forall>x \<in> S. b < x \<longrightarrow> b + s_units st b \<le> x"
  shows "slob_linked (slob_link p b st) (insert b S)"
    "touch (slob_link p b st) (insert b S) \<subseteq> touch st S \<union> {p, b}"
proof -
  have m: "arena st \<in> S" "\<forall>x \<in> S. arena st \<le> x" using l by (auto simp: slob_linked_def)
  have pS: "p \<in> S" using p by (simp add: before_def)
  note A = after_insert [OF m b(1,2) p]
  have pb: "p \<noteq> b" using pS b(2) by auto
  have nx: "s_next (slob_link p b st) x = after (insert b S) x" if "x \<in> insert b S" for x
    using that A l pS pb by (auto simp: slob_link_def slob_linked_def)
  show "slob_linked (slob_link p b st) (insert b S)"
    using l nx b gap unfolding slob_linked_def by (auto simp: slob_link_def less_imp_le)
  show "touch (slob_link p b st) (insert b S) \<subseteq> touch st S \<union> {p, b}"
    by (auto simp: touch_def slob_link_def)
qed

lemma join_ok:
  assumes l: "slob_linked st S" and x: "x \<in> touch st S" "x \<noteq> arena st"
  shows "slob_linked (slob_join x st) (S - {s_next st x})"
    "touch (slob_join x st) (S - {s_next st x}) \<subseteq> touch st S - {x} \<union> (if s_next st x \<in> touch st S then {x} else {})"
    "(\<Union>z \<in> S - {s_next st x} - {arena st}. extent (slob_join x st) z) = (\<Union>z \<in> S - {arena st}. extent st z)"
    "s_next st x \<in> S" "x < s_next st x" "arena st < s_next st x"
proof -
  let ?y = "s_next st x"
  have m: "arena st \<in> S" "\<forall>x \<in> S. arena st \<le> x" and xS: "x \<in> S" and adj: "x + s_units st x = ?y"
    and ny: "?y = after S x"
    using l x by (auto simp: slob_linked_def touch_def)
  have pos: "0 < s_units st z" if "z \<in> S" for z using l that by (simp add: slob_linked_def)
  show xy: "x < ?y" using adj pos [OF xS] by simp
  show yS: "?y \<in> S" using after_in [OF m, of x] ny by simp
  show ay: "arena st < ?y" using xy m(2) xS by force
  note A = after_remove [OF m yS _ xS ny [symmetric]]
  have yx: "?y \<noteq> x" "?y \<noteq> arena st" using xy ay by auto
  have nx: "s_next (slob_join x st) z = after (S - {?y}) z" if "z \<in> S - {?y}" for z
    using that A yx l yS xS by (auto simp: slob_join_def Let_def slob_linked_def)
  have gap: "a + s_units st a \<le> c" if "a \<in> S" "c \<in> S" "a < c" for a c
    using l that by (simp add: slob_linked_def)
  have gap': "a + s_units (slob_join x st) a \<le> c" if "a \<in> S - {?y}" "c \<in> S - {?y}" "a < c" for a c
  proof (cases "a = x")
    case True
    from after_cases [OF m, of x] ny that True have "?y \<le> c" by auto
    then have "?y + s_units st ?y \<le> c" using gap [OF yS, of c] that by auto
    with True adj show ?thesis by (simp add: slob_join_def Let_def)
  next
    case False
    with gap that show ?thesis by (simp add: slob_join_def Let_def)
  qed
  show "slob_linked (slob_join x st) (S - {?y})"
    unfolding slob_linked_def using l nx gap' yx x(2) by (auto simp: slob_join_def Let_def slob_linked_def)
  show "touch (slob_join x st) (S - {?y}) \<subseteq> touch st S - {x} \<union> (if ?y \<in> touch st S then {x} else {})"
    using adj yS by (auto simp: touch_def slob_join_def Let_def split: if_splits)
  have e: "extent (slob_join x st) z = (if z = x then extent st x \<union> extent st ?y else extent st z)" for z
    using adj by (auto simp: extent_def slob_join_def Let_def)
  show "(\<Union>z \<in> S - {?y} - {arena st}. extent (slob_join x st) z) = (\<Union>z \<in> S - {arena st}. extent st z)"
    unfolding e using xS yS yx x(2) by (auto split: if_splits)
qed

definition join_if :: "nat \<Rightarrow> slob \<Rightarrow> slob" where
  "join_if x st = (if x + s_units st x = s_next st x then slob_join x st else st)"

lemma slob_free_eq:
  assumes "slob_find b (slobfree st) st = Some p" "p \<noteq> b" "s_next st p \<noteq> b" "b + s_units st b = s_next st p \<Longrightarrow> p < s_next st p"
  shows "slob_free (Some b) 0 st = Some ((join_if p (join_if b (slob_link p b st)))\<lparr>slobfree := p\<rparr>)"
proof (cases "b + s_units st b = s_next st p")
  case True
  then have "p < s_next st p" by (rule assms(4))
  with True assms(1-3) show ?thesis
    by (auto simp: slob_free_def Let_def join_if_def slob_link_def slob_join_def set_units_def set_next_def fun_upd_twist)
next
  case False
  with assms(1-3) show ?thesis
    by (auto simp: slob_free_def Let_def join_if_def slob_link_def slob_join_def set_units_def set_next_def fun_upd_twist)
qed

text \<open>What a call leaves alone: everything but the list itself.\<close>

definition same_rest :: "slob \<Rightarrow> slob \<Rightarrow> bool" where
  "same_rest st st' \<longleftrightarrow> st'\<lparr>s_units := s_units st, s_next := s_next st, slobfree := slobfree st\<rparr> = st"

lemma same_rest_set [simp]:
  "same_rest st (set_units b n st') = same_rest st st'" "same_rest st (set_next b n st') = same_rest st st'"
  "same_rest st (st'\<lparr>slobfree := p\<rparr>) = same_rest st st'" "same_rest st st"
  by (auto simp: same_rest_def set_units_def set_next_def)

lemma same_rest_join: "same_rest st st' \<Longrightarrow> same_rest st (join_if x st')"
  "same_rest st st' \<Longrightarrow> same_rest st (slob_link p b st')"
  by (auto simp: join_if_def slob_join_def slob_link_def Let_def)

lemma same_restD:
  assumes "same_rest st st'"
  shows "arena st' = arena st" "bigblocks st' = bigblocks st" "bb_order st' = bb_order st" "bb_pages st' = bb_pages st"
    "bb_next st' = bb_next st" "page_answers st' = page_answers st" "freed_pages st' = freed_pages st"
  using arg_cong [where f = arena, OF assms [unfolded same_rest_def]] arg_cong [where f = bigblocks, OF assms [unfolded same_rest_def]]
    arg_cong [where f = bb_order, OF assms [unfolded same_rest_def]] arg_cong [where f = bb_pages, OF assms [unfolded same_rest_def]]
    arg_cong [where f = bb_next, OF assms [unfolded same_rest_def]] arg_cong [where f = page_answers, OF assms [unfolded same_rest_def]]
    arg_cong [where f = freed_pages, OF assms [unfolded same_rest_def]]
  by simp_all

lemma same_rest_trans: "same_rest st st' \<Longrightarrow> same_rest st' st'' \<Longrightarrow> same_rest st st''"
  unfolding same_rest_def by (metis (no_types, lifting) slob.surjective slob.update_convs(1,2,4))

definition headers_kept :: "slob \<Rightarrow> slob \<Rightarrow> nat set \<Rightarrow> bool" where
  "headers_kept st st' F \<longleftrightarrow> (\<forall>x. x \<notin> F \<longrightarrow> s_units st' x = s_units st x)"

lemma slob_free_core:
  assumes ok: "slob_ok st S" and b: "arena st + 1 < b" "0 < s_units st b"
    and dis: "\<forall>x \<in> S. extent st x \<inter> extent st b = {}"
  shows "\<exists>st' S'. slob_free (Some b) 0 st = Some st' \<and> slob_ok st' S' \<and>
    free_units st' S' = free_units st S \<union> extent st b \<and> same_rest st st' \<and> headers_kept st st' (free_units st' S')"
proof -
  have lk: "slob_linked st S" and nt: "touch st S = {}" using ok by (simp_all add: slob_ok_iff)
  have in_ext: "x \<in> extent st x" if "x \<in> S" for x using slob_okD(7) [OF ok that] by (simp add: extent_def)
  have bext: "b \<in> extent st b" using b(2) by (simp add: extent_def)
  have bS: "b \<notin> S" using dis bext by blast
  have ab: "arena st < b" using b(1) by simp
  from before_exists [OF ok ab] obtain p where p: "before S b p" .
  have pS: "p \<in> S" "p < b" using p by (simp_all add: before_def)
  have gap1: "x + s_units st x \<le> b" if "x \<in> S" "x < b" for x
  proof (rule ccontr)
    assume "\<not> x + s_units st x \<le> b"
    then have "b \<in> extent st x" using that by (simp add: extent_def)
    with dis that bext show False by blast
  qed
  have gap2: "b + s_units st b \<le> x" if "x \<in> S" "b < x" for x
  proof (rule ccontr)
    assume "\<not> b + s_units st b \<le> x"
    then have "x \<in> extent st b" using that by (simp add: extent_def)
    with dis that in_ext show False by blast
  qed
  let ?n = "s_next st p"
  have nS: "?n \<in> S" by (rule slob_next_in [OF ok pS(1)])
  have find: "slob_find b (slobfree st) st = Some p"
    by (rule slob_find_from [OF ok p ab bS slob_okD(4) [OF ok]])
  have eq: "slob_free (Some b) 0 st = Some ((join_if p (join_if b (slob_link p b st)))\<lparr>slobfree := p\<rparr>)"
    by (rule slob_free_eq [OF find]) (use bS nS pS in auto)
  let ?s1 = "slob_link p b st"
  have m: "arena st \<in> S" "\<forall>x \<in> S. arena st \<le> x" by (rule slob_okD(2,3) [OF ok])+
  have l1: "slob_linked ?s1 (insert b S)" and t1: "touch ?s1 (insert b S) \<subseteq> {p, b}"
    using link_ok [OF lk p ab bS b(2)] gap1 gap2 nt by auto
  have s1: "s_next ?s1 b = ?n" "s_next ?s1 p = b" "s_units ?s1 = s_units st" "arena ?s1 = arena st"
    using bS pS by (auto simp: slob_link_def)
  have f1: "(\<Union>z \<in> insert b S - {arena st}. extent ?s1 z) = free_units st S \<union> extent st b"
    using ab by (auto simp: free_units_def extent_def s1)
  text \<open>The block behind.\<close>
  obtain S2 where s2: "slob_linked (join_if b ?s1) S2" "touch (join_if b ?s1) S2 \<subseteq> {p}"
    "(\<Union>z \<in> S2 - {arena st}. extent (join_if b ?s1) z) = free_units st S \<union> extent st b"
    "p \<in> S2" "b \<in> S2" "s_next (join_if b ?s1) p = b" "s_units (join_if b ?s1) p = s_units st p"
    "headers_kept st (join_if b ?s1) {b}" "arena (join_if b ?s1) = arena st"
  proof (cases "b \<in> touch ?s1 (insert b S)")
    case False
    then have "join_if b ?s1 = ?s1" by (simp add: join_if_def touch_def)
    with False that [of "insert b S"] l1 t1 f1 pS s1 show ?thesis by (auto simp: headers_kept_def)
  next
    case True
    then have j: "join_if b ?s1 = slob_join b ?s1" by (simp add: join_if_def touch_def)
    have ne: "b \<noteq> arena ?s1" using ab s1(4) by simp
    note J = join_ok [OF l1 True ne, unfolded s1]
    have nb: "?n \<noteq> b" using bS nS by auto
    have np: "?n \<noteq> p" "?n \<notin> {p, b}" using J(5) pS(2) nb by auto
    have "?n \<notin> touch ?s1 (insert b S)" using np t1 by blast
    then have "touch (slob_join b ?s1) (insert b S - {?n}) \<subseteq> {p}" using J(2) t1 by auto
    moreover have "s_next (slob_join b ?s1) p = b" "s_units (slob_join b ?s1) p = s_units st p" "arena (slob_join b ?s1) = arena st"
      "headers_kept st (slob_join b ?s1) {b}"
      using pS(2) s1 by (auto simp: slob_join_def Let_def headers_kept_def)
    ultimately show ?thesis using that [of "insert b S - {?n}"] J(1,3) f1 pS np nb unfolding j by auto
  qed
  let ?s2 = "join_if b ?s1"
  have bfree: "b \<in> free_units st S \<union> extent st b" using bext by simp
  text \<open>The block before.\<close>
  show ?thesis
  proof (cases "p \<in> touch ?s2 S2")
    case False
    then have j: "join_if p ?s2 = ?s2" using s2(4) by (simp add: join_if_def touch_def)
    have "slob_ok (?s2\<lparr>slobfree := p\<rparr>) S2"
      using s2(1,2,4) False by (auto simp: slob_ok_iff slob_linked_def touch_def)
    moreover have fr: "free_units (?s2\<lparr>slobfree := p\<rparr>) S2 = free_units st S \<union> extent st b"
      using s2(3) s2(9) by (simp add: free_units_def extent_def)
    moreover have "headers_kept st (?s2\<lparr>slobfree := p\<rparr>) (free_units st S \<union> extent st b)"
      using s2(8) bfree by (auto simp: headers_kept_def)
    ultimately show ?thesis unfolding eq j
      by (intro exI [of _ "?s2\<lparr>slobfree := p\<rparr>"] exI [of _ S2]) (simp add: same_rest_join)
  next
    case True
    then have j: "join_if p ?s2 = slob_join p ?s2" and adj: "p + s_units st p = b" using s2(6,7) by (simp_all add: join_if_def touch_def)
    have pa: "p \<noteq> arena ?s2" using adj b(1) slob_okD(5) [OF ok] s2(9) by auto
    note J = join_ok [OF s2(1) True pa, unfolded s2(6) s2(9)]
    have nb: "b \<notin> touch ?s2 S2" using s2(2) pS(2) by auto
    let ?s3 = "(slob_join p ?s2)\<lparr>slobfree := p\<rparr>"
    have a3: "arena ?s3 = arena st" using s2(9) by (simp add: slob_join_def Let_def)
    have "slob_ok ?s3 (S2 - {b})"
      using J(1,2) nb s2(2,4) pS(2) by (auto simp: slob_ok_iff slob_linked_def touch_def)
    moreover have fr: "free_units ?s3 (S2 - {b}) = free_units st S \<union> extent st b"
      using J(3) s2(3) a3 by (simp add: free_units_def extent_def)
    moreover have "headers_kept st ?s3 (free_units st S \<union> extent st b)"
    proof -
      have "p \<in> free_units st S" using pS(1) in_ext pa s2(9) by (auto simp: free_units_def)
      moreover have "s_units ?s3 x = s_units ?s2 x" if "x \<noteq> p" for x using that by (simp add: slob_join_def Let_def)
      ultimately show ?thesis using s2(8) bfree unfolding headers_kept_def
        by (metis UnI1 singletonD)
    qed
    moreover have "same_rest st ?s3" using same_rest_join [of st] by (metis j same_rest_set(3,4))
    ultimately show ?thesis unfolding eq j
      by (intro exI [of _ ?s3] exI [of _ "S2 - {b}"]) simp
  qed
qed

lemma slob_free_ok:
  assumes ok: "slob_ok st S" and b: "arena st + 1 < b" "0 < n" and n: "if sz = 0 then s_units st b = n else SLOB_UNITS sz = n"
    and dis: "\<forall>x \<in> S. extent st x \<inter> {b..<b + n} = {}"
  shows "\<exists>st' S'. slob_free (Some b) sz st = Some st' \<and> slob_ok st' S' \<and>
    free_units st' S' = free_units st S \<union> {b..<b + n} \<and> same_rest st st' \<and> headers_kept st st' (free_units st' S')"
proof -
  let ?st = "set_units b n st"
  have bS: "b \<notin> S"
  proof
    assume "b \<in> S"
    then have "b \<in> extent st b \<inter> {b..<b + n}" using slob_okD(7) [OF ok] b(2) by (simp add: extent_def)
    with dis \<open>b \<in> S\<close> show False by blast
  qed
  have ext: "extent ?st x = extent st x" if "x \<in> S" for x using that bS by (auto simp: extent_def)
  have eb: "extent ?st b = {b..<b + n}" by (simp add: extent_def)
  have ok0: "slob_ok ?st S" using ok bS b(1) by (auto simp: slob_ok_def)
  have eq: "slob_free (Some b) sz st = slob_free (Some b) 0 ?st"
    using n by (auto simp: slob_free_def set_units_def split: if_splits)
  have fr: "free_units ?st S = free_units st S" using ext by (auto simp: free_units_def)
  have a: "arena ?st + 1 < b" "0 < s_units ?st b" "\<forall>x \<in> S. extent ?st x \<inter> extent ?st b = {}"
    using b dis ext eb by auto
  from slob_free_core [OF ok0 a] obtain st' S' where r: "slob_free (Some b) 0 ?st = Some st'" "slob_ok st' S'"
    "free_units st' S' = free_units st S \<union> {b..<b + n}" "same_rest ?st st'" "headers_kept ?st st' (free_units st' S')"
    unfolding eb fr by blast
  have "same_rest st st'" by (rule same_rest_trans [OF _ r(4)]) simp
  moreover have "headers_kept st st' (free_units st' S')"
    using r(3,5) b(2) by (auto simp: headers_kept_def)
  ultimately show ?thesis using r eq by auto
qed

lemma Un_Diff_part: "A \<inter> E = {} \<Longrightarrow> E = B \<union> C \<Longrightarrow> B \<inter> C = {} \<Longrightarrow> (A \<union> E) - B = A \<union> C"
  by blast

text \<open>Taking the first units of a block that is large enough.\<close>

definition shrunk :: "nat set \<Rightarrow> nat \<Rightarrow> nat \<Rightarrow> nat \<Rightarrow> nat set" where
  "shrunk S x u n = (if u = n then S - {x} else insert (x + n) (S - {x}))"

lemma slob_take_ok:
  assumes ok: "slob_ok st S" and p: "p \<in> S" "s_next st p = x" and x: "x \<noteq> arena st" and n: "0 < n" "n \<le> s_units st x"
  shows "\<exists>st'. slob_take n 0 p x st = (x, st') \<and> slob_ok st' (shrunk S x (s_units st x) n) \<and>
    free_units st' (shrunk S x (s_units st x) n) = free_units st S - {x..<x + n} \<and> {x..<x + n} \<subseteq> free_units st S \<and>
    s_units st' x = n \<and> same_rest st st' \<and> headers_kept st st' (free_units st S)"
proof -
  let ?u = "s_units st x"
  have xS: "x \<in> S" using slob_next_in [OF ok p(1)] p(2) by simp
  have m: "arena st \<in> S" "\<forall>x \<in> S. arena st \<le> x" by (rule slob_okD(2,3) [OF ok])+
  have ny: "after S p = x" using slob_okD(6) [OF ok p(1)] p(2) by simp
  note A = after_remove [OF m xS x p(1) ny]
  have px: "p < x" by (rule A(3))
  have ax: "arena st < x" using m(2) xS x by (metis le_neq_implies_less)
  have gap: "a + s_units st a < c" if "a \<in> S" "c \<in> S" "a < c" for a c by (rule slob_okD(8) [OF ok that])
  have pos: "0 < s_units st a" if "a \<in> S" for a by (rule slob_okD(7) [OF ok that])
  have inF: "{x..<x + n} \<subseteq> free_units st S"
    using xS x n(2) by (auto simp: free_units_def extent_def)
  have apart: "extent st a \<inter> extent st x = {}" if "a \<in> S" "a \<noteq> x" for a
  proof (cases "a < x")
    case True
    with gap [OF that(1) xS] show ?thesis by (auto simp: extent_def)
  next
    case False
    with gap [OF xS that(1)] that(2) show ?thesis by (auto simp: extent_def)
  qed
  have apart': "(\<Union>a \<in> S - {x} - {arena st}. extent st a) \<inter> extent st x = {}" using apart by blast
  have whole: "free_units st S = (\<Union>a \<in> S - {x} - {arena st}. extent st a) \<union> extent st x"
    using xS x by (auto simp: free_units_def)
  show ?thesis
  proof (cases "?u = n")
    case True
    let ?st = "(set_next p (s_next st x) st)\<lparr>slobfree := p\<rparr>"
    have tk: "slob_take n 0 p x st = (x, ?st)" using True by (simp add: slob_take_def Let_def)
    have nx: "s_next ?st a = after (S - {x}) a" if "a \<in> S - {x}" for a
      using that A(1,2) slob_okD(6) [OF ok xS] slob_okD(6) [OF ok] by auto
    have "slob_ok ?st (S - {x})"
      unfolding slob_ok_def using slob_okD(1,2,3,5) [OF ok] pos gap nx x p(1) px by auto
    moreover have "free_units ?st (S - {x}) = free_units st S - {x..<x + n}"
    proof -
      have "free_units ?st (S - {x}) = (\<Union>a \<in> S - {x} - {arena st}. extent st a)" by (simp add: free_units_def extent_def)
      moreover have "{x..<x + n} = extent st x" using True by (simp add: extent_def)
      ultimately show ?thesis using Un_Diff_part [OF apart', of "extent st x" "{}"] whole by simp
    qed
    moreover have "headers_kept st ?st (free_units st S)" by (simp add: headers_kept_def)
    ultimately show ?thesis using tk True inF by (simp add: shrunk_def)
  next
    case False
    let ?y = "x + n"
    let ?st = "(set_units x n (set_next ?y (s_next st x) (set_units ?y (?u - n) (set_next p ?y st))))\<lparr>slobfree := p\<rparr>"
    have nu: "n < ?u" using False n(2) by simp
    have yx: "?y \<noteq> x" "p \<noteq> ?y" using n(1) px by auto
    have tk: "slob_take n 0 p x st = (x, ?st)"
      using False yx px n(1) by (simp add: slob_take_def Let_def)
    have big: "?y < c" if "c \<in> S" "x < c" for c using gap [OF xS that] nu by simp
    have yS: "?y \<notin> S - {x}" using big n(1) by (metis DiffD1 less_add_same_cancel1 nat_less_le)
    let ?R = "S - {x}"
    have mR: "arena st \<in> ?R" "\<forall>a \<in> ?R. arena st \<le> a" using m x by auto
    have bef: "before ?R ?y p"
    proof -
      have "z \<le> p" if "z \<in> ?R" "z < ?y" for z
      proof -
        have "\<not> x < z" using big [of z] that by auto
        then have "z < x" using that by auto
        with after_cases [OF m, of p] ny x that show ?thesis by (metis DiffD1 leD not_le)
      qed
      then show ?thesis using p(1) px by (auto simp: before_def)
    qed
    have ay: "arena st < ?y" using ax by simp
    note B = after_insert [OF mR ay yS bef]
    have nx: "s_next ?st a = after (insert ?y ?R) a" if "a \<in> insert ?y ?R" for a
      using that A(1,2) B slob_okD(6) [OF ok xS] slob_okD(6) [OF ok] yx p(1) px by auto
    have gap': "a + s_units ?st a < c" if "a \<in> insert ?y ?R" "c \<in> insert ?y ?R" "a < c" for a c
    proof (cases "a = ?y")
      case True
      then have "c \<in> S" "x < c" using that by auto
      with gap [OF xS] True nu n(1) show ?thesis by auto
    next
      case a: False
      then have aS: "a \<in> S" "a \<noteq> x" using that by auto
      have "a + s_units st a < c"
      proof (cases "c = ?y")
        case True
        have "a < x" using big [OF aS(1)] that(3) True aS(2) by (metis linorder_neqE_nat less_asym)
        with gap [OF aS(1) xS] True show ?thesis by simp
      next
        case False
        with gap [OF aS(1)] that show ?thesis by auto
      qed
      with a aS show ?thesis by simp
    qed
    have "slob_ok ?st (insert ?y ?R)"
      unfolding slob_ok_def using slob_okD(1,2,3,5) [OF ok] pos gap' nx x p(1) px nu n(1) ay yx yS by auto
    moreover have "free_units ?st (insert ?y ?R) = free_units st S - {x..<x + n}"
    proof -
      have "extent ?st ?y = {?y..<x + ?u}" using nu yx by (simp add: extent_def)
      moreover have "extent ?st a = extent st a" if "a \<in> ?R" for a using that yS yx by (auto simp: extent_def)
      ultimately have "free_units ?st (insert ?y ?R) = (\<Union>a \<in> ?R - {arena st}. extent st a) \<union> {?y..<x + ?u}"
        using ay by (auto simp: free_units_def)
      moreover have "extent st x = {x..<x + n} \<union> {?y..<x + ?u}" using nu by (auto simp: extent_def)
      moreover have "{x..<x + n} \<inter> {?y..<x + ?u} = {}" by auto
      ultimately show ?thesis using Un_Diff_part [OF apart', of "{x..<x + n}" "{?y..<x + ?u}"] whole by simp
    qed
    moreover have "headers_kept st ?st (free_units st S)"
    proof -
      have "x \<in> free_units st S" "?y \<in> free_units st S" using whole nu by (simp_all add: extent_def)
      then show ?thesis by (auto simp: headers_kept_def)
    qed
    moreover have "same_rest st ?st" by simp
    ultimately show ?thesis using tk inF False by (simp add: shrunk_def)
  qed
qed

section \<open>The search\<close>

lemma slob_alloc_loop_hit:
  "n \<le> s_units st cur \<Longrightarrow> slob_alloc_loop sz n 0 prev cur st =
    (let (p, st) = slob_take n 0 prev cur st in Some (Some p, st))"
  by (subst slob_alloc_loop.simps) (simp add: Let_def)

lemma slob_alloc_loop_pass:
  "\<not> n \<le> s_units st cur \<Longrightarrow> cur \<noteq> slobfree st \<Longrightarrow>
    slob_alloc_loop sz n 0 prev cur st = slob_alloc_loop sz n 0 cur (s_next st cur) st"
  by (subst slob_alloc_loop.simps) (simp add: Let_def)

lemma slob_alloc_loop_end:
  "\<not> n \<le> s_units st cur \<Longrightarrow> cur = slobfree st \<Longrightarrow> sz \<noteq> PGSIZE \<Longrightarrow>
    slob_alloc_loop sz n 0 prev cur st =
      (case slob_get_free_pages 0 st of
         (None, st) \<Rightarrow> Some (None, st)
       | (Some p, st) \<Rightarrow>
           do { st \<leftarrow> slob_free (Some p) PGSIZE st;
                slob_alloc_loop sz n 0 (slobfree st) (s_next st (slobfree st)) st })"
  by (subst slob_alloc_loop.simps) (simp add: Let_def)

text \<open>
  The search from any block on: it takes a block that is large enough when there is one
  between there and \<^verbatim>\<open>slobfree\<close>, and comes to \<^verbatim>\<open>slobfree\<close> otherwise.
\<close>

lemma slob_search:
  assumes ok: "slob_ok st S" and "p \<in> S" "s_next st p = cur"
  shows "if \<exists>y \<in> insert (slobfree st) (ahead S cur (slobfree st)). n \<le> s_units st y
    then \<exists>q x. q \<in> S \<and> s_next st q = x \<and> n \<le> s_units st x \<and>
      slob_alloc_loop sz n 0 p cur st = (let (r, st) = slob_take n 0 q x st in Some (Some r, st))
    else \<exists>q. slob_alloc_loop sz n 0 p cur st = slob_alloc_loop sz n 0 q (slobfree st) st"
  using assms(2,3)
proof (induction "card (ahead S cur (slobfree st))" arbitrary: p cur rule: less_induct)
  case less
  let ?t = "slobfree st"
  have cS: "cur \<in> S" using slob_next_in [OF ok less.prems(1)] less.prems(2) by simp
  note m = slob_okD(2,3) [OF ok] and tS = slob_okD(4) [OF ok]
  show ?case
  proof (cases "n \<le> s_units st cur")
    case True
    have "cur \<in> insert ?t (ahead S cur ?t)"
      using cS by (cases "cur = ?t") (auto simp: ahead_def)
    then have ex: "\<exists>y \<in> insert ?t (ahead S cur ?t). n \<le> s_units st y" using True by blast
    show ?thesis unfolding if_P [OF ex] using slob_alloc_loop_hit [OF True] less.prems True by blast
  next
    case no: False
    show ?thesis
    proof (cases "cur = ?t")
      case True
      with no show ?thesis by auto
    next
      case False
      note a = ahead_after [OF m cS tS False]
      have nx: "s_next st cur = after S cur" by (rule slob_okD(6) [OF ok cS])
      have "finite (ahead S (after S cur) ?t)" using slob_okD(1) [OF ok] by (rule finite_subset [rotated]) (auto simp: ahead_def)
      then have "card (ahead S (after S cur) ?t) < card (ahead S cur ?t)" using a by simp
      note IH = less.hyps [OF this cS nx]
      have ex: "(\<exists>y \<in> insert ?t (ahead S cur ?t). n \<le> s_units st y) \<longleftrightarrow>
          (\<exists>y \<in> insert ?t (ahead S (after S cur) ?t). n \<le> s_units st y)"
        using a(1) no by auto
      show ?thesis unfolding ex slob_alloc_loop_pass [OF no False] nx by (rule IH)
    qed
  qed
qed

lemma slob_search_all:
  assumes ok: "slob_ok st S"
  shows "if \<exists>y \<in> S. n \<le> s_units st y
    then \<exists>q x. q \<in> S \<and> s_next st q = x \<and> n \<le> s_units st x \<and>
      slob_alloc_loop sz n 0 (slobfree st) (s_next st (slobfree st)) st = (let (r, st) = slob_take n 0 q x st in Some (Some r, st))
    else \<exists>q. slob_alloc_loop sz n 0 (slobfree st) (s_next st (slobfree st)) st = slob_alloc_loop sz n 0 q (slobfree st) st"
proof -
  have "insert (slobfree st) (ahead S (s_next st (slobfree st)) (slobfree st)) = S"
    using ahead_whole [OF slob_okD(2,3,4) [OF ok]] slob_okD(6) [OF ok slob_okD(4) [OF ok]] by simp
  with slob_search [OF ok slob_okD(4) [OF ok] refl, of n sz] show ?thesis by simp
qed

section \<open>Allocation\<close>

text \<open>The \<open>n\<close> units at \<open>x\<close> are taken from the free units \<open>F\<close>.\<close>

definition taken_from :: "nat set \<Rightarrow> slob \<Rightarrow> slob \<Rightarrow> nat \<Rightarrow> nat \<Rightarrow> bool" where
  "taken_from F st st' x n \<longleftrightarrow> {x..<x + n} \<subseteq> F \<and> s_units st' x = n \<and> same_rest st st' \<and> headers_kept st st' F \<and>
     (\<exists>S'. slob_ok st' S' \<and> free_units st' S' = F - {x..<x + n})"

lemma free_above_arena:
  assumes "slob_ok st S" "u \<in> free_units st S"
  shows "arena st + 1 < u"
proof -
  from assms(2) obtain x where x: "x \<in> S" "x \<noteq> arena st" "x \<le> u" by (auto simp: free_units_def extent_def)
  then have "arena st < x" using slob_okD(3) [OF assms(1)] by (metis le_neq_implies_less)
  with slob_okD(8) [OF assms(1) slob_okD(2) [OF assms(1)] x(1)] slob_okD(5) [OF assms(1)] x(3) show ?thesis by simp
qed

lemma slob_alloc_fits:
  assumes ok: "slob_ok st S" and n: "2 \<le> n" "\<exists>x \<in> S. n \<le> s_units st x"
  shows "\<exists>x st'. slob_alloc_loop sz n 0 (slobfree st) (s_next st (slobfree st)) st = Some (Some x, st') \<and>
    taken_from (free_units st S) st st' x n"
proof -
  from slob_search_all [OF ok, of n sz, unfolded if_P [OF n(2)]] obtain q x where q: "q \<in> S" "s_next st q = x"
    "n \<le> s_units st x"
    "slob_alloc_loop sz n 0 (slobfree st) (s_next st (slobfree st)) st = (let (r, st) = slob_take n 0 q x st in Some (Some r, st))"
    by blast
  have xa: "x \<noteq> arena st" using slob_okD(5) [OF ok] q(3) n(1) by auto
  have n0: "0 < n" using n(1) by simp
  from slob_take_ok [OF ok q(1,2) xa n0 q(3)] q(4) show ?thesis by (auto simp: taken_from_def)
qed

text \<open>A page that \<^verbatim>\<open>alloc_pages\<close> may answer with is not in the list.\<close>

definition page_apart :: "slob \<Rightarrow> nat set \<Rightarrow> nat \<Rightarrow> bool" where
  "page_apart st F p \<longleftrightarrow> arena st + 1 < p \<and> {p..<p + page_units} \<inter> F = {}"

lemma SLOB_UNITS_page: "SLOB_UNITS PGSIZE = page_units"
  by (simp add: SLOB_UNITS_def)

lemma page_freed:
  assumes ok: "slob_ok st S" and p: "page_apart st (free_units st S) p"
  shows "\<exists>st' S'. slob_free (Some p) PGSIZE st = Some st' \<and> slob_ok st' S' \<and>
    free_units st' S' = free_units st S \<union> {p..<p + page_units} \<and> same_rest st st' \<and>
    headers_kept st st' (free_units st S \<union> {p..<p + page_units}) \<and> (\<exists>x \<in> S'. page_units \<le> s_units st' x)"
proof -
  have a: "arena st + 1 < p" "(0 :: nat) < page_units" using p by (simp_all add: page_apart_def)
  have "extent st x \<inter> {p..<p + page_units} = {}" if "x \<in> S" for x
  proof (cases "x = arena st")
    case True
    with slob_okD(5) [OF ok] a(1) show ?thesis by (auto simp: extent_def)
  next
    case False
    with that p show ?thesis by (auto simp: page_apart_def free_units_def)
  qed
  then have dis: "\<forall>x \<in> S. extent st x \<inter> {p..<p + page_units} = {}" by blast
  have un: "if PGSIZE = 0 then s_units st p = page_units else SLOB_UNITS PGSIZE = page_units"
    by (simp add: SLOB_UNITS_page)
  from slob_free_ok [OF ok a un dis] obtain st' S' where r: "slob_free (Some p) PGSIZE st = Some st'" "slob_ok st' S'"
    "free_units st' S' = free_units st S \<union> {p..<p + page_units}" "same_rest st st'" "headers_kept st st' (free_units st' S')"
    by blast
  have run: "\<exists>x \<in> S'. page_units \<le> s_units st' x"
  proof -
    have "p \<in> free_units st' S'" using r(3) by simp
    then obtain x where x: "x \<in> S'" "x \<noteq> arena st'" "p \<in> extent st' x" by (auto simp: free_units_def)
    have "p + k \<in> extent st' x" if "k < page_units" for k
      using that
    proof (induction k)
      case 0
      with x(3) show ?case by simp
    next
      case (Suc k)
      then have IH: "p + k \<in> extent st' x" by simp
      have "p + Suc k \<in> free_units st' S'" using r(3) Suc.prems by simp
      then obtain y where y: "y \<in> S'" "p + Suc k \<in> extent st' y" by (auto simp: free_units_def)
      have "\<not> x + s_units st' x < y \<and> \<not> y + s_units st' y < x"
        using IH y(2) by (auto simp: extent_def)
      then have "y = x" using slob_okD(8) [OF r(2) x(1) y(1)] slob_okD(8) [OF r(2) y(1) x(1)] by (metis linorder_neqE_nat)
      with y(2) show ?case by simp
    qed
    from this [of 0] this [of "page_units - 1"] have "page_units \<le> s_units st' x" by (simp add: extent_def)
    with x(1) show ?thesis by blast
  qed
  from r run show ?thesis by auto
qed

lemma slob_alloc_grows:
  assumes ok: "slob_ok st S" and n: "2 \<le> n" "n \<le> page_units" "\<forall>x \<in> S. s_units st x < n" and sz: "sz \<noteq> PGSIZE"
    and pg: "\<And>p ps. page_answers st = Some p # ps \<Longrightarrow> page_apart st (free_units st S) p"
  shows "case page_answers st of
      Some p # ps \<Rightarrow> \<exists>x st'. slob_alloc_loop sz n 0 (slobfree st) (s_next st (slobfree st)) st = Some (Some x, st') \<and>
        taken_from (free_units st S \<union> {p..<p + page_units}) (st\<lparr>page_answers := ps\<rparr>) st' x n
    | _ \<Rightarrow> slob_alloc_loop sz n 0 (slobfree st) (s_next st (slobfree st)) st =
        Some (None, st\<lparr>page_answers := tl (page_answers st)\<rparr>)"
proof -
  have no: "\<not> (\<exists>x \<in> S. n \<le> s_units st x)" using n(3) by (meson not_le)
  have nt: "\<not> n \<le> s_units st (slobfree st)" using n(3) slob_okD(4) [OF ok] by (meson not_le)
  from slob_search_all [OF ok, of n sz, unfolded if_not_P [OF no]] slob_alloc_loop_end [OF nt refl sz]
  have eq: "slob_alloc_loop sz n 0 (slobfree st) (s_next st (slobfree st)) st =
      (case slob_get_free_pages 0 st of
         (None, st) \<Rightarrow> Some (None, st)
       | (Some p, st) \<Rightarrow>
           do { st \<leftarrow> slob_free (Some p) PGSIZE st;
                slob_alloc_loop sz n 0 (slobfree st) (s_next st (slobfree st)) st })" by force
  show ?thesis
  proof (cases "page_answers st")
    case Nil
    then have "st\<lparr>page_answers := []\<rparr> = st" by simp
    with Nil eq show ?thesis by (simp add: slob_get_free_pages_def)
  next
    case (Cons a ps)
    show ?thesis
    proof (cases a)
      case None
      with Cons eq show ?thesis by (simp add: slob_get_free_pages_def)
    next
      case (Some p)
      let ?st = "st\<lparr>page_answers := ps\<rparr>"
      have ok1: "slob_ok ?st S" "free_units ?st S = free_units st S" using ok by (simp_all add: slob_ok_def free_units_def extent_def)
      have ap: "page_apart ?st (free_units ?st S) p" using pg [of p ps] Cons Some ok1(2) by (simp add: page_apart_def)
      from page_freed [OF ok1(1) ap] obtain st1 S1 where r: "slob_free (Some p) PGSIZE ?st = Some st1" "slob_ok st1 S1"
        "free_units st1 S1 = free_units st S \<union> {p..<p + page_units}" "same_rest ?st st1"
        "headers_kept ?st st1 (free_units st S \<union> {p..<p + page_units})" "\<exists>x \<in> S1. page_units \<le> s_units st1 x"
        unfolding ok1(2) by blast
      have "\<exists>x \<in> S1. n \<le> s_units st1 x" using r(6) n(2) by (meson order_trans)
      from slob_alloc_fits [OF r(2) n(1) this, of sz] obtain x st' where
        t: "slob_alloc_loop sz n 0 (slobfree st1) (s_next st1 (slobfree st1)) st1 = Some (Some x, st')"
        "taken_from (free_units st1 S1) st1 st' x n" by blast
      have "taken_from (free_units st S \<union> {p..<p + page_units}) ?st st' x n"
        using t(2) r(4,5) same_rest_trans [OF r(4)] unfolding taken_from_def r(3) by (auto simp: headers_kept_def)
      with t(1) r(1) eq Cons Some show ?thesis by (auto simp: slob_get_free_pages_def)
    qed
  qed
qed

section \<open>Small and big blocks\<close>

definition room :: "slob \<Rightarrow> nat set \<Rightarrow> nat \<Rightarrow> bool" where
  "room st S n \<longleftrightarrow> (\<exists>x \<in> S. n \<le> s_units st x)"

definition page_ready :: "slob \<Rightarrow> bool" where
  "page_ready st \<longleftrightarrow> page_answers st \<noteq> [] \<and> hd (page_answers st) \<noteq> None"

text \<open>The units an allocation chooses from, and the state with the answer it has used.\<close>

definition pool :: "slob \<Rightarrow> nat set \<Rightarrow> nat \<Rightarrow> nat set" where
  "pool st S n = free_units st S \<union>
     (if \<not> room st S n \<and> page_ready st then {the (hd (page_answers st))..<the (hd (page_answers st)) + page_units} else {})"

definition asked :: "slob \<Rightarrow> nat set \<Rightarrow> nat \<Rightarrow> slob" where
  "asked st S n = (if room st S n then st else st\<lparr>page_answers := tl (page_answers st)\<rparr>)"

definition answers_apart :: "slob \<Rightarrow> nat set \<Rightarrow> bool" where
  "answers_apart st F \<longleftrightarrow> (\<forall>p. Some p \<in> set (page_answers st) \<longrightarrow> page_apart st F p)"

lemma slob_alloc_ok:
  assumes ok: "slob_ok st S" and ap: "answers_apart st (free_units st S)"
    and sz: "sz + SLOB_UNIT < PGSIZE" "SLOB_UNIT < sz"
  shows "if room st S (SLOB_UNITS sz) \<or> page_ready st
    then \<exists>x st'. slob_alloc sz 0 st = Some (Some x, st') \<and>
      taken_from (pool st S (SLOB_UNITS sz)) (asked st S (SLOB_UNITS sz)) st' x (SLOB_UNITS sz)
    else slob_alloc sz 0 st = Some (None, asked st S (SLOB_UNITS sz))"
proof -
  let ?n = "SLOB_UNITS sz"
  have n: "2 \<le> ?n" "?n \<le> page_units" "sz \<noteq> PGSIZE" using sz by (auto simp: SLOB_UNITS_def)
  have eq: "slob_alloc sz 0 st = slob_alloc_loop sz ?n 0 (slobfree st) (s_next st (slobfree st)) st"
    using sz(1) by (simp add: slob_alloc_def)
  show ?thesis
  proof (cases "room st S ?n")
    case True
    from slob_alloc_fits [OF ok n(1) True [unfolded room_def], of sz] True eq show ?thesis by (simp add: pool_def asked_def)
  next
    case False
    then have small: "\<forall>x \<in> S. s_units st x < ?n" by (auto simp: room_def)
    have pg: "page_apart st (free_units st S) p" if "page_answers st = Some p # ps" for p ps
      using ap that by (simp add: answers_apart_def)
    note G = slob_alloc_grows [OF ok n(1,2) small n(3), OF pg, folded eq]
    show ?thesis
    proof (cases "page_answers st")
      case Nil
      with G False show ?thesis by (simp add: asked_def page_ready_def)
    next
      case (Cons a ps)
      with G False show ?thesis by (cases a) (auto simp: pool_def asked_def page_ready_def)
    qed
  qed
qed

lemma taken_nonempty: "taken_from F st st' x n \<Longrightarrow> 0 < n \<Longrightarrow> x \<in> F"
  by (auto simp: taken_from_def)

text \<open>Freeing what was taken gives all units back.\<close>

lemma slob_free_taken:
  assumes t: "taken_from F st st' x n" and n: "0 < n" "if sz = 0 then s_units st'' x = n else SLOB_UNITS sz = n"
    and gt: "\<forall>u \<in> F. arena st + 1 < u"
    and same: "s_units st'' = s_units st'" "s_next st'' = s_next st'" "slobfree st'' = slobfree st'" "arena st'' = arena st'"
  shows "\<exists>st3 S3. slob_free (Some x) sz st'' = Some st3 \<and> slob_ok st3 S3 \<and> free_units st3 S3 = F \<and> same_rest st'' st3"
proof -
  obtain S' where S': "slob_ok st' S'" "free_units st' S' = F - {x..<x + n}" using t by (auto simp: taken_from_def)
  have ok: "slob_ok st'' S'" "free_units st'' S' = F - {x..<x + n}"
    using S' same by (simp_all add: slob_ok_def free_units_def extent_def)
  have ar: "arena st'' = arena st" using t same_restD(1) same(4) by (auto simp: taken_from_def)
  have a: "arena st'' + 1 < x" using gt taken_nonempty [OF t n(1)] ar by simp
  have "extent st'' y \<inter> {x..<x + n} = {}" if "y \<in> S'" for y
  proof (cases "y = arena st''")
    case True
    with slob_okD(5) [OF ok(1)] a show ?thesis by (auto simp: extent_def)
  next
    case False
    then have "extent st'' y \<subseteq> F - {x..<x + n}" using that ok(2) by (auto simp: free_units_def)
    then show ?thesis by blast
  qed
  then have dis: "\<forall>y \<in> S'. extent st'' y \<inter> {x..<x + n} = {}" by blast
  from slob_free_ok [OF ok(1) a n dis] obtain st3 S3 where
    "slob_free (Some x) sz st'' = Some st3" "slob_ok st3 S3" "free_units st3 S3 = free_units st'' S' \<union> {x..<x + n}"
    "same_rest st'' st3" by blast
  moreover have "F - {x..<x + n} \<union> {x..<x + n} = F" using t by (auto simp: taken_from_def)
  ultimately show ?thesis using ok(2) by auto
qed

lemma pool_above:
  assumes "slob_ok st S" "answers_apart st (free_units st S)" "u \<in> pool st S n"
  shows "arena st + 1 < u"
proof (cases "u \<in> free_units st S")
  case True
  then show ?thesis by (rule free_above_arena [OF assms(1)])
next
  case False
  with assms(3) obtain p where "Some p \<in> set (page_answers st)" "p \<le> u"
    by (cases "page_answers st") (auto simp: pool_def page_ready_def split: if_splits)
  with assms(2) show ?thesis by (auto simp: answers_apart_def page_apart_def)
qed

text \<open>The list of big blocks.\<close>

primrec big_chain :: "slob \<Rightarrow> nat option \<Rightarrow> nat list \<Rightarrow> bool" where
  "big_chain st bb [] \<longleftrightarrow> bb = None"
| "big_chain st bb (b # bs) \<longleftrightarrow> bb = Some b \<and> big_chain st (bb_next st b) bs"

lemma bigblock_find_none:
  "big_chain st bb bs \<Longrightarrow> \<forall>b \<in> set bs. bb_pages st b \<noteq> Some p \<Longrightarrow> bigblock_find p prev bb st = Some None"
  by (induction bs arbitrary: prev bb) (simp_all add: bigblock_find.simps)

lemma find_order_bound: "find_order s = k \<Longrightarrow> s div 2 ^ k \<le> 4096 \<and> (0 < k \<longrightarrow> 4096 < s div 2 ^ (k - 1))"
proof (induction s arbitrary: k rule: find_order.induct)
  case (1 s)
  show ?case
  proof (cases "s > 4096")
    case False
    with 1(2) have "k = 0" by (subst (asm) find_order.simps) simp
    with False show ?thesis by simp
  next
    case True
    then obtain j where j: "k = Suc j" "find_order (s div 2) = j" using 1(2) by (subst (asm) find_order.simps) auto
    from 1(1) [OF True j(2)] have d: "s div 2 div 2 ^ j \<le> 4096" "0 < j \<longrightarrow> 4096 < s div 2 div 2 ^ (j - 1)" by simp_all
    have "s div 2 div 2 ^ (j - 1) = s div 2 ^ j" if "0 < j"
      using that by (cases j) (simp_all add: div_mult2_eq)
    with d j(1) True show ?thesis by (cases "j = 0") (auto simp: div_mult2_eq)
  qed
qed

lemma find_order_unique: "s div 2 ^ k \<le> 4096 \<Longrightarrow> (0 < k \<Longrightarrow> 4096 < s div 2 ^ (k - 1)) \<Longrightarrow> find_order s = k"
proof (induction k arbitrary: s)
  case 0
  then show ?case by (subst find_order.simps) simp
next
  case (Suc k)
  have a: "s div 2 div 2 ^ k \<le> 4096" using Suc.prems(1) by (simp add: div_mult2_eq)
  have big: "4096 < s div 2 ^ k" using Suc.prems(2) by simp
  have "4096 < s div 2 div 2 ^ (k - 1)" if "0 < k"
    using that big by (cases k) (simp_all add: div_mult2_eq)
  then have "find_order (s div 2) = k" by (rule Suc.IH [OF a])
  moreover have "4096 < s" using big div_le_dividend [of s "2 ^ k"] by linarith
  ultimately show ?case by (subst find_order.simps) simp
qed

lemma kmalloc_small_eq:
  assumes "sz < PGSIZE - SLOB_UNIT"
  shows "kmalloc sz st = do { (m, st) \<leftarrow> slob_alloc (sz + SLOB_UNIT) 0 st; Some (map_option (\<lambda>m. m + 1) m, st) }"
  using assms by (simp add: kmalloc_def)

text \<open>The record of a big block.\<close>

definition big_recorded :: "nat \<Rightarrow> nat \<Rightarrow> nat \<Rightarrow> slob \<Rightarrow> slob" where
  "big_recorded b p k st = st\<lparr>bb_order := (bb_order st)(b := k), bb_pages := (bb_pages st)(b := Some p),
     bb_next := (bb_next st)(b := bigblocks st), bigblocks := Some b, page_answers := tl (page_answers st)\<rparr>"

lemma kmalloc_big:
  assumes "PGSIZE - SLOB_UNIT \<le> sz" "kmalloc sz st = Some (Some p, st')"
  shows "\<exists>b st1. slob_alloc sizeof_bigblock 0 st = Some (Some b, st1) \<and> page_ready st1 \<and>
    hd (page_answers st1) = Some p \<and> st' = big_recorded b p (find_order sz) st1"
proof -
  obtain m st1 where a: "slob_alloc sizeof_bigblock 0 st = Some (m, st1)"
    using assms by (cases "slob_alloc sizeof_bigblock 0 st") (auto simp: kmalloc_def)
  obtain b where m: "m = Some b" using assms a by (cases m) (auto simp: kmalloc_def)
  have ready: "page_ready st1 \<and> hd (page_answers st1) = Some p"
    using assms a m by (cases "page_answers st1"; cases "hd (page_answers st1)")
      (auto simp: kmalloc_def slob_get_free_pages_def page_ready_def Let_def bind_Some_iff)
  then obtain ps where "page_answers st1 = Some p # ps" by (cases "page_answers st1") (auto simp: page_ready_def)
  then have "st' = big_recorded b p (find_order sz) st1"
    using assms a m by (auto simp: kmalloc_def slob_get_free_pages_def Let_def big_recorded_def)
  with a m ready show ?thesis by blast
qed

section \<open>Properties\<close>

text \<open>C37: \<^verbatim>\<open>kmalloc\<close> of 1 to 4063 bytes takes units that were free, or that come from a
  page it asks for when no free block is large enough; they hold the size of the block and
  the bytes, no other header changes, and the free list stays sound. It returns NULL, and
  changes nothing, only when no block is large enough and there is no page. For 4064 to
  4079 bytes it panics.\<close>
theorem kmalloc_outcomes:
  assumes "slob_ok st S" "answers_apart st (free_units st S)" "0 < sz" "sz < PGSIZE - SLOB_UNIT"
  defines "n \<equiv> SLOB_UNITS (sz + SLOB_UNIT)"
  shows "if PGSIZE - 2 * SLOB_UNIT \<le> sz then kmalloc sz st = None
    else if room st S n \<or> page_ready st then
      \<exists>x st'. kmalloc sz st = Some (Some (x + 1), st') \<and> taken_from (pool st S n) (asked st S n) st' x n \<and>
        sz \<le> (n - 1) * SLOB_UNIT
    else kmalloc sz st = Some (None, asked st S n)"
proof (cases "PGSIZE - 2 * SLOB_UNIT \<le> sz")
  case True
  then have "slob_alloc (sz + SLOB_UNIT) 0 st = None" using assms(4) by (simp add: slob_alloc_def)
  with True show ?thesis using assms(4) by (simp add: kmalloc_small_eq)
next
  case False
  then have s: "sz + SLOB_UNIT + SLOB_UNIT < PGSIZE" "SLOB_UNIT < sz + SLOB_UNIT" using assms(3) by simp_all
  have n: "sz \<le> (n - 1) * SLOB_UNIT" using False unfolding n_def SLOB_UNITS_def by simp
  from slob_alloc_ok [OF assms(1,2) s, folded n_def] n show ?thesis
    using False by (auto simp: kmalloc_small_eq split: if_splits)
qed

text \<open>The empty heap with one page to come.\<close>

definition empty_heap :: slob where
  "empty_heap = \<lparr>s_units = (\<lambda>_. 1), s_next = (\<lambda>_. 8), arena = 8, slobfree = 8, bigblocks = None, bb_order = (\<lambda>_. 0),
     bb_pages = (\<lambda>_. None), bb_next = (\<lambda>_. None), page_answers = [Some 512], freed_pages = []\<rparr>"

lemma empty_heap_ok: "slob_ok empty_heap {8}" "free_units empty_heap {8} = {}"
  "answers_apart empty_heap {}" "page_ready empty_heap" "\<not> room empty_heap {8} 3"
proof -
  have "after {8} 8 = 8" by (rule after_wrapI) simp_all
  then show "slob_ok empty_heap {8}" by (simp add: slob_ok_def empty_heap_def)
qed (auto simp: free_units_def empty_heap_def answers_apart_def page_apart_def page_ready_def room_def)

theorem kmalloc_outcomes_witness:
  "\<exists>x st'. kmalloc 20 empty_heap = Some (Some (x + 1), st') \<and> {x..<x + 3} \<subseteq> {512..<768} \<and> kmalloc 4070 empty_heap = None"
proof -
  have n: "SLOB_UNITS (20 + SLOB_UNIT) = 3" by (simp add: SLOB_UNITS_def)
  have pl: "pool empty_heap {8} 3 = {512..<768}"
    using empty_heap_ok(2,4,5) by (simp add: pool_def) (simp add: empty_heap_def)
  note th = kmalloc_outcomes [OF empty_heap_ok(1), unfolded empty_heap_ok(2), OF empty_heap_ok(3)]
  have "kmalloc 4070 empty_heap = None" using th [of 4070] by simp
  moreover have "\<exists>x st'. kmalloc 20 empty_heap = Some (Some (x + 1), st') \<and>
      taken_from (pool empty_heap {8} 3) (asked empty_heap {8} 3) st' x 3"
    using th [of 20] empty_heap_ok(4) unfolding n by auto
  ultimately show ?thesis unfolding pl taken_from_def by blast
qed

text \<open>C38: \<^verbatim>\<open>kfree\<close> of what \<^verbatim>\<open>kmalloc\<close> returned makes all units free again that
  were free before, with those of a page the call asked for; for a big block its pages go
  back to the page allocator with their order and its record leaves the list.\<close>
theorem kmalloc_kfree:
  assumes "slob_ok st S" "answers_apart st (free_units st S)" "\<forall>p. Some p \<in> set (page_answers st) \<longrightarrow> p mod page_units = 0"
    and "big_chain st (bigblocks st) bs"
    and "0 < sz" "kmalloc sz st = Some (Some p, st')"
  defines "n \<equiv> (if sz < PGSIZE - SLOB_UNIT then SLOB_UNITS (sz + SLOB_UNIT) else SLOB_UNITS sizeof_bigblock)"
  assumes "\<forall>b \<in> set bs. \<exists>q. bb_pages st b = Some q \<and> q \<notin> pool st S n"
  shows "\<exists>st'' S''. kfree (Some p) st' = Some st'' \<and> slob_ok st'' S'' \<and> free_units st'' S'' = pool st S n \<and>
    bigblocks st'' = bigblocks st \<and>
    freed_pages st'' = (if sz < PGSIZE - SLOB_UNIT then freed_pages st else (p, find_order sz) # freed_pages st)"
proof (cases "sz < PGSIZE - SLOB_UNIT")
  case True
  have n: "n = SLOB_UNITS (sz + SLOB_UNIT)" using True by (simp add: n_def)
  have s: "sz + SLOB_UNIT + SLOB_UNIT < PGSIZE" "SLOB_UNIT < sz + SLOB_UNIT"
    using assms(5,6) True by (auto simp: kmalloc_small_eq slob_alloc_def split: if_splits)
  have n2: "2 \<le> n" using s by (simp add: n SLOB_UNITS_def)
  from slob_alloc_ok [OF assms(1,2) s, folded n] assms(6) obtain x where x: "p = x + 1"
    "taken_from (pool st S n) (asked st S n) st' x n"
    using True by (auto simp: kmalloc_small_eq split: if_splits)
  have gt: "\<forall>u \<in> pool st S n. arena (asked st S n) + 1 < u"
    using pool_above [OF assms(1,2)] by (simp add: asked_def)
  have un: "if 0 = (0 :: nat) then s_units st' x = n else SLOB_UNITS 0 = n" using x(2) by (simp add: taken_from_def)
  have n0: "0 < n" using n2 by simp
  from slob_free_taken [OF x(2) n0 un gt refl refl refl refl] obtain st3 S3 where
    r: "slob_free (Some x) 0 st' = Some st3" "slob_ok st3 S3" "free_units st3 S3 = pool st S n" "same_rest st' st3" by blast
  have rest: "same_rest (asked st S n) st'" using x(2) by (simp add: taken_from_def)
  have ch: "big_chain st' bb bs' = big_chain st bb bs'" for bb bs'
    by (induction bs' arbitrary: bb) (use same_restD(5) [OF rest] in \<open>simp_all add: asked_def\<close>)
  have "x + 1 \<in> pool st S n" using x(2) n2 unfolding taken_from_def by auto
  then have "\<forall>b \<in> set bs. bb_pages st' b \<noteq> Some p"
    using assms(8) same_restD(4) [OF rest] x(1) by (auto simp: asked_def split: if_splits)
  moreover have "big_chain st' (bigblocks st') bs"
    using assms(4) same_restD(2) [OF rest] ch by (simp add: asked_def split: if_splits)
  ultimately have "bigblock_find p None (bigblocks st') st' = Some None" by (intro bigblock_find_none)
  then have "kfree (Some p) st' = Some st3" using r(1) x(1) by (simp add: kfree_def)
  with r same_restD [OF r(4)] same_restD [OF rest] True show ?thesis by (auto simp: asked_def split: if_splits)
next
  case False
  then have big: "PGSIZE - SLOB_UNIT \<le> sz" by simp
  have n: "n = SLOB_UNITS sizeof_bigblock" using False by (simp add: n_def)
  have s: "sizeof_bigblock + SLOB_UNIT < PGSIZE" "SLOB_UNIT < sizeof_bigblock" by simp_all
  from kmalloc_big [OF big assms(6)] obtain b st1 where b: "slob_alloc sizeof_bigblock 0 st = Some (Some b, st1)" "page_ready st1"
    "hd (page_answers st1) = Some p" "st' = big_recorded b p (find_order sz) st1" by blast
  from slob_alloc_ok [OF assms(1,2) s, folded n] b(1) have t: "taken_from (pool st S n) (asked st S n) st1 b n"
    by (auto split: if_splits)
  have n0: "0 < n" by (simp add: n SLOB_UNITS_def)
  have rest: "same_rest (asked st S n) st1" using t by (simp add: taken_from_def)
  have "Some p \<in> set (page_answers st1)" using b(2,3) by (metis page_ready_def list.set_sel(1))
  then have "Some p \<in> set (page_answers st)"
    using same_restD(6) [OF rest] by (cases "page_answers st") (auto simp: asked_def split: if_splits)
  then have al: "p mod page_units = 0" using assms(3) by blast
  have gt: "\<forall>u \<in> pool st S n. arena (asked st S n) + 1 < u"
    using pool_above [OF assms(1,2)] by (simp add: asked_def)
  have un: "if sizeof_bigblock = 0 then s_units st2 b = n else SLOB_UNITS sizeof_bigblock = n" for st2 :: slob
    by (simp add: n)
  let ?st = "slob_free_pages p (find_order sz) (st'\<lparr>bigblocks := bigblocks st1\<rparr>)"
  have same: "s_units ?st = s_units st1" "s_next ?st = s_next st1" "slobfree ?st = slobfree st1" "arena ?st = arena st1"
    by (simp_all add: b(4) big_recorded_def slob_free_pages_def)
  from slob_free_taken [OF t n0 un gt same] obtain st3 S3 where
    r: "slob_free (Some b) sizeof_bigblock ?st = Some st3" "slob_ok st3 S3" "free_units st3 S3 = pool st S n" "same_rest ?st st3" by blast
  have "bigblock_find p None (bigblocks st') st' = Some (Some (None, b))"
    by (subst bigblock_find.simps) (simp add: b(4) big_recorded_def)
  then have "kfree (Some p) st' = slob_free (Some b) sizeof_bigblock ?st"
    using al by (simp add: kfree_def b(4) big_recorded_def slob_free_pages_def)
  with r same_restD [OF r(4)] same_restD [OF rest] False show ?thesis
    by (auto simp: asked_def b(4) big_recorded_def slob_free_pages_def split: if_splits)
qed

theorem kmalloc_kfree_witness:
  "\<exists>p st' st'' S. kmalloc 20 empty_heap = Some (Some p, st') \<and> kfree (Some p) st' = Some st'' \<and>
    slob_ok st'' S \<and> free_units st'' S = {512..<768}"
proof -
  have n: "SLOB_UNITS (20 + SLOB_UNIT) = 3" by (simp add: SLOB_UNITS_def)
  have s: "(20 :: nat) + SLOB_UNIT + SLOB_UNIT < PGSIZE" "SLOB_UNIT < (20 :: nat) + SLOB_UNIT" by simp_all
  have pl: "pool empty_heap {8} 3 = {512..<768}"
    using empty_heap_ok(2,4,5) by (simp add: pool_def) (simp add: empty_heap_def)
  have ap: "answers_apart empty_heap (free_units empty_heap {8})" using empty_heap_ok(2,3) by simp
  obtain p st' where k: "kmalloc 20 empty_heap = Some (Some p, st')"
    using slob_alloc_ok [OF empty_heap_ok(1) ap s] empty_heap_ok(4) by (auto simp: kmalloc_small_eq)
  have al: "\<forall>p. Some p \<in> set (page_answers empty_heap) \<longrightarrow> p mod page_units = 0" and ch: "big_chain empty_heap (bigblocks empty_heap) []"
    by (simp_all add: empty_heap_def)
  have "\<exists>st'' S''. kfree (Some p) st' = Some st'' \<and> slob_ok st'' S'' \<and> free_units st'' S'' = {512..<768}"
    using kmalloc_kfree [OF empty_heap_ok(1) ap al ch _ k] unfolding pl n by (simp add: pl n) blast
  with k show ?thesis by blast
qed



end
