(* ===== verification/Vnode.thy ===== *)
theory Vnode
  imports SfsFile DList
begin

text \<open>
  kern/fs/vfs/inode.c and inode.h, kern/fs/devs/dev.c: inodes, their two counters, the
  dispatch of an operation through \<^verbatim>\<open>in_ops\<close>, and the operations of device inodes.
  The state \<^verbatim>\<open>fsys\<close> is the one of the whole layer above the file systems: the inodes
  in memory (a freed one is absent, and a use of it has no result), the devices, the
  descriptor tables and, as \<^verbatim>\<open>below\<close>, what the drivers and file systems keep for
  themselves. A function table of the code (\<^verbatim>\<open>inode_ops\<close>, \<^verbatim>\<open>struct device\<close>) is a
  record of functions; an absent entry is the null pointer. The tables are constants of the
  code, so they are an argument \<^verbatim>\<open>T\<close>, indexed by address.
\<close>

section \<open>The state\<close>

record inode =
  is_device :: bool
  ref_count :: int
  open_count :: int
  in_fs :: nat
  in_ops :: nat

datatype fd_status = FD_NONE | FD_INIT | FD_OPENED | FD_CLOSED

record fd_file =
  status :: fd_status
  readable :: bool
  writable :: bool
  fd :: int
  fpos :: int
  node :: nat
  fopen_count :: int

record files_struct =
  pwd :: nat
  fd_array :: "fd_file list"
  files_count :: int

record vdev =
  devname :: string
  devnode :: nat
  vfs :: nat
  mountable :: bool

datatype vdev_le = VdevList | VdevLink nat

record 'f fsys =
  inodes :: "nat \<Rightarrow> inode option"
  below :: 'f
  bootfs_node :: nat
  vdevs :: "nat \<Rightarrow> vdev"
  vdev_links :: "vdev_le links"
  ftabs :: "nat \<Rightarrow> files_struct option"
  filesp :: nat

type_synonym 'f call = "'f fsys \<Rightarrow> (int \<times> 'f fsys) option"

record 'f inode_ops =
  vop_magic :: nat
  op_open :: "(nat \<Rightarrow> 32 word \<Rightarrow> 'f call) option"
  op_close :: "(nat \<Rightarrow> 'f call) option"
  op_read :: "(nat \<Rightarrow> iobuf \<Rightarrow> 'f fsys \<Rightarrow> (int \<times> iobuf \<times> 'f fsys) option) option"
  op_write :: "(nat \<Rightarrow> iobuf \<Rightarrow> 'f fsys \<Rightarrow> (int \<times> iobuf \<times> 'f fsys) option) option"
  op_fstat :: "(nat \<Rightarrow> 'f fsys \<Rightarrow> (int \<times> stat \<times> 'f fsys) option) option"
  op_fsync :: "(nat \<Rightarrow> 'f call) option"
  op_namefile :: "(nat \<Rightarrow> iobuf \<Rightarrow> 'f fsys \<Rightarrow> (int \<times> iobuf \<times> 'f fsys) option) option"
  op_getdirentry :: "(nat \<Rightarrow> iobuf \<Rightarrow> 'f fsys \<Rightarrow> (int \<times> iobuf \<times> 'f fsys) option) option"
  op_reclaim :: "(nat \<Rightarrow> 'f call) option"
  op_gettype :: "(nat \<Rightarrow> 'f fsys \<Rightarrow> (int \<times> nat \<times> 'f fsys) option) option"
  op_tryseek :: "(nat \<Rightarrow> int \<Rightarrow> 'f call) option"
  op_truncate :: "(nat \<Rightarrow> int \<Rightarrow> 'f call) option"
  op_create :: "(nat \<Rightarrow> string \<Rightarrow> bool \<Rightarrow> 'f fsys \<Rightarrow> (int \<times> nat \<times> 'f fsys) option) option"
  op_lookup :: "(nat \<Rightarrow> string \<Rightarrow> 'f fsys \<Rightarrow> (int \<times> nat \<times> 'f fsys) option) option"
  op_ioctl :: "(nat \<Rightarrow> int \<Rightarrow> nat \<Rightarrow> 'f call) option"

type_synonym 'f optab = "nat \<Rightarrow> 'f inode_ops"

definition VOP_MAGIC :: nat where "VOP_MAGIC = 0x8c4ba476"
definition MAX_INODE_COUNT :: int where "MAX_INODE_COUNT = 0x10000"

section \<open>Dispatch and counters\<close>

text \<open>There is no inode at the null pointer.\<close>

definition inode_at :: "'f fsys \<Rightarrow> nat \<Rightarrow> inode option" where
  "inode_at s n = (if n = 0 then None else inodes s n)"

text \<open>The rest of the memory block is what \<^verbatim>\<open>kmalloc\<close> found there.\<close>

definition alloc_inode :: "bool \<Rightarrow> nat \<Rightarrow> inode \<Rightarrow> 'f fsys \<Rightarrow> nat \<times> 'f fsys" where
  "alloc_inode device p rest s =
     (if p \<noteq> 0 then (p, s\<lparr>inodes := (inodes s)(p := Some (rest\<lparr>is_device := device\<rparr>))\<rparr>)
      else (p, s))"

definition inode_check :: "'f optab \<Rightarrow> nat \<Rightarrow> 'f fsys \<Rightarrow> unit option" where
  "inode_check T n s =
     do { kassert (n \<noteq> 0);
          i \<leftarrow> inode_at s n;
          kassert (in_ops i \<noteq> 0);
          kassert (vop_magic (T (in_ops i)) = VOP_MAGIC);
          kassert (ref_count i \<ge> open_count i \<and> open_count i \<ge> 0);
          kassert (ref_count i < MAX_INODE_COUNT \<and> open_count i < MAX_INODE_COUNT) }"

text \<open>The macro \<^verbatim>\<open>__vop_op\<close>: a missing operation is a failed assertion.\<close>

definition vop_op :: "'f optab \<Rightarrow> ('f inode_ops \<Rightarrow> 'o option) \<Rightarrow> nat \<Rightarrow> 'f fsys \<Rightarrow> 'o option" where
  "vop_op T sel n s =
     do { kassert (n \<noteq> 0);
          i \<leftarrow> inode_at s n;
          kassert (in_ops i \<noteq> 0);
          f \<leftarrow> sel (T (in_ops i));
          inode_check T n s;
          Some f }"

definition vop_open :: "'f optab \<Rightarrow> nat \<Rightarrow> 32 word \<Rightarrow> 'f call" where
  "vop_open T n flags s = do { f \<leftarrow> vop_op T op_open n s; f n flags s }"

definition vop_close :: "'f optab \<Rightarrow> nat \<Rightarrow> 'f call" where
  "vop_close T n s = do { f \<leftarrow> vop_op T op_close n s; f n s }"

definition vop_read :: "'f optab \<Rightarrow> nat \<Rightarrow> iobuf \<Rightarrow> 'f fsys \<Rightarrow> (int \<times> iobuf \<times> 'f fsys) option" where
  "vop_read T n iob s = do { f \<leftarrow> vop_op T op_read n s; f n iob s }"

definition vop_write :: "'f optab \<Rightarrow> nat \<Rightarrow> iobuf \<Rightarrow> 'f fsys \<Rightarrow> (int \<times> iobuf \<times> 'f fsys) option" where
  "vop_write T n iob s = do { f \<leftarrow> vop_op T op_write n s; f n iob s }"

definition vop_fstat :: "'f optab \<Rightarrow> nat \<Rightarrow> 'f fsys \<Rightarrow> (int \<times> stat \<times> 'f fsys) option" where
  "vop_fstat T n s = do { f \<leftarrow> vop_op T op_fstat n s; f n s }"

definition vop_fsync :: "'f optab \<Rightarrow> nat \<Rightarrow> 'f call" where
  "vop_fsync T n s = do { f \<leftarrow> vop_op T op_fsync n s; f n s }"

definition vop_namefile :: "'f optab \<Rightarrow> nat \<Rightarrow> iobuf \<Rightarrow> 'f fsys \<Rightarrow> (int \<times> iobuf \<times> 'f fsys) option" where
  "vop_namefile T n iob s = do { f \<leftarrow> vop_op T op_namefile n s; f n iob s }"

definition vop_getdirentry :: "'f optab \<Rightarrow> nat \<Rightarrow> iobuf \<Rightarrow> 'f fsys \<Rightarrow> (int \<times> iobuf \<times> 'f fsys) option" where
  "vop_getdirentry T n iob s = do { f \<leftarrow> vop_op T op_getdirentry n s; f n iob s }"

definition vop_reclaim :: "'f optab \<Rightarrow> nat \<Rightarrow> 'f call" where
  "vop_reclaim T n s = do { f \<leftarrow> vop_op T op_reclaim n s; f n s }"

definition vop_gettype :: "'f optab \<Rightarrow> nat \<Rightarrow> 'f fsys \<Rightarrow> (int \<times> nat \<times> 'f fsys) option" where
  "vop_gettype T n s = do { f \<leftarrow> vop_op T op_gettype n s; f n s }"

definition vop_tryseek :: "'f optab \<Rightarrow> nat \<Rightarrow> int \<Rightarrow> 'f call" where
  "vop_tryseek T n pos s = do { f \<leftarrow> vop_op T op_tryseek n s; f n pos s }"

definition vop_truncate :: "'f optab \<Rightarrow> nat \<Rightarrow> int \<Rightarrow> 'f call" where
  "vop_truncate T n len s = do { f \<leftarrow> vop_op T op_truncate n s; f n len s }"

definition vop_create :: "'f optab \<Rightarrow> nat \<Rightarrow> string \<Rightarrow> bool \<Rightarrow> 'f fsys \<Rightarrow> (int \<times> nat \<times> 'f fsys) option" where
  "vop_create T n name excl s = do { f \<leftarrow> vop_op T op_create n s; f n name excl s }"

definition vop_lookup :: "'f optab \<Rightarrow> nat \<Rightarrow> string \<Rightarrow> 'f fsys \<Rightarrow> (int \<times> nat \<times> 'f fsys) option" where
  "vop_lookup T n path s = do { f \<leftarrow> vop_op T op_lookup n s; f n path s }"

definition vop_ioctl :: "'f optab \<Rightarrow> nat \<Rightarrow> int \<Rightarrow> nat \<Rightarrow> 'f call" where
  "vop_ioctl T n cmd data s = do { f \<leftarrow> vop_op T op_ioctl n s; f n cmd data s }"

definition set_inode :: "nat \<Rightarrow> inode \<Rightarrow> 'f fsys \<Rightarrow> 'f fsys" where
  "set_inode n i s = s\<lparr>inodes := (inodes s)(n \<mapsto> i)\<rparr>"

definition inode_ref_inc :: "nat \<Rightarrow> 'f call" where
  "inode_ref_inc n s =
     do { i \<leftarrow> inode_at s n;
          Some (ref_count i + 1, set_inode n (i\<lparr>ref_count := ref_count i + 1\<rparr>) s) }"

definition inode_ref_dec :: "'f optab \<Rightarrow> nat \<Rightarrow> 'f call" where
  "inode_ref_dec T n s =
     do { i \<leftarrow> inode_at s n;
          kassert (ref_count i > 0);
          let c = ref_count i - 1;
          let s = set_inode n (i\<lparr>ref_count := c\<rparr>) s;
          if c = 0 then do { (ret, s) \<leftarrow> vop_reclaim T n s; Some (c, s) }
          else Some (c, s) }"

definition inode_open_inc :: "nat \<Rightarrow> 'f call" where
  "inode_open_inc n s =
     do { i \<leftarrow> inode_at s n;
          Some (open_count i + 1, set_inode n (i\<lparr>open_count := open_count i + 1\<rparr>) s) }"

definition inode_open_dec :: "'f optab \<Rightarrow> nat \<Rightarrow> 'f call" where
  "inode_open_dec T n s =
     do { i \<leftarrow> inode_at s n;
          kassert (open_count i > 0);
          let c = open_count i - 1;
          let s = set_inode n (i\<lparr>open_count := c\<rparr>) s;
          if c = 0 then do { (ret, s) \<leftarrow> vop_close T n s; Some (c, s) }
          else Some (c, s) }"

definition inode_init :: "nat \<Rightarrow> nat \<Rightarrow> nat \<Rightarrow> 'f fsys \<Rightarrow> 'f fsys option" where
  "inode_init n ops fs s =
     do { i \<leftarrow> inode_at s n;
          (_, s) \<leftarrow> inode_ref_inc n
            (set_inode n (i\<lparr>ref_count := 0, open_count := 0, in_ops := ops, in_fs := fs\<rparr>) s);
          Some s }"

definition inode_kill :: "nat \<Rightarrow> 'f fsys \<Rightarrow> 'f fsys option" where
  "inode_kill n s =
     do { i \<leftarrow> inode_at s n;
          kassert (ref_count i = 0);
          kassert (open_count i = 0);
          Some (s\<lparr>inodes := (inodes s)(n := None)\<rparr>) }"


section \<open>Device inodes\<close>

record 'f device =
  d_blocks_dev :: nat
  d_blocksize :: nat
  d_open :: "32 word \<Rightarrow> 'f \<Rightarrow> (int \<times> 'f) option"
  d_close :: "'f \<Rightarrow> (int \<times> 'f) option"
  d_io :: "iobuf \<Rightarrow> bool \<Rightarrow> 'f \<Rightarrow> (int \<times> iobuf \<times> 'f) option"
  d_ioctl :: "int \<Rightarrow> nat \<Rightarrow> 'f \<Rightarrow> (int \<times> 'f) option"

definition S_IFCHR :: nat where "S_IFCHR = 0x4000"
definition S_IFBLK :: nat where "S_IFBLK = 0x5000"

text \<open>\<^verbatim>\<open>vop_info(node, device)\<close>: the device in the inode, after the check of its type.\<close>

definition device_info :: "(nat \<Rightarrow> 'f device) \<Rightarrow> nat \<Rightarrow> 'f fsys \<Rightarrow> 'f device option" where
  "device_info D n s =
     do { kassert (n \<noteq> 0); i \<leftarrow> inode_at s n; kassert (is_device i); Some (D n) }"

definition dev_open :: "(nat \<Rightarrow> 'f device) \<Rightarrow> nat \<Rightarrow> 32 word \<Rightarrow> 'f call" where
  "dev_open D n open_flags s =
     (if and open_flags (or (or (or O_CREAT O_TRUNC) O_EXCL) O_APPEND) \<noteq> 0 then Some (- E_INVAL, s)
      else do { dev \<leftarrow> device_info D n s;
                (ret, b) \<leftarrow> d_open dev open_flags (below s);
                Some (ret, s\<lparr>below := b\<rparr>) })"

definition dev_close :: "(nat \<Rightarrow> 'f device) \<Rightarrow> nat \<Rightarrow> 'f call" where
  "dev_close D n s =
     do { dev \<leftarrow> device_info D n s;
          (ret, b) \<leftarrow> d_close dev (below s);
          Some (ret, s\<lparr>below := b\<rparr>) }"

definition dev_read :: "(nat \<Rightarrow> 'f device) \<Rightarrow> nat \<Rightarrow> iobuf \<Rightarrow> 'f fsys \<Rightarrow> (int \<times> iobuf \<times> 'f fsys) option" where
  "dev_read D n iob s =
     do { dev \<leftarrow> device_info D n s;
          (ret, iob, b) \<leftarrow> d_io dev iob False (below s);
          Some (ret, iob, s\<lparr>below := b\<rparr>) }"

definition dev_write :: "(nat \<Rightarrow> 'f device) \<Rightarrow> nat \<Rightarrow> iobuf \<Rightarrow> 'f fsys \<Rightarrow> (int \<times> iobuf \<times> 'f fsys) option" where
  "dev_write D n iob s =
     do { dev \<leftarrow> device_info D n s;
          (ret, iob, b) \<leftarrow> d_io dev iob True (below s);
          Some (ret, iob, s\<lparr>below := b\<rparr>) }"

definition dev_ioctl :: "(nat \<Rightarrow> 'f device) \<Rightarrow> nat \<Rightarrow> int \<Rightarrow> nat \<Rightarrow> 'f call" where
  "dev_ioctl D n cmd data s =
     do { dev \<leftarrow> device_info D n s;
          (ret, b) \<leftarrow> d_ioctl dev cmd data (below s);
          Some (ret, s\<lparr>below := b\<rparr>) }"

definition dev_gettype :: "(nat \<Rightarrow> 'f device) \<Rightarrow> nat \<Rightarrow> 'f fsys \<Rightarrow> (int \<times> nat \<times> 'f fsys) option" where
  "dev_gettype D n s =
     do { dev \<leftarrow> device_info D n s;
          Some (0, if d_blocks_dev dev > 0 then S_IFBLK else S_IFCHR, s) }"

definition dev_fstat :: "'f optab \<Rightarrow> (nat \<Rightarrow> 'f device) \<Rightarrow> nat \<Rightarrow> 'f fsys \<Rightarrow> (int \<times> stat \<times> 'f fsys) option" where
  "dev_fstat T D n s =
     do { let st = \<lparr>st_mode = 0, st_nlinks = 0, st_blocks = 0, st_size = 0\<rparr>;
          (ret, mode, s) \<leftarrow> vop_gettype T n s;
          let st = st\<lparr>st_mode := mode\<rparr>;
          if ret \<noteq> 0 then Some (ret, st, s)
          else do { dev \<leftarrow> device_info D n s;
                    Some (0, st\<lparr>st_nlinks := 1, st_blocks := d_blocks_dev dev,
                                st_size := w64 (d_blocks_dev dev * d_blocksize dev)\<rparr>, s) } }"

definition dev_tryseek :: "(nat \<Rightarrow> 'f device) \<Rightarrow> nat \<Rightarrow> int \<Rightarrow> 'f call" where
  "dev_tryseek D n pos s =
     do { dev \<leftarrow> device_info D n s;
          Some (if d_blocks_dev dev > 0 \<and> nat (pos mod 2 ^ 64) mod d_blocksize dev = 0 \<and>
                   pos \<ge> 0 \<and> nat pos < w64 (d_blocks_dev dev * d_blocksize dev)
                then 0 else - E_INVAL, s) }"

definition dev_lookup :: "nat \<Rightarrow> string \<Rightarrow> 'f fsys \<Rightarrow> (int \<times> nat \<times> 'f fsys) option" where
  "dev_lookup n path s =
     (if path \<noteq> [] then Some (- E_NOENT, 0, s)
      else do { (_, s) \<leftarrow> inode_ref_inc n s; Some (0, n, s) })"

definition dev_node_ops :: "'f optab \<Rightarrow> (nat \<Rightarrow> 'f device) \<Rightarrow> 'f inode_ops" where
  "dev_node_ops T D =
     \<lparr>vop_magic = VOP_MAGIC, op_open = Some (dev_open D), op_close = Some (dev_close D),
      op_read = Some (dev_read D), op_write = Some (dev_write D),
      op_fstat = Some (dev_fstat T D), op_fsync = None, op_namefile = None,
      op_getdirentry = None, op_reclaim = None, op_gettype = Some (dev_gettype D),
      op_tryseek = Some (dev_tryseek D), op_truncate = None, op_create = None,
      op_lookup = Some dev_lookup, op_ioctl = Some (dev_ioctl D)\<rparr>"

text \<open>The address \<^verbatim>\<open>ops\<close> stands for \<^verbatim>\<open>&dev_node_ops\<close>.\<close>

definition dev_create_inode :: "nat \<Rightarrow> nat \<Rightarrow> inode \<Rightarrow> 'f fsys \<Rightarrow> (nat \<times> 'f fsys) option" where
  "dev_create_inode ops p rest s =
     (let (n, s) = alloc_inode True p rest s
      in if n \<noteq> 0 then do { s \<leftarrow> inode_init n ops 0 s; Some (n, s) } else Some (n, s))"


section \<open>What the operations of an inode promise\<close>

definition rc :: "'f fsys \<Rightarrow> nat \<Rightarrow> int" where
  "rc s n = (case inode_at s n of None \<Rightarrow> 0 | Some i \<Rightarrow> ref_count i)"

definition oc :: "'f fsys \<Rightarrow> nat \<Rightarrow> int" where
  "oc s n = (case inode_at s n of None \<Rightarrow> 0 | Some i \<Rightarrow> open_count i)"

text \<open>Everything above the inodes is untouched.\<close>

definition same_above :: "'f fsys \<Rightarrow> 'f fsys \<Rightarrow> bool" where
  "same_above s s' \<longleftrightarrow> s' = s\<lparr>inodes := inodes s', below := below s'\<rparr>"

text \<open>The inodes outside \<^verbatim>\<open>X\<close> that were there are still there, of the same kind.\<close>

definition nodes_stay :: "nat set \<Rightarrow> 'f fsys \<Rightarrow> 'f fsys \<Rightarrow> bool" where
  "nodes_stay X s s' \<longleftrightarrow>
     (\<forall>n i. inode_at s n = Some i \<longrightarrow> n \<notin> X \<longrightarrow>
        (\<exists>i'. inode_at s' n = Some i' \<and> is_device i' = is_device i \<and> in_fs i' = in_fs i \<and> in_ops i' = in_ops i))"

text \<open>
  \<^verbatim>\<open>moves X a b s s'\<close>: of the inodes at most those in \<^verbatim>\<open>X\<close> are freed, the reference
  counts change by \<^verbatim>\<open>a\<close> and the open counts by \<^verbatim>\<open>b\<close>.
\<close>

definition moves :: "nat set \<Rightarrow> (nat \<Rightarrow> int) \<Rightarrow> (nat \<Rightarrow> int) \<Rightarrow> 'f fsys \<Rightarrow> 'f fsys \<Rightarrow> bool" where
  "moves X a b s s' \<longleftrightarrow> same_above s s' \<and> nodes_stay X s s' \<and>
     (\<forall>m. rc s' m = rc s m + a m) \<and> (\<forall>m. oc s' m = oc s m + b m)"

definition at :: "nat \<Rightarrow> nat \<Rightarrow> int" where
  "at n m = (if m = n then 1 else 0)"

definition none :: "nat \<Rightarrow> int" where
  "none m = 0"

abbreviation preserves :: "nat set \<Rightarrow> 'f fsys \<Rightarrow> 'f fsys \<Rightarrow> bool" where
  "preserves X \<equiv> moves X none none"

text \<open>The result of a lookup is in memory and carries one more reference than before.\<close>

definition found :: "nat \<Rightarrow> 'f fsys \<Rightarrow> 'f fsys \<Rightarrow> bool" where
  "found r s s' \<longleftrightarrow> moves {} (at r) none s s' \<and> inode_at s' r \<noteq> None"

lemma inode_at_nz: "inode_at s n = Some i \<Longrightarrow> n \<noteq> 0"
  by (auto simp: inode_at_def split: if_splits)

lemma inode_at_null [simp]: "inode_at s 0 = None"
  by (simp add: inode_at_def)

lemma inode_at_set: "n \<noteq> 0 \<Longrightarrow> inode_at (set_inode n i s) = (inode_at s)(n \<mapsto> i)"
  by (auto simp: inode_at_def set_inode_def fun_eq_iff)

lemma inode_at_simps [simp]:
  "inode_at (s\<lparr>below := b\<rparr>) = inode_at s" "inode_at (s\<lparr>bootfs_node := x\<rparr>) = inode_at s"
  "inode_at (s\<lparr>vdevs := v\<rparr>) = inode_at s" "inode_at (s\<lparr>vdev_links := l\<rparr>) = inode_at s"
  "inode_at (s\<lparr>ftabs := f\<rparr>) = inode_at s" "inode_at (s\<lparr>filesp := q\<rparr>) = inode_at s"
  by (simp_all add: inode_at_def fun_eq_iff)

lemma rc_set_inode: "n \<noteq> 0 \<Longrightarrow> rc (set_inode n i s) = (rc s)(n := ref_count i)"
  by (simp add: rc_def inode_at_set fun_eq_iff)

lemma oc_set_inode: "n \<noteq> 0 \<Longrightarrow> oc (set_inode n i s) = (oc s)(n := open_count i)"
  by (simp add: oc_def inode_at_set fun_eq_iff)

lemma rc_Some: "inode_at s n = Some i \<Longrightarrow> rc s n = ref_count i"
  by (simp add: rc_def)

lemma oc_Some: "inode_at s n = Some i \<Longrightarrow> oc s n = open_count i"
  by (simp add: oc_def)

lemma same_above_refl [simp]: "same_above s s"
  by (simp add: same_above_def)

lemma same_above_below [simp]: "same_above s (s\<lparr>below := b\<rparr>)"
  by (simp add: same_above_def)

lemma same_above_set [simp]: "same_above s (set_inode n i s)"
  by (simp add: same_above_def set_inode_def)

lemma same_aboveD:
  "same_above s s' \<Longrightarrow> bootfs_node s' = bootfs_node s \<and> vdevs s' = vdevs s \<and>
     vdev_links s' = vdev_links s \<and> ftabs s' = ftabs s \<and> filesp s' = filesp s"
  unfolding same_above_def by (metis fsys.select_convs fsys.update_convs fsys.surjective)

lemma same_above_iff:
  "same_above s s' \<longleftrightarrow> bootfs_node s' = bootfs_node s \<and> vdevs s' = vdevs s \<and>
     vdev_links s' = vdev_links s \<and> ftabs s' = ftabs s \<and> filesp s' = filesp s"
  by (cases s, cases s') (auto simp: same_above_def)

lemma at_eq [simp]: "at n n = 1"
  by (simp add: at_def)

lemma none_eq [simp]: "none m = 0"
  by (simp add: none_def)

lemma moves_refl [simp]: "preserves X s s"
  by (auto simp: moves_def nodes_stay_def)

lemma moves_below: "preserves X s (s\<lparr>below := b\<rparr>)"
  by (auto simp: moves_def nodes_stay_def rc_def oc_def)

lemma moves_trans:
  assumes "moves X a b s s'" "moves Y a' b' s' s''"
  shows "moves (X \<union> Y) (\<lambda>m. a m + a' m) (\<lambda>m. b m + b' m) s s''"
proof -
  have "nodes_stay (X \<union> Y) s s''"
    unfolding nodes_stay_def
  proof (intro allI impI)
    fix n i
    assume i: "inode_at s n = Some i" and "n \<notin> X \<union> Y"
    then have n: "n \<notin> X" "n \<notin> Y" by simp_all
    from assms(1) i n(1) obtain i' where i': "inode_at s' n = Some i'" "is_device i' = is_device i"
      "in_fs i' = in_fs i" "in_ops i' = in_ops i"
      unfolding moves_def nodes_stay_def by blast
    from assms(2) i'(1) n(2) obtain i'' where "inode_at s'' n = Some i''" "is_device i'' = is_device i'"
      "in_fs i'' = in_fs i'" "in_ops i'' = in_ops i'"
      unfolding moves_def nodes_stay_def by blast
    with i' show "\<exists>i'. inode_at s'' n = Some i' \<and> is_device i' = is_device i \<and> in_fs i' = in_fs i \<and> in_ops i' = in_ops i"
      by simp
  qed
  moreover have "same_above s s''"
    using assms by (simp add: moves_def same_above_iff)
  ultimately show ?thesis using assms by (simp add: moves_def)
qed

lemma nodes_stay_mono: "nodes_stay X s s' \<Longrightarrow> X \<subseteq> Y \<Longrightarrow> nodes_stay Y s s'"
  unfolding nodes_stay_def by blast

lemma moves_cong:
  "moves X a b s s' \<Longrightarrow> X \<subseteq> Y \<Longrightarrow> (\<And>m. a' m = a m) \<Longrightarrow> (\<And>m. b' m = b m) \<Longrightarrow> moves Y a' b' s s'"
  unfolding moves_def using nodes_stay_mono [of X s s' Y] by simp

lemma moves_after_keeps: "preserves X s s' \<Longrightarrow> moves Y a b s' s'' \<Longrightarrow> moves (X \<union> Y) a b s s''"
  by (drule (1) moves_trans) (erule moves_cong, auto)

lemma moves_keeps: "moves X a b s s' \<Longrightarrow> preserves Y s' s'' \<Longrightarrow> moves (X \<union> Y) a b s s''"
  by (drule (1) moves_trans) (erule moves_cong, auto)

lemma moves_live: "moves X a b s s' \<Longrightarrow> inode_at s n \<noteq> None \<Longrightarrow> n \<notin> X \<Longrightarrow> inode_at s' n \<noteq> None"
  unfolding moves_def nodes_stay_def by fastforce

lemma moves_set_inode:
  assumes "inode_at s n = Some i" "is_device i' = is_device i" "in_fs i' = in_fs i" "in_ops i' = in_ops i"
  shows "moves {} (\<lambda>m. if m = n then ref_count i' - ref_count i else 0)
    (\<lambda>m. if m = n then open_count i' - open_count i else 0) s (set_inode n i' s)"
  using assms inode_at_nz [OF assms(1)]
  by (auto simp: moves_def nodes_stay_def inode_at_set rc_set_inode oc_set_inode rc_Some oc_Some)

lemma ref_inc_found:
  assumes "inode_ref_inc n s = Some (c, s')"
  shows "found n s s'"
proof -
  from assms obtain i where i: "inode_at s n = Some i"
    and s': "s' = set_inode n (i\<lparr>ref_count := ref_count i + 1\<rparr>) s"
    by (auto simp: inode_ref_inc_def bind_Some_iff)
  have "moves {} (at n) none s s'"
    unfolding s' by (rule moves_cong [OF moves_set_inode [OF i]]) (simp_all add: at_def)
  then show ?thesis using inode_at_nz [OF i] by (simp add: found_def s' inode_at_set)
qed

lemma ref_inc_ok: "inode_at s n \<noteq> None \<Longrightarrow> \<exists>c s'. inode_ref_inc n s = Some (c, s')"
  by (auto simp: inode_ref_inc_def)

lemma open_inc_moves:
  assumes "inode_open_inc n s = Some (c, s')"
  shows "moves {} none (at n) s s'"
proof -
  from assms obtain i where i: "inode_at s n = Some i"
    and s': "s' = set_inode n (i\<lparr>open_count := open_count i + 1\<rparr>) s"
    by (auto simp: inode_open_inc_def bind_Some_iff)
  show ?thesis
    unfolding s' by (rule moves_cong [OF moves_set_inode [OF i]]) (simp_all add: at_def)
qed

lemma open_inc_ok: "inode_at s n \<noteq> None \<Longrightarrow> \<exists>c s'. inode_open_inc n s = Some (c, s')"
  by (auto simp: inode_open_inc_def)

lemma vop_op_Some:
  "vop_op T sel n s = Some f \<Longrightarrow>
   \<exists>i. inode_at s n = Some i \<and> sel (T (in_ops i)) = Some f \<and> 0 \<le> oc s n \<and> oc s n \<le> rc s n"
  by (auto simp: vop_op_def inode_check_def bind_Some_iff rc_Some oc_Some split: if_splits)


lemma vop_opE:
  assumes "do { f \<leftarrow> vop_op T sel n s; g f } = Some r"
  obtains f i where "sel (T (in_ops i)) = Some f" "inode_at s n = Some i" "0 \<le> oc s n" "oc s n \<le> rc s n"
    "g f = Some r"
  using assms vop_op_Some by (fastforce simp: bind_Some_iff)

section \<open>References that lookups hand out\<close>

definition goes :: "(nat \<Rightarrow> int) \<Rightarrow> (nat \<Rightarrow> int) \<Rightarrow> 'f fsys \<Rightarrow> 'f fsys \<Rightarrow> bool" where
  "goes a b s s' \<longleftrightarrow> moves {m. rc s m = 0} a b s s'"

text \<open>The result of a call that hands out a counted reference to \<^verbatim>\<open>r\<close> when it succeeds.\<close>

definition hands_out :: "int \<Rightarrow> nat \<Rightarrow> 'f fsys \<Rightarrow> 'f fsys \<Rightarrow> bool" where
  "hands_out ret r s s' \<longleftrightarrow>
     (if ret = 0 then goes (at r) none s s' \<and> inode_at s' r \<noteq> None else goes none none s s')"

abbreviation counted :: "'f fsys \<Rightarrow> bool" where
  "counted s \<equiv> \<forall>m. 0 \<le> rc s m"

lemma at_nonneg [simp]: "0 \<le> at n m"
  by (simp add: at_def)

lemma goes_moves: "moves X a b s s' \<Longrightarrow> (\<And>m. m \<in> X \<Longrightarrow> rc s m = 0) \<Longrightarrow> goes a b s s'"
  unfolding goes_def by (erule moves_cong) auto

lemma goes_keeps: "preserves {} s s' \<Longrightarrow> goes none none s s'"
  by (erule goes_moves) simp

lemma goes_found: "found n s s' \<Longrightarrow> goes (at n) none s s' \<and> inode_at s' n \<noteq> None"
  unfolding found_def by (auto intro: goes_moves)

lemma goes_rc: "goes a b s s' \<Longrightarrow> rc s' m = rc s m + a m"
  by (simp add: goes_def moves_def)

lemma goes_oc: "goes a b s s' \<Longrightarrow> oc s' m = oc s m + b m"
  by (simp add: goes_def moves_def)

lemma goes_above: "goes a b s s' \<Longrightarrow> same_above s s'"
  by (simp add: goes_def moves_def)

lemma goes_live: "goes a b s s' \<Longrightarrow> inode_at s n \<noteq> None \<Longrightarrow> rc s n \<noteq> 0 \<Longrightarrow> inode_at s' n \<noteq> None"
  unfolding goes_def by (erule moves_live) auto

lemma goes_trans:
  assumes "goes a b s s'" "goes a' b' s' s''" "counted s" "\<And>m. 0 \<le> a m"
    "\<And>m. a'' m = a m + a' m" "\<And>m. b'' m = b m + b' m"
  shows "goes a'' b'' s s''"
proof -
  have "moves ({m. rc s m = 0} \<union> {m. rc s' m = 0}) (\<lambda>m. a m + a' m) (\<lambda>m. b m + b' m) s s''"
    using assms(1,2) unfolding goes_def by (rule moves_trans)
  moreover have "rc s' m = 0 \<Longrightarrow> rc s m = 0" for m
    using goes_rc [OF assms(1), of m] assms(3,4) by (smt (verit))
  ultimately show ?thesis
    unfolding goes_def by (rule_tac moves_cong) (use assms(5,6) in auto)
qed

lemma goes_keep:
  assumes "goes a b s s'" "preserves {} s' s''"
  shows "goes a b s s''"
  using moves_keeps [OF assms(1) [unfolded goes_def] assms(2)] by (simp add: goes_def)

lemma goes_counted: "goes a b s s' \<Longrightarrow> counted s \<Longrightarrow> (\<And>m. 0 \<le> a m) \<Longrightarrow> counted s'"
  by (simp add: goes_rc)

lemma hands_outI: "hands_out ret r s s' \<Longrightarrow> ret = 0 \<Longrightarrow> goes (at r) none s s' \<and> inode_at s' r \<noteq> None"
  by (simp add: hands_out_def)

text \<open>Reclaiming an inode nobody refers to may remove it and changes no counter.\<close>

locale reclaim_layer =
  fixes T :: "'f optab"
  assumes reclaim_keeps: "op_reclaim (T a) = Some f9 \<Longrightarrow> f9 n s = Some (ret, s') \<Longrightarrow>
      rc s n = 0 \<Longrightarrow> oc s n = 0 \<Longrightarrow> preserves {n} s s'"

context reclaim_layer
begin

lemma vop_reclaim_keeps:
  assumes "vop_reclaim T n s = Some (ret, s')" "rc s n = 0"
  shows "preserves {n} s s'"
  using assms(1) unfolding vop_reclaim_def
  by (rule vop_opE) (use assms(2) in \<open>auto intro: reclaim_keeps\<close>)

text \<open>Giving a reference back: the last one reclaims the inode.\<close>

lemma ref_dec_moves:
  assumes "inode_ref_dec T n s = Some (c, s')"
  shows "0 < rc s n" "moves (if rc s n = 1 then {n} else {}) (\<lambda>m. - at n m) none s s'"
proof -
  from assms obtain i where i: "inode_at s n = Some i" and pos: "0 < ref_count i"
    and r: "(let t = set_inode n (i\<lparr>ref_count := ref_count i - 1\<rparr>) s
       in if ref_count i - 1 = 0 then do { (ret, t) \<leftarrow> vop_reclaim T n t; Some (0, t) }
          else Some (ref_count i - 1, t)) = Some (c, s')"
    by (auto simp: inode_ref_dec_def bind_Some_iff Let_def split: if_splits)
  show "0 < rc s n" using i pos by (simp add: rc_Some)
  let ?t = "set_inode n (i\<lparr>ref_count := ref_count i - 1\<rparr>) s"
  have t: "moves {} (\<lambda>m. - at n m) none s ?t"
    by (rule moves_cong [OF moves_set_inode [OF i]]) (simp_all add: at_def)
  show "moves (if rc s n = 1 then {n} else {}) (\<lambda>m. - at n m) none s s'"
  proof (cases "ref_count i = 1")
    case True
    with r obtain ret where "vop_reclaim T n ?t = Some (ret, s')"
      by (auto simp: bind_Some_iff)
    from vop_reclaim_keeps [OF this] True inode_at_nz [OF i] have "preserves {n} ?t s'"
      by (simp add: rc_set_inode)
    from moves_keeps [OF t this] i True show ?thesis by (simp add: rc_Some)
  next
    case False
    with r have "s' = ?t" by (auto simp: Let_def)
    with t i False show ?thesis by (simp add: rc_Some)
  qed
qed

text \<open>Giving back a reference that was taken on the way.\<close>

lemma goes_release:
  assumes "goes a b s t" "inode_ref_dec T n t = Some (c, s')" "\<And>m. at n m \<le> a m" "counted s"
    "\<And>m. a' m = a m - at n m"
  shows "goes a' b s s'"
proof -
  let ?X = "if rc t n = 1 then {n} else {}"
  have "moves ({m. rc s m = 0} \<union> ?X) (\<lambda>m. a m + - at n m) (\<lambda>m. b m + none m) s s'"
    using assms(1) [unfolded goes_def] ref_dec_moves(2) [OF assms(2)] by (rule moves_trans)
  moreover have "m \<in> ?X \<Longrightarrow> rc s m = 0" for m
    using goes_rc [OF assms(1), of n] assms(3) [of n] assms(4) [rule_format, of n]
    by (auto split: if_splits)
  ultimately show ?thesis
    unfolding goes_def by (rule_tac moves_cong) (use assms(5) in auto)
qed

lemma release_live:
  assumes "inode_ref_dec T n t = Some (c, s')" "inode_at t r \<noteq> None" "r = n \<Longrightarrow> 1 < rc t n"
  shows "inode_at s' r \<noteq> None"
  using moves_live [OF ref_dec_moves(2) [OF assms(1)] assms(2)] assms(3) by (cases "rc t n = 1") auto

end

text \<open>
  The contract of an operation table: no operation changes the counters of an inode or
  anything above the inodes, except that a lookup that succeeds counts the reference it
  hands out, and reclaiming an inode may remove it.
\<close>

locale inode_layer = reclaim_layer +
  assumes open_keeps: "op_open (T a) = Some f1 \<Longrightarrow> f1 n flags s = Some (ret, s') \<Longrightarrow> preserves {} s s'"
    and close_keeps: "op_close (T a) = Some f2 \<Longrightarrow> f2 n s = Some (ret, s') \<Longrightarrow> preserves {} s s'"
    and read_keeps: "op_read (T a) = Some f3 \<Longrightarrow> f3 n iob s = Some (ret, iob', s') \<Longrightarrow> preserves {} s s'"
    and write_keeps: "op_write (T a) = Some f4 \<Longrightarrow> f4 n iob s = Some (ret, iob', s') \<Longrightarrow> preserves {} s s'"
    and fstat_keeps: "op_fstat (T a) = Some f5 \<Longrightarrow> f5 n s = Some (ret, st, s') \<Longrightarrow> preserves {} s s'"
    and fsync_keeps: "op_fsync (T a) = Some f6 \<Longrightarrow> f6 n s = Some (ret, s') \<Longrightarrow> preserves {} s s'"
    and namefile_goes: "op_namefile (T a) = Some f7 \<Longrightarrow> f7 n iob s = Some (ret, iob', s') \<Longrightarrow> counted s \<Longrightarrow>
      goes none none s s'"
    and getdirentry_keeps: "op_getdirentry (T a) = Some f8 \<Longrightarrow> f8 n iob s = Some (ret, iob', s') \<Longrightarrow> preserves {} s s'"
    and gettype_keeps: "op_gettype (T a) = Some f10 \<Longrightarrow> f10 n s = Some (ret, ty, s') \<Longrightarrow> preserves {} s s'"
    and tryseek_keeps: "op_tryseek (T a) = Some f11 \<Longrightarrow> f11 n pos s = Some (ret, s') \<Longrightarrow> preserves {} s s'"
    and truncate_keeps: "op_truncate (T a) = Some f12 \<Longrightarrow> f12 n len s = Some (ret, s') \<Longrightarrow> preserves {} s s'"
    and no_create: "op_create (T a) = None"
    and lookup_hands: "op_lookup (T a) = Some f14 \<Longrightarrow> f14 n path s = Some (ret, r, s') \<Longrightarrow> counted s \<Longrightarrow>
      hands_out ret r s s'"
    and ioctl_keeps: "op_ioctl (T a) = Some f15 \<Longrightarrow> f15 n cmd data s = Some (ret, s') \<Longrightarrow> preserves {} s s'"

context inode_layer
begin

lemma vop_open_keeps: "vop_open T n flags s = Some (ret, s') \<Longrightarrow> preserves {} s s'"
  unfolding vop_open_def by (erule vop_opE) (rule open_keeps)

lemma vop_close_keeps: "vop_close T n s = Some (ret, s') \<Longrightarrow> preserves {} s s'"
  unfolding vop_close_def by (erule vop_opE) (rule close_keeps)

lemma vop_read_keeps: "vop_read T n iob s = Some (ret, iob', s') \<Longrightarrow> preserves {} s s'"
  unfolding vop_read_def by (erule vop_opE) (rule read_keeps)

lemma vop_write_keeps: "vop_write T n iob s = Some (ret, iob', s') \<Longrightarrow> preserves {} s s'"
  unfolding vop_write_def by (erule vop_opE) (rule write_keeps)

lemma vop_fstat_keeps: "vop_fstat T n s = Some (ret, st, s') \<Longrightarrow> preserves {} s s'"
  unfolding vop_fstat_def by (erule vop_opE) (rule fstat_keeps)

lemma vop_fsync_keeps: "vop_fsync T n s = Some (ret, s') \<Longrightarrow> preserves {} s s'"
  unfolding vop_fsync_def by (erule vop_opE) (rule fsync_keeps)

lemma vop_namefile_goes:
  "vop_namefile T n iob s = Some (ret, iob', s') \<Longrightarrow> counted s \<Longrightarrow> goes none none s s'"
  unfolding vop_namefile_def by (erule vop_opE) (rule namefile_goes)

lemma vop_getdirentry_keeps: "vop_getdirentry T n iob s = Some (ret, iob', s') \<Longrightarrow> preserves {} s s'"
  unfolding vop_getdirentry_def by (erule vop_opE) (rule getdirentry_keeps)

lemma vop_gettype_keeps: "vop_gettype T n s = Some (ret, ty, s') \<Longrightarrow> preserves {} s s'"
  unfolding vop_gettype_def by (erule vop_opE) (rule gettype_keeps)

lemma vop_tryseek_keeps: "vop_tryseek T n pos s = Some (ret, s') \<Longrightarrow> preserves {} s s'"
  unfolding vop_tryseek_def by (erule vop_opE) (rule tryseek_keeps)

lemma vop_truncate_keeps: "vop_truncate T n len s = Some (ret, s') \<Longrightarrow> preserves {} s s'"
  unfolding vop_truncate_def by (erule vop_opE) (rule truncate_keeps)

lemma vop_ioctl_keeps: "vop_ioctl T n cmd data s = Some (ret, s') \<Longrightarrow> preserves {} s s'"
  unfolding vop_ioctl_def by (erule vop_opE) (rule ioctl_keeps)

lemma vop_create_panics: "vop_create T n name excl s = None"
  by (auto simp: vop_create_def vop_op_def no_create bind_eq_None_conv)

lemma vop_lookup_hands:
  "vop_lookup T n path s = Some (ret, r, s') \<Longrightarrow> counted s \<Longrightarrow> hands_out ret r s s'"
  unfolding vop_lookup_def by (erule vop_opE) (rule lookup_hands)

lemma open_dec_moves:
  assumes "inode_open_dec T n s = Some (c, s')"
  shows "0 < oc s n" "moves {} none (\<lambda>m. - at n m) s s'"
proof -
  from assms obtain i where i: "inode_at s n = Some i" and pos: "0 < open_count i"
    and r: "(let t = set_inode n (i\<lparr>open_count := open_count i - 1\<rparr>) s
       in if open_count i - 1 = 0 then do { (ret, t) \<leftarrow> vop_close T n t; Some (0, t) }
          else Some (open_count i - 1, t)) = Some (c, s')"
    by (auto simp: inode_open_dec_def bind_Some_iff Let_def split: if_splits)
  show "0 < oc s n" using i pos by (simp add: oc_Some)
  let ?t = "set_inode n (i\<lparr>open_count := open_count i - 1\<rparr>) s"
  have t: "moves {} none (\<lambda>m. - at n m) s ?t"
    by (rule moves_cong [OF moves_set_inode [OF i]]) (simp_all add: at_def)
  show "moves {} none (\<lambda>m. - at n m) s s'"
  proof (cases "open_count i = 1")
    case True
    with r obtain ret where "vop_close T n ?t = Some (ret, s')"
      by (auto simp: bind_Some_iff)
    from moves_keeps [OF t vop_close_keeps [OF this]] show ?thesis by simp
  next
    case False
    with r have "s' = ?t" by (auto simp: Let_def)
    with t show ?thesis by simp
  qed
qed

end

text \<open>
  The table of the device inodes keeps the contract. \<^verbatim>\<open>dev_table\<close> is the table at every
  address, with the dispatch of \<^verbatim>\<open>vop_gettype\<close> inside \<^verbatim>\<open>dev_fstat\<close> going through
  the table itself.
\<close>

definition dev_table :: "(nat \<Rightarrow> 'f device) \<Rightarrow> 'f optab" where
  "dev_table D a = dev_node_ops (\<lambda>_. dev_node_ops (\<lambda>_. \<lparr>vop_magic = VOP_MAGIC, op_open = None, op_close = None,
      op_read = None, op_write = None, op_fstat = None, op_fsync = None, op_namefile = None,
      op_getdirentry = None, op_reclaim = None, op_gettype = None, op_tryseek = None, op_truncate = None,
      op_create = None, op_lookup = None, op_ioctl = None\<rparr>) D) D"

lemma dev_table_fixed: "dev_table D a = dev_node_ops (dev_table D) D"
proof -
  have "vop_gettype (dev_table D) n s = vop_gettype (\<lambda>_. dev_node_ops T D) n s" for T n s
    by (simp add: vop_gettype_def vop_op_def inode_check_def dev_table_def dev_node_ops_def)
  then have "dev_fstat (dev_table D) D = dev_fstat (\<lambda>_. dev_node_ops T D) D" for T
    by (simp add: dev_fstat_def fun_eq_iff)
  then show ?thesis by (simp add: dev_table_def dev_node_ops_def)
qed

lemma dev_gettype_keeps: "dev_gettype D n s = Some (ret, ty, s') \<Longrightarrow> s' = s"
  by (auto simp: dev_gettype_def bind_Some_iff)

lemma dev_fstat_keeps:
  assumes "dev_fstat (dev_table D) D n s = Some (ret, st, s')" shows "s' = s"
proof -
  have "vop_gettype (dev_table D) n s = Some (ret, ty, s') \<Longrightarrow> s' = s" for ret ty s'
    unfolding vop_gettype_def
    by (erule vop_opE) (auto simp: dev_table_def dev_node_ops_def dest: dev_gettype_keeps)
  then show ?thesis using assms
    by (auto simp: dev_fstat_def bind_Some_iff Let_def split: if_splits)
qed

lemma dev_lookup_hands:
  assumes "dev_lookup n path s = Some (ret, r, s')"
  shows "hands_out ret r s s'"
  using assms goes_keeps [of s s]
  by (auto simp: dev_lookup_def hands_out_def bind_Some_iff split: if_splits dest!: ref_inc_found goes_found)

interpretation dv: inode_layer "dev_table D" for D :: "nat \<Rightarrow> 'f device"
  by unfold_locales
    (auto simp: dev_table_fixed dev_node_ops_def dev_open_def dev_close_def dev_read_def dev_write_def
      dev_tryseek_def dev_ioctl_def bind_Some_iff moves_below
      split: if_splits dest: dev_lookup_hands dev_gettype_keeps dev_fstat_keeps)

end
