(* ===== verification/Vfs.thy ===== *)
theory Vfs
  imports Vnode
begin

text \<open>
  kern/fs/vfs/vfsdev.c, vfs.c, vfspath.c, vfslookup.c and vfsfile.c: the list of named
  devices, the boot file system, the current directory, paths, and opening and closing.
  The file systems that can be mounted have one table of functions, \<^verbatim>\<open>F\<close>. A path is a
  string; \<^verbatim>\<open>get_device\<close> writes a null byte over the colon of its buffer, so the
  functions that pass a path on also return what the buffer holds afterwards. The three
  semaphores have no counterpart, since each call is one step.
\<close>

record 'f fs_ops =
  fs_sync :: "nat \<Rightarrow> 'f call"
  fs_get_root :: "nat \<Rightarrow> 'f fsys \<Rightarrow> (nat \<times> 'f fsys) option"
  fs_unmount :: "nat \<Rightarrow> 'f call"
  fs_cleanup :: "nat \<Rightarrow> 'f fsys \<Rightarrow> 'f fsys option"

definition FS_MAX_DNAME_LEN :: nat where "FS_MAX_DNAME_LEN = 31"
definition S_IFMT :: nat where "S_IFMT = 0x7000"

section \<open>The device list\<close>

fun le2vdev :: "vdev_le \<Rightarrow> nat" where
  "le2vdev (VdevLink p) = p"
| "le2vdev VdevList = 0"

definition vfs_devlist_init :: "'f fsys \<Rightarrow> 'f fsys" where
  "vfs_devlist_init s = s\<lparr>vdev_links := list_init VdevList (vdev_links s)\<rparr>"

text \<open>The loops over the list differ in the test that ends them.\<close>

partial_function (option) vdev_walk :: "(vdev \<Rightarrow> bool) \<Rightarrow> vdev_le \<Rightarrow> 'f fsys \<Rightarrow> nat option option" where
  "vdev_walk P le s =
     (let le = list_next le (vdev_links s)
      in if le = VdevList then Some None
         else if P (vdevs s (le2vdev le)) then Some (Some (le2vdev le))
         else vdev_walk P le s)"

text \<open>Results: the error code, the inode for \<^verbatim>\<open>*node_store\<close> and the state.\<close>

definition vdev_root :: "'f fs_ops \<Rightarrow> vdev \<Rightarrow> 'f fsys \<Rightarrow> (nat \<times> 'f fsys) option" where
  "vdev_root F v s =
     (if vfs v \<noteq> 0 then fs_get_root F (vfs v) s
      else if \<not> mountable v then do { (_, s) \<leftarrow> inode_ref_inc (devnode v) s; Some (devnode v, s) }
      else Some (0, s))"

definition vfs_get_root :: "'f fs_ops \<Rightarrow> string \<Rightarrow> 'f fsys \<Rightarrow> (int \<times> nat \<times> 'f fsys) option" where
  "vfs_get_root F name s =
     (if list_empty VdevList (vdev_links s) then Some (- E_NO_DEV, 0, s)
      else do {
        r \<leftarrow> vdev_walk (\<lambda>v. devname v = name) VdevList s;
        case r of None \<Rightarrow> Some (- E_NO_DEV, 0, s)
        | Some p \<Rightarrow>
            do { (node, s) \<leftarrow> vdev_root F (vdevs s p) s;
                 if node \<noteq> 0 then Some (0, node, s) else Some (- E_NA_DEV, 0, s) } })"

definition vfs_get_devname :: "nat \<Rightarrow> 'f fsys \<Rightarrow> string option option" where
  "vfs_get_devname fs s =
     do { kassert (fs \<noteq> 0);
          r \<leftarrow> vdev_walk (\<lambda>v. vfs v = fs) VdevList s;
          Some (map_option (\<lambda>p. devname (vdevs s p)) r) }"

definition check_devname_conflict :: "string \<Rightarrow> 'f fsys \<Rightarrow> bool option" where
  "check_devname_conflict name s =
     do { r \<leftarrow> vdev_walk (\<lambda>v. devname v = name) VdevList s; Some (r = None) }"

text \<open>
  \<^verbatim>\<open>strdup_ok\<close> is whether \<^verbatim>\<open>strdup\<close> finds memory, \<^verbatim>\<open>p\<close> what \<^verbatim>\<open>kmalloc\<close> returns for
  the entry.
\<close>

definition vfs_do_add :: "bool \<Rightarrow> nat \<Rightarrow> string \<Rightarrow> nat \<Rightarrow> nat \<Rightarrow> bool \<Rightarrow> 'f call" where
  "vfs_do_add strdup_ok p name n fs mnt s =
     do { kassert (n = 0 \<and> \<not> mnt \<or> n \<noteq> 0 \<and> (case inode_at s n of Some i \<Rightarrow> is_device i | None \<Rightarrow> False));
          if length name > FS_MAX_DNAME_LEN then Some (- E_TOO_BIG, s)
          else if \<not> strdup_ok then Some (- E_NO_MEM, s)
          else if p = 0 then Some (- E_NO_MEM, s)
          else do {
            new \<leftarrow> check_devname_conflict name s;
            if \<not> new then Some (- E_EXISTS, s)
            else Some (0, s\<lparr>vdevs := (vdevs s)(p := \<lparr>devname = name, devnode = n, vfs = fs, mountable = mnt\<rparr>),
                            vdev_links := list_add VdevList (VdevLink p) (vdev_links s)\<rparr>) } }"

definition vfs_add_fs :: "bool \<Rightarrow> nat \<Rightarrow> string \<Rightarrow> nat \<Rightarrow> 'f call" where
  "vfs_add_fs strdup_ok p name fs s = vfs_do_add strdup_ok p name 0 fs False s"

definition vfs_add_dev :: "bool \<Rightarrow> nat \<Rightarrow> string \<Rightarrow> nat \<Rightarrow> bool \<Rightarrow> 'f call" where
  "vfs_add_dev strdup_ok p name n mnt s = vfs_do_add strdup_ok p name n 0 mnt s"

definition find_mount :: "string \<Rightarrow> 'f fsys \<Rightarrow> (int \<times> nat) option" where
  "find_mount name s =
     do { r \<leftarrow> vdev_walk (\<lambda>v. mountable v \<and> devname v = name) VdevList s;
          case r of Some p \<Rightarrow> Some (0, p) | None \<Rightarrow> Some (- E_NO_DEV, 0) }"

text \<open>The function to mount with returns its code and what it left in \<^verbatim>\<open>vdev->fs\<close>.\<close>

definition vfs_mount ::
  "(nat \<Rightarrow> nat \<Rightarrow> 'f fsys \<Rightarrow> (int \<times> nat \<times> 'f fsys) option) \<Rightarrow> string \<Rightarrow> 'f call" where
  "vfs_mount mountfunc name s =
     do { (ret, p) \<leftarrow> find_mount name s;
          if ret \<noteq> 0 then Some (ret, s)
          else if vfs (vdevs s p) \<noteq> 0 then Some (- E_BUSY, s)
          else do {
            kassert (mountable (vdevs s p));
            kassert (devnode (vdevs s p) \<noteq> 0);
            i \<leftarrow> inode_at s (devnode (vdevs s p));
            kassert (is_device i);
            (ret, fs, s) \<leftarrow> mountfunc (devnode (vdevs s p)) (vfs (vdevs s p)) s;
            let s = s\<lparr>vdevs := (vdevs s)(p := (vdevs s p)\<lparr>vfs := fs\<rparr>)\<rparr>;
            if ret = 0 then do { kassert (vfs (vdevs s p) \<noteq> 0); Some (ret, s) }
            else Some (ret, s) } }"

definition vfs_unmount :: "'f fs_ops \<Rightarrow> string \<Rightarrow> 'f call" where
  "vfs_unmount F name s =
     do { (ret, p) \<leftarrow> find_mount name s;
          if ret \<noteq> 0 then Some (ret, s)
          else if vfs (vdevs s p) = 0 then Some (- E_INVAL, s)
          else do {
            kassert (mountable (vdevs s p));
            (ret, s) \<leftarrow> fs_sync F (vfs (vdevs s p)) s;
            if ret \<noteq> 0 then Some (ret, s)
            else do {
              (ret, s) \<leftarrow> fs_unmount F (vfs (vdevs s p)) s;
              Some (ret, if ret = 0 then s\<lparr>vdevs := (vdevs s)(p := (vdevs s p)\<lparr>vfs := 0\<rparr>)\<rparr> else s) } } }"

definition unmount_one :: "'f fs_ops \<Rightarrow> nat \<Rightarrow> 'f fsys \<Rightarrow> 'f fsys option" where
  "unmount_one F p s =
     (if mountable (vdevs s p) \<and> vfs (vdevs s p) \<noteq> 0 then
        do { (ret, s) \<leftarrow> fs_sync F (vfs (vdevs s p)) s;
             if ret \<noteq> 0 then Some s
             else do {
               (ret, s) \<leftarrow> fs_unmount F (vfs (vdevs s p)) s;
               if ret \<noteq> 0 then Some s
               else Some (s\<lparr>vdevs := (vdevs s)(p := (vdevs s p)\<lparr>vfs := 0\<rparr>)\<rparr>) } }
      else Some s)"

partial_function (option) unmount_loop :: "'f fs_ops \<Rightarrow> vdev_le \<Rightarrow> 'f fsys \<Rightarrow> 'f fsys option" where
  "unmount_loop F le s =
     (let le = list_next le (vdev_links s)
      in if le = VdevList then Some s
         else do { s \<leftarrow> unmount_one F (le2vdev le) s; unmount_loop F le s })"

definition vfs_unmount_all :: "'f fs_ops \<Rightarrow> 'f call" where
  "vfs_unmount_all F s =
     (if list_empty VdevList (vdev_links s) then Some (0, s)
      else do { s \<leftarrow> unmount_loop F VdevList s; Some (0, s) })"

partial_function (option) cleanup_loop :: "'f fs_ops \<Rightarrow> vdev_le \<Rightarrow> 'f fsys \<Rightarrow> 'f fsys option" where
  "cleanup_loop F le s =
     (let le = list_next le (vdev_links s)
      in if le = VdevList then Some s
         else do { s \<leftarrow> (if vfs (vdevs s (le2vdev le)) \<noteq> 0 then fs_cleanup F (vfs (vdevs s (le2vdev le))) s
                         else Some s);
                   cleanup_loop F le s })"

definition vfs_cleanup :: "'f fs_ops \<Rightarrow> 'f fsys \<Rightarrow> 'f fsys option" where
  "vfs_cleanup F s =
     (if list_empty VdevList (vdev_links s) then Some s else cleanup_loop F VdevList s)"

section \<open>Boot file system and current directory\<close>

definition change_bootfs :: "'f optab \<Rightarrow> nat \<Rightarrow> 'f fsys \<Rightarrow> 'f fsys option" where
  "change_bootfs T n s =
     (let old = bootfs_node s; s = s\<lparr>bootfs_node := n\<rparr>
      in if old \<noteq> 0 then do { (_, s) \<leftarrow> inode_ref_dec T old s; Some s } else Some s)"

definition vfs_get_bootfs :: "'f fsys \<Rightarrow> (int \<times> nat \<times> 'f fsys) option" where
  "vfs_get_bootfs s =
     (if bootfs_node s \<noteq> 0 then
        do { (_, t) \<leftarrow> inode_ref_inc (bootfs_node s) s; Some (0, bootfs_node s, t) }
      else Some (- E_NOENT, 0, s))"

definition get_cwd_nolock :: "'f fsys \<Rightarrow> nat option" where
  "get_cwd_nolock s = do { fs \<leftarrow> ftabs s (filesp s); Some (pwd fs) }"

definition set_cwd_nolock :: "nat \<Rightarrow> 'f fsys \<Rightarrow> 'f fsys option" where
  "set_cwd_nolock n s =
     do { fs \<leftarrow> ftabs s (filesp s); Some (s\<lparr>ftabs := (ftabs s)(filesp s \<mapsto> fs\<lparr>pwd := n\<rparr>)\<rparr>) }"

definition vfs_get_curdir :: "'f fsys \<Rightarrow> (int \<times> nat \<times> 'f fsys) option" where
  "vfs_get_curdir s =
     do { n \<leftarrow> get_cwd_nolock s;
          if n \<noteq> 0 then do { (_, s) \<leftarrow> inode_ref_inc n s; Some (0, n, s) }
          else Some (- E_NOENT, 0, s) }"

definition switch_curdir :: "'f optab \<Rightarrow> nat \<Rightarrow> nat \<Rightarrow> 'f call" where
  "switch_curdir T old dir s =
     do { s \<leftarrow> set_cwd_nolock dir s;
          if old \<noteq> 0 then do { (_, s) \<leftarrow> inode_ref_dec T old s; Some (0, s) } else Some (0, s) }"

definition vfs_set_curdir :: "'f optab \<Rightarrow> nat \<Rightarrow> 'f call" where
  "vfs_set_curdir T dir s =
     do { old \<leftarrow> get_cwd_nolock s;
          if old \<noteq> dir then
            (if dir \<noteq> 0 then
               do { (ret, ty, s) \<leftarrow> vop_gettype T dir s;
                    if ret \<noteq> 0 then Some (ret, s)
                    else if and ty S_IFMT \<noteq> S_IFDIR then Some (- E_NOTDIR, s)
                    else do { (_, s) \<leftarrow> inode_ref_inc dir s; switch_curdir T old dir s } }
             else switch_curdir T old dir s)
          else Some (0, s) }"

section \<open>Paths\<close>

fun scan_path :: "int \<Rightarrow> string \<Rightarrow> int \<times> int" where
  "scan_path i [] = (-1, -1)"
| "scan_path i (c # cs) =
     (if c = CHR '':'' then (i, -1) else if c = CHR ''/'' then (-1, i) else scan_path (i + 1) cs)"

abbreviation (input) skip_slashes :: "string \<Rightarrow> string" where
  "skip_slashes \<equiv> dropWhile (\<lambda>c. c = CHR ''/'')"

text \<open>Results: the code, the buffer of the path, the rest of the path, the inode, the state.\<close>

definition get_device ::
  "'f optab \<Rightarrow> 'f fs_ops \<Rightarrow> string \<Rightarrow> 'f fsys \<Rightarrow> (int \<times> string \<times> string \<times> nat \<times> 'f fsys) option" where
  "get_device T F path s =
     (let (colon, slash) = scan_path 0 path
      in if colon < 0 \<and> slash \<noteq> 0 then
           do { (ret, n, s) \<leftarrow> vfs_get_curdir s; Some (ret, path, path, n, s) }
         else if colon > 0 then
           (let name = take (nat colon) path; sub = skip_slashes (drop (nat colon + 1) path)
            in do { (ret, n, s) \<leftarrow> vfs_get_root F name s; Some (ret, name, sub, n, s) })
         else if path \<noteq> [] \<and> hd path = CHR ''/'' then
           do { (ret, n, s) \<leftarrow> vfs_get_bootfs s;
                if ret \<noteq> 0 then Some (ret, path, path, n, s)
                else Some (0, path, skip_slashes (tl path), n, s) }
         else do {
           kassert (path \<noteq> [] \<and> hd path = CHR '':'');
           (ret, n, s) \<leftarrow> vfs_get_curdir s;
           if ret \<noteq> 0 then Some (ret, path, path, n, s)
           else do {
             i \<leftarrow> inode_at s n;
             kassert (in_fs i \<noteq> 0);
             (root, s) \<leftarrow> fs_get_root F (in_fs i) s;
             (_, s) \<leftarrow> inode_ref_dec T n s;
             Some (0, path, skip_slashes (tl path), root, s) } })"

definition vfs_lookup ::
  "'f optab \<Rightarrow> 'f fs_ops \<Rightarrow> string \<Rightarrow> 'f fsys \<Rightarrow> (int \<times> string \<times> nat \<times> 'f fsys) option" where
  "vfs_lookup T F path s =
     do { (ret, path, sub, n, s) \<leftarrow> get_device T F path s;
          if ret \<noteq> 0 then Some (ret, path, 0, s)
          else if sub \<noteq> [] then
            do { (ret, r, s) \<leftarrow> vop_lookup T n sub s;
                 (_, s) \<leftarrow> inode_ref_dec T n s;
                 Some (ret, path, r, s) }
          else Some (0, path, n, s) }"

definition vfs_lookup_parent ::
  "'f optab \<Rightarrow> 'f fs_ops \<Rightarrow> string \<Rightarrow> 'f fsys \<Rightarrow> (int \<times> nat \<times> string \<times> 'f fsys) option" where
  "vfs_lookup_parent T F path s =
     do { (ret, path, sub, n, s) \<leftarrow> get_device T F path s;
          if ret \<noteq> 0 then Some (ret, 0, [], s) else Some (0, n, sub, s) }"

definition vfs_chdir :: "'f optab \<Rightarrow> 'f fs_ops \<Rightarrow> string \<Rightarrow> 'f call" where
  "vfs_chdir T F path s =
     do { (ret, _, n, s) \<leftarrow> vfs_lookup T F path s;
          if ret = 0 then
            do { (ret, s) \<leftarrow> vfs_set_curdir T n s; (_, s) \<leftarrow> inode_ref_dec T n s; Some (ret, s) }
          else Some (ret, s) }"

text \<open>The null pointer is \<^verbatim>\<open>None\<close>.\<close>

definition vfs_set_bootfs :: "'f optab \<Rightarrow> 'f fs_ops \<Rightarrow> string option \<Rightarrow> 'f call" where
  "vfs_set_bootfs T F fsname s =
     (case fsname of
        None \<Rightarrow> do { s \<leftarrow> change_bootfs T 0 s; Some (0, s) }
      | Some name \<Rightarrow>
          if dropWhile (\<lambda>c. c \<noteq> CHR '':'') name \<noteq> '':'' then Some (- E_INVAL, s)
          else do {
            (ret, s) \<leftarrow> vfs_chdir T F name s;
            if ret \<noteq> 0 then Some (ret, s)
            else do {
              (ret, n, s) \<leftarrow> vfs_get_curdir s;
              if ret \<noteq> 0 then Some (ret, s)
              else do { s \<leftarrow> change_bootfs T n s; Some (0, s) } } })"

section \<open>Opening and closing\<close>

text \<open>From \<^verbatim>\<open>vop_open\<close> on: the inode has been found and its reference is counted.\<close>

definition vfs_open_node :: "'f optab \<Rightarrow> nat \<Rightarrow> 32 word \<Rightarrow> 'f fsys \<Rightarrow> (int \<times> nat \<times> 'f fsys) option" where
  "vfs_open_node T n open_flags s =
     do { kassert (n \<noteq> 0);
          (ret, s) \<leftarrow> vop_open T n open_flags s;
          if ret \<noteq> 0 then do { (_, s) \<leftarrow> inode_ref_dec T n s; Some (ret, 0, s) }
          else do {
            (_, s) \<leftarrow> inode_open_inc n s;
            if and open_flags O_TRUNC \<noteq> 0 \<or> and open_flags O_CREAT \<noteq> 0 then
              do { (ret, s) \<leftarrow> vop_truncate T n 0 s;
                   if ret \<noteq> 0 then
                     do { (_, s) \<leftarrow> inode_open_dec T n s; (_, s) \<leftarrow> inode_ref_dec T n s; Some (ret, 0, s) }
                   else Some (0, n, s) }
            else Some (0, n, s) } }"

definition vfs_open ::
  "'f optab \<Rightarrow> 'f fs_ops \<Rightarrow> string \<Rightarrow> 32 word \<Rightarrow> 'f fsys \<Rightarrow> (int \<times> nat \<times> 'f fsys) option" where
  "vfs_open T F path open_flags s =
     (if and open_flags O_ACCMODE \<noteq> O_RDONLY \<and> and open_flags O_ACCMODE \<noteq> O_WRONLY \<and>
         and open_flags O_ACCMODE \<noteq> O_RDWR then Some (- E_INVAL, 0, s)
      else
        let can_write = (and open_flags O_ACCMODE \<noteq> O_RDONLY);
            excl = (and open_flags O_EXCL \<noteq> 0);
            create = (and open_flags O_CREAT \<noteq> 0)
        in if and open_flags O_TRUNC \<noteq> 0 \<and> \<not> can_write then Some (- E_INVAL, 0, s)
           else do {
             (ret, path, n, s) \<leftarrow> vfs_lookup T F path s;
             if ret \<noteq> 0 then
               (if ret = -16 \<and> create then
                  do { (ret, dir, name, s) \<leftarrow> vfs_lookup_parent T F path s;
                       if ret \<noteq> 0 then Some (ret, 0, s)
                       else do { (_, n, s) \<leftarrow> vop_create T dir name excl s;
                                 vfs_open_node T n open_flags s } }
                else Some (ret, 0, s))
             else if excl \<and> create then Some (- E_EXISTS, 0, s)
             else vfs_open_node T n open_flags s })"

definition vfs_close :: "'f optab \<Rightarrow> nat \<Rightarrow> 'f call" where
  "vfs_close T n s =
     do { (_, s) \<leftarrow> inode_open_dec T n s; (_, s) \<leftarrow> inode_ref_dec T n s; Some (0, s) }"

section \<open>The device list as a list\<close>

definition vlist :: "'f fsys \<Rightarrow> nat list \<Rightarrow> bool" where
  "vlist s ps \<longleftrightarrow> ring (vdev_links s) VdevList (map VdevLink ps)"

lemma vdev_walk_spec:
  assumes "vlist s (us @ vs)"
  shows "vdev_walk P (last (VdevList # map VdevLink us)) s = Some (find (\<lambda>p. P (vdevs s p)) vs)"
  using assms
proof (induction vs arbitrary: us)
  case Nil
  then have "nxt (vdev_links s) (last (VdevList # map VdevLink us)) = VdevList"
    by (cases us rule: rev_cases) (auto simp: vlist_def ring_next dest: ring_next_mid)
  then show ?case by (subst vdev_walk.simps) (simp add: list_next_def)
next
  case (Cons v vs)
  from Cons.prems have n: "list_next (last (VdevList # map VdevLink us)) (vdev_links s) = VdevLink v"
    by (cases us rule: rev_cases)
      (auto simp: vlist_def list_next_def ring_next dest: ring_next_mid)
  have "vdev_walk P (VdevLink v) s = Some (find (\<lambda>p. P (vdevs s p)) vs)"
    using Cons.IH [of "us @ [v]"] Cons.prems by simp
  then show ?case
    by (subst vdev_walk.simps) (simp only: n Let_def, simp)
qed

lemma vdev_walk_all: "vlist s ps \<Longrightarrow> vdev_walk P VdevList s = Some (find (\<lambda>p. P (vdevs s p)) ps)"
  using vdev_walk_spec [of s "[]" ps P] by simp

lemma vlist_empty: "vlist s ps \<Longrightarrow> list_empty VdevList (vdev_links s) \<longleftrightarrow> ps = []"
  by (simp add: vlist_def ring_empty_iff)

text \<open>The contract of a file system, with that of the inodes.\<close>

locale fs_layer = inode_layer T for T :: "'f optab" +
  fixes F :: "'f fs_ops"
  assumes root_found: "fs_get_root F fs s = Some (r, s') \<Longrightarrow> found r s s'"
    and sync_keeps: "fs_sync F fs s = Some (ret, s') \<Longrightarrow> preserves {} s s'"
    and unmount_keeps: "fs_unmount F fs s = Some (ret, s') \<Longrightarrow> preserves {} s s'"
    and cleanup_keeps: "fs_cleanup F fs s = Some s' \<Longrightarrow> preserves {} s s'"

lemma vfs_get_curdir_hands:
  assumes "vfs_get_curdir s = Some (ret, n, s')"
  shows "hands_out ret n s s'"
  using assms
  by (auto simp: vfs_get_curdir_def hands_out_def bind_Some_iff split: if_splits
      dest!: ref_inc_found goes_found intro: goes_keeps)

lemma vfs_get_bootfs_hands:
  assumes "vfs_get_bootfs s = Some (ret, n, s')"
  shows "hands_out ret n s s'"
  using assms
  by (auto simp: vfs_get_bootfs_def hands_out_def bind_Some_iff split: if_splits
      dest!: ref_inc_found goes_found intro: goes_keeps)

context fs_layer
begin

lemma vdev_root_found:
  assumes "vdev_root F v s = Some (n, s')"
  shows "if n = 0 then s' = s else found n s s'"
proof -
  have f: "\<not> found 0 s t" for t by (simp add: found_def)
  show ?thesis
    using assms
    by (auto simp: vdev_root_def bind_Some_iff f split: if_splits dest: ref_inc_found root_found)
qed

lemma vdev_root_null: "vdev_root F v s = Some (0, s') \<Longrightarrow> s' = s"
  using vdev_root_found [of v s 0 s'] by simp

lemma vfs_get_root_hands:
  assumes "vfs_get_root F name s = Some (ret, n, s')"
  shows "hands_out ret n s s'"
proof (cases "n = 0 \<and> s' = s \<and> ret \<noteq> 0")
  case True
  then show ?thesis by (simp add: hands_out_def goes_keeps)
next
  case False
  with assms obtain v where v: "vdev_root F v s = Some (n, s')" "n \<noteq> 0" "ret = 0"
    by (auto simp: vfs_get_root_def bind_Some_iff split: if_splits option.splits dest!: vdev_root_null)
  with vdev_root_found [OF v(1)] show ?thesis by (simp add: hands_out_def goes_found)
qed

lemma get_device_hands:
  assumes "get_device T F path s = Some (ret, path', sub, n, s')" "counted s"
  shows "hands_out ret n s s'"
proof -
  obtain colon slash where cs: "scan_path 0 path = (colon, slash)" by fastforce
  consider (rel) "colon < 0 \<and> slash \<noteq> 0"
    | (dev) "\<not> (colon < 0 \<and> slash \<noteq> 0)" "colon > 0"
    | (boot) "\<not> (colon < 0 \<and> slash \<noteq> 0)" "\<not> colon > 0" "path \<noteq> [] \<and> hd path = CHR ''/''"
    | (root) "\<not> (colon < 0 \<and> slash \<noteq> 0)" "\<not> colon > 0" "\<not> (path \<noteq> [] \<and> hd path = CHR ''/'')"
    by blast
  then show ?thesis
  proof cases
    case rel
    then show ?thesis using assms(1)
      by (auto simp: get_device_def cs bind_Some_iff dest: vfs_get_curdir_hands)
  next
    case dev
    then show ?thesis using assms(1)
      by (auto simp: get_device_def cs bind_Some_iff Let_def simp del: not_less dest: vfs_get_root_hands)
  next
    case boot
    then show ?thesis using assms(1)
      by (auto simp: get_device_def cs bind_Some_iff split: if_splits dest: vfs_get_bootfs_hands)
  next
    case root
    with assms(1) obtain r m t where cur: "vfs_get_curdir s = Some (r, m, t)"
      and rest: "(if r \<noteq> 0 then Some (r, path, path, m, t)
           else do {
             i \<leftarrow> inode_at t m;
             kassert (in_fs i \<noteq> 0);
             (root, t) \<leftarrow> fs_get_root F (in_fs i) t;
             (_, t) \<leftarrow> inode_ref_dec T m t;
             Some (0, path, skip_slashes (tl path), root, t) }) = Some (ret, path', sub, n, s')"
      by (auto simp: get_device_def cs bind_Some_iff split: if_splits)
    note m = vfs_get_curdir_hands [OF cur]
    show ?thesis
    proof (cases "r = 0")
      case False
      with rest m show ?thesis by (auto simp: hands_out_def)
    next
      case True
      with rest obtain i :: inode and t' c where t': "fs_get_root F (in_fs i) t = Some (n, t')"
        and dec: "inode_ref_dec T m t' = Some (c, s')" and ret: "ret = 0"
        by (auto simp: bind_Some_iff split: if_splits)
      from m True have g: "goes (at m) none s t" by (simp add: hands_out_def)
      note n = goes_found [OF root_found [OF t']]
      have g': "goes (\<lambda>q. at m q + at n q) none s t'"
        by (rule goes_trans [OF g conjunct1 [OF n] assms(2)]) simp_all
      have "goes (at n) none s s'"
        by (rule goes_release [OF g' dec _ assms(2)]) simp_all
      moreover have "inode_at s' n \<noteq> None"
      proof (rule release_live [OF dec conjunct2 [OF n]])
        assume "n = m"
        with goes_rc [OF g', of m] assms(2) show "1 < rc t' m" by (smt (verit) at_eq)
      qed
      ultimately show ?thesis by (simp add: hands_out_def ret)
    qed
  qed
qed

lemma vfs_lookup_hands:
  assumes "vfs_lookup T F path s = Some (ret, path', r, s')" "counted s"
  shows "hands_out ret r s s'"
proof -
  from assms(1) obtain ret0 sub n t where d: "get_device T F path s = Some (ret0, path', sub, n, t)"
    and rest: "(if ret0 \<noteq> 0 then Some (ret0, path', 0, t)
        else if sub \<noteq> [] then
            do { (ret, r, t) \<leftarrow> vop_lookup T n sub t;
                 (_, t) \<leftarrow> inode_ref_dec T n t;
                 Some (ret, path', r, t) }
          else Some (0, path', n, t)) = Some (ret, path', r, s')"
    by (auto simp: vfs_lookup_def bind_Some_iff split: if_splits)
  note h = get_device_hands [OF d assms(2)]
  show ?thesis
  proof (cases "ret0 = 0 \<and> sub \<noteq> []")
    case False
    with rest h show ?thesis by (auto simp: hands_out_def split: if_splits)
  next
    case True
    with rest obtain t' c where l: "vop_lookup T n sub t = Some (ret, r, t')"
      and dec: "inode_ref_dec T n t' = Some (c, s')"
      by (auto simp: bind_Some_iff)
    from h True have g: "goes (at n) none s t" by (simp add: hands_out_def)
    have ct: "counted t" by (rule goes_counted [OF g assms(2)]) simp
    note l' = vop_lookup_hands [OF l ct]
    show ?thesis
    proof (cases "ret = 0")
      case False
      with l' have k: "goes none none t t'" by (simp add: hands_out_def)
      have g': "goes (at n) none s t'"
        by (rule goes_trans [OF g k assms(2)]) simp_all
      have "goes none none s s'"
        by (rule goes_release [OF g' dec _ assms(2)]) simp_all
      with False show ?thesis by (simp add: hands_out_def)
    next
      case ret: True
      with l' have f: "goes (at r) none t t' \<and> inode_at t' r \<noteq> None"
        by (simp add: hands_out_def)
      have g': "goes (\<lambda>q. at n q + at r q) none s t'"
        by (rule goes_trans [OF g conjunct1 [OF f] assms(2)]) simp_all
      have "goes (at r) none s s'"
        by (rule goes_release [OF g' dec _ assms(2)]) simp_all
      moreover have "inode_at s' r \<noteq> None"
      proof (rule release_live [OF dec conjunct2 [OF f]])
        assume "r = n"
        with goes_rc [OF g', of n] assms(2) show "1 < rc t' n" by (smt (verit) at_eq)
      qed
      ultimately show ?thesis by (simp add: hands_out_def ret)
    qed
  qed
qed

end

context inode_layer
begin

lemma vfs_close_moves:
  assumes "vfs_close T n s = Some (ret, s')"
  shows "ret = 0" "0 < oc s n" "0 < rc s n"
    "moves (if rc s n = 1 then {n} else {}) (\<lambda>m. - at n m) (\<lambda>m. - at n m) s s'"
proof -
  from assms obtain c t c' where o: "inode_open_dec T n s = Some (c, t)"
    and r: "inode_ref_dec T n t = Some (c', s')" and ret: "ret = 0"
    by (auto simp: vfs_close_def bind_Some_iff)
  note o' = open_dec_moves [OF o] and r' = ref_dec_moves [OF r]
  have rc: "rc t n = rc s n" using o'(2) by (simp add: moves_def)
  from moves_trans [OF o'(2) r'(2)]
  show "moves (if rc s n = 1 then {n} else {}) (\<lambda>m. - at n m) (\<lambda>m. - at n m) s s'"
    by (rule moves_cong) (simp_all add: rc)
  show "ret = 0" "0 < oc s n" "0 < rc s n"
    using ret o'(1) r'(1) rc by simp_all
qed

lemma vfs_open_node_outcome:
  assumes "vfs_open_node T n flags s = Some (ret, r, s')"
    and g: "goes (at n) none s0 s" and "counted s0" and live: "inode_at s n \<noteq> None"
  shows "if ret = 0 then r = n \<and> goes (at n) (at n) s0 s' \<and> inode_at s' n \<noteq> None
         else goes none none s0 s'"
proof -
  from assms(1) obtain ret1 t where op: "vop_open T n flags s = Some (ret1, t)"
    and rest: "(if ret1 \<noteq> 0 then do { (_, t) \<leftarrow> inode_ref_dec T n t; Some (ret1, 0, t) }
          else do {
            (_, t) \<leftarrow> inode_open_inc n t;
            if and flags O_TRUNC \<noteq> 0 \<or> and flags O_CREAT \<noteq> 0 then
              do { (ret, t) \<leftarrow> vop_truncate T n 0 t;
                   if ret \<noteq> 0 then
                     do { (_, t) \<leftarrow> inode_open_dec T n t; (_, t) \<leftarrow> inode_ref_dec T n t; Some (ret, 0, t) }
                   else Some (0, n, t) }
            else Some (0, n, t) }) = Some (ret, r, s')"
    by (auto simp: vfs_open_node_def bind_Some_iff split: if_splits)
  note k = vop_open_keeps [OF op]
  have gt: "goes (at n) none s0 t" by (rule goes_keep [OF g k])
  have lt: "inode_at t n \<noteq> None" by (rule moves_live [OF k live]) simp
  show ?thesis
  proof (cases "ret1 = 0")
    case False
    with rest obtain c where dec: "inode_ref_dec T n t = Some (c, s')" and "ret = ret1"
      by (auto simp: bind_Some_iff)
    moreover have "goes none none s0 s'"
      by (rule goes_release [OF gt dec _ assms(3)]) simp_all
    ultimately show ?thesis using False by simp
  next
    case True
    with rest obtain c u where inc: "inode_open_inc n t = Some (c, u)"
      and rest': "(if and flags O_TRUNC \<noteq> 0 \<or> and flags O_CREAT \<noteq> 0 then
              do { (ret, t) \<leftarrow> vop_truncate T n 0 u;
                   if ret \<noteq> 0 then
                     do { (_, t) \<leftarrow> inode_open_dec T n t; (_, t) \<leftarrow> inode_ref_dec T n t; Some (ret, 0, t) }
                   else Some (0, n, t) }
            else Some (0, n, u)) = Some (ret, r, s')"
      by (auto simp: bind_Some_iff)
    note i = open_inc_moves [OF inc]
    have gu: "goes (at n) (at n) s0 u"
      by (rule goes_trans [OF gt goes_moves [OF i] assms(3)]) simp_all
    have lu: "inode_at u n \<noteq> None" by (rule moves_live [OF i lt]) simp
    show ?thesis
    proof (cases "and flags O_TRUNC \<noteq> 0 \<or> and flags O_CREAT \<noteq> 0")
      case False
      with rest' gu lu show ?thesis by auto
    next
      case True
      with rest' obtain ret2 v where tr: "vop_truncate T n 0 u = Some (ret2, v)"
        and rest'': "(if ret2 \<noteq> 0 then
             do { (_, t) \<leftarrow> inode_open_dec T n v; (_, t) \<leftarrow> inode_ref_dec T n t; Some (ret2, 0, t) }
             else Some (0, n, v)) = Some (ret, r, s')"
        by (auto simp: bind_Some_iff split: if_splits)
      note k = vop_truncate_keeps [OF tr]
      have gv: "goes (at n) (at n) s0 v" by (rule goes_keep [OF gu k])
      have lv: "inode_at v n \<noteq> None" by (rule moves_live [OF k lu]) simp
      show ?thesis
      proof (cases "ret2 = 0")
        case True
        with rest'' gv lv show ?thesis by auto
      next
        case False
        with rest'' obtain c w c' where o: "inode_open_dec T n v = Some (c, w)"
          and d: "inode_ref_dec T n w = Some (c', s')" and ret: "ret = ret2"
          by (auto simp: bind_Some_iff)
        have gw: "goes (at n) none s0 w"
          using moves_trans [OF gv [unfolded goes_def] open_dec_moves(2) [OF o]]
          unfolding goes_def by (rule moves_cong) simp_all
        have "goes none none s0 s'"
          by (rule goes_release [OF gw d _ assms(3)]) simp_all
        with False ret show ?thesis by simp
      qed
    qed
  qed
qed

end

context fs_layer
begin

lemma vfs_open_outcome:
  assumes "vfs_open T F path flags s = Some (ret, r, s')" "counted s"
  shows "if ret = 0 then goes (at r) (at r) s s' \<and> inode_at s' r \<noteq> None
    else goes none none s s' \<or>
      ret = - E_EXISTS \<and> and flags O_EXCL \<noteq> 0 \<and> and flags O_CREAT \<noteq> 0 \<and> (\<exists>n. goes (at n) none s s')"
proof (cases "ret \<noteq> 0 \<and> s' = s")
  case True
  then show ?thesis by (simp add: goes_keeps)
next
  case False
  with assms(1) obtain ret1 path' n t where l: "vfs_lookup T F path s = Some (ret1, path', n, t)"
    and rest: "(if ret1 \<noteq> 0 then
               (if ret1 = -16 \<and> and flags O_CREAT \<noteq> 0 then
                  do { (ret, dir, name, s) \<leftarrow> vfs_lookup_parent T F path' t;
                       if ret \<noteq> 0 then Some (ret, 0, s)
                       else do { (_, n, s) \<leftarrow> vop_create T dir name (and flags O_EXCL \<noteq> 0) s;
                                 vfs_open_node T n flags s } }
                else Some (ret1, 0, t))
             else if and flags O_EXCL \<noteq> 0 \<and> and flags O_CREAT \<noteq> 0 then Some (- E_EXISTS, 0, t)
             else vfs_open_node T n flags t) = Some (ret, r, s')"
    by (auto simp: vfs_open_def bind_Some_iff Let_def split: if_splits)
  note h = vfs_lookup_hands [OF l assms(2)]
  show ?thesis
  proof (cases "ret1 = 0")
    case True
    with h have g: "goes (at n) none s t" "inode_at t n \<noteq> None" by (auto simp: hands_out_def)
    show ?thesis
    proof (cases "and flags O_EXCL \<noteq> 0 \<and> and flags O_CREAT \<noteq> 0")
      case False
      with rest True have "vfs_open_node T n flags t = Some (ret, r, s')" by simp
      from vfs_open_node_outcome [OF this g(1) assms(2) g(2)] show ?thesis by auto
    next
      case ex: True
      with rest True g show ?thesis by auto
    qed
  next
    case ret1: False
    with h have g: "goes none none s t" by (simp add: hands_out_def)
    show ?thesis
    proof (cases "ret1 = -16 \<and> and flags O_CREAT \<noteq> 0")
      case False
      with rest ret1 g show ?thesis by auto
    next
      case True
      with rest ret1 obtain ret2 dir name u where p: "vfs_lookup_parent T F path' t = Some (ret2, dir, name, u)"
        and ret2: "ret2 \<noteq> 0" "ret = ret2" "s' = u"
        by (auto simp: bind_Some_iff vop_create_panics split: if_splits)
      then obtain path'' sub n' where d: "get_device T F path' t = Some (ret2, path'', sub, n', u)"
        by (auto simp: vfs_lookup_parent_def bind_Some_iff split: if_splits)
      have "counted t" by (rule goes_counted [OF g assms(2)]) simp
      from get_device_hands [OF d this] ret2(1) have u: "goes none none t u" by (simp add: hands_out_def)
      have "goes none none s u" by (rule goes_trans [OF g u assms(2)]) simp_all
      with ret2 show ?thesis by simp
    qed
  qed
qed

end

section \<open>Adding, finding and mounting devices\<close>

text \<open>The names of the list are distinct, and so are its entries.\<close>

definition vdevs_ok :: "'f fsys \<Rightarrow> nat list \<Rightarrow> bool" where
  "vdevs_ok s ps \<longleftrightarrow> vlist s ps \<and> distinct (map (\<lambda>p. devname (vdevs s p)) ps)"

lemma vlist_devlist_init: "vdevs_ok (vfs_devlist_init s) []"
  by (simp add: vdevs_ok_def vlist_def vfs_devlist_init_def ring_init)

lemma check_devname_conflict_spec:
  "vlist s ps \<Longrightarrow> check_devname_conflict name s = Some (name \<notin> (\<lambda>p. devname (vdevs s p)) ` set ps)"
  by (auto simp: check_devname_conflict_def vdev_walk_all find_None_iff)

lemma find_eq_distinct:
  "distinct (map f ps) \<Longrightarrow> p \<in> set ps \<Longrightarrow> find (\<lambda>q. f q = f p) ps = Some p"
  by (induction ps) auto

lemma vfs_do_add_outcome:
  assumes "vdevs_ok s ps" "n = 0 \<and> \<not> mnt \<or> (\<exists>i. inode_at s n = Some i \<and> is_device i)" "p \<notin> set ps"
  shows "vfs_do_add ok p name n fs mnt s =
    (if length name > FS_MAX_DNAME_LEN then Some (- E_TOO_BIG, s)
     else if \<not> ok \<or> p = 0 then Some (- E_NO_MEM, s)
     else if name \<in> (\<lambda>q. devname (vdevs s q)) ` set ps then Some (- E_EXISTS, s)
     else Some (0, s\<lparr>vdevs := (vdevs s)(p := \<lparr>devname = name, devnode = n, vfs = fs, mountable = mnt\<rparr>),
                     vdev_links := list_add VdevList (VdevLink p) (vdev_links s)\<rparr>))"
  using assms
  by (auto simp: vfs_do_add_def vdevs_ok_def check_devname_conflict_spec split: option.splits)

lemma vfs_do_add_ok:
  assumes "vdevs_ok s ps" "p \<notin> set ps" "name \<notin> (\<lambda>q. devname (vdevs s q)) ` set ps"
  shows "vdevs_ok (s\<lparr>vdevs := (vdevs s)(p := \<lparr>devname = name, devnode = n, vfs = fs, mountable = mnt\<rparr>),
      vdev_links := list_add VdevList (VdevLink p) (vdev_links s)\<rparr>) (p # ps)"
proof -
  have "ring (list_add VdevList (VdevLink p) (vdev_links s)) VdevList (VdevLink p # map VdevLink ps)"
    using assms(1,2) by (intro ring_add_head) (auto simp: vdevs_ok_def vlist_def)
  moreover have m: "map (\<lambda>q. devname (((vdevs s)(p := w)) q)) ps = map (\<lambda>q. devname (vdevs s q)) ps" for w
    using assms(2) by (intro map_cong) auto
  have "devname w = name \<Longrightarrow> distinct (map (\<lambda>q. devname (((vdevs s)(p := w)) q)) (p # ps))" for w
    using assms(1,3) by (simp only: list.map m distinct.simps fun_upd_same set_map vdevs_ok_def) simp
  ultimately show ?thesis
    by (simp add: vdevs_ok_def vlist_def del: fun_upd_apply list.map distinct.simps) simp
qed

text \<open>A device that is listed is found under its name.\<close>

lemma vfs_get_root_listed:
  assumes "vdevs_ok s ps" "p \<in> set ps"
  shows "vfs_get_root F (devname (vdevs s p)) s =
    do { (n, s) \<leftarrow> vdev_root F (vdevs s p) s;
         if n \<noteq> 0 then Some (0, n, s) else Some (- E_NA_DEV, 0, s) }"
proof -
  from assms(1) have l: "vlist s ps" and d: "distinct (map (\<lambda>q. devname (vdevs s q)) ps)"
    by (simp_all add: vdevs_ok_def)
  from assms(2) have "ps \<noteq> []" by auto
  then show ?thesis
    by (simp add: vfs_get_root_def vlist_empty [OF l] vdev_walk_all [OF l]
        find_eq_distinct [OF d assms(2)] split: prod.splits)
qed

lemma vfs_get_root_unlisted:
  assumes "vlist s ps" "name \<notin> (\<lambda>q. devname (vdevs s q)) ` set ps"
  shows "vfs_get_root F name s = Some (- E_NO_DEV, 0, s)"
proof -
  have "find (\<lambda>p. devname (vdevs s p) = name) ps = None"
    using assms(2) by (auto simp: find_None_iff)
  with assms(1) show ?thesis
    by (simp add: vfs_get_root_def vlist_empty vdev_walk_all)
qed

lemma find_mount_listed:
  assumes "vdevs_ok s ps" "p \<in> set ps" "mountable (vdevs s p)"
  shows "find_mount (devname (vdevs s p)) s = Some (0, p)"
proof -
  have "distinct (map (\<lambda>q. devname (vdevs s q)) qs) \<Longrightarrow> p \<in> set qs \<Longrightarrow>
      find (\<lambda>q. mountable (vdevs s q) \<and> devname (vdevs s q) = devname (vdevs s p)) qs = Some p" for qs
    by (induction qs) (use assms(3) in auto)
  from this [OF _ assms(2)] have "find (\<lambda>q. mountable (vdevs s q) \<and> devname (vdevs s q) = devname (vdevs s p)) ps = Some p"
    using assms(1) by (simp add: vdevs_ok_def)
  with assms(1) show ?thesis by (simp add: find_mount_def vdevs_ok_def vdev_walk_all [of s ps])
qed

lemma find_mount_unlisted:
  assumes "vlist s ps" "\<And>p. p \<in> set ps \<Longrightarrow> devname (vdevs s p) = name \<Longrightarrow> \<not> mountable (vdevs s p)"
  shows "find_mount name s = Some (- E_NO_DEV, 0)"
proof -
  have "find (\<lambda>p. mountable (vdevs s p) \<and> devname (vdevs s p) = name) ps = None"
    using assms(2) by (auto simp: find_None_iff)
  with assms(1) show ?thesis by (simp add: find_mount_def vdev_walk_all)
qed

end
