(* ===== verification/Files.thy ===== *)
theory Files
  imports Vfs
begin

text \<open>
  kern/fs/file.c, file.h, fs.c and fs.h: the descriptor tables of the processes. A pointer
  to a \<^verbatim>\<open>struct file\<close> is the table and the index in it. A table has 72 entries, what
  remains of a page behind \<^verbatim>\<open>struct files_struct\<close>. The memory behind the buffers is
  part of \<^verbatim>\<open>below\<close>. \<^verbatim>\<open>fsys_ok\<close> relates the tables to the counters of the inodes.
\<close>

section \<open>The operations\<close>

type_synonym fptr = "nat \<times> nat"

definition FILES_STRUCT_NENTRY :: nat where "FILES_STRUCT_NENTRY = (4096 - 48) div 56"
definition NO_FD :: int where "NO_FD = - 0x9527"

definition testfd :: "int \<Rightarrow> bool" where
  "testfd x \<longleftrightarrow> x \<ge> 0 \<and> x < int FILES_STRUCT_NENTRY"

definition file_at :: "fptr \<Rightarrow> 'f fsys \<Rightarrow> fd_file option" where
  "file_at p s =
     do { fs \<leftarrow> ftabs s (fst p);
          if snd p < length (fd_array fs) then Some (fd_array fs ! snd p) else None }"

definition set_file :: "fptr \<Rightarrow> fd_file \<Rightarrow> 'f fsys \<Rightarrow> 'f fsys" where
  "set_file p f s =
     (case ftabs s (fst p) of None \<Rightarrow> s
      | Some fs \<Rightarrow> s\<lparr>ftabs := (ftabs s)(fst p \<mapsto> fs\<lparr>fd_array := (fd_array fs)[snd p := f]\<rparr>)\<rparr>)"

definition get_fd_array :: "'f fsys \<Rightarrow> nat option" where
  "get_fd_array s =
     do { kassert (filesp s \<noteq> 0); fs \<leftarrow> ftabs s (filesp s); kassert (files_count fs > 0); Some (filesp s) }"

definition fd_array_init :: "fd_file list \<Rightarrow> fd_file list" where
  "fd_array_init arr =
     map (\<lambda>i. (arr ! i)\<lparr>fopen_count := 0, status := FD_NONE, fd := int i\<rparr>) [0..<FILES_STRUCT_NENTRY]"

text \<open>Lines 67 to 71, \<^verbatim>\<open>found:\<close>.\<close>

definition fd_take :: "fptr \<Rightarrow> 'f fsys \<Rightarrow> (int \<times> fptr \<times> 'f fsys) option" where
  "fd_take p s =
     do { f \<leftarrow> file_at p s;
          kassert (fopen_count f = 0);
          Some (0, p, set_file p (f\<lparr>status := FD_INIT, node := 0\<rparr>) s) }"

definition fd_scan :: "nat \<Rightarrow> 'f fsys \<Rightarrow> nat option" where
  "fd_scan t s =
     find (\<lambda>i. case file_at (t, i) s of Some f \<Rightarrow> status f = FD_NONE | None \<Rightarrow> False) [0..<FILES_STRUCT_NENTRY]"

definition fd_array_alloc :: "int \<Rightarrow> 'f fsys \<Rightarrow> (int \<times> fptr \<times> 'f fsys) option" where
  "fd_array_alloc x s =
     do { t \<leftarrow> get_fd_array s;
          if x = NO_FD then
            (case fd_scan t s of Some i \<Rightarrow> fd_take (t, i) s | None \<Rightarrow> Some (- E_MAX_OPEN, (0, 0), s))
          else if testfd x then
            do { f \<leftarrow> file_at (t, nat x) s;
                 if status f = FD_NONE then fd_take (t, nat x) s else Some (- E_BUSY, (0, 0), s) }
          else Some (- E_INVAL, (0, 0), s) }"

definition fd_array_free :: "'f optab \<Rightarrow> fptr \<Rightarrow> 'f fsys \<Rightarrow> 'f fsys option" where
  "fd_array_free T p s =
     do { f \<leftarrow> file_at p s;
          kassert (status f = FD_INIT \<or> status f = FD_CLOSED);
          kassert (fopen_count f = 0);
          s \<leftarrow> (if status f = FD_CLOSED then do { (_, s) \<leftarrow> vfs_close T (node f) s; Some s } else Some s);
          f \<leftarrow> file_at p s;
          Some (set_file p (f\<lparr>status := FD_NONE\<rparr>) s) }"

definition fd_array_acquire :: "fptr \<Rightarrow> 'f fsys \<Rightarrow> 'f fsys option" where
  "fd_array_acquire p s =
     do { f \<leftarrow> file_at p s;
          kassert (status f = FD_OPENED);
          Some (set_file p (f\<lparr>fopen_count := fopen_count f + 1\<rparr>) s) }"

definition fd_array_release :: "'f optab \<Rightarrow> fptr \<Rightarrow> 'f fsys \<Rightarrow> 'f fsys option" where
  "fd_array_release T p s =
     do { f \<leftarrow> file_at p s;
          kassert (status f = FD_OPENED \<or> status f = FD_CLOSED);
          kassert (fopen_count f > 0);
          let c = fopen_count f - 1;
          let s = set_file p (f\<lparr>fopen_count := c\<rparr>) s;
          if c = 0 then fd_array_free T p s else Some s }"

definition fd_array_open :: "fptr \<Rightarrow> 'f fsys \<Rightarrow> 'f fsys option" where
  "fd_array_open p s =
     do { f \<leftarrow> file_at p s;
          kassert (status f = FD_INIT \<and> node f \<noteq> 0);
          Some (set_file p (f\<lparr>status := FD_OPENED, fopen_count := fopen_count f + 1\<rparr>) s) }"

definition fd_array_close :: "'f optab \<Rightarrow> fptr \<Rightarrow> 'f fsys \<Rightarrow> 'f fsys option" where
  "fd_array_close T p s =
     do { f \<leftarrow> file_at p s;
          kassert (status f = FD_OPENED);
          kassert (fopen_count f > 0);
          let c = fopen_count f - 1;
          let s = set_file p (f\<lparr>status := FD_CLOSED, fopen_count := c\<rparr>) s;
          if c = 0 then fd_array_free T p s else Some s }"

definition fd_array_dup :: "fptr \<Rightarrow> fptr \<Rightarrow> 'f fsys \<Rightarrow> 'f fsys option" where
  "fd_array_dup to from s =
     do { g \<leftarrow> file_at to s;
          f \<leftarrow> file_at from s;
          kassert (status g = FD_INIT \<and> status f = FD_OPENED);
          let g = g\<lparr>fpos := fpos f, readable := readable f, writable := writable f\<rparr>;
          (_, s) \<leftarrow> inode_ref_inc (node f) s;
          (_, s) \<leftarrow> inode_open_inc (node f) s;
          fd_array_open to (set_file to (g\<lparr>node := node f\<rparr>) s) }"

definition fd2file :: "int \<Rightarrow> 'f fsys \<Rightarrow> (int \<times> fptr) option" where
  "fd2file x s =
     (if testfd x then
        do { t \<leftarrow> get_fd_array s;
             f \<leftarrow> file_at (t, nat x) s;
             if status f = FD_OPENED \<and> fd f = x then Some (0, (t, nat x)) else Some (- E_INVAL, (0, 0)) }
      else Some (- E_INVAL, (0, 0)))"

definition file_testfd :: "int \<Rightarrow> bool \<Rightarrow> bool \<Rightarrow> 'f fsys \<Rightarrow> bool option" where
  "file_testfd x rd wr s =
     do { (ret, p) \<leftarrow> fd2file x s;
          if ret \<noteq> 0 then Some False
          else do {
            f \<leftarrow> file_at p s;
            Some (if rd \<and> \<not> readable f then False else if wr \<and> \<not> writable f then False else True) } }"

text \<open>Lines 226 to 231: the descriptor is filled in and opened.\<close>

definition file_opened :: "fptr \<Rightarrow> nat \<Rightarrow> int \<Rightarrow> bool \<Rightarrow> bool \<Rightarrow> 'f call" where
  "file_opened p n pos rd wr s =
     do { f \<leftarrow> file_at p s;
          s \<leftarrow> fd_array_open p (set_file p (f\<lparr>fpos := pos, node := n, readable := rd, writable := wr\<rparr>) s);
          f \<leftarrow> file_at p s;
          Some (fd f, s) }"

definition file_open :: "'f optab \<Rightarrow> 'f fs_ops \<Rightarrow> string \<Rightarrow> 32 word \<Rightarrow> 'f call" where
  "file_open T F path open_flags s =
     (let mode = and open_flags O_ACCMODE
      in if mode \<noteq> O_RDONLY \<and> mode \<noteq> O_WRONLY \<and> mode \<noteq> O_RDWR then Some (- E_INVAL, s)
         else
           let rd = (mode = O_RDONLY \<or> mode = O_RDWR); wr = (mode = O_WRONLY \<or> mode = O_RDWR)
           in do {
             (ret, p, s) \<leftarrow> fd_array_alloc NO_FD s;
             if ret \<noteq> 0 then Some (ret, s)
             else do {
               (ret, n, s) \<leftarrow> vfs_open T F path open_flags s;
               if ret \<noteq> 0 then do { s \<leftarrow> fd_array_free T p s; Some (ret, s) }
               else if and open_flags O_APPEND \<noteq> 0 then
                 do { (ret, st, s) \<leftarrow> vop_fstat T n s;
                      if ret \<noteq> 0 then
                        do { (_, s) \<leftarrow> vfs_close T n s; s \<leftarrow> fd_array_free T p s; Some (ret, s) }
                      else file_opened p n (s64 (int (st_size st))) rd wr s }
               else file_opened p n 0 rd wr s } })"

definition file_close :: "'f optab \<Rightarrow> int \<Rightarrow> 'f call" where
  "file_close T x s =
     do { (ret, p) \<leftarrow> fd2file x s;
          if ret \<noteq> 0 then Some (ret, s) else do { s \<leftarrow> fd_array_close T p s; Some (0, s) } }"


text \<open>Results: the code, the value for \<^verbatim>\<open>*copied_store\<close>, the state.\<close>

definition file_moved :: "'f optab \<Rightarrow> fptr \<Rightarrow> (int \<times> iobuf \<times> 'f fsys) \<Rightarrow> (int \<times> nat \<times> 'f fsys) option" where
  "file_moved T p r =
     (let (ret, iob, s) = r; copied = iobuf_used iob
      in do { f \<leftarrow> file_at p s;
              let s = (if status f = FD_OPENED then set_file p (f\<lparr>fpos := s64 (fpos f + int copied)\<rparr>) s else s);
              s \<leftarrow> fd_array_release T p s;
              Some (ret, copied, s) })"

definition file_read :: "'f optab \<Rightarrow> int \<Rightarrow> nat \<Rightarrow> nat \<Rightarrow> 'f fsys \<Rightarrow> (int \<times> nat \<times> 'f fsys) option" where
  "file_read T x base len s =
     do { (ret, p) \<leftarrow> fd2file x s;
          if ret \<noteq> 0 then Some (ret, 0, s)
          else do {
            f \<leftarrow> file_at p s;
            if \<not> readable f then Some (- E_INVAL, 0, s)
            else do {
              s \<leftarrow> fd_array_acquire p s;
              r \<leftarrow> vop_read T (node f) (iobuf_init base len (fpos f)) s;
              file_moved T p r } } }"

definition file_write :: "'f optab \<Rightarrow> int \<Rightarrow> nat \<Rightarrow> nat \<Rightarrow> 'f fsys \<Rightarrow> (int \<times> nat \<times> 'f fsys) option" where
  "file_write T x base len s =
     do { (ret, p) \<leftarrow> fd2file x s;
          if ret \<noteq> 0 then Some (ret, 0, s)
          else do {
            f \<leftarrow> file_at p s;
            if \<not> writable f then Some (- E_INVAL, 0, s)
            else do {
              s \<leftarrow> fd_array_acquire p s;
              r \<leftarrow> vop_write T (node f) (iobuf_init base len (fpos f)) s;
              file_moved T p r } } }"

definition LSEEK_SET :: int where "LSEEK_SET = 0"
definition LSEEK_CUR :: int where "LSEEK_CUR = 1"
definition LSEEK_END :: int where "LSEEK_END = 2"

text \<open>Lines 325 to 340: the position that is asked for, counted from the start.\<close>

definition seek_target :: "'f optab \<Rightarrow> fd_file \<Rightarrow> int \<Rightarrow> int \<Rightarrow> 'f fsys \<Rightarrow> (int \<times> int \<times> 'f fsys) option" where
  "seek_target T f pos whence s =
     (if whence = LSEEK_SET then Some (0, pos, s)
      else if whence = LSEEK_CUR then Some (0, s64 (pos + fpos f), s)
      else if whence = LSEEK_END then
        do { (ret, st, s) \<leftarrow> vop_fstat T (node f) s;
             Some (ret, if ret = 0 then s64 (pos + int (st_size st)) else pos, s) }
      else Some (- E_INVAL, pos, s))"

definition file_seek :: "'f optab \<Rightarrow> int \<Rightarrow> int \<Rightarrow> int \<Rightarrow> 'f call" where
  "file_seek T x pos whence s =
     do { (ret, p) \<leftarrow> fd2file x s;
          if ret \<noteq> 0 then Some (ret, s)
          else do {
            s \<leftarrow> fd_array_acquire p s;
            f \<leftarrow> file_at p s;
            (ret, pos, s) \<leftarrow> seek_target T f pos whence s;
            (ret, s) \<leftarrow>
              (if ret = 0 then
                 do { (ret, s) \<leftarrow> vop_tryseek T (node f) pos s;
                      f \<leftarrow> file_at p s;
                      Some (ret, if ret = 0 then set_file p (f\<lparr>fpos := pos\<rparr>) s else s) }
               else Some (ret, s));
            s \<leftarrow> fd_array_release T p s;
            Some (ret, s) } }"

definition file_fstat :: "'f optab \<Rightarrow> int \<Rightarrow> stat \<Rightarrow> 'f fsys \<Rightarrow> (int \<times> stat \<times> 'f fsys) option" where
  "file_fstat T x st s =
     do { (ret, p) \<leftarrow> fd2file x s;
          if ret \<noteq> 0 then Some (ret, st, s)
          else do {
            s \<leftarrow> fd_array_acquire p s;
            f \<leftarrow> file_at p s;
            (ret, st, s) \<leftarrow> vop_fstat T (node f) s;
            s \<leftarrow> fd_array_release T p s;
            Some (ret, st, s) } }"

definition file_fsync :: "'f optab \<Rightarrow> int \<Rightarrow> 'f call" where
  "file_fsync T x s =
     do { (ret, p) \<leftarrow> fd2file x s;
          if ret \<noteq> 0 then Some (ret, s)
          else do {
            s \<leftarrow> fd_array_acquire p s;
            f \<leftarrow> file_at p s;
            (ret, s) \<leftarrow> vop_fsync T (node f) s;
            s \<leftarrow> fd_array_release T p s;
            Some (ret, s) } }"

text \<open>The directory entry is the address of its name and its offset.\<close>

definition file_getdirentry :: "'f optab \<Rightarrow> int \<Rightarrow> nat \<Rightarrow> int \<Rightarrow> 'f fsys \<Rightarrow> (int \<times> int \<times> 'f fsys) option" where
  "file_getdirentry T x name offset s =
     do { (ret, p) \<leftarrow> fd2file x s;
          if ret \<noteq> 0 then Some (ret, offset, s)
          else do {
            s \<leftarrow> fd_array_acquire p s;
            f \<leftarrow> file_at p s;
            (ret, iob, s) \<leftarrow> vop_getdirentry T (node f) (iobuf_init name 256 offset) s;
            let offset = (if ret = 0 then s64 (offset + int (iobuf_used iob)) else offset);
            s \<leftarrow> fd_array_release T p s;
            Some (ret, offset, s) } }"

definition file_dup :: "int \<Rightarrow> int \<Rightarrow> 'f call" where
  "file_dup fd1 fd2 s =
     do { (ret, p1) \<leftarrow> fd2file fd1 s;
          if ret \<noteq> 0 then Some (ret, s)
          else do {
            (ret, p2, s) \<leftarrow> fd_array_alloc fd2 s;
            if ret \<noteq> 0 then Some (ret, s)
            else do { s \<leftarrow> fd_array_dup p2 p1 s; f \<leftarrow> file_at p2 s; Some (fd f, s) } } }"

section \<open>The tables of the processes\<close>

text \<open>The memory of a new table is what \<^verbatim>\<open>kmalloc\<close> found, \<^verbatim>\<open>arr\<close>.\<close>

definition files_create :: "nat \<Rightarrow> fd_file list \<Rightarrow> 'f fsys \<Rightarrow> nat \<times> 'f fsys" where
  "files_create t arr s =
     (if t \<noteq> 0 then
        (t, s\<lparr>ftabs := (ftabs s)(t \<mapsto> \<lparr>pwd = 0, fd_array = fd_array_init arr, files_count = 0\<rparr>)\<rparr>)
      else (t, s))"

primrec destroy_loop :: "'f optab \<Rightarrow> nat \<Rightarrow> nat list \<Rightarrow> 'f fsys \<Rightarrow> 'f fsys option" where
  "destroy_loop T t [] s = Some s"
| "destroy_loop T t (i # js) s =
     do { f \<leftarrow> file_at (t, i) s;
          s \<leftarrow> (if status f = FD_OPENED then fd_array_close T (t, i) s else Some s);
          f \<leftarrow> file_at (t, i) s;
          kassert (status f = FD_NONE);
          destroy_loop T t js s }"

definition files_destroy :: "'f optab \<Rightarrow> nat \<Rightarrow> 'f fsys \<Rightarrow> 'f fsys option" where
  "files_destroy T t s =
     do { kassert (t \<noteq> 0);
          fs \<leftarrow> ftabs s t;
          kassert (files_count fs = 0);
          s \<leftarrow> (if pwd fs \<noteq> 0 then do { (_, s) \<leftarrow> inode_ref_dec T (pwd fs) s; Some s } else Some s);
          s \<leftarrow> destroy_loop T t [0..<FILES_STRUCT_NENTRY] s;
          Some (s\<lparr>ftabs := (ftabs s)(t := None)\<rparr>) }"

primrec closeall_loop :: "'f optab \<Rightarrow> nat \<Rightarrow> nat list \<Rightarrow> 'f fsys \<Rightarrow> 'f fsys option" where
  "closeall_loop T t [] s = Some s"
| "closeall_loop T t (i # js) s =
     do { f \<leftarrow> file_at (t, i) s;
          s \<leftarrow> (if status f = FD_OPENED then fd_array_close T (t, i) s else Some s);
          closeall_loop T t js s }"

definition files_closeall :: "'f optab \<Rightarrow> nat \<Rightarrow> 'f fsys \<Rightarrow> 'f fsys option" where
  "files_closeall T t s =
     do { kassert (t \<noteq> 0);
          fs \<leftarrow> ftabs s t;
          kassert (files_count fs > 0);
          closeall_loop T t [2..<FILES_STRUCT_NENTRY] s }"

primrec dup_loop :: "nat \<Rightarrow> nat \<Rightarrow> nat list \<Rightarrow> 'f fsys \<Rightarrow> 'f fsys option" where
  "dup_loop to from [] s = Some s"
| "dup_loop to from (i # js) s =
     do { f \<leftarrow> file_at (from, i) s;
          s \<leftarrow> (if status f = FD_OPENED then
                  do { g \<leftarrow> file_at (to, i) s;
                       fd_array_dup (to, i) (from, i) (set_file (to, i) (g\<lparr>status := FD_INIT\<rparr>) s) }
                else Some s);
          dup_loop to from js s }"

definition dup_files :: "nat \<Rightarrow> nat \<Rightarrow> 'f call" where
  "dup_files to from s =
     do { kassert (to \<noteq> 0 \<and> from \<noteq> 0);
          ts \<leftarrow> ftabs s to;
          fs \<leftarrow> ftabs s from;
          kassert (files_count ts = 0 \<and> files_count fs > 0);
          let s = s\<lparr>ftabs := (ftabs s)(to \<mapsto> ts\<lparr>pwd := pwd fs\<rparr>)\<rparr>;
          s \<leftarrow> (if pwd fs \<noteq> 0 then do { (_, s) \<leftarrow> inode_ref_inc (pwd fs) s; Some s } else Some s);
          s \<leftarrow> dup_loop to from [0..<FILES_STRUCT_NENTRY] s;
          Some (0, s) }"


section \<open>Descriptors and counters\<close>

text \<open>What a descriptor, a table and all tables hold of the inode \<^verbatim>\<open>n\<close>.\<close>

definition held :: "fd_file \<Rightarrow> nat \<Rightarrow> int" where
  "held f n = (if status f = FD_OPENED \<and> node f = n then 1 else 0)"

definition table_opens :: "files_struct \<Rightarrow> nat \<Rightarrow> int" where
  "table_opens fs n = (\<Sum>f\<leftarrow>fd_array fs. held f n)"

definition opens :: "'f fsys \<Rightarrow> nat \<Rightarrow> int" where
  "opens s n = (\<Sum>t\<in>dom (ftabs s). table_opens (the (ftabs s t)) n)"

definition dirs :: "'f fsys \<Rightarrow> nat \<Rightarrow> int" where
  "dirs s n = (\<Sum>t\<in>dom (ftabs s). at (pwd (the (ftabs s t))) n)"

text \<open>
  The counters are those of the descriptors, the current directories and the boot file
  system, except for \<^verbatim>\<open>e\<close> further references and \<^verbatim>\<open>b\<close> further openings.
\<close>

definition balance :: "(nat \<Rightarrow> int) \<Rightarrow> (nat \<Rightarrow> int) \<Rightarrow> 'f fsys \<Rightarrow> bool" where
  "balance e b s \<longleftrightarrow> finite (dom (ftabs s)) \<and>
     (\<forall>n. n \<noteq> 0 \<longrightarrow> oc s n = opens s n + b n \<and>
        rc s n = opens s n + dirs s n + at (bootfs_node s) n + e n)"

lemma sum_dom_upd:
  fixes g :: "'a \<Rightarrow> int"
  assumes "finite (dom m)" "m t = Some y"
  shows "(\<Sum>u\<in>dom (m(t \<mapsto> x)). g (the ((m(t \<mapsto> x)) u))) = (\<Sum>u\<in>dom m. g (the (m u))) - g y + g x"
proof -
  have d: "dom (m(t \<mapsto> x)) = dom m" "t \<in> dom m" using assms(2) by auto
  have "(\<Sum>u\<in>dom m. g (the ((m(t \<mapsto> x)) u))) = g x + (\<Sum>u\<in>dom m - {t}. g (the ((m(t \<mapsto> x)) u)))"
    using sum.remove [OF assms(1) d(2), of "\<lambda>u. g (the ((m(t \<mapsto> x)) u))"] by simp
  also have "(\<Sum>u\<in>dom m - {t}. g (the ((m(t \<mapsto> x)) u))) = (\<Sum>u\<in>dom m - {t}. g (the (m u)))"
    by (rule sum.cong) auto
  also have "\<dots> = (\<Sum>u\<in>dom m. g (the (m u))) - g y"
    using sum.remove [OF assms(1) d(2), of "\<lambda>u. g (the (m u))"] assms(2) by simp
  finally show ?thesis using d(1) by simp
qed

lemma sum_list_upd:
  fixes g :: "'a \<Rightarrow> int"
  assumes "i < length xs"
  shows "(\<Sum>x\<leftarrow>xs[i := y]. g x) = (\<Sum>x\<leftarrow>xs. g x) - g (xs ! i) + g y"
  using assms
proof (induction xs arbitrary: i)
  case (Cons a xs)
  then show ?case by (cases i) auto
qed simp

lemma file_atE:
  assumes "file_at p s = Some f"
  obtains fs where "ftabs s (fst p) = Some fs" "snd p < length (fd_array fs)" "f = fd_array fs ! snd p"
  using assms by (auto simp: file_at_def bind_Some_iff split: if_splits)

lemma set_file_eq:
  assumes "ftabs s (fst p) = Some fs"
  shows "set_file p f s = s\<lparr>ftabs := (ftabs s)(fst p \<mapsto> fs\<lparr>fd_array := (fd_array fs)[snd p := f]\<rparr>)\<rparr>"
  using assms by (simp add: set_file_def)

lemma file_at_set_file:
  assumes "file_at p s = Some f"
  shows "file_at q (set_file p f' s) = (if q = p then Some f' else file_at q s)"
  using assms
  by (elim file_atE) (auto simp: set_file_eq file_at_def prod_eq_iff split: if_splits)

lemma set_file_frame [simp]:
  "inode_at (set_file p f s) = inode_at s" "bootfs_node (set_file p f s) = bootfs_node s"
  "filesp (set_file p f s) = filesp s" "rc (set_file p f s) = rc s" "oc (set_file p f s) = oc s"
  "vdevs (set_file p f s) = vdevs s" "vdev_links (set_file p f s) = vdev_links s"
  by (auto simp: set_file_def rc_def oc_def fun_eq_iff split: option.splits)

lemma table_opens_upd:
  "i < length (fd_array fs) \<Longrightarrow>
   table_opens (fs\<lparr>fd_array := (fd_array fs)[i := f]\<rparr>) n = table_opens fs n - held (fd_array fs ! i) n + held f n"
  by (simp add: table_opens_def sum_list_upd [where g = "\<lambda>f. held f n"])

lemma opens_set_file:
  assumes "file_at p s = Some f" "finite (dom (ftabs s))"
  shows "opens (set_file p f' s) n = opens s n - held f n + held f' n"
  using assms
  by (elim file_atE)
    (simp add: set_file_eq opens_def sum_dom_upd [where g = "\<lambda>fs. table_opens fs n"] table_opens_upd
      del: dom_fun_upd fun_upd_apply)

lemma dirs_set_file:
  assumes "file_at p s = Some f" "finite (dom (ftabs s))"
  shows "dirs (set_file p f' s) n = dirs s n"
  using assms
  by (elim file_atE)
    (simp add: set_file_eq dirs_def sum_dom_upd [where g = "\<lambda>fs. at (pwd fs) n"]
      del: dom_fun_upd fun_upd_apply)

lemma dom_set_file [simp]: "dom (ftabs (set_file p f s)) = dom (ftabs s)"
  by (auto simp: set_file_def split: option.splits)

lemma balance_set_file:
  assumes "balance e b s" "file_at p s = Some f"
    "\<And>n. e' n = e n + held f n - held f' n" "\<And>n. b' n = b n + held f n - held f' n"
  shows "balance e' b' (set_file p f' s)"
  using assms
  by (simp add: balance_def opens_set_file [OF assms(2)] dirs_set_file [OF assms(2)])

lemma opens_above: "same_above s s' \<Longrightarrow> opens s' n = opens s n"
  by (simp add: opens_def same_above_iff)

lemma dirs_above: "same_above s s' \<Longrightarrow> dirs s' n = dirs s n"
  by (simp add: dirs_def same_above_iff)

lemma file_at_above: "same_above s s' \<Longrightarrow> file_at p s' = file_at p s"
  by (simp add: file_at_def same_above_iff)

lemma balance_moves:
  assumes "balance e b s" "moves X a c s s'" "\<And>n. e' n = e n + a n" "\<And>n. b' n = b n + c n"
  shows "balance e' b' s'"
proof -
  have sa: "same_above s s'" using assms(2) by (simp add: moves_def)
  have "ftabs s' = ftabs s" "bootfs_node s' = bootfs_node s" using same_aboveD [OF sa] by auto
  then show ?thesis
    using assms by (simp add: balance_def moves_def opens_above [OF sa] dirs_above [OF sa])
qed

lemma balance_keeps: "balance e b s \<Longrightarrow> preserves X s s' \<Longrightarrow> balance e b s'"
  by (erule (1) balance_moves) simp_all

section \<open>Well-formed tables\<close>

text \<open>Between two calls an entry is unused or opened once.\<close>

definition slot_ok :: "nat \<Rightarrow> fd_file \<Rightarrow> bool" where
  "slot_ok i f \<longleftrightarrow> fd f = int i \<and>
     (status f = FD_NONE \<and> fopen_count f = 0 \<or> status f = FD_OPENED \<and> fopen_count f = 1 \<and> node f \<noteq> 0)"

definition slots_ok :: "fptr set \<Rightarrow> 'f fsys \<Rightarrow> bool" where
  "slots_ok X s \<longleftrightarrow> (\<forall>t fs. ftabs s t = Some fs \<longrightarrow> length (fd_array fs) = FILES_STRUCT_NENTRY) \<and>
     (\<forall>p f. file_at p s = Some f \<longrightarrow> p \<notin> X \<longrightarrow> slot_ok (snd p) f)"

definition tallied :: "(nat \<Rightarrow> int) \<Rightarrow> 'f fsys \<Rightarrow> bool" where
  "tallied e s \<longleftrightarrow> slots_ok {} s \<and> balance e none s"

definition fsys_ok :: "(nat \<Rightarrow> int) \<Rightarrow> 'f fsys \<Rightarrow> bool" where
  "fsys_ok e s \<longleftrightarrow> slots_ok {} s \<and> balance e none s \<and> (\<forall>n. 0 \<le> e n)"

lemma held_nonneg: "0 \<le> held f n"
  by (simp add: held_def)

lemma opens_nonneg: "0 \<le> opens s n"
  unfolding opens_def table_opens_def by (intro sum_nonneg sum_list_nonneg) (auto simp: held_nonneg)

lemma dirs_nonneg: "0 \<le> dirs s n"
  unfolding dirs_def by (intro sum_nonneg) simp

lemma balance_counted:
  assumes "balance e b s" "\<And>n. 0 \<le> e n"
  shows "counted s"
proof
  fix m
  show "0 \<le> rc s m"
  proof (cases "m = 0")
    case True
    then show ?thesis by (simp add: rc_def)
  next
    case False
    with assms opens_nonneg [of s m] dirs_nonneg [of s m] show ?thesis by (simp add: balance_def)
  qed
qed

lemma fsys_ok_counted: "fsys_ok e s \<Longrightarrow> counted s"
  using balance_counted [of e none s] by (simp add: fsys_ok_def)

lemma slots_ok_above: "slots_ok X s \<Longrightarrow> same_above s s' \<Longrightarrow> slots_ok X s'"
  using same_aboveD [of s s'] file_at_above [of s s'] unfolding slots_ok_def by simp

lemma slots_ok_set_file:
  assumes "slots_ok X s" "file_at p s = Some f" "X \<subseteq> insert p Y" "p \<in> Y \<or> slot_ok (snd p) f'"
  shows "slots_ok Y (set_file p f' s)"
proof -
  from assms(2) obtain fs where fs: "ftabs s (fst p) = Some fs" by (rule file_atE)
  have "length (fd_array fs') = FILES_STRUCT_NENTRY" if "ftabs (set_file p f' s) t = Some fs'" for t fs'
    using that assms(1) fs by (auto simp: slots_ok_def set_file_eq split: if_splits)
  moreover have "slot_ok (snd q) g" if "file_at q (set_file p f' s) = Some g" "q \<notin> Y" for q g
  proof (cases "q = p")
    case True
    with that assms(4) show ?thesis by (simp add: file_at_set_file [OF assms(2)])
  next
    case False
    with that assms(3) have "q \<notin> X" "file_at q s = Some g"
      by (auto simp: file_at_set_file [OF assms(2)])
    with assms(1) show ?thesis unfolding slots_ok_def by blast
  qed
  ultimately show ?thesis by (simp add: slots_ok_def)
qed

lemma fsys_ok_moves:
  "fsys_ok e s \<Longrightarrow> moves X a none s s' \<Longrightarrow> (\<And>n. 0 \<le> e n + a n) \<Longrightarrow> fsys_ok (\<lambda>n. e n + a n) s'"
  unfolding fsys_ok_def
  by (auto intro: slots_ok_above balance_moves simp: moves_def)

lemma fsys_ok_keeps: "fsys_ok e s \<Longrightarrow> preserves X s s' \<Longrightarrow> fsys_ok e s'"
  using fsys_ok_moves [of e s X none s'] by (simp add: fsys_ok_def)


section \<open>The operations keep the tables and the counters\<close>

text \<open>Inside a call the entry \<^verbatim>\<open>p\<close> is in use, or taken and not yet opened.\<close>

definition busy :: "fptr \<Rightarrow> (nat \<Rightarrow> int) \<Rightarrow> 'f fsys \<Rightarrow> bool" where
  "busy p e s \<longleftrightarrow> slots_ok {p} s \<and> balance e none s \<and> (\<forall>n. 0 \<le> e n) \<and>
     (\<exists>f. file_at p s = Some f \<and> fd f = int (snd p) \<and> status f = FD_OPENED \<and> fopen_count f = 2 \<and> node f \<noteq> 0)"

definition fresh :: "fptr \<Rightarrow> (nat \<Rightarrow> int) \<Rightarrow> (nat \<Rightarrow> int) \<Rightarrow> 'f fsys \<Rightarrow> bool" where
  "fresh p e b s \<longleftrightarrow> slots_ok {p} s \<and> balance e b s \<and> (\<forall>n. 0 \<le> e n) \<and>
     (\<exists>f. file_at p s = Some f \<and> fd f = int (snd p) \<and> status f = FD_INIT \<and> fopen_count f = 0)"

lemma slot_opened:
  "slots_ok X s \<Longrightarrow> file_at p s = Some f \<Longrightarrow> p \<notin> X \<Longrightarrow> status f = FD_OPENED \<Longrightarrow>
   fd f = int (snd p) \<and> fopen_count f = 1 \<and> node f \<noteq> 0"
  unfolding slots_ok_def slot_ok_def by fastforce

lemma slot_unused:
  "slots_ok X s \<Longrightarrow> file_at p s = Some f \<Longrightarrow> p \<notin> X \<Longrightarrow> status f = FD_NONE \<Longrightarrow>
   fd f = int (snd p) \<and> fopen_count f = 0"
  unfolding slots_ok_def slot_ok_def by fastforce

lemma busy_keeps: "busy p e s \<Longrightarrow> preserves X s s' \<Longrightarrow> busy p e s'"
  unfolding busy_def using balance_keeps [of e none s X s'] slots_ok_above [of "{p}" s s'] file_at_above [of s s' p]
  by (auto simp: moves_def)

lemma fresh_moves:
  "fresh p e b s \<Longrightarrow> moves X a c s s' \<Longrightarrow> (\<And>n. 0 \<le> e n + a n) \<Longrightarrow>
   fresh p (\<lambda>n. e n + a n) (\<lambda>n. b n + c n) s'"
  unfolding fresh_def
  using balance_moves [of e b s X a c s'] slots_ok_above [of "{p}" s s'] file_at_above [of s s' p]
  by (auto simp: moves_def)

lemma fd_array_acquire_busy:
  assumes "fsys_ok e s" "fd_array_acquire p s = Some s'"
  shows "busy p e s'"
proof -
  from assms(2) obtain f where f: "file_at p s = Some f" "status f = FD_OPENED"
    and s': "s' = set_file p (f\<lparr>fopen_count := fopen_count f + 1\<rparr>) s"
    by (auto simp: fd_array_acquire_def bind_Some_iff split: if_splits)
  from assms(1) have ok: "slots_ok {} s" "balance e none s" "\<forall>n. 0 \<le> e n" by (simp_all add: fsys_ok_def)
  note sl = slot_opened [OF ok(1) f(1) _ f(2), simplified]
  have "slots_ok {p} s'" unfolding s' by (rule slots_ok_set_file [OF ok(1) f(1)]) simp_all
  moreover have "balance e none s'"
    unfolding s' by (rule balance_set_file [OF ok(2) f(1)]) (simp_all add: held_def f)
  moreover have "file_at p s' = Some (f\<lparr>fopen_count := fopen_count f + 1\<rparr>)"
    by (simp add: s' file_at_set_file [OF f(1)])
  ultimately show ?thesis using ok(3) sl f(2) by (simp add: busy_def)
qed

lemma busy_set_pos:
  assumes "busy p e s" "file_at p s = Some f"
  shows "busy p e (set_file p (f\<lparr>fpos := x\<rparr>) s)"
proof -
  from assms(1) have ok: "slots_ok {p} s" "balance e none s" by (simp_all add: busy_def)
  have "slots_ok {p} (set_file p (f\<lparr>fpos := x\<rparr>) s)"
    by (rule slots_ok_set_file [OF ok(1) assms(2)]) simp_all
  moreover have "balance e none (set_file p (f\<lparr>fpos := x\<rparr>) s)"
    by (rule balance_set_file [OF ok(2) assms(2)]) (simp_all add: held_def)
  ultimately show ?thesis using assms
    by (auto simp: busy_def file_at_set_file [OF assms(2)])
qed

lemma fd_array_release_busy:
  assumes "busy p e s" "fd_array_release T p s = Some s'"
  shows "fsys_ok e s'"
proof -
  from assms(1) obtain f where f: "file_at p s = Some f" "fd f = int (snd p)" "status f = FD_OPENED"
    "fopen_count f = 2" "node f \<noteq> 0" and ok: "slots_ok {p} s" "balance e none s" "\<forall>n. 0 \<le> e n"
    by (auto simp: busy_def)
  from assms(2) f have s': "s' = set_file p (f\<lparr>fopen_count := 1\<rparr>) s"
    by (auto simp: fd_array_release_def Let_def split: if_splits)
  have "slots_ok {} s'"
    unfolding s' by (rule slots_ok_set_file [OF ok(1) f(1)]) (simp_all add: slot_ok_def f)
  moreover have "balance e none s'"
    unfolding s' by (rule balance_set_file [OF ok(2) f(1)]) (simp_all add: held_def f)
  ultimately show ?thesis using ok(3) by (simp add: fsys_ok_def)
qed

lemma busy_release: "busy p e s \<Longrightarrow> \<exists>s'. fd_array_release T p s = Some s'"
  by (auto simp: busy_def fd_array_release_def Let_def)

lemma fd_take_fresh:
  assumes "fsys_ok e s" "file_at p s = Some f" "status f = FD_NONE"
  shows "\<exists>s'. fd_take p s = Some (0, p, s') \<and> fresh p e none s'"
proof -
  from assms(1) have ok: "slots_ok {} s" "balance e none s" "\<forall>n. 0 \<le> e n" by (simp_all add: fsys_ok_def)
  note sl = slot_unused [OF ok(1) assms(2) _ assms(3), simplified]
  let ?s = "set_file p (f\<lparr>status := FD_INIT, node := 0\<rparr>) s"
  have "slots_ok {p} ?s" by (rule slots_ok_set_file [OF ok(1) assms(2)]) simp_all
  moreover have "balance e none ?s"
    by (rule balance_set_file [OF ok(2) assms(2)]) (simp_all add: held_def assms)
  ultimately show ?thesis using ok(3) sl assms(2)
    by (simp add: fd_take_def fresh_def file_at_set_file [OF assms(2)])
qed

lemma fd_scan_unused:
  "fd_scan t s = Some i \<Longrightarrow> \<exists>f. file_at (t, i) s = Some f \<and> status f = FD_NONE"
  by (auto simp: fd_scan_def find_Some_iff split: option.splits)

lemma fd_array_alloc_cases:
  assumes "fd_array_alloc x s = Some (ret, p, s')"
  shows "ret \<in> {- E_MAX_OPEN, - E_BUSY, - E_INVAL} \<and> s' = s \<or>
    (\<exists>i f. file_at (filesp s, i) s = Some f \<and> status f = FD_NONE \<and>
       fd_take (filesp s, i) s = Some (ret, p, s'))"
proof -
  have g: "get_fd_array s = Some (filesp s)"
    using assms by (auto simp: fd_array_alloc_def get_fd_array_def bind_Some_iff split: if_splits)
  show ?thesis
  proof (cases "x = NO_FD")
    case True
    with assms g show ?thesis
      by (auto simp: fd_array_alloc_def dest: fd_scan_unused split: option.splits)
  next
    case False
    with assms g show ?thesis
      by (auto simp: fd_array_alloc_def bind_Some_iff split: if_splits)
  qed
qed

lemma fd_array_alloc_fresh:
  assumes "fsys_ok e s" "fd_array_alloc x s = Some (ret, p, s')"
  shows "if ret = 0 then fresh p e none s' \<and> fst p = filesp s else s' = s"
proof (cases "ret \<in> {- E_MAX_OPEN, - E_BUSY, - E_INVAL} \<and> s' = s")
  case False
  with fd_array_alloc_cases [OF assms(2)] obtain i f where "file_at (filesp s, i) s = Some f"
    "status f = FD_NONE" and t: "fd_take (filesp s, i) s = Some (ret, p, s')" by blast
  from fd_take_fresh [OF assms(1) this(1,2)] t show ?thesis by auto
qed auto


text \<open>A descriptor that was taken is given back, or opened on an inode it has been counted for.\<close>

lemma fd_array_free_fresh:
  assumes "fresh p e none s" "fd_array_free T p s = Some s'"
  shows "fsys_ok e s'"
proof -
  from assms(1) obtain f where f: "file_at p s = Some f" "fd f = int (snd p)" "status f = FD_INIT"
    "fopen_count f = 0" and ok: "slots_ok {p} s" "balance e none s" "\<forall>n. 0 \<le> e n"
    by (auto simp: fresh_def)
  from assms(2) f have s': "s' = set_file p (f\<lparr>status := FD_NONE\<rparr>) s"
    by (auto simp: fd_array_free_def)
  have "slots_ok {} s'"
    unfolding s' by (rule slots_ok_set_file [OF ok(1) f(1)]) (simp_all add: slot_ok_def f)
  moreover have "balance e none s'"
    unfolding s' by (rule balance_set_file [OF ok(2) f(1)]) (simp_all add: held_def f)
  ultimately show ?thesis using ok(3) by (simp add: fsys_ok_def)
qed

lemma fresh_opened:
  assumes "fresh p (\<lambda>m. e m + at n m) (at n) s" "\<And>m. 0 \<le> e m" "file_at p s = Some f"
    and g: "status g = FD_INIT" "fd g = fd f" "fopen_count g = fopen_count f" "node g = n"
    and r: "fd_array_open p (set_file p g s) = Some s'"
  shows "fsys_ok e s' \<and> (\<exists>h. file_at p s' = Some h \<and> fd h = int (snd p))"
proof -
  from assms(1,3) have f: "fd f = int (snd p)" "status f = FD_INIT" "fopen_count f = 0"
    and ok: "slots_ok {p} s" "balance (\<lambda>m. e m + at n m) (at n) s"
    by (auto simp: fresh_def)
  let ?h = "g\<lparr>status := FD_OPENED, fopen_count := 1\<rparr>"
  have at: "file_at p (set_file p g s) = Some g" by (simp add: file_at_set_file [OF assms(3)])
  from r g f have n: "n \<noteq> 0" and s': "s' = set_file p ?h (set_file p g s)"
    by (auto simp: fd_array_open_def at split: if_splits)
  have 1: "slots_ok {p} (set_file p g s)"
    by (rule slots_ok_set_file [OF ok(1) assms(3)]) simp_all
  have 2: "balance (\<lambda>m. e m + at n m) (at n) (set_file p g s)"
    by (rule balance_set_file [OF ok(2) assms(3)]) (simp_all add: held_def f g)
  have "slots_ok {} s'"
    unfolding s' by (rule slots_ok_set_file [OF 1 at]) (simp_all add: slot_ok_def f g n)
  moreover have "balance e none s'"
    unfolding s' by (rule balance_set_file [OF 2 at]) (auto simp: held_def f g at_def)
  moreover have "file_at p s' = Some ?h"
    unfolding s' by (simp add: file_at_set_file [OF at])
  ultimately show ?thesis using assms(2) f g by (simp add: fsys_ok_def)
qed

text \<open>The fields of the tables besides the entries, and the entries other than \<^verbatim>\<open>p\<close>.\<close>

definition table_info :: "'f fsys \<Rightarrow> nat \<Rightarrow> (nat \<times> int) option" where
  "table_info s t = map_option (\<lambda>fs. (pwd fs, files_count fs)) (ftabs s t)"

definition only_slot :: "fptr \<Rightarrow> 'f fsys \<Rightarrow> 'f fsys \<Rightarrow> bool" where
  "only_slot p s s' \<longleftrightarrow> filesp s' = filesp s \<and> bootfs_node s' = bootfs_node s \<and>
     table_info s' = table_info s \<and> (\<forall>q. q \<noteq> p \<longrightarrow> file_at q s' = file_at q s)"

lemma only_slot_set_file:
  assumes "file_at p s = Some f"
  shows "only_slot p s (set_file p g s)"
proof -
  from assms obtain fs where "ftabs s (fst p) = Some fs" by (rule file_atE)
  then have "table_info (set_file p g s) = table_info s"
    by (auto simp: table_info_def set_file_eq fun_eq_iff)
  then show ?thesis by (simp add: only_slot_def file_at_set_file [OF assms])
qed

lemma only_slot_above: "same_above s s' \<Longrightarrow> only_slot p s s'"
  using same_aboveD [of s s'] by (simp add: only_slot_def table_info_def file_at_above fun_eq_iff)

lemma only_slot_trans: "only_slot p s s' \<Longrightarrow> only_slot p s' s'' \<Longrightarrow> only_slot p s s''"
  by (simp add: only_slot_def)

context inode_layer
begin

lemma fd_array_close_sound:
  assumes "tallied e s" "fd_array_close T p s = Some s'"
  shows "tallied e s' \<and> only_slot p s s' \<and> (\<exists>f. file_at p s' = Some f \<and> status f = FD_NONE)"
proof -
  from assms(1) have ok: "slots_ok {} s" "balance e none s" by (simp_all add: tallied_def)
  from assms(2) obtain f where f: "file_at p s = Some f" "status f = FD_OPENED"
    by (auto simp: fd_array_close_def bind_Some_iff split: if_splits)
  note sl = slot_opened [OF ok(1) f(1) _ f(2), simplified]
  let ?n = "node f" and ?g = "f\<lparr>status := FD_CLOSED, fopen_count := 0\<rparr>"
  let ?t = "set_file p ?g s"
  have at: "file_at p ?t = Some ?g" by (simp add: file_at_set_file [OF f(1)])
  have 1: "slots_ok {p} ?t" by (rule slots_ok_set_file [OF ok(1) f(1)]) simp_all
  have 2: "balance (\<lambda>m. e m + at ?n m) (at ?n) ?t"
    by (rule balance_set_file [OF ok(2) f(1)]) (simp_all add: held_def f at_def)
  from assms(2) f sl obtain ret u h where c: "vfs_close T ?n ?t = Some (ret, u)"
    and h: "file_at p u = Some h" and s': "s' = set_file p (h\<lparr>status := FD_NONE\<rparr>) u"
    by (auto simp: fd_array_close_def fd_array_free_def at bind_Some_iff Let_def split: if_splits)
  note m = vfs_close_moves(4) [OF c]
  have sa: "same_above ?t u" using m by (simp add: moves_def)
  have h: "h = ?g" using h by (simp add: file_at_above [OF sa] at)
  have u: "file_at p u = Some ?g" by (simp add: file_at_above [OF sa] at)
  have 3: "slots_ok {p} u" by (rule slots_ok_above [OF 1 sa])
  have 4: "balance e none u" by (rule balance_moves [OF 2 m]) simp_all
  have "slots_ok {} s'"
    unfolding s' by (rule slots_ok_set_file [OF 3 u]) (simp_all add: slot_ok_def h sl)
  moreover have "balance e none s'"
    unfolding s' by (rule balance_set_file [OF 4 u]) (simp_all add: held_def h)
  moreover have "only_slot p s s'"
    unfolding s' using only_slot_set_file [OF f(1)] only_slot_above [OF sa] only_slot_set_file [OF u]
    by (blast intro: only_slot_trans)
  moreover have "file_at p s' = Some (h\<lparr>status := FD_NONE\<rparr>)"
    unfolding s' by (simp add: file_at_set_file [OF u])
  ultimately show ?thesis by (simp add: tallied_def)
qed

lemma fd_array_close_ok:
  assumes "fsys_ok e s" "fd_array_close T p s = Some s'"
  shows "fsys_ok e s' \<and> only_slot p s s' \<and> (\<exists>f. file_at p s' = Some f \<and> status f = FD_NONE)"
  using fd_array_close_sound [of e s p s'] assms by (simp add: fsys_ok_def tallied_def)

lemma file_close_ok:
  assumes "fsys_ok e s" "file_close T x s = Some (ret, s')"
  shows "fsys_ok e s'"
  using assms fd_array_close_ok [OF assms(1)]
  by (auto simp: file_close_def bind_Some_iff split: if_splits)

lemma fd_array_free_closed:
  assumes "fresh p (\<lambda>m. e m + at n m) (at n) s" "\<And>m. 0 \<le> e m" "vfs_close T n s = Some (ret, t)"
  shows "fresh p e none t"
proof -
  note m = vfs_close_moves(4) [OF assms(3)]
  from fresh_moves [OF assms(1) m] assms(2)
  show ?thesis by (simp add: fresh_def balance_def)
qed

lemma file_moved_ok:
  assumes "busy p e s" "file_moved T p (ret0, iob, s) = Some (ret, c, s')"
  shows "fsys_ok e s'"
proof -
  from assms(1) obtain f where f: "file_at p s = Some f" "status f = FD_OPENED" by (auto simp: busy_def)
  from assms(2) f have "fd_array_release T p (set_file p (f\<lparr>fpos := s64 (fpos f + int (iobuf_used iob))\<rparr>) s) = Some s'"
    by (auto simp: file_moved_def bind_Some_iff Let_def)
  with busy_set_pos [OF assms(1) f(1)] show ?thesis by (rule fd_array_release_busy)
qed

lemma file_read_ok:
  assumes "fsys_ok e s" "file_read T x base len s = Some (ret, c, s')"
  shows "fsys_ok e s'"
proof (cases "s' = s")
  case False
  with assms(2) obtain p u n iob ret0 iob' v where a: "fd_array_acquire p s = Some u"
    and r: "vop_read T n iob u = Some (ret0, iob', v)" and m: "file_moved T p (ret0, iob', v) = Some (ret, c, s')"
    by (auto simp: file_read_def bind_Some_iff split: if_splits)
  have "busy p e v" by (rule busy_keeps [OF fd_array_acquire_busy [OF assms(1) a] vop_read_keeps [OF r]])
  then show ?thesis using m by (rule file_moved_ok)
qed (use assms(1) in simp)

lemma file_write_ok:
  assumes "fsys_ok e s" "file_write T x base len s = Some (ret, c, s')"
  shows "fsys_ok e s'"
proof (cases "s' = s")
  case False
  with assms(2) obtain p u n iob ret0 iob' v where a: "fd_array_acquire p s = Some u"
    and r: "vop_write T n iob u = Some (ret0, iob', v)" and m: "file_moved T p (ret0, iob', v) = Some (ret, c, s')"
    by (auto simp: file_write_def bind_Some_iff split: if_splits)
  have "busy p e v" by (rule busy_keeps [OF fd_array_acquire_busy [OF assms(1) a] vop_write_keeps [OF r]])
  then show ?thesis using m by (rule file_moved_ok)
qed (use assms(1) in simp)

end


context inode_layer
begin

lemma file_fsync_ok:
  assumes "fsys_ok e s" "file_fsync T x s = Some (ret, s')"
  shows "fsys_ok e s'"
proof (cases "s' = s")
  case False
  with assms(2) obtain p u n ret0 v where a: "fd_array_acquire p s = Some u"
    and r: "vop_fsync T n u = Some (ret0, v)" and m: "fd_array_release T p v = Some s'"
    by (auto simp: file_fsync_def bind_Some_iff split: if_splits)
  have "busy p e v" by (rule busy_keeps [OF fd_array_acquire_busy [OF assms(1) a] vop_fsync_keeps [OF r]])
  then show ?thesis using m by (rule fd_array_release_busy)
qed (use assms(1) in simp)

lemma file_fstat_ok:
  assumes "fsys_ok e s" "file_fstat T x st s = Some (ret, st', s')"
  shows "fsys_ok e s'"
proof (cases "s' = s")
  case False
  with assms(2) obtain p u n ret0 st0 v where a: "fd_array_acquire p s = Some u"
    and r: "vop_fstat T n u = Some (ret0, st0, v)" and m: "fd_array_release T p v = Some s'"
    by (auto simp: file_fstat_def bind_Some_iff split: if_splits)
  have "busy p e v" by (rule busy_keeps [OF fd_array_acquire_busy [OF assms(1) a] vop_fstat_keeps [OF r]])
  then show ?thesis using m by (rule fd_array_release_busy)
qed (use assms(1) in simp)

lemma file_getdirentry_ok:
  assumes "fsys_ok e s" "file_getdirentry T x name offset s = Some (ret, offset', s')"
  shows "fsys_ok e s'"
proof (cases "s' = s")
  case False
  with assms(2) obtain p u n iob ret0 iob' v where a: "fd_array_acquire p s = Some u"
    and r: "vop_getdirentry T n iob u = Some (ret0, iob', v)" and m: "fd_array_release T p v = Some s'"
    by (auto simp: file_getdirentry_def bind_Some_iff Let_def split: if_splits)
  have "busy p e v" by (rule busy_keeps [OF fd_array_acquire_busy [OF assms(1) a] vop_getdirentry_keeps [OF r]])
  then show ?thesis using m by (rule fd_array_release_busy)
qed (use assms(1) in simp)

lemma seek_target_keeps:
  assumes "seek_target T f pos whence s = Some (ret, pos', s')"
  shows "preserves {} s s'"
  using assms by (auto simp: seek_target_def bind_Some_iff split: if_splits intro: vop_fstat_keeps)

lemma file_seek_ok:
  assumes "fsys_ok e s" "file_seek T x pos whence s = Some (ret, s')"
  shows "fsys_ok e s'"
proof (cases "s' = s")
  case False
  with assms(2) obtain p u f r1 pos1 v r2 w where a: "fd_array_acquire p s = Some u"
    and f: "file_at p u = Some f" and t: "seek_target T f pos whence u = Some (r1, pos1, v)"
    and k: "(if r1 = 0 then
                 do { (ret, s) \<leftarrow> vop_tryseek T (node f) pos1 v;
                      f \<leftarrow> file_at p s;
                      Some (ret, if ret = 0 then set_file p (f\<lparr>fpos := pos1\<rparr>) s else s) }
               else Some (r1, v)) = Some (r2, w)"
    and m: "fd_array_release T p w = Some s'"
    by (auto simp: file_seek_def bind_Some_iff split: if_splits)
  have v: "busy p e v" by (rule busy_keeps [OF fd_array_acquire_busy [OF assms(1) a] seek_target_keeps [OF t]])
  have "busy p e w"
  proof (cases "r1 = 0")
    case True
    with k obtain z g where z: "vop_tryseek T (node f) pos1 v = Some (r2, z)" and g: "file_at p z = Some g"
      and w: "w = (if r2 = 0 then set_file p (g\<lparr>fpos := pos1\<rparr>) z else z)"
      by (auto simp: bind_Some_iff)
    have "busy p e z" by (rule busy_keeps [OF v vop_tryseek_keeps [OF z]])
    with busy_set_pos [OF this g] show ?thesis by (simp add: w)
  next
    case False
    with k v show ?thesis by simp
  qed
  then show ?thesis using m by (rule fd_array_release_busy)
qed (use assms(1) in simp)

end

text \<open>Opening on an inode that has been counted.\<close>

lemma file_opened_ok:
  assumes "fresh p (\<lambda>m. e m + at n m) (at n) s" "\<And>m. 0 \<le> e m" "file_opened p n pos rd wr s = Some (ret, s')"
  shows "fsys_ok e s' \<and> ret = int (snd p)"
proof -
  from assms(1) obtain f where f: "file_at p s = Some f" "status f = FD_INIT" by (auto simp: fresh_def)
  let ?g = "f\<lparr>fpos := pos, node := n, readable := rd, writable := wr\<rparr>"
  from assms(3) f obtain h where o: "fd_array_open p (set_file p ?g s) = Some s'"
    and h: "file_at p s' = Some h" "ret = fd h"
    by (auto simp: file_opened_def bind_Some_iff)
  have "fsys_ok e s' \<and> (\<exists>h. file_at p s' = Some h \<and> fd h = int (snd p))"
    by (rule fresh_opened [OF assms(1,2) f(1) _ _ _ _ o]) (simp_all add: f)
  with h show ?thesis by auto
qed

lemma fd_array_dup_ok:
  assumes "fresh to e none s" "fd_array_dup to from s = Some s'"
  shows "fsys_ok e s' \<and> (\<exists>h. file_at to s' = Some h \<and> fd h = int (snd to)) \<and> only_slot to s s'"
proof -
  from assms(2) obtain g f c u c' v where g: "file_at to s = Some g" "status g = FD_INIT"
    and f: "file_at from s = Some f" "status f = FD_OPENED"
    and r: "inode_ref_inc (node f) s = Some (c, u)" and o: "inode_open_inc (node f) u = Some (c', v)"
    and d: "fd_array_open to (set_file to (g\<lparr>fpos := fpos f, readable := readable f,
        writable := writable f, node := node f\<rparr>) v) = Some s'"
    by (auto simp: fd_array_dup_def bind_Some_iff Let_def split: if_splits)
  let ?n = "node f"
  let ?g = "g\<lparr>fpos := fpos f, readable := readable f, writable := writable f, node := node f\<rparr>"
  have m: "moves {} (at ?n) (at ?n) s v"
    using moves_trans [OF conjunct1 [OF ref_inc_found [OF r, unfolded found_def]] open_inc_moves [OF o]]
    by (rule moves_cong) simp_all
  have e: "0 \<le> e q" for q using assms(1) by (simp add: fresh_def)
  have v: "fresh to (\<lambda>q. e q + at ?n q) (at ?n) v"
    using fresh_moves [OF assms(1) m] e by (simp add: fresh_def balance_def)
  have gv: "file_at to v = Some g" using m g(1) file_at_above [of s v to] by (simp add: moves_def)
  have 1: "fsys_ok e s' \<and> (\<exists>h. file_at to s' = Some h \<and> fd h = int (snd to))"
    by (rule fresh_opened [OF v e gv _ _ _ _ d]) (simp_all add: g)
  have gg: "file_at to (set_file to ?g v) = Some ?g" by (simp add: file_at_set_file [OF gv])
  with d have "s' = set_file to (?g\<lparr>status := FD_OPENED, fopen_count := fopen_count ?g + 1\<rparr>) (set_file to ?g v)"
    by (auto simp: fd_array_open_def split: if_splits)
  then have "only_slot to (set_file to ?g v) s'" using only_slot_set_file [OF gg] by simp
  moreover have "only_slot to s v" using m by (intro only_slot_above) (simp add: moves_def)
  ultimately have "only_slot to s s'"
    using only_slot_set_file [OF gv] by (blast intro: only_slot_trans)
  with 1 show ?thesis by blast
qed

lemma file_dup_ok:
  assumes "fsys_ok e s" "file_dup fd1 fd2 s = Some (ret, s')"
  shows "fsys_ok e s'"
proof (cases "s' = s")
  case False
  with assms(2) obtain p1 where "fd2file fd1 s = Some (0, p1)"
    and r0: "do { (ret, p2, s) \<leftarrow> fd_array_alloc fd2 s;
            if ret \<noteq> 0 then Some (ret, s)
            else do { s \<leftarrow> fd_array_dup p2 p1 s; f \<leftarrow> file_at p2 s; Some (fd f, s) } } = Some (ret, s')"
    by (auto simp: file_dup_def bind_Some_iff split: if_splits)
  then obtain ret2 p2 u where a: "fd_array_alloc fd2 s = Some (ret2, p2, u)"
    and r: "(if ret2 \<noteq> 0 then Some (ret2, u)
            else do { s \<leftarrow> fd_array_dup p2 p1 u; f \<leftarrow> file_at p2 s; Some (fd f, s) }) = Some (ret, s')"
    by (auto simp: bind_Some_iff)
  note al = fd_array_alloc_fresh [OF assms(1) a]
  with r False have z: "ret2 = 0" by (auto split: if_splits)
  with r have d: "fd_array_dup p2 p1 u = Some s'" by (auto simp: bind_Some_iff)
  from z al have "fresh p2 e none u" by simp
  from fd_array_dup_ok [OF this d] show ?thesis by simp
qed (use assms(1) in simp)

context fs_layer
begin

lemma file_open_ok:
  assumes "fsys_ok e s" "file_open T F path flags s = Some (ret, s')"
  shows "fsys_ok e s' \<or> ret = - E_EXISTS \<and> and flags O_EXCL \<noteq> 0 \<and> and flags O_CREAT \<noteq> 0 \<and>
    (\<exists>n. fsys_ok (\<lambda>m. e m + at n m) s')"
proof (cases "s' = s")
  case False
  let ?rd = "and flags O_ACCMODE = O_RDONLY \<or> and flags O_ACCMODE = O_RDWR"
  let ?wr = "and flags O_ACCMODE = O_WRONLY \<or> and flags O_ACCMODE = O_RDWR"
  from assms(2) False obtain ret1 p u where a: "fd_array_alloc NO_FD s = Some (ret1, p, u)"
    and r1: "(if ret1 \<noteq> 0 then Some (ret1, u)
             else do {
               (ret, n, s) \<leftarrow> vfs_open T F path flags u;
               if ret \<noteq> 0 then do { s \<leftarrow> fd_array_free T p s; Some (ret, s) }
               else if and flags O_APPEND \<noteq> 0 then
                 do { (ret, st, s) \<leftarrow> vop_fstat T n s;
                      if ret \<noteq> 0 then
                        do { (_, s) \<leftarrow> vfs_close T n s; s \<leftarrow> fd_array_free T p s; Some (ret, s) }
                      else file_opened p n (s64 (int (st_size st))) ?rd ?wr s }
               else file_opened p n 0 ?rd ?wr s }) = Some (ret, s')"
    by (auto simp: file_open_def bind_Some_iff Let_def split: if_splits)
  note al = fd_array_alloc_fresh [OF assms(1) a]
  with r1 False have "ret1 = 0" by (auto split: if_splits)
  with al r1 obtain ret2 n v where u: "fresh p e none u" and o: "vfs_open T F path flags u = Some (ret2, n, v)"
    and r2: "(if ret2 \<noteq> 0 then do { s \<leftarrow> fd_array_free T p v; Some (ret2, s) }
               else if and flags O_APPEND \<noteq> 0 then
                 do { (ret, st, s) \<leftarrow> vop_fstat T n v;
                      if ret \<noteq> 0 then
                        do { (_, s) \<leftarrow> vfs_close T n s; s \<leftarrow> fd_array_free T p s; Some (ret, s) }
                      else file_opened p n (s64 (int (st_size st))) ?rd ?wr s }
               else file_opened p n 0 ?rd ?wr v) = Some (ret, s')"
    by (auto simp: bind_Some_iff)
  have e: "0 \<le> e m" for m using u by (simp add: fresh_def)
  have "counted u" using balance_counted [of e none u] u by (simp add: fresh_def)
  note vo = vfs_open_outcome [OF o this]
  have frv: "fresh p (\<lambda>m. e m + a m) c v" if "goes a c u v" "\<And>m. 0 \<le> a m" for a c
    using fresh_moves [OF u that(1) [unfolded goes_def]] that(2) e
    by (simp add: fresh_def balance_def)
  show ?thesis
  proof (cases "ret2 = 0")
    case False
    with r2 have free: "fd_array_free T p v = Some s'" and ret: "ret = ret2" by (auto simp: bind_Some_iff)
    from vo False consider "goes none none u v"
      | n' where "ret2 = - E_EXISTS" "and flags O_EXCL \<noteq> 0" "and flags O_CREAT \<noteq> 0" "goes (at n') none u v"
      by auto
    then show ?thesis
    proof cases
      case 1
      from frv [OF this] have "fresh p e none v" by simp
      from fd_array_free_fresh [OF this free] show ?thesis by simp
    next
      case 2
      from fd_array_free_fresh [OF frv [OF 2(4)] free] 2 ret show ?thesis by auto
    qed
  next
    case True
    with vo have g: "fresh p (\<lambda>m. e m + at n m) (at n) v" by (auto intro: frv)
    show ?thesis
    proof (cases "and flags O_APPEND \<noteq> 0")
      case False
      with r2 True have "file_opened p n 0 ?rd ?wr v = Some (ret, s')" by simp
      from file_opened_ok [OF g e this] show ?thesis by simp
    next
      case ap: True
      with r2 True obtain ret3 st w where fs: "vop_fstat T n v = Some (ret3, st, w)"
        and r3: "(if ret3 \<noteq> 0 then do { (_, s) \<leftarrow> vfs_close T n w; s \<leftarrow> fd_array_free T p s; Some (ret3, s) }
            else file_opened p n (s64 (int (st_size st))) ?rd ?wr w) = Some (ret, s')"
        by (auto simp: bind_Some_iff)
      from fresh_moves [OF g vop_fstat_keeps [OF fs]] e
      have w: "fresh p (\<lambda>m. e m + at n m) (at n) w" by (simp add: fresh_def)
      show ?thesis
      proof (cases "ret3 = 0")
        case True
        with r3 have "file_opened p n (s64 (int (st_size st))) ?rd ?wr w = Some (ret, s')" by simp
        from file_opened_ok [OF w e this] show ?thesis by simp
      next
        case False
        with r3 obtain c x where c: "vfs_close T n w = Some (c, x)" and f: "fd_array_free T p x = Some s'"
          by (auto simp: bind_Some_iff)
        from fd_array_free_fresh [OF fd_array_free_closed [OF w e c] f] show ?thesis by simp
      qed
    qed
  qed
qed (use assms(1) in simp)

end


section \<open>Whole tables\<close>

lemma fsys_ok_sound: "fsys_ok e s \<longleftrightarrow> tallied e s \<and> (\<forall>n. 0 \<le> e n)"
  by (simp add: fsys_ok_def tallied_def)

lemma sound_moves:
  assumes "tallied e s" "moves X a none s s'" "\<And>n. e' n = e n + a n"
  shows "tallied e' s'"
  using assms balance_moves [of e none s X a none s' e' none] slots_ok_above [of "{}" s s']
  by (simp add: tallied_def moves_def)

lemma balance_cong:
  "balance e b s \<Longrightarrow> (\<And>n. n \<noteq> 0 \<Longrightarrow> e' n = e n) \<Longrightarrow> balance e' b s"
  by (simp add: balance_def)

lemma sound_upto: "tallied e s \<Longrightarrow> (\<And>n. n \<noteq> 0 \<Longrightarrow> e' n = e n) \<Longrightarrow> tallied e' s"
  unfolding tallied_def by (blast intro: balance_cong)

text \<open>Changing the directory, the count or the boot file system changes no entry.\<close>

lemma sound_table:
  assumes "tallied e s" "ftabs s t = Some fs" "fd_array fs' = fd_array fs"
    "\<And>n. n \<noteq> 0 \<Longrightarrow> e' n = e n + at (pwd fs) n - at (pwd fs') n"
  shows "tallied e' (s\<lparr>ftabs := (ftabs s)(t \<mapsto> fs')\<rparr>)"
proof -
  let ?s = "s\<lparr>ftabs := (ftabs s)(t \<mapsto> fs')\<rparr>"
  from assms(1) have ok: "slots_ok {} s" "balance e none s" by (simp_all add: tallied_def)
  from ok(2) have fin: "finite (dom (ftabs s))" by (simp add: balance_def)
  have "file_at q ?s = file_at q s" for q
    using assms(2,3) by (auto simp: file_at_def)
  with ok(1) assms(2,3) have "slots_ok {} ?s" by (auto simp: slots_ok_def)
  moreover have "table_opens fs' n = table_opens fs n" for n by (simp add: table_opens_def assms(3))
  then have "opens ?s n = opens s n" for n
    using sum_dom_upd [OF fin assms(2), of "\<lambda>fs. table_opens fs n" fs'] by (simp add: opens_def)
  moreover have "dirs ?s n = dirs s n - at (pwd fs) n + at (pwd fs') n" for n
    using sum_dom_upd [OF fin assms(2), of "\<lambda>fs. at (pwd fs) n" fs'] by (simp add: dirs_def)
  moreover have "rc ?s = rc s" "oc ?s = oc s" by (simp_all add: rc_def oc_def fun_eq_iff)
  ultimately show ?thesis using ok(2) assms(4) by (simp add: tallied_def balance_def)
qed

lemma sound_bootfs:
  assumes "tallied e s" "\<And>n. n \<noteq> 0 \<Longrightarrow> e' n = e n + at (bootfs_node s) n - at x n"
  shows "tallied e' (s\<lparr>bootfs_node := x\<rparr>)"
proof -
  let ?s = "s\<lparr>bootfs_node := x\<rparr>"
  have "rc ?s = rc s" "oc ?s = oc s" by (simp_all add: rc_def oc_def fun_eq_iff)
  moreover have "opens ?s = opens s" "dirs ?s = dirs s" by (simp_all add: opens_def dirs_def fun_eq_iff)
  moreover have "file_at q ?s = file_at q s" for q by (simp add: file_at_def)
  ultimately show ?thesis using assms by (simp add: tallied_def balance_def slots_ok_def)
qed

lemma sound_filesp: "tallied e s \<Longrightarrow> tallied e (s\<lparr>filesp := t\<rparr>)"
proof -
  let ?s = "s\<lparr>filesp := t\<rparr>"
  have "rc ?s = rc s" "oc ?s = oc s" by (simp_all add: rc_def oc_def fun_eq_iff)
  moreover have "opens ?s = opens s" "dirs ?s = dirs s" by (simp_all add: opens_def dirs_def fun_eq_iff)
  moreover have "file_at q ?s = file_at q s" for q by (simp add: file_at_def)
  ultimately show "tallied e s \<Longrightarrow> tallied e ?s" by (simp add: tallied_def balance_def slots_ok_def)
qed

lemma sum_dom_new:
  fixes g :: "'a \<Rightarrow> int"
  assumes "finite (dom m)" "m t = None"
  shows "(\<Sum>u\<in>dom (m(t \<mapsto> x)). g (the ((m(t \<mapsto> x)) u))) = (\<Sum>u\<in>dom m. g (the (m u))) + g x"
proof -
  have "t \<notin> dom m" using assms(2) by auto
  then have "(\<Sum>u\<in>insert t (dom m). g (the ((m(t \<mapsto> x)) u))) = g x + (\<Sum>u\<in>dom m. g (the ((m(t \<mapsto> x)) u)))"
    using assms(1) by simp
  also have "(\<Sum>u\<in>dom m. g (the ((m(t \<mapsto> x)) u))) = (\<Sum>u\<in>dom m. g (the (m u)))"
    using \<open>t \<notin> dom m\<close> by (intro sum.cong) auto
  finally show ?thesis by simp
qed

lemma sum_dom_del:
  fixes g :: "'a \<Rightarrow> int"
  assumes "finite (dom m)" "m t = Some x"
  shows "(\<Sum>u\<in>dom (m(t := None)). g (the ((m(t := None)) u))) = (\<Sum>u\<in>dom m. g (the (m u))) - g x"
proof -
  have "(\<Sum>u\<in>dom m. g (the (m u))) = g x + (\<Sum>u\<in>dom m - {t}. g (the (m u)))"
    using sum.remove [OF assms(1), of t "\<lambda>u. g (the (m u))"] assms(2) by (simp add: domI)
  moreover have "(\<Sum>u\<in>dom m - {t}. g (the ((m(t := None)) u))) = (\<Sum>u\<in>dom m - {t}. g (the (m u)))"
    by (rule sum.cong) auto
  ultimately show ?thesis by simp
qed

lemma fd_array_init_facts:
  "length (fd_array_init arr) = FILES_STRUCT_NENTRY"
  "i < FILES_STRUCT_NENTRY \<Longrightarrow> fd_array_init arr ! i = (arr ! i)\<lparr>fopen_count := 0, status := FD_NONE, fd := int i\<rparr>"
  by (simp_all add: fd_array_init_def)

lemma table_opens_unused:
  assumes "\<And>i. i < length (fd_array fs) \<Longrightarrow> status (fd_array fs ! i) \<noteq> FD_OPENED"
  shows "table_opens fs n = 0"
proof -
  have "map (\<lambda>f. held f n) (fd_array fs) = map (\<lambda>_. 0) (fd_array fs)"
    using assms by (intro map_cong) (auto simp: held_def in_set_conv_nth)
  then show ?thesis by (simp only: table_opens_def) simp
qed

lemma files_create_sound:
  assumes "tallied e s" "files_create t arr s = (t, s')" "t \<noteq> 0" "ftabs s t = None"
  shows "tallied e s' \<and> (\<forall>i f. file_at (t, i) s' = Some f \<longrightarrow> status f = FD_NONE) \<and>
    (\<forall>q. fst q \<noteq> t \<longrightarrow> file_at q s' = file_at q s)"
proof -
  let ?fs = "\<lparr>pwd = 0, fd_array = fd_array_init arr, files_count = 0\<rparr>"
  from assms(2,3) have s': "s' = s\<lparr>ftabs := (ftabs s)(t \<mapsto> ?fs)\<rparr>" by (simp add: files_create_def)
  from assms(1) have ok: "slots_ok {} s" "balance e none s" by (simp_all add: tallied_def)
  from ok(2) have fin: "finite (dom (ftabs s))" by (simp add: balance_def)
  have new: "file_at (t, i) s' = (if i < FILES_STRUCT_NENTRY then Some (fd_array_init arr ! i) else None)" for i
    by (simp add: s' file_at_def fd_array_init_facts)
  have old: "fst q \<noteq> t \<Longrightarrow> file_at q s' = file_at q s" for q by (simp add: s' file_at_def)
  have "slot_ok (snd q) f" if "file_at q s' = Some f" for q f
  proof (cases "fst q = t")
    case True
    with that new [of "snd q"] show ?thesis
      by (cases q) (auto simp: fd_array_init_facts slot_ok_def split: if_splits)
  next
    case False
    with that have "file_at q s = Some f" by (simp add: old)
    with ok(1) show ?thesis unfolding slots_ok_def by blast
  qed
  with ok(1) have "slots_ok {} s'"
    by (auto simp: slots_ok_def s' fd_array_init_facts split: if_splits)
  moreover have "table_opens ?fs n = 0" for n
    by (rule table_opens_unused) (simp add: fd_array_init_facts)
  then have "opens s' n = opens s n" for n
    using sum_dom_new [OF fin assms(4), of "\<lambda>fs. table_opens fs n" ?fs] by (simp add: opens_def s')
  moreover have "n \<noteq> 0 \<Longrightarrow> dirs s' n = dirs s n" for n
    using sum_dom_new [OF fin assms(4), of "\<lambda>fs. at (pwd fs) n" ?fs] by (simp add: dirs_def s' at_def)
  moreover have "rc s' = rc s" "oc s' = oc s" by (simp_all add: rc_def oc_def fun_eq_iff s')
  moreover have "status (fd_array_init arr ! i) = FD_NONE" if "i < FILES_STRUCT_NENTRY" for i
    by (simp add: fd_array_init_facts that)
  ultimately show ?thesis
    using ok(2) old new by (simp add: tallied_def balance_def s' split: if_splits)
qed


lemma destroy_sound:
  assumes "tallied e s" "ftabs s t = Some fs"
    "\<And>i f. file_at (t, i) s = Some f \<Longrightarrow> status f = FD_NONE"
    "\<And>n. n \<noteq> 0 \<Longrightarrow> e' n = e n + at (pwd fs) n"
  shows "tallied e' (s\<lparr>ftabs := (ftabs s)(t := None)\<rparr>)"
proof -
  let ?s = "s\<lparr>ftabs := (ftabs s)(t := None)\<rparr>"
  from assms(1) have ok: "slots_ok {} s" "balance e none s" by (simp_all add: tallied_def)
  from ok(2) have fin: "finite (dom (ftabs s))" by (simp add: balance_def)
  have st: "status (fd_array fs ! i) = FD_NONE" if "i < length (fd_array fs)" for i
    using assms(2) that by (intro assms(3) [of i]) (simp add: file_at_def)
  have sub: "file_at q s = Some f" if "file_at q ?s = Some f" for q f
    using that by (auto simp: file_at_def split: if_splits)
  have "slots_ok {} ?s"
    unfolding slots_ok_def
  proof (intro conjI allI impI)
    fix u fs' assume "ftabs ?s u = Some fs'"
    then show "length (fd_array fs') = FILES_STRUCT_NENTRY"
      using ok(1) by (auto simp: slots_ok_def split: if_splits)
  next
    fix q f assume "file_at q ?s = Some f"
    from sub [OF this] ok(1) show "slot_ok (snd q) f" unfolding slots_ok_def by blast
  qed
  moreover have "table_opens fs n = 0" for n by (rule table_opens_unused) (simp add: st)
  then have "opens ?s n = opens s n" for n
    using sum_dom_del [OF fin assms(2), of "\<lambda>fs. table_opens fs n"] by (simp add: opens_def)
  moreover have "dirs ?s n = dirs s n - at (pwd fs) n" for n
    using sum_dom_del [OF fin assms(2), of "\<lambda>fs. at (pwd fs) n"] by (simp add: dirs_def)
  moreover have "rc ?s = rc s" "oc ?s = oc s" by (simp_all add: rc_def oc_def fun_eq_iff)
  ultimately show ?thesis using ok(2) assms(4) by (simp add: tallied_def balance_def)
qed

context inode_layer
begin

lemma closeall_loop_sound:
  assumes "tallied e s" "closeall_loop T t js s = Some s'"
  shows "tallied e s' \<and> filesp s' = filesp s \<and> table_info s' = table_info s \<and>
    (\<forall>q. q \<notin> {t} \<times> set js \<longrightarrow> file_at q s' = file_at q s)"
  using assms
proof (induction js arbitrary: s)
  case Nil
  then show ?case by simp
next
  case (Cons i js)
  then obtain f u where f: "file_at (t, i) s = Some f"
    and u: "(if status f = FD_OPENED then fd_array_close T (t, i) s else Some s) = Some u"
    and r: "closeall_loop T t js u = Some s'"
    by (auto simp: bind_Some_iff)
  have 1: "tallied e u \<and> only_slot (t, i) s u"
  proof (cases "status f = FD_OPENED")
    case True
    with u fd_array_close_sound [OF Cons.prems(1)] show ?thesis by auto
  next
    case False
    with u Cons.prems(1) show ?thesis by (simp add: only_slot_def)
  qed
  from Cons.IH [OF conjunct1 [OF 1] r] 1 show ?case
    by (auto simp: only_slot_def)
qed

lemma destroy_loop_sound:
  assumes "tallied e s" "destroy_loop T t js s = Some s'"
  shows "tallied e s' \<and> filesp s' = filesp s \<and> table_info s' = table_info s \<and>
    (\<forall>i \<in> set js. \<exists>f. file_at (t, i) s' = Some f \<and> status f = FD_NONE) \<and>
    (\<forall>q. q \<notin> {t} \<times> set js \<longrightarrow> file_at q s' = file_at q s)"
  using assms
proof (induction js arbitrary: s)
  case Nil
  then show ?case by simp
next
  case (Cons i js)
  then obtain f u g where f: "file_at (t, i) s = Some f"
    and u: "(if status f = FD_OPENED then fd_array_close T (t, i) s else Some s) = Some u"
    and g: "file_at (t, i) u = Some g" "status g = FD_NONE"
    and r: "destroy_loop T t js u = Some s'"
    by (auto simp: bind_Some_iff split: if_splits)
  have 1: "tallied e u \<and> only_slot (t, i) s u"
  proof (cases "status f = FD_OPENED")
    case True
    with u fd_array_close_sound [OF Cons.prems(1)] show ?thesis by auto
  next
    case False
    with u Cons.prems(1) show ?thesis by (simp add: only_slot_def)
  qed
  note IH = Cons.IH [OF conjunct1 [OF 1] r]
  have "\<exists>h. file_at (t, i) s' = Some h \<and> status h = FD_NONE"
    using IH g by (cases "i \<in> set js") auto
  with IH 1 show ?case by (auto simp: only_slot_def)
qed

lemma files_closeall_ok:
  "fsys_ok e s \<Longrightarrow> files_closeall T t s = Some s' \<Longrightarrow> fsys_ok e s'"
  by (auto simp: files_closeall_def bind_Some_iff fsys_ok_sound split: if_splits dest: closeall_loop_sound)

lemma files_destroy_ok:
  assumes "fsys_ok e s" "files_destroy T t s = Some s'"
  shows "fsys_ok e s' \<and> ftabs s' t = None"
proof -
  from assms(2) obtain fs u v where fs: "ftabs s t = Some fs"
    and u: "(if pwd fs \<noteq> 0 then do { (_, s) \<leftarrow> inode_ref_dec T (pwd fs) s; Some s } else Some s) = Some u"
    and v: "destroy_loop T t [0..<FILES_STRUCT_NENTRY] u = Some v"
    and s': "s' = v\<lparr>ftabs := (ftabs v)(t := None)\<rparr>"
    by (auto simp: files_destroy_def bind_Some_iff split: if_splits)
  have ok: "tallied e s" using assms(1) by (simp add: fsys_ok_sound)
  have "tallied (\<lambda>n. e n - at (pwd fs) n) u \<and> ftabs u = ftabs s"
  proof (cases "pwd fs = 0")
    case True
    with u ok show ?thesis by (auto intro: sound_upto simp: at_def)
  next
    case False
    with u obtain c where "inode_ref_dec T (pwd fs) s = Some (c, u)" by (auto simp: bind_Some_iff)
    note m = ref_dec_moves(2) [OF this]
    have "ftabs u = ftabs s" using m by (simp add: moves_def same_above_iff)
    with sound_moves [OF ok m] show ?thesis by simp
  qed
  then have su: "tallied (\<lambda>n. e n - at (pwd fs) n) u" and fu: "ftabs u t = Some fs" using fs by simp_all
  note d = destroy_loop_sound [OF su v]
  from d fu have "table_info v t = Some (pwd fs, files_count fs)" by (simp add: table_info_def)
  then obtain fv where fv: "ftabs v t = Some fv" "pwd fv = pwd fs" by (auto simp: table_info_def)
  have sv: "tallied (\<lambda>n. e n - at (pwd fs) n) v" using d by simp
  have "length (fd_array fv) = FILES_STRUCT_NENTRY" using sv fv by (auto simp: tallied_def slots_ok_def)
  then have none: "status f = FD_NONE" if "file_at (t, i) v = Some f" for i f
    using that d fv by (force simp: file_at_def split: if_splits)
  have "tallied e s'"
    unfolding s' by (rule destroy_sound [OF sv fv(1) none]) (simp_all add: fv)
  then show ?thesis using assms(1) by (simp add: fsys_ok_sound s')
qed

end

lemma dup_loop_ok:
  assumes "fsys_ok e s" "dup_loop to from js s = Some s'" "distinct js" "to \<noteq> from"
    "\<And>j f. j \<in> set js \<Longrightarrow> file_at (to, j) s = Some f \<Longrightarrow> status f = FD_NONE"
  shows "fsys_ok e s' \<and> filesp s' = filesp s \<and> table_info s' = table_info s \<and>
    (\<forall>q. fst q \<noteq> to \<longrightarrow> file_at q s' = file_at q s)"
  using assms(1,2,3,5)
proof (induction js arbitrary: s)
  case Nil
  then show ?case by simp
next
  case (Cons i js)
  then obtain f u where f: "file_at (from, i) s = Some f"
    and u: "(if status f = FD_OPENED then
                  do { g \<leftarrow> file_at (to, i) s;
                       fd_array_dup (to, i) (from, i) (set_file (to, i) (g\<lparr>status := FD_INIT\<rparr>) s) }
                else Some s) = Some u"
    and r: "dup_loop to from js u = Some s'"
    by (auto simp: bind_Some_iff)
  have 1: "fsys_ok e u \<and> only_slot (to, i) s u"
  proof (cases "status f = FD_OPENED")
    case True
    with u obtain g where g: "file_at (to, i) s = Some g"
      and d: "fd_array_dup (to, i) (from, i) (set_file (to, i) (g\<lparr>status := FD_INIT\<rparr>) s) = Some u"
      by (auto simp: bind_Some_iff)
    have gn: "status g = FD_NONE" using Cons.prems(4) [of i] g by simp
    have ok: "slots_ok {} s" "balance e none s" "\<forall>n. 0 \<le> e n"
      using Cons.prems(1) by (simp_all add: fsys_ok_def)
    note sl = slot_unused [OF ok(1) g _ gn, simplified]
    let ?t = "set_file (to, i) (g\<lparr>status := FD_INIT\<rparr>) s"
    have "slots_ok {(to, i)} ?t" by (rule slots_ok_set_file [OF ok(1) g]) simp_all
    moreover have "balance e none ?t"
      by (rule balance_set_file [OF ok(2) g]) (simp_all add: held_def gn)
    ultimately have "fresh (to, i) e none ?t"
      using ok(3) sl by (simp add: fresh_def file_at_set_file [OF g])
    from fd_array_dup_ok [OF this d] only_slot_set_file [OF g]
    show ?thesis by (blast intro: only_slot_trans)
  next
    case False
    with u Cons.prems(1) show ?thesis by (simp add: only_slot_def)
  qed
  have "fsys_ok e s' \<and> filesp s' = filesp u \<and> table_info s' = table_info u \<and>
    (\<forall>q. fst q \<noteq> to \<longrightarrow> file_at q s' = file_at q u)"
  proof (rule Cons.IH [OF conjunct1 [OF 1] r])
    show "distinct js" using Cons.prems(3) by simp
    fix j f assume j: "j \<in> set js" "file_at (to, j) u = Some f"
    then have "(to, j) \<noteq> (to, i)" using Cons.prems(3) by auto
    then have "file_at (to, j) u = file_at (to, j) s" using 1 unfolding only_slot_def by blast
    with j(2) have "file_at (to, j) s = Some f" by simp
    then show "status f = FD_NONE" using Cons.prems(4) [of j] j(1) by simp
  qed
  with 1 show ?case by (auto simp: only_slot_def)
qed


lemma dup_files_ok:
  assumes "fsys_ok e s" "dup_files to from s = Some (ret, s')" "to \<noteq> from"
    "\<And>j f. file_at (to, j) s = Some f \<Longrightarrow> status f = FD_NONE" "ftabs s to = Some ts" "pwd ts = 0"
  shows "fsys_ok e s' \<and> ret = 0"
proof -
  from assms(2,5) obtain fs u where fs: "ftabs s from = Some fs"
    and u: "(if pwd fs \<noteq> 0 then do { (_, s) \<leftarrow> inode_ref_inc (pwd fs)
        (s\<lparr>ftabs := (ftabs s)(to \<mapsto> ts\<lparr>pwd := pwd fs\<rparr>)\<rparr>); Some s }
      else Some (s\<lparr>ftabs := (ftabs s)(to \<mapsto> ts\<lparr>pwd := pwd fs\<rparr>)\<rparr>)) = Some u"
    and r: "dup_loop to from [0..<FILES_STRUCT_NENTRY] u = Some s'" and ret: "ret = 0"
    by (auto simp: dup_files_def bind_Some_iff Let_def split: if_splits)
  let ?n = "pwd fs" and ?t = "s\<lparr>ftabs := (ftabs s)(to \<mapsto> ts\<lparr>pwd := pwd fs\<rparr>)\<rparr>"
  have ok: "tallied e s" "\<forall>n. 0 \<le> e n" using assms(1) by (simp_all add: fsys_ok_sound)
  have t: "tallied (\<lambda>n. e n - at ?n n) ?t"
    by (rule sound_table [OF ok(1) assms(5)]) (simp_all add: assms(6) at_def)
  have ft: "file_at q ?t = file_at q s" for q using assms(5) by (simp add: file_at_def)
  have "tallied e u \<and> same_above ?t u"
  proof (cases "?n = 0")
    case True
    have "tallied e ?t" by (rule sound_upto [OF t]) (simp add: at_def True)
    with u True show ?thesis by simp
  next
    case False
    with u obtain c where "inode_ref_inc ?n ?t = Some (c, u)" by (auto simp: bind_Some_iff)
    then have "moves {} (at ?n) none ?t u" using ref_inc_found by (auto simp: found_def)
    with sound_moves [OF t this] show ?thesis by (simp add: moves_def)
  qed
  then have 1: "fsys_ok e u" and fu: "file_at q u = file_at q s" for q
    using ok(2) file_at_above [of ?t u q] by (simp_all add: fsys_ok_sound ft)
  have "fsys_ok e s' \<and> filesp s' = filesp u \<and> table_info s' = table_info u \<and>
    (\<forall>q. fst q \<noteq> to \<longrightarrow> file_at q s' = file_at q u)"
    by (rule dup_loop_ok [OF 1 r _ assms(3)]) (use assms(4) in \<open>simp_all add: fu\<close>)
  with ret show ?thesis by simp
qed

section \<open>Current directory and boot file system\<close>

context inode_layer
begin

lemma switch_curdir_sound:
  assumes "tallied (\<lambda>n. e n + at dir n) s" "switch_curdir T old dir s = Some (ret, s')"
    "get_cwd_nolock s = Some old"
  shows "tallied e s'"
proof -
  from assms(2,3) obtain fs where fs: "ftabs s (filesp s) = Some fs" "pwd fs = old"
    and r: "(if old \<noteq> 0 then do { (_, s) \<leftarrow> inode_ref_dec T old
        (s\<lparr>ftabs := (ftabs s)(filesp s \<mapsto> fs\<lparr>pwd := dir\<rparr>)\<rparr>); Some (0, s) }
      else Some (0, s\<lparr>ftabs := (ftabs s)(filesp s \<mapsto> fs\<lparr>pwd := dir\<rparr>)\<rparr>)) = Some (ret, s')"
    by (auto simp: switch_curdir_def set_cwd_nolock_def get_cwd_nolock_def bind_Some_iff split: if_splits)
  let ?t = "s\<lparr>ftabs := (ftabs s)(filesp s \<mapsto> fs\<lparr>pwd := dir\<rparr>)\<rparr>"
  have t: "tallied (\<lambda>n. e n + at old n) ?t"
    by (rule sound_table [OF assms(1) fs(1)]) (simp_all add: fs(2))
  show ?thesis
  proof (cases "old = 0")
    case True
    with r t show ?thesis by (auto intro: sound_upto [OF t] simp: at_def)
  next
    case False
    with r obtain c where "inode_ref_dec T old ?t = Some (c, s')" by (auto simp: bind_Some_iff)
    from sound_moves [OF t ref_dec_moves(2) [OF this]] show ?thesis by simp
  qed
qed

lemma vfs_set_curdir_sound:
  assumes "tallied e s" "vfs_set_curdir T dir s = Some (ret, s')"
  shows "tallied e s'"
proof (cases "s' = s")
  case False
  with assms(2) obtain old where old: "get_cwd_nolock s = Some old"
    and r: "(if dir \<noteq> 0 then
               do { (ret, ty, s) \<leftarrow> vop_gettype T dir s;
                    if ret \<noteq> 0 then Some (ret, s)
                    else if and ty S_IFMT \<noteq> S_IFDIR then Some (- E_NOTDIR, s)
                    else do { (_, s) \<leftarrow> inode_ref_inc dir s; switch_curdir T old dir s } }
             else switch_curdir T old dir s) = Some (ret, s')"
    by (auto simp: vfs_set_curdir_def bind_Some_iff split: if_splits)
  show ?thesis
  proof (cases "dir = 0")
    case True
    with r have "switch_curdir T old dir s = Some (ret, s')" by simp
    with old show ?thesis
      by (intro switch_curdir_sound [of e dir s]) (auto intro: sound_upto [OF assms(1)] simp: at_def True)
  next
    case False
    with r obtain ret1 ty u where g: "vop_gettype T dir s = Some (ret1, ty, u)"
      and r1: "(if ret1 \<noteq> 0 then Some (ret1, u)
                else if and ty S_IFMT \<noteq> S_IFDIR then Some (- E_NOTDIR, u)
                else do { (_, s) \<leftarrow> inode_ref_inc dir u; switch_curdir T old dir s }) = Some (ret, s')"
      by (auto simp: bind_Some_iff)
    note k = vop_gettype_keeps [OF g]
    have u: "tallied e u" by (rule sound_moves [OF assms(1) k]) simp
    show ?thesis
    proof (cases "s' = u")
      case False
      with r1 obtain c v where i: "inode_ref_inc dir u = Some (c, v)"
        and sw: "switch_curdir T old dir v = Some (ret, s')"
        by (auto simp: bind_Some_iff split: if_splits)
      have m: "moves {} (at dir) none u v" using ref_inc_found [OF i] by (simp add: found_def)
      have v: "tallied (\<lambda>n. e n + at dir n) v" by (rule sound_moves [OF u m]) simp
      have "get_cwd_nolock v = Some old"
        using old k m by (simp add: get_cwd_nolock_def moves_def same_above_iff)
      with v sw show ?thesis by (rule_tac switch_curdir_sound)
    qed (use u in simp)
  qed
qed (use assms(1) in simp)

end

context fs_layer
begin

lemma vfs_chdir_ok:
  assumes "fsys_ok e s" "vfs_chdir T F path s = Some (ret, s')"
  shows "fsys_ok e s'"
proof -
  from assms(2) obtain ret1 path' n u where l: "vfs_lookup T F path s = Some (ret1, path', n, u)"
    and r: "(if ret1 = 0 then
            do { (ret, s) \<leftarrow> vfs_set_curdir T n u; (_, s) \<leftarrow> inode_ref_dec T n s; Some (ret, s) }
          else Some (ret1, u)) = Some (ret, s')"
    by (auto simp: vfs_chdir_def bind_Some_iff)
  have ok: "tallied e s" "\<forall>n. 0 \<le> e n" using assms(1) by (simp_all add: fsys_ok_sound)
  note h = vfs_lookup_hands [OF l fsys_ok_counted [OF assms(1)]]
  show ?thesis
  proof (cases "ret1 = 0")
    case False
    with r h have "goes none none s s'" by (simp add: hands_out_def)
    from sound_moves [OF ok(1) this [unfolded goes_def]] ok(2) show ?thesis by (simp add: fsys_ok_sound)
  next
    case True
    with h have "goes (at n) none s u" by (simp add: hands_out_def)
    from sound_moves [OF ok(1) this [unfolded goes_def]] have u: "tallied (\<lambda>m. e m + at n m) u" by simp
    from r True obtain ret2 v c where c: "vfs_set_curdir T n u = Some (ret2, v)"
      and d: "inode_ref_dec T n v = Some (c, s')"
      by (auto simp: bind_Some_iff)
    have v: "tallied (\<lambda>m. e m + at n m) v" by (rule vfs_set_curdir_sound [OF u c])
    from sound_moves [OF v ref_dec_moves(2) [OF d]] ok(2) show ?thesis by (simp add: fsys_ok_sound)
  qed
qed

lemma change_bootfs_sound:
  assumes "tallied (\<lambda>m. e m + at n m) s" "change_bootfs T n s = Some s'"
  shows "tallied e s'"
proof -
  let ?old = "bootfs_node s" and ?t = "s\<lparr>bootfs_node := n\<rparr>"
  have t: "tallied (\<lambda>m. e m + at ?old m) ?t" by (rule sound_bootfs [OF assms(1)]) simp
  show ?thesis
  proof (cases "?old = 0")
    case True
    with assms(2) show ?thesis
      by (auto simp: change_bootfs_def at_def intro: sound_upto [OF t])
  next
    case False
    with assms(2) obtain c where "inode_ref_dec T ?old ?t = Some (c, s')"
      by (auto simp: change_bootfs_def bind_Some_iff Let_def)
    from sound_moves [OF t ref_dec_moves(2) [OF this]] show ?thesis by simp
  qed
qed

lemma vfs_set_bootfs_ok:
  assumes "fsys_ok e s" "vfs_set_bootfs T F fsname s = Some (ret, s')"
  shows "fsys_ok e s'"
proof (cases fsname)
  case None
  have "tallied (\<lambda>m. e m + at 0 m) s"
    using assms(1) by (auto simp: fsys_ok_sound at_def intro: sound_upto)
  moreover have "change_bootfs T 0 s = Some s'"
    using assms(2) None by (auto simp: vfs_set_bootfs_def bind_Some_iff)
  ultimately show ?thesis using assms(1) change_bootfs_sound by (auto simp: fsys_ok_sound)
next
  case (Some name)
  show ?thesis
  proof (cases "s' = s")
    case False
    with assms(2) Some obtain ret1 u where c: "vfs_chdir T F name s = Some (ret1, u)"
      and r: "(if ret1 \<noteq> 0 then Some (ret1, u)
            else do {
              (ret, n, s) \<leftarrow> vfs_get_curdir u;
              if ret \<noteq> 0 then Some (ret, s)
              else do { s \<leftarrow> change_bootfs T n s; Some (0, s) } }) = Some (ret, s')"
      by (auto simp: vfs_set_bootfs_def bind_Some_iff split: if_splits)
    have u: "fsys_ok e u" by (rule vfs_chdir_ok [OF assms(1) c])
    show ?thesis
    proof (cases "ret1 = 0")
      case True
      with r obtain ret2 n v where g: "vfs_get_curdir u = Some (ret2, n, v)"
        and r2: "(if ret2 \<noteq> 0 then Some (ret2, v)
           else do { s \<leftarrow> change_bootfs T n v; Some (0, s) }) = Some (ret, s')"
        by (auto simp: bind_Some_iff)
      have ok: "tallied e u" "\<forall>n. 0 \<le> e n" using u by (simp_all add: fsys_ok_sound)
      note h = vfs_get_curdir_hands [OF g]
      show ?thesis
      proof (cases "ret2 = 0")
        case True
        with h have "goes (at n) none u v" by (simp add: hands_out_def)
        from sound_moves [OF ok(1) this [unfolded goes_def]] have "tallied (\<lambda>m. e m + at n m) v" by simp
        moreover have "change_bootfs T n v = Some s'" using r2 True by (auto simp: bind_Some_iff)
        ultimately show ?thesis using change_bootfs_sound ok(2) by (auto simp: fsys_ok_sound)
      next
        case False
        with h r2 have "goes none none u s'" by (simp add: hands_out_def)
        from sound_moves [OF ok(1) this [unfolded goes_def]] ok(2) show ?thesis by (simp add: fsys_ok_sound)
      qed
    next
      case False
      with r u show ?thesis by simp
    qed
  qed (use assms(1) in simp)
qed

end


section \<open>Processes come and go\<close>

text \<open>The parts of \<^verbatim>\<open>copy_files\<close> and \<^verbatim>\<open>put_files\<close> of kern/process/proc.c on the tables.\<close>

definition files_count_inc :: "nat \<Rightarrow> 'f fsys \<Rightarrow> 'f fsys option" where
  "files_count_inc t s =
     do { fs \<leftarrow> ftabs s t; Some (s\<lparr>ftabs := (ftabs s)(t \<mapsto> fs\<lparr>files_count := files_count fs + 1\<rparr>)\<rparr>) }"

definition files_count_dec :: "nat \<Rightarrow> 'f fsys \<Rightarrow> (int \<times> 'f fsys) option" where
  "files_count_dec t s =
     do { fs \<leftarrow> ftabs s t;
          Some (files_count fs - 1, s\<lparr>ftabs := (ftabs s)(t \<mapsto> fs\<lparr>files_count := files_count fs - 1\<rparr>)\<rparr>) }"

definition files_fork :: "nat \<Rightarrow> fd_file list \<Rightarrow> 'f call" where
  "files_fork t arr s =
     (let (t, s) = files_create t arr s
      in if t = 0 then Some (- E_NO_MEM, s)
         else do { (ret, s) \<leftarrow> dup_files t (filesp s) s; s \<leftarrow> files_count_inc t s; Some (ret, s) })"

definition files_put :: "'f optab \<Rightarrow> nat \<Rightarrow> 'f fsys \<Rightarrow> 'f fsys option" where
  "files_put T t s =
     do { (c, s) \<leftarrow> files_count_dec t s; if c = 0 then files_destroy T t s else Some s }"

lemma sound_count:
  "tallied e s \<Longrightarrow> ftabs s t = Some fs \<Longrightarrow> tallied e (s\<lparr>ftabs := (ftabs s)(t \<mapsto> fs\<lparr>files_count := c\<rparr>)\<rparr>)"
  using sound_table [of e s t fs "fs\<lparr>files_count := c\<rparr>" e] by simp

lemma files_fork_ok:
  assumes "fsys_ok e s" "files_fork t arr s = Some (ret, s')" "ftabs s t = None"
  shows "fsys_ok e s'"
proof (cases "t = 0")
  case True
  with assms show ?thesis by (auto simp: files_fork_def files_create_def)
next
  case False
  obtain u where c: "files_create t arr s = (t, u)" using False by (simp add: files_create_def)
  with False assms(2) obtain v fs where d: "dup_files t (filesp u) u = Some (ret, v)"
    and fs: "ftabs v t = Some fs" and s': "s' = v\<lparr>ftabs := (ftabs v)(t \<mapsto> fs\<lparr>files_count := files_count fs + 1\<rparr>)\<rparr>"
    by (auto simp: files_fork_def files_count_inc_def bind_Some_iff)
  have "tallied e s" "\<forall>n. 0 \<le> e n" using assms(1) by (simp_all add: fsys_ok_sound)
  note cr = files_create_sound [OF this(1) c False assms(3)]
  have u: "fsys_ok e u" using cr \<open>\<forall>n. 0 \<le> e n\<close> by (simp add: fsys_ok_sound)
  have tu: "ftabs u t = Some \<lparr>pwd = 0, fd_array = fd_array_init arr, files_count = 0\<rparr>"
    using c False by (auto simp: files_create_def)
  from d obtain ts where "ftabs u (filesp u) = Some ts" "files_count ts > 0"
    by (auto simp: dup_files_def bind_Some_iff split: if_splits)
  with tu have "t \<noteq> filesp u" by auto
  with dup_files_ok [OF u d _ _ tu] cr have "fsys_ok e v" by simp
  then show ?thesis unfolding s' using sound_count [OF _ fs] by (simp add: fsys_ok_sound)
qed

lemma files_count_inc_ok: "fsys_ok e s \<Longrightarrow> files_count_inc t s = Some s' \<Longrightarrow> fsys_ok e s'"
  by (auto simp: files_count_inc_def bind_Some_iff fsys_ok_sound intro: sound_count)

context inode_layer
begin

lemma files_put_ok:
  assumes "fsys_ok e s" "files_put T t s = Some s'"
  shows "fsys_ok e s'"
proof -
  from assms(2) obtain fs where fs: "ftabs s t = Some fs"
    and r: "(if files_count fs - 1 = 0
       then files_destroy T t (s\<lparr>ftabs := (ftabs s)(t \<mapsto> fs\<lparr>files_count := files_count fs - 1\<rparr>)\<rparr>)
       else Some (s\<lparr>ftabs := (ftabs s)(t \<mapsto> fs\<lparr>files_count := files_count fs - 1\<rparr>)\<rparr>)) = Some s'"
    by (auto simp: files_put_def files_count_dec_def bind_Some_iff)
  have "fsys_ok e (s\<lparr>ftabs := (ftabs s)(t \<mapsto> fs\<lparr>files_count := files_count fs - 1\<rparr>)\<rparr>)"
    using assms(1) sound_count [OF _ fs] by (simp add: fsys_ok_sound)
  with r files_destroy_ok show ?thesis by (auto split: if_splits)
qed

end

text \<open>Everything the processes do to the tables, in any order.\<close>

inductive file_step :: "'f optab \<Rightarrow> 'f fs_ops \<Rightarrow> 'f fsys \<Rightarrow> 'f fsys \<Rightarrow> bool" for T F where
  "file_open T F path flags s = Some (ret, s') \<Longrightarrow> file_step T F s s'"
| "file_close T x s = Some (ret, s') \<Longrightarrow> file_step T F s s'"
| "file_read T x base len s = Some (ret, c, s') \<Longrightarrow> file_step T F s s'"
| "file_write T x base len s = Some (ret, c, s') \<Longrightarrow> file_step T F s s'"
| "file_seek T x pos whence s = Some (ret, s') \<Longrightarrow> file_step T F s s'"
| "file_fstat T x st s = Some (ret, st', s') \<Longrightarrow> file_step T F s s'"
| "file_fsync T x s = Some (ret, s') \<Longrightarrow> file_step T F s s'"
| "file_getdirentry T x name offset s = Some (ret, offset', s') \<Longrightarrow> file_step T F s s'"
| "file_dup fd1 fd2 s = Some (ret, s') \<Longrightarrow> file_step T F s s'"
| "vfs_chdir T F path s = Some (ret, s') \<Longrightarrow> file_step T F s s'"
| "vfs_set_bootfs T F fsname s = Some (ret, s') \<Longrightarrow> file_step T F s s'"
| "ftabs s t = None \<Longrightarrow> files_fork t arr s = Some (ret, s') \<Longrightarrow> file_step T F s s'"
| "files_count_inc t s = Some s' \<Longrightarrow> file_step T F s s'"
| "files_put T t s = Some s' \<Longrightarrow> file_step T F s s'"
| "files_closeall T t s = Some s' \<Longrightarrow> file_step T F s s'"
| "ftabs s t = Some fs \<Longrightarrow> file_step T F s (s\<lparr>filesp := t\<rparr>)"

context fs_layer
begin

lemma file_step_ok:
  assumes "file_step T F s s'" "fsys_ok e s"
  shows "fsys_ok e s' \<or> (\<exists>n. fsys_ok (\<lambda>m. e m + at n m) s')"
  using assms(1)
proof cases
  case 1
  from file_open_ok [OF assms(2) this] show ?thesis by blast
next
  case 16
  have "fsys_ok e s'" unfolding 16(1) using assms(2) sound_filesp unfolding fsys_ok_sound by blast
  then show ?thesis ..
qed (use assms(2) in \<open>blast intro: file_close_ok file_read_ok file_write_ok file_seek_ok file_fstat_ok
  file_fsync_ok file_getdirentry_ok file_dup_ok vfs_chdir_ok vfs_set_bootfs_ok files_fork_ok
  files_count_inc_ok files_put_ok files_closeall_ok\<close>)+

lemma file_steps_ok:
  assumes "(file_step T F)\<^sup>*\<^sup>* s s'" "fsys_ok e s"
  shows "\<exists>e'. fsys_ok e' s' \<and> (\<forall>m. e m \<le> e' m)"
  using assms
proof (induction rule: rtranclp_induct)
  case base
  then show ?case by blast
next
  case (step u v)
  then obtain e' where e': "fsys_ok e' u" "\<forall>m. e m \<le> e' m" by blast
  from file_step_ok [OF step.hyps(2) e'(1)] show ?case
  proof
    assume "\<exists>n. fsys_ok (\<lambda>m. e' m + at n m) v"
    then obtain n where n: "fsys_ok (\<lambda>m. e' m + at n m) v" by blast
    have "\<forall>m. e m \<le> e' m + at n m" using e'(2) at_nonneg by (meson add_increasing2)
    with n show ?thesis by blast
  qed (use e' in blast)
qed

end

end
