(* ===== verification/SfsNode.thy ===== *)
theory SfsNode
  imports Files SfsDir HashRand
begin

text \<open>
  kern/fs/sfs/sfs_inode.c and sfs_fs.c: the inodes of the simple file system in memory.
  They are cached: a hash table by inode number and a list of all of them, linked through
  the inodes. A node is read from disk when it is first looked up and removed when the
  last reference is given back. Here the operations on the contents of one inode, which
  take the inode and the file system by value, become operations of the virtual file
  system on the whole state, and the tables of the kernel keep the contracts of that layer.

  The state below the virtual file system holds the mounted file systems, the \<^verbatim>\<open>sfs_inode\<close>
  of each inode, the links, the memory of the buffers, and the answers \<^verbatim>\<open>kmalloc\<close> will
  give; an answer that is an inode or a file system in use is not one it can give and counts
  as the null pointer. The blocks of a device are in its mounted file system, and in
  \<^verbatim>\<open>media\<close> while none is mounted. The semaphores around the bodies have no
  counterpart: operations run one after the other. \<^verbatim>\<open>drivers\<close> is the state of the device drivers.
\<close>

section \<open>The state\<close>

datatype sfs_le = InodeList nat | InodeLink nat | SfsHash nat "32 word" | SfsHashLink nat

record 'd klow =
  fses :: "nat \<Rightarrow> sfs_fs option"
  fs_dev :: "nat \<Rightarrow> nat"
  media :: "nat \<Rightarrow> nat \<Rightarrow> byte list"
  sins :: "nat \<Rightarrow> sfs_inode"
  sfs_links :: "sfs_le links"
  kbytes :: mem
  answers :: "nat list"
  heap_inode :: inode
  heap_entry :: sfs_disk_entry
  heap_fs :: sfs_fs
  drivers :: 'd

type_synonym 'd kstate = "'d klow fsys"

definition kmalloc_answer :: "'d kstate \<Rightarrow> nat \<times> 'd kstate" where
  "kmalloc_answer s =
     (case answers (below s) of [] \<Rightarrow> (0, s)
      | p # ps \<Rightarrow> (if inodes s p = None \<and> fses (below s) p = None then p else 0, s\<lparr>below := (below s)\<lparr>answers := ps\<rparr>\<rparr>))"

text \<open>\<^verbatim>\<open>fsop_info(vop_fs(node), sfs)\<close> and \<^verbatim>\<open>vop_info(node, sfs_inode)\<close>.\<close>

definition sfs_info :: "nat \<Rightarrow> 'd kstate \<Rightarrow> (nat \<times> sfs_fs) option" where
  "sfs_info n s =
     do { i \<leftarrow> inode_at s n;
          kassert (in_fs i \<noteq> 0);
          sfs \<leftarrow> fses (below s) (in_fs i);
          Some (in_fs i, sfs) }"

definition sin_info :: "nat \<Rightarrow> 'd kstate \<Rightarrow> sfs_inode option" where
  "sin_info n s =
     do { kassert (n \<noteq> 0); i \<leftarrow> inode_at s n; kassert (\<not> is_device i); Some (sins (below s) n) }"

definition put_sfs :: "nat \<Rightarrow> sfs_fs \<Rightarrow> 'd kstate \<Rightarrow> 'd kstate" where
  "put_sfs fs sfs s = s\<lparr>below := (below s)\<lparr>fses := (fses (below s))(fs \<mapsto> sfs)\<rparr>\<rparr>"

definition put_sin :: "nat \<Rightarrow> sfs_inode \<Rightarrow> 'd kstate \<Rightarrow> 'd kstate" where
  "put_sin n sin s = s\<lparr>below := (below s)\<lparr>sins := (sins (below s))(n := sin)\<rparr>\<rparr>"

definition put_links :: "sfs_le links \<Rightarrow> 'd kstate \<Rightarrow> 'd kstate" where
  "put_links l s = s\<lparr>below := (below s)\<lparr>sfs_links := l\<rparr>\<rparr>"

definition get_bytes :: "nat \<Rightarrow> nat \<Rightarrow> 'd kstate \<Rightarrow> byte list" where
  "get_bytes a n s = map (kbytes (below s)) [a..<a + n]"

definition put_bytes :: "nat \<Rightarrow> byte list \<Rightarrow> 'd kstate \<Rightarrow> 'd kstate" where
  "put_bytes a bs s =
     s\<lparr>below := (below s)\<lparr>kbytes := \<lambda>x. if a \<le> x \<and> x < a + length bs then bs ! (x - a) else kbytes (below s) x\<rparr>\<rparr>"

definition name_bytes :: "string \<Rightarrow> byte list" where
  "name_bytes name = map of_char name"

section \<open>The operations of one inode\<close>

definition opendir_node :: "nat \<Rightarrow> 32 word \<Rightarrow> 'd klow call" where
  "opendir_node n open_flags s = Some (sfs_opendir open_flags, s)"

definition openfile_node :: "nat \<Rightarrow> 32 word \<Rightarrow> 'd klow call" where
  "openfile_node n open_flags s = Some (sfs_openfile open_flags, s)"

definition fsync_node :: "nat \<Rightarrow> 'd klow call" where
  "fsync_node n s =
     do { (fs, sfs) \<leftarrow> sfs_info n s;
          sin \<leftarrow> sin_info n s;
          (ret, sin, sfs) \<leftarrow> sfs_fsync sfs sin;
          Some (ret, put_sfs fs sfs (put_sin n sin s)) }"

definition close_node :: "nat \<Rightarrow> 'd klow call" where
  "close_node n s =
     do { (fs, sfs) \<leftarrow> sfs_info n s;
          sin \<leftarrow> sin_info n s;
          (ret, sin, sfs) \<leftarrow> sfs_close sfs sin;
          Some (ret, put_sfs fs sfs (put_sin n sin s)) }"

definition gettype_node :: "nat \<Rightarrow> 'd kstate \<Rightarrow> (int \<times> nat \<times> 'd kstate) option" where
  "gettype_node n s =
     do { sin \<leftarrow> sin_info n s; (ret, ty) \<leftarrow> sfs_gettype sin; Some (ret, ty, s) }"

definition fstat_node :: "nat \<Rightarrow> 'd kstate \<Rightarrow> (int \<times> stat \<times> 'd kstate) option" where
  "fstat_node n s =
     do { sin \<leftarrow> sin_info n s; (ret, st) \<leftarrow> sfs_fstat sin; Some (ret, st, s) }"

definition read_node :: "nat \<Rightarrow> iobuf \<Rightarrow> 'd kstate \<Rightarrow> (int \<times> iobuf \<times> 'd kstate) option" where
  "read_node n iob s =
     do { (fs, sfs) \<leftarrow> sfs_info n s;
          sin \<leftarrow> sin_info n s;
          (ret, iob', buf, sin, sfs) \<leftarrow> sfs_read sfs sin iob (get_bytes (io_base iob) (io_resid iob) s);
          Some (ret, iob', put_bytes (io_base iob) buf (put_sfs fs sfs (put_sin n sin s))) }"

definition write_node :: "nat \<Rightarrow> iobuf \<Rightarrow> 'd kstate \<Rightarrow> (int \<times> iobuf \<times> 'd kstate) option" where
  "write_node n iob s =
     do { (fs, sfs) \<leftarrow> sfs_info n s;
          sin \<leftarrow> sin_info n s;
          (ret, iob', buf, sin, sfs) \<leftarrow> sfs_write sfs sin iob (get_bytes (io_base iob) (io_resid iob) s);
          Some (ret, iob', put_bytes (io_base iob) buf (put_sfs fs sfs (put_sin n sin s))) }"

definition tryseek_node :: "nat \<Rightarrow> int \<Rightarrow> 'd klow call" where
  "tryseek_node n pos s =
     do { (fs, sfs) \<leftarrow> sfs_info n s;
          sin \<leftarrow> sin_info n s;
          (ret, sin, sfs) \<leftarrow> sfs_tryseek sfs sin pos;
          Some (ret, put_sfs fs sfs (put_sin n sin s)) }"

definition truncfile_node :: "nat \<Rightarrow> int \<Rightarrow> 'd klow call" where
  "truncfile_node n len s =
     do { (fs, sfs) \<leftarrow> sfs_info n s;
          sin \<leftarrow> sin_info n s;
          (ret, sin, sfs) \<leftarrow> sfs_truncfile sfs sin len;
          Some (ret, put_sfs fs sfs (put_sin n sin s)) }"

definition getdirentry_node :: "nat \<Rightarrow> iobuf \<Rightarrow> 'd kstate \<Rightarrow> (int \<times> iobuf \<times> 'd kstate) option" where
  "getdirentry_node n iob s =
     (let (p, s) = kmalloc_answer s
      in do { (fs, sfs) \<leftarrow> sfs_info n s;
              sin \<leftarrow> sin_info n s;
              (ret, iob', buf, sin, sfs) \<leftarrow> sfs_getdirentry (p \<noteq> 0) (heap_entry (below s)) sfs sin iob
                (get_bytes (io_base iob) (io_resid iob) s);
              Some (ret, iob', put_bytes (io_base iob) buf (put_sfs fs sfs (put_sin n sin s))) })"

section \<open>The cache\<close>

definition dev_ops_at :: nat where "dev_ops_at = 1"
definition dir_ops_at :: nat where "dir_ops_at = 2"
definition file_ops_at :: nat where "file_ops_at = 3"

definition sfs_get_ops :: "nat \<Rightarrow> nat option" where
  "sfs_get_ops ty =
     (if ty = SFS_TYPE_DIR then Some dir_ops_at else if ty = SFS_TYPE_FILE then Some file_ops_at else None)"

definition sin_hashfn :: "nat \<Rightarrow> 32 word" where
  "sin_hashfn x = hash32 (of_nat x) 10"

definition sfs_hash_list :: "nat \<Rightarrow> nat \<Rightarrow> sfs_le" where
  "sfs_hash_list fs ino = SfsHash fs (sin_hashfn ino)"

fun le2sin :: "sfs_le \<Rightarrow> nat" where
  "le2sin (InodeLink n) = n"
| "le2sin (SfsHashLink n) = n"
| "le2sin (InodeList fs) = 0"
| "le2sin (SfsHash fs h) = 0"

definition sfs_set_links :: "nat \<Rightarrow> nat \<Rightarrow> 'd kstate \<Rightarrow> 'd kstate" where
  "sfs_set_links fs n s =
     put_links (list_add (sfs_hash_list fs (sin_ino (sins (below s) n))) (SfsHashLink n)
       (list_add (InodeList fs) (InodeLink n) (sfs_links (below s)))) s"

definition sfs_remove_links :: "nat \<Rightarrow> 'd kstate \<Rightarrow> 'd kstate" where
  "sfs_remove_links n s =
     put_links (list_del (SfsHashLink n) (list_del (InodeLink n) (sfs_links (below s)))) s"

definition sfs_create_inode :: "nat \<Rightarrow> sfs_disk_inode \<Rightarrow> nat \<Rightarrow> 'd kstate \<Rightarrow> (int \<times> nat \<times> 'd kstate) option" where
  "sfs_create_inode fs din ino s =
     (let (p, s) = kmalloc_answer s;
          (n, s) = alloc_inode False p (heap_inode (below s)) s
      in if n \<noteq> 0 then
           do { ops \<leftarrow> sfs_get_ops (din_type din);
                s \<leftarrow> inode_init n ops fs s;
                Some (0, n, put_sin n \<lparr>sin_din = din, sin_ino = ino, sin_dirty = False, reclaim_count = 1\<rparr> s) }
         else Some (- E_NO_MEM, 0, s))"

partial_function (option) sfs_hash_walk :: "nat \<Rightarrow> nat \<Rightarrow> sfs_le \<Rightarrow> 'd kstate \<Rightarrow> nat option option" where
  "sfs_hash_walk fs ino le s =
     (let le = list_next le (sfs_links (below s))
      in if le = sfs_hash_list fs ino then Some None
         else if sin_ino (sins (below s) (le2sin le)) = ino then Some (Some (le2sin le))
         else sfs_hash_walk fs ino le s)"

text \<open>The null pointer is 0.\<close>

definition lookup_sfs_nolock :: "nat \<Rightarrow> nat \<Rightarrow> 'd kstate \<Rightarrow> (nat \<times> 'd kstate) option" where
  "lookup_sfs_nolock fs ino s =
     do { r \<leftarrow> sfs_hash_walk fs ino (sfs_hash_list fs ino) s;
          case r of
            None \<Rightarrow> Some (0, s)
          | Some n \<Rightarrow>
              do { (c, s) \<leftarrow> inode_ref_inc n s;
                   let sin = sins (below s) n;
                   Some (n, if c = 1 then put_sin n (sin\<lparr>reclaim_count := reclaim_count sin + 1\<rparr>) s else s) } }"

definition sfs_load_inode :: "nat \<Rightarrow> nat \<Rightarrow> 'd kstate \<Rightarrow> (int \<times> nat \<times> 'd kstate) option" where
  "sfs_load_inode fs ino s =
     do { (n, s) \<leftarrow> lookup_sfs_nolock fs ino s;
          if n \<noteq> 0 then Some (0, n, s)
          else
            let (p, s) = kmalloc_answer s
            in if p = 0 then Some (- E_NO_MEM, 0, s)
               else do {
                 sfs \<leftarrow> fses (below s) fs;
                 assert_inuse sfs ino;
                 (ret, bs, sfs) \<leftarrow> sfs_rbuf sfs [] sizeof_din ino 0;
                 let s = put_sfs fs sfs s;
                 if ret \<noteq> 0 then Some (ret, 0, s)
                 else do {
                   kassert (din_nlinks (bytes_din bs) \<noteq> 0);
                   (ret, n, s) \<leftarrow> sfs_create_inode fs (bytes_din bs) ino s;
                   if ret \<noteq> 0 then Some (ret, 0, s) else Some (0, n, sfs_set_links fs n s) } } }"

text \<open>The result of a search that succeeds is always a slot and a number.\<close>

definition sfs_lookup_once :: "nat \<Rightarrow> nat \<Rightarrow> string \<Rightarrow> 'd kstate \<Rightarrow> (int \<times> nat \<times> 'd kstate) option" where
  "sfs_lookup_once fs n name s =
     do { sfs \<leftarrow> fses (below s) fs;
          let (p, s) = kmalloc_answer s;
          (ret, r, _, sin, sfs) \<leftarrow>
            sfs_dirent_search_nolock (p \<noteq> 0) (heap_entry (below s)) sfs (sins (below s) n) (name_bytes name) 0;
          let s = put_sfs fs sfs (put_sin n sin s);
          if ret = 0 then do { (_, ino) \<leftarrow> r; sfs_load_inode fs ino s } else Some (ret, 0, s) }"

definition sfs_lookup :: "'d klow optab \<Rightarrow> nat \<Rightarrow> string \<Rightarrow> 'd kstate \<Rightarrow> (int \<times> nat \<times> 'd kstate) option" where
  "sfs_lookup T n path s =
     do { (fs, _) \<leftarrow> sfs_info n s;
          kassert (path \<noteq> [] \<and> hd path \<noteq> CHR ''/'');
          (_, s) \<leftarrow> inode_ref_inc n s;
          sin \<leftarrow> sin_info n s;
          if din_type (sin_din sin) \<noteq> SFS_TYPE_DIR then
            do { (_, s) \<leftarrow> inode_ref_dec T n s; Some (- E_NOTDIR, 0, s) }
          else do {
            (ret, sub, s) \<leftarrow> sfs_lookup_once fs n path s;
            (_, s) \<leftarrow> inode_ref_dec T n s;
            if ret \<noteq> 0 then Some (ret, 0, s) else Some (0, sub, s) } }"

text \<open>Lines 1057 to 1064: the blocks of a file without links are freed.\<close>

definition free_unlinked :: "nat \<Rightarrow> 'd kstate \<Rightarrow> 'd kstate option" where
  "free_unlinked n s =
     do { (fs, sfs) \<leftarrow> sfs_info n s;
          sin \<leftarrow> sin_info n s;
          if din_nlinks (sin_din sin) = 0 then
            do { sfs \<leftarrow> sfs_block_free sfs (sin_ino sin);
                 sfs \<leftarrow> (if din_indirect (sin_din sin) \<noteq> 0 then sfs_block_free sfs (din_indirect (sin_din sin))
                         else Some sfs);
                 Some (put_sfs fs sfs s) }
          else Some s }"

definition sfs_reclaim :: "'d klow optab \<Rightarrow> nat \<Rightarrow> 'd klow call" where
  "sfs_reclaim T n s =
     do { _ \<leftarrow> sfs_info n s;
          sin \<leftarrow> sin_info n s;
          i \<leftarrow> inode_at s n;
          kassert (reclaim_count sin > 0);
          let c = reclaim_count sin - 1;
          let s = put_sin n (sin\<lparr>reclaim_count := c\<rparr>) s;
          if c \<noteq> 0 \<or> ref_count i \<noteq> 0 then Some (- E_BUSY, s)
          else do {
            (ret, s) \<leftarrow> (if din_nlinks (sin_din sin) = 0 then vop_truncate T n 0 s else Some (0, s));
            if ret \<noteq> 0 then Some (ret, s)
            else do {
              (ret, s) \<leftarrow> (if sin_dirty (sins (below s) n) then vop_fsync T n s else Some (0, s));
              if ret \<noteq> 0 then Some (ret, s)
              else do {
                s \<leftarrow> free_unlinked n (sfs_remove_links n s);
                s \<leftarrow> inode_kill n s;
                Some (0, s) } } } }"


text \<open>
  \<^verbatim>\<open>sfs_namefile\<close> builds the path from the end of the buffer. The loop returns the code,
  the position of the text in the buffer and the space left. \<^verbatim>\<open>dec\<close> is
  \<^verbatim>\<open>vop_ref_dec\<close>.
\<close>

type_synonym 'd name_pos = "nat \<times> nat \<times> 'd kstate"

text \<open>Lines 920 to 940: the name of the child is put before the text.\<close>

definition namefile_add ::
  "(nat \<Rightarrow> 'd klow call) \<Rightarrow> nat \<Rightarrow> nat \<Rightarrow> nat \<Rightarrow> 'd name_pos \<Rightarrow> (int \<times> 'd name_pos + nat \<times> 'd name_pos) option" where
  "namefile_add dec fs parent ino st =
     (let (ptr, resid, s) = st
      in do {
        sin \<leftarrow> sin_info parent s;
        kassert (ino \<noteq> sin_ino sin \<and> din_type (sin_din sin) = SFS_TYPE_DIR);
        sfs \<leftarrow> fses (below s) fs;
        (ret, entry, sin, sfs) \<leftarrow> sfs_dirent_findino_nolock sfs sin ino (heap_entry (below s));
        let s = put_sfs fs sfs (put_sin parent sin s);
        let name = cname (ent_name entry);
        let alen = length name + 1;
        if ret \<noteq> 0 then do { (_, s) \<leftarrow> dec parent s; Some (Inl (ret, ptr, resid, s)) }
        else if alen > resid then do { (_, s) \<leftarrow> dec parent s; Some (Inl (- E_NO_MEM, ptr, resid, s)) }
        else Some (Inr (parent, ptr - alen, resid - alen, put_bytes (ptr - alen) (name @ [47]) s)) })"

definition namefile_round ::
  "(nat \<Rightarrow> 'd klow call) \<Rightarrow> nat \<Rightarrow> nat \<Rightarrow> 'd name_pos \<Rightarrow> (int \<times> 'd name_pos + nat \<times> 'd name_pos) option" where
  "namefile_round dec fs n st =
     (let (ptr, resid, s) = st
      in do {
        (ret, parent, s) \<leftarrow> sfs_lookup_once fs n ''..'' s;
        if ret \<noteq> 0 then do { (_, s) \<leftarrow> dec n s; Some (Inl (ret, ptr, resid, s)) }
        else do {
          sin \<leftarrow> sin_info n s;
          (_, s) \<leftarrow> dec n s;
          if n = parent then do { (_, s) \<leftarrow> dec n s; Some (Inl (0, ptr, resid, s)) }
          else namefile_add dec fs parent (sin_ino sin) (ptr, resid, s) } })"

partial_function (option) namefile_loop ::
  "(nat \<Rightarrow> 'd klow call) \<Rightarrow> nat \<Rightarrow> nat \<Rightarrow> 'd name_pos \<Rightarrow> (int \<times> 'd name_pos) option" where
  "namefile_loop dec fs n st =
     do { r \<leftarrow> namefile_round dec fs n st;
          case r of Inl x \<Rightarrow> Some x | Inr (n, st) \<Rightarrow> namefile_loop dec fs n st }"

definition sfs_namefile :: "'d klow optab \<Rightarrow> nat \<Rightarrow> iobuf \<Rightarrow> 'd kstate \<Rightarrow> (int \<times> iobuf \<times> 'd kstate) option" where
  "sfs_namefile T n iob s =
     (if io_resid iob \<le> 2 then Some (- E_NO_MEM, iob, s)
      else
        let (p, s) = kmalloc_answer s
        in if p = 0 then Some (- E_NO_MEM, iob, s)
           else do {
             (fs, _) \<leftarrow> sfs_info n s;
             _ \<leftarrow> sin_info n s;
             (_, s) \<leftarrow> inode_ref_inc n s;
             (ret, ptr, resid, s) \<leftarrow> namefile_loop (inode_ref_dec T) fs n (io_base iob + io_resid iob, io_resid iob - 2, s);
             if ret \<noteq> 0 then Some (ret, iob, s)
             else do {
               let alen = io_resid iob - resid - 2;
               let s = put_bytes (io_base iob) (47 # get_bytes ptr alen s @ [0]) s;
               iob \<leftarrow> iobuf_skip iob alen;
               Some (0, iob, s) } })"

section \<open>The tables of the kernel\<close>

definition sfs_node_dirops :: "'d klow optab \<Rightarrow> 'd klow inode_ops" where
  "sfs_node_dirops T =
     \<lparr>vop_magic = VOP_MAGIC, op_open = Some opendir_node, op_close = Some close_node,
      op_read = None, op_write = None, op_fstat = Some fstat_node, op_fsync = Some fsync_node,
      op_namefile = Some (sfs_namefile T), op_getdirentry = Some getdirentry_node,
      op_reclaim = Some (sfs_reclaim T), op_gettype = Some gettype_node, op_tryseek = None,
      op_truncate = None, op_create = None, op_lookup = Some (sfs_lookup T), op_ioctl = None\<rparr>"

definition sfs_node_fileops :: "'d klow optab \<Rightarrow> 'd klow inode_ops" where
  "sfs_node_fileops T =
     \<lparr>vop_magic = VOP_MAGIC, op_open = Some openfile_node, op_close = Some close_node,
      op_read = Some read_node, op_write = Some write_node, op_fstat = Some fstat_node,
      op_fsync = Some fsync_node, op_namefile = None, op_getdirentry = None,
      op_reclaim = Some (sfs_reclaim T), op_gettype = Some gettype_node,
      op_tryseek = Some tryseek_node, op_truncate = Some truncfile_node, op_create = None,
      op_lookup = None, op_ioctl = None\<rparr>"

text \<open>
  The table at each address. The operations of a table call others through the table; the
  calls nest at most three deep, so three rounds reach the table that is meant.
\<close>

definition ops_round :: "(nat \<Rightarrow> 'd klow device) \<Rightarrow> 'd klow optab \<Rightarrow> 'd klow optab" where
  "ops_round D T a =
     (if a = dir_ops_at then sfs_node_dirops T
      else if a = file_ops_at then sfs_node_fileops T else dev_node_ops T D)"

definition kernel_ops :: "(nat \<Rightarrow> 'd klow device) \<Rightarrow> 'd klow optab" where
  "kernel_ops D = ops_round D (ops_round D (ops_round D (dev_table D)))"

section \<open>Mounted file systems\<close>

partial_function (option) sync_loop :: "'d klow optab \<Rightarrow> nat \<Rightarrow> sfs_le \<Rightarrow> 'd kstate \<Rightarrow> 'd kstate option" where
  "sync_loop T fs le s =
     (let le = list_next le (sfs_links (below s))
      in if le = InodeList fs then Some s
         else do { (_, s) \<leftarrow> vop_fsync T (le2sin le) s; sync_loop T fs le s })"

definition sfs_sync :: "'d klow optab \<Rightarrow> nat \<Rightarrow> 'd klow call" where
  "sfs_sync T fs s =
     do { kassert (fs \<noteq> 0);
          _ \<leftarrow> fses (below s) fs;
          s \<leftarrow> sync_loop T fs (InodeList fs) s;
          sfs \<leftarrow> fses (below s) fs;
          if super_dirty sfs then
            do { (ret, sfs) \<leftarrow> sfs_sync_super (sfs\<lparr>super_dirty := False\<rparr>);
                 if ret \<noteq> 0 then Some (ret, put_sfs fs (sfs\<lparr>super_dirty := True\<rparr>) s)
                 else do {
                   (ret, sfs) \<leftarrow> sfs_sync_freemap sfs;
                   if ret \<noteq> 0 then Some (ret, put_sfs fs (sfs\<lparr>super_dirty := True\<rparr>) s)
                   else Some (0, put_sfs fs sfs s) } }
          else Some (0, s) }"

definition sfs_get_root :: "nat \<Rightarrow> 'd kstate \<Rightarrow> (nat \<times> 'd kstate) option" where
  "sfs_get_root fs s =
     do { kassert (fs \<noteq> 0);
          (ret, n, s) \<leftarrow> sfs_load_inode fs SFS_BLKN_ROOT s;
          kassert (ret = 0);
          Some (n, s) }"

definition sfs_unmount :: "nat \<Rightarrow> 'd klow call" where
  "sfs_unmount fs s =
     do { kassert (fs \<noteq> 0);
          sfs \<leftarrow> fses (below s) fs;
          if \<not> list_empty (InodeList fs) (sfs_links (below s)) then Some (- E_BUSY, s)
          else do {
            kassert (\<not> super_dirty sfs);
            Some (0, s\<lparr>below := (below s)\<lparr>fses := (fses (below s))(fs := None),
                       media := (media (below s))(fs_dev (below s) fs := disk sfs)\<rparr>\<rparr>) } }"

primrec sfs_cleanup_loop :: "'d klow optab \<Rightarrow> nat \<Rightarrow> nat \<Rightarrow> 'd kstate \<Rightarrow> 'd kstate option" where
  "sfs_cleanup_loop T fs 0 s = Some s"
| "sfs_cleanup_loop T fs (Suc k) s =
     do { (ret, s) \<leftarrow> sfs_sync T fs s; if ret = 0 then Some s else sfs_cleanup_loop T fs k s }"

definition sfs_cleanup :: "'d klow optab \<Rightarrow> nat \<Rightarrow> 'd kstate \<Rightarrow> 'd kstate option" where
  "sfs_cleanup T fs s =
     do { kassert (fs \<noteq> 0); _ \<leftarrow> fses (below s) fs; sfs_cleanup_loop T fs 32 s }"

definition kernel_fs :: "'d klow optab \<Rightarrow> 'd klow fs_ops" where
  "kernel_fs T =
     \<lparr>fs_sync = sfs_sync T, fs_get_root = sfs_get_root, fs_unmount = sfs_unmount, fs_cleanup = sfs_cleanup T\<rparr>"


section \<open>The tables are those of the code\<close>

lemma vop_op_cong:
  assumes "\<And>a. sel (T a) = sel (T' a)" "\<And>a. vop_magic (T a) = vop_magic (T' a)"
  shows "vop_op T sel n s = vop_op T' sel n s"
  by (simp add: vop_op_def inode_check_def assms)

lemma ops_round_flat:
  "vop_magic (ops_round D T a) = VOP_MAGIC"
  "op_truncate (ops_round D T a) = op_truncate (ops_round D T' a)"
  "op_fsync (ops_round D T a) = op_fsync (ops_round D T' a)"
  "op_gettype (ops_round D T a) = op_gettype (ops_round D T' a)"
  by (simp_all add: ops_round_def sfs_node_dirops_def sfs_node_fileops_def dev_node_ops_def)

lemma sfs_reclaim_round: "sfs_reclaim (ops_round D T) = sfs_reclaim (ops_round D T')"
proof -
  have tr: "vop_truncate (ops_round D T) = vop_truncate (ops_round D T')"
    unfolding vop_truncate_def fun_eq_iff
    by (metis vop_op_cong [of op_truncate] ops_round_flat(1) ops_round_flat(2))
  have sy: "vop_fsync (ops_round D T) = vop_fsync (ops_round D T')"
    unfolding vop_fsync_def fun_eq_iff
    by (metis vop_op_cong [of op_fsync] ops_round_flat(1) ops_round_flat(3))
  show ?thesis by (intro ext) (simp only: sfs_reclaim_def tr sy)
qed

lemma ref_dec_round:
  "inode_ref_dec (ops_round D (ops_round D T)) = inode_ref_dec (ops_round D (ops_round D T'))"
proof -
  have "op_reclaim (ops_round D (ops_round D T) a) = op_reclaim (ops_round D (ops_round D T') a)" for a
    using sfs_reclaim_round [of D T T']
    by (simp add: ops_round_def sfs_node_dirops_def sfs_node_fileops_def dev_node_ops_def)
  then have rc: "vop_reclaim (ops_round D (ops_round D T)) = vop_reclaim (ops_round D (ops_round D T'))"
    unfolding vop_reclaim_def fun_eq_iff
    by (metis vop_op_cong [of op_reclaim] ops_round_flat(1))
  show ?thesis by (intro ext) (simp only: inode_ref_dec_def rc)
qed

lemma ops_round_fixed:
  "ops_round D (ops_round D (ops_round D T)) = ops_round D (ops_round D (ops_round D T'))"
proof -
  let ?T = "ops_round D (ops_round D T)" and ?T' = "ops_round D (ops_round D T')"
  have gt: "vop_gettype ?T = vop_gettype ?T'"
    unfolding vop_gettype_def fun_eq_iff
    by (metis vop_op_cong [of op_gettype] ops_round_flat(1) ops_round_flat(4))
  have "dev_fstat ?T D = dev_fstat ?T' D" by (intro ext) (simp only: dev_fstat_def gt)
  moreover have "sfs_lookup ?T = sfs_lookup ?T'"
    by (intro ext) (simp only: sfs_lookup_def ref_dec_round [of D T T'])
  moreover have "sfs_namefile ?T = sfs_namefile ?T'"
    by (intro ext) (simp only: sfs_namefile_def ref_dec_round [of D T T'])
  moreover have "sfs_reclaim ?T = sfs_reclaim ?T'" by (rule sfs_reclaim_round)
  ultimately show ?thesis
    by (intro ext) (simp add: ops_round_def [of D ?T] ops_round_def [of D ?T'] sfs_node_dirops_def
      sfs_node_fileops_def dev_node_ops_def)
qed

lemma kernel_ops_eq:
  "kernel_ops D a =
     (if a = dir_ops_at then sfs_node_dirops (kernel_ops D)
      else if a = file_ops_at then sfs_node_fileops (kernel_ops D) else dev_node_ops (kernel_ops D) D)"
proof -
  have "kernel_ops D = ops_round D (kernel_ops D)"
    unfolding kernel_ops_def by (rule ops_round_fixed)
  then have "kernel_ops D a = ops_round D (kernel_ops D) a" by simp
  then show ?thesis by (simp only: ops_round_def)
qed

section \<open>The kernel keeps the contracts\<close>

definition low :: "'f fsys \<Rightarrow> 'f fsys \<Rightarrow> bool" where
  "low s s' \<longleftrightarrow> s' = s\<lparr>below := below s'\<rparr>"

lemma low_preserves: "low s s' \<Longrightarrow> preserves X s s'"
  unfolding low_def by (metis moves_below)

lemma low_refl [simp]: "low s s"
  by (simp add: low_def)

lemma low_below [simp]: "low s (s'\<lparr>below := b\<rparr>) \<longleftrightarrow> low s s'"
  by (cases s, cases s') (auto simp: low_def)

lemma low_put [simp]:
  "low s (put_sfs fs sfs s') \<longleftrightarrow> low s s'" "low s (put_sin n sin s') \<longleftrightarrow> low s s'"
  "low s (put_links l s') \<longleftrightarrow> low s s'" "low s (put_bytes a bs s') \<longleftrightarrow> low s s'"
  by (simp_all add: put_sfs_def put_sin_def put_links_def put_bytes_def)

lemma low_trans: "low s s' \<Longrightarrow> low s' s'' \<Longrightarrow> low s s''"
  by (cases s, cases s', cases s'') (auto simp: low_def)

lemma low_inodes: "low s s' \<Longrightarrow> inodes s' = inodes s"
  by (cases s, cases s') (auto simp: low_def)

lemma low_inode_at: "low s s' \<Longrightarrow> inode_at s' = inode_at s"
  by (simp add: inode_at_def fun_eq_iff low_inodes)

lemma low_rc: "low s s' \<Longrightarrow> rc s' = rc s \<and> oc s' = oc s"
  by (simp add: rc_def oc_def fun_eq_iff low_inode_at)

lemma kmalloc_answer_low:
  assumes "kmalloc_answer s = (p, s')"
  shows "low s s'" "p \<noteq> 0 \<Longrightarrow> inodes s p = None"
  using assms by (auto simp: kmalloc_answer_def split: list.splits if_splits)

lemma node_ops_low:
  "opendir_node n flags s = Some (ret, s') \<Longrightarrow> low s s'"
  "openfile_node n flags s = Some (ret, s') \<Longrightarrow> low s s'"
  "fsync_node n s = Some (ret, s') \<Longrightarrow> low s s'"
  "close_node n s = Some (ret, s') \<Longrightarrow> low s s'"
  "gettype_node n s = Some (ret, ty, s') \<Longrightarrow> low s s'"
  "fstat_node n s = Some (ret, st, s') \<Longrightarrow> low s s'"
  "read_node n iob s = Some (ret, iob', s') \<Longrightarrow> low s s'"
  "write_node n iob s = Some (ret, iob', s') \<Longrightarrow> low s s'"
  "tryseek_node n pos s = Some (ret, s') \<Longrightarrow> low s s'"
  "truncfile_node n len s = Some (ret, s') \<Longrightarrow> low s s'"
  by (auto simp: opendir_node_def openfile_node_def fsync_node_def close_node_def gettype_node_def
      fstat_node_def read_node_def write_node_def tryseek_node_def truncfile_node_def bind_Some_iff)

lemma getdirentry_node_low: "getdirentry_node n iob s = Some (ret, iob', s') \<Longrightarrow> low s s'"
  by (auto simp: getdirentry_node_def bind_Some_iff split: prod.splits dest: kmalloc_answer_low)

lemma kernel_truncate_keeps:
  "vop_truncate (kernel_ops D) n len s = Some (ret, s') \<Longrightarrow> preserves {} s s'"
  unfolding vop_truncate_def
  by (erule vop_opE) (auto simp: kernel_ops_eq sfs_node_dirops_def sfs_node_fileops_def dev_node_ops_def
      split: if_splits dest: node_ops_low low_preserves)

lemma kernel_fsync_keeps:
  "vop_fsync (kernel_ops D) n s = Some (ret, s') \<Longrightarrow> preserves {} s s'"
  unfolding vop_fsync_def
  by (erule vop_opE) (auto simp: kernel_ops_eq sfs_node_dirops_def sfs_node_fileops_def dev_node_ops_def
      split: if_splits dest: node_ops_low low_preserves)

lemma inode_kill_keeps:
  assumes "inode_kill n s = Some s'"
  shows "preserves {n} s s'"
proof -
  from assms obtain i where i: "inode_at s n = Some i" "ref_count i = 0" "open_count i = 0"
    and s': "s' = s\<lparr>inodes := (inodes s)(n := None)\<rparr>"
    by (auto simp: inode_kill_def bind_Some_iff split: if_splits)
  have "inode_at s' m = (if m = n then None else inode_at s m)" for m
    by (simp add: s' inode_at_def)
  then show ?thesis using i
    by (auto simp: moves_def nodes_stay_def rc_def oc_def s' same_above_def)
qed

lemma free_unlinked_low: "free_unlinked n s = Some s' \<Longrightarrow> low s s'"
  by (auto simp: free_unlinked_def bind_Some_iff split: if_splits)

lemma sfs_remove_links_low: "low s (sfs_remove_links n s)"
  by (simp add: sfs_remove_links_def)

lemma sfs_reclaim_keeps:
  assumes "sfs_reclaim (kernel_ops D) n s = Some (ret, s')"
  shows "preserves {n} s s'"
proof (cases "low s s'")
  case False
  let ?T = "kernel_ops D"
  from assms obtain sin where "sin_info n s = Some sin"
    and r: "(let c = reclaim_count sin - 1; t = put_sin n (sin\<lparr>reclaim_count := c\<rparr>) s
          in do {
            (ret, t) \<leftarrow> (if din_nlinks (sin_din sin) = 0 then vop_truncate ?T n 0 t else Some (0, t));
            if ret \<noteq> 0 then Some (ret, t)
            else do {
              (ret, t) \<leftarrow> (if sin_dirty (sins (below t) n) then vop_fsync ?T n t else Some (0, t));
              if ret \<noteq> 0 then Some (ret, t)
              else do {
                t \<leftarrow> free_unlinked n (sfs_remove_links n t);
                t \<leftarrow> inode_kill n t;
                Some (0, t) } } }) = Some (ret, s')"
    using False by (auto simp: sfs_reclaim_def bind_Some_iff Let_def split: if_splits)
  let ?t = "put_sin n (sin\<lparr>reclaim_count := reclaim_count sin - 1\<rparr>) s"
  have t: "preserves {n} s ?t" by (rule low_preserves) simp
  from r obtain r1 u where u: "(if din_nlinks (sin_din sin) = 0 then vop_truncate ?T n 0 ?t else Some (0, ?t)) = Some (r1, u)"
    and r: "(if r1 \<noteq> 0 then Some (r1, u)
            else do {
              (ret, t) \<leftarrow> (if sin_dirty (sins (below u) n) then vop_fsync ?T n u else Some (0, u));
              if ret \<noteq> 0 then Some (ret, t)
              else do {
                t \<leftarrow> free_unlinked n (sfs_remove_links n t);
                t \<leftarrow> inode_kill n t;
                Some (0, t) } }) = Some (ret, s')"
    by (auto simp: Let_def bind_Some_iff)
  have "preserves {} ?t u" using u by (auto split: if_splits dest: kernel_truncate_keeps)
  from moves_keeps [OF t this] have u': "preserves {n} s u" by simp
  show ?thesis
  proof (cases "r1 = 0")
    case False
    with r u' show ?thesis by simp
  next
    case True
    with r obtain r2 v where v: "(if sin_dirty (sins (below u) n) then vop_fsync ?T n u else Some (0, u)) = Some (r2, v)"
      and r: "(if r2 \<noteq> 0 then Some (r2, v)
              else do { t \<leftarrow> free_unlinked n (sfs_remove_links n v); t \<leftarrow> inode_kill n t; Some (0, t) }) = Some (ret, s')"
      by (auto simp: bind_Some_iff)
    have "preserves {} u v" using v by (auto split: if_splits dest: kernel_fsync_keeps)
    from moves_keeps [OF u' this] have v': "preserves {n} s v" by simp
    show ?thesis
    proof (cases "r2 = 0")
      case False
      with r v' show ?thesis by simp
    next
      case True
      with r obtain w where w: "free_unlinked n (sfs_remove_links n v) = Some w" and k: "inode_kill n w = Some s'"
        by (auto simp: bind_Some_iff)
      have "low v w" by (rule low_trans [OF sfs_remove_links_low free_unlinked_low [OF w]])
      from moves_keeps [OF v' low_preserves [OF this]] have "preserves {n} s w" by auto
      from moves_keeps [OF this inode_kill_keeps [OF k]] show ?thesis by simp
    qed
  qed
qed (simp add: low_preserves)

interpretation kn: reclaim_layer "kernel_ops D" for D :: "nat \<Rightarrow> 'd klow device"
  by unfold_locales
    (auto simp: kernel_ops_eq sfs_node_dirops_def sfs_node_fileops_def dev_node_ops_def
      split: if_splits dest: sfs_reclaim_keeps)


lemma found_low:
  assumes "found n s s'" "low s' s''"
  shows "found n s s''"
  using assms moves_keeps [OF _ low_preserves [OF assms(2)], of "{}" "at n" none s "{}"]
  by (simp add: found_def low_inode_at)

lemma low_found:
  assumes "low s s'" "found n s' s''"
  shows "found n s s''"
  using assms moves_after_keeps [OF low_preserves [OF assms(1)], of "{}" "at n" none s'' "{}"]
  by (simp add: found_def)

lemma low_then: "low s s' \<Longrightarrow> preserves X s' s'' \<Longrightarrow> preserves X s s''"
  using moves_after_keeps [OF low_preserves [of s s' "{}"], of X none none s''] by simp

lemma sfs_create_inode_found:
  assumes "sfs_create_inode fs din ino s = Some (ret, n, s')"
  shows "if ret = 0 then found n s s' else preserves {} s s'"
proof -
  obtain p t where k: "kmalloc_answer s = (p, t)" by fastforce
  note kl = kmalloc_answer_low [OF k]
  show ?thesis
  proof (cases "p = 0")
    case True
    with assms k have "s' = t" "ret \<noteq> 0" by (auto simp: sfs_create_inode_def alloc_inode_def)
    with low_preserves [OF kl(1)] show ?thesis by simp
  next
    case False
    let ?i = "(heap_inode (below t))\<lparr>is_device := False\<rparr>"
    let ?u = "t\<lparr>inodes := (inodes t)(p \<mapsto> ?i)\<rparr>"
    from assms k False obtain ops v where ret: "ret = 0" "n = p"
      and v: "inode_init p ops fs ?u = Some v"
      and s': "s' = put_sin p \<lparr>sin_din = din, sin_ino = ino, sin_dirty = False, reclaim_count = 1\<rparr> v"
      by (auto simp: sfs_create_inode_def alloc_inode_def bind_Some_iff)
    let ?j = "?i\<lparr>open_count := 0, in_ops := ops, in_fs := fs, ref_count := 1\<rparr>"
    have u: "inode_at ?u q = (if q = p then Some ?i else inode_at t q)" for q
      using False by (simp add: inode_at_def)
    have w: "inode_at (t\<lparr>inodes := (inodes t)(p \<mapsto> x)\<rparr>) p = Some x" for x
      using False by (simp add: inode_at_def)
    from v False have v': "v = t\<lparr>inodes := (inodes t)(p \<mapsto> ?j)\<rparr>"
      by (auto simp: inode_init_def inode_ref_inc_def w set_inode_def)
    have at: "inode_at v q = (if q = p then Some ?j else inode_at t q)" for q
      using False by (simp add: v' inode_at_def)
    have none: "inode_at t p = None"
      using kl(2) [OF False] low_inodes [OF kl(1)] by (simp add: inode_at_def)
    have sa: "same_above t v" by (simp add: v' same_above_def)
    have "moves {} (at p) none t v"
      using none sa by (auto simp: moves_def nodes_stay_def rc_def oc_def at at_def)
    then have "found p t v" by (simp add: found_def at)
    then have "found p s v" by (rule low_found [OF kl(1)])
    then have "found p s s'" by (rule found_low) (simp add: s')
    then show ?thesis by (simp add: ret)
  qed
qed

lemma lookup_sfs_nolock_found:
  assumes "lookup_sfs_nolock fs ino s = Some (n, s')"
  shows "if n = 0 then s' = s else found n s s'"
proof (cases "s' = s \<and> n = 0")
  case False
  with assms obtain c t where r: "inode_ref_inc n s = Some (c, t)" and s': "low t s'"
    by (auto simp: lookup_sfs_nolock_def bind_Some_iff Let_def split: option.splits if_splits)
  from ref_inc_found [OF r] have f: "found n s t" .
  then have "n \<noteq> 0" by (auto simp: found_def dest: inode_at_nz)
  with found_low [OF f s'] show ?thesis by simp
qed simp

lemma sfs_load_inode_found:
  assumes "sfs_load_inode fs ino s = Some (ret, n, s')"
  shows "if ret = 0 then found n s s' else preserves {} s s'"
proof -
  from assms obtain m t where l: "lookup_sfs_nolock fs ino s = Some (m, t)"
    and r: "(if m \<noteq> 0 then Some (0, m, t)
          else
            let (p, t) = kmalloc_answer t
            in if p = 0 then Some (- E_NO_MEM, 0, t)
               else do {
                 sfs \<leftarrow> fses (below t) fs;
                 assert_inuse sfs ino;
                 (ret, bs, sfs) \<leftarrow> sfs_rbuf sfs [] sizeof_din ino 0;
                 let t = put_sfs fs sfs t;
                 if ret \<noteq> 0 then Some (ret, 0, t)
                 else do {
                   kassert (din_nlinks (bytes_din bs) \<noteq> 0);
                   (ret, n, t) \<leftarrow> sfs_create_inode fs (bytes_din bs) ino t;
                   if ret \<noteq> 0 then Some (ret, 0, t) else Some (0, n, sfs_set_links fs n t) } }) = Some (ret, n, s')"
    by (auto simp: sfs_load_inode_def bind_Some_iff)
  note l' = lookup_sfs_nolock_found [OF l]
  show ?thesis
  proof (cases "m = 0")
    case False
    with r l' show ?thesis by simp
  next
    case True
    with l' have ts: "t = s" by simp
    obtain p u where k: "kmalloc_answer s = (p, u)" by fastforce
    note kl = kmalloc_answer_low(1) [OF k]
    show ?thesis
    proof (cases "low s s' \<and> ret \<noteq> 0")
      case True
      then show ?thesis by (simp add: low_preserves)
    next
      case False
      with r True ts k kl obtain sfs bs ret1 n1 v where
        c: "sfs_create_inode fs (bytes_din bs) ino (put_sfs fs sfs u) = Some (ret1, n1, v)"
        and r1: "(if ret1 \<noteq> 0 then Some (ret1, 0, v) else Some (0, n1, sfs_set_links fs n1 v)) = Some (ret, n, s')"
        by (auto simp: bind_Some_iff Let_def split: if_splits)
      note c' = sfs_create_inode_found [OF c]
      have lu: "low s (put_sfs fs sfs u)" using kl by simp
      show ?thesis
      proof (cases "ret1 = 0")
        case True
        with r1 have "ret = 0" "n = n1" "s' = sfs_set_links fs n1 v" by auto
        moreover have "found n1 s v" using low_found [OF lu] c' True by simp
        then have "found n1 s (sfs_set_links fs n1 v)"
          by (rule found_low) (simp add: sfs_set_links_def)
        ultimately show ?thesis by simp
      next
        case False
        with r1 c' have "preserves {} (put_sfs fs sfs u) s'" "ret \<noteq> 0" by auto
        with low_then [OF lu this(1)] show ?thesis by simp
      qed
    qed
  qed
qed

lemma sfs_lookup_once_found:
  assumes "sfs_lookup_once fs n name s = Some (ret, r, s')"
  shows "if ret = 0 then found r s s' else preserves {} s s'"
proof -
  obtain p u where k: "kmalloc_answer s = (p, u)" by fastforce
  note kl = kmalloc_answer_low(1) [OF k]
  show ?thesis
  proof (cases "low s s' \<and> ret \<noteq> 0")
    case True
    then show ?thesis by (simp add: low_preserves)
  next
    case False
    with assms k kl obtain sfs sin ino where l: "sfs_load_inode fs ino (put_sfs fs sfs (put_sin n sin u)) = Some (ret, r, s')"
      by (auto simp: sfs_lookup_once_def bind_Some_iff Let_def split: if_splits)
    have lu: "low s (put_sfs fs sfs (put_sin n sin u))" using kl by simp
    from sfs_load_inode_found [OF l] low_found [OF lu] low_then [OF lu]
    show ?thesis by (auto split: if_splits)
  qed
qed

lemma goes_low: "goes a b s s' \<Longrightarrow> low s' s'' \<Longrightarrow> goes a b s s''"
  by (rule goes_keep [OF _ low_preserves])

lemma sfs_lookup_hands:
  assumes "sfs_lookup (kernel_ops D) n path s = Some (ret, r, s')" "counted s"
  shows "hands_out ret r s s'"
proof -
  from assms(1) obtain fs c t and sin :: sfs_inode where inc: "inode_ref_inc n s = Some (c, t)"
    and rest: "(if din_type (sin_din sin) \<noteq> SFS_TYPE_DIR then
            do { (_, t) \<leftarrow> inode_ref_dec (kernel_ops D) n t; Some (- E_NOTDIR, 0, t) }
          else do {
            (ret, sub, t) \<leftarrow> sfs_lookup_once fs n path t;
            (_, t) \<leftarrow> inode_ref_dec (kernel_ops D) n t;
            if ret \<noteq> 0 then Some (ret, 0, t) else Some (0, sub, t) }) = Some (ret, r, s')"
    by (cases "path \<noteq> [] \<and> hd path \<noteq> CHR ''/''") (auto simp: sfs_lookup_def bind_Some_iff)
  have g: "goes (at n) none s t" using goes_found [OF ref_inc_found [OF inc]] by simp
  have rel: "goes none none s s'"
    if "goes (at n) none s u" "inode_ref_dec (kernel_ops D) n u = Some (c', s')" for u c'
    by (rule kn.goes_release [OF that _ assms(2)]) simp_all
  show ?thesis
  proof (cases "din_type (sin_din sin) = SFS_TYPE_DIR")
    case False
    with rest g rel show ?thesis by (auto simp: hands_out_def bind_Some_iff)
  next
    case True
    with rest obtain r1 sub u c' where o: "sfs_lookup_once fs n path t = Some (r1, sub, u)"
      and dec: "inode_ref_dec (kernel_ops D) n u = Some (c', s')"
      and res: "(if r1 \<noteq> 0 then Some (r1, 0, s') else Some (0, sub, s')) = Some (ret, r, s')"
      by (auto simp: bind_Some_iff split: if_splits)
    note o' = sfs_lookup_once_found [OF o]
    show ?thesis
    proof (cases "r1 = 0")
      case False
      with o' g have "goes (at n) none s u" by (auto intro: goes_keep)
      from rel [OF this dec] res False show ?thesis by (simp add: hands_out_def)
    next
      case z: True
      with o' have f: "goes (at sub) none t u \<and> inode_at u sub \<noteq> None" by (simp add: goes_found)
      have g': "goes (\<lambda>q. at n q + at sub q) none s u"
        by (rule goes_trans [OF g conjunct1 [OF f] assms(2)]) simp_all
      have "goes (at sub) none s s'"
        by (rule kn.goes_release [OF g' dec _ assms(2)]) simp_all
      moreover have "inode_at s' sub \<noteq> None"
      proof (rule kn.release_live [OF dec conjunct2 [OF f]])
        assume "sub = n"
        with goes_rc [OF g', of n] assms(2) show "1 < rc u n" by (smt (verit) at_eq)
      qed
      ultimately show ?thesis using res z by (simp add: hands_out_def)
    qed
  qed
qed


text \<open>
  \<^verbatim>\<open>sfs_namefile\<close>: in each round one counted directory is exchanged for its parent.
\<close>

lemma namefile_step:
  assumes "goes (at n) none s0 s" "counted s0" "sfs_lookup_once fs n name s = Some (0, parent, u)"
    "inode_ref_dec (kernel_ops D) n u = Some (c, v)"
  shows "goes (at parent) none s0 v"
proof -
  have "found parent s u" using sfs_lookup_once_found [OF assms(3)] by simp
  note f = goes_found [OF this]
  have g: "goes (\<lambda>q. at n q + at parent q) none s0 u"
    by (rule goes_trans [OF assms(1) conjunct1 [OF f] assms(2)]) simp_all
  show ?thesis
    by (rule kn.goes_release [OF g assms(4) _ assms(2)]) simp_all
qed

lemma goes_drop:
  assumes "goes (at n) none s0 s" "counted s0" "inode_ref_dec (kernel_ops D) n s = Some (c, s')"
  shows "goes none none s0 s'"
  by (rule kn.goes_release [OF assms(1,3) _ assms(2)]) simp_all

lemma namefile_add_goes:
  assumes "namefile_add (inode_ref_dec (kernel_ops D)) fs parent ino (ptr, resid, s) = Some r"
    "counted s0" "goes (at parent) none s0 s"
  shows "case r of Inl (ret, ptr', resid', s') \<Rightarrow> goes none none s0 s'
    | Inr (n', ptr', resid', s') \<Rightarrow> goes (at n') none s0 s'"
proof -
  let ?dec = "inode_ref_dec (kernel_ops D)"
  obtain sin0 where 1: "sin_info parent s = Some sin0"
    using assms(1) by (cases "sin_info parent s") (auto simp: namefile_add_def)
  have 2: "ino \<noteq> sin_ino sin0 \<and> din_type (sin_din sin0) = SFS_TYPE_DIR"
    using assms(1) by (rule contrapos_pp) (auto simp: namefile_add_def 1)
  obtain sfs0 where 3: "fses (below s) fs = Some sfs0"
    using assms(1) 2 by (cases "fses (below s) fs") (auto simp: namefile_add_def 1)
  obtain ret entry sin sfs where
    4: "sfs_dirent_findino_nolock sfs0 sin0 ino (heap_entry (below s)) = Some (ret, entry, sin, sfs)"
    using assms(1) 2
    by (cases "sfs_dirent_findino_nolock sfs0 sin0 ino (heap_entry (below s))") (auto simp: namefile_add_def 1 3)
  have r: "(let s = put_sfs fs sfs (put_sin parent sin s); name = cname (ent_name entry); alen = length name + 1
        in if ret \<noteq> 0 then do { (_, s) \<leftarrow> ?dec parent s; Some (Inl (ret, ptr, resid, s)) }
        else if alen > resid then do { (_, s) \<leftarrow> ?dec parent s; Some (Inl (- E_NO_MEM, ptr, resid, s)) }
        else Some (Inr (parent, ptr - alen, resid - alen, put_bytes (ptr - alen) (name @ [47]) s))) = Some r"
    using assms(1) 2 by (simp add: namefile_add_def 1 3 4)
  let ?w = "put_sfs fs sfs (put_sin parent sin s)" and ?l = "length (cname (ent_name entry)) + 1"
  have gw: "goes (at parent) none s0 ?w" by (rule goes_low [OF assms(3)]) simp
  have drop: "case r of Inl (ret, ptr', resid', s') \<Rightarrow> goes none none s0 s' | Inr (n', ptr', resid', s') \<Rightarrow> goes (at n') none s0 s'"
    if d: "do { (_, s) \<leftarrow> ?dec parent ?w; Some (Inl (q, ptr, resid, s)) } = Some r" for q
  proof -
    from d obtain c s' where "?dec parent ?w = Some (c, s')" "r = Inl (q, ptr, resid, s')"
      by (auto simp: bind_Some_iff)
    with goes_drop [OF gw assms(2)] show ?thesis by simp
  qed
  show ?thesis
  proof (cases "ret = 0 \<and> ?l \<le> resid")
    case True
    with r have "r = Inr (parent, ptr - ?l, resid - ?l, put_bytes (ptr - ?l) (cname (ent_name entry) @ [47]) ?w)"
      by (simp add: Let_def)
    moreover have "goes (at parent) none s0 (put_bytes (ptr - ?l) (cname (ent_name entry) @ [47]) ?w)"
      by (rule goes_low [OF gw]) simp
    ultimately show ?thesis by simp
  next
    case False
    show ?thesis
    proof (cases "ret = 0")
      case True
      with r False have "do { (_, s) \<leftarrow> ?dec parent ?w; Some (Inl (- E_NO_MEM, ptr, resid, s)) } = Some r"
        by (simp add: Let_def)
      then show ?thesis by (rule drop)
    next
      case False
      with r have "do { (_, s) \<leftarrow> ?dec parent ?w; Some (Inl (ret, ptr, resid, s)) } = Some r"
        by (simp add: Let_def)
      then show ?thesis by (rule drop)
    qed
  qed
qed

lemma namefile_round_goes:
  assumes "namefile_round (inode_ref_dec (kernel_ops D)) fs n (ptr, resid, s) = Some r"
    "counted s0" "goes (at n) none s0 s"
  shows "case r of Inl (ret, ptr', resid', s') \<Rightarrow> goes none none s0 s'
    | Inr (n', ptr', resid', s') \<Rightarrow> goes (at n') none s0 s'"
proof -
  let ?dec = "inode_ref_dec (kernel_ops D)"
  from assms(1) obtain r1 parent u where l: "sfs_lookup_once fs n ''..'' s = Some (r1, parent, u)"
    and body: "(if r1 \<noteq> 0 then do { (_, s) \<leftarrow> ?dec n u; Some (Inl (r1, ptr, resid, s)) }
        else do {
          sin \<leftarrow> sin_info n u;
          (_, s) \<leftarrow> ?dec n u;
          if n = parent then do { (_, s) \<leftarrow> ?dec n s; Some (Inl (0, ptr, resid, s)) }
          else namefile_add ?dec fs parent (sin_ino sin) (ptr, resid, s) }) = Some r"
    unfolding namefile_round_def by (auto simp: bind_Some_iff)
  show ?thesis
  proof (cases "r1 = 0")
    case False
    with l have "preserves {} s u" using sfs_lookup_once_found [OF l] by simp
    then have gu: "goes (at n) none s0 u" by (rule goes_keep [OF assms(3)])
    from body False obtain d v where "?dec n u = Some (d, v)" "r = Inl (r1, ptr, resid, v)"
      by (auto simp: bind_Some_iff)
    with goes_drop [OF gu assms(2)] show ?thesis by simp
  next
    case True
    with body obtain d v and sin :: sfs_inode where dv: "?dec n u = Some (d, v)"
      and rest: "(if n = parent then do { (_, s) \<leftarrow> ?dec n v; Some (Inl (0, ptr, resid, s)) }
          else namefile_add ?dec fs parent (sin_ino sin) (ptr, resid, v)) = Some r"
      by (auto simp: bind_Some_iff simp del: split_paired_Ex)
    from l True have l0: "sfs_lookup_once fs n ''..'' s = Some (0, parent, u)" by simp
    have gv: "goes (at parent) none s0 v" by (rule namefile_step [OF assms(3,2) l0 dv])
    show ?thesis
    proof (cases "n = parent")
      case True
      with rest obtain d' w where "?dec parent v = Some (d', w)" "r = Inl (0, ptr, resid, w)"
        by (auto simp: bind_Some_iff)
      with goes_drop [OF gv assms(2)] show ?thesis by simp
    next
      case False
      with rest have "namefile_add ?dec fs parent (sin_ino sin) (ptr, resid, v) = Some r" by simp
      from namefile_add_goes [OF this assms(2) gv] show ?thesis .
    qed
  qed
qed

lemma namefile_loop_goes:
  assumes "namefile_loop (inode_ref_dec (kernel_ops D)) fs n (ptr, resid, s) = Some (ret, ptr', resid', s')"
    "counted s0" "goes (at n) none s0 s"
  shows "goes none none s0 s'"
proof -
  let ?dec = "inode_ref_dec (kernel_ops D)"
  let ?P = "\<lambda>dec (fs :: nat) n st r. \<forall>ptr resid s. st = (ptr, resid, s) \<longrightarrow> goes (at n) none s0 s \<longrightarrow>
      dec = ?dec \<longrightarrow> goes none none s0 (snd (snd (snd r)))"
  have "namefile_loop dec fs n st = Some r \<Longrightarrow> ?P dec fs n st r" for dec fs n st r
  proof (rule namefile_loop.raw_induct [where P = ?P, rotated])
    fix rec dec fs n st r
    assume ih: "\<And>dec fs n st r. rec dec fs n st = Some r \<Longrightarrow> ?P dec fs n st r"
      and body: "do { r \<leftarrow> namefile_round dec fs n st;
          case r of Inl x \<Rightarrow> Some x | Inr (n, st) \<Rightarrow> rec dec fs n st } = Some r"
    show "?P dec fs n st r"
    proof (intro allI impI)
      fix ptr resid s
      assume st: "st = (ptr, resid, s)" and g: "goes (at n) none s0 s" and dec: "dec = ?dec"
      from body obtain q where q: "namefile_round ?dec fs n (ptr, resid, s) = Some q"
        and rest: "(case q of Inl x \<Rightarrow> Some x | Inr (n, st) \<Rightarrow> rec dec fs n st) = Some r"
        by (auto simp: bind_Some_iff st dec)
      note nr = namefile_round_goes [OF q assms(2) g]
      show "goes none none s0 (snd (snd (snd r)))"
      proof (cases q)
        case (Inl x)
        with rest nr show ?thesis by (cases x) auto
      next
        case (Inr y)
        obtain n' ptr' resid' s' where y: "y = (n', ptr', resid', s')" by (cases y) auto
        with rest Inr have "rec dec fs n' (ptr', resid', s') = Some r" by simp
        from ih [OF this] nr Inr y dec show ?thesis by auto
      qed
    qed
  qed
  from this [OF assms(1)] assms(3) show ?thesis by auto
qed

lemma sfs_namefile_goes:
  assumes "sfs_namefile (kernel_ops D) n iob s = Some (ret, iob', s')" "counted s"
  shows "goes none none s s'"
proof -
  obtain p t where k: "kmalloc_answer s = (p, t)" by fastforce
  note kl = kmalloc_answer_low(1) [OF k]
  show ?thesis
  proof (cases "low s s'")
    case True
    then show ?thesis by (intro goes_keeps low_preserves)
  next
    case False
    with assms(1) k kl obtain fs c u ret1 ptr resid v where inc: "inode_ref_inc n t = Some (c, u)"
      and l: "namefile_loop (inode_ref_dec (kernel_ops D)) fs n (io_base iob + io_resid iob, io_resid iob - 2, u)
        = Some (ret1, ptr, resid, v)" and s': "low v s'"
      by (auto simp: sfs_namefile_def bind_Some_iff Let_def split: if_splits)
    have "found n s u" by (rule low_found [OF kl ref_inc_found [OF inc]])
    then have "goes (at n) none s u" by (simp add: goes_found)
    from namefile_loop_goes [OF l assms(2) this] have "goes none none s v" .
    then show ?thesis using s' by (rule goes_low)
  qed
qed


lemmas kernel_tables = kernel_ops_eq sfs_node_dirops_def sfs_node_fileops_def dev_node_ops_def

lemma kernel_gettype_keeps:
  "vop_gettype (kernel_ops D) n s = Some (ret, ty, s') \<Longrightarrow> low s s'"
  unfolding vop_gettype_def
  by (erule vop_opE) (auto simp: kernel_tables split: if_splits dest: node_ops_low dev_gettype_keeps)

lemma kernel_dev_low:
  "dev_open D n flags s = Some (ret, s') \<Longrightarrow> low s s'"
  "dev_close D n s = Some (ret, s') \<Longrightarrow> low s s'"
  "dev_read D n iob s = Some (ret, iob', s') \<Longrightarrow> low s s'"
  "dev_write D n iob s = Some (ret, iob', s') \<Longrightarrow> low s s'"
  "dev_tryseek D n pos s = Some (ret, s') \<Longrightarrow> low s s'"
  "dev_ioctl D n cmd data s = Some (ret, s') \<Longrightarrow> low s s'"
  "dev_gettype D n s = Some (ret, ty, s') \<Longrightarrow> low s s'"
  by (auto simp: dev_open_def dev_close_def dev_read_def dev_write_def dev_tryseek_def dev_ioctl_def
      bind_Some_iff split: if_splits dest: dev_gettype_keeps)

lemma kernel_dev_fstat_low: "dev_fstat (kernel_ops D) D n s = Some (ret, st, s') \<Longrightarrow> low s s'"
  by (auto simp: dev_fstat_def bind_Some_iff Let_def split: if_splits dest: kernel_gettype_keeps)

text \<open>Every entry but reclaim, lookup and namefile works below the inodes only.\<close>

lemma kernel_ops_low:
  "op_open (kernel_ops D a) = Some f1 \<Longrightarrow> f1 n flags s = Some (ret, s') \<Longrightarrow> low s s'"
  "op_close (kernel_ops D a) = Some f2 \<Longrightarrow> f2 n s = Some (ret, s') \<Longrightarrow> low s s'"
  "op_read (kernel_ops D a) = Some f3 \<Longrightarrow> f3 n iob s = Some (ret, iob', s') \<Longrightarrow> low s s'"
  "op_write (kernel_ops D a) = Some f3 \<Longrightarrow> f3 n iob s = Some (ret, iob', s') \<Longrightarrow> low s s'"
  "op_fstat (kernel_ops D a) = Some f5 \<Longrightarrow> f5 n s = Some (ret, st, s') \<Longrightarrow> low s s'"
  "op_fsync (kernel_ops D a) = Some f2 \<Longrightarrow> f2 n s = Some (ret, s') \<Longrightarrow> low s s'"
  "op_getdirentry (kernel_ops D a) = Some f3 \<Longrightarrow> f3 n iob s = Some (ret, iob', s') \<Longrightarrow> low s s'"
  "op_gettype (kernel_ops D a) = Some f10 \<Longrightarrow> f10 n s = Some (ret, ty, s') \<Longrightarrow> low s s'"
  "op_tryseek (kernel_ops D a) = Some f11 \<Longrightarrow> f11 n pos s = Some (ret, s') \<Longrightarrow> low s s'"
  "op_truncate (kernel_ops D a) = Some f11 \<Longrightarrow> f11 n pos s = Some (ret, s') \<Longrightarrow> low s s'"
  "op_ioctl (kernel_ops D a) = Some f15 \<Longrightarrow> f15 n cmd data s = Some (ret, s') \<Longrightarrow> low s s'"
  by (auto simp: kernel_tables split: if_splits
      dest: node_ops_low getdirentry_node_low kernel_dev_low kernel_dev_fstat_low)

interpretation kn: inode_layer "kernel_ops D" for D :: "nat \<Rightarrow> 'd klow device"
proof
  fix a n path s ret r s' f14
  assume f: "op_lookup (kernel_ops D a) = Some f14" "f14 n path s = Some (ret, r, s')" "counted s"
  then have "f14 = dev_lookup \<or> f14 = sfs_lookup (kernel_ops D)"
    by (auto simp: kernel_tables split: if_splits)
  with f show "hands_out ret r s s'" by (auto intro: dev_lookup_hands sfs_lookup_hands)
next
  fix a n iob s ret iob' s' f7
  assume "op_namefile (kernel_ops D a) = Some f7" "f7 n iob s = Some (ret, iob', s')" "counted s"
  then show "goes none none s s'"
    by (auto simp: kernel_tables split: if_splits intro: sfs_namefile_goes)
next
  fix a show "op_create (kernel_ops D a) = None" by (simp add: kernel_tables)
qed (blast intro: low_preserves dest: kernel_ops_low)+

lemma sync_loop_keeps:
  assumes "sync_loop (kernel_ops D) fs le s = Some s'"
  shows "preserves {} s s'"
proof -
  let ?P = "\<lambda>T (fs :: nat) (le :: sfs_le) s s'. T = kernel_ops D \<longrightarrow> preserves {} s s'"
  have "sync_loop T fs le s = Some s' \<Longrightarrow> ?P T fs le s s'" for T fs le s s'
  proof (rule sync_loop.raw_induct [where P = ?P, rotated])
    fix rec T fs le s s'
    assume ih: "\<And>T fs le s s'. rec T fs le s = Some s' \<Longrightarrow> ?P T fs le s s'"
      and body: "(let le = list_next le (sfs_links (below s))
      in if le = InodeList fs then Some s
         else do { (_, s) \<leftarrow> vop_fsync T (le2sin le) s; rec T fs le s }) = Some s'"
    show "?P T fs le s s'"
    proof
      assume T: "T = kernel_ops D"
      show "preserves {} s s'"
      proof (cases "s' = s")
        case False
        with body obtain n ret u le' where v: "vop_fsync T n s = Some (ret, u)" and r: "rec T fs le' u = Some s'"
          by (auto simp: Let_def bind_Some_iff split: if_splits)
        have "preserves {} s u" using v kernel_fsync_keeps T by blast
        moreover have "preserves {} u s'" using ih [OF r] T by simp
        ultimately show ?thesis using moves_keeps [of "{}" none none s u "{}" s'] by simp
      qed simp
    qed
  qed
  with assms show ?thesis by simp
qed

lemma sfs_sync_keeps:
  assumes "sfs_sync (kernel_ops D) fs s = Some (ret, s')"
  shows "preserves {} s s'"
proof -
  from assms obtain u where u: "sync_loop (kernel_ops D) fs (InodeList fs) s = Some u" and l: "low u s'"
    by (auto simp: sfs_sync_def bind_Some_iff Let_def split: if_splits)
  from moves_keeps [OF sync_loop_keeps [OF u] low_preserves [OF l]] show ?thesis by auto
qed

lemma sfs_cleanup_loop_keeps:
  "sfs_cleanup_loop (kernel_ops D) fs k s = Some s' \<Longrightarrow> preserves {} s s'"
proof (induction k arbitrary: s)
  case (Suc k)
  then obtain ret u where u: "sfs_sync (kernel_ops D) fs s = Some (ret, u)"
    and r: "(if ret = 0 then Some u else sfs_cleanup_loop (kernel_ops D) fs k u) = Some s'"
    by (auto simp: bind_Some_iff)
  note k = sfs_sync_keeps [OF u]
  show ?case
  proof (cases "ret = 0")
    case True
    with r have "u = s'" by simp
    with k show ?thesis by blast
  next
    case False
    with r have "sfs_cleanup_loop (kernel_ops D) fs k u = Some s'" by simp
    from moves_keeps [of "{}" none none s u "{}" s', OF k Suc.IH [OF this]] show ?thesis by (simp only: Un_empty_left)
  qed
qed simp

lemma sfs_get_root_found: "sfs_get_root fs s = Some (r, s') \<Longrightarrow> found r s s'"
  by (auto simp: sfs_get_root_def bind_Some_iff split: if_splits dest: sfs_load_inode_found)

lemma sfs_unmount_low: "sfs_unmount fs s = Some (ret, s') \<Longrightarrow> low s s'"
  by (auto simp: sfs_unmount_def bind_Some_iff split: if_splits)

interpretation kn: fs_layer "kernel_ops D" "kernel_fs (kernel_ops D)" for D :: "nat \<Rightarrow> 'd klow device"
  by unfold_locales
    (auto simp: kernel_fs_def sfs_cleanup_def bind_Some_iff split: if_splits intro: low_preserves
      dest: sfs_get_root_found sfs_sync_keeps sfs_unmount_low sfs_cleanup_loop_keeps)

end
