(* ===== verification/SfsMount.thy ===== *)
theory SfsMount
  imports SfsNode
begin

text \<open>
  Mounting in kern/fs/sfs/sfs_fs.c and sfs.c: the superblock and the free map are read from
  the device and checked, and the new file system is entered into the device list. The
  words of the free map are read as they are written by \<^verbatim>\<open>sfs_sync_freemap\<close>.
\<close>

section \<open>Reading the superblock and the free map\<close>

definition SFS_HLIST_SIZE :: nat where "SFS_HLIST_SIZE = 1024"

definition bytes_freemap :: "byte list \<Rightarrow> 32 word list" where
  "bytes_freemap bs = map (\<lambda>i. of_nat (le_nat (slice (4 * i) 4 bs))) [0..<length bs div 4]"

text \<open>The file system stands for its device here: only that part of it is used.\<close>

definition sfs_init_read :: "sfs_fs \<Rightarrow> nat \<Rightarrow> byte list \<Rightarrow> int \<times> byte list \<times> sfs_fs" where
  "sfs_init_read dev blkno blk_buffer = dop_io dev blk_buffer (w32 (blkno * SFS_BLKSIZE)) False"

primrec init_freemap_loop :: "nat \<Rightarrow> sfs_fs \<Rightarrow> nat \<Rightarrow> byte list \<Rightarrow> int \<times> byte list" where
  "init_freemap_loop 0 dev blkno data = (0, data)"
| "init_freemap_loop (Suc nblks) dev blkno data =
     (let (ret, b, dev) = sfs_init_read dev blkno (take SFS_BLKSIZE data)
      in if ret \<noteq> 0 then (ret, b @ drop SFS_BLKSIZE data)
         else let (ret, bs) = init_freemap_loop nblks dev (w32 (blkno + 1)) (drop SFS_BLKSIZE data)
              in (ret, b @ bs))"

definition sfs_init_freemap :: "sfs_fs \<Rightarrow> bitmap \<Rightarrow> nat \<Rightarrow> nat \<Rightarrow> (int \<times> bitmap) option" where
  "sfs_init_freemap dev b blkno nblks =
     (let (len, data) = bitmap_getdata b
      in do { kassert (len = w32 (nblks * SFS_BLKSIZE));
              let (ret, bs) = init_freemap_loop nblks dev blkno (freemap_bytes data);
              Some (ret, b\<lparr>bmap := bytes_freemap bs\<rparr>) })"

primrec count_unused :: "nat \<Rightarrow> nat \<Rightarrow> nat \<Rightarrow> bitmap \<Rightarrow> nat option" where
  "count_unused 0 i unused b = Some unused"
| "count_unused (Suc k) i unused b =
     do { t \<leftarrow> bitmap_test b i; count_unused k (i + 1) (if t then w32 (unused + 1) else unused) b }"

text \<open>Lines 197 to 218.\<close>

definition mount_super :: "sfs_fs \<Rightarrow> int \<times> sfs_fs" where
  "mount_super sfs =
     (let (ret, sfs_buffer, sfs) = sfs_init_read sfs SFS_BLKN_SUPER [];
          sb = bytes_super sfs_buffer
      in if ret \<noteq> 0 then (ret, sfs)
         else if magic sb \<noteq> SFS_MAGIC then (- E_INVAL, sfs)
         else if sblocks sb > d_blocks sfs then (- E_INVAL, sfs)
         else (0, sfs\<lparr>super := sb\<lparr>info := (info sb)[SFS_MAX_INFO_LEN := 0]\<rparr>\<rparr>))"

text \<open>Lines 236 to 259; the two flags say which calls of \<^verbatim>\<open>kmalloc\<close> succeed.\<close>

definition mount_freemap :: "bool \<Rightarrow> bool \<Rightarrow> sfs_fs \<Rightarrow> (int \<times> sfs_fs) option" where
  "mount_freemap got_bitmap got_map sfs =
     (let freemap_size_nbits = sfs_freemap_bits (super sfs)
      in do {
        r \<leftarrow> bitmap_create got_bitmap got_map freemap_size_nbits;
        case r of
          None \<Rightarrow> Some (- E_NO_MEM, sfs)
        | Some b \<Rightarrow>
            do { (ret, b) \<leftarrow> sfs_init_freemap sfs b SFS_BLKN_FREEMAP (sfs_freemap_blocks (super sfs));
                 if ret \<noteq> 0 then Some (ret, sfs)
                 else do { unused \<leftarrow> count_unused freemap_size_nbits 0 0 b;
                           kassert (unused = unused_blocks (super sfs));
                           Some (0, sfs\<lparr>freemap := b, super_dirty := False\<rparr>) } } })"

section \<open>Mounting\<close>

text \<open>Lines 190 to 259: every step after the allocation of the structure.\<close>

definition mount_load :: "sfs_fs \<Rightarrow> 'd kstate \<Rightarrow> (int \<times> sfs_fs \<times> 'd kstate) option" where
  "mount_load sfs s =
     (let (buffer, s) = kmalloc_answer s
      in if buffer = 0 then Some (- E_NO_MEM, sfs, s)
         else let (ret, sfs) = mount_super sfs
         in if ret \<noteq> 0 then Some (ret, sfs, s)
            else let (hash_list, s) = kmalloc_answer s
            in if hash_list = 0 then Some (- E_NO_MEM, sfs, s)
               else let (b, s) = kmalloc_answer s;
                        (m, s) = (if b \<noteq> 0 then kmalloc_answer s else (0, s))
               in do { (ret, sfs) \<leftarrow> mount_freemap (b \<noteq> 0) (m \<noteq> 0) sfs; Some (ret, sfs, s) })"

definition init_links :: "nat \<Rightarrow> sfs_le links \<Rightarrow> sfs_le links" where
  "init_links fs l = list_init (InodeList fs) (fold (\<lambda>i. list_init (SfsHash fs (of_nat i))) [0..<SFS_HLIST_SIZE] l)"

text \<open>
  \<^verbatim>\<open>dev\<close> is the inode of the device and \<^verbatim>\<open>fs_store\<close> what the variable to store the
  result in held. The lists are initialised while the file system is still private, so all
  of them are at the end.
\<close>

definition sfs_do_mount ::
  "(nat \<Rightarrow> 'd klow device) \<Rightarrow> nat \<Rightarrow> nat \<Rightarrow> 'd kstate \<Rightarrow> (int \<times> nat \<times> 'd kstate) option" where
  "sfs_do_mount D dev fs_store s =
     (if d_blocksize (D dev) \<noteq> SFS_BLKSIZE then Some (- E_NA_DEV, fs_store, s)
      else let (fs, s) = kmalloc_answer s
      in if fs = 0 then Some (- E_NO_MEM, fs_store, s)
         else do {
           (ret, sfs, s) \<leftarrow> mount_load ((heap_fs (below s))\<lparr>d_blocks := d_blocks_dev (D dev), disk := media (below s) dev\<rparr>) s;
           if ret \<noteq> 0 then Some (ret, fs_store, s)
           else let s = put_links (init_links fs (sfs_links (below s))) (put_sfs fs sfs s)
                in Some (0, fs, s\<lparr>below := (below s)\<lparr>fs_dev := (fs_dev (below s))(fs := dev)\<rparr>\<rparr>) })"

definition sfs_mount :: "(nat \<Rightarrow> 'd klow device) \<Rightarrow> string \<Rightarrow> 'd klow call" where
  "sfs_mount D name s = vfs_mount (sfs_do_mount D) name s"

definition sfs_init :: "(nat \<Rightarrow> 'd klow device) \<Rightarrow> 'd kstate \<Rightarrow> 'd kstate option" where
  "sfs_init D s = do { (ret, s) \<leftarrow> sfs_mount D ''disk0'' s; kassert (ret = 0); Some s }"

section \<open>A file system written back is mounted as it was\<close>

lemma bytes_freemap_bytes: "bytes_freemap (freemap_bytes ws) = ws"
proof (rule nth_equalityI)
  have l: "length (freemap_bytes ws) = 4 * length ws"
    using length_concat_u32 [of "map unat ws"] by (simp add: freemap_bytes_def comp_def)
  then show "length (bytes_freemap (freemap_bytes ws)) = length ws" by (simp add: bytes_freemap_def)
  fix i assume "i < length (bytes_freemap (freemap_bytes ws))"
  then have i: "i < length ws" using l by (simp add: bytes_freemap_def)
  have "slice (4 * i) 4 (freemap_bytes ws) = le_bytes 4 (unat (ws ! i))"
    using slice_concat_u32 [of i "map unat ws" "[]"] i by (simp add: freemap_bytes_def comp_def)
  moreover have "unat (ws ! i) < 2 ^ 32" using unsigned_less [of "ws ! i"] by simp
  ultimately show "bytes_freemap (freemap_bytes ws) ! i = ws ! i" using i l by (simp add: bytes_freemap_def)
qed

lemma length_freemap_bytes [simp]: "length (freemap_bytes ws) = 4 * length ws"
  using length_concat_u32 [of "map unat ws"] by (simp add: freemap_bytes_def comp_def)

lemma init_freemap_loop_ok:
  assumes "disk_ok sfs" "b + n \<le> sblocks (super sfs)" "length data = n * SFS_BLKSIZE"
  shows "init_freemap_loop n sfs b data = (0, concat (map (disk sfs) [b..<b + n]))"
  using assms(2,3)
proof (induction n arbitrary: b data)
  case (Suc n)
  have r: "sfs_init_read sfs b (take SFS_BLKSIZE data) = (0, disk sfs b, sfs)"
    using block_offset [OF assms(1), of b] Suc.prems by (simp add: sfs_init_read_def dop_io_def Let_def)
  have w: "w32 (Suc b) = Suc b" using Suc.prems rwblock_next [OF assms(1), of b] by simp
  have "init_freemap_loop n sfs (b + 1) (drop SFS_BLKSIZE data) = (0, concat (map (disk sfs) [b + 1..<b + 1 + n]))"
    using Suc.prems by (intro Suc.IH) simp_all
  moreover have "[b..<b + Suc n] = b # [b + 1..<b + 1 + n]" by (simp add: upt_conv_Cons)
  ultimately show ?case using w by (simp add: r del: upt_Suc)
qed simp

text \<open>What of a file system has to be on the device for the checks of the mount to pass.\<close>

definition mount_ready :: "sfs_fs \<Rightarrow> bool" where
  "mount_ready sfs \<longleftrightarrow> disk_ok sfs \<and> magic (super sfs) = SFS_MAGIC \<and> 0 < sblocks (super sfs) \<and>
     length (info (super sfs)) = SFS_MAX_INFO_LEN + 1 \<and> info (super sfs) ! SFS_MAX_INFO_LEN = 0 \<and>
     2 + sfs_freemap_blocks (super sfs) \<le> sblocks (super sfs) \<and>
     bitmap_inv (freemap sfs) \<and> nbits (freemap sfs) = sfs_freemap_bits (super sfs) \<and>
     card (free_ix (freemap sfs)) = unused_blocks (super sfs)"

lemma freemap_size:
  assumes "0 < sblocks sb" "sblocks sb \<le> 2 ^ 20"
  shows "0 < sfs_freemap_blocks sb" "sfs_freemap_blocks sb \<le> 32" "sfs_freemap_bits sb = 32768 * sfs_freemap_blocks sb"
proof -
  let ?n = "(sblocks sb + 32767) div 32768"
  have "?n < 33" using assms by (simp add: div_less_iff_less_mult)
  then have n: "0 < ?n" "?n \<le> 32" using assms(1) by (simp_all add: div_greater_zero_iff)
  have "w64 (sblocks sb + 32768 - 1) = sblocks sb + 32767" using assms by simp
  then have "ROUNDUP_DIV (sblocks sb) 32768 = ?n" "ROUNDUP (sblocks sb) 32768 = 32768 * ?n"
    by (simp_all add: ROUNDUP_DIV_def ROUNDUP_def ROUNDDOWN_mult)
  with n have e: "sfs_freemap_blocks sb = ?n" "sfs_freemap_bits sb = 32768 * ?n"
    by (simp_all add: sfs_freemap_blocks_def sfs_freemap_bits_def)
  with n show "0 < sfs_freemap_blocks sb" "sfs_freemap_blocks sb \<le> 32"
    "sfs_freemap_bits sb = 32768 * sfs_freemap_blocks sb" by simp_all
qed

lemma free_ix_card:
  assumes "bitmap_inv b" shows "finite (free_ix b)" "card (free_ix b) < 2 ^ 32"
proof -
  have s: "free_ix b \<subseteq> {..<nbits b}" "nbits b < 2 ^ 32" using assms by (simp_all add: bitmap_inv_def)
  then show "finite (free_ix b)" using finite_subset by blast
  have "card (free_ix b) \<le> card {..<nbits b}" using s(1) by (intro card_mono) simp_all
  with s(2) show "card (free_ix b) < 2 ^ 32" by simp
qed

lemma count_unused_eq:
  assumes b: "bitmap_inv b"
  shows "i + k \<le> nbits b \<Longrightarrow> u + card (free_ix b \<inter> {i..<i + k}) < 2 ^ 32 \<Longrightarrow>
    count_unused k i u b = Some (u + card (free_ix b \<inter> {i..<i + k}))"
proof (induction k arbitrary: i u)
  case (Suc k)
  have "{i..<i + Suc k} = insert i {Suc i..<Suc i + k}" by auto
  then have c: "card (free_ix b \<inter> {i..<i + Suc k}) =
      (if i \<in> free_ix b then 1 else 0) + card (free_ix b \<inter> {Suc i..<Suc i + k})"
    by (simp add: Int_insert_right)
  have t: "bitmap_test b i = Some (i \<in> free_ix b)" using b Suc.prems(1) by (intro bitmap_test_eq) simp_all
  show ?case
  proof (cases "i \<in> free_ix b")
    case True
    have "count_unused k (Suc i) (u + 1) b = Some (u + 1 + card (free_ix b \<inter> {Suc i..<Suc i + k}))"
      using Suc.prems c True by (intro Suc.IH) simp_all
    moreover have "w32 (u + 1) = u + 1" using Suc.prems c True by simp
    ultimately show ?thesis using t c True by simp
  next
    case False
    have "count_unused k (Suc i) u b = Some (u + card (free_ix b \<inter> {Suc i..<Suc i + k}))"
      using Suc.prems c False by (intro Suc.IH) simp_all
    with t c False show ?thesis by simp
  qed
qed simp

lemma count_unused_all:
  assumes "bitmap_inv b" shows "count_unused (nbits b) 0 0 b = Some (card (free_ix b))"
proof -
  have "free_ix b \<inter> {0..<0 + nbits b} = free_ix b" using assms by (auto simp: bitmap_inv_def)
  with count_unused_eq [OF assms, of 0 "nbits b" 0] free_ix_card [OF assms] show ?thesis by simp
qed

lemma mount_super_ok:
  assumes "0 < d_blocks sfs" "disk sfs 0 = splice_at 0 (super_bytes sb) (replicate SFS_BLKSIZE 0)"
    "magic sb = SFS_MAGIC" "sblocks sb \<le> d_blocks sfs" "sblocks sb < 2 ^ 32" "unused_blocks sb < 2 ^ 32"
    "length (info sb) = SFS_MAX_INFO_LEN + 1" "info sb ! SFS_MAX_INFO_LEN = 0"
  shows "mount_super sfs = (0, sfs\<lparr>super := sb\<rparr>)"
proof -
  have "bytes_super (disk sfs 0) = sb" using assms(2,3,5,6,7) by (simp add: splice_at_0 super_roundtrip)
  moreover have "(info sb)[SFS_MAX_INFO_LEN := 0] = info sb" using assms(8) list_update_id by metis
  ultimately show ?thesis using assms(1,3,4)
    by (simp add: mount_super_def sfs_init_read_def dop_io_def)
qed

lemma mount_freemap_ok:
  assumes "mount_ready sfs" "concat (map (disk j) [2..<2 + sfs_freemap_blocks (super sfs)]) = freemap_bytes (bmap (freemap sfs))"
    "super j = super sfs" "disk_ok j"
  shows "mount_freemap True True j = Some (0, j\<lparr>freemap := freemap sfs, super_dirty := False\<rparr>)"
proof -
  let ?k = "sfs_freemap_blocks (super sfs)" and ?b = "freemap sfs"
  have m: "bitmap_inv ?b" "nbits ?b = 32768 * ?k" "0 < ?k" "?k \<le> 32" "2 + ?k \<le> sblocks (super sfs)"
    "card (free_ix ?b) = unused_blocks (super sfs)" "sfs_freemap_bits (super sfs) = 32768 * ?k"
    using assms(1) freemap_size [of "super sfs"] by (auto simp: mount_ready_def disk_ok_def)
  have nw: "nwords ?b = 1024 * ?k" "length (bmap ?b) = 1024 * ?k" using m(1,2) by (auto simp: bitmap_inv_def)
  obtain c where c: "bitmap_create True True (32768 * ?k) = Some (Some c)" and ci: "bitmap_inv c" "nbits c = 32768 * ?k"
    using bitmap_create_inv [of "32768 * ?k"] m(3,4) by auto
  then have cw: "nwords c = 1024 * ?k" "length (bmap c) = 1024 * ?k" by (auto simp: bitmap_inv_def)
  have "init_freemap_loop ?k j 2 (freemap_bytes (bmap c)) = (0, freemap_bytes (bmap ?b))"
    using init_freemap_loop_ok [OF assms(4), of 2 ?k "freemap_bytes (bmap c)"] cw m assms(2,3) by simp
  moreover have "c\<lparr>bmap := bmap ?b\<rparr> = ?b" using ci cw nw m(2) by (cases c, cases "freemap sfs") simp
  ultimately have f: "sfs_init_freemap j c 2 ?k = Some (0, ?b)"
    using cw m(4) by (simp add: sfs_init_freemap_def bitmap_getdata_def bytes_freemap_bytes)
  have "count_unused (32768 * ?k) 0 0 ?b = Some (unused_blocks (super sfs))"
    using count_unused_all [OF m(1)] m(2,6) by simp
  with c f m assms(3) show ?thesis by (simp add: mount_freemap_def)
qed

lemma concat_slices: "length buf = n * B \<Longrightarrow> concat (map (\<lambda>i. slice (i * B) B buf) [0..<n]) = buf"
proof (induction n arbitrary: buf)
  case (Suc n)
  have "slice (i * B) B (drop B buf) = slice (Suc i * B) B buf" for i
    by (simp add: slice_def add.commute)
  with Suc.IH [of "drop B buf"] Suc.prems
  have "concat (map (\<lambda>i. slice (Suc i * B) B buf) [0..<n]) = drop B buf" by simp
  moreover have "[0..<Suc n] = 0 # map Suc [0..<n]" by (simp only: map_Suc_upt upt_conv_Cons zero_less_Suc)
  ultimately show ?case by (simp add: slice_def comp_def del: upt_Suc)
qed simp

lemma concat_written:
  assumes "length buf = n * SFS_BLKSIZE"
  shows "concat (map (written b n buf d) [b..<b + n]) = buf"
proof -
  have "map (written b n buf d) [b..<b + n] = map (\<lambda>i. slice (i * SFS_BLKSIZE) SFS_BLKSIZE buf) [0..<n]"
    by (rule nth_equalityI) (simp_all add: written_def)
  with concat_slices [OF assms] show ?thesis by simp
qed

text \<open>The file system after it is written back: block 0 and the blocks of the free map are new.\<close>

definition synced :: "sfs_fs \<Rightarrow> sfs_fs" where
  "synced sfs = sfs\<lparr>super_dirty := False, disk := written 2 (sfs_freemap_blocks (super sfs)) (freemap_bytes (bmap (freemap sfs)))
     ((disk sfs)(0 := splice_at 0 (super_bytes (super sfs)) (replicate SFS_BLKSIZE 0)))\<rparr>"

lemma mount_ready_map:
  assumes "mount_ready sfs"
  shows "length (freemap_bytes (bmap (freemap sfs))) = sfs_freemap_blocks (super sfs) * SFS_BLKSIZE"
    "length (splice_at 0 (super_bytes (super sfs)) (replicate SFS_BLKSIZE 0)) = SFS_BLKSIZE"
    "0 < sblocks (super sfs)" "disk_ok sfs" "2 + sfs_freemap_blocks (super sfs) \<le> sblocks (super sfs)"
proof -
  have m: "disk_ok sfs" "0 < sblocks (super sfs)" "sblocks (super sfs) \<le> 2 ^ 20" "bitmap_inv (freemap sfs)"
    "nbits (freemap sfs) = sfs_freemap_bits (super sfs)" "length (info (super sfs)) = 32"
    "2 + sfs_freemap_blocks (super sfs) \<le> sblocks (super sfs)"
    using assms by (auto simp: mount_ready_def disk_ok_def)
  have "length (bmap (freemap sfs)) = 1024 * sfs_freemap_blocks (super sfs)"
    using m(4,5) freemap_size(3) [OF m(2,3)] by (auto simp: bitmap_inv_def)
  then show "length (freemap_bytes (bmap (freemap sfs))) = sfs_freemap_blocks (super sfs) * SFS_BLKSIZE" by simp
  show "length (splice_at 0 (super_bytes (super sfs)) (replicate SFS_BLKSIZE 0)) = SFS_BLKSIZE"
    using m(6) by (simp add: super_bytes_def)
  show "0 < sblocks (super sfs)" "disk_ok sfs" "2 + sfs_freemap_blocks (super sfs) \<le> sblocks (super sfs)" by fact+
qed

lemma disk_ok_synced: assumes "mount_ready sfs" shows "disk_ok (synced sfs)"
proof -
  note m = mount_ready_map [OF assms]
  let ?t = "sfs\<lparr>super_dirty := False, disk := (disk sfs)(0 := splice_at 0 (super_bytes (super sfs)) (replicate SFS_BLKSIZE 0))\<rparr>"
  have "disk_ok ?t" using m(2,4) by (simp add: disk_ok_def)
  from disk_ok_written [OF this, of _ _ 2] m(1) show ?thesis by (simp add: synced_def)
qed

lemma sync_all:
  assumes "mount_ready sfs"
  shows "\<exists>t. sfs_sync_super (sfs\<lparr>super_dirty := False\<rparr>) = Some (0, t) \<and> sfs_sync_freemap t = Some (0, synced sfs)"
proof -
  note m = mount_ready_map [OF assms]
  let ?s = "sfs\<lparr>super_dirty := False\<rparr>"
  let ?t = "put_block 0 (splice_at 0 (super_bytes (super sfs)) (replicate SFS_BLKSIZE 0)) ?s"
  have s: "disk_ok ?s" using m(4) by (simp add: disk_ok_def)
  then have a: "sfs_sync_super ?s = Some (0, ?t)"
    using rwblock_write [OF s, of 0 False] m(3) by (simp add: sfs_sync_super_def)
  have "disk_ok ?t" using s m(2) by (intro disk_ok_put)
  from sfs_wblock_ok [OF this, of 2 "sfs_freemap_blocks (super sfs)" "freemap_bytes (bmap (freemap sfs))"] m(1,5)
  have "sfs_sync_freemap ?t = Some (0, synced sfs)"
    by (simp add: sfs_sync_freemap_def bitmap_getdata_def synced_def)
  with a show ?thesis by blast
qed

lemma mount_synced:
  assumes "mount_ready sfs" "disk j = disk (synced sfs)" "d_blocks j = d_blocks sfs"
  shows "mount_super j = (0, j\<lparr>super := super sfs\<rparr>)"
    "mount_freemap True True (j\<lparr>super := super sfs\<rparr>) =
       Some (0, j\<lparr>super := super sfs, freemap := freemap sfs, super_dirty := False\<rparr>)"
proof -
  note m = mount_ready_map [OF assms(1)]
  let ?k = "sfs_freemap_blocks (super sfs)"
  have r: "magic (super sfs) = SFS_MAGIC" "length (info (super sfs)) = 32" "info (super sfs) ! 31 = 0"
    "bitmap_inv (freemap sfs)" "card (free_ix (freemap sfs)) = unused_blocks (super sfs)"
    "sblocks (super sfs) \<le> d_blocks sfs" "sblocks (super sfs) \<le> 2 ^ 20"
    using assms(1) by (simp_all add: mount_ready_def disk_ok_def)
  have u: "unused_blocks (super sfs) < 2 ^ 32" using free_ix_card(2) [OF r(4)] r(5) by simp
  have d0: "disk (synced sfs) 0 = splice_at 0 (super_bytes (super sfs)) (replicate SFS_BLKSIZE 0)"
    by (simp add: synced_def written_def)
  show "mount_super j = (0, j\<lparr>super := super sfs\<rparr>)"
    by (rule mount_super_ok) (use assms(2,3) d0 r u m(3) in simp_all)
  have "concat (map (disk (synced sfs)) [2..<2 + ?k]) = freemap_bytes (bmap (freemap sfs))"
    using concat_written [OF m(1), of 2] by (simp add: synced_def)
  moreover have "disk_ok (j\<lparr>super := super sfs\<rparr>)"
    using disk_ok_synced [OF assms(1)] assms(2,3) by (simp add: disk_ok_def synced_def)
  ultimately show "mount_freemap True True (j\<lparr>super := super sfs\<rparr>) =
       Some (0, j\<lparr>super := super sfs, freemap := freemap sfs, super_dirty := False\<rparr>)"
    using assms(1,2) mount_freemap_ok [of sfs "j\<lparr>super := super sfs\<rparr>"] by simp
qed

lemma kmalloc_answer_free:
  "answers (below s) = a # as \<Longrightarrow> inodes s a = None \<Longrightarrow> fses (below s) a = None \<Longrightarrow>
   kmalloc_answer s = (a, s\<lparr>below := (below s)\<lparr>answers := as\<rparr>\<rparr>)"
  by (simp add: kmalloc_answer_def)

lemma init_links_empty: "list_empty (InodeList fs) (init_links fs l)"
  by (simp add: init_links_def ring_empty_iff [OF ring_init])

text \<open>A file system is mounted as it was written back, whatever the new structure held.\<close>

lemma do_mount_synced:
  assumes "mount_ready sfs" "media (below s) dev = disk (synced sfs)"
    "d_blocksize (D dev) = SFS_BLKSIZE" "d_blocks_dev (D dev) = d_blocks sfs"
    "answers (below s) = [p, q1, q2, q3, q4] @ ps"
    "\<And>a. a \<in> {p, q1, q2, q3, q4} \<Longrightarrow> a \<noteq> 0 \<and> inodes s a = None \<and> fses (below s) a = None"
  shows "\<exists>s'. sfs_do_mount D dev 0 s = Some (0, p, s') \<and> fses (below s') p = Some (synced sfs) \<and>
    list_empty (InodeList p) (sfs_links (below s'))"
proof -
  let ?j = "(heap_fs (below s))\<lparr>d_blocks := d_blocks sfs, disk := disk (synced sfs)\<rparr>"
  have m: "mount_super ?j = (0, ?j\<lparr>super := super sfs\<rparr>)"
    "mount_freemap True True (?j\<lparr>super := super sfs\<rparr>) =
       Some (0, ?j\<lparr>super := super sfs, freemap := freemap sfs, super_dirty := False\<rparr>)"
    by (rule mount_synced [OF assms(1)]; simp)+
  have e: "?j\<lparr>super := super sfs, freemap := freemap sfs, super_dirty := False\<rparr> = synced sfs"
    by (cases "heap_fs (below s)", cases sfs) (simp add: synced_def)
  let ?s = "\<lambda>as. s\<lparr>below := (below s)\<lparr>answers := as\<rparr>\<rparr>"
  have k: "kmalloc_answer s = (p, ?s (q1 # q2 # q3 # q4 # ps))"
    "kmalloc_answer (?s (q1 # q2 # q3 # q4 # ps)) = (q1, ?s (q2 # q3 # q4 # ps))"
    "kmalloc_answer (?s (q2 # q3 # q4 # ps)) = (q2, ?s (q3 # q4 # ps))"
    "kmalloc_answer (?s (q3 # q4 # ps)) = (q3, ?s (q4 # ps))"
    "kmalloc_answer (?s (q4 # ps)) = (q4, ?s ps)"
    using assms(5,6) by (simp_all add: kmalloc_answer_free)
  have "mount_load ?j (?s (q1 # q2 # q3 # q4 # ps)) = Some (0, synced sfs, ?s ps)"
    unfolding mount_load_def k(2) Let_def prod.case using m e k(3,4,5) assms(6) by simp
  with k(1) assms(2,3,4,6) show ?thesis
    by (simp add: sfs_do_mount_def put_links_def put_sfs_def Let_def init_links_empty)
qed

lemma sync_loop_none: "list_empty (InodeList fs) (sfs_links (below s)) \<Longrightarrow> sync_loop T fs (InodeList fs) s = Some s"
  by (subst sync_loop.simps) (simp add: list_empty_def list_next_def)

lemma sync_unmount:
  assumes "fs \<noteq> 0" "fses (below s) fs = Some sfs" "mount_ready sfs" "super_dirty sfs"
    "list_empty (InodeList fs) (sfs_links (below s))"
  shows "sfs_sync T fs s = Some (0, put_sfs fs (synced sfs) s)"
    "sfs_unmount fs (put_sfs fs (synced sfs) s) = Some (0, s\<lparr>below := (below s)\<lparr>fses := (fses (below s))(fs := None),
       media := (media (below s))(fs_dev (below s) fs := disk (synced sfs))\<rparr>\<rparr>)"
proof -
  obtain t where "sfs_sync_super (sfs\<lparr>super_dirty := False\<rparr>) = Some (0, t)" "sfs_sync_freemap t = Some (0, synced sfs)"
    using sync_all [OF assms(3)] by blast
  with assms show "sfs_sync T fs s = Some (0, put_sfs fs (synced sfs) s)"
    by (simp add: sfs_sync_def sync_loop_none)
  show "sfs_unmount fs (put_sfs fs (synced sfs) s) = Some (0, s\<lparr>below := (below s)\<lparr>fses := (fses (below s))(fs := None),
       media := (media (below s))(fs_dev (below s) fs := disk (synced sfs))\<rparr>\<rparr>)"
    using assms by (simp add: sfs_unmount_def put_sfs_def synced_def)
qed

text \<open>C40: A file system without cached inodes that is written back and unmounted is mounted
  again with the same superblock, the same free map and the same blocks, and with empty lists
  of inodes; only block 0 and the blocks of the free map on the device are new.\<close>

theorem sync_unmount_mount:
  assumes "fs \<noteq> 0" "fses (below s) fs = Some sfs" "mount_ready sfs" "super_dirty sfs"
    "list_empty (InodeList fs) (sfs_links (below s))"
    "d_blocksize (D (fs_dev (below s) fs)) = SFS_BLKSIZE" "d_blocks_dev (D (fs_dev (below s) fs)) = d_blocks sfs"
    "answers (below s) = [p, q1, q2, q3, q4] @ ps"
    "\<And>a. a \<in> {p, q1, q2, q3, q4} \<Longrightarrow> a \<noteq> 0 \<and> inodes s a = None \<and> (a = fs \<or> fses (below s) a = None)"
  shows "\<exists>s1 s2 s3 sfs'. sfs_sync (kernel_ops D) fs s = Some (0, s1) \<and> sfs_unmount fs s1 = Some (0, s2) \<and>
    sfs_do_mount D (fs_dev (below s) fs) 0 s2 = Some (0, p, s3) \<and> fses (below s3) p = Some sfs' \<and>
    super sfs' = super sfs \<and> freemap sfs' = freemap sfs \<and> d_blocks sfs' = d_blocks sfs \<and> \<not> super_dirty sfs' \<and>
    (\<forall>b. b = 0 \<or> 2 \<le> b \<and> b < 2 + sfs_freemap_blocks (super sfs) \<or> disk sfs' b = disk sfs b) \<and>
    list_empty (InodeList p) (sfs_links (below s3))"
proof -
  let ?s = "s\<lparr>below := (below s)\<lparr>fses := (fses (below s))(fs := None),
       media := (media (below s))(fs_dev (below s) fs := disk (synced sfs))\<rparr>\<rparr>"
  have "\<exists>s'. sfs_do_mount D (fs_dev (below s) fs) 0 ?s = Some (0, p, s') \<and> fses (below s') p = Some (synced sfs) \<and>
      list_empty (InodeList p) (sfs_links (below s'))"
    by (rule do_mount_synced [OF assms(3)]) (use assms(6-9) in auto)
  moreover have "\<forall>b. b = 0 \<or> 2 \<le> b \<and> b < 2 + sfs_freemap_blocks (super sfs) \<or> disk (synced sfs) b = disk sfs b"
    by (simp add: synced_def written_def)
  moreover have "super (synced sfs) = super sfs" "freemap (synced sfs) = freemap sfs"
    "d_blocks (synced sfs) = d_blocks sfs" "\<not> super_dirty (synced sfs)" by (simp_all add: synced_def)
  ultimately show ?thesis using sync_unmount [OF assms(1-5)] by blast
qed

definition empty_fs :: sfs_fs where
  "empty_fs = \<lparr>super = \<lparr>magic = SFS_MAGIC, sblocks = 3, unused_blocks = 0, info = replicate 32 0\<rparr>,
     freemap = \<lparr>nbits = 32768, nwords = 1024, bmap = replicate 1024 0\<rparr>, super_dirty = True, d_blocks = 3,
     disk = \<lambda>_. replicate SFS_BLKSIZE 0\<rparr>"

definition mounted_state :: "unit kstate" where
  "mounted_state = \<lparr>inodes = \<lambda>_. None,
     below = \<lparr>fses = [1 \<mapsto> empty_fs], fs_dev = \<lambda>_. 7, media = \<lambda>_ _. [],
       sins = \<lambda>_. \<lparr>sin_din = bytes_din [], sin_ino = 0, sin_dirty = False, reclaim_count = 0\<rparr>,
       sfs_links = list_init (InodeList 1) \<lparr>prv = \<lambda>a. a, nxt = \<lambda>a. a\<rparr>, kbytes = \<lambda>_. 0, answers = [1, 2, 3, 4, 5],
       heap_inode = \<lparr>is_device = False, ref_count = 0, open_count = 0, in_fs = 0, in_ops = 0\<rparr>,
       heap_entry = bytes_entry [], heap_fs = empty_fs, drivers = ()\<rparr>,
     bootfs_node = 0, vdevs = \<lambda>_. \<lparr>devname = [], devnode = 0, vfs = 0, mountable = False\<rparr>,
     vdev_links = \<lparr>prv = \<lambda>a. a, nxt = \<lambda>a. a\<rparr>, ftabs = \<lambda>_. None, filesp = 0\<rparr>"

definition small_device :: "'f device" where
  "small_device = \<lparr>d_blocks_dev = 3, d_blocksize = SFS_BLKSIZE, d_open = \<lambda>_ _. None, d_close = \<lambda>_. None,
     d_io = \<lambda>_ _ _. None, d_ioctl = \<lambda>_ _ _. None\<rparr>"

lemma empty_fs_ready: "mount_ready empty_fs"
proof -
  have "free_ix \<lparr>nbits = 32768, nwords = 1024, bmap = replicate 1024 0\<rparr> = {}"
    by (auto simp: free_ix_def free_at_def less_mult_imp_div_less)
  moreover have "sfs_freemap_blocks (super empty_fs) = 1" "sfs_freemap_bits (super empty_fs) = 32768"
    by (simp_all add: empty_fs_def sfs_freemap_blocks_def sfs_freemap_bits_def ROUNDUP_def ROUNDUP_DIV_def ROUNDDOWN_mult)
  ultimately show ?thesis
    by (simp add: mount_ready_def empty_fs_def disk_ok_def bitmap_inv_def)
qed

theorem sync_unmount_mount_witness:
  "\<exists>s1 s2 s3. sfs_sync (kernel_ops (\<lambda>_. small_device)) 1 mounted_state = Some (0, s1) \<and> sfs_unmount 1 s1 = Some (0, s2) \<and>
    sfs_do_mount (\<lambda>_. small_device) 7 0 s2 = Some (0, 1, s3)"
proof -
  have e: "fs_dev (below mounted_state) 1 = 7" "fses (below mounted_state) 1 = Some empty_fs"
    "super_dirty empty_fs" "d_blocks empty_fs = 3" "answers (below mounted_state) = [1, 2, 3, 4, 5] @ []"
    by (simp_all add: mounted_state_def empty_fs_def)
  have l: "list_empty (InodeList 1) (sfs_links (below mounted_state))"
    by (simp add: mounted_state_def ring_empty_iff [OF ring_init])
  have a: "a \<noteq> 0 \<and> inodes mounted_state a = None \<and> (a = 1 \<or> fses (below mounted_state) a = None)"
    if "a \<in> {1, 2, 3, 4, 5}" for a
    using that by (auto simp: mounted_state_def)
  have d: "d_blocksize (small_device :: unit klow device) = SFS_BLKSIZE" "d_blocks_dev (small_device :: unit klow device) = 3"
    by (simp_all add: small_device_def)
  from sync_unmount_mount [where D = "\<lambda>_. small_device", OF one_neq_zero e(2) empty_fs_ready e(3) l d(1) _ e(5) a]
  have "\<exists>s1 s2 s3. sfs_sync (kernel_ops (\<lambda>_. small_device)) 1 mounted_state = Some (0, s1) \<and> sfs_unmount 1 s1 = Some (0, s2) \<and>
      sfs_do_mount (\<lambda>_. small_device) (fs_dev (below mounted_state) 1) 0 s2 = Some (0, 1, s3)"
    using d(2) e(4) by metis
  then show ?thesis unfolding e(1) .
qed

end
