(* ===== verification/Spec2Isabelle.thy ===== *)
theory Spec2Isabelle
  imports PmmFirstFit BestFit Printfmt HashRand Bitmap Iobuf Sched WaitSem Philosophers Swap PageTable Vmm ProcHistory SfsDir Disk0 Stdin Kmalloc SfsMount
begin

text \<open>
  A verification library for the kernel of the ucore laboratories (src/lab8, with what only
  the earlier labs have from src/lab2 and src/lab3).

  \<^bold>\<open>The program.\<close> ucore is a teaching kernel for one RISC-V processor. It manages physical
  pages, three-level page tables and areas of user memory with swapping; it runs processes
  under a stride scheduler, with timers, wait queues and semaphores; and it has a small file
  system on a RAM disk. Nearly every component keeps its objects on the intrusive linked
  lists of libs/list.h.

  \<^bold>\<open>How the code is modelled.\<close> A C function is a HOL function from the state of its component
  to the result and the new state. A function that may not return (a failed \<^verbatim>\<open>assert\<close>,
  \<^verbatim>\<open>panic\<close>, a loop that need not end) has its result in \<^verbatim>\<open>option\<close>: \<^verbatim>\<open>None\<close> is
  not returning, and \<^verbatim>\<open>kassert\<close> is the assertion. A loop without a bound in the code is a
  \<^verbatim>\<open>partial_function\<close>, so that it needs no fuel, and the theorems prove that it
  returns. A structure is a record or a datatype, a pointer to a structure a number, an
  unsigned or signed integer whose width matters a word, an error code an \<^verbatim>\<open>int\<close>. What
  comes from a component outside the theory (most often the result of \<^verbatim>\<open>kmalloc\<close>) is an
  argument; what is released is recorded in the state. A call that reaches \<^verbatim>\<open>schedule\<close>
  gives up the processor, so the model of its caller is cut there into two definitions.

  \<^bold>\<open>The theories.\<close>
  \<^item> Prelude: \<^verbatim>\<open>kassert\<close>, error codes, rounding macros, generic lemmas.
  \<^item> DList (libs/list.h): lists as two pointer fields per entry; \<^verbatim>\<open>links\<close> and
    \<^verbatim>\<open>ring\<close> relate them to HOL lists. The locale \<^verbatim>\<open>fifo_store\<close> states what the
    clients use.
  \<^item> Pmm, PmmFirstFit (kern/mm/default_pmm.c), BestFit (lab2 best_fit_pmm.c): the two page
    allocators over the locale \<^verbatim>\<open>page_allocator\<close>. \<^verbatim>\<open>pmm_inv\<close> relates the page
    descriptors to the sorted list of free blocks.
  \<^item> Str (libs/string.c), Printfmt (libs/printfmt.c), HashRand (libs/hash.c, rand.c): byte
    memory, C strings, formatting. The root theory joins printing and reading of numbers.
  \<^item> SkewHeap (libs/skew_heap.h), Stride (kern/schedule/default_sched_stride.c), ProcData
    (kern/process/proc.h), Sched (kern/schedule/sched.c): the heap with its parent pointers,
    the scheduling class over the locale \<^verbatim>\<open>sched_queue\<close>, waking, scheduling, timers.
  \<^item> WaitSem (kern/sync/wait.c, sem.c), Philosophers (kern/sync/check_sync.c): the semaphore
    as a value and a queue, and the dining philosophers as a step relation over it.
  \<^item> Ramdisk (kern/driver/ide.c, ramdisk.c), Swap (kern/mm/swap.c, swap_fifo.c, swap_clock.c,
    swap_lru.c, kern/fs/swap/swapfs.c): sector copies, the three managers over the locale
    \<^verbatim>\<open>swap_policy\<close>, and swapping out and in.
  \<^item> PageTable (kern/mm/pmm.c, mmu.h): walking, inserting, removing, copying entries.
  \<^item> Vmm (kern/mm/vmm.c): areas, their list and cache, user checks, the page fault.
  \<^item> Process (kern/process/proc.c: the definitions), ProcTable (pids, hash table, family
    lists), ProcLife (fork, exit, wait, kill), ProcHistory (the step relation of all calls
    and its invariant).
  \<^item> Bitmap (kern/fs/sfs/bitmap.c), Iobuf (kern/fs/iobuf.c), SfsIo (kern/fs/sfs/sfs.h,
    sfs_io.c), SfsMap (sfs_inode.c: blocks and the block map of an inode), SfsFile
    (sfs_inode.c: reading, writing, lengths), SfsDir (sfs_inode.c: directories). The list
    \<^verbatim>\<open>inode_blocks\<close> is the abstract value of the block map.
  \<^item> Disk0 (kern/fs/devs/dev_disk0.c), Stdin (dev_stdin.c, dev_stdout.c): the devices.
    Disk0 refines the one-block \<^verbatim>\<open>dop_io\<close> of SfsIo; Stdin waits on the queues of
    WaitSem.
  \<^item> Vnode (kern/fs/vfs/inode.c, kern/fs/devs/dev.c), Vfs (the other files of kern/fs/vfs), Files
    (kern/fs/file.c, fs.c): inodes with their counters and tables of operations, named
    devices, paths, opening, and the descriptor tables. The locale \<^verbatim>\<open>inode_layer\<close> is what
    an operation table promises, \<^verbatim>\<open>fs_layer\<close> what a file system does; \<^verbatim>\<open>fsys_ok\<close>
    relates the descriptors to the counters.
  \<^item> SfsNode (kern/fs/sfs/sfs_inode.c: the cached inodes and the two operation tables), SfsMount
    (sfs_fs.c, sfs.c): the kernel's own tables \<^verbatim>\<open>kernel_ops\<close> and \<^verbatim>\<open>kernel_fs\<close>, which
    interpret the two locales, loading, reclaiming, path names, syncing and mounting.
  \<^item> Kmalloc (kern/mm/kmalloc.c): the SLOB heap as a circular list of free blocks.

  \<^bold>\<open>How the components interact.\<close> \<^verbatim>\<open>alloc_pages\<close> tries the page allocator and swaps out
  when it fails; swapping writes through the RAM disk and changes page table entries. The
  page fault handler finds the area, then walks and fills the page table with pages of the
  allocator. Process calls change the process table and the ready queue, which is the heap of
  the stride scheduler. Semaphores put the caller on a wait queue and wake the first waiter.
  A file operation maps the block through the inode, allocating from the bitmap, and moves
  the bytes block by block through the device; the disk device copies them between memory
  and the RAM disk. A reader of the keyboard sleeps on the queue that the interrupt wakes.

  \<^bold>\<open>What the lemmas show.\<close> Each component has a representation predicate between its pointers
  or words and an abstract value, lemmas that every operation keeps it and computes the
  abstract operation, and properties for its contract. The properties carry the labels C1,
  C2 and so on; the most important ones are the disjointness of allocated pages, the
  ready-queue and process-table invariants over all histories, the semaphore contract with
  the exclusion and the absence of deadlock of the philosophers, and the exact effect of
  page faults and of swapping. For the file system they are the outcomes of the block map,
  the round trip of writing and reading, the change of a file's length and the search of
  directories; for the heap, what a block returned by \<^verbatim>\<open>kmalloc\<close> is worth. Flaws of the code that the model shows
  are properties as well: a range freed at the end of the list is linked twice, the tick of
  the LRU manager does not end, an exiting process keeps its files open, a write of several
  whole blocks at the end of a file overwrites blocks of others, and some sizes make
  \<^verbatim>\<open>kmalloc\<close> panic or give out too few pages.

  \<^bold>\<open>Bounds.\<close> No theorem uses fuel. Executable sizes are those of the code (512 entries a
  table, 4096 bytes a page, \<^verbatim>\<open>MAX_PID\<close> 8192); witnesses use small concrete states.

  \<^bold>\<open>Not modelled.\<close> Start-up, device drivers, traps, system-call tables and debugging are
  register access, assembly, dispatch and text output. The monitor with condition variables
  is not modelled. \<^verbatim>\<open>do_execve\<close>, \<^verbatim>\<open>load_icode\<close>
  and kernel-thread start build machine contexts. The self-tests (\<^verbatim>\<open>check_...\<close>) are tests.
  User programs and host tools are not part of the kernel. Earlier labs hold earlier states of
  the same files.
\<close>

section \<open>Properties that span components\<close>



end
